(* ===== verification/Prelude.thy ===== *)
theory Prelude
  imports Main "HOL-Library.Word"
begin

text \<open>
  Shared vocabulary of the development: the machine integers of the Rust sources as words, the
  \<open>Result\<close> type and the \<open>?\<close> operator, Rust's checked and saturating arithmetic with its
  characterisation in the natural numbers, big-endian byte fields, and bit sequences written
  most significant bit first.  The collections \<open>unat_arith_simps\<close> (moving saturating
  arithmetic to \<open>nat\<close>) and \<open>result_simps\<close> (eliminating the error monad) carry the
  component proofs.
\<close>

unbundle bit_operations_syntax

named_theorems unat_arith_simps \<open>saturating and checked word arithmetic, read through unat\<close>
named_theorems result_simps \<open>elimination of the error monad\<close>

text \<open>Shifts stay shifts: the library's rewriting of \<open>push_bit (Suc n)\<close> into a doubling is
  not wanted in the bit-level proofs.\<close>

declare push_bit_Suc [simp del]

section \<open>Types of the sources\<close>

type_synonym u8 = "8 word"
type_synonym u16 = "16 word"
type_synonym u32 = "32 word"
type_synonym u64 = "64 word"
type_synonym u128 = "128 word"

text \<open>Signed integers are words read through \<open>sint\<close>.\<close>

type_synonym i64 = "64 word"
type_synonym i128 = "128 word"

type_synonym bytes = "u8 list"

section \<open>Results\<close>

text \<open>\<open>Result<A, E>\<close> is \<open>E + A\<close>: \<open>Inl\<close> is \<open>Err\<close>, \<open>Inr\<close> is \<open>Ok\<close>.
  \<open>rbind\<close> is the \<open>?\<close> operator.\<close>

definition rbind :: "'e + 'a \<Rightarrow> ('a \<Rightarrow> 'e + 'b) \<Rightarrow> 'e + 'b" where
  "rbind m f = (case m of Inl e \<Rightarrow> Inl e | Inr x \<Rightarrow> f x)"

definition map_err :: "('e \<Rightarrow> 'f) \<Rightarrow> 'e + 'a \<Rightarrow> 'f + 'a" where
  "map_err f m = (case m of Inl e \<Rightarrow> Inl (f e) | Inr x \<Rightarrow> Inr x)"

definition ok_or :: "'e \<Rightarrow> 'a option \<Rightarrow> 'e + 'a" where
  "ok_or e m = (case m of None \<Rightarrow> Inl e | Some x \<Rightarrow> Inr x)"

definition ok :: "'e + 'a \<Rightarrow> 'a option" where
  "ok m = (case m of Inl _ \<Rightarrow> None | Inr x \<Rightarrow> Some x)"

definition is_ok :: "'e + 'a \<Rightarrow> bool" where
  "is_ok m = (case m of Inl _ \<Rightarrow> False | Inr _ \<Rightarrow> True)"

text \<open>\<open>iter.map(f).collect::<Result<Vec<_>, _>>()\<close>: the first error, or every value.\<close>

primrec map_result :: "('a \<Rightarrow> 'e + 'b) \<Rightarrow> 'a list \<Rightarrow> 'e + 'b list" where
  "map_result f [] = Inr []"
| "map_result f (x # xs) = rbind (f x) (\<lambda>y. rbind (map_result f xs) (\<lambda>ys. Inr (y # ys)))"

lemma rbind_simps [simp]:
  "rbind (Inl e) f = Inl e"
  "rbind (Inr x) f = f x"
  by (simp_all add: rbind_def)

lemma map_err_simps [simp]:
  "map_err f (Inl e) = Inl (f e)"
  "map_err f (Inr x) = Inr x"
  by (simp_all add: map_err_def)

lemma ok_or_simps [simp]:
  "ok_or e None = Inl e"
  "ok_or e (Some x) = Inr x"
  by (simp_all add: ok_or_def)

lemma ok_simps [simp]:
  "ok (Inl e) = None"
  "ok (Inr x) = Some x"
  by (simp_all add: ok_def)

lemma is_ok_simps [simp]:
  "is_ok (Inl e) = False"
  "is_ok (Inr x) = True"
  by (simp_all add: is_ok_def)

lemma rbind_eq_Inr [result_simps]:
  "rbind m f = Inr y \<longleftrightarrow> (\<exists>x. m = Inr x \<and> f x = Inr y)"
  by (cases m) simp_all

lemma rbind_eq_Inl [result_simps]:
  "rbind m f = Inl e \<longleftrightarrow> m = Inl e \<or> (\<exists>x. m = Inr x \<and> f x = Inl e)"
  by (cases m) simp_all

lemma map_err_eq_Inr [result_simps]: "map_err f m = Inr y \<longleftrightarrow> m = Inr y"
  by (cases m) simp_all

lemma ok_or_eq_Inr [result_simps]: "ok_or e m = Inr y \<longleftrightarrow> m = Some y"
  by (cases m) simp_all

lemma ok_eq_Some [result_simps]: "ok m = Some y \<longleftrightarrow> m = Inr y"
  by (cases m) simp_all

lemma is_ok_iff [result_simps]: "is_ok m \<longleftrightarrow> (\<exists>x. m = Inr x)"
  by (cases m) simp_all

lemma rbind_cong [fundef_cong]:
  assumes "m = m'" and "\<And>x. m' = Inr x \<Longrightarrow> f x = f' x"
  shows "rbind m f = rbind m' f'"
  using assms by (cases m') simp_all

lemma map_result_Inr:
  assumes "\<And>x. x \<in> set xs \<Longrightarrow> f (g x) = Inr (h x)"
  shows "map_result f (map g xs) = Inr (map h xs)"
  using assms by (induction xs) simp_all

lemma map_result_length: "map_result f xs = Inr ys \<Longrightarrow> length ys = length xs"
  by (induction xs arbitrary: ys) (auto simp: result_simps)

section \<open>Rust integer arithmetic\<close>

definition sat_add :: "'a::len word \<Rightarrow> 'a word \<Rightarrow> 'a word" where
  "sat_add a b = (if unat a + unat b < 2 ^ LENGTH('a) then a + b else - 1)"

definition sat_sub :: "'a::len word \<Rightarrow> 'a word \<Rightarrow> 'a word" where
  "sat_sub a b = (if b \<le> a then a - b else 0)"

definition sat_mul :: "'a::len word \<Rightarrow> 'a word \<Rightarrow> 'a word" where
  "sat_mul a b = (if unat a * unat b < 2 ^ LENGTH('a) then a * b else - 1)"

definition checked_add :: "'a::len word \<Rightarrow> 'a word \<Rightarrow> 'a word option" where
  "checked_add a b = (if unat a + unat b < 2 ^ LENGTH('a) then Some (a + b) else None)"

definition checked_sub :: "'a::len word \<Rightarrow> 'a word \<Rightarrow> 'a word option" where
  "checked_sub a b = (if b \<le> a then Some (a - b) else None)"

definition checked_mul :: "'a::len word \<Rightarrow> 'a word \<Rightarrow> 'a word option" where
  "checked_mul a b = (if unat a * unat b < 2 ^ LENGTH('a) then Some (a * b) else None)"

text \<open>The signed operations: \<open>fits\<close> is the range of a signed word.\<close>

definition fits_signed :: "nat \<Rightarrow> int \<Rightarrow> bool" where
  "fits_signed n k \<longleftrightarrow> - (2 ^ (n - 1)) \<le> k \<and> k < 2 ^ (n - 1)"

definition schecked_add :: "'a::len word \<Rightarrow> 'a word \<Rightarrow> 'a word option" where
  "schecked_add a b = (if fits_signed LENGTH('a) (sint a + sint b) then Some (a + b) else None)"

definition checked_sub_unsigned :: "'a::len word \<Rightarrow> 'a word \<Rightarrow> 'a word option" where
  "checked_sub_unsigned a b = (if fits_signed LENGTH('a) (sint a - uint b) then Some (a - b) else None)"

definition checked_add_unsigned :: "'a::len word \<Rightarrow> 'a word \<Rightarrow> 'a word option" where
  "checked_add_unsigned a b = (if fits_signed LENGTH('a) (sint a + uint b) then Some (a + b) else None)"

text \<open>\<open>i64::try_from(u64)\<close> and \<open>u64::try_from(i64)\<close>: the same word, when it fits.\<close>

definition signed_try_from :: "'a::len word \<Rightarrow> 'a word option" where
  "signed_try_from a = (if unat a < 2 ^ (LENGTH('a) - 1) then Some a else None)"

definition unsigned_try_from :: "'a::len word \<Rightarrow> 'a word option" where
  "unsigned_try_from a = (if 0 \<le> sint a then Some a else None)"

definition div_ceil :: "nat \<Rightarrow> nat \<Rightarrow> nat" where
  "div_ceil a b = (a + b - 1) div b"

lemma unat_word_minus_one: "unat (- 1 :: 'a::len word) = 2 ^ LENGTH('a) - 1"
  by (simp add: unsigned_minus_1_eq_mask mask_eq_exp_minus_1)

lemma unat_sat_add [unat_arith_simps]:
  "unat (sat_add a b) = min (unat a + unat b) (2 ^ LENGTH('a) - 1)"
  for a b :: "'a::len word"
  by (auto simp: sat_add_def unat_word_ariths unat_word_minus_one)

lemma unat_sat_sub [unat_arith_simps]: "unat (sat_sub a b) = unat a - unat b"
  by (auto simp: sat_sub_def unat_sub word_le_nat_alt)

lemma unat_sat_mul [unat_arith_simps]:
  "unat (sat_mul a b) = min (unat a * unat b) (2 ^ LENGTH('a) - 1)"
  for a b :: "'a::len word"
  by (auto simp: sat_mul_def unat_word_ariths unat_word_minus_one)

lemma checked_add_eq_Some [unat_arith_simps]:
  "checked_add a b = Some c \<longleftrightarrow> unat c = unat a + unat b"
  for a b c :: "'a::len word"
proof
  show "unat c = unat a + unat b" if "checked_add a b = Some c"
    using that by (auto simp: checked_add_def unat_word_ariths split: if_splits)
  assume c: "unat c = unat a + unat b"
  have "unat a + unat b < 2 ^ LENGTH('a)"
    unfolding c [symmetric] by (rule unsigned_less)
  then show "checked_add a b = Some c"
    using c by (auto simp: checked_add_def word_unat_eq_iff unat_word_ariths)
qed

lemma checked_sub_eq_Some [unat_arith_simps]:
  "checked_sub a b = Some c \<longleftrightarrow> unat b \<le> unat a \<and> unat c = unat a - unat b"
  for a b c :: "'a::len word"
  by (auto simp: checked_sub_def word_le_nat_alt unat_sub word_unat_eq_iff)

lemma checked_mul_eq_Some [unat_arith_simps]:
  "checked_mul a b = Some c \<longleftrightarrow> unat c = unat a * unat b"
  for a b c :: "'a::len word"
proof
  show "unat c = unat a * unat b" if "checked_mul a b = Some c"
    using that by (auto simp: checked_mul_def unat_word_ariths split: if_splits)
  assume c: "unat c = unat a * unat b"
  have "unat a * unat b < 2 ^ LENGTH('a)"
    unfolding c [symmetric] by (rule unsigned_less)
  then show "checked_mul a b = Some c"
    using c by (auto simp: checked_mul_def word_unat_eq_iff unat_word_ariths)
qed

lemmas word_order_unat = word_le_nat_alt word_less_nat_alt word_unat_eq_iff

lemma u64_bound: "unat (w :: u64) < 2 ^ 64"
  using unsigned_less [of w] by simp

lemma unat_add_small:
  "unat a + unat b < 2 ^ LENGTH('a) \<Longrightarrow> unat (a + b) = unat a + unat b"
  for a b :: "'a::len word"
  by (simp add: unat_word_ariths)

lemma unat_mult_small:
  "unat a * unat b < 2 ^ LENGTH('a) \<Longrightarrow> unat (a * b) = unat a * unat b"
  for a b :: "'a::len word"
  by (simp add: unat_word_ariths)

lemma unat_sub_le: "unat b \<le> unat a \<Longrightarrow> unat (a - b) = unat a - unat b"
  for a b :: "'a::len word"
  by (simp add: unat_sub word_le_nat_alt)

lemma unat_of_nat_small: "n < 2 ^ LENGTH('a) \<Longrightarrow> unat (of_nat n :: 'a::len word) = n"
  by (simp add: unat_of_nat)

lemma unat_ucast_u32: "unat (ucast (w :: u32) :: u64) = unat w"
proof -
  have "unat w < 2 ^ 32" using unsigned_less [of w] by simp
  then show ?thesis by (simp add: unsigned_ucast_eq take_bit_nat_eq_self_iff)
qed

lemma sat_add_of_nat_1:
  assumes "n + 1 < 2 ^ LENGTH('a)"
  shows "sat_add (of_nat n) 1 = (of_nat (Suc n) :: 'a::len word)"
proof -
  have "unat (of_nat n :: 'a word) = n" using assms by (intro unat_of_nat_small) simp
  moreover have "unat (1 :: 'a word) = 1" by simp
  ultimately show ?thesis using assms unfolding sat_add_def by (simp add: add.commute [of _ 1])
qed

lemma sorted_map_last: "sorted (map f xs) \<Longrightarrow> y \<in> set xs \<Longrightarrow> f y \<le> f (last xs)"
  by (induction xs rule: rev_induct) (auto simp: sorted_append)

lemma unat_drop_bit_7_less: "0x80 \<le> v \<Longrightarrow> unat (drop_bit 7 v) < unat v"
  for v :: u64
  by (simp add: word_le_nat_alt drop_bit_eq_div unat_div)

lemma div_ceil_8: "div_ceil n 8 = (n + 7) div 8"
  by (simp add: div_ceil_def)

section \<open>Bit sequences, most significant bit first\<close>

text \<open>\<open>bits_of w n\<close>: the low \<open>n\<close> bits of a word as a stream of bits;
  \<open>of_bits\<close> reads a stream back the way the bit reader accumulates it.\<close>

definition bits_of :: "'a::len word \<Rightarrow> nat \<Rightarrow> bool list" where
  "bits_of w n = map (bit w) (rev [0..<n])"

definition shift_in :: "bool \<Rightarrow> 'a::len word \<Rightarrow> 'a word" where
  "shift_in b acc = push_bit 1 acc OR of_bool b"

definition of_bits :: "bool list \<Rightarrow> 'a::len word" where
  "of_bits bs = fold shift_in bs 0"

lemma length_bits_of [simp]: "length (bits_of w n) = n"
  by (simp add: bits_of_def)

lemma bits_of_0 [simp]: "bits_of w 0 = []"
  by (simp add: bits_of_def)

lemma bits_of_Suc: "bits_of w (Suc n) = bit w n # bits_of w n"
  by (simp add: bits_of_def)

lemma nth_bits_of: "i < n \<Longrightarrow> bits_of w n ! i = bit w (n - Suc i)"
  by (simp add: bits_of_def rev_nth)

lemma fold_bits_of: "fold shift_in (bits_of w n) acc = push_bit n acc OR take_bit n w"
  for w acc :: "'a::len word"
proof (induction n arbitrary: acc)
  case 0
  then show ?case by simp
next
  case (Suc n)
  have "push_bit n (shift_in (bit w n) acc) OR take_bit n w
      = push_bit (Suc n) acc OR take_bit (Suc n) w"
    unfolding shift_in_def by (rule bit_word_eqI) (auto simp: bit_simps less_Suc_eq simp del: push_bit_of_1)
  then show ?case
    by (simp only: bits_of_Suc fold_simps Suc.IH)
qed

lemma of_bits_bits_of: "of_bits (bits_of w n) = take_bit n w"
  for w :: "'a::len word"
  by (simp add: of_bits_def fold_bits_of)

lemma of_bits_bits_of_full: "LENGTH('a) \<le> n \<Longrightarrow> of_bits (bits_of w n) = w"
  for w :: "'a::len word"
  by (simp add: of_bits_bits_of take_bit_word_eq_self)

section \<open>Big-endian fields\<close>

text \<open>\<open>to_be_bytes\<close> and \<open>from_be_bytes\<close> for a field of \<open>n\<close> bytes.\<close>

definition to_be_bytes :: "nat \<Rightarrow> 'a::len word \<Rightarrow> bytes" where
  "to_be_bytes n w = map (\<lambda>i. ucast (drop_bit (8 * i) w)) (rev [0..<n])"

definition shift_in_byte :: "u8 \<Rightarrow> 'a::len word \<Rightarrow> 'a word" where
  "shift_in_byte b acc = push_bit 8 acc OR ucast b"

definition from_be_bytes :: "bytes \<Rightarrow> 'a::len word" where
  "from_be_bytes bs = fold shift_in_byte bs 0"

lemma length_to_be_bytes [simp]: "length (to_be_bytes n w) = n"
  by (simp add: to_be_bytes_def)

lemma to_be_bytes_0 [simp]: "to_be_bytes 0 w = []"
  by (simp add: to_be_bytes_def)

lemma to_be_bytes_Suc: "to_be_bytes (Suc n) w = ucast (drop_bit (8 * n) w) # to_be_bytes n w"
  by (simp add: to_be_bytes_def)

lemma fold_to_be_bytes:
  "fold shift_in_byte (to_be_bytes n w) acc = push_bit (8 * n) acc OR take_bit (8 * n) w"
  for w acc :: "'a::len word"
proof (induction n arbitrary: acc)
  case 0
  then show ?case by simp
next
  case (Suc n)
  have "push_bit (8 * n) (shift_in_byte (ucast (drop_bit (8 * n) w)) acc) OR take_bit (8 * n) w
      = push_bit (8 * n + 8) acc OR take_bit (8 * n + 8) w"
    unfolding shift_in_byte_def by (rule bit_word_eqI) (auto simp: bit_simps)
  moreover have "8 * Suc n = 8 * n + 8"
    by simp
  ultimately show ?case
    by (simp only: to_be_bytes_Suc fold_simps Suc.IH)
qed

lemma from_to_be_bytes:
  "from_be_bytes (to_be_bytes n w) = take_bit (8 * n) w"
  for w :: "'a::len word"
  by (simp add: from_be_bytes_def fold_to_be_bytes)

lemma from_to_be_bytes_full [simp]:
  "LENGTH('a) \<le> 8 * n \<Longrightarrow> from_be_bytes (to_be_bytes n w) = w"
  for w :: "'a::len word"
  by (simp add: from_to_be_bytes take_bit_word_eq_self)

lemma to_be_bytes_inject:
  "LENGTH('a) \<le> 8 * n \<Longrightarrow> to_be_bytes n v = to_be_bytes n w \<longleftrightarrow> v = w"
  for v w :: "'a::len word"
  by (metis from_to_be_bytes_full)


lemma from_be_bytes_snoc: "from_be_bytes (bs @ [b]) = push_bit 8 (from_be_bytes bs) OR ucast b"
  by (simp add: from_be_bytes_def shift_in_byte_def)

lemma to_be_bytes_snoc: "to_be_bytes (Suc n) w = to_be_bytes n (drop_bit 8 w) @ [ucast w]"
proof -
  have "[0..<Suc n] = 0 # map Suc [0..<n]"
    by (simp add: map_Suc_upt upt_conv_Cons del: upt_Suc)
  then have "rev [0..<Suc n] = map Suc (rev [0..<n]) @ [0]"
    by (simp add: rev_map del: upt_Suc)
  then show ?thesis
    by (simp add: to_be_bytes_def add.commute del: upt_Suc)
qed

lemma take_bit_from_be_bytes:
  "take_bit (8 * length bs) (from_be_bytes bs) = (from_be_bytes bs :: 'a::len word)"
proof (induction bs rule: rev_induct)
  case (snoc b bs)
  have small: "bit (from_be_bytes bs :: 'a word) i \<Longrightarrow> i < 8 * length bs" for i
    using snoc by (metis bit_take_bit_iff)
  have later: "bit (from_be_bytes bs :: 'a word) (i - 8) \<Longrightarrow> i < 8 + 8 * length bs" for i
    using small [of "i - 8"] by linarith
  show ?case
    by (intro bit_word_eqI) (auto simp: from_be_bytes_snoc bit_simps dest: bit_imp_le_length later)
qed (simp add: from_be_bytes_def)

lemma to_from_be_bytes:
  "8 * length bs \<le> LENGTH('a) \<Longrightarrow> to_be_bytes (length bs) (from_be_bytes bs :: 'a::len word) = bs"
proof (induction bs rule: rev_induct)
  case (snoc b bs)
  let ?w = "from_be_bytes bs :: 'a word"
  have small: "bit ?w i \<Longrightarrow> i < 8 * length bs" for i
    using take_bit_from_be_bytes [of bs, where 'a = 'a] by (metis bit_take_bit_iff)
  have "drop_bit 8 (push_bit 8 ?w OR ucast b) = ?w"
    using snoc.prems by (intro bit_word_eqI) (auto simp: bit_simps dest: bit_imp_le_length small)
  moreover have "ucast (push_bit 8 ?w OR ucast b) = b"
    using snoc.prems by (intro bit_word_eqI) (auto simp: bit_simps)
  ultimately show ?case
    using snoc by (simp add: to_be_bytes_snoc from_be_bytes_snoc)
qed simp

end
