(* ===== verification/Bits.thy ===== *)
theory Bits
  imports Prelude
begin

text \<open>
  Bit streams, varints and the two variable-length codes of the chunk codec
  (\<open>system-hub/hub-store/src/codec/bits.rs\<close>), with the error types of
  \<open>codec/mod.rs\<close>.  A writer is described by the bit list it holds (\<open>bw_rep\<close>), a reader
  by the bits it has left (\<open>br_rest\<close>).  The locale \<open>bit_code\<close> is the contract of a
  self-delimiting code, and is interpreted on the delta-of-delta code, the value code and the
  varint inside a bit stream.
\<close>

section \<open>Errors of the codec\<close>

datatype decode_error = Truncated | UnknownFormat u8 | TooLong | DecodeMalformed

datatype push_refused = Full | RefusedNotAfterLast | InvalidBucket

section \<open>The bit writer and the bit reader\<close>

record bit_writer =
  bw_bytes :: bytes
  bw_bits :: nat

record bit_reader =
  br_bytes :: bytes
  br_pos :: nat

definition bw_empty :: bit_writer where
  "bw_empty = \<lparr>bw_bytes = [], bw_bits = 0\<rparr>"

text \<open>The body of \<open>push\<close>'s loop, for the bit \<open>i\<close> of \<open>value\<close>.\<close>

definition bw_push_step :: "u64 \<Rightarrow> nat \<Rightarrow> bit_writer \<Rightarrow> bit_writer" where
  "bw_push_step value i w =
     (let b = drop_bit i value AND 1;
          bs = (if bw_bits w mod 8 = 0 then bw_bytes w @ [0] else bw_bytes w);
          last = length bs - 1;
          bs' = (if b = 1 then bs[last := bs ! last OR drop_bit (bw_bits w mod 8) 0x80] else bs)
      in w\<lparr>bw_bytes := bs', bw_bits := bw_bits w + 1\<rparr>)"

definition bw_push :: "bit_writer \<Rightarrow> u64 \<Rightarrow> nat \<Rightarrow> bit_writer" where
  "bw_push w value width = fold (bw_push_step value) (rev [0..<width]) w"

definition br_new :: "bytes \<Rightarrow> bit_reader" where
  "br_new bs = \<lparr>br_bytes = bs, br_pos = 0\<rparr>"

definition br_read :: "bit_reader \<Rightarrow> nat \<Rightarrow> decode_error + u64 \<times> bit_reader" where
  "br_read r width =
     (let end = br_pos r + width
      in if end > length (br_bytes r) * 8 then Inl Truncated
         else let value = fold (\<lambda>i acc. push_bit 1 acc
                                   OR ucast (drop_bit (7 - i mod 8) (br_bytes r ! (i div 8)) AND 1))
                            [br_pos r..<end] 0
              in Inr (value, r\<lparr>br_pos := end\<rparr>))"

definition br_bytes_read :: "bit_reader \<Rightarrow> nat" where
  "br_bytes_read r = div_ceil (br_pos r) 8"

section \<open>Zigzag and byte varints\<close>

definition zigzag :: "i64 \<Rightarrow> u64" where
  "zigzag v = push_bit 1 v XOR signed_drop_bit 63 v"

definition unzigzag :: "u64 \<Rightarrow> i64" where
  "unzigzag v = drop_bit 1 v XOR - (v AND 1)"

function write_varint :: "bytes \<Rightarrow> u64 \<Rightarrow> bytes" where
  "write_varint out value =
     (if value \<ge> 0x80
      then write_varint (out @ [(ucast value AND 0x7f) OR 0x80]) (drop_bit 7 value)
      else out @ [ucast value])"
  by pat_completeness auto
termination
  by (relation "measure (\<lambda>(out, value). unat value)") (simp_all add: unat_drop_bit_7_less)

declare write_varint.simps [simp del]

definition leading_zeros :: "u64 \<Rightarrow> nat" where
  "leading_zeros v = length (takeWhile Not (bits_of v 64))"

definition varint_len :: "u64 \<Rightarrow> nat" where
  "varint_len v = div_ceil (max (64 - leading_zeros v) 1) 7"

text \<open>The loop of \<open>read_varint\<close>: the position is \<open>*pos\<close>, which is not read after an error.\<close>

function read_varint_from :: "bytes \<Rightarrow> nat \<Rightarrow> u64 \<Rightarrow> nat \<Rightarrow> decode_error + u64 \<times> nat" where
  "read_varint_from bs grp value pos =
     (if grp \<ge> 10 then Inl DecodeMalformed
      else if pos \<ge> length bs then Inl Truncated
      else let byte = bs ! pos; bits = ucast (byte AND 0x7f)
           in if grp = 9 \<and> bits > 1 then Inl DecodeMalformed
              else let value' = value OR push_bit (7 * grp) bits
                   in if byte AND 0x80 = 0 then Inr (value', pos + 1)
                      else read_varint_from bs (grp + 1) value' (pos + 1))"
  by pat_completeness auto
termination
  by (relation "measure (\<lambda>(bs, grp, value, pos). 10 - grp)") auto

declare read_varint_from.simps [simp del]

definition read_varint :: "bytes \<Rightarrow> nat \<Rightarrow> decode_error + u64 \<times> nat" where
  "read_varint bs pos = read_varint_from bs 0 0 pos"

section \<open>The delta-of-delta code\<close>

definition low_bits :: "nat \<Rightarrow> u64" where
  "low_bits width = (if width \<ge> 64 then - 1 else push_bit width 1 - 1)"

definition DOD_STEPS :: "(u64 \<times> nat \<times> nat) list" where
  "DOD_STEPS = [(2, 2, 3), (6, 3, 7), (14, 4, 12), (15, 4, 32)]"

definition dod_step :: "i64 \<Rightarrow> (u64 \<times> nat \<times> nat) option option" where
  "dod_step dod =
     (if dod = 0 then Some None
      else map_option Some
        (find (\<lambda>(_, _, width). let half = sint (push_bit (width - 1) (1 :: i64))
                               in - half \<le> sint dod \<and> sint dod < half) DOD_STEPS))"

definition dod_bits :: "i64 \<Rightarrow> nat option" where
  "dod_bits dod = map_option (\<lambda>step. case step of None \<Rightarrow> 1 | Some (_, prefix_len, width) \<Rightarrow> prefix_len + width)
     (dod_step dod)"

definition write_dod :: "bit_writer \<Rightarrow> i64 \<Rightarrow> bool \<times> bit_writer" where
  "write_dod w dod =
     (case dod_step dod of
        None \<Rightarrow> (False, w)
      | Some None \<Rightarrow> (True, bw_push w 0 1)
      | Some (Some (prefix, prefix_len, width)) \<Rightarrow>
          (True, bw_push (bw_push w prefix prefix_len) (dod AND low_bits width) width))"

function read_ones :: "bit_reader \<Rightarrow> nat \<Rightarrow> nat \<Rightarrow> decode_error + nat \<times> bit_reader" where
  "read_ones r m ones =
     (if ones < m
      then rbind (br_read r 1) (\<lambda>(b, r'). if b = 1 then read_ones r' m (ones + 1) else Inr (ones, r'))
      else Inr (ones, r))"
  by pat_completeness auto
termination
  by (relation "measure (\<lambda>(r, m, ones). m - ones)") auto

declare read_ones.simps [simp del]

definition read_dod :: "bit_reader \<Rightarrow> decode_error + i64 \<times> bit_reader" where
  "read_dod r =
     rbind (read_ones r (length DOD_STEPS) 0) (\<lambda>(ones, r).
       if ones = 0 then Inr (0, r)
       else case DOD_STEPS ! (ones - 1) of (_, _, width) \<Rightarrow>
         rbind (br_read r width) (\<lambda>(field, r).
           let shift = 64 - width in Inr (signed_drop_bit shift (push_bit shift field), r)))"

section \<open>The value code\<close>

definition VALUE_WIDTHS :: "nat list" where
  "VALUE_WIDTHS = [6, 13, 20, 32, 64]"

definition value_step :: "u64 \<Rightarrow> nat option" where
  "value_step value =
     (if value \<noteq> 0
      then Some (case find (\<lambda>i. value \<le> low_bits (VALUE_WIDTHS ! i)) [0..<length VALUE_WIDTHS] of
                   Some i \<Rightarrow> i | None \<Rightarrow> length VALUE_WIDTHS - 1)
      else None)"

definition prefix_len :: "nat \<Rightarrow> nat" where
  "prefix_len step = (if step + 1 = length VALUE_WIDTHS then step + 1 else step + 2)"

definition value_bits :: "u64 \<Rightarrow> nat" where
  "value_bits value = (case value_step value of None \<Rightarrow> 1 | Some step \<Rightarrow> prefix_len step + VALUE_WIDTHS ! step)"

definition write_value :: "bit_writer \<Rightarrow> u64 \<Rightarrow> bit_writer" where
  "write_value w value =
     (case value_step value of
        None \<Rightarrow> bw_push w 0 1
      | Some step \<Rightarrow>
          let ones = step + 1;
              w = bw_push w (low_bits ones) ones;
              w = (if prefix_len step > ones then bw_push w 0 1 else w)
          in bw_push w value (VALUE_WIDTHS ! step))"

definition read_value :: "bit_reader \<Rightarrow> decode_error + u64 \<times> bit_reader" where
  "read_value r =
     rbind (read_ones r (length VALUE_WIDTHS) 0) (\<lambda>(ones, r).
       if ones = 0 then Inr (0, r) else br_read r (VALUE_WIDTHS ! (ones - 1)))"

section \<open>Varints inside a bit stream\<close>

function write_bit_varint :: "bit_writer \<Rightarrow> u64 \<Rightarrow> bit_writer" where
  "write_bit_varint w value =
     (let more = value \<ge> 0x80;
          w = bw_push w (of_bool more) 1;
          w = bw_push w (value AND 0x7f) 7
      in if more then write_bit_varint w (drop_bit 7 value) else w)"
  by pat_completeness auto
termination
  by (relation "measure (\<lambda>(w, value). unat value)") (simp_all add: unat_drop_bit_7_less)

declare write_bit_varint.simps [simp del]

function read_bit_varint_from :: "nat \<Rightarrow> u64 \<Rightarrow> bit_reader \<Rightarrow> decode_error + u64 \<times> bit_reader" where
  "read_bit_varint_from grp value r =
     (if grp \<ge> 10 then Inl DecodeMalformed
      else rbind (br_read r 1) (\<lambda>(more, r).
           rbind (br_read r 7) (\<lambda>(bits, r).
             if grp = 9 \<and> bits > 1 then Inl DecodeMalformed
             else let value' = value OR push_bit (7 * grp) bits
                  in if more = 1 then read_bit_varint_from (grp + 1) value' r else Inr (value', r))))"
  by pat_completeness auto
termination
  by (relation "measure (\<lambda>(grp, value, r). 10 - grp)") auto

declare read_bit_varint_from.simps [simp del]

definition read_bit_varint :: "bit_reader \<Rightarrow> decode_error + u64 \<times> bit_reader" where
  "read_bit_varint r = read_bit_varint_from 0 0 r"


section \<open>Streams of bits\<close>

definition stream :: "bytes \<Rightarrow> bool list" where
  "stream bs = concat (map (\<lambda>b. bits_of b 8) bs)"

text \<open>The writer holds exactly the bits \<open>bs\<close>, its last byte padded with zeros.\<close>

definition bw_rep :: "bit_writer \<Rightarrow> bool list \<Rightarrow> bool" where
  "bw_rep w bs \<longleftrightarrow> bw_bits w = length bs
     \<and> stream (bw_bytes w) = bs @ replicate (8 * div_ceil (length bs) 8 - length bs) False"

text \<open>The bits a reader has left, and the reader after \<open>n\<close> of them.\<close>

definition br_rest :: "bit_reader \<Rightarrow> bool list" where
  "br_rest r = drop (br_pos r) (stream (br_bytes r))"

definition br_skip :: "bit_reader \<Rightarrow> nat \<Rightarrow> bit_reader" where
  "br_skip r n = r\<lparr>br_pos := br_pos r + n\<rparr>"

lemma stream_simps [simp]:
  "stream [] = []"
  "stream (b # bs) = bits_of b 8 @ stream bs"
  "stream (xs @ ys) = stream xs @ stream ys"
  by (simp_all add: stream_def)

lemma length_stream [simp]: "length (stream bs) = 8 * length bs"
  by (induction bs) simp_all

lemma nth_stream: "i < 8 * length bs \<Longrightarrow> stream bs ! i = bit (bs ! (i div 8)) (7 - i mod 8)"
proof (induction bs arbitrary: i)
  case (Cons b bs)
  show ?case
  proof (cases "i < 8")
    case True
    then show ?thesis by (simp add: nth_append nth_bits_of)
  next
    case False
    then obtain j where j: "i = j + 8"
      by (metis add.commute le_Suc_ex not_less)
    then have "(j + 8) div 8 = Suc (j div 8)" and "(j + 8) mod 8 = j mod 8"
      by simp_all
    with Cons j show ?thesis by (simp add: nth_append)
  qed
qed simp

lemma bits_of_byte_inject: "bits_of a 8 = bits_of b 8 \<longleftrightarrow> a = b" for a b :: u8
  by (metis le_refl of_bits_bits_of_full len_num0 len_num1 len_bit0 mult_2 numeral_Bit0 one_add_one)

lemma stream_inject: "stream xs = stream ys \<longleftrightarrow> xs = ys"
proof
  show "xs = ys" if "stream xs = stream ys"
    using that
  proof (induction xs arbitrary: ys)
    case Nil
    then have "length (stream ys) = 0" by simp
    then show ?case by simp
  next
    case (Cons x xs)
    then have "length (stream ys) = 8 * Suc (length xs)" by (metis length_stream length_Cons)
    then obtain y zs where "ys = y # zs" by (cases ys) auto
    with Cons show ?case by (simp add: bits_of_byte_inject)
  qed
qed simp

lemma set_bit_stream:
  assumes "n < 8 * length bs"
  shows "stream (bs[n div 8 := bs ! (n div 8) OR drop_bit (n mod 8) 0x80]) = (stream bs)[n := True]"
proof (rule nth_equalityI)
  fix i
  assume "i < length (stream (bs[n div 8 := bs ! (n div 8) OR drop_bit (n mod 8) 0x80]))"
  then have i: "i < 8 * length bs" by simp
  have mask: "bit (drop_bit (n mod 8) (0x80 :: u8)) (7 - i mod 8) \<longleftrightarrow> i mod 8 = n mod 8"
  proof -
    have top: "(0x80 :: u8) = 2 ^ 7" by simp
    have "bit (0x80 :: u8) k \<longleftrightarrow> k = 7" for k
      by (simp only: top bit_exp_iff) auto
    moreover have "n mod 8 < 8" "i mod 8 < 8" by simp_all
    ultimately show ?thesis
      unfolding bit_drop_bit_eq comp_def by simp linarith
  qed
  show "stream (bs[n div 8 := bs ! (n div 8) OR drop_bit (n mod 8) 0x80]) ! i = (stream bs)[n := True] ! i"
  proof (cases "i div 8 = n div 8")
    case True
    then have eq: "i mod 8 = n mod 8 \<longleftrightarrow> i = n" by (metis div_mult_mod_eq)
    have last: "n div 8 < length bs" using assms by auto
    have "stream (bs[n div 8 := bs ! (n div 8) OR drop_bit (n mod 8) 0x80]) ! i
        \<longleftrightarrow> bit (bs[n div 8 := bs ! (n div 8) OR drop_bit (n mod 8) 0x80] ! (i div 8)) (7 - i mod 8)"
      by (rule nth_stream) (simp add: i)
    also have "\<dots> \<longleftrightarrow> bit (bs ! (i div 8)) (7 - i mod 8) \<or> i = n"
      unfolding True by (simp only: nth_list_update_eq [OF last] bit_or_iff mask eq)
    also have "\<dots> \<longleftrightarrow> (stream bs)[n := True] ! i"
      using i by (cases "i = n") (simp_all add: nth_list_update nth_stream)
    finally show ?thesis .
  next
    case False
    then have "i \<noteq> n" by auto
    then show ?thesis using i False by (simp add: nth_stream nth_list_update)
  qed
qed simp

lemma bw_rep_empty [simp]: "bw_rep bw_empty []"
  by (simp add: bw_rep_def bw_empty_def div_ceil_8)

lemma bw_rep_bytes_len: "bw_rep w bs \<Longrightarrow> length (bw_bytes w) = div_ceil (length bs) 8"
proof -
  assume "bw_rep w bs"
  then have "length (stream (bw_bytes w)) = length bs + (8 * div_ceil (length bs) 8 - length bs)"
    by (simp add: bw_rep_def)
  then show ?thesis by (simp add: div_ceil_8)
qed

lemma bit_and_1: "drop_bit i v AND 1 = of_bool (bit v i)" for v :: "'a::len word"
  by (simp add: and_one_eq bit_iff_odd_drop_bit odd_iff_mod_2_eq_one)

lemma bits_of_zero: "bits_of 0 n = replicate n False"
  by (rule nth_equalityI) (simp_all add: nth_bits_of)

lemma pad_step:
  "(if n mod 8 = 0 then 8 * div_ceil n 8 - n + 8 else 8 * div_ceil n 8 - n)
    = Suc (8 * div_ceil (Suc n) 8 - Suc n)"
proof -
  obtain q r where "n = 8 * q + r" and "r < 8"
    by (metis mod_less_divisor mult_div_mod_eq zero_less_numeral)
  moreover from this have "(Suc n + 7) div 8 = Suc q" and "(n + 7) div 8 = (if r = 0 then q else Suc q)"
    by (auto intro: div_nat_eqI)
  ultimately show ?thesis
    by (cases "r = 0") (simp_all add: div_ceil_8)
qed

lemma bw_rep_push_step:
  assumes "bw_rep w bs"
  shows "bw_rep (bw_push_step v i w) (bs @ [bit v i])"
proof -
  let ?n = "length bs"
  define cs where "cs = (if ?n mod 8 = 0 then bw_bytes w @ [0] else bw_bytes w)"
  define k where "k = 8 * div_ceil (Suc ?n) 8 - Suc ?n"
  have len: "length (bw_bytes w) = div_ceil ?n 8"
    using assms by (rule bw_rep_bytes_len)
  have lcs: "length cs = Suc (?n div 8)"
    by (auto simp: cs_def len div_ceil_8) presburger+
  have "(if ?n mod 8 = 0 then 8 * div_ceil ?n 8 - ?n + 8 else 8 * div_ceil ?n 8 - ?n) = Suc k"
    unfolding k_def by (rule pad_step)
  then have str: "stream cs = bs @ replicate (Suc k) False"
    using assms by (auto simp: cs_def bw_rep_def bits_of_zero simp flip: replicate_add split: if_splits
        simp del: replicate.simps)
  have last: "length cs - 1 = ?n div 8" and inside: "?n < 8 * length cs"
    using lcs by auto
  have "stream (if bit v i then cs[length cs - 1 := cs ! (length cs - 1) OR drop_bit (?n mod 8) 0x80] else cs)
      = (bs @ [bit v i]) @ replicate k False"
    using set_bit_stream [OF inside] unfolding last by (simp add: str list_update_append)
  moreover have "bw_bytes (bw_push_step v i w)
      = (if bit v i then cs[length cs - 1 := cs ! (length cs - 1) OR drop_bit (?n mod 8) 0x80] else cs)"
    using assms by (simp add: bw_push_step_def Let_def cs_def bw_rep_def bit_and_1)
  moreover have "bw_bits (bw_push_step v i w) = Suc ?n"
    using assms by (simp add: bw_push_step_def Let_def bw_rep_def)
  ultimately show ?thesis
    by (simp add: bw_rep_def k_def)
qed

lemma bw_rep_push: "bw_rep w bs \<Longrightarrow> bw_rep (bw_push w v n) (bs @ bits_of v n)"
proof (induction n arbitrary: w bs)
  case 0
  then show ?case by (simp add: bw_push_def)
next
  case (Suc n)
  have "bw_rep (bw_push (bw_push_step v n w) v n) ((bs @ [bit v n]) @ bits_of v n)"
    by (rule Suc.IH) (rule bw_rep_push_step [OF Suc.prems])
  then show ?case
    by (simp add: bw_push_def bits_of_Suc)
qed

lemma bw_rep_unique:
  assumes "bw_rep v bs" and "bw_rep w bs"
  shows "v = w"
proof -
  have "stream (bw_bytes v) = stream (bw_bytes w)" and "bw_bits v = bw_bits w"
    using assms by (simp_all add: bw_rep_def)
  then show ?thesis by (simp add: stream_inject)
qed


section \<open>Reading\<close>

lemma br_skip_simps [simp]:
  "br_rest (br_skip r n) = drop n (br_rest r)"
  "br_skip (br_skip r m) n = br_skip r (m + n)"
  "br_skip r 0 = r"
  "br_pos (br_skip r n) = br_pos r + n"
  "br_bytes (br_skip r n) = br_bytes r"
  by (simp_all add: br_skip_def br_rest_def add.commute)

lemma br_rest_new [simp]: "br_rest (br_new bs) = stream bs"
  by (simp add: br_rest_def br_new_def)

lemma fold_read_bits:
  assumes "pos + n \<le> 8 * length bs"
  shows "fold (\<lambda>i acc. push_bit 1 acc OR ucast (drop_bit (7 - i mod 8) (bs ! (i div 8)) AND 1))
      [pos..<pos + n] (acc :: u64) = fold shift_in (take n (drop pos (stream bs))) acc"
  using assms
proof (induction n arbitrary: pos acc)
  case 0
  then show ?case by simp
next
  case (Suc n)
  then have pos: "pos < length (stream bs)" and le: "Suc pos + n \<le> 8 * length bs" by simp_all
  have upt: "[pos..<pos + Suc n] = pos # [Suc pos..<Suc pos + n]"
    by (simp add: upt_rec)
  have "push_bit 1 acc OR ucast (drop_bit (7 - pos mod 8) (bs ! (pos div 8)) AND 1)
      = shift_in (stream bs ! pos) acc"
    using pos by (simp add: shift_in_def bit_and_1 nth_stream del: push_bit_of_1)
  then show ?case
    using Suc.IH [OF le] by (simp only: upt fold_simps Cons_nth_drop_Suc [OF pos, symmetric] take_Suc_Cons)
qed

lemma br_read_eq:
  "br_read r n = (if length (br_rest r) < n \<and> n \<noteq> 0 \<or> 8 * length (br_bytes r) < br_pos r
     then Inl Truncated else Inr (of_bits (take n (br_rest r)), br_skip r n))"
proof (cases "br_pos r + n \<le> 8 * length (br_bytes r)")
  case True
  then show ?thesis
    using fold_read_bits [OF True, of 0]
    by (auto simp: br_read_def Let_def of_bits_def br_rest_def br_skip_def mult.commute)
next
  case False
  then show ?thesis
    by (auto simp: br_read_def Let_def br_rest_def mult.commute)
qed

lemma br_read_bits_of:
  assumes "br_rest r = bits_of v n @ bs" and "0 < n"
  shows "br_read r n = Inr (of_bits (bits_of v n), br_skip r n)"
proof -
  have "0 < length (br_rest r)" using assms by simp
  then have "\<not> 8 * length (br_bytes r) < br_pos r" by (simp add: br_rest_def)
  then show ?thesis using assms by (simp add: br_read_eq)
qed

lemma br_read_u64:
  "br_rest r = bits_of (v :: u64) n @ bs \<Longrightarrow> 0 < n \<Longrightarrow> br_read r n = Inr (take_bit n v, br_skip r n)"
  by (simp add: br_read_bits_of of_bits_bits_of)

lemma br_read_bit:
  assumes "br_rest r = b # bs"
  shows "br_read r 1 = Inr (of_bool b, br_skip r 1)"
proof -
  have "bits_of (of_bool b :: u64) (Suc 0) = [b]"
    by (simp add: bits_of_Suc)
  then show ?thesis
    using assms br_read_u64 [of r "of_bool b" "Suc 0" bs] by simp
qed

text \<open>Whatever bits are left, a read either is truncated or takes a prefix of them.\<close>

lemma br_read_Inr:
  "br_read r n = Inr (v, r') \<Longrightarrow> r' = br_skip r n \<and> br_pos r + n \<le> 8 * length (br_bytes r)"
  by (auto simp: br_read_def Let_def br_skip_def mult.commute split: if_splits)

lemma read_ones_step:
  assumes "br_rest r = b # bs" and "ones < m"
  shows "read_ones r m ones = (if b then read_ones (br_skip r 1) m (Suc ones) else Inr (ones, br_skip r 1))"
  using assms br_read_bit [OF assms(1)] by (simp add: read_ones.simps [of r m ones])

lemma read_ones_zero:
  assumes "br_rest r = replicate k True @ False # bs" and "ones + k < m"
  shows "read_ones r m ones = Inr (ones + k, br_skip r (Suc k))"
  using assms
proof (induction k arbitrary: r ones)
  case 0
  then show ?case using read_ones_step [of r False bs ones m] by simp
next
  case (Suc k)
  from Suc.prems have "read_ones (br_skip r 1) m (Suc ones) = Inr (Suc ones + k, br_skip (br_skip r 1) (Suc k))"
    by (intro Suc.IH) simp_all
  with Suc.prems show ?case
    using read_ones_step [of r True "replicate k True @ False # bs" ones m] by simp
qed

lemma read_ones_full:
  assumes "br_rest r = replicate k True @ bs" and "ones + k = m"
  shows "read_ones r m ones = Inr (m, br_skip r k)"
  using assms
proof (induction k arbitrary: r ones)
  case 0
  then show ?case by (simp add: read_ones.simps [of r m m])
next
  case (Suc k)
  from Suc.prems have "read_ones (br_skip r 1) m (Suc ones) = Inr (m, br_skip (br_skip r 1) k)"
    by (intro Suc.IH) simp_all
  with Suc.prems show ?case
    using read_ones_step [of r True "replicate k True @ bs" ones m] by simp
qed

section \<open>Zigzag\<close>

lemma zigzag_zero [simp]: "zigzag 0 = 0"
  by (simp add: zigzag_def)

lemma bit_signed_63: "bit (signed_drop_bit 63 v) n \<longleftrightarrow> n < 64 \<and> bit v 63" for v :: u64
  by (auto simp: bit_simps not_less_eq_eq dest: bit_imp_le_length)

lemma bit_zigzag: "bit (zigzag v) n \<longleftrightarrow> n < 64 \<and> (0 < n \<and> bit v (n - 1)) \<noteq> bit v 63"
  by (simp only: zigzag_def bit_xor_iff bit_signed_63 bit_push_bit_iff) (auto simp: Suc_le_eq)

lemma unzigzag_zigzag [simp]: "unzigzag (zigzag v) = v"
proof (rule bit_word_eqI)
  fix n
  assume "n < LENGTH(64)"
  then have n: "n < 64" by simp
  have low: "zigzag v AND 1 = of_bool (bit v 63)"
    using bit_and_1 [of 0 "zigzag v"] bit_zigzag [of v 0] by simp
  have minus: "bit (- (of_bool (bit v 63)) :: u64) n \<longleftrightarrow> bit v 63"
    using n by (cases "bit v 63") simp_all
  show "bit (unzigzag (zigzag v)) n = bit v n"
  proof (cases "n = 63")
    case True
    then show ?thesis
      unfolding unzigzag_def low bit_xor_iff minus by (simp add: bit_drop_bit_eq bit_zigzag)
  next
    case False
    then show ?thesis
      using n unfolding unzigzag_def low bit_xor_iff minus by (auto simp: bit_drop_bit_eq bit_zigzag)
  qed
qed

lemma zigzag_inject: "zigzag v = zigzag w \<longleftrightarrow> v = w"
  by (metis unzigzag_zigzag)


section \<open>Byte varints\<close>

lemma take_bit_self: "unat u < 2 ^ n \<Longrightarrow> take_bit n u = u" for u :: "'a::len word"
  by (simp add: word_unat_eq_iff unsigned_take_bit_eq take_bit_nat_eq_self_iff)

lemma byte_masks: "(0x7f :: u8) = mask 7" "(0x80 :: u8) = 2 ^ 7" "(0x7f :: u64) = mask 7"
  by (simp_all add: mask_eq_exp_minus_1)

lemma varint_group_bits:
  "ucast (((ucast u AND 0x7f) OR 0x80 :: u8) AND 0x7f) = take_bit 7 u"
  "ucast ((ucast u :: u8) AND 0x7f) = take_bit 7 u"
  for u :: u64
  unfolding byte_masks
  by ((rule bit_word_eqI, simp only: bit_ucast_iff bit_and_iff bit_or_iff bit_mask_iff
      bit_exp_iff bit_take_bit_iff, auto))+

lemma varint_more_bit:
  "((ucast u AND 0x7f) OR 0x80 :: u8) AND 0x80 \<noteq> 0"
  "unat u < 128 \<Longrightarrow> (ucast u :: u8) AND 0x80 = 0"
  for u :: u64
proof -
  have "bit (((ucast u AND 0x7f) OR 0x80 :: u8) AND 0x80) 7"
    unfolding byte_masks by (simp only: bit_and_iff bit_or_iff bit_exp_iff) simp
  then show "((ucast u AND 0x7f) OR 0x80 :: u8) AND 0x80 \<noteq> 0" by auto
  assume "unat u < 128"
  then have "take_bit 7 u = u" by (simp add: take_bit_self)
  then have "\<not> bit u 7" by (metis bit_take_bit_iff less_irrefl)
  then show "(ucast u :: u8) AND 0x80 = 0"
    unfolding byte_masks by (intro bit_word_eqI) (simp only: bit_and_iff bit_exp_iff bit_ucast_iff, auto)
qed

lemma take_bit_group:
  "take_bit (7 * g) v OR push_bit (7 * g) (take_bit 7 (drop_bit (7 * g) v)) = take_bit (7 * Suc g) v"
  for v :: u64
proof -
  have "take_bit (7 * g) v OR push_bit (7 * g) (take_bit 7 (drop_bit (7 * g) v)) = take_bit (7 * g + 7) v"
    by (rule bit_word_eqI) (auto simp: bit_simps)
  then show ?thesis by (simp add: add.commute)
qed

lemma take_drop_group: "take_bit n v OR push_bit n (drop_bit n v) = v" for v :: u64
  by (rule bit_word_eqI) (auto simp: bit_simps, metis le_add_diff_inverse not_le_imp_less)

lemma drop_bit_63_small: "unat (drop_bit 63 v) < 2" for v :: u64
proof -
  have "unat v < 2 ^ 64" using unsigned_less [of v] by simp
  then show ?thesis
    by (simp add: drop_bit_eq_div unat_div less_mult_imp_div_less)
qed

lemma write_varint_append: "write_varint out v = out @ write_varint [] v"
proof (induction v arbitrary: out rule: measure_induct_rule [where f = unat])
  case (less v)
  show ?case
  proof (cases "0x80 \<le> v")
    case True
    have IH: "write_varint os (drop_bit 7 v) = os @ write_varint [] (drop_bit 7 v)" for os
      by (rule less.IH) (rule unat_drop_bit_7_less [OF True])
    show ?thesis
      using True by (simp add: write_varint.simps [of out v] write_varint.simps [of "[]" v]
          IH [of "out @ _"] IH [of "[_]"])
  next
    case False
    then show ?thesis by (simp add: write_varint.simps [of out v] write_varint.simps [of "[]" v])
  qed
qed

lemma write_varint_Nil:
  "write_varint [] v = (if 0x80 \<le> v then ((ucast v AND 0x7f) OR 0x80) # write_varint [] (drop_bit 7 v) else [ucast v])"
  by (simp add: write_varint.simps [of "[]" v] write_varint_append [of "[_]"])

lemma write_varint_nonempty: "write_varint [] v \<noteq> []"
  by (simp add: write_varint_Nil [of v])

lemma read_varint_from_write:
  assumes "g \<le> 9"
  shows "read_varint_from (pre @ write_varint [] (drop_bit (7 * g) v) @ suf) g (take_bit (7 * g) v) (length pre)
    = Inr (v, length pre + length (write_varint [] (drop_bit (7 * g) v)))"
  using assms
proof (induction "9 - g" arbitrary: g pre)
  case (0 g pre)
  then have g: "g = 9" by simp
  let ?u = "drop_bit 63 v"
  have u: "unat ?u < 2" by (rule drop_bit_63_small)
  then have "write_varint [] ?u = [ucast ?u]" and self: "take_bit 7 ?u = ?u"
    by (simp_all add: write_varint_Nil [of ?u] word_le_nat_alt take_bit_self)
  moreover have "take_bit 63 v OR push_bit 63 ?u = v"
    using take_bit_group [of 9 v] self by (simp add: take_bit_word_eq_self)
  ultimately show ?case
    using g u varint_group_bits(2) [of ?u] varint_more_bit(2) [of ?u]
    by (simp add: read_varint_from.simps [of _ 9] word_less_nat_alt Let_def)
next
  case (Suc k g pre)
  let ?u = "drop_bit (7 * g) v"
  have g: "g < 9" using Suc.hyps(2) by simp
  show ?case
  proof (cases "0x80 \<le> ?u")
    case True
    let ?b = "(ucast ?u AND 0x7f) OR 0x80 :: u8"
    have wr: "write_varint [] ?u = ?b # write_varint [] (drop_bit (7 * Suc g) v)"
      using True by (simp add: write_varint_Nil [of ?u] add.commute)
    have "read_varint_from ((pre @ [?b]) @ write_varint [] (drop_bit (7 * Suc g) v) @ suf) (Suc g)
        (take_bit (7 * Suc g) v) (length (pre @ [?b]))
      = Inr (v, length (pre @ [?b]) + length (write_varint [] (drop_bit (7 * Suc g) v)))"
      using Suc.hyps(2) g by (intro Suc.hyps(1)) simp_all
    then show ?thesis
      using g varint_more_bit(1) [of ?u] take_bit_group [of g v]
      unfolding wr
      by (subst read_varint_from.simps) (simp add: Let_def varint_group_bits)
  next
    case False
    then have u: "unat ?u < 128" by (simp add: word_le_nat_alt)
    then have self: "take_bit 7 ?u = ?u" by (simp add: take_bit_self)
    then show ?thesis
      using g False u self varint_more_bit(2) [of ?u] varint_group_bits(2) [of ?u] take_drop_group [of "7 * g" v]
      by (subst read_varint_from.simps) (simp add: write_varint_Nil [of ?u] Let_def)
  qed
qed

text \<open>A varint read where one was written gives it back and stops right after it.\<close>

lemma read_varint_write:
  "read_varint (pre @ write_varint [] v @ suf) (length pre) = Inr (v, length pre + length (write_varint [] v))"
  using read_varint_from_write [of 0 pre v suf] by (simp add: read_varint_def)

lemma length_write_varint_le:
  "1 \<le> k \<Longrightarrow> length (write_varint [] v) \<le> k \<longleftrightarrow> unat v < 2 ^ (7 * k)"
proof (induction k arbitrary: v)
  case (Suc k)
  show ?case
  proof (cases "0x80 \<le> v")
    case True
    then have v: "128 \<le> unat v" by (simp add: word_le_nat_alt)
    have d: "unat (drop_bit 7 v) = unat v div 128" by (simp add: drop_bit_eq_div unat_div)
    show ?thesis
    proof (cases "k = 0")
      case True
      then show ?thesis using v \<open>0x80 \<le> v\<close> write_varint_nonempty by (simp add: write_varint_Nil [of v])
    next
      case False
      then have "length (write_varint [] (drop_bit 7 v)) \<le> k \<longleftrightarrow> unat v div 128 < 2 ^ (7 * k)"
        using Suc.IH [of "drop_bit 7 v"] d by simp
      also have "\<dots> \<longleftrightarrow> unat v < 2 ^ (7 * Suc k)"
        by (simp add: div_less_iff_less_mult power_add mult.commute)
      finally show ?thesis using True by (simp add: write_varint_Nil [of v])
    qed
  next
    case False
    then have "unat v < 2 ^ 7" by (simp add: word_le_nat_alt)
    also have "(2 :: nat) ^ 7 \<le> 2 ^ (7 * Suc k)" by (rule power_increasing) simp_all
    finally show ?thesis using False by (simp add: write_varint_Nil [of v])
  qed
qed simp

lemma length_takeWhile_ge: "k \<le> length xs \<Longrightarrow> k \<le> length (takeWhile P xs) \<longleftrightarrow> (\<forall>i<k. P (xs ! i))"
proof (induction xs arbitrary: k)
  case (Cons x xs)
  then show ?case by (cases k) (auto simp: less_Suc_eq_0_disj)
qed simp

lemma bit_length_le: "n \<le> 64 \<Longrightarrow> 64 - leading_zeros v \<le> n \<longleftrightarrow> unat v < 2 ^ n"
proof -
  assume n: "n \<le> 64"
  have "64 - leading_zeros v \<le> n \<longleftrightarrow> 64 - n \<le> length (takeWhile Not (bits_of v 64))"
    unfolding leading_zeros_def by auto
  also have "\<dots> \<longleftrightarrow> (\<forall>i<64 - n. \<not> bit v (63 - i))"
    by (simp add: length_takeWhile_ge nth_bits_of)
  also have "\<dots> \<longleftrightarrow> (\<forall>j. n \<le> j \<and> j < 64 \<longrightarrow> \<not> bit v j)"
  proof (intro iffI allI impI)
    fix j
    assume h: "\<forall>i<64 - n. \<not> bit v (63 - i)" and j: "n \<le> j \<and> j < 64"
    then have "63 - j < 64 - n" by arith
    then show "\<not> bit v j" using h [rule_format, of "63 - j"] j by simp
  next
    fix i
    assume h: "\<forall>j. n \<le> j \<and> j < 64 \<longrightarrow> \<not> bit v j" and "i < 64 - n"
    then have "n \<le> 63 - i \<and> 63 - i < 64" by arith
    then show "\<not> bit v (63 - i)" using h by blast
  qed
  also have "\<dots> \<longleftrightarrow> take_bit n v = v"
    by (auto simp: bit_eq_iff bit_take_bit_iff not_less)
  also have "\<dots> \<longleftrightarrow> unat v < 2 ^ n"
    by (simp add: word_unat_eq_iff unsigned_take_bit_eq take_bit_nat_eq_self_iff)
  finally show ?thesis .
qed

lemma varint_len_write: "varint_len v = length (write_varint [] v)"
proof -
  let ?b = "64 - leading_zeros v"
  have le: "varint_len v \<le> k \<longleftrightarrow> length (write_varint [] v) \<le> k" if k: "1 \<le> k" for k
  proof (cases "7 * k \<le> 64")
    case True
    have "varint_len v \<le> k \<longleftrightarrow> max ?b 1 \<le> 7 * k"
      unfolding varint_len_def div_ceil_def by auto
    also have "\<dots> \<longleftrightarrow> ?b \<le> 7 * k" using k by simp
    finally show ?thesis by (simp only: bit_length_le [OF True] length_write_varint_le [OF k])
  next
    case False
    have "unat v < 2 ^ 64" using unsigned_less [of v] by simp
    also have "(2 :: nat) ^ 64 \<le> 2 ^ (7 * k)" using False by (intro power_increasing) simp_all
    finally have "unat v < 2 ^ (7 * k)" .
    moreover have "varint_len v \<le> k" unfolding varint_len_def div_ceil_def using False by auto
    ultimately show ?thesis by (simp add: length_write_varint_le [OF k])
  qed
  have "1 \<le> varint_len v" unfolding varint_len_def div_ceil_def by auto
  moreover have "1 \<le> length (write_varint [] v)" using write_varint_nonempty [of v] by (simp add: Suc_le_eq)
  ultimately show ?thesis using le by (metis antisym order_refl)
qed

lemma varint_len_le_10: "varint_len v \<le> 10"
proof -
  have "unat v < 2 ^ 64" using unsigned_less [of v] by simp
  also have "(2 :: nat) ^ 64 \<le> 2 ^ (7 * 10)" by simp
  finally show ?thesis by (simp add: varint_len_write length_write_varint_le)
qed


lemma bw_rep_exists: "\<exists>w. bw_rep w bs"
proof (induction bs rule: rev_induct)
  case Nil
  show ?case using bw_rep_empty by blast
next
  case (snoc b bs)
  then obtain w where "bw_rep w bs" by blast
  from bw_rep_push_step [OF this, of "of_bool b" 0] have "bw_rep (bw_push_step (of_bool b) 0 w) (bs @ [b])"
    by (cases b) simp_all
  then show ?case by blast
qed

section \<open>Self-delimiting codes\<close>

text \<open>
  The contract between the chunk encoders and a code: writing appends the code of the item, and
  reading at the code of an item gives the item back and stops right after it.
\<close>

locale bit_code =
  fixes put :: "bit_writer \<Rightarrow> 'a \<Rightarrow> bit_writer"
    and get :: "bit_reader \<Rightarrow> decode_error + 'a \<times> bit_reader"
    and code :: "'a \<Rightarrow> bool list"
    and codable :: "'a \<Rightarrow> bool"
  assumes put_rep: "codable x \<Longrightarrow> bw_rep w bs \<Longrightarrow> bw_rep (put w x) (bs @ code x)"
    and get_code: "codable x \<Longrightarrow> br_rest r = code x @ bs \<Longrightarrow> get r = Inr (x, br_skip r (length (code x)))"
begin

lemma get_after_put:
  assumes "codable x" and "bw_rep w bs"
  shows "get \<lparr>br_bytes = bw_bytes (put w x), br_pos = length bs\<rparr>
    = Inr (x, \<lparr>br_bytes = bw_bytes (put w x), br_pos = length bs + length (code x)\<rparr>)"
proof -
  have "bw_rep (put w x) (bs @ code x)"
    using assms by (rule put_rep)
  then obtain zs where "stream (bw_bytes (put w x)) = bs @ code x @ zs"
    by (auto simp: bw_rep_def)
  then have "br_rest \<lparr>br_bytes = bw_bytes (put w x), br_pos = length bs\<rparr> = code x @ zs"
    by (simp add: br_rest_def)
  from get_code [OF assms(1) this] show ?thesis
    by (simp add: br_skip_def)
qed

text \<open>No code of an item starts the code of another.\<close>

lemma prefix_free:
  assumes "codable x" and "codable y" and same: "code x @ bs = code y @ cs"
  shows "x = y"
proof -
  obtain w where "bw_rep w (code x @ bs)"
    using bw_rep_exists by blast
  then obtain zs where "stream (bw_bytes w) = code x @ bs @ zs"
    by (auto simp: bw_rep_def)
  then have "br_rest (br_new (bw_bytes w)) = code x @ bs @ zs"
    by simp
  moreover from this same have "br_rest (br_new (bw_bytes w)) = code y @ cs @ zs"
    by (metis append.assoc)
  ultimately show ?thesis
    using get_code assms(1,2) by (metis Inr_inject prod.inject)
qed

end

section \<open>The delta-of-delta code\<close>

definition dod_code :: "i64 \<Rightarrow> bool list" where
  "dod_code d = (case dod_step d of
       None \<Rightarrow> []
     | Some None \<Rightarrow> [False]
     | Some (Some (prefix, n, width)) \<Rightarrow> bits_of prefix n @ bits_of d width)"

definition dod_codable :: "i64 \<Rightarrow> bool" where
  "dod_codable d \<longleftrightarrow> dod_step d \<noteq> None"

lemma bits_of_take_bit: "n \<le> m \<Longrightarrow> bits_of (take_bit m v) n = bits_of v n"
  by (simp add: bits_of_def bit_take_bit_iff)

lemma low_bits_mask: "low_bits n = mask n"
  by (simp add: low_bits_def mask_eq_exp_minus_1 push_bit_eq_mult)

lemma bits_of_low_bits: "n \<le> 64 \<Longrightarrow> bits_of (low_bits n) n = replicate n True"
  by (intro nth_equalityI) (simp_all add: nth_bits_of low_bits_mask bit_mask_iff)

lemma bits_of_and_low_bits: "bits_of (v AND low_bits n) n = bits_of v n"
  by (simp add: low_bits_mask bits_of_take_bit flip: take_bit_eq_mask)

lemma sign_extend:
  fixes d :: i64
  assumes "0 < n" and "n \<le> 64" and fits: "fits_signed n (sint d)"
  shows "signed_drop_bit (64 - n) (push_bit (64 - n) (take_bit n d)) = d"
proof (rule bit_word_eqI)
  fix i
  assume "i < LENGTH(64)"
  then have i: "i < 64" by simp
  have "signed_take_bit (n - 1) (sint d) = sint d"
    using fits by (simp add: fits_signed_def signed_take_bit_int_eq_self_iff)
  then have "bit (sint d) i \<longleftrightarrow> bit (sint d) (min (n - 1) i)"
    by (metis bit_signed_take_bit_iff possible_bit_int)
  then have "bit d i \<longleftrightarrow> bit d (min (n - 1) i)"
    using i assms(2) by (simp add: bit_sint_iff)
  moreover have "bit (signed_drop_bit (64 - n) (push_bit (64 - n) (take_bit n d))) i \<longleftrightarrow> bit d (min (n - 1) i)"
  proof (cases "i < n")
    case True
    then have "\<not> 64 - (64 - n) \<le> i" and "min (n - 1) i = i" and "64 - n + i < 64" using assms(2) by auto
    then show ?thesis using True by (simp add: bit_signed_drop_bit_iff bit_push_bit_iff bit_take_bit_iff)
  next
    case False
    then have "64 - (64 - n) \<le> i" and "min (n - 1) i = n - 1" and "63 - (64 - n) = n - 1" and "64 - n \<le> 63"
      using assms(1,2) by auto
    then show ?thesis
      using i assms(1) by (simp add: bit_signed_drop_bit_iff bit_push_bit_iff bit_take_bit_iff)
  qed
  ultimately show "bit (signed_drop_bit (64 - n) (push_bit (64 - n) (take_bit n d))) i = bit d i"
    by simp
qed

lemma length_steps [simp]: "length DOD_STEPS = 4" "length VALUE_WIDTHS = 5"
  by (simp_all add: DOD_STEPS_def VALUE_WIDTHS_def)

lemma dod_step_Some:
  assumes "dod_step d = Some (Some (p, n, width))"
  obtains k where "k < 4" and "DOD_STEPS ! k = (p, n, width)" and "fits_signed width (sint d)"
proof -
  have half: "sint (push_bit 2 (1 :: i64)) = 4" "sint (push_bit 6 (1 :: i64)) = 64"
    "sint (push_bit 11 (1 :: i64)) = 2048" "sint (push_bit 31 (1 :: i64)) = 2147483648"
    by simp_all
  have found: "find (\<lambda>(_, _, width). let half = sint (push_bit (width - 1) (1 :: i64))
      in - half \<le> sint d \<and> sint d < half) DOD_STEPS = Some (p, n, width)"
    using assms by (simp add: dod_step_def split: if_splits)
  then have "fits_signed width (sint d)"
    by (auto simp: DOD_STEPS_def Let_def half fits_signed_def split: if_splits)
  moreover from found obtain k where "k < length DOD_STEPS" and "DOD_STEPS ! k = (p, n, width)"
    by (auto simp: find_Some_iff)
  ultimately show ?thesis using that by simp
qed

lemma dod_prefix_bits:
  "bits_of (2 :: u64) 2 = [True, False]"
  "bits_of (6 :: u64) 3 = [True, True, False]"
  "bits_of (14 :: u64) 4 = [True, True, True, False]"
  "bits_of (15 :: u64) 4 = [True, True, True, True]"
  by (simp_all add: bits_of_def upt_rec)

lemma replicate_small: "replicate 2 x = [x, x]" "replicate 3 x = [x, x, x]"
  by (simp_all add: numeral_eq_Suc)

lemma DOD_STEPS_nth:
  assumes "k < 4" and "DOD_STEPS ! k = (p, n, width)"
  shows "bits_of p n = replicate (Suc k) True @ (if Suc k < 4 then [False] else [])"
    and "n = (if Suc k < 4 then k + 2 else Suc k)" and "0 < width" and "width \<le> 32"
proof -
  have "k = 0 \<or> k = 1 \<or> k = 2 \<or> k = 3" using assms(1) by auto
  then show "bits_of p n = replicate (Suc k) True @ (if Suc k < 4 then [False] else [])"
    "n = (if Suc k < 4 then k + 2 else Suc k)" "0 < width" "width \<le> 32"
    using assms(2) by (auto simp: DOD_STEPS_def dod_prefix_bits replicate_small)
qed

lemma read_ones_prefix:
  assumes "br_rest r = replicate (Suc k) True @ (if Suc k < m then [False] else []) @ bs" and "Suc k \<le> m"
  shows "read_ones r m 0 = Inr (Suc k, br_skip r (if Suc k < m then k + 2 else Suc k))"
  using assms read_ones_zero [of r "Suc k" bs 0 m] read_ones_full [of r "Suc k" bs 0 m]
  by (auto split: if_splits)

lemma read_dod_step:
  assumes "br_rest r = bits_of p n @ bits_of d width @ bs" and "fits_signed width (sint d)"
    and "k < 4" and "DOD_STEPS ! k = (p, n, width)"
  shows "read_dod r = Inr (d, br_skip r (n + width))"
proof -
  note step = DOD_STEPS_nth [OF assms(3,4)]
  have "read_ones r 4 0 = Inr (Suc k, br_skip r n)"
    using read_ones_prefix [of r k 4 "bits_of d width @ bs"] assms(1,3) step(1,2) by simp
  moreover have "br_read (br_skip r n) width = Inr (take_bit width d, br_skip r (n + width))"
    using br_read_u64 [of "br_skip r n" d width bs] assms(1) step(3) by simp
  ultimately show ?thesis
    using sign_extend [of width d] assms(2,4) step(3,4) by (simp add: read_dod_def Let_def)
qed

lemma dod_codable_cases:
  assumes "dod_codable d"
  obtains (zero) "d = 0" and "dod_step d = Some None"
    | (step) p n width where "dod_step d = Some (Some (p, n, width))"
proof -
  consider "dod_step d = Some None" | p n width where "dod_step d = Some (Some (p, n, width))"
    using assms unfolding dod_codable_def by (metis option.exhaust prod_cases3)
  then show ?thesis
    using that by cases (auto simp: dod_step_def split: if_splits)
qed

interpretation dod: bit_code "\<lambda>w d. snd (write_dod w d)" read_dod dod_code dod_codable
proof
  show "bw_rep (snd (write_dod w d)) (bs @ dod_code d)" if "dod_codable d" and rep: "bw_rep w bs" for d w bs
    using \<open>dod_codable d\<close>
  proof (cases rule: dod_codable_cases)
    case zero
    then show ?thesis
      using bw_rep_push [OF rep, of 0 1] by (simp add: write_dod_def dod_code_def bits_of_Suc)
  next
    case (step p n width)
    then show ?thesis
      using bw_rep_push [OF bw_rep_push [OF rep, of p n], of "d AND low_bits width" width]
      by (simp add: write_dod_def dod_code_def bits_of_and_low_bits)
  qed
  show "read_dod r = Inr (d, br_skip r (length (dod_code d)))"
    if "dod_codable d" and rest: "br_rest r = dod_code d @ bs" for d r bs
    using \<open>dod_codable d\<close>
  proof (cases rule: dod_codable_cases)
    case zero
    moreover have "read_ones r 4 0 = Inr (0, br_skip r 1)"
      using rest zero read_ones_step [of r False bs 0 4] by (simp add: dod_code_def)
    ultimately show ?thesis
      by (simp add: read_dod_def dod_code_def)
  next
    case (step p n width)
    from step obtain k where "k < 4" "DOD_STEPS ! k = (p, n, width)" "fits_signed width (sint d)"
      by (rule dod_step_Some)
    moreover have "br_rest r = bits_of p n @ bits_of d width @ bs"
      using rest step by (simp add: dod_code_def)
    ultimately have "read_dod r = Inr (d, br_skip r (n + width))"
      by (intro read_dod_step)
    with step show ?thesis by (simp add: dod_code_def)
  qed
qed

lemma dod_bits_length: "dod_bits d = (if dod_codable d then Some (length (dod_code d)) else None)"
  by (auto simp: dod_bits_def dod_codable_def dod_code_def split: option.splits)

lemma length_dod_code_le: "length (dod_code d) \<le> 36"
proof (cases "dod_step d")
  case (Some step)
  then show ?thesis
  proof (cases step)
    case (Some s)
    obtain p n width where s: "s = (p, n, width)" by (cases s)
    with Some \<open>dod_step d = Some step\<close> have "dod_step d = Some (Some (p, n, width))" by simp
    then obtain k where k: "k < 4" "DOD_STEPS ! k = (p, n, width)" by (rule dod_step_Some)
    have "n \<le> 4" and "width \<le> 32" using k(1) DOD_STEPS_nth(2,4) [OF k] by auto
    with Some s \<open>dod_step d = Some step\<close> show ?thesis by (simp add: dod_code_def)
  qed (simp add: dod_code_def)
qed (simp add: dod_code_def)

lemma write_dod_fst: "fst (write_dod w d) \<longleftrightarrow> dod_codable d"
  by (auto simp: write_dod_def dod_codable_def split: option.splits)

lemma write_dod_refused: "\<not> dod_codable d \<Longrightarrow> write_dod w d = (False, w)"
  by (simp add: write_dod_def dod_codable_def)


section \<open>The value code\<close>

definition value_code :: "u64 \<Rightarrow> bool list" where
  "value_code v = (case value_step v of
       None \<Rightarrow> [False]
     | Some step \<Rightarrow> replicate (Suc step) True @ (if Suc step < 5 then [False] else []) @ bits_of v (VALUE_WIDTHS ! step))"

lemma VALUE_WIDTHS_nth:
  "step < 5 \<Longrightarrow> 0 < VALUE_WIDTHS ! step" "step < 5 \<Longrightarrow> VALUE_WIDTHS ! step \<le> 64"
proof -
  assume "step < 5"
  then have "step = 0 \<or> step = 1 \<or> step = 2 \<or> step = 3 \<or> step = 4" by auto
  then show "0 < VALUE_WIDTHS ! step" "VALUE_WIDTHS ! step \<le> 64"
    by (auto simp: VALUE_WIDTHS_def)
qed

lemma le_low_bits: "v \<le> low_bits n \<longleftrightarrow> take_bit n v = v"
proof
  show "take_bit n v = v" if "v \<le> low_bits n"
  proof (cases "n < 64")
    case True
    have "unat (low_bits n) < 2 ^ n"
    proof -
      have "unat (mask n :: u64) = unat (take_bit n (- 1 :: u64))" by (simp only: mask_eq_take_bit_minus_one)
      also have "\<dots> < 2 ^ n" by (simp only: unsigned_take_bit_eq take_bit_nat_less_exp)
      finally show ?thesis by (simp add: low_bits_mask)
    qed
    with that show ?thesis by (intro take_bit_self) (simp add: word_le_nat_alt)
  qed (simp add: take_bit_word_eq_self)
  show "v \<le> low_bits n" if "take_bit n v = v"
    using that by (metis low_bits_mask take_bit_eq_mask word_and_le1)
qed

lemma value_step_Some:
  assumes "value_step v = Some step"
  shows "step < 5" and "take_bit (VALUE_WIDTHS ! step) v = v"
proof -
  have "VALUE_WIDTHS ! 4 = 64" by (simp add: VALUE_WIDTHS_def)
  then have "v \<le> low_bits (VALUE_WIDTHS ! 4)" by (simp add: le_low_bits take_bit_word_eq_self)
  moreover have "4 \<in> set [0..<5 :: nat]" by simp
  ultimately have "find (\<lambda>i. v \<le> low_bits (VALUE_WIDTHS ! i)) [0..<5] \<noteq> None"
    by (metis (lifting) find_None_iff)
  with assms have "find (\<lambda>i. v \<le> low_bits (VALUE_WIDTHS ! i)) [0..<5] = Some step"
    by (auto simp: value_step_def split: if_splits)
  then show "step < 5" and "take_bit (VALUE_WIDTHS ! step) v = v"
    by (auto simp: find_Some_iff le_low_bits)
qed

lemma value_step_None: "value_step v = None \<longleftrightarrow> v = 0"
  by (simp add: value_step_def)

interpretation val: bit_code write_value read_value value_code "\<lambda>_. True"
proof
  show "bw_rep (write_value w v) (bs @ value_code v)" if rep: "bw_rep w bs" for v w bs
  proof (cases "value_step v")
    case None
    then show ?thesis
      using bw_rep_push [OF rep, of 0 1] by (simp add: write_value_def value_code_def bits_of_Suc)
  next
    case (Some step)
    let ?w1 = "bw_push w (low_bits (Suc step)) (Suc step)"
    let ?w2 = "if Suc step < 5 then bw_push ?w1 0 1 else ?w1"
    have step: "step < 5" using Some by (rule value_step_Some)
    have one: "bw_rep ?w1 (bs @ replicate (Suc step) True)"
      using bw_rep_push [OF rep, of "low_bits (Suc step)" "Suc step"] step bits_of_low_bits [of "Suc step"] by simp
    then have "bw_rep ?w2 (bs @ replicate (Suc step) True @ (if Suc step < 5 then [False] else []))"
      using bw_rep_push [OF one, of 0 1] by (simp add: bits_of_Suc)
    then have "bw_rep (bw_push ?w2 v (VALUE_WIDTHS ! step))
        ((bs @ replicate (Suc step) True @ (if Suc step < 5 then [False] else [])) @ bits_of v (VALUE_WIDTHS ! step))"
      by (rule bw_rep_push)
    moreover have "write_value w v = bw_push ?w2 v (VALUE_WIDTHS ! step)"
      using Some step by (simp add: write_value_def Let_def prefix_len_def)
    ultimately show ?thesis
      using Some by (simp add: value_code_def)
  qed
  show "read_value r = Inr (v, br_skip r (length (value_code v)))"
    if rest: "br_rest r = value_code v @ bs" for v r bs
  proof (cases "value_step v")
    case None
    moreover have "read_ones r 5 0 = Inr (0, br_skip r 1)"
      using rest None read_ones_step [of r False bs 0 5] by (simp add: value_code_def)
    ultimately show ?thesis
      using value_step_None [of v] by (simp add: read_value_def value_code_def)
  next
    case (Some step)
    let ?n = "VALUE_WIDTHS ! step"
    let ?p = "if Suc step < 5 then step + 2 else Suc step"
    note step = value_step_Some [OF Some]
    have ones: "read_ones r 5 0 = Inr (Suc step, br_skip r ?p)"
      using read_ones_prefix [of r step 5 "bits_of v ?n @ bs"] rest Some step(1) by (simp add: value_code_def)
    have "br_rest (br_skip r ?p) = bits_of v ?n @ bs"
      using rest Some by (simp add: value_code_def)
    then have "br_read (br_skip r ?p) ?n = Inr (take_bit ?n v, br_skip (br_skip r ?p) ?n)"
      using VALUE_WIDTHS_nth(1) [OF step(1)] by (rule br_read_u64)
    then show ?thesis
      using ones Some step(2) by (simp add: read_value_def value_code_def)
  qed
qed

lemma value_bits_length: "value_bits v = length (value_code v)"
proof (cases "value_step v")
  case (Some step)
  then show ?thesis
    using value_step_Some(1) [OF Some] by (simp add: value_bits_def value_code_def prefix_len_def)
qed (simp add: value_bits_def value_code_def)

lemma length_value_code_le: "length (value_code v) \<le> 69"
proof (cases "value_step v")
  case (Some step)
  then show ?thesis
    using value_step_Some(1) [OF Some] VALUE_WIDTHS_nth(2) [of step] by (auto simp: value_code_def)
qed (simp add: value_code_def)

section \<open>Varints inside a bit stream\<close>

function bit_varint_code :: "u64 \<Rightarrow> bool list" where
  "bit_varint_code v = (0x80 \<le> v) # bits_of v 7 @ (if 0x80 \<le> v then bit_varint_code (drop_bit 7 v) else [])"
  by pat_completeness auto
termination
  by (relation "measure unat") (simp_all add: unat_drop_bit_7_less)

declare bit_varint_code.simps [simp del]

lemma bw_rep_bit_varint: "bw_rep w bs \<Longrightarrow> bw_rep (write_bit_varint w v) (bs @ bit_varint_code v)"
proof (induction v arbitrary: w bs rule: measure_induct_rule [where f = unat])
  case (less v)
  let ?w1 = "bw_push w (of_bool (0x80 \<le> v)) 1"
  let ?w2 = "bw_push ?w1 (v AND 0x7f) 7"
  have "bits_of (of_bool (0x80 \<le> v) :: u64) 1 = [0x80 \<le> v]"
    by (simp add: bits_of_Suc)
  then have "bw_rep ?w1 (bs @ [0x80 \<le> v])"
    using bw_rep_push [OF less.prems, of "of_bool (0x80 \<le> v)" 1] by simp
  moreover have "bits_of (v AND 0x7f) 7 = bits_of v 7"
    unfolding byte_masks by (simp add: bits_of_take_bit flip: take_bit_eq_mask)
  ultimately have w2: "bw_rep ?w2 ((bs @ [0x80 \<le> v]) @ bits_of v 7)"
    using bw_rep_push [of ?w1 "bs @ [0x80 \<le> v]" "v AND 0x7f" 7] by simp
  show ?case
  proof (cases "0x80 \<le> v")
    case True
    from less.IH [OF unat_drop_bit_7_less [OF True] w2] True show ?thesis
      by (simp add: write_bit_varint.simps [of w v] bit_varint_code.simps [of v] Let_def)
  next
    case False
    with w2 show ?thesis
      by (simp add: write_bit_varint.simps [of w v] bit_varint_code.simps [of v] Let_def)
  qed
qed

lemma read_bit_varint_from_code:
  assumes "g \<le> 9" and "br_rest r = bit_varint_code (drop_bit (7 * g) v) @ bs"
  shows "read_bit_varint_from g (take_bit (7 * g) v) r
    = Inr (v, br_skip r (length (bit_varint_code (drop_bit (7 * g) v))))"
  using assms
proof (induction "9 - g" arbitrary: g r)
  case (0 g r)
  then have g: "g = 9" by simp
  let ?u = "drop_bit 63 v"
  have u: "unat ?u < 2" by (rule drop_bit_63_small)
  then have code: "bit_varint_code ?u = False # bits_of ?u 7" and self: "take_bit 7 ?u = ?u"
    by (simp_all add: bit_varint_code.simps [of ?u] word_le_nat_alt take_bit_self)
  have "br_read r 1 = Inr (0, br_skip r 1)"
    using br_read_bit [of r False "bits_of ?u 7 @ bs"] "0.prems"(2) g code by simp
  moreover have "br_read (br_skip r 1) 7 = Inr (?u, br_skip r 8)"
    using br_read_u64 [of "br_skip r 1" ?u 7 bs] "0.prems"(2) g code self by simp
  ultimately show ?case
    using g u code take_drop_group [of 63 v]
    by (simp add: read_bit_varint_from.simps [of 9] word_less_nat_alt Let_def)
next
  case (Suc k g r)
  let ?u = "drop_bit (7 * g) v"
  have g: "g < 9" using Suc.hyps(2) by simp
  let ?tl = "if 0x80 \<le> ?u then bit_varint_code (drop_bit 7 ?u) else []"
  have code: "bit_varint_code ?u = (0x80 \<le> ?u) # bits_of ?u 7 @ ?tl"
    by (rule bit_varint_code.simps)
  have more: "br_read r 1 = Inr (of_bool (0x80 \<le> ?u), br_skip r 1)"
    using br_read_bit [of r "0x80 \<le> ?u" "bits_of ?u 7 @ ?tl @ bs"] Suc.prems(2) code by simp
  have bits: "br_read (br_skip r 1) 7 = Inr (take_bit 7 ?u, br_skip r 8)"
    using br_read_u64 [of "br_skip r 1" ?u 7 "?tl @ bs"] Suc.prems(2) code by simp
  show ?case
  proof (cases "0x80 \<le> ?u")
    case True
    have next_u: "drop_bit 7 ?u = drop_bit (7 * Suc g) v"
      by (simp add: add.commute)
    have "br_rest (br_skip r 8) = bit_varint_code (drop_bit (7 * Suc g) v) @ bs"
      using Suc.prems(2) code True next_u by simp
    then have "read_bit_varint_from (Suc g) (take_bit (7 * Suc g) v) (br_skip r 8)
        = Inr (v, br_skip (br_skip r 8) (length (bit_varint_code (drop_bit (7 * Suc g) v))))"
      using Suc.hyps(2) g by (intro Suc.hyps(1)) simp_all
    then show ?thesis
      using g True more bits take_bit_group [of g v] code next_u
      by (subst read_bit_varint_from.simps) (simp add: Let_def)
  next
    case False
    then have "take_bit 7 ?u = ?u" by (simp add: take_bit_self word_le_nat_alt)
    then show ?thesis
      using g False more bits take_drop_group [of "7 * g" v] code
      by (subst read_bit_varint_from.simps) (simp add: Let_def)
  qed
qed

interpretation varint: bit_code write_bit_varint read_bit_varint bit_varint_code "\<lambda>_. True"
proof
  show "bw_rep (write_bit_varint w v) (bs @ bit_varint_code v)" if "bw_rep w bs" for v w bs
    using that by (rule bw_rep_bit_varint)
  show "read_bit_varint r = Inr (v, br_skip r (length (bit_varint_code v)))"
    if "br_rest r = bit_varint_code v @ bs" for v r bs
    using read_bit_varint_from_code [of 0 r v bs] that by (simp add: read_bit_varint_def)
qed

lemma length_bit_varint_code_le:
  "1 \<le> k \<Longrightarrow> unat v < 2 ^ (7 * k) \<Longrightarrow> length (bit_varint_code v) \<le> 8 * k"
proof (induction k arbitrary: v)
  case (Suc k)
  show ?case
  proof (cases "0x80 \<le> v")
    case True
    then have v: "128 \<le> unat v" by (simp add: word_le_nat_alt)
    then have k: "1 \<le> k" using Suc.prems(2) by (cases k) auto
    have "unat (drop_bit 7 v) = unat v div 128" by (simp add: drop_bit_eq_div unat_div)
    also have "\<dots> < 2 ^ (7 * k)"
      using Suc.prems(2) by (simp add: div_less_iff_less_mult power_add mult.commute)
    finally show ?thesis
      using Suc.IH [OF k] True by (simp add: bit_varint_code.simps [of v])
  qed (simp add: bit_varint_code.simps [of v])
qed simp


section \<open>Properties\<close>

text \<open>A byte varint reads back wherever it stands in the bytes, the reader ends right after it, and
  its length is the one \<open>varint_len\<close> announces, at most ten bytes.\<close>

theorem byte_varint_roundtrip:
  "read_varint (pre @ write_varint [] v @ suf) (length pre) = Inr (v, length pre + varint_len v)
   \<and> varint_len v \<le> 10"
  using read_varint_write [of pre v suf] varint_len_le_10 [of v] by (simp add: varint_len_write)

lemma dod_codable_range: "dod_codable d \<longleftrightarrow> fits_signed 32 (sint d)"
proof
  show "fits_signed 32 (sint d)" if "dod_codable d"
    using that
  proof (cases rule: dod_codable_cases)
    case zero
    then show ?thesis by (simp add: fits_signed_def)
  next
    case (step p n width)
    from step obtain k where k: "k < 4" "DOD_STEPS ! k = (p, n, width)" and fits: "fits_signed width (sint d)"
      by (rule dod_step_Some)
    have "(2 :: int) ^ (width - 1) \<le> 2 ^ (32 - 1)"
      using DOD_STEPS_nth(4) [OF k] by (intro power_increasing) simp_all
    with fits show ?thesis unfolding fits_signed_def by linarith
  qed
  show "dod_codable d" if "fits_signed 32 (sint d)"
  proof -
    have "sint (push_bit 31 (1 :: i64)) = 2 ^ 31" by (simp add: push_bit_eq_mult)
    then have "find (\<lambda>(_, _, width). let half = sint (push_bit (width - 1) (1 :: i64))
        in - half \<le> sint d \<and> sint d < half) DOD_STEPS \<noteq> None"
      using that by (simp add: DOD_STEPS_def fits_signed_def Let_def)
    then show ?thesis by (auto simp: dod_codable_def dod_step_def)
  qed
qed

text \<open>The delta-of-delta code: exactly the \<open>i64\<close> values that fit 32 signed bits are written, at most
  36 bits each, and what is written after any bits reads back from that position; a refused value
  leaves the writer as it was.\<close>

theorem delta_of_delta_roundtrip:
  assumes "bw_rep w bs"
  shows "if fits_signed 32 (sint d)
    then fst (write_dod w d) \<and> (\<exists>n\<le>36. dod_bits d = Some n
      \<and> read_dod \<lparr>br_bytes = bw_bytes (snd (write_dod w d)), br_pos = bw_bits w\<rparr>
          = Inr (d, \<lparr>br_bytes = bw_bytes (snd (write_dod w d)), br_pos = bw_bits w + n\<rparr>))
    else write_dod w d = (False, w) \<and> dod_bits d = None"
proof (cases "dod_codable d")
  case True
  have "bw_bits w = length bs" using assms by (simp add: bw_rep_def)
  then show ?thesis
    using True dod.get_after_put [OF True assms] length_dod_code_le [of d]
    by (simp add: write_dod_fst dod_bits_length flip: dod_codable_range)
next
  case False
  then show ?thesis
    by (simp add: write_dod_refused dod_bits_length flip: dod_codable_range)
qed

theorem delta_of_delta_roundtrip_witness:
  "bw_rep bw_empty [] \<and> write_dod bw_empty (2 ^ 40) = (False, bw_empty)"
  using delta_of_delta_roundtrip [of bw_empty "[]" "2 ^ 40"] by (simp add: fits_signed_def)

text \<open>The value code and the bit varint write any \<open>u64\<close>, and what is written after any bits reads
  back from that position and no further.\<close>

theorem value_codes_roundtrip:
  assumes "bw_rep w bs"
  shows "read_value \<lparr>br_bytes = bw_bytes (write_value w v), br_pos = bw_bits w\<rparr>
      = Inr (v, \<lparr>br_bytes = bw_bytes (write_value w v), br_pos = bw_bits w + value_bits v\<rparr>)
    \<and> value_bits v \<le> 69
    \<and> (\<exists>n. read_bit_varint \<lparr>br_bytes = bw_bytes (write_bit_varint w v), br_pos = bw_bits w\<rparr>
      = Inr (v, \<lparr>br_bytes = bw_bytes (write_bit_varint w v), br_pos = bw_bits w + n\<rparr>))"
proof -
  have "bw_bits w = length bs" using assms by (simp add: bw_rep_def)
  then show ?thesis
    using val.get_after_put [OF TrueI assms, of v] varint.get_after_put [OF TrueI assms, of v]
      length_value_code_le [of v]
    by (auto simp: value_bits_length)
qed

theorem value_codes_roundtrip_witness:
  "bw_rep bw_empty [] \<and> read_value \<lparr>br_bytes = bw_bytes (write_value bw_empty 77), br_pos = 0\<rparr>
     = Inr (77, \<lparr>br_bytes = bw_bytes (write_value bw_empty 77), br_pos = value_bits 77\<rparr>)"
proof -
  have "bw_bits bw_empty = 0" by (simp add: bw_empty_def)
  then show ?thesis
    using value_codes_roundtrip [OF bw_rep_empty, of 77] by simp
qed

end
