(* ===== verification/Float64.thy ===== *)
theory Float64
  imports Complex_Main Prelude "HOL-Library.Log_Nat"
begin

text \<open>
  The part of IEEE 754 binary64 arithmetic the sources use (Rust's \<open>f64\<close>): a value is NaN, an
  infinity or an exact rational, and multiplication and division round the exact result to the
  nearest representable value, ties to even, with 53 bits of precision, subnormals and overflow.
  The two zeros are one value: no operation used here tells them apart.
\<close>

datatype f64 = NaN | Inf bool | Fin rat

text \<open>The exponent of a positive rational: \<open>2 powi log2_floor q \<le> q < 2 powi (log2_floor q + 1)\<close>.\<close>

definition log2_floor :: "rat \<Rightarrow> int" where
  "log2_floor q = (case quotient_of q of (n, d) \<Rightarrow>
     let k = bitlen n - bitlen d in if 2 powi k \<le> q then k else k - 1)"

definition round_half_even :: "rat \<Rightarrow> int" where
  "round_half_even x = (let f = \<lfloor>x\<rfloor>; r = x - of_int f
     in if r < 1 / 2 then f else if 1 / 2 < r then f + 1 else if even f then f else f + 1)"

definition ulp_exponent :: "rat \<Rightarrow> int" where
  "ulp_exponent q = max (log2_floor q - 52) (- 1074)"

text \<open>Rounding the magnitude of an exact result, then the result itself.\<close>

definition fl_magnitude :: "rat \<Rightarrow> rat" where
  "fl_magnitude q = of_int (round_half_even (q / 2 powi ulp_exponent q)) * 2 powi ulp_exponent q"

definition fl :: "rat \<Rightarrow> f64" where
  "fl q = (if q = 0 then Fin 0
     else let v = fl_magnitude \<bar>q\<bar> in if 2 powi 1024 \<le> v then Inf (q < 0) else Fin (sgn q * v))"

fun f64_neg :: "f64 \<Rightarrow> bool" where
  "f64_neg NaN = False"
| "f64_neg (Inf s) = s"
| "f64_neg (Fin q) = (q < 0)"

fun f64_mul :: "f64 \<Rightarrow> f64 \<Rightarrow> f64" where
  "f64_mul (Fin a) (Fin b) = fl (a * b)"
| "f64_mul NaN b = NaN"
| "f64_mul a NaN = NaN"
| "f64_mul (Inf s) b = (if b = Fin 0 then NaN else Inf (s \<noteq> f64_neg b))"
| "f64_mul a (Inf s) = (if a = Fin 0 then NaN else Inf (f64_neg a \<noteq> s))"

text \<open>Division; the divisor zero is \<open>+0.0\<close>.\<close>

fun f64_div :: "f64 \<Rightarrow> f64 \<Rightarrow> f64" where
  "f64_div (Fin a) (Fin b) = (if b \<noteq> 0 then fl (a / b) else if a = 0 then NaN else Inf (a < 0))"
| "f64_div NaN b = NaN"
| "f64_div a NaN = NaN"
| "f64_div (Inf s) (Inf _) = NaN"
| "f64_div (Inf s) (Fin b) = Inf (s \<noteq> (b < 0))"
| "f64_div (Fin a) (Inf _) = Fin 0"

text \<open>\<open>f64::round\<close>: to the nearest integer, halves away from zero.\<close>

definition round_half_away :: "rat \<Rightarrow> int" where
  "round_half_away q = (if 0 \<le> q then \<lfloor>q + 1 / 2\<rfloor> else - \<lfloor>- q + 1 / 2\<rfloor>)"

fun f64_round :: "f64 \<Rightarrow> f64" where
  "f64_round (Fin q) = Fin (of_int (round_half_away q))"
| "f64_round x = x"

text \<open>\<open>x as i64\<close>: towards zero, saturating, NaN to 0; \<open>n as f64\<close>: to the nearest.\<close>

fun f64_as_i64 :: "f64 \<Rightarrow> i64" where
  "f64_as_i64 NaN = 0"
| "f64_as_i64 (Inf s) = word_of_int (if s then - (2 ^ 63) else 2 ^ 63 - 1)"
| "f64_as_i64 (Fin q) = word_of_int (max (- (2 ^ 63)) (min (2 ^ 63 - 1) (if 0 \<le> q then \<lfloor>q\<rfloor> else \<lceil>q\<rceil>)))"

definition i64_as_f64 :: "i64 \<Rightarrow> f64" where
  "i64_as_f64 n = fl (of_int (sint n))"

fun f64_le :: "f64 \<Rightarrow> f64 \<Rightarrow> bool" where
  "f64_le NaN b = False"
| "f64_le a NaN = False"
| "f64_le (Fin a) (Fin b) = (a \<le> b)"
| "f64_le (Inf s) b = (s \<or> b = Inf False)"
| "f64_le (Fin a) (Inf s) = (\<not> s)"


section \<open>Rounding\<close>

lemma bitlen_power_bounds: "0 < n \<Longrightarrow> (2 :: rat) powi (bitlen n - 1) \<le> of_int n \<and> of_int n < (2 :: rat) powi (bitlen n)"
proof -
  assume n: "0 < n"
  have "2 ^ nat (bitlen n - 1) \<le> n \<and> n < 2 ^ nat (bitlen n)"
    using bitlen_bounds [OF n] .
  then have "(of_int (2 ^ nat (bitlen n - 1)) :: rat) \<le> of_int n" "(of_int n :: rat) < of_int (2 ^ nat (bitlen n))"
    by (simp_all only: of_int_le_iff of_int_less_iff)
  moreover have "1 \<le> bitlen n" using n bitlen_nonneg [of n] bitlen_eq_zero_iff [of n] by linarith
  ultimately show ?thesis by (simp add: power_int_def)
qed

lemma log2_floor_bounds:
  assumes "0 < q"
  shows "2 powi log2_floor q \<le> q" and "q < 2 powi (log2_floor q + 1)"
proof -
  obtain n d where nd: "quotient_of q = (n, d)" by (cases "quotient_of q")
  have d: "0 < d" and q: "q = of_int n / of_int d"
    using quotient_of_denom_pos [OF nd] quotient_of_div [OF nd] by simp_all
  have n: "0 < n" using assms d q by (simp add: zero_less_divide_iff)
  define k where "k = bitlen n - bitlen d"
  note bn = bitlen_power_bounds [OF n] and bd = bitlen_power_bounds [OF d]
  have dpos: "(0 :: rat) < of_int d" using d by simp
  have "(2 :: rat) powi (k - 1) * of_int d \<le> 2 powi (k - 1) * 2 powi (bitlen d)"
    using bd by (intro mult_left_mono) simp_all
  also have "\<dots> = 2 powi (bitlen n - 1)"
    by (simp add: k_def flip: power_int_add)
  also have "\<dots> \<le> of_int n" using bn by simp
  finally have low: "2 powi (k - 1) \<le> q"
    using dpos by (simp add: q pos_le_divide_eq)
  have "of_int n < (2 :: rat) powi (bitlen n)" using bn by simp
  also have "\<dots> = 2 powi (k + 1) * 2 powi (bitlen d - 1)"
    by (simp add: k_def flip: power_int_add)
  also have "\<dots> \<le> 2 powi (k + 1) * of_int d"
    using bd by (intro mult_left_mono) simp_all
  finally have high: "q < 2 powi (k + 1)"
    using dpos by (simp add: q pos_divide_less_eq)
  show "2 powi log2_floor q \<le> q" and "q < 2 powi (log2_floor q + 1)"
    using low high by (auto simp: log2_floor_def nd k_def [symmetric] Let_def)
qed

lemma round_half_even_bounds: "\<bar>of_int (round_half_even x) - x\<bar> \<le> 1 / 2"
  using floor_correct [of x] by (auto simp: round_half_even_def Let_def)

lemma round_half_even_int [simp]: "round_half_even (of_int n) = n"
  by (simp add: round_half_even_def)

lemma round_half_even_le: "x \<le> of_int n \<Longrightarrow> round_half_even x \<le> n"
proof -
  assume "x \<le> of_int n"
  then have "of_int (round_half_even x) \<le> (of_int n :: rat) + 1 / 2"
    using round_half_even_bounds [of x] unfolding abs_le_iff by linarith
  then show ?thesis by linarith
qed

lemma round_half_even_nonneg: "0 \<le> x \<Longrightarrow> 0 \<le> round_half_even x"
  by (auto simp: round_half_even_def Let_def)

lemma powi_less_exp: "(2 :: rat) powi a < 2 powi b \<Longrightarrow> a < b"
  by (meson not_less one_le_numeral power_int_increasing)

lemma of_int_less_2_53: "n < 2 ^ 53 \<Longrightarrow> (of_int n :: rat) < 2 ^ 53"
proof -
  assume "n < 2 ^ 53"
  then have "(of_int n :: rat) < of_int (2 ^ 53)" by (simp only: of_int_less_iff)
  then show ?thesis by simp
qed

text \<open>Below \<open>2 ^ 53\<close> the grid of representable values contains every integer.\<close>

lemma ulp_exponent_le: "0 < q \<Longrightarrow> q < 2 ^ 53 \<Longrightarrow> ulp_exponent q \<le> 0"
proof -
  assume q: "0 < q" "q < 2 ^ 53"
  have "(2 :: rat) powi log2_floor q < 2 powi 53"
    using log2_floor_bounds(1) [OF q(1)] q(2) by simp
  then have "log2_floor q < 53" by (rule powi_less_exp)
  then show ?thesis by (simp add: ulp_exponent_def)
qed

lemma int_on_grid: "e \<le> 0 \<Longrightarrow> of_int n / 2 powi e = (of_int (n * 2 ^ nat (- e)) :: rat)"
proof -
  assume e: "e \<le> 0"
  have "(2 :: rat) powi e * 2 powi (- e) = 1" by (simp flip: power_int_add)
  then have "of_int n / 2 powi e = of_int n * (2 :: rat) powi (- e)" by (simp add: divide_eq_eq mult.assoc mult.commute)
  also have "(2 :: rat) powi (- e) = 2 ^ nat (- e)" using e by (simp add: power_int_def)
  finally show ?thesis by simp
qed

lemma fl_magnitude_int: "0 < n \<Longrightarrow> n < 2 ^ 53 \<Longrightarrow> fl_magnitude (of_int n) = of_int n"
proof -
  assume n: "0 < n" "n < 2 ^ 53"
  then have "(0 :: rat) < of_int n" "(of_int n :: rat) < 2 ^ 53" using of_int_less_2_53 by simp_all
  then have "of_int n / 2 powi ulp_exponent (of_int n) = (of_int (n * 2 ^ nat (- ulp_exponent (of_int n))) :: rat)"
    by (intro int_on_grid ulp_exponent_le)
  then have "of_int (round_half_even (of_int n / 2 powi ulp_exponent (of_int n))) = of_int n / (2 :: rat) powi ulp_exponent (of_int n)"
    by (simp only: round_half_even_int)
  then show ?thesis by (simp add: fl_magnitude_def)
qed

lemma fl_magnitude_le:
  assumes "0 < q" "q \<le> of_int n" "n < 2 ^ 53"
  shows "fl_magnitude q \<le> of_int n"
proof -
  let ?e = "ulp_exponent q"
  have "q < 2 ^ 53" using of_int_less_2_53 [OF assms(3)] assms(2) by (rule order_le_less_trans [rotated])
  with assms(1) have e: "?e \<le> 0" by (rule ulp_exponent_le)
  have "q / 2 powi ?e \<le> of_int n / 2 powi ?e" using assms(2) by (intro divide_right_mono) simp_all
  then have "round_half_even (q / 2 powi ?e) \<le> n * 2 ^ nat (- ?e)"
    unfolding int_on_grid [OF e] by (rule round_half_even_le)
  then have "(of_int (round_half_even (q / 2 powi ?e)) :: rat) \<le> of_int n / 2 powi ?e"
    unfolding int_on_grid [OF e] by (simp only: of_int_le_iff)
  then show ?thesis
    by (simp add: fl_magnitude_def pos_le_divide_eq)
qed

lemma fl_magnitude_nonneg: "0 \<le> q \<Longrightarrow> 0 \<le> fl_magnitude q"
  by (simp add: fl_magnitude_def round_half_even_nonneg)

text \<open>The rounding error: half a unit in the last place.\<close>

lemma fl_magnitude_error:
  assumes "2 powi (- 1022) \<le> q"
  shows "\<bar>fl_magnitude q - q\<bar> \<le> q / 2 ^ 53"
proof -
  have q: "0 < q" using assms by (metis less_le_trans zero_less_numeral zero_less_power_int)
  let ?e = "ulp_exponent q" and ?u = "2 powi ulp_exponent q :: rat"
  have "(2 :: rat) powi (- 1022) < 2 powi (log2_floor q + 1)"
    using assms log2_floor_bounds(2) [OF q] by simp
  then have "- 1022 < log2_floor q + 1" by (rule powi_less_exp)
  then have e: "?e = log2_floor q - 52" by (simp add: ulp_exponent_def)
  have "fl_magnitude q - q = (of_int (round_half_even (q / ?u)) - q / ?u) * ?u"
    by (simp add: fl_magnitude_def left_diff_distrib)
  then have "\<bar>fl_magnitude q - q\<bar> = \<bar>of_int (round_half_even (q / ?u)) - q / ?u\<bar> * ?u"
    by (simp add: abs_mult)
  also have "\<dots> \<le> 1 / 2 * ?u"
    using round_half_even_bounds by (intro mult_right_mono) simp_all
  also have "\<dots> = 2 powi log2_floor q / 2 ^ 53"
    unfolding e by (simp add: power_int_diff)
  also have "\<dots> \<le> q / 2 ^ 53"
    using log2_floor_bounds(1) [OF q] by (intro divide_right_mono) simp_all
  finally show ?thesis .
qed

section \<open>Rounded results\<close>

lemma fl_pos:
  assumes "0 < q" "q \<le> of_int n" "n < 2 ^ 53"
  shows "fl q = Fin (fl_magnitude q)"
proof -
  have "fl_magnitude q < 2 ^ 53"
    using fl_magnitude_le [OF assms] of_int_less_2_53 [OF assms(3)] by (rule order_le_less_trans)
  also have "(2 :: rat) ^ 53 \<le> 2 powi 1024" by (simp add: power_int_def)
  finally show ?thesis
    using assms(1) by (simp add: fl_def Let_def not_le)
qed

lemma fl_int: "0 \<le> n \<Longrightarrow> n < 2 ^ 53 \<Longrightarrow> fl (of_int n) = Fin (of_int n)"
  using fl_pos [of "of_int n" n] fl_magnitude_int [of n] by (cases "n = 0") (simp_all add: fl_def)

lemma fl_int_le:
  assumes "0 \<le> q" "q \<le> of_int n" "n < 2 ^ 53"
  obtains v where "fl q = Fin v" "0 \<le> v" "v \<le> of_int n"
proof (cases "q = 0")
  case True
  then show ?thesis using that [of 0] assms by (simp add: fl_def)
next
  case False
  then have "0 < q" using assms(1) by simp
  with that fl_pos [OF this assms(2,3)] fl_magnitude_le [OF this assms(2,3)] fl_magnitude_nonneg [OF assms(1)]
  show ?thesis by blast
qed

lemma round_half_away_bounds:
  "0 \<le> q \<Longrightarrow> q \<le> of_int n \<Longrightarrow> 0 \<le> round_half_away q \<and> round_half_away q \<le> n"
proof
  assume q: "0 \<le> q" "q \<le> of_int n"
  show "0 \<le> round_half_away q" using q(1) by (simp add: round_half_away_def)
  have "q + 1 / 2 < of_int (n + 1)" using q(2) by simp
  then show "round_half_away q \<le> n" using q(1) by (simp add: round_half_away_def floor_le_iff)
qed

lemma round_half_away_near: "0 \<le> q \<Longrightarrow> \<bar>q - of_int n\<bar> < 1 / 2 \<Longrightarrow> round_half_away q = n"
proof -
  assume q: "0 \<le> q" and near: "\<bar>q - of_int n\<bar> < 1 / 2"
  have "of_int n \<le> q + 1 / 2" and "q + 1 / 2 < of_int n + 1"
    using near unfolding abs_less_iff by linarith+
  then have "\<lfloor>q + 1 / 2\<rfloor> = n" by (rule floor_unique)
  with q show ?thesis by (simp add: round_half_away_def)
qed

lemma round_half_away_int [simp]: "0 \<le> n \<Longrightarrow> round_half_away (of_int n) = n"
  by (rule round_half_away_near) simp_all

lemma f64_as_i64_int:
  assumes "0 \<le> n" "n < 2 ^ 53"
  shows "sint (f64_as_i64 (Fin (of_int n))) = n"
proof -
  have "(0 :: rat) \<le> of_int n" using assms(1) by simp
  moreover have "max (- (2 ^ 63)) (min (2 ^ 63 - 1) n) = n"
    using assms by simp
  ultimately have "f64_as_i64 (Fin (of_int n)) = word_of_int n" by simp
  moreover have "sint (word_of_int n :: i64) = n"
    unfolding sint_sbintrunc' using assms by (simp add: signed_take_bit_int_eq_self_iff)
  ultimately show ?thesis by simp
qed

end
