(* ===== verification/Value_Kind.thy ===== *)
theory Value_Kind
  imports Float64
begin

text \<open>
  Value kinds (\<open>system-hub/hub-store/src/value.rs\<close>): each metric kind's scale, domain and
  encoding.  A natural value is stored as the nearest multiple of the kind's scale, and a value
  outside the domain has no stored form.
\<close>

datatype value_kind = Percent | Load | Count | Monotonic | Bytes | Rate | Millis

datatype encoding = Delta | DeltaOfDelta

datatype scaled = Scaled (scaled_get: i64)

datatype out_of_domain = OutOfDomain

datatype factor = Times f64 | Over f64

definition all_kinds :: "value_kind list" where
  "all_kinds = [Percent, Load, Count, Monotonic, Bytes, Rate, Millis]"

definition kind_factor :: "value_kind \<Rightarrow> factor" where
  "kind_factor k = (case k of
       Percent \<Rightarrow> Times (Fin 100) | Load \<Rightarrow> Times (Fin 100) | Millis \<Rightarrow> Times (Fin 100)
     | Count \<Rightarrow> Times (Fin 1) | Monotonic \<Rightarrow> Times (Fin 1)
     | Bytes \<Rightarrow> Over (Fin 1024)
     | Rate \<Rightarrow> Times (Fin 1000))"

definition kind_scale :: "value_kind \<Rightarrow> f64" where
  "kind_scale k = (case kind_factor k of Times f \<Rightarrow> f64_div (Fin 1) f | Over d \<Rightarrow> d)"

definition max_natural :: "value_kind \<Rightarrow> f64" where
  "max_natural k = (case k of
       Percent \<Rightarrow> Fin 1000
     | Load \<Rightarrow> Fin 100000
     | Count \<Rightarrow> Fin (2 ^ 40) | Monotonic \<Rightarrow> Fin (2 ^ 40)
     | Bytes \<Rightarrow> Fin (2 ^ 60)
     | Rate \<Rightarrow> Fin 1000000000 | Millis \<Rightarrow> Fin 1000000000)"

definition to_stored :: "value_kind \<Rightarrow> f64 \<Rightarrow> f64" where
  "to_stored k natural = (case kind_factor k of
       Times f \<Rightarrow> f64_round (f64_mul natural f)
     | Over d \<Rightarrow> f64_round (f64_div natural d))"

definition max_scaled :: "value_kind \<Rightarrow> i64" where
  "max_scaled k = f64_as_i64 (to_stored k (max_natural k))"

definition kind_encoding :: "value_kind \<Rightarrow> encoding" where
  "kind_encoding k = (case k of Monotonic \<Rightarrow> DeltaOfDelta
     | Percent \<Rightarrow> Delta | Load \<Rightarrow> Delta | Count \<Rightarrow> Delta | Bytes \<Rightarrow> Delta | Rate \<Rightarrow> Delta | Millis \<Rightarrow> Delta)"

definition scale_value :: "value_kind \<Rightarrow> f64 \<Rightarrow> out_of_domain + scaled" where
  "scale_value k natural =
     (if \<not> (f64_le (Fin 0) natural \<and> f64_le natural (max_natural k)) then Inl OutOfDomain
      else Inr (Scaled (f64_as_i64 (to_stored k natural))))"

definition check_scaled :: "value_kind \<Rightarrow> i64 \<Rightarrow> out_of_domain + scaled" where
  "check_scaled k stored =
     (if 0 \<le> sint stored \<and> sint stored \<le> sint (max_scaled k) then Inr (Scaled stored) else Inl OutOfDomain)"

definition natural_value :: "value_kind \<Rightarrow> scaled \<Rightarrow> f64" where
  "natural_value k v = (case kind_factor k of
       Times f \<Rightarrow> f64_div (i64_as_f64 (scaled_get v)) f
     | Over d \<Rightarrow> f64_mul (i64_as_f64 (scaled_get v)) d)"

definition kind_code :: "value_kind \<Rightarrow> u8" where
  "kind_code k = (case k of Percent \<Rightarrow> 1 | Load \<Rightarrow> 2 | Count \<Rightarrow> 3 | Monotonic \<Rightarrow> 4 | Bytes \<Rightarrow> 5
     | Rate \<Rightarrow> 6 | Millis \<Rightarrow> 7)"

definition kind_from_code :: "u8 \<Rightarrow> value_kind option" where
  "kind_from_code c = find (\<lambda>k. kind_code k = c) all_kinds"

lemma kind_from_code_code [simp]: "kind_from_code (kind_code k) = Some k"
  by (cases k) (simp_all add: kind_from_code_def all_kinds_def kind_code_def)


section \<open>The domain of each kind\<close>

text \<open>The exact factor from natural to stored values, and the largest stored value.\<close>

definition kind_ratio :: "value_kind \<Rightarrow> rat" where
  "kind_ratio k = (case k of Percent \<Rightarrow> 100 | Load \<Rightarrow> 100 | Millis \<Rightarrow> 100 | Count \<Rightarrow> 1 | Monotonic \<Rightarrow> 1
     | Bytes \<Rightarrow> 1 / 1024 | Rate \<Rightarrow> 1000)"

definition kind_top :: "value_kind \<Rightarrow> int" where
  "kind_top k = (case k of Percent \<Rightarrow> 100000 | Load \<Rightarrow> 10000000 | Count \<Rightarrow> 2 ^ 40 | Monotonic \<Rightarrow> 2 ^ 40
     | Bytes \<Rightarrow> 2 ^ 50 | Rate \<Rightarrow> 1000000000000 | Millis \<Rightarrow> 100000000000)"

lemma kind_top_bounds: "0 < kind_top k" "kind_top k \<le> 2 ^ 50"
  by (cases k; simp add: kind_top_def)+

lemma kind_ratio_pos: "0 < kind_ratio k"
  by (cases k) (simp_all add: kind_ratio_def)

lemma to_stored_ratio: "to_stored k (Fin x) = f64_round (fl (x * kind_ratio k))"
  by (cases k) (simp_all add: to_stored_def kind_factor_def kind_ratio_def)

lemma max_natural_top: "\<exists>m. max_natural k = Fin m \<and> m * kind_ratio k = of_int (kind_top k)"
  by (cases k) (simp_all add: max_natural_def kind_ratio_def kind_top_def)

lemma sint_max_scaled: "sint (max_scaled k) = kind_top k"
proof -
  obtain m where m: "max_natural k = Fin m" "m * kind_ratio k = of_int (kind_top k)"
    using max_natural_top by blast
  have top: "0 \<le> kind_top k" "kind_top k < 2 ^ 53"
    using kind_top_bounds [of k] by simp_all
  have "to_stored k (max_natural k) = Fin (of_int (kind_top k))"
    using fl_int [OF top] top(1) by (simp add: m to_stored_ratio)
  then show ?thesis
    unfolding max_scaled_def using f64_as_i64_int [OF top] by simp
qed

lemma f64_in_range: "f64_le (Fin 0) x \<and> f64_le x (Fin m) \<longleftrightarrow> (\<exists>q. x = Fin q \<and> 0 \<le> q \<and> q \<le> m)"
  by (cases x) auto

text \<open>A scaled value is the rounded product, and lies in the stored domain.\<close>

lemma scale_value_Inr:
  assumes "scale_value k x = Inr v"
  obtains q w where "x = Fin q" "0 \<le> q" "q * kind_ratio k \<le> of_int (kind_top k)" "fl (q * kind_ratio k) = Fin w"
    "0 \<le> w" "w \<le> of_int (kind_top k)" "v = Scaled (f64_as_i64 (Fin (of_int (round_half_away w))))"
proof -
  obtain m where m: "max_natural k = Fin m" "m * kind_ratio k = of_int (kind_top k)"
    using max_natural_top by blast
  obtain q where q: "x = Fin q" "0 \<le> q" "q \<le> m"
    using assms m(1) by (auto simp: scale_value_def f64_in_range split: if_splits)
  have "q * kind_ratio k \<le> of_int (kind_top k)"
    using q(3) kind_ratio_pos [of k] by (simp flip: m(2))
  moreover have "0 \<le> q * kind_ratio k" using q(2) kind_ratio_pos [of k] by simp
  moreover have "kind_top k < 2 ^ 53" using kind_top_bounds(2) [of k] by simp
  ultimately obtain w where w: "fl (q * kind_ratio k) = Fin w" "0 \<le> w" "w \<le> of_int (kind_top k)"
    by (metis fl_int_le)
  have "v = Scaled (f64_as_i64 (to_stored k x))"
    using assms by (simp add: scale_value_def split: if_splits)
  then have "v = Scaled (f64_as_i64 (Fin (of_int (round_half_away w))))"
    using w(1) q(1) by (simp add: to_stored_ratio)
  with that q w \<open>q * kind_ratio k \<le> of_int (kind_top k)\<close> show ?thesis by blast
qed

lemma scale_value_in_domain: "scale_value k x = Inr v \<Longrightarrow> check_scaled k (scaled_get v) = Inr v"
proof -
  assume "scale_value k x = Inr v"
  then obtain q w where w: "0 \<le> w" "w \<le> of_int (kind_top k)" and v: "v = Scaled (f64_as_i64 (Fin (of_int (round_half_away w))))"
    by (rule scale_value_Inr)
  have r: "0 \<le> round_half_away w \<and> round_half_away w \<le> kind_top k"
    using w by (rule round_half_away_bounds)
  then have "sint (f64_as_i64 (Fin (of_int (round_half_away w)))) = round_half_away w"
    using kind_top_bounds(2) [of k] by (intro f64_as_i64_int) simp_all
  with r show ?thesis
    by (simp only: v scaled.sel check_scaled_def sint_max_scaled) simp
qed


lemma log2_floor_unique:
  assumes "2 powi e \<le> q" and "q < 2 powi (e + 1)"
  shows "log2_floor q = e"
proof -
  have q: "0 < q" using assms(1) by (metis less_le_trans zero_less_numeral zero_less_power_int)
  have "log2_floor q < e + 1" using log2_floor_bounds(1) [OF q] assms(2) by (intro powi_less_exp) (rule order_le_less_trans)
  moreover have "e < log2_floor q + 1"
    using assms(1) log2_floor_bounds(2) [OF q] by (intro powi_less_exp) (rule order_le_less_trans)
  ultimately show ?thesis by simp
qed

text \<open>Scaling by a power of two is exact.\<close>

lemma fl_kibi: "0 \<le> n \<Longrightarrow> n < 2 ^ 53 \<Longrightarrow> fl (of_int n * 1024) = Fin (of_int n * 1024)"
proof (cases "n = 0")
  case False
  assume n: "0 \<le> n" "n < 2 ^ 53"
  let ?q = "of_int n :: rat" and ?e = "log2_floor (of_int n)"
  have pos: "0 < ?q" and one: "1 \<le> ?q" using n(1) False by simp_all
  note b = log2_floor_bounds [OF pos]
  have "(2 :: rat) powi 0 < 2 powi (?e + 1)" using b(2) one by simp
  then have e0: "0 \<le> ?e" using powi_less_exp by fastforce
  have scaled: "log2_floor (?q * 1024) = ?e + 10"
  proof (rule log2_floor_unique)
    have "(2 :: rat) powi (?e + 10) = 2 powi ?e * 1024" by (simp add: power_int_add)
    then show "2 powi (?e + 10) \<le> ?q * 1024" using b(1) by simp
    have "(2 :: rat) powi (?e + 10 + 1) = 2 powi (?e + 1) * 1024" by (simp add: power_int_add)
    then show "?q * 1024 < 2 powi (?e + 10 + 1)" using b(2) by simp
  qed
  have ulp: "ulp_exponent (?q * 1024) = ulp_exponent ?q + 10"
    using e0 by (simp add: ulp_exponent_def scaled)
  have "?q * 1024 / 2 powi (ulp_exponent ?q + 10) = ?q / 2 powi ulp_exponent ?q"
    by (simp add: power_int_add)
  then have "fl_magnitude (?q * 1024) = fl_magnitude ?q * 1024"
    unfolding fl_magnitude_def ulp by (simp add: power_int_add)
  also have "fl_magnitude ?q = ?q" using n False by (intro fl_magnitude_int) simp_all
  finally have m: "fl_magnitude (?q * 1024) = ?q * 1024" .
  have "?q * 1024 < 2 ^ 53 * 1024" using of_int_less_2_53 [OF n(2)] by simp
  also have "(2 :: rat) ^ 53 * 1024 \<le> 2 powi 1024" by (simp add: power_int_def)
  finally show ?thesis
    using pos m by (simp add: fl_def Let_def not_le)
qed (simp add: fl_def)

text \<open>The double rounding of a stored value to its natural unit and back loses less than half a unit.\<close>

lemma times_roundtrip:
  fixes n :: int and f :: rat
  assumes n: "0 < n" "n \<le> 2 ^ 50" and f: "1 \<le> f" "f \<le> 1000"
    and m: "of_int n / f \<le> of_int m" "m < 2 ^ 53"
  obtains y w where "fl (of_int n / f) = Fin y" "0 \<le> y" "y \<le> of_int m" "fl (y * f) = Fin w" "round_half_away w = n"
proof -
  let ?q = "of_int n / f"
  have pos: "0 < ?q" using n(1) f(1) by (intro divide_pos_pos) simp_all
  define y where "y = fl_magnitude ?q"
  have y: "fl ?q = Fin y" "0 \<le> y" "y \<le> of_int m"
    using fl_pos [OF pos m] fl_magnitude_le [OF pos m] fl_magnitude_nonneg [of ?q] pos by (simp_all add: y_def)
  have tiny: "(2 :: rat) powi (- 1022) \<le> 1 / 1000"
    by (simp add: power_int_minus_divide)
  have "1 / 1000 \<le> 1 / f" using f by (intro divide_left_mono) simp_all
  also have "\<dots> \<le> ?q" using n(1) f(1) by (intro divide_right_mono) simp_all
  finally have "2 powi (- 1022) \<le> ?q" using tiny by simp
  then have "\<bar>y - ?q\<bar> \<le> ?q / 2 ^ 53" unfolding y_def by (rule fl_magnitude_error)
  then have "\<bar>y - ?q\<bar> * f \<le> ?q / 2 ^ 53 * f" using f(1) by (intro mult_right_mono) simp_all
  moreover have "\<bar>y - ?q\<bar> * f = \<bar>y * f - of_int n\<bar>"
  proof -
    have "y * f - of_int n = (y - ?q) * f" using f(1) by (simp add: left_diff_distrib)
    then show ?thesis using f(1) by (simp add: abs_mult)
  qed
  moreover have "?q / 2 ^ 53 * f = of_int n / 2 ^ 53" using f(1) by simp
  ultimately have near1: "\<bar>y * f - of_int n\<bar> \<le> of_int n / 2 ^ 53" by simp
  have "(of_int n :: rat) \<le> of_int (2 ^ 50)" using n(2) by (simp only: of_int_le_iff)
  then have n50: "(of_int n :: rat) / 2 ^ 53 \<le> 1 / 8" by simp
  have low: "7 / 8 \<le> y * f" and high: "y * f \<le> of_int (n + 1)"
    using near1 n50 n(1) unfolding abs_le_iff by simp_all
  have posy: "0 < y * f" using low by simp
  have "n + 1 < 2 ^ 53" using n(2) by simp
  note w = fl_pos [OF posy high this]
  define w where "w = fl_magnitude (y * f)"
  have "2 powi (- 1022) \<le> y * f" using tiny low by simp
  then have "\<bar>w - y * f\<bar> \<le> y * f / 2 ^ 53" unfolding w_def by (rule fl_magnitude_error)
  also have "y * f / 2 ^ 53 \<le> (of_int n + 1) / 2 ^ 53" using high by (intro divide_right_mono) simp_all
  also have "\<dots> = of_int n / 2 ^ 53 + 1 / 2 ^ 53" by (rule add_divide_distrib)
  also have "\<dots> \<le> 1 / 8 + 1 / 8" using n50 by (intro add_mono) simp_all
  finally have "\<bar>w - of_int n\<bar> < 1 / 2"
    using near1 n50 unfolding abs_le_iff abs_less_iff by auto
  moreover have "0 \<le> w" using posy by (simp add: w_def fl_magnitude_nonneg)
  ultimately have "round_half_away w = n" by (intro round_half_away_near)
  with that y w show ?thesis by (simp add: w_def)
qed


lemma kind_factor_cases:
  obtains (Times) f where "kind_factor k = Times (Fin f)" "kind_ratio k = f" "1 \<le> f" "f \<le> 1000"
  | (Over) "kind_factor k = Over (Fin 1024)" "kind_ratio k = 1 / 1024"
  by (cases k) (auto simp: kind_factor_def kind_ratio_def)

lemma max_natural_int: "\<exists>m. max_natural k = Fin (of_int m) \<and> of_int m * kind_ratio k = of_int (kind_top k)
    \<and> (k \<noteq> Bytes \<longrightarrow> m < 2 ^ 53)"
proof (cases k)
  case Count
  then show ?thesis by (intro exI [of _ "2 ^ 40"]) (simp add: max_natural_def kind_ratio_def kind_top_def)
next
  case Monotonic
  then show ?thesis by (intro exI [of _ "2 ^ 40"]) (simp add: max_natural_def kind_ratio_def kind_top_def)
next
  case Bytes
  then show ?thesis by (intro exI [of _ "2 ^ 60"]) (simp add: max_natural_def kind_ratio_def kind_top_def)
next
  case Percent
  then show ?thesis by (intro exI [of _ 1000]) (simp add: max_natural_def kind_ratio_def kind_top_def)
next
  case Load
  then show ?thesis by (intro exI [of _ 100000]) (simp add: max_natural_def kind_ratio_def kind_top_def)
next
  case Rate
  then show ?thesis by (intro exI [of _ 1000000000]) (simp add: max_natural_def kind_ratio_def kind_top_def)
next
  case Millis
  then show ?thesis by (intro exI [of _ 1000000000]) (simp add: max_natural_def kind_ratio_def kind_top_def)
qed

lemma f64_as_i64_sint: "0 \<le> sint s \<Longrightarrow> sint s < 2 ^ 53 \<Longrightarrow> f64_as_i64 (Fin (of_int (sint s))) = s"
  using f64_as_i64_int [of "sint s"] signed_word_eqI by blast

text \<open>It is enough that the natural value is finite, in range, and rounds back.\<close>

lemma scale_value_back:
  assumes "max_natural k = Fin m" "natural_value k v = Fin y" "0 \<le> y" "y \<le> m" "fl (y * kind_ratio k) = Fin w"
    "round_half_away w = sint (scaled_get v)" "0 \<le> sint (scaled_get v)" "sint (scaled_get v) < 2 ^ 53"
  shows "scale_value k (natural_value k v) = Inr v"
  using assms f64_as_i64_sint [of "scaled_get v"]
  by (simp add: scale_value_def to_stored_ratio del: f64_as_i64.simps)

lemma scale_natural_value:
  assumes "0 \<le> sint s" "sint s \<le> kind_top k"
  shows "scale_value k (natural_value k (Scaled s)) = Inr (Scaled s)"
proof -
  let ?n = "sint s"
  have small: "?n \<le> 2 ^ 50" "?n < 2 ^ 53" using assms(2) kind_top_bounds(2) [of k] by simp_all
  have as: "i64_as_f64 s = Fin (of_int ?n)" unfolding i64_as_f64_def using assms(1) small(2) by (rule fl_int)
  obtain m where m: "max_natural k = Fin (of_int m)" "of_int m * kind_ratio k = of_int (kind_top k)" "k \<noteq> Bytes \<longrightarrow> m < 2 ^ 53"
    using max_natural_int by blast
  have top: "(of_int ?n :: rat) \<le> of_int m * kind_ratio k" unfolding m(2) using assms(2) by (simp only: of_int_le_iff)
  show ?thesis
  proof (cases k rule: kind_factor_cases)
    case (Times f)
    have nat: "natural_value k (Scaled s) = fl (of_int ?n / f)"
      using Times(1,3) by (simp add: natural_value_def as)
    show ?thesis
    proof (cases "?n = 0")
      case True
      have "(0 :: rat) \<le> of_int m" using top Times(2,3) True by (simp add: zero_le_mult_iff)
      then show ?thesis
        using nat True small by (intro scale_value_back [OF m(1), of _ 0 0]) (simp_all add: fl_def round_half_away_int [of 0, simplified])
    next
      case False
      have le: "of_int ?n / f \<le> of_int m" using top Times(2,3) by (simp add: pos_divide_le_eq)
      have "k \<noteq> Bytes" using Times(1) by (auto simp: kind_factor_def)
      then have "m < 2 ^ 53" using m(3) by simp
      with False assms(1) small(1) Times(3,4) le obtain y w where
        "fl (of_int ?n / f) = Fin y" "0 \<le> y" "y \<le> of_int m" "fl (y * f) = Fin w" "round_half_away w = ?n"
        by (metis times_roundtrip order_less_le)
      then show ?thesis
        using nat assms(1) small(2) Times(2) by (intro scale_value_back [OF m(1), of _ y w]) simp_all
    qed
  next
    case Over
    have "natural_value k (Scaled s) = Fin (of_int ?n * 1024)"
      using Over(1) fl_kibi [OF assms(1) small(2)] by (simp add: natural_value_def as)
    moreover have "(of_int ?n * 1024 :: rat) \<le> of_int m" using top Over(2) by simp
    moreover have "(0 :: rat) \<le> of_int ?n * 1024" using assms(1) by (simp only: of_int_0_le_iff zero_le_mult_iff) simp
    moreover have "fl (of_int ?n * 1024 * kind_ratio k) = Fin (of_int ?n)"
      using fl_int [OF assms(1) small(2)] by (simp add: Over(2))
    ultimately show ?thesis
      using assms(1) small(2) round_half_away_int [OF assms(1)]
      by (intro scale_value_back [OF m(1), of _ "of_int ?n * 1024" "of_int ?n"]) (simp_all only: scaled.sel)
  qed
qed

lemma round_half_away_error: "\<bar>of_int (round_half_away q) - q\<bar> \<le> 1 / 2"
proof (cases "0 \<le> q")
  case True
  then have "round_half_away q = \<lfloor>q + 1 / 2\<rfloor>" by (simp add: round_half_away_def)
  then show ?thesis using floor_correct [of "q + 1 / 2"] unfolding abs_le_iff by linarith
next
  case False
  then have "round_half_away q = - \<lfloor>- q + 1 / 2\<rfloor>" by (simp add: round_half_away_def)
  then show ?thesis using floor_correct [of "- q + 1 / 2"] unfolding abs_le_iff by linarith
qed

lemma fl_error_small:
  assumes "0 \<le> q" "q \<le> of_int n" "n \<le> 2 ^ 50" "fl q = Fin w"
  shows "\<bar>w - q\<bar> \<le> 1 / 8"
proof (cases "q = 0")
  case True
  then show ?thesis using assms(4) by (simp add: fl_def)
next
  case False
  then have q: "0 < q" using assms(1) by simp
  let ?u = "2 powi ulp_exponent q :: rat"
  have w: "w = fl_magnitude q" using fl_pos [OF q assms(2)] assms(3,4) by simp
  have "(of_int n :: rat) \<le> of_int (2 ^ 50)" using assms(3) by (simp only: of_int_le_iff)
  then have "(2 :: rat) powi log2_floor q < 2 powi 51"
    using log2_floor_bounds(1) [OF q] assms(2) by simp
  then have "log2_floor q < 51" by (rule powi_less_exp)
  then have "ulp_exponent q \<le> - 2" by (simp add: ulp_exponent_def)
  then have "?u \<le> 2 powi (- 2)" by (intro power_int_increasing) simp_all
  then have u: "?u \<le> 1 / 4" by (simp add: power_int_minus_divide)
  have "w - q = (of_int (round_half_even (q / ?u)) - q / ?u) * ?u"
    by (simp add: w fl_magnitude_def left_diff_distrib)
  then have "\<bar>w - q\<bar> = \<bar>of_int (round_half_even (q / ?u)) - q / ?u\<bar> * ?u"
    by (simp add: abs_mult)
  also have "\<dots> \<le> 1 / 2 * (1 / 4)"
    using round_half_even_bounds u by (intro mult_mono) simp_all
  finally show ?thesis by simp
qed

section \<open>Properties\<close>

text \<open>C10. The stored form is stable: every stored value of a kind's domain, taken to its natural unit
  in binary64 arithmetic and scaled again, is the same stored value.  Both roundings together never
  move a value to the next multiple of the scale.\<close>

theorem stored_natural_roundtrip:
  "check_scaled k s = Inr v \<Longrightarrow> scale_value k (natural_value k v) = Inr v"
  using scale_natural_value [of s k] by (auto simp: check_scaled_def sint_max_scaled split: if_splits)

theorem stored_natural_roundtrip_witness:
  "check_scaled Rate 333 = Inr (Scaled 333)
   \<and> scale_value Rate (natural_value Rate (Scaled 333)) = Inr (Scaled 333)"
proof -
  have "check_scaled Rate 333 = Inr (Scaled 333)"
    by (simp add: check_scaled_def sint_max_scaled kind_top_def)
  with stored_natural_roundtrip [OF this] show ?thesis by blast
qed

text \<open>Scaling is sound: a natural value is accepted exactly when it is a number from 0 to the
  kind's maximum, and what is accepted is a stored value that the kind's own check accepts, less than
  one unit of the scale away from the exact quotient (half a unit from rounding to an integer, and at
  most an eighth from the rounding of the product).\<close>

theorem scale_value_sound:
  "case scale_value k x of
     Inl e \<Rightarrow> \<not> (f64_le (Fin 0) x \<and> f64_le x (max_natural k))
   | Inr v \<Rightarrow> check_scaled k (scaled_get v) = Inr v
       \<and> (\<exists>q. x = Fin q \<and> 0 \<le> q \<and> \<bar>of_int (sint (scaled_get v)) - q * kind_ratio k\<bar> \<le> 5 / 8)"
proof (cases "scale_value k x")
  case (Inl e)
  then show ?thesis by (simp add: scale_value_def split: if_splits)
next
  case (Inr v)
  then obtain q w where w: "x = Fin q" "0 \<le> q" "q * kind_ratio k \<le> of_int (kind_top k)" "fl (q * kind_ratio k) = Fin w"
      "0 \<le> w" "w \<le> of_int (kind_top k)" "v = Scaled (f64_as_i64 (Fin (of_int (round_half_away w))))"
    by (rule scale_value_Inr)
  have "0 \<le> round_half_away w \<and> round_half_away w \<le> kind_top k" using w(5,6) by (rule round_half_away_bounds)
  then have v: "sint (scaled_get v) = round_half_away w"
    unfolding w(7) scaled.sel using kind_top_bounds(2) [of k] by (intro f64_as_i64_int) simp_all
  have "0 \<le> q * kind_ratio k" using w(2) kind_ratio_pos [of k] by simp
  then have "\<bar>w - q * kind_ratio k\<bar> \<le> 1 / 8"
    using w(3) kind_top_bounds(2) [of k] w(4) by (rule fl_error_small)
  with round_half_away_error [of w] have "\<bar>of_int (round_half_away w) - q * kind_ratio k\<bar> \<le> 5 / 8"
    unfolding abs_le_iff by linarith
  with Inr w(1,2) v scale_value_in_domain [OF Inr] show ?thesis by simp
qed

end
