(* ===== verification/Raw_Chunk.thy ===== *)
theory Raw_Chunk
  imports Bits Value_Kind
begin

text \<open>
  The raw chunk (\<open>system-hub/hub-store/src/codec/raw.rs\<close>): one series' points, delta coded
  into a bit stream, at most 240 of them or 1 KiB.  A chunk is described by the list of points
  pushed into it (\<open>raw_rep\<close>): encoding and decoding, the encoded length and reopening are
  characterised by that list.
\<close>

definition RAW_FORMAT_V1 :: u8 where
  "RAW_FORMAT_V1 = 0x01"

definition MAX_RAW_POINTS :: nat where
  "MAX_RAW_POINTS = 240"

definition MAX_RAW_CHUNK_BYTES :: nat where
  "MAX_RAW_CHUNK_BYTES = 1024"

record raw_point =
  rp_ts :: u64
  rp_value :: i64

record raw_chunk =
  rc_encoding :: encoding
  rc_ends :: "(raw_point \<times> raw_point) option"
  rc_ts_step :: i64
  rc_value_step :: i64
  rc_count :: nat
  rc_bits :: bit_writer

definition raw_new :: "encoding \<Rightarrow> raw_chunk" where
  "raw_new e = \<lparr>rc_encoding = e, rc_ends = None, rc_ts_step = 0, rc_value_step = 0, rc_count = 0,
     rc_bits = bw_empty\<rparr>"

definition raw_header_len :: "nat \<Rightarrow> raw_point \<Rightarrow> nat" where
  "raw_header_len count first =
     1 + varint_len (of_nat count) + varint_len (rp_ts first) + varint_len (zigzag (rp_value first))"

text \<open>\<open>push\<close>: the refusals leave the chunk as it was, so the result carries the new chunk only.\<close>

definition raw_push :: "raw_chunk \<Rightarrow> raw_point \<Rightarrow> push_refused + raw_chunk" where
  "raw_push c point =
     (case rc_ends c of
        None \<Rightarrow> Inr (c\<lparr>rc_ends := Some (point, point), rc_count := 1\<rparr>)
      | Some (first, prev) \<Rightarrow>
          if rp_ts point \<le> rp_ts prev then Inl RefusedNotAfterLast
          else if rc_count c \<ge> MAX_RAW_POINTS then Inl Full
          else rbind (ok_or Full (signed_try_from (rp_ts point - rp_ts prev))) (\<lambda>ts_step.
            let dod = ts_step - rc_ts_step c in
            rbind (ok_or Full (dod_bits dod)) (\<lambda>ts_bits.
              let v_step = rp_value point - rp_value prev;
                  code = (case rc_encoding c of
                            Delta \<Rightarrow> zigzag v_step
                          | DeltaOfDelta \<Rightarrow> zigzag (v_step - rc_value_step c));
                  bits = bw_bits (rc_bits c) + (ts_bits + value_bits code)
              in if raw_header_len (rc_count c + 1) first + div_ceil bits 8 > MAX_RAW_CHUNK_BYTES
                 then Inl Full
                 else let w = snd (write_dod (rc_bits c) dod);
                          w = write_value w code
                      in Inr (c\<lparr>rc_bits := w, rc_ends := Some (first, point), rc_ts_step := ts_step,
                               rc_value_step := v_step, rc_count := rc_count c + 1\<rparr>))))"

definition raw_is_empty :: "raw_chunk \<Rightarrow> bool" where
  "raw_is_empty c \<longleftrightarrow> rc_count c = 0"

definition raw_last :: "raw_chunk \<Rightarrow> raw_point option" where
  "raw_last c = map_option snd (rc_ends c)"

definition raw_encoded_len :: "raw_chunk \<Rightarrow> nat" where
  "raw_encoded_len c = (case rc_ends c of
       None \<Rightarrow> 2
     | Some (first, _) \<Rightarrow> raw_header_len (rc_count c) first + length (bw_bytes (rc_bits c)))"

definition raw_encode :: "raw_chunk \<Rightarrow> bytes" where
  "raw_encode c =
     (let out = write_varint [RAW_FORMAT_V1] (of_nat (rc_count c))
      in case rc_ends c of
           None \<Rightarrow> out
         | Some (first, _) \<Rightarrow>
             write_varint (write_varint out (rp_ts first)) (zigzag (rp_value first)) @ bw_bytes (rc_bits c))"

definition raw_decode_header :: "bytes \<Rightarrow> decode_error + nat \<times> raw_point \<times> nat" where
  "raw_decode_header bs =
     (case bs of
        [] \<Rightarrow> Inl Truncated
      | format # _ \<Rightarrow>
          if format \<noteq> RAW_FORMAT_V1 then Inl (UnknownFormat format)
          else rbind (read_varint bs 1) (\<lambda>(n, pos).
            if n = 0 then Inl DecodeMalformed
            else if n > of_nat MAX_RAW_POINTS then Inl TooLong
            else rbind (read_varint bs pos) (\<lambda>(ts, pos).
                 rbind (read_varint bs pos) (\<lambda>(v, pos).
                   Inr (unat n, \<lparr>rp_ts = ts, rp_value = unzigzag v\<rparr>, pos)))))"

text \<open>The loop of \<open>decode_raw\<close> over the points after the first: \<open>n\<close> of them are left, and the
  last point, the two steps and the reader are the loop's state.\<close>

primrec raw_decode_points ::
  "encoding \<Rightarrow> nat \<Rightarrow> raw_point \<Rightarrow> i64 \<Rightarrow> i64 \<Rightarrow> bit_reader \<Rightarrow> decode_error + raw_point list \<times> bit_reader" where
  "raw_decode_points e 0 prev ts_step v_step r = Inr ([], r)"
| "raw_decode_points e (Suc n) prev ts_step v_step r =
     rbind (read_dod r) (\<lambda>(dod, r).
     rbind (ok_or DecodeMalformed (schecked_add ts_step dod)) (\<lambda>ts_step.
     rbind (ok_or DecodeMalformed
             (case unsigned_try_from ts_step of None \<Rightarrow> None | Some s \<Rightarrow> if s > 0 then Some s else None)) (\<lambda>step.
     rbind (ok_or DecodeMalformed (checked_add (rp_ts prev) step)) (\<lambda>ts.
     rbind (read_value r) (\<lambda>(v, r).
       let code = unzigzag v;
           v_step = (case e of Delta \<Rightarrow> code | DeltaOfDelta \<Rightarrow> v_step + code);
           point = \<lparr>rp_ts = ts, rp_value = rp_value prev + v_step\<rparr>
       in rbind (raw_decode_points e n point ts_step v_step r) (\<lambda>(points, r).
            Inr (point # points, r)))))))"

definition decode_raw :: "bytes \<Rightarrow> encoding \<Rightarrow> decode_error + raw_point list" where
  "decode_raw bs e =
     rbind (raw_decode_header bs) (\<lambda>(count, first, pos).
     rbind (raw_decode_points e (count - 1) first 0 0 (br_new (drop pos bs))) (\<lambda>(points, r).
       if pos + br_bytes_read r \<noteq> length bs then Inl DecodeMalformed
       else Inr (first # points)))"

definition raw_points :: "raw_chunk \<Rightarrow> raw_point list" where
  "raw_points c = (case decode_raw (raw_encode c) (rc_encoding c) of Inl _ \<Rightarrow> [] | Inr ps \<Rightarrow> ps)"

primrec raw_push_all :: "raw_chunk \<Rightarrow> raw_point list \<Rightarrow> push_refused + raw_chunk" where
  "raw_push_all c [] = Inr c"
| "raw_push_all c (p # ps) = rbind (raw_push c p) (\<lambda>c. raw_push_all c ps)"

definition raw_reopen :: "bytes \<Rightarrow> encoding \<Rightarrow> decode_error + raw_chunk" where
  "raw_reopen bs e =
     rbind (decode_raw bs e) (\<lambda>ps. map_err (\<lambda>_. DecodeMalformed) (raw_push_all (raw_new e) ps))"


section \<open>The bit stream of a list of points\<close>

text \<open>The code of the points after \<open>l\<close>, when the last steps were \<open>ts\<close> and \<open>vs\<close>.\<close>

definition raw_value_delta :: "encoding \<Rightarrow> i64 \<Rightarrow> i64 \<Rightarrow> i64" where
  "raw_value_delta e vs step = (case e of Delta \<Rightarrow> step | DeltaOfDelta \<Rightarrow> step - vs)"

primrec raw_codes :: "encoding \<Rightarrow> raw_point \<Rightarrow> i64 \<Rightarrow> i64 \<Rightarrow> raw_point list \<Rightarrow> bool list" where
  "raw_codes e l ts vs [] = []"
| "raw_codes e l ts vs (p # ps) =
     dod_code (rp_ts p - rp_ts l - ts)
       @ value_code (zigzag (raw_value_delta e vs (rp_value p - rp_value l)))
       @ raw_codes e p (rp_ts p - rp_ts l) (rp_value p - rp_value l) ps"

primrec raw_codable :: "raw_point \<Rightarrow> i64 \<Rightarrow> raw_point list \<Rightarrow> bool" where
  "raw_codable l ts [] = True"
| "raw_codable l ts (p # ps) \<longleftrightarrow> rp_ts l < rp_ts p \<and> unat (rp_ts p - rp_ts l) < 2 ^ 63
     \<and> dod_codable (rp_ts p - rp_ts l - ts) \<and> raw_codable p (rp_ts p - rp_ts l) ps"

primrec raw_last_steps :: "raw_point \<Rightarrow> i64 \<times> i64 \<Rightarrow> raw_point list \<Rightarrow> i64 \<times> i64" where
  "raw_last_steps l st [] = st"
| "raw_last_steps l st (p # ps) = raw_last_steps p (rp_ts p - rp_ts l, rp_value p - rp_value l) ps"

lemma raw_codes_snoc:
  "raw_codes e l ts vs (ps @ [p]) =
     raw_codes e l ts vs ps
       @ raw_codes e (last (l # ps)) (fst (raw_last_steps l (ts, vs) ps)) (snd (raw_last_steps l (ts, vs) ps)) [p]"
  by (induction ps arbitrary: l ts vs) simp_all

lemma raw_codable_snoc:
  "raw_codable l ts (ps @ [p]) \<longleftrightarrow>
     raw_codable l ts ps \<and> raw_codable (last (l # ps)) (fst (raw_last_steps l (ts, vs) ps)) [p]"
  by (induction ps arbitrary: l ts vs) auto

lemma raw_last_steps_snoc:
  "raw_last_steps l st (ps @ [p])
    = (rp_ts p - rp_ts (last (l # ps)), rp_value p - rp_value (last (l # ps)))"
  by (induction ps arbitrary: l st) simp_all

lemma raw_last_steps_nonneg:
  "unat ts < 2 ^ 63 \<Longrightarrow> raw_codable l ts ps \<Longrightarrow> unat (fst (raw_last_steps l (ts, vs) ps)) < 2 ^ 63"
  by (induction ps arbitrary: l ts vs) simp_all

lemma raw_codable_sorted: "raw_codable l ts ps \<Longrightarrow> sorted_wrt (<) (map rp_ts (l # ps))"
proof (induction ps arbitrary: l ts)
  case (Cons p ps)
  have "sorted_wrt (<) (map rp_ts (p # ps))"
    using Cons.prems by (intro Cons.IH) auto
  moreover have "rp_ts l < rp_ts p"
    using Cons.prems by simp
  ultimately show ?case by auto
qed simp

text \<open>Steps that fit \<open>i64\<close> add up without overflow.\<close>

lemma uint_of_small: "unat a < 2 ^ 63 \<Longrightarrow> uint a < 2 ^ 63" for a :: i64
proof -
  assume "unat a < 2 ^ 63"
  then have "int (unat a) < int (2 ^ 63)" by (simp only: of_nat_less_iff)
  then show ?thesis by simp
qed

lemma sint_of_small: "unat a < 2 ^ 63 \<Longrightarrow> sint a = uint a" for a :: i64
proof -
  assume "unat a < 2 ^ 63"
  from uint_of_small [OF this] have "- (2 ^ 63) \<le> uint a \<and> uint a < 2 ^ 63"
    using uint_ge_0 [of a] by linarith
  then have "signed_take_bit 63 (uint a) = uint a"
    by (simp only: signed_take_bit_int_eq_self_iff)
  then show ?thesis
    by (simp add: sint_uint)
qed

lemma schecked_add_diff:
  fixes a b :: i64
  assumes "unat a < 2 ^ 63" and "unat b < 2 ^ 63"
  shows "schecked_add a (b - a) = Some b"
proof -
  note a = sint_of_small [OF assms(1)] and b = sint_of_small [OF assms(2)]
  have bounds: "0 \<le> uint a" "uint a < 2 ^ 63" "0 \<le> uint b" "uint b < 2 ^ 63"
    using assms by (simp_all only: uint_ge_0 uint_of_small)
  have "- (2 ^ 63) \<le> sint b - sint a \<and> sint b - sint a < 2 ^ 63"
    unfolding a b using bounds by linarith
  then have "signed_take_bit 63 (sint b - sint a) = sint b - sint a"
    by (simp add: signed_take_bit_int_eq_self_iff)
  moreover have "sint (b - a) = signed_take_bit 63 (sint b - sint a)"
    using signed_take_bit_diff [of 63 "sint b" "sint a"] by (simp add: sint_word_ariths)
  ultimately have "sint a + sint (b - a) = uint b" using b by simp
  moreover have "fits_signed 64 (uint b)"
    using bounds by (auto simp: fits_signed_def intro: order_trans [of _ 0])
  ultimately have "fits_signed LENGTH(64) (sint a + sint (b - a))" by simp
  then show ?thesis by (simp add: schecked_add_def)
qed

lemma raw_decode_points_codes:
  assumes "unat ts < 2 ^ 63" and "raw_codable l ts ps" and "br_rest r = raw_codes e l ts vs ps @ bs"
  shows "raw_decode_points e (length ps) l ts vs r = Inr (ps, br_skip r (length (raw_codes e l ts vs ps)))"
  using assms
proof (induction ps arbitrary: l ts vs r)
  case Nil
  then show ?case by simp
next
  case (Cons p ps)
  let ?step = "rp_ts p - rp_ts l" and ?v = "rp_value p - rp_value l"
  let ?d = "dod_code (?step - ts)" and ?c = "value_code (zigzag (raw_value_delta e vs ?v))"
  have lt: "rp_ts l < rp_ts p" and small: "unat ?step < 2 ^ 63" and codable: "dod_codable (?step - ts)"
    and rest: "raw_codable p ?step ps"
    using Cons.prems(2) by simp_all
  have d: "read_dod r = Inr (?step - ts, br_skip r (length ?d))"
    using codable by (rule dod.get_code) (use Cons.prems(3) in simp)
  have c: "read_value (br_skip r (length ?d))
      = Inr (zigzag (raw_value_delta e vs ?v), br_skip (br_skip r (length ?d)) (length ?c))"
    by (rule val.get_code [where bs = "raw_codes e p ?step ?v ps @ bs"]) (use Cons.prems(3) in simp_all)
  have step: "schecked_add ts (?step - ts) = Some ?step"
    using Cons.prems(1) small by (rule schecked_add_diff)
  have try_step: "unsigned_try_from ?step = Some ?step"
    using sint_of_small [OF small] by (simp add: unsigned_try_from_def)
  have pos: "?step > 0" using lt by (simp add: word_greater_zero_iff)
  have "unat (rp_ts l) + unat ?step = unat (rp_ts p)"
    using lt by (simp add: unat_sub_le word_less_nat_alt)
  then have ts: "checked_add (rp_ts l) ?step = Some (rp_ts p)"
    by (simp add: checked_add_eq_Some)
  have v: "(case e of Delta \<Rightarrow> unzigzag (zigzag (raw_value_delta e vs ?v))
      | DeltaOfDelta \<Rightarrow> vs + unzigzag (zigzag (raw_value_delta e vs ?v))) = ?v"
    by (cases e) (simp_all add: raw_value_delta_def)
  have point: "\<lparr>rp_ts = rp_ts p, rp_value = rp_value p\<rparr> = p"
    by simp
  have IH: "raw_decode_points e (length ps) p ?step ?v (br_skip r (length ?d + length ?c))
      = Inr (ps, br_skip (br_skip r (length ?d + length ?c)) (length (raw_codes e p ?step ?v ps)))"
    using small rest by (rule Cons.IH) (use Cons.prems(3) in simp)
  show ?case
    using d c step try_step pos ts IH by (simp add: Let_def add.assoc v point)
qed


section \<open>What a chunk holds\<close>

text \<open>The chunk is the one that the points \<open>ps\<close>, pushed in order into a new chunk, give.\<close>

definition raw_state :: "encoding \<Rightarrow> raw_chunk \<Rightarrow> raw_point list \<Rightarrow> bool" where
  "raw_state e c ps \<longleftrightarrow> (case ps of
       [] \<Rightarrow> c = raw_new e
     | p # qs \<Rightarrow>
         rc_encoding c = e \<and> rc_ends c = Some (p, last ps) \<and> rc_count c = length ps
         \<and> (rc_ts_step c, rc_value_step c) = raw_last_steps p (0, 0) qs
         \<and> bw_rep (rc_bits c) (raw_codes e p 0 0 qs) \<and> raw_codable p 0 qs
         \<and> length ps \<le> MAX_RAW_POINTS
         \<and> raw_header_len (length ps) p + div_ceil (length (raw_codes e p 0 0 qs)) 8 \<le> MAX_RAW_CHUNK_BYTES)"

lemma raw_push_all_append:
  "raw_push_all c (ps @ qs) = rbind (raw_push_all c ps) (\<lambda>c. raw_push_all c qs)"
  by (induction ps arbitrary: c) (simp_all add: rbind_def split: sum.splits)

lemma raw_header_len_le: "raw_header_len n p \<le> 31"
  using varint_len_le_10 [of "of_nat n"] varint_len_le_10 [of "rp_ts p"] varint_len_le_10 [of "zigzag (rp_value p)"]
  by (simp add: raw_header_len_def)

lemma raw_state_first: "raw_push (raw_new e) p = Inr c \<Longrightarrow> raw_state e c [p]"
  using raw_header_len_le [of "Suc 0" p]
  by (auto simp: raw_push_def raw_new_def raw_state_def MAX_RAW_POINTS_def MAX_RAW_CHUNK_BYTES_def div_ceil_8)

lemma signed_try_from_eq: "signed_try_from s = Some t \<longleftrightarrow> t = s \<and> unat s < 2 ^ 63" for s t :: i64
  by (auto simp: signed_try_from_def)

lemma raw_value_code:
  "(case e of Delta \<Rightarrow> zigzag s | DeltaOfDelta \<Rightarrow> zigzag (s - vs)) = zigzag (raw_value_delta e vs s)"
  by (simp add: raw_value_delta_def split: encoding.split)

lemma raw_state_next:
  assumes c: "raw_state e c (p # qs)" and push: "raw_push c q = Inr c'"
  shows "raw_state e c' (p # qs @ [q])"
proof -
  define l where "l = last (p # qs)"
  obtain ts vs where steps: "raw_last_steps p (0, 0) qs = (ts, vs)" by (cases "raw_last_steps p (0, 0) qs")
  let ?step = "rp_ts q - rp_ts l" and ?vstep = "rp_value q - rp_value l"
  let ?code = "zigzag (raw_value_delta e vs ?vstep)"
  have fields: "rc_encoding c = e" "rc_ends c = Some (p, l)" "rc_count c = Suc (length qs)"
      "rc_ts_step c = ts" "rc_value_step c = vs"
    and rep: "bw_rep (rc_bits c) (raw_codes e p 0 0 qs)" and codable: "raw_codable p 0 qs"
    using c steps by (simp_all add: raw_state_def l_def)
  have bits: "bw_bits (rc_bits c) = length (raw_codes e p 0 0 qs)"
    using rep by (simp add: bw_rep_def)
  from push fields have after: "rp_ts l < rp_ts q" and room: "Suc (length qs) < MAX_RAW_POINTS"
    by (auto simp: raw_push_def split: if_splits)
  from push after room fields have small: "unat ?step < 2 ^ 63"
    by (auto simp: raw_push_def result_simps signed_try_from_eq split: if_splits)
  from push after room small fields have dod: "dod_codable (?step - ts)"
    by (auto simp: raw_push_def result_simps signed_try_from_eq dod_bits_length Let_def split: if_splits)
  let ?new = "dod_code (?step - ts) @ value_code ?code"
  let ?len = "raw_header_len (Suc (Suc (length qs))) p + div_ceil (length (raw_codes e p 0 0 qs @ ?new)) 8"
  have len: "?len \<le> MAX_RAW_CHUNK_BYTES"
    and c': "c' = c\<lparr>rc_bits := write_value (snd (write_dod (rc_bits c) (?step - ts))) ?code, rc_ends := Some (p, q),
        rc_ts_step := ?step, rc_value_step := ?vstep, rc_count := Suc (Suc (length qs))\<rparr>"
    using push after room small fields dod
    by (auto simp: raw_push_def result_simps signed_try_from_eq dod_bits_length value_bits_length raw_value_code bits Let_def
        split: if_splits)
  have codes: "raw_codes e p 0 0 (qs @ [q]) = raw_codes e p 0 0 qs @ ?new"
    by (simp add: raw_codes_snoc steps flip: l_def del: last.simps)
  have "bw_rep (write_value (snd (write_dod (rc_bits c) (?step - ts))) ?code)
      ((raw_codes e p 0 0 qs @ dod_code (?step - ts)) @ value_code ?code)"
    using dod rep by (intro val.put_rep dod.put_rep) simp_all
  then have rep': "bw_rep (rc_bits c') (raw_codes e p 0 0 (qs @ [q]))"
    by (simp add: c' codes)
  have "raw_codable p 0 (qs @ [q])"
    using codable after small dod by (simp add: raw_codable_snoc [where vs = 0] steps flip: l_def del: last.simps)
  moreover have "raw_last_steps p (0, 0) (qs @ [q]) = (?step, ?vstep)"
    by (simp only: raw_last_steps_snoc l_def)
  ultimately show ?thesis
    using rep' len room fields codes by (simp add: raw_state_def c')
qed

lemma raw_state_push:
  assumes "raw_state e c ps" and "raw_push c q = Inr c'"
  shows "raw_state e c' (ps @ [q])"
proof (cases ps)
  case Nil
  with assms show ?thesis by (simp add: raw_state_def [of e c] raw_state_first)
next
  case (Cons p qs)
  with assms raw_state_next show ?thesis by simp
qed

lemma raw_push_all_state: "raw_push_all (raw_new e) ps = Inr c \<Longrightarrow> raw_state e c ps"
proof (induction ps arbitrary: c rule: rev_induct)
  case Nil
  then show ?case by (simp add: raw_state_def)
next
  case (snoc p ps)
  then obtain d where "raw_push_all (raw_new e) ps = Inr d" and "raw_push d p = Inr c"
    by (auto simp: raw_push_all_append result_simps)
  with snoc.IH raw_state_push show ?case by blast
qed


section \<open>Encoding and decoding\<close>

lemma raw_encode_state:
  assumes "raw_state e c (p # qs)"
  shows "raw_encode c = [RAW_FORMAT_V1] @ write_varint [] (of_nat (Suc (length qs))) @ write_varint [] (rp_ts p)
    @ write_varint [] (zigzag (rp_value p)) @ bw_bytes (rc_bits c)"
proof -
  have "write_varint (write_varint (write_varint [RAW_FORMAT_V1] n) a) b
      = [RAW_FORMAT_V1] @ write_varint [] n @ write_varint [] a @ write_varint [] b" for n a b
    by (metis append.assoc write_varint_append)
  then show ?thesis
    using assms by (simp add: raw_encode_def raw_state_def)
qed

lemma raw_encoded_len_state:
  assumes "raw_state e c (p # qs)"
  shows "length (raw_encode c) = raw_encoded_len c" and "raw_encoded_len c \<le> MAX_RAW_CHUNK_BYTES"
proof -
  have "rc_ends c = Some (p, last (p # qs))" and "rc_count c = Suc (length qs)"
    and "bw_rep (rc_bits c) (raw_codes e p 0 0 qs)"
    and "raw_header_len (Suc (length qs)) p + div_ceil (length (raw_codes e p 0 0 qs)) 8 \<le> MAX_RAW_CHUNK_BYTES"
    using assms by (simp_all add: raw_state_def)
  then show "length (raw_encode c) = raw_encoded_len c" and "raw_encoded_len c \<le> MAX_RAW_CHUNK_BYTES"
    using raw_encode_state [OF assms]
    by (simp_all add: raw_encoded_len_def raw_header_len_def varint_len_write bw_rep_bytes_len)
qed

lemma raw_decode_header_encode:
  fixes n :: nat and p :: raw_point
  assumes hdr: "hdr = [RAW_FORMAT_V1] @ write_varint [] (of_nat n) @ write_varint [] (rp_ts p)
    @ write_varint [] (zigzag (rp_value p))"
    and "0 < n" and "n \<le> MAX_RAW_POINTS"
  shows "raw_decode_header (hdr @ bs) = Inr (n, p, length hdr)"
proof -
  let ?a = "write_varint [] (of_nat n)" and ?b = "write_varint [] (rp_ts p)"
    and ?c = "write_varint [] (zigzag (rp_value p))"
  have n: "unat (of_nat n :: u64) = n"
    using assms(3) by (intro unat_of_nat_small) (simp add: MAX_RAW_POINTS_def)
  then have small: "of_nat n \<noteq> (0 :: u64)" "\<not> (of_nat n :: u64) > of_nat MAX_RAW_POINTS"
    using assms(2,3) by (auto simp: word_less_nat_alt word_unat_eq_iff MAX_RAW_POINTS_def)
  have "read_varint (hdr @ bs) 1 = Inr (of_nat n, 1 + length ?a)"
    using read_varint_write [of "[RAW_FORMAT_V1]" "of_nat n" "?b @ ?c @ bs"] by (simp add: hdr)
  moreover have "read_varint (hdr @ bs) (1 + length ?a) = Inr (rp_ts p, 1 + length ?a + length ?b)"
    using read_varint_write [of "[RAW_FORMAT_V1] @ ?a" "rp_ts p" "?c @ bs"] by (simp add: hdr)
  moreover have "read_varint (hdr @ bs) (1 + length ?a + length ?b) = Inr (zigzag (rp_value p), length hdr)"
    using read_varint_write [of "[RAW_FORMAT_V1] @ ?a @ ?b" "zigzag (rp_value p)" bs] by (simp add: hdr)
  moreover have "hdr @ bs = RAW_FORMAT_V1 # (?a @ ?b @ ?c @ bs)"
    by (simp add: hdr)
  ultimately show ?thesis
    using small n by (simp add: raw_decode_header_def del: of_nat_eq_0_iff)
qed

lemma decode_raw_state:
  assumes "raw_state e c (p # qs)"
  shows "decode_raw (raw_encode c) e = Inr (p # qs)"
proof -
  let ?hdr = "[RAW_FORMAT_V1] @ write_varint [] (of_nat (Suc (length qs))) @ write_varint [] (rp_ts p)
    @ write_varint [] (zigzag (rp_value p))"
  let ?codes = "raw_codes e p 0 0 qs"
  have rep: "bw_rep (rc_bits c) ?codes" and codable: "raw_codable p 0 qs"
    and count: "Suc (length qs) \<le> MAX_RAW_POINTS"
    using assms by (simp_all add: raw_state_def)
  have enc: "raw_encode c = ?hdr @ bw_bytes (rc_bits c)"
    using raw_encode_state [OF assms] by simp
  then have header: "raw_decode_header (raw_encode c) = Inr (Suc (length qs), p, length ?hdr)"
    using raw_decode_header_encode [OF refl, of "Suc (length qs)" p] count by (simp del: of_nat_Suc)
  have rest: "drop (length ?hdr) (raw_encode c) = bw_bytes (rc_bits c)"
    by (simp add: enc)
  obtain pad where "stream (bw_bytes (rc_bits c)) = ?codes @ pad"
    using rep by (auto simp: bw_rep_def)
  then have "raw_decode_points e (length qs) p 0 0 (br_new (bw_bytes (rc_bits c)))
      = Inr (qs, br_skip (br_new (bw_bytes (rc_bits c))) (length ?codes))"
    using codable by (intro raw_decode_points_codes) simp_all
  moreover have "br_bytes_read (br_skip (br_new (bw_bytes (rc_bits c))) (length ?codes))
      = length (bw_bytes (rc_bits c))"
    by (simp add: br_bytes_read_def br_new_def bw_rep_bytes_len [OF rep])
  moreover have "length (raw_encode c) = length ?hdr + length (bw_bytes (rc_bits c))"
    by (simp add: enc)
  ultimately show ?thesis
    unfolding decode_raw_def header rbind_simps prod.case rest by simp
qed

lemma raw_points_state: "raw_state e c ps \<Longrightarrow> raw_points c = ps"
proof (cases ps)
  case Nil
  assume "raw_state e c ps"
  with Nil have "raw_encode c = write_varint [RAW_FORMAT_V1] 0"
    by (simp add: raw_state_def raw_encode_def raw_new_def)
  then have "raw_encode c = [RAW_FORMAT_V1, 0]"
    by (simp add: write_varint.simps [of "[RAW_FORMAT_V1]" 0])
  moreover have "raw_decode_header [RAW_FORMAT_V1, 0] = Inl DecodeMalformed"
    by (simp add: raw_decode_header_def read_varint_def read_varint_from.simps [of _ 0] Let_def)
  ultimately show ?thesis
    using Nil by (simp add: raw_points_def decode_raw_def)
next
  case (Cons p qs)
  assume c: "raw_state e c ps"
  with Cons have "rc_encoding c = e" by (simp add: raw_state_def)
  with c Cons show ?thesis by (simp add: raw_points_def decode_raw_state)
qed

lemma raw_reopen_state:
  assumes "raw_push_all (raw_new e) ps = Inr c" and "ps \<noteq> []"
  shows "raw_reopen (raw_encode c) e = Inr c"
proof -
  obtain p qs where ps: "ps = p # qs" using assms(2) by (cases ps) auto
  have "decode_raw (raw_encode c) e = Inr ps"
    using raw_push_all_state [OF assms(1)] unfolding ps by (rule decode_raw_state)
  with assms(1) show ?thesis by (simp add: raw_reopen_def)
qed

lemma raw_state_sorted: "raw_state e c ps \<Longrightarrow> sorted_wrt (<) (map rp_ts ps)"
  by (cases ps) (auto simp: raw_state_def dest: raw_codable_sorted)

lemma raw_state_last: "raw_state e c ps \<Longrightarrow> raw_last c = (if ps = [] then None else Some (last ps))"
  by (cases ps) (simp_all add: raw_state_def raw_last_def raw_new_def)

lemma raw_state_count: "raw_state e c ps \<Longrightarrow> rc_count c = length ps"
  by (cases ps) (simp_all add: raw_state_def raw_new_def)

section \<open>The decoder on any bytes\<close>

lemma raw_decode_points_sound:
  assumes "raw_decode_points e n l ts vs r = Inr (ps, r')"
  shows "length ps = n \<and> sorted_wrt (<) (map rp_ts (l # ps))"
  using assms
proof (induction n arbitrary: l ts vs r ps)
  case (Suc n)
  then obtain step p qs ts' vs' r1 where ps: "ps = p # qs"
    and rest: "raw_decode_points e n p ts' vs' r1 = Inr (qs, r')"
    and step: "step > 0" "checked_add (rp_ts l) step = Some (rp_ts p)"
    by (auto simp: result_simps Let_def split: option.splits if_splits prod.splits)
  have "rp_ts l < rp_ts p"
    using step by (simp add: checked_add_eq_Some word_less_nat_alt)
  moreover have "length qs = n" and "sorted_wrt (<) (map rp_ts (p # qs))"
    using Suc.IH [OF rest] by simp_all
  ultimately show ?case by (auto simp: ps)
qed auto

lemma raw_decode_header_sound:
  "raw_decode_header bs = Inr (n, p, pos) \<Longrightarrow> 0 < n \<and> n \<le> MAX_RAW_POINTS"
  by (auto simp: raw_decode_header_def result_simps word_less_nat_alt MAX_RAW_POINTS_def not_less
      unat_gt_0 split: list.splits if_splits prod.splits)

lemma decode_raw_sound:
  assumes "decode_raw bs e = Inr ps"
  shows "ps \<noteq> [] \<and> length ps \<le> MAX_RAW_POINTS \<and> sorted_wrt (<) (map rp_ts ps)"
proof -
  obtain n p pos qs r where h: "raw_decode_header bs = Inr (n, p, pos)"
    and d: "raw_decode_points e (n - 1) p 0 0 (br_new (drop pos bs)) = Inr (qs, r)" and ps: "ps = p # qs"
    using assms by (auto simp: decode_raw_def result_simps split: if_splits)
  show ?thesis
    using raw_decode_header_sound [OF h] raw_decode_points_sound [OF d] by (auto simp: ps)
qed


text \<open>The second point is taken whenever its step can be coded.\<close>

lemma raw_push_second:
  assumes "rp_ts p < rp_ts q" and "unat (rp_ts q - rp_ts p) < 2 ^ 63" and "dod_codable (rp_ts q - rp_ts p)"
  shows "\<exists>c. raw_push_all (raw_new e) [p, q] = Inr c"
proof -
  let ?d = "dod_code (rp_ts q - rp_ts p)"
  have "raw_header_len (Suc (Suc 0)) p + div_ceil (length ?d + length (value_code v)) 8 \<le> 1024" for v
    using raw_header_len_le [of "Suc (Suc 0)" p] length_dod_code_le [of "rp_ts q - rp_ts p"] length_value_code_le [of v]
    unfolding div_ceil_8 by linarith
  then have "\<not> MAX_RAW_CHUNK_BYTES < raw_header_len (Suc (Suc 0)) p + div_ceil (length ?d + length (value_code v)) 8" for v
    by (simp add: MAX_RAW_CHUNK_BYTES_def not_less)
  then show ?thesis
    using assms by (simp add: raw_push_def raw_new_def signed_try_from_eq [THEN iffD2] dod_bits_length
        value_bits_length bw_empty_def Let_def MAX_RAW_POINTS_def)
qed

section \<open>Properties\<close>

text \<open>C8. A raw chunk decodes to the points pushed into it: whatever points a new chunk took, its bytes
  decode to exactly these points, and reopening the bytes gives the chunk itself back, so a reopened
  chunk goes on as if it had never been closed.\<close>

theorem raw_chunk_roundtrip:
  assumes "raw_push_all (raw_new e) ps = Inr c" and "ps \<noteq> []"
  shows "decode_raw (raw_encode c) e = Inr ps \<and> raw_reopen (raw_encode c) e = Inr c \<and> raw_points c = ps"
proof -
  obtain p qs where ps: "ps = p # qs" using assms(2) by (cases ps) auto
  note state = raw_push_all_state [OF assms(1)]
  show ?thesis
    using decode_raw_state [of e c p qs] raw_reopen_state [OF assms] raw_points_state [OF state] state
    by (simp add: ps)
qed

theorem raw_chunk_roundtrip_witness:
  "\<exists>c. raw_push_all (raw_new DeltaOfDelta) [\<lparr>rp_ts = 100, rp_value = 7\<rparr>, \<lparr>rp_ts = 102, rp_value = 9\<rparr>] = Inr c
     \<and> decode_raw (raw_encode c) DeltaOfDelta = Inr [\<lparr>rp_ts = 100, rp_value = 7\<rparr>, \<lparr>rp_ts = 102, rp_value = 9\<rparr>]"
proof -
  let ?ps = "[\<lparr>rp_ts = 100, rp_value = 7\<rparr>, \<lparr>rp_ts = 102, rp_value = 9\<rparr>]"
  have "dod_codable 2"
    by (simp add: dod_codable_def dod_step_def DOD_STEPS_def)
  then have "\<exists>c. raw_push_all (raw_new DeltaOfDelta) ?ps = Inr c"
    by (intro raw_push_second) simp_all
  then obtain c where c: "raw_push_all (raw_new DeltaOfDelta) ?ps = Inr c" ..
  from c raw_chunk_roundtrip [OF c] show ?thesis by blast
qed

text \<open>A chunk that took points says its encoded length exactly, and stays within 1 KiB and 240
  points.\<close>

theorem raw_chunk_bounds:
  assumes "raw_push_all (raw_new e) ps = Inr c" and "ps \<noteq> []"
  shows "length (raw_encode c) = raw_encoded_len c \<and> raw_encoded_len c \<le> 1024
    \<and> rc_count c = length ps \<and> length ps \<le> 240"
proof -
  obtain p qs where ps: "ps = p # qs" using assms(2) by (cases ps) auto
  note state = raw_push_all_state [OF assms(1), unfolded ps]
  show ?thesis
    using raw_encoded_len_state [OF state] state
    by (simp add: raw_state_def ps MAX_RAW_CHUNK_BYTES_def MAX_RAW_POINTS_def)
qed

theorem raw_chunk_bounds_witness:
  "\<exists>c. raw_push_all (raw_new Delta) [\<lparr>rp_ts = 100, rp_value = 7\<rparr>] = Inr c \<and> raw_encoded_len c \<le> 1024"
proof -
  obtain c where c: "raw_push_all (raw_new Delta) [\<lparr>rp_ts = 100, rp_value = 7\<rparr>] = Inr c"
    by (simp add: raw_push_def raw_new_def)
  from c raw_chunk_bounds [OF c] show ?thesis by auto
qed

text \<open>The decoder trusts no bytes: whatever bytes it accepts, it returns between 1 and 240 points,
  in strictly increasing time order.\<close>

theorem decode_raw_well_formed:
  assumes "decode_raw bs e = Inr ps"
  shows "ps \<noteq> [] \<and> length ps \<le> 240 \<and> sorted_wrt (<) (map rp_ts ps)"
  using decode_raw_sound [OF assms] by (simp add: MAX_RAW_POINTS_def)

theorem decode_raw_well_formed_witness:
  "decode_raw [0x01, 1, 5, 4] Delta = Inr [\<lparr>rp_ts = 5, rp_value = 2\<rparr>]
   \<and> sorted_wrt (<) (map rp_ts [\<lparr>rp_ts = 5, rp_value = 2\<rparr>])"
proof -
  have "read_varint [0x01, 1, 5, 4] 1 = Inr (1, 2)" "read_varint [0x01, 1, 5, 4] 2 = Inr (5, 3)"
    "read_varint [0x01, 1, 5, 4] 3 = Inr (4, 4)"
    by (simp_all add: read_varint_def read_varint_from.simps [of _ 0] Let_def)
  then have d: "decode_raw [0x01, 1, 5, 4] Delta = Inr [\<lparr>rp_ts = 5, rp_value = 2\<rparr>]"
    by (simp add: decode_raw_def raw_decode_header_def RAW_FORMAT_V1_def MAX_RAW_POINTS_def
        unzigzag_def br_bytes_read_def br_new_def div_ceil_def drop_bit_eq_div)
  from d decode_raw_well_formed [OF d] show ?thesis by blast
qed

end
