(* ===== verification/Tier.thy ===== *)
theory Tier
  imports Prelude
begin

text \<open>
  Tiers, spans and buckets (\<open>system-hub/hub-store/src/tier.rs\<close>): the three resolutions of a
  series' history, the spans each tier is cut into, and when a span is closed.  The lemmas show
  that the spans of a tier partition time and that a closed span ended at least its grace ago.
\<close>

datatype tier = Raw | Minute | Hour

datatype rollup_tier = RollupMinute | RollupHour

datatype span_start = SpanStart (span_get: u64)

text \<open>The derived orders: a tier by its position, a span by its start.\<close>

instantiation tier :: linorder
begin

definition less_eq_tier :: "tier \<Rightarrow> tier \<Rightarrow> bool" where
  "less_eq_tier a b \<longleftrightarrow> a = b \<or> a = Raw \<or> b = Hour"

definition less_tier :: "tier \<Rightarrow> tier \<Rightarrow> bool" where
  "less_tier a b \<longleftrightarrow> a \<le> b \<and> a \<noteq> (b :: tier)"

instance
proof
  fix x y z :: tier
  show "x < y \<longleftrightarrow> x \<le> y \<and> \<not> y \<le> x"
    by (cases x; cases y) (simp_all add: less_tier_def less_eq_tier_def)
  show "x \<le> x"
    by (simp add: less_eq_tier_def)
  show "x \<le> y \<Longrightarrow> y \<le> z \<Longrightarrow> x \<le> z"
    by (auto simp: less_eq_tier_def)
  show "x \<le> y \<Longrightarrow> y \<le> x \<Longrightarrow> x = y"
    by (auto simp: less_eq_tier_def)
  show "x \<le> y \<or> y \<le> x"
    by (cases x; cases y) (simp_all add: less_eq_tier_def)
qed

end

instantiation span_start :: linorder
begin

definition less_eq_span_start :: "span_start \<Rightarrow> span_start \<Rightarrow> bool" where
  "less_eq_span_start a b \<longleftrightarrow> span_get a \<le> span_get b"

definition less_span_start :: "span_start \<Rightarrow> span_start \<Rightarrow> bool" where
  "less_span_start a b \<longleftrightarrow> span_get a < span_get b"

instance
  by standard (auto simp: less_eq_span_start_def less_span_start_def span_start.expand)

end

section \<open>Operations\<close>

definition all_tiers :: "tier list" where
  "all_tiers = [Raw, Minute, Hour]"

definition SWEEP_SECS :: u64 where
  "SWEEP_SECS = 60"

definition span_secs :: "tier \<Rightarrow> u64" where
  "span_secs t = (case t of Raw \<Rightarrow> 3600 | Minute \<Rightarrow> 3600 | Hour \<Rightarrow> 86400)"

definition span_of :: "tier \<Rightarrow> u64 \<Rightarrow> span_start" where
  "span_of t ts = SpanStart (ts - ts mod span_secs t)"

definition grace_secs :: "tier \<Rightarrow> u64" where
  "grace_secs t = (let bucket = (case t of Raw \<Rightarrow> 60 | Minute \<Rightarrow> 60 | Hour \<Rightarrow> 3600) in bucket + SWEEP_SECS)"

definition max_retention_secs :: "tier \<Rightarrow> u64" where
  "max_retention_secs t = (case t of Raw \<Rightarrow> 30 * 86400 | Minute \<Rightarrow> 400 * 86400 | Hour \<Rightarrow> 3650 * 86400)"

definition min_retention_secs :: "tier \<Rightarrow> u64" where
  "min_retention_secs t = (case t of Raw \<Rightarrow> 3600 | Minute \<Rightarrow> 86400 | Hour \<Rightarrow> 7 * 86400)"

definition tier_rollup :: "tier \<Rightarrow> rollup_tier option" where
  "tier_rollup t = (case t of Raw \<Rightarrow> None | Minute \<Rightarrow> Some RollupMinute | Hour \<Rightarrow> Some RollupHour)"

definition tier_code :: "tier \<Rightarrow> u8" where
  "tier_code t = (case t of Raw \<Rightarrow> 0 | Minute \<Rightarrow> 1 | Hour \<Rightarrow> 2)"

definition tier_from_code :: "u8 \<Rightarrow> tier option" where
  "tier_from_code c = find (\<lambda>t. tier_code t = c) all_tiers"

definition tier_name :: "tier \<Rightarrow> string" where
  "tier_name t = (case t of Raw \<Rightarrow> ''raw'' | Minute \<Rightarrow> ''minute'' | Hour \<Rightarrow> ''hour'')"

definition bucket_secs :: "rollup_tier \<Rightarrow> u64" where
  "bucket_secs t = (case t of RollupMinute \<Rightarrow> 60 | RollupHour \<Rightarrow> 3600)"

definition rollup_tier_of :: "rollup_tier \<Rightarrow> tier" where
  "rollup_tier_of t = (case t of RollupMinute \<Rightarrow> Minute | RollupHour \<Rightarrow> Hour)"

definition max_buckets :: "rollup_tier \<Rightarrow> nat" where
  "max_buckets t = unat (span_secs (rollup_tier_of t) div bucket_secs t)"

definition span_new :: "tier \<Rightarrow> u64 \<Rightarrow> span_start option" where
  "span_new t start = (if start mod span_secs t = 0 then Some (SpanStart start) else None)"

definition span_end :: "tier \<Rightarrow> span_start \<Rightarrow> u64" where
  "span_end t s = sat_add (span_get s) (span_secs t)"

definition span_is_closed :: "tier \<Rightarrow> span_start \<Rightarrow> u64 \<Rightarrow> bool" where
  "span_is_closed t s hub_now \<longleftrightarrow> sat_add (span_end t s) (grace_secs t) < hub_now"

section \<open>Lemmas\<close>

lemma unat_span_secs: "unat (span_secs t) = (if t = Hour then 86400 else 3600)"
  by (cases t) (simp_all add: span_secs_def)

lemma unat_bucket_secs: "unat (bucket_secs t) = (if t = RollupHour then 3600 else 60)"
  by (cases t) (simp_all add: bucket_secs_def)

lemma unat_grace_secs: "unat (grace_secs t) = (if t = Hour then 3660 else 120)"
  by (cases t) (simp_all add: grace_secs_def SWEEP_SECS_def)

lemma unat_retention_bounds:
  "unat (min_retention_secs t) = (case t of Raw \<Rightarrow> 3600 | Minute \<Rightarrow> 86400 | Hour \<Rightarrow> 604800)"
  "unat (max_retention_secs t) = (case t of Raw \<Rightarrow> 2592000 | Minute \<Rightarrow> 34560000 | Hour \<Rightarrow> 315360000)"
  by (cases t; simp add: min_retention_secs_def max_retention_secs_def)+

lemma max_buckets_simps [simp]:
  "max_buckets RollupMinute = 60"
  "max_buckets RollupHour = 24"
  by (simp_all add: max_buckets_def span_secs_def bucket_secs_def rollup_tier_of_def)

lemma tier_from_code_code: "tier_from_code (tier_code t) = Some t"
  by (cases t) (simp_all add: tier_from_code_def all_tiers_def tier_code_def)

lemma tier_code_inject [simp]: "tier_code a = tier_code b \<longleftrightarrow> a = b"
  by (cases a; cases b) (simp_all add: tier_code_def)

lemma tier_from_code_Some: "tier_from_code c = Some t \<Longrightarrow> tier_code t = c"
  by (auto simp: tier_from_code_def find_Some_iff)

lemma unat_span_of: "unat (span_get (span_of t ts)) = unat ts - unat ts mod unat (span_secs t)"
proof -
  have "unat (ts mod span_secs t) \<le> unat ts"
    by (simp add: unat_mod)
  then show ?thesis
    by (simp add: span_of_def unat_sub_le unat_mod)
qed

lemma unat_span_of_mult:
  "unat (span_get (span_of t ts)) = unat ts div unat (span_secs t) * unat (span_secs t)"
  by (simp add: unat_span_of minus_mod_eq_div_mult)

lemma span_new_Some: "span_new t n = Some s \<longleftrightarrow> s = SpanStart n \<and> unat (span_secs t) dvd unat n"
  by (auto simp: span_new_def word_unat_eq_iff unat_mod dvd_eq_mod_eq_0)

definition span_on_grid :: "tier \<Rightarrow> span_start \<Rightarrow> bool" where
  "span_on_grid t s \<longleftrightarrow> unat (span_secs t) dvd unat (span_get s)"

lemma span_on_grid_span_of [simp]: "span_on_grid t (span_of t ts)"
  by (simp add: span_on_grid_def unat_span_of_mult)

lemma span_new_get: "span_on_grid t s \<Longrightarrow> span_new t (span_get s) = Some s"
  by (simp add: span_new_Some span_on_grid_def)

lemma span_of_bounds:
  "unat (span_get (span_of t ts)) \<le> unat ts"
  "unat ts < unat (span_get (span_of t ts)) + unat (span_secs t)"
proof -
  have pos: "0 < unat (span_secs t)"
    by (simp add: unat_span_secs)
  show "unat (span_get (span_of t ts)) \<le> unat ts"
    by (simp add: unat_span_of)
  show "unat ts < unat (span_get (span_of t ts)) + unat (span_secs t)"
    unfolding unat_span_of_mult using pos by (metis div_mult_mod_eq mod_less_divisor nat_add_left_cancel_less)
qed

text \<open>The spans of a tier partition time: a time is in exactly one span, the one its seconds fall in.\<close>

lemma span_of_eq_iff:
  assumes "span_on_grid t s"
  shows "span_of t ts = s
    \<longleftrightarrow> unat (span_get s) \<le> unat ts \<and> unat ts < unat (span_get s) + unat (span_secs t)"
proof
  show "unat (span_get s) \<le> unat ts \<and> unat ts < unat (span_get s) + unat (span_secs t)"
    if "span_of t ts = s"
    using span_of_bounds [where t = t and ts = ts] that by simp
next
  assume inside: "unat (span_get s) \<le> unat ts \<and> unat ts < unat (span_get s) + unat (span_secs t)"
  obtain k where k: "unat (span_get s) = unat (span_secs t) * k"
    using assms by (auto simp: span_on_grid_def dvd_def)
  have "unat ts div unat (span_secs t) = k"
    using inside k by (intro div_nat_eqI) (simp_all add: mult.commute)
  then have "unat (span_get (span_of t ts)) = unat (span_get s)"
    using k by (simp add: unat_span_of_mult mult.commute)
  then show "span_of t ts = s"
    by (simp add: word_unat_eq_iff span_start.expand)
qed

lemma span_of_start: "span_on_grid t s \<Longrightarrow> span_of t (span_get s) = s"
  by (simp add: span_of_eq_iff unat_span_secs)

lemma span_is_closed_bound:
  assumes "span_is_closed t s now"
  shows "unat (span_get s) + unat (span_secs t) + unat (grace_secs t) < unat now"
proof -
  have "unat now < 2 ^ 64"
    using unsigned_less [of now] by simp
  then show ?thesis
    using assms by (auto simp: span_is_closed_def span_end_def word_order_unat unat_arith_simps)
qed

lemma span_is_closed_mono:
  "span_is_closed t s now \<Longrightarrow> now \<le> later \<Longrightarrow> span_is_closed t s later"
  by (simp add: span_is_closed_def)

end
