(* ===== verification/Rollup_Chunk.thy ===== *)
theory Rollup_Chunk
  imports Raw_Chunk Tier
begin

text \<open>
  The rollup chunk (\<open>system-hub/hub-store/src/codec/rollup.rs\<close>): one series' closed buckets of
  one tier, at most one span's worth of them.  As for raw chunks, a chunk is described by the list
  of buckets pushed into it (\<open>rollup_state\<close>), and encoding, decoding and reopening are
  characterised by that list.
\<close>

definition ROLLUP_FORMAT_V1 :: u8 where
  "ROLLUP_FORMAT_V1 = 0x02"

record bucket =
  bk_index :: u64
  bk_avg :: i64
  bk_min :: i64
  bk_max :: i64
  bk_count :: u32

record rollup_chunk =
  uc_tier :: rollup_tier
  uc_ends :: "(bucket \<times> bucket) option"
  uc_index_step :: i64
  uc_count :: nat
  uc_bits :: bit_writer

definition rollup_new :: "rollup_tier \<Rightarrow> rollup_chunk" where
  "rollup_new t = \<lparr>uc_tier = t, uc_ends = None, uc_index_step = 1, uc_count = 0, uc_bits = bw_empty\<rparr>"

definition write_spread :: "bit_writer \<Rightarrow> bucket \<Rightarrow> bit_writer" where
  "write_spread w b =
     (let w = write_value w (bk_avg b - bk_min b);
          w = write_value w (bk_max b - bk_avg b)
      in write_bit_varint w (ucast (bk_count b)))"

definition bucket_valid :: "bucket \<Rightarrow> bool" where
  "bucket_valid b \<longleftrightarrow> sint (bk_min b) \<le> sint (bk_avg b) \<and> sint (bk_avg b) \<le> sint (bk_max b) \<and> bk_count b > 0"

text \<open>A refused \<open>write_dod\<close> writes nothing, so every refusal leaves the chunk as it was.\<close>

definition rollup_push :: "rollup_chunk \<Rightarrow> bucket \<Rightarrow> push_refused + rollup_chunk" where
  "rollup_push c b =
     (if \<not> bucket_valid b then Inl InvalidBucket
      else case uc_ends c of
        None \<Rightarrow> Inr (c\<lparr>uc_bits := write_spread (uc_bits c) b, uc_ends := Some (b, b), uc_count := 1\<rparr>)
      | Some (first, prev) \<Rightarrow>
          if bk_index b \<le> bk_index prev then Inl RefusedNotAfterLast
          else if uc_count c \<ge> max_buckets (uc_tier c) then Inl Full
          else rbind (ok_or Full (signed_try_from (bk_index b - bk_index prev))) (\<lambda>index_step.
            case write_dod (uc_bits c) (index_step - uc_index_step c) of
              (False, _) \<Rightarrow> Inl Full
            | (True, w) \<Rightarrow>
                let w = write_value w (zigzag (bk_avg b - bk_avg prev));
                    w = write_spread w b
                in Inr (c\<lparr>uc_bits := w, uc_ends := Some (first, b), uc_index_step := index_step,
                         uc_count := uc_count c + 1\<rparr>)))"

definition rollup_is_empty :: "rollup_chunk \<Rightarrow> bool" where
  "rollup_is_empty c \<longleftrightarrow> uc_count c = 0"

definition rollup_last :: "rollup_chunk \<Rightarrow> bucket option" where
  "rollup_last c = map_option snd (uc_ends c)"

definition rollup_encoded_len :: "rollup_chunk \<Rightarrow> nat" where
  "rollup_encoded_len c = (case uc_ends c of
       None \<Rightarrow> 2
     | Some (first, _) \<Rightarrow> 1 + varint_len (of_nat (uc_count c)) + varint_len (bk_index first)
         + varint_len (zigzag (bk_avg first)) + length (bw_bytes (uc_bits c)))"

definition rollup_encode :: "rollup_chunk \<Rightarrow> bytes" where
  "rollup_encode c =
     (let out = write_varint [ROLLUP_FORMAT_V1] (of_nat (uc_count c))
      in case uc_ends c of
           None \<Rightarrow> out
         | Some (first, _) \<Rightarrow>
             write_varint (write_varint out (bk_index first)) (zigzag (bk_avg first)) @ bw_bytes (uc_bits c))"

definition u32_try_from :: "u64 \<Rightarrow> u32 option" where
  "u32_try_from v = (if unat v < 2 ^ 32 then Some (ucast v) else None)"

definition read_spread :: "bit_reader \<Rightarrow> u64 \<Rightarrow> i64 \<Rightarrow> decode_error + bucket \<times> bit_reader" where
  "read_spread r index avg =
     rbind (read_value r) (\<lambda>(below, r).
     rbind (read_value r) (\<lambda>(above, r).
     rbind (read_bit_varint r) (\<lambda>(n, r).
     rbind (ok_or DecodeMalformed (u32_try_from n)) (\<lambda>count.
     rbind (ok_or DecodeMalformed (checked_sub_unsigned avg below)) (\<lambda>mn.
     rbind (ok_or DecodeMalformed (checked_add_unsigned avg above)) (\<lambda>mx.
       if count = 0 then Inl DecodeMalformed
       else Inr (\<lparr>bk_index = index, bk_avg = avg, bk_min = mn, bk_max = mx, bk_count = count\<rparr>, r)))))))"

definition rollup_decode_header :: "bytes \<Rightarrow> rollup_tier \<Rightarrow> decode_error + nat \<times> u64 \<times> i64 \<times> nat" where
  "rollup_decode_header bs t =
     (case bs of
        [] \<Rightarrow> Inl Truncated
      | format # _ \<Rightarrow>
          if format \<noteq> ROLLUP_FORMAT_V1 then Inl (UnknownFormat format)
          else rbind (read_varint bs 1) (\<lambda>(n, pos).
            if n = 0 then Inl DecodeMalformed
            else if n > of_nat (max_buckets t) then Inl TooLong
            else rbind (read_varint bs pos) (\<lambda>(index, pos).
                 rbind (read_varint bs pos) (\<lambda>(v, pos).
                   Inr (unat n, index, unzigzag v, pos)))))"

text \<open>The loop of \<open>decode_rollup\<close>: \<open>n\<close> buckets are left, \<open>later\<close> is the test \<open>i > 0\<close>, and the
  index, the average, the index step and the reader are the loop's state.  \<open>rollup_step\<close> is the
  body of that test.\<close>

definition rollup_step :: "u64 \<Rightarrow> i64 \<Rightarrow> i64 \<Rightarrow> bit_reader \<Rightarrow> decode_error + u64 \<times> i64 \<times> i64 \<times> bit_reader" where
  "rollup_step index avg index_step r =
     rbind (read_dod r) (\<lambda>(dod, r).
     rbind (ok_or DecodeMalformed (schecked_add index_step dod)) (\<lambda>index_step.
     rbind (ok_or DecodeMalformed
             (case unsigned_try_from index_step of None \<Rightarrow> None | Some s \<Rightarrow> if s > 0 then Some s else None)) (\<lambda>step.
     rbind (ok_or DecodeMalformed (checked_add index step)) (\<lambda>index.
     rbind (read_value r) (\<lambda>(v, r). Inr (index, avg + unzigzag v, index_step, r))))))"

primrec rollup_decode_buckets ::
  "nat \<Rightarrow> bool \<Rightarrow> u64 \<Rightarrow> i64 \<Rightarrow> i64 \<Rightarrow> bit_reader \<Rightarrow> decode_error + bucket list \<times> bit_reader" where
  "rollup_decode_buckets 0 later index avg index_step r = Inr ([], r)"
| "rollup_decode_buckets (Suc n) later index avg index_step r =
     rbind (if later then rollup_step index avg index_step r else Inr (index, avg, index_step, r))
       (\<lambda>(index, avg, index_step, r).
     rbind (read_spread r index avg) (\<lambda>(b, r).
     rbind (rollup_decode_buckets n True index avg index_step r) (\<lambda>(bs, r). Inr (b # bs, r))))"

definition decode_rollup :: "bytes \<Rightarrow> rollup_tier \<Rightarrow> decode_error + bucket list" where
  "decode_rollup bs t =
     rbind (rollup_decode_header bs t) (\<lambda>(count, index, avg, pos).
     rbind (rollup_decode_buckets count False index avg 1 (br_new (drop pos bs))) (\<lambda>(buckets, r).
       if pos + br_bytes_read r \<noteq> length bs then Inl DecodeMalformed else Inr buckets))"

definition rollup_buckets :: "rollup_chunk \<Rightarrow> bucket list" where
  "rollup_buckets c = (case decode_rollup (rollup_encode c) (uc_tier c) of Inl _ \<Rightarrow> [] | Inr bs \<Rightarrow> bs)"

primrec rollup_push_all :: "rollup_chunk \<Rightarrow> bucket list \<Rightarrow> push_refused + rollup_chunk" where
  "rollup_push_all c [] = Inr c"
| "rollup_push_all c (b # bs) = rbind (rollup_push c b) (\<lambda>c. rollup_push_all c bs)"

definition rollup_reopen :: "bytes \<Rightarrow> rollup_tier \<Rightarrow> decode_error + rollup_chunk" where
  "rollup_reopen bs t =
     rbind (decode_rollup bs t) (\<lambda>bks. map_err (\<lambda>_. DecodeMalformed) (rollup_push_all (rollup_new t) bks))"

section \<open>The bit stream of a list of buckets\<close>

definition spread_code :: "bucket \<Rightarrow> bool list" where
  "spread_code b = value_code (bk_avg b - bk_min b) @ value_code (bk_max b - bk_avg b)
     @ bit_varint_code (ucast (bk_count b))"

primrec rollup_codes :: "bucket \<Rightarrow> i64 \<Rightarrow> bucket list \<Rightarrow> bool list" where
  "rollup_codes l step [] = []"
| "rollup_codes l step (b # bs) =
     dod_code (bk_index b - bk_index l - step) @ value_code (zigzag (bk_avg b - bk_avg l)) @ spread_code b
       @ rollup_codes b (bk_index b - bk_index l) bs"

primrec rollup_codable :: "bucket \<Rightarrow> i64 \<Rightarrow> bucket list \<Rightarrow> bool" where
  "rollup_codable l step [] = True"
| "rollup_codable l step (b # bs) \<longleftrightarrow> bk_index l < bk_index b \<and> unat (bk_index b - bk_index l) < 2 ^ 63
     \<and> dod_codable (bk_index b - bk_index l - step) \<and> bucket_valid b
     \<and> rollup_codable b (bk_index b - bk_index l) bs"

primrec rollup_last_step :: "bucket \<Rightarrow> i64 \<Rightarrow> bucket list \<Rightarrow> i64" where
  "rollup_last_step l step [] = step"
| "rollup_last_step l step (b # bs) = rollup_last_step b (bk_index b - bk_index l) bs"

lemma rollup_codes_snoc:
  "rollup_codes l step (bs @ [b]) =
     rollup_codes l step bs @ rollup_codes (last (l # bs)) (rollup_last_step l step bs) [b]"
  by (induction bs arbitrary: l step) simp_all

lemma rollup_codable_snoc:
  "rollup_codable l step (bs @ [b]) \<longleftrightarrow>
     rollup_codable l step bs \<and> rollup_codable (last (l # bs)) (rollup_last_step l step bs) [b]"
  by (induction bs arbitrary: l step) auto

lemma rollup_last_step_snoc:
  "rollup_last_step l step (bs @ [b]) = bk_index b - bk_index (last (l # bs))"
  by (induction bs arbitrary: l step) simp_all

lemma rollup_codable_sorted: "rollup_codable l step bs \<Longrightarrow> sorted_wrt (<) (map bk_index (l # bs))"
proof (induction bs arbitrary: l step)
  case (Cons b bs)
  have "sorted_wrt (<) (map bk_index (b # bs))"
    using Cons.prems by (intro Cons.IH) auto
  moreover have "bk_index l < bk_index b"
    using Cons.prems by simp
  ultimately show ?case by auto
qed simp

lemma rollup_codable_valid: "rollup_codable l step bs \<Longrightarrow> \<forall>b\<in>set bs. bucket_valid b"
  by (induction bs arbitrary: l step) auto


text \<open>The distance between two signed values, read as unsigned, is exact.\<close>

lemma uint_signed_distance: "sint a \<le> sint b \<Longrightarrow> uint (b - a) = sint b - sint a" for a b :: i64
proof -
  assume le: "sint a \<le> sint b"
  have bounds: "- (2 ^ 63) \<le> sint a" "sint b < 2 ^ 63"
    using sint_ge [of a] sint_lt [of b] by simp_all
  have "b - a = word_of_int (sint b - sint a)"
    by simp
  then have "uint (b - a) = (sint b - sint a) mod 2 ^ 64"
    by (simp only: uint_word_of_int) simp
  also have "\<dots> = sint b - sint a"
    using le bounds by (intro mod_pos_pos_trivial) simp_all
  finally show ?thesis .
qed

lemma fits_signed_sint: "fits_signed 64 (sint a)" for a :: i64
  using sint_ge [of a] sint_lt [of a] by (simp add: fits_signed_def)

lemma checked_unsigned_spread:
  assumes "bucket_valid b"
  shows "checked_sub_unsigned (bk_avg b) (bk_avg b - bk_min b) = Some (bk_min b)"
    and "checked_add_unsigned (bk_avg b) (bk_max b - bk_avg b) = Some (bk_max b)"
  using assms fits_signed_sint [of "bk_min b"] fits_signed_sint [of "bk_max b"]
  by (simp_all add: checked_sub_unsigned_def checked_add_unsigned_def bucket_valid_def uint_signed_distance)

lemma u32_try_from_ucast: "u32_try_from (ucast n) = Some n"
proof -
  have "unat (ucast n :: u64) = unat n"
    by (simp add: unsigned_ucast_eq take_bit_nat_eq_self_iff order_less_le_trans [OF unsigned_less])
  moreover have "unat n < 2 ^ 32" using unsigned_less [of n] by simp
  moreover have "ucast (ucast n :: u64) = n"
    by (rule bit_word_eqI) (simp add: bit_simps)
  ultimately show ?thesis by (simp add: u32_try_from_def)
qed

lemma bw_rep_write_spread: "bw_rep w bs \<Longrightarrow> bw_rep (write_spread w b) (bs @ spread_code b)"
proof -
  assume "bw_rep w bs"
  then have "bw_rep (write_spread w b)
      (((bs @ value_code (bk_avg b - bk_min b)) @ value_code (bk_max b - bk_avg b)) @ bit_varint_code (ucast (bk_count b)))"
    unfolding write_spread_def Let_def by (intro varint.put_rep val.put_rep) simp_all
  then show ?thesis by (simp add: spread_code_def)
qed

lemma read_spread_code:
  assumes "bucket_valid b" and "br_rest r = spread_code b @ bs"
  shows "read_spread r (bk_index b) (bk_avg b) = Inr (b, br_skip r (length (spread_code b)))"
proof -
  let ?l = "value_code (bk_avg b - bk_min b)" and ?h = "value_code (bk_max b - bk_avg b)"
  have "read_value r = Inr (bk_avg b - bk_min b, br_skip r (length ?l))"
    using val.get_code [of r "bk_avg b - bk_min b"] assms(2) by (simp add: spread_code_def)
  moreover have "read_value (br_skip r (length ?l)) = Inr (bk_max b - bk_avg b, br_skip r (length ?l + length ?h))"
    using val.get_code [of "br_skip r (length ?l)" "bk_max b - bk_avg b"] assms(2) by (simp add: spread_code_def)
  moreover have "read_bit_varint (br_skip r (length ?l + length ?h))
      = Inr (ucast (bk_count b), br_skip r (length (spread_code b)))"
    using varint.get_code [of "br_skip r (length ?l + length ?h)" "ucast (bk_count b)" bs] assms(2)
    by (simp add: spread_code_def add.assoc)
  moreover have "bk_count b \<noteq> 0"
    using assms(1) by (simp add: bucket_valid_def word_greater_zero_iff)
  ultimately show ?thesis
    using checked_unsigned_spread [OF assms(1)] by (simp add: read_spread_def u32_try_from_ucast)
qed

lemma rollup_step_code:
  assumes "unat step < 2 ^ 63" and "rollup_codable l step (b # bks)"
    and "br_rest r = rollup_codes l step (b # bks) @ bs"
  shows "rollup_step (bk_index l) (bk_avg l) step r = Inr (bk_index b, bk_avg b, bk_index b - bk_index l,
    br_skip r (length (dod_code (bk_index b - bk_index l - step)) + length (value_code (zigzag (bk_avg b - bk_avg l)))))"
proof -
  let ?step = "bk_index b - bk_index l"
  let ?d = "dod_code (?step - step)" and ?v = "value_code (zigzag (bk_avg b - bk_avg l))"
  have lt: "bk_index l < bk_index b" and small: "unat ?step < 2 ^ 63" and codable: "dod_codable (?step - step)"
    using assms(2) by simp_all
  have d: "read_dod r = Inr (?step - step, br_skip r (length ?d))"
    using codable by (rule dod.get_code) (use assms(3) in simp)
  have v: "read_value (br_skip r (length ?d)) = Inr (zigzag (bk_avg b - bk_avg l), br_skip r (length ?d + length ?v))"
    using val.get_code [of "br_skip r (length ?d)" "zigzag (bk_avg b - bk_avg l)"
        "spread_code b @ rollup_codes b ?step bks @ bs"] assms(3) by simp
  have "schecked_add step (?step - step) = Some ?step"
    using assms(1) small by (rule schecked_add_diff)
  moreover have "unsigned_try_from ?step = Some ?step"
    using sint_of_small [OF small] by (simp add: unsigned_try_from_def)
  moreover have "?step > 0" using lt by (simp add: word_greater_zero_iff)
  moreover have "checked_add (bk_index l) ?step = Some (bk_index b)"
    using lt by (simp add: checked_add_eq_Some unat_sub_le word_less_nat_alt)
  ultimately show ?thesis
    using d v by (simp add: rollup_step_def)
qed

lemma rollup_decode_buckets_codes:
  assumes "unat step < 2 ^ 63" and "rollup_codable l step bks" and "br_rest r = rollup_codes l step bks @ bs"
  shows "rollup_decode_buckets (length bks) True (bk_index l) (bk_avg l) step r
    = Inr (bks, br_skip r (length (rollup_codes l step bks)))"
  using assms
proof (induction bks arbitrary: l step r)
  case (Cons b bks)
  let ?step = "bk_index b - bk_index l"
  let ?n = "length (dod_code (?step - step)) + length (value_code (zigzag (bk_avg b - bk_avg l)))"
  have valid: "bucket_valid b" and small: "unat ?step < 2 ^ 63" and rest: "rollup_codable b ?step bks"
    using Cons.prems(2) by simp_all
  have "read_spread (br_skip r ?n) (bk_index b) (bk_avg b) = Inr (b, br_skip (br_skip r ?n) (length (spread_code b)))"
    using valid by (rule read_spread_code) (use Cons.prems(3) in simp)
  moreover have "rollup_decode_buckets (length bks) True (bk_index b) (bk_avg b) ?step
      (br_skip r (?n + length (spread_code b)))
      = Inr (bks, br_skip (br_skip r (?n + length (spread_code b))) (length (rollup_codes b ?step bks)))"
    using small rest by (rule Cons.IH) (use Cons.prems(3) in simp)
  ultimately show ?case
    using rollup_step_code [OF Cons.prems] by (simp add: add.assoc)
qed simp

section \<open>What a chunk holds\<close>

definition rollup_state :: "rollup_tier \<Rightarrow> rollup_chunk \<Rightarrow> bucket list \<Rightarrow> bool" where
  "rollup_state t c bks \<longleftrightarrow> (case bks of
       [] \<Rightarrow> c = rollup_new t
     | b # bs \<Rightarrow>
         uc_tier c = t \<and> uc_ends c = Some (b, last bks) \<and> uc_count c = length bks
         \<and> uc_index_step c = rollup_last_step b 1 bs
         \<and> bw_rep (uc_bits c) (spread_code b @ rollup_codes b 1 bs) \<and> bucket_valid b \<and> rollup_codable b 1 bs
         \<and> length bks \<le> max_buckets t)"

lemma rollup_push_all_append:
  "rollup_push_all c (xs @ ys) = rbind (rollup_push_all c xs) (\<lambda>c. rollup_push_all c ys)"
  by (induction xs arbitrary: c) (simp_all add: rbind_def split: sum.splits)

lemma rollup_state_first: "rollup_push (rollup_new t) b = Inr c \<Longrightarrow> rollup_state t c [b]"
  using bw_rep_write_spread [OF bw_rep_empty, of b]
  by (cases t) (auto simp: rollup_push_def rollup_new_def rollup_state_def split: if_splits)

lemma rollup_state_next:
  assumes c: "rollup_state t c (a # bs)" and push: "rollup_push c b = Inr c'"
  shows "rollup_state t c' (a # bs @ [b])"
proof -
  define l where "l = last (a # bs)"
  define step where "step = rollup_last_step a 1 bs"
  let ?step = "bk_index b - bk_index l" and ?v = "zigzag (bk_avg b - bk_avg l)"
  let ?w = "snd (write_dod (uc_bits c) (?step - step))"
  have fields: "uc_tier c = t" "uc_ends c = Some (a, l)" "uc_count c = Suc (length bs)" "uc_index_step c = step"
    and rep: "bw_rep (uc_bits c) (spread_code a @ rollup_codes a 1 bs)"
    and inv: "bucket_valid a" "rollup_codable a 1 bs"
    using c by (simp_all add: rollup_state_def l_def step_def)
  have written: "write_dod (uc_bits c) (?step - step) = (dod_codable (?step - step), ?w)"
    by (rule prod_eqI) (simp_all add: write_dod_fst)
  have valid: "bucket_valid b" and after: "bk_index l < bk_index b" and room: "Suc (length bs) < max_buckets t"
    and small: "unat ?step < 2 ^ 63" and dod: "dod_codable (?step - step)"
    and c': "c' = c\<lparr>uc_bits := write_spread (write_value ?w ?v) b, uc_ends := Some (a, b), uc_index_step := ?step,
        uc_count := Suc (Suc (length bs))\<rparr>"
    using push fields written
    by (auto simp: rollup_push_def result_simps signed_try_from_eq Let_def split: if_splits prod.splits bool.splits)
  have codes: "rollup_codes a 1 (bs @ [b]) = rollup_codes a 1 bs @ dod_code (?step - step) @ value_code ?v @ spread_code b"
    by (simp add: rollup_codes_snoc flip: l_def step_def del: last.simps)
  have "bw_rep (write_spread (write_value ?w ?v) b)
      ((((spread_code a @ rollup_codes a 1 bs) @ dod_code (?step - step)) @ value_code ?v) @ spread_code b)"
    using dod rep by (intro bw_rep_write_spread val.put_rep dod.put_rep) simp_all
  then have "bw_rep (uc_bits c') (spread_code a @ rollup_codes a 1 (bs @ [b]))"
    by (simp add: c' codes)
  moreover have "rollup_codable a 1 (bs @ [b])"
    using inv valid after small dod by (simp add: rollup_codable_snoc flip: l_def step_def del: last.simps)
  moreover have "rollup_last_step a 1 (bs @ [b]) = ?step"
    by (simp only: rollup_last_step_snoc l_def)
  ultimately show ?thesis
    using fields inv room by (simp add: rollup_state_def c')
qed


lemma rollup_state_push:
  assumes "rollup_state t c bs" and "rollup_push c b = Inr c'"
  shows "rollup_state t c' (bs @ [b])"
proof (cases bs)
  case Nil
  with assms show ?thesis by (simp add: rollup_state_def [of t c] rollup_state_first)
next
  case (Cons a as)
  with assms rollup_state_next show ?thesis by simp
qed

lemma rollup_push_all_state: "rollup_push_all (rollup_new t) bs = Inr c \<Longrightarrow> rollup_state t c bs"
proof (induction bs arbitrary: c rule: rev_induct)
  case Nil
  then show ?case by (simp add: rollup_state_def)
next
  case (snoc b bs)
  then obtain d where "rollup_push_all (rollup_new t) bs = Inr d" and "rollup_push d b = Inr c"
    by (auto simp: rollup_push_all_append result_simps)
  with snoc.IH rollup_state_push show ?case by blast
qed

section \<open>Encoding and decoding\<close>

lemma rollup_encode_state:
  assumes "rollup_state t c (b # bs)"
  shows "rollup_encode c = [ROLLUP_FORMAT_V1] @ write_varint [] (of_nat (Suc (length bs)))
    @ write_varint [] (bk_index b) @ write_varint [] (zigzag (bk_avg b)) @ bw_bytes (uc_bits c)"
proof -
  have "write_varint (write_varint (write_varint [ROLLUP_FORMAT_V1] n) x) y
      = [ROLLUP_FORMAT_V1] @ write_varint [] n @ write_varint [] x @ write_varint [] y" for n x y
    by (metis append.assoc write_varint_append)
  then show ?thesis
    using assms by (simp add: rollup_encode_def rollup_state_def)
qed

lemma rollup_encoded_len_state:
  assumes "rollup_state t c bs"
  shows "length (rollup_encode c) = rollup_encoded_len c"
proof (cases bs)
  case Nil
  with assms show ?thesis
    by (simp add: rollup_state_def rollup_encode_def rollup_new_def rollup_encoded_len_def
        write_varint.simps [of "[ROLLUP_FORMAT_V1]" 0])
next
  case (Cons b cs)
  with assms have "uc_ends c = Some (b, last (b # cs))" and "uc_count c = Suc (length cs)"
    by (simp_all add: rollup_state_def)
  with assms Cons show ?thesis
    using rollup_encode_state [of t c b cs]
    by (simp add: rollup_encoded_len_def varint_len_write)
qed

text \<open>The bits of a bucket are bounded, so an encoded chunk is.\<close>

lemma length_spread_code_le: "length (spread_code b) \<le> 178"
proof -
  have n: "unat (bk_count b) < 2 ^ 32" using unsigned_less [of "bk_count b", where ?'a = nat] by simp
  then have "take_bit 64 (unat (bk_count b)) = unat (bk_count b)"
    by (simp add: take_bit_nat_eq_self_iff)
  with n have "unat (ucast (bk_count b) :: u64) < 2 ^ 35"
    by (simp add: unsigned_ucast_eq)
  then have "length (bit_varint_code (ucast (bk_count b))) \<le> 40"
    using length_bit_varint_code_le [of 5 "ucast (bk_count b)"] by simp
  then show ?thesis
    using length_value_code_le [of "bk_avg b - bk_min b"] length_value_code_le [of "bk_max b - bk_avg b"]
    by (simp add: spread_code_def)
qed

lemma length_rollup_codes_le: "length (rollup_codes l step bs) \<le> 283 * length bs"
proof (induction bs arbitrary: l step)
  case (Cons b bs)
  show ?case
    using Cons.IH [of b "bk_index b - bk_index l"] length_spread_code_le [of b]
      length_dod_code_le [of "bk_index b - bk_index l - step"]
      length_value_code_le [of "zigzag (bk_avg b - bk_avg l)"]
    by simp
qed simp

lemma max_buckets_le: "max_buckets t \<le> 60"
  by (cases t) simp_all

lemma rollup_encoded_len_le:
  assumes "rollup_state t c bs"
  shows "rollup_encoded_len c \<le> 2154"
proof (cases bs)
  case Nil
  with assms show ?thesis by (simp add: rollup_state_def rollup_new_def rollup_encoded_len_def)
next
  case (Cons b cs)
  with assms have ends: "uc_ends c = Some (b, last (b # cs))"
    and rep: "bw_rep (uc_bits c) (spread_code b @ rollup_codes b 1 cs)" and n: "length cs < max_buckets t"
    by (simp_all add: rollup_state_def)
  have "length (spread_code b @ rollup_codes b 1 cs) \<le> 178 + 283 * 59"
    using length_spread_code_le [of b] length_rollup_codes_le [of b 1 cs] n max_buckets_le [of t] by simp
  then have "length (bw_bytes (uc_bits c)) \<le> 2123"
    unfolding bw_rep_bytes_len [OF rep] div_ceil_8 by linarith
  then show ?thesis
    using ends varint_len_le_10 [of "of_nat (uc_count c)"] varint_len_le_10 [of "bk_index b"]
      varint_len_le_10 [of "zigzag (bk_avg b)"]
    by (simp add: rollup_encoded_len_def)
qed

lemma rollup_decode_header_encode:
  fixes n :: nat and b :: bucket
  assumes hdr: "hdr = [ROLLUP_FORMAT_V1] @ write_varint [] (of_nat n) @ write_varint [] (bk_index b)
      @ write_varint [] (zigzag (bk_avg b))"
    and "0 < n" and "n \<le> max_buckets t"
  shows "rollup_decode_header (hdr @ bs) t = Inr (n, bk_index b, bk_avg b, length hdr)"
proof -
  let ?a = "write_varint [] (of_nat n)" and ?b = "write_varint [] (bk_index b)"
    and ?c = "write_varint [] (zigzag (bk_avg b))"
  have "max_buckets t \<le> 60" by (rule max_buckets_le)
  then have n: "unat (of_nat n :: u64) = n" "unat (of_nat (max_buckets t) :: u64) = max_buckets t"
    using assms(3) by (simp_all add: unat_of_nat_small)
  then have small: "of_nat n \<noteq> (0 :: u64)" "\<not> (of_nat n :: u64) > of_nat (max_buckets t)"
    using assms(2,3) by (auto simp: word_less_nat_alt word_unat_eq_iff)
  have "read_varint (hdr @ bs) 1 = Inr (of_nat n, 1 + length ?a)"
    using read_varint_write [of "[ROLLUP_FORMAT_V1]" "of_nat n" "?b @ ?c @ bs"] by (simp add: hdr)
  moreover have "read_varint (hdr @ bs) (1 + length ?a) = Inr (bk_index b, 1 + length ?a + length ?b)"
    using read_varint_write [of "[ROLLUP_FORMAT_V1] @ ?a" "bk_index b" "?c @ bs"] by (simp add: hdr)
  moreover have "read_varint (hdr @ bs) (1 + length ?a + length ?b) = Inr (zigzag (bk_avg b), length hdr)"
    using read_varint_write [of "[ROLLUP_FORMAT_V1] @ ?a @ ?b" "zigzag (bk_avg b)" bs] by (simp add: hdr)
  moreover have "hdr @ bs = ROLLUP_FORMAT_V1 # (?a @ ?b @ ?c @ bs)"
    by (simp add: hdr)
  ultimately show ?thesis
    using small n by (simp add: rollup_decode_header_def del: of_nat_eq_0_iff)
qed

lemma decode_rollup_state:
  assumes "rollup_state t c (b # bs)"
  shows "decode_rollup (rollup_encode c) t = Inr (b # bs)"
proof -
  let ?hdr = "[ROLLUP_FORMAT_V1] @ write_varint [] (of_nat (Suc (length bs))) @ write_varint [] (bk_index b)
    @ write_varint [] (zigzag (bk_avg b))"
  let ?codes = "rollup_codes b 1 bs"
  let ?r = "br_new (bw_bytes (uc_bits c))"
  have rep: "bw_rep (uc_bits c) (spread_code b @ ?codes)" and valid: "bucket_valid b"
    and codable: "rollup_codable b 1 bs" and count: "Suc (length bs) \<le> max_buckets t"
    using assms by (simp_all add: rollup_state_def)
  have enc: "rollup_encode c = ?hdr @ bw_bytes (uc_bits c)"
    using rollup_encode_state [OF assms] by simp
  then have header: "rollup_decode_header (rollup_encode c) t = Inr (Suc (length bs), bk_index b, bk_avg b, length ?hdr)"
    using rollup_decode_header_encode [OF refl, of "Suc (length bs)" t b] count by (simp del: of_nat_Suc)
  have rest: "drop (length ?hdr) (rollup_encode c) = bw_bytes (uc_bits c)"
    by (simp add: enc)
  obtain pad where bits: "br_rest ?r = spread_code b @ ?codes @ pad"
    using rep by (auto simp: bw_rep_def)
  have "read_spread ?r (bk_index b) (bk_avg b) = Inr (b, br_skip ?r (length (spread_code b)))"
    using valid bits by (rule read_spread_code)
  moreover have "rollup_decode_buckets (length bs) True (bk_index b) (bk_avg b) 1 (br_skip ?r (length (spread_code b)))
      = Inr (bs, br_skip (br_skip ?r (length (spread_code b))) (length ?codes))"
    using codable by (intro rollup_decode_buckets_codes) (simp_all add: bits [simplified])
  ultimately have "rollup_decode_buckets (Suc (length bs)) False (bk_index b) (bk_avg b) 1 ?r
      = Inr (b # bs, br_skip ?r (length (spread_code b @ ?codes)))"
    by simp
  moreover have "br_bytes_read (br_skip ?r (length (spread_code b @ ?codes))) = length (bw_bytes (uc_bits c))"
    by (simp add: br_bytes_read_def br_new_def bw_rep_bytes_len [OF rep])
  moreover have "length (rollup_encode c) = length ?hdr + length (bw_bytes (uc_bits c))"
    by (simp add: enc)
  ultimately show ?thesis
    unfolding decode_rollup_def header rbind_simps prod.case rest by simp
qed

lemma rollup_buckets_state: "rollup_state t c bs \<Longrightarrow> rollup_buckets c = bs"
proof (cases bs)
  case Nil
  assume "rollup_state t c bs"
  with Nil have "rollup_encode c = write_varint [ROLLUP_FORMAT_V1] 0"
    by (simp add: rollup_state_def rollup_encode_def rollup_new_def)
  then have "rollup_encode c = [ROLLUP_FORMAT_V1, 0]"
    by (simp add: write_varint.simps [of "[ROLLUP_FORMAT_V1]" 0])
  moreover have "rollup_decode_header [ROLLUP_FORMAT_V1, 0] t = Inl DecodeMalformed" for t
    by (simp add: rollup_decode_header_def read_varint_def read_varint_from.simps [of _ 0] Let_def)
  ultimately show ?thesis
    using Nil by (simp add: rollup_buckets_def decode_rollup_def)
next
  case (Cons b cs)
  assume c: "rollup_state t c bs"
  with Cons have "uc_tier c = t" by (simp add: rollup_state_def)
  with c Cons show ?thesis by (simp add: rollup_buckets_def decode_rollup_state)
qed

lemma rollup_reopen_state:
  assumes "rollup_push_all (rollup_new t) bs = Inr c" and "bs \<noteq> []"
  shows "rollup_reopen (rollup_encode c) t = Inr c"
proof -
  obtain b cs where bs: "bs = b # cs" using assms(2) by (cases bs) auto
  have "decode_rollup (rollup_encode c) t = Inr bs"
    using rollup_push_all_state [OF assms(1)] unfolding bs by (rule decode_rollup_state)
  with assms(1) show ?thesis by (simp add: rollup_reopen_def)
qed

lemma rollup_state_sorted: "rollup_state t c bs \<Longrightarrow> sorted_wrt (<) (map bk_index bs)"
  by (cases bs) (auto simp: rollup_state_def dest: rollup_codable_sorted)

lemma rollup_state_valid: "rollup_state t c bs \<Longrightarrow> \<forall>b\<in>set bs. bucket_valid b"
  by (cases bs) (auto simp: rollup_state_def dest: rollup_codable_valid)

lemma rollup_state_last: "rollup_state t c bs \<Longrightarrow> rollup_last c = (if bs = [] then None else Some (last bs))"
  by (cases bs) (simp_all add: rollup_state_def rollup_last_def rollup_new_def)

lemma rollup_state_count: "rollup_state t c bs \<Longrightarrow> uc_count c = length bs"
  by (cases bs) (simp_all add: rollup_state_def rollup_new_def)

section \<open>The decoder on any bytes\<close>

lemma sint_word_of_int_fits: "fits_signed 64 k \<Longrightarrow> sint (word_of_int k :: i64) = k"
  unfolding sint_sbintrunc' by (simp add: fits_signed_def signed_take_bit_int_eq_self_iff)

lemma checked_sub_unsigned_le: "checked_sub_unsigned a x = Some m \<Longrightarrow> sint m \<le> sint a" for a x m :: i64
proof -
  assume "checked_sub_unsigned a x = Some m"
  then have fits: "fits_signed 64 (sint a - uint x)" and m: "m = word_of_int (sint a - uint x)"
    by (simp_all add: checked_sub_unsigned_def split: if_splits)
  show ?thesis
    unfolding m sint_word_of_int_fits [OF fits] using uint_ge_0 [of x] by linarith
qed

lemma checked_add_unsigned_ge: "checked_add_unsigned a x = Some m \<Longrightarrow> sint a \<le> sint m" for a x m :: i64
proof -
  assume "checked_add_unsigned a x = Some m"
  then have fits: "fits_signed 64 (sint a + uint x)" and m: "m = word_of_int (sint a + uint x)"
    by (simp_all add: checked_add_unsigned_def split: if_splits)
  show ?thesis
    unfolding m sint_word_of_int_fits [OF fits] using uint_ge_0 [of x] by linarith
qed

lemma read_spread_sound:
  "read_spread r i a = Inr (b, r') \<Longrightarrow> bucket_valid b \<and> bk_index b = i \<and> bk_avg b = a"
  by (auto simp: read_spread_def result_simps bucket_valid_def word_greater_zero_iff
      dest: checked_sub_unsigned_le checked_add_unsigned_ge split: if_splits)

lemma rollup_step_sound: "rollup_step i a s r = Inr (i', a', s', r') \<Longrightarrow> i < i'"
  by (auto simp: rollup_step_def result_simps checked_add_eq_Some word_less_nat_alt
      split: option.splits if_splits)

lemma rollup_decode_buckets_sound:
  assumes "rollup_decode_buckets n later i a s r = Inr (bs, r')"
  shows "length bs = n \<and> (\<forall>b\<in>set bs. bucket_valid b) \<and> sorted_wrt (<) (map bk_index bs)
    \<and> (\<forall>b\<in>set bs. if later then i < bk_index b else i \<le> bk_index b)"
  using assms
proof (induction n arbitrary: later i a s r bs)
  case (Suc n)
  then obtain i1 a1 s1 r1 b r2 cs where
    step: "(if later then rollup_step i a s r else Inr (i, a, s, r)) = Inr (i1, a1, s1, r1)"
    and b: "read_spread r1 i1 a1 = Inr (b, r2)" and rest: "rollup_decode_buckets n True i1 a1 s1 r2 = Inr (cs, r')"
    and bs: "bs = b # cs"
    by (auto simp: result_simps)
  have "if later then i < i1 else i = i1"
    using step rollup_step_sound by (auto split: if_splits)
  moreover note read_spread_sound [OF b] Suc.IH [OF rest]
  ultimately show ?case
    by (auto simp: bs split: if_splits)
qed simp

lemma rollup_decode_header_sound:
  assumes "rollup_decode_header bs t = Inr (n, i, a, pos)"
  shows "0 < n \<and> n \<le> max_buckets t"
proof -
  obtain w where w: "w \<noteq> 0" "\<not> w > (of_nat (max_buckets t) :: u64)" and n: "n = unat w"
    using assms by (auto simp: rollup_decode_header_def result_simps split: list.splits if_splits)
  have "unat (of_nat (max_buckets t) :: u64) = max_buckets t"
    using max_buckets_le [of t] by (simp add: unat_of_nat_small)
  with w n show ?thesis by (simp add: word_less_nat_alt unat_gt_0)
qed

lemma decode_rollup_sound:
  assumes "decode_rollup bs t = Inr bks"
  shows "bks \<noteq> [] \<and> length bks \<le> max_buckets t \<and> sorted_wrt (<) (map bk_index bks)
    \<and> (\<forall>b\<in>set bks. bucket_valid b)"
proof -
  obtain n i a pos r where h: "rollup_decode_header bs t = Inr (n, i, a, pos)"
    and d: "rollup_decode_buckets n False i a 1 (br_new (drop pos bs)) = Inr (bks, r)"
    using assms by (auto simp: decode_rollup_def result_simps split: if_splits)
  show ?thesis
    using rollup_decode_header_sound [OF h] rollup_decode_buckets_sound [OF d] by auto
qed


section \<open>Properties\<close>

text \<open>A rollup chunk decodes to the buckets pushed into it, and reopening its bytes gives the chunk
  back; its encoding has the length it says, small enough for the two-byte length of a tail.\<close>

theorem rollup_chunk_roundtrip:
  assumes "rollup_push_all (rollup_new t) bs = Inr c" and "bs \<noteq> []"
  shows "decode_rollup (rollup_encode c) t = Inr bs \<and> rollup_reopen (rollup_encode c) t = Inr c
    \<and> rollup_buckets c = bs \<and> length (rollup_encode c) = rollup_encoded_len c \<and> rollup_encoded_len c \<le> 2154"
proof -
  obtain b cs where bs: "bs = b # cs" using assms(2) by (cases bs) auto
  note state = rollup_push_all_state [OF assms(1)]
  show ?thesis
    using decode_rollup_state [of t c b cs] rollup_reopen_state [OF assms] rollup_buckets_state [OF state]
      rollup_encoded_len_state [OF state] rollup_encoded_len_le [OF state] state
    by (simp add: bs)
qed

theorem rollup_chunk_roundtrip_witness:
  "\<exists>c. rollup_push_all (rollup_new RollupHour)
       [\<lparr>bk_index = 9, bk_avg = 5, bk_min = -3, bk_max = 12, bk_count = 30\<rparr>] = Inr c
     \<and> decode_rollup (rollup_encode c) RollupHour
         = Inr [\<lparr>bk_index = 9, bk_avg = 5, bk_min = -3, bk_max = 12, bk_count = 30\<rparr>]"
proof -
  let ?b = "\<lparr>bk_index = 9, bk_avg = 5, bk_min = -3, bk_max = 12, bk_count = 30\<rparr> :: bucket"
  have "bucket_valid ?b" by (simp add: bucket_valid_def)
  then obtain c where c: "rollup_push_all (rollup_new RollupHour) [?b] = Inr c"
    by (simp add: rollup_push_def rollup_new_def)
  from c rollup_chunk_roundtrip [OF c] show ?thesis by auto
qed

text \<open>The rollup decoder trusts no bytes: what it accepts is between one bucket and one span of them,
  in strictly increasing index order, each with its average between its minimum and maximum and at
  least one point.\<close>

theorem decode_rollup_well_formed:
  assumes "decode_rollup bs t = Inr bks"
  shows "bks \<noteq> [] \<and> length bks \<le> max_buckets t \<and> sorted_wrt (<) (map bk_index bks) \<and> list_all bucket_valid bks"
  using decode_rollup_sound [OF assms] by (simp add: list_all_iff)

theorem decode_rollup_well_formed_witness:
  "\<exists>bs. decode_rollup bs RollupMinute = Inr [\<lparr>bk_index = 9, bk_avg = 5, bk_min = -3, bk_max = 12, bk_count = 30\<rparr>]
     \<and> list_all bucket_valid [\<lparr>bk_index = 9, bk_avg = 5, bk_min = -3, bk_max = 12, bk_count = 30\<rparr>]"
proof -
  let ?b = "\<lparr>bk_index = 9, bk_avg = 5, bk_min = -3, bk_max = 12, bk_count = 30\<rparr> :: bucket"
  have "bucket_valid ?b" by (simp add: bucket_valid_def)
  then obtain c where c: "rollup_push_all (rollup_new RollupMinute) [?b] = Inr c"
    by (simp add: rollup_push_def rollup_new_def)
  have d: "decode_rollup (rollup_encode c) RollupMinute = Inr [?b]"
    using rollup_push_all_state [OF c] by (rule decode_rollup_state)
  from d decode_rollup_well_formed [OF d] show ?thesis by auto
qed

text \<open>A bucket outside its own range is refused: a chunk takes a bucket only if its average lies
  between its minimum and maximum and it counts at least one point, and only after the last one;
  a refused push leaves nothing behind, since the result carries no chunk.\<close>

theorem rollup_push_accepts:
  assumes "rollup_push_all (rollup_new t) bs = Inr c" and "rollup_push c b = Inr c'"
  shows "bucket_valid b \<and> rollup_buckets c' = bs @ [b] \<and> (bs \<noteq> [] \<longrightarrow> bk_index (last bs) < bk_index b)
    \<and> length bs < max_buckets t"
proof -
  have state: "rollup_state t c' (bs @ [b])"
    using rollup_push_all_state [OF assms(1)] assms(2) by (rule rollup_state_push)
  have "length (bs @ [b]) \<le> max_buckets t"
    using state by (cases bs) (simp_all add: rollup_state_def)
  then show ?thesis
    using rollup_buckets_state [OF state] rollup_state_valid [OF state] rollup_state_sorted [OF state]
    by (simp add: sorted_wrt_append)
qed

theorem rollup_push_accepts_witness:
  "\<exists>c'. rollup_push_all (rollup_new RollupMinute) [] = Inr (rollup_new RollupMinute)
     \<and> rollup_push (rollup_new RollupMinute) \<lparr>bk_index = 9, bk_avg = 5, bk_min = 5, bk_max = 5, bk_count = 1\<rparr> = Inr c'
     \<and> rollup_buckets c' = [\<lparr>bk_index = 9, bk_avg = 5, bk_min = 5, bk_max = 5, bk_count = 1\<rparr>]"
proof -
  let ?b = "\<lparr>bk_index = 9, bk_avg = 5, bk_min = 5, bk_max = 5, bk_count = 1\<rparr> :: bucket"
  have new: "rollup_push_all (rollup_new RollupMinute) [] = Inr (rollup_new RollupMinute)" by simp
  have "bucket_valid ?b" by (simp add: bucket_valid_def)
  then obtain c' where c': "rollup_push (rollup_new RollupMinute) ?b = Inr c'"
    by (simp add: rollup_push_def rollup_new_def)
  from new c' rollup_push_accepts [OF new c'] show ?thesis by auto
qed

end
