(* ===== verification/Accumulator.thy ===== *)
theory Accumulator
  imports Rollup_Chunk "HOL-Library.Signed_Division"
begin

text \<open>
  Rollup accumulators (\<open>system-hub/hub-store/src/rollup.rs\<close>): the open bucket of a rollup tier.
  An accumulator fed the values \<open>vs\<close> holds their exact sum, count, minimum and maximum
  (\<open>acc_rep\<close>), and closes into a bucket whose average is the exact mean rounded half away from
  zero.
\<close>

record accumulator =
  ac_index :: u64
  ac_sum :: i128
  ac_count :: u32
  ac_min :: i64
  ac_max :: i64

definition acc_open :: "rollup_tier \<Rightarrow> u64 \<Rightarrow> i64 \<Rightarrow> accumulator" where
  "acc_open t ts v =
     \<lparr>ac_index = ts div bucket_secs t, ac_sum = scast v, ac_count = 1, ac_min = v, ac_max = v\<rparr>"

definition acc_holds :: "accumulator \<Rightarrow> rollup_tier \<Rightarrow> u64 \<Rightarrow> bool" where
  "acc_holds a t ts \<longleftrightarrow> ts div bucket_secs t = ac_index a"

definition acc_add :: "accumulator \<Rightarrow> i64 \<Rightarrow> accumulator" where
  "acc_add a v = a\<lparr>ac_sum := ac_sum a + scast v,
     ac_count := sat_add (ac_count a) 1,
     ac_min := (if sint v < sint (ac_min a) then v else ac_min a),
     ac_max := (if sint (ac_max a) < sint v then v else ac_max a)\<rparr>"

text \<open>Division on \<open>i128\<close> truncates towards zero.\<close>

definition div128 :: "i128 \<Rightarrow> i128 \<Rightarrow> i128" where
  "div128 a b = word_of_int (sint a sdiv sint b)"

definition rem128 :: "i128 \<Rightarrow> i128 \<Rightarrow> i128" where
  "rem128 a b = word_of_int (sint a smod sint b)"

definition clamp128 :: "i128 \<Rightarrow> i128 \<Rightarrow> i128 \<Rightarrow> i128" where
  "clamp128 x lo hi = (if sint x < sint lo then lo else if sint hi < sint x then hi else x)"

definition acc_close :: "accumulator \<Rightarrow> bucket" where
  "acc_close a =
     (let count = ucast (ac_count a) :: i128;
          half = div128 count 2 + rem128 count 2;
          rounded = (if 0 \<le> sint (ac_sum a)
                     then div128 (ac_sum a + count - half) count
                     else div128 (ac_sum a - count + half) count);
          avg = ucast (clamp128 rounded (scast (ac_min a)) (scast (ac_max a)))
      in \<lparr>bk_index = ac_index a, bk_avg = avg, bk_min = ac_min a, bk_max = ac_max a, bk_count = ac_count a\<rparr>)"

datatype inconsistent_bucket = InconsistentBucket

record accumulator_row =
  ar_index :: u64
  ar_sum :: i128
  ar_count :: u32
  ar_min :: i64
  ar_max :: i64

definition acc_parts :: "accumulator \<Rightarrow> u64 \<times> i128 \<times> u32 \<times> i64 \<times> i64" where
  "acc_parts a = (ac_index a, ac_sum a, ac_count a, ac_min a, ac_max a)"

definition acc_from_parts :: "u64 \<Rightarrow> i128 \<Rightarrow> u32 \<Rightarrow> i64 \<Rightarrow> i64 \<Rightarrow> accumulator option" where
  "acc_from_parts index s count mn mx =
     (let n = ucast count :: i128;
          consistent = count > 0 \<and> sint mn \<le> sint mx
            \<and> sint (n * scast mn) \<le> sint s \<and> sint s \<le> sint (n * scast mx)
      in if consistent
         then Some \<lparr>ac_index = index, ac_sum = s, ac_count = count, ac_min = mn, ac_max = mx\<rparr>
         else None)"

definition acc_to_row :: "accumulator \<Rightarrow> accumulator_row" where
  "acc_to_row a = (case acc_parts a of (index, s, count, mn, mx) \<Rightarrow>
     \<lparr>ar_index = index, ar_sum = s, ar_count = count, ar_min = mn, ar_max = mx\<rparr>)"

definition acc_try_from :: "accumulator_row \<Rightarrow> inconsistent_bucket + accumulator" where
  "acc_try_from row =
     ok_or InconsistentBucket
       (acc_from_parts (ar_index row) (ar_sum row) (ar_count row) (ar_min row) (ar_max row))"

section \<open>What an accumulator holds\<close>

text \<open>The accumulator holds the values \<open>vs\<close> of the bucket \<open>i\<close>.\<close>

definition acc_rep :: "accumulator \<Rightarrow> u64 \<Rightarrow> i64 list \<Rightarrow> bool" where
  "acc_rep a i vs \<longleftrightarrow> vs \<noteq> [] \<and> length vs < 2 ^ 32 \<and> ac_index a = i
     \<and> sint (ac_sum a) = sum_list (map sint vs) \<and> unat (ac_count a) = length vs
     \<and> ac_min a \<in> set vs \<and> ac_max a \<in> set vs
     \<and> (\<forall>v\<in>set vs. sint (ac_min a) \<le> sint v \<and> sint v \<le> sint (ac_max a))"

lemma sint_scast_128: "sint (scast v :: i128) = sint v" for v :: i64
  by (simp add: signed_scast_eq signed_take_bit_int_eq_self_iff)
     (use sint_ge [of v] sint_lt [of v] in simp)

lemma sint128_word_of_int: "- (2 ^ 127) \<le> k \<Longrightarrow> k < 2 ^ 127 \<Longrightarrow> sint (word_of_int k :: i128) = k"
  unfolding sint_sbintrunc' by (simp add: signed_take_bit_int_eq_self_iff)

lemma sint_ucast_128: "sint (ucast n :: i128) = int (unat n)" for n :: u32
proof -
  have n: "0 \<le> int (unat n)" "int (unat n) < 2 ^ 32" using unsigned_less [of n, where ?'a = int] by simp_all
  have "(ucast n :: i128) = word_of_int (int (unat n))" by simp
  moreover have "sint (word_of_int (int (unat n)) :: i128) = int (unat n)"
    using n(2) by (intro sint128_word_of_int order_trans [OF _ n(1)] order_less_trans [OF n(2)]) simp_all
  ultimately show ?thesis by simp
qed

lemma sum_list_sint_bounds:
  "- (int (length vs) * 2 ^ 63) \<le> sum_list (map sint vs)" "sum_list (map sint vs) \<le> int (length vs) * 2 ^ 63"
  for vs :: "i64 list"
proof -
  have "- (2 ^ 63) \<le> sint v \<and> sint v \<le> 2 ^ 63" for v :: i64
    using sint_ge [of v] sint_lt [of v] by simp
  then show "- (int (length vs) * 2 ^ 63) \<le> sum_list (map sint vs)"
    and "sum_list (map sint vs) \<le> int (length vs) * 2 ^ 63"
    using sum_list_mono [of vs "\<lambda>_. - (2 ^ 63)" sint] sum_list_mono [of vs sint "\<lambda>_. 2 ^ 63"]
    by (simp_all add: sum_list_triv)
qed

lemma acc_rep_open: "acc_rep (acc_open t ts v) (ts div bucket_secs t) [v]"
  by (simp add: acc_rep_def acc_open_def sint_scast_128)

lemma acc_rep_add:
  assumes "acc_rep a i vs" and "Suc (length vs) < 2 ^ 32"
  shows "acc_rep (acc_add a v) i (vs @ [v])"
proof -
  have s: "sint (ac_sum a) = sum_list (map sint vs)" and n: "unat (ac_count a) = length vs"
    using assms(1) by (simp_all add: acc_rep_def)
  let ?s = "sum_list (map sint (vs @ [v]))"
  have bound: "int (length (vs @ [v])) * 2 ^ 63 \<le> 2 ^ 32 * 2 ^ 63"
    using assms(2) by simp
  have sum_word: "ac_sum a + scast v = word_of_int ?s"
    by (simp flip: s)
  have "sint (ac_sum a + scast v) = ?s"
    unfolding sum_word using sum_list_sint_bounds [of "vs @ [v]"] bound
    by (intro sint128_word_of_int) simp_all
  moreover have "unat (sat_add (ac_count a) 1) = Suc (length vs)"
    using assms(2) n by (simp add: unat_sat_add)
  ultimately show ?thesis
    using assms by (auto simp: acc_rep_def acc_add_def)
qed

section \<open>Closing a bucket\<close>

text \<open>\<open>a\<close> is \<open>s / n\<close> rounded to the nearest integer, exact halves away from zero.\<close>

definition nearest_away :: "int \<Rightarrow> int \<Rightarrow> int \<Rightarrow> bool" where
  "nearest_away s n a \<longleftrightarrow> 2 * \<bar>s - n * a\<bar> \<le> n \<and> (2 * \<bar>s - n * a\<bar> = n \<longrightarrow> \<bar>s\<bar> < \<bar>n * a\<bar>)"

lemma nearest_away_nonneg:
  fixes s n :: int
  assumes "0 \<le> s" and "0 < n"
  shows "nearest_away s n ((s + n div 2) div n)"
proof -
  obtain m r q t where m: "n div 2 = m" "n = 2 * m + t" "t = 0 \<or> t = 1"
    and q: "(s + n div 2) div n = q" "s + m = n * q + r" "0 \<le> r" "r < n"
  proof -
    have "n = 2 * (n div 2) + n mod 2" and "n mod 2 = 0 \<or> n mod 2 = 1" by auto
    moreover have "s + n div 2 = n * ((s + n div 2) div n) + (s + n div 2) mod n" by simp
    ultimately show ?thesis using that assms(2) by (metis pos_mod_sign pos_mod_bound)
  qed
  have "s - n * q = r - m" using q(2) by simp
  moreover have "2 * \<bar>r - m\<bar> \<le> n"
    using m(2,3) q(3,4) by arith
  moreover have "2 * \<bar>r - m\<bar> = n \<Longrightarrow> s < n * q"
  proof -
    define x where "x = n * q"
    show "2 * \<bar>r - m\<bar> = n \<Longrightarrow> s < n * q"
      using m(2,3) q(2-4) assms(2) unfolding x_def [symmetric] by presburger
  qed
  ultimately show ?thesis
    unfolding q(1) nearest_away_def using assms(1) by (simp, linarith)
qed

lemma nearest_away_minus: "nearest_away s n a \<Longrightarrow> nearest_away (- s) n (- a)"
  unfolding nearest_away_def by (simp add: abs_minus_commute [of s])

lemma nearest_away_between:
  assumes "nearest_away s n a" and "0 < n" and "n * lo \<le> s" and "s \<le> n * hi"
  shows "lo \<le> a \<and> a \<le> hi"
proof
  have near: "2 * \<bar>s - n * a\<bar> \<le> n" using assms(1) by (simp add: nearest_away_def)
  show "lo \<le> a"
  proof (rule ccontr)
    assume "\<not> lo \<le> a"
    then have "n * (a + 1) \<le> n * lo" using assms(2) by (intro mult_left_mono) simp_all
    with near assms show False by (simp add: distrib_left)
  qed
  show "a \<le> hi"
  proof (rule ccontr)
    assume "\<not> a \<le> hi"
    then have "n * (hi + 1) \<le> n * a" using assms(2) by (intro mult_left_mono) simp_all
    with near assms show False by (simp add: distrib_left)
  qed
qed

lemma nearest_away_unique:
  assumes "nearest_away s n a" and "nearest_away s n b" and "0 < n"
  shows "a = b"
proof -
  have "\<not> a < b" if near: "nearest_away s n a" "nearest_away s n b" for a b
  proof
    assume "a < b"
    then have "n * (a + 1) \<le> n * b" using assms(3) by (intro mult_left_mono) simp_all
    then have step: "n * a + n \<le> n * b" by (simp add: distrib_left)
    define d e where "d = s - n * a" and "e = n * b - s"
    have abs_e: "\<bar>s - n * b\<bar> = \<bar>e\<bar>" unfolding e_def by (rule abs_minus_commute)
    have "2 * \<bar>d\<bar> \<le> n" "2 * \<bar>e\<bar> \<le> n"
      using near by (simp_all add: nearest_away_def d_def e_def abs_minus_commute)
    moreover have "n \<le> d + e" using step by (simp add: d_def e_def)
    ultimately have tie: "2 * d = n" "2 * e = n" by arith+
    then have "\<bar>s\<bar> < \<bar>n * a\<bar>" "\<bar>s\<bar> < \<bar>n * b\<bar>"
      using near assms(3) by (simp_all add: nearest_away_def abs_e flip: d_def)
    moreover have "n * a < s" "s < n * b" using tie assms(3) by (simp_all add: d_def e_def)
    ultimately have "n * a < 0" "0 < n * b" by arith+
    then have "a < 0" "0 < b" using assms(3) by (simp_all add: mult_less_0_iff zero_less_mult_iff)
    then have "n * (a + 2) \<le> n * b" using assms(3) by (intro mult_left_mono) simp_all
    with tie assms(3) show False by (simp add: distrib_left d_def e_def)
  qed
  with assms show ?thesis by (meson linorder_neqE)
qed

lemma sdiv_pos: "0 \<le> a \<Longrightarrow> 0 < b \<Longrightarrow> a sdiv b = a div b" for a b :: int
  by (cases "a = 0") (simp_all add: signed_divide_int_def)

lemma sdiv_minus: "(- a) sdiv b = - (a sdiv b)" for a b :: int
  by (simp add: signed_divide_int_def)

text \<open>The arithmetic of \<open>close\<close>, in the integers.\<close>

definition round_away :: "int \<Rightarrow> int \<Rightarrow> int" where
  "round_away s n = (if 0 \<le> s then (s + n - (n div 2 + n mod 2)) sdiv n else (s - n + (n div 2 + n mod 2)) sdiv n)"

lemma nearest_away_round: "0 < n \<Longrightarrow> nearest_away s n (round_away s n)"
proof -
  assume n: "0 < n"
  have half: "n - (n div 2 + n mod 2) = n div 2"
    using mult_div_mod_eq [of 2 n] by linarith
  show ?thesis
  proof (cases "0 \<le> s")
    case True
    have "s + n - (n div 2 + n mod 2) = s + n div 2" using half by linarith
    moreover have "0 \<le> s + n div 2" using True n by (simp add: pos_imp_zdiv_nonneg_iff)
    ultimately have "round_away s n = (s + n div 2) div n"
      using True n by (simp only: round_away_def if_True sdiv_pos)
    then show ?thesis
      using nearest_away_nonneg [OF True n] by simp
  next
    case False
    then have neg: "0 \<le> - s" by simp
    have "s - n + (n div 2 + n mod 2) = - (- s + n div 2)" using half by linarith
    moreover have "0 \<le> - s + n div 2" using False n by (simp add: pos_imp_zdiv_nonneg_iff)
    ultimately have "round_away s n = - ((- s + n div 2) div n)"
      using False n by (simp only: round_away_def if_False sdiv_minus sdiv_pos)
    then show ?thesis
      using nearest_away_minus [OF nearest_away_nonneg [OF neg n]] by simp
  qed
qed

lemma acc_rep_sum_between:
  assumes "acc_rep a i vs"
  shows "int (length vs) * sint (ac_min a) \<le> sum_list (map sint vs)"
    and "sum_list (map sint vs) \<le> int (length vs) * sint (ac_max a)"
  using assms sum_list_mono [of vs "\<lambda>_. sint (ac_min a)" sint] sum_list_mono [of vs sint "\<lambda>_. sint (ac_max a)"]
  by (simp_all add: acc_rep_def sum_list_triv)

lemma ucast_scast_128: "ucast (scast v :: i128) = v" for v :: i64
  by (rule bit_word_eqI) (simp add: bit_simps)


lemma acc_rep_word:
  assumes "acc_rep a i vs"
  shows "ac_sum a = word_of_int (sum_list (map sint vs))"
    and "(ucast (ac_count a) :: i128) = word_of_int (int (length vs))"
    and "0 < int (length vs)" and "int (length vs) < 2 ^ 32" and "\<bar>sum_list (map sint vs)\<bar> \<le> 2 ^ 95"
proof -
  have word_of_int_sint_sum: "ac_sum a = word_of_int (sint (ac_sum a))" by simp
  show "ac_sum a = word_of_int (sum_list (map sint vs))"
    using assms word_of_int_sint_sum by (simp only: acc_rep_def)
  have "int (unat (ac_count a)) = int (length vs)"
    using assms by (simp only: acc_rep_def)
  moreover have "(ucast (ac_count a) :: i128) = word_of_int (int (unat (ac_count a)))"
    by simp
  ultimately show "(ucast (ac_count a) :: i128) = word_of_int (int (length vs))"
    by (simp only:)
  show len: "0 < int (length vs)" "int (length vs) < 2 ^ 32"
    using assms by (simp_all add: acc_rep_def)
  have "int (length vs) * 2 ^ 63 \<le> 2 ^ 32 * 2 ^ 63"
    using len by (intro mult_right_mono) simp_all
  then show "\<bar>sum_list (map sint vs)\<bar> \<le> 2 ^ 95"
    using sum_list_sint_bounds [of vs] by (simp add: abs_le_iff)
qed

text \<open>Within these bounds the \<open>i128\<close> operations of \<open>close\<close> are exact.\<close>

lemma div128_word:
  assumes "- (2 ^ 127) \<le> a" "a < 2 ^ 127" "0 < b" "b < 2 ^ 32"
  shows "div128 (word_of_int a) (word_of_int b) = word_of_int (a sdiv b)"
proof -
  have "sint (word_of_int b :: i128) = b"
    by (rule sint128_word_of_int) (use assms(3,4) in simp_all)
  then show ?thesis
    unfolding div128_def using sint128_word_of_int [OF assms(1,2)] by simp
qed

lemma half_word:
  assumes "0 < n" "n < 2 ^ 32"
  shows "div128 (word_of_int n) 2 + rem128 (word_of_int n) 2 = word_of_int (n div 2 + n mod 2)"
proof -
  have n: "sint (word_of_int n :: i128) = n"
    by (rule sint128_word_of_int) (use assms in simp_all)
  have two: "sint (2 :: i128) = 2" by simp
  have "n sdiv 2 = n div 2" and "n smod 2 = n mod 2"
    using assms(1) by (simp_all add: signed_divide_int_def signed_modulo_int_def)
  then show ?thesis
    unfolding div128_def rem128_def n two by simp
qed

lemma acc_close_rounded:
  fixes s n :: int
  assumes "\<bar>s\<bar> \<le> 2 ^ 95" "0 < n" "n < 2 ^ 32"
  defines "half \<equiv> div128 (word_of_int n) 2 + rem128 (word_of_int n) 2"
  shows "(if 0 \<le> s then div128 (word_of_int s + word_of_int n - half) (word_of_int n)
      else div128 (word_of_int s - word_of_int n + half) (word_of_int n)) = word_of_int (round_away s n)"
proof -
  let ?h = "n div 2 + n mod 2"
  have h: "0 \<le> ?h" using assms(2) by (simp add: pos_imp_zdiv_nonneg_iff)
  have h': "?h \<le> n" using assms(2) by presburger
  have words: "word_of_int s + word_of_int n - half = word_of_int (s + n - ?h)"
      "word_of_int s - word_of_int n + half = word_of_int (s - n + ?h)"
    unfolding half_def half_word [OF assms(2,3)] by simp_all
  have "div128 (word_of_int (s + n - ?h)) (word_of_int n) = word_of_int ((s + n - ?h) sdiv n)"
    using assms(1) h h' assms(3) by (intro div128_word assms(2,3)) simp_all
  moreover have "div128 (word_of_int (s - n + ?h)) (word_of_int n) = word_of_int ((s - n + ?h) sdiv n)"
    using assms(1) h h' assms(3) by (intro div128_word assms(2,3)) simp_all
  ultimately show ?thesis
    unfolding words by (simp only: round_away_def if_distrib [of word_of_int])
qed

lemma clamp_average:
  fixes lo hi :: i64
  assumes "sint lo \<le> k" "k \<le> sint hi"
  shows "sint (ucast (clamp128 (word_of_int k) (scast lo) (scast hi)) :: i64) = k"
proof -
  have fits: "- (2 ^ 63) \<le> k" "k < 2 ^ 63"
    using assms sint_ge [of lo] sint_lt [of hi] by simp_all
  then have "sint (word_of_int k :: i128) = k"
    by (intro sint128_word_of_int) simp_all
  then have "clamp128 (word_of_int k) (scast lo) (scast hi) = word_of_int k"
    using assms by (simp add: clamp128_def sint_scast_128)
  moreover have "ucast (word_of_int k :: i128) = (word_of_int k :: i64)"
    by (rule bit_word_eqI) (auto simp: bit_simps bit_word_of_int_iff)
  ultimately show ?thesis
    using fits sint_word_of_int_fits [of k] by (simp add: fits_signed_def)
qed

lemma acc_close_rep:
  assumes "acc_rep a i vs"
  shows "nearest_away (sum_list (map sint vs)) (int (length vs)) (sint (bk_avg (acc_close a)))"
    and "bucket_valid (acc_close a)" and "bk_index (acc_close a) = i"
    and "unat (bk_count (acc_close a)) = length vs"
    and "bk_min (acc_close a) = ac_min a" and "bk_max (acc_close a) = ac_max a"
proof -
  let ?s = "sum_list (map sint vs)" and ?n = "int (length vs)"
  note w = acc_rep_word [OF assms]
  have near: "nearest_away ?s ?n (round_away ?s ?n)"
    using w(3) by (rule nearest_away_round)
  then have between: "sint (ac_min a) \<le> round_away ?s ?n" "round_away ?s ?n \<le> sint (ac_max a)"
    using nearest_away_between [OF near w(3) acc_rep_sum_between [OF assms]] by simp_all
  have s: "sint (word_of_int ?s :: i128) = ?s"
    using assms w(1) by (simp add: acc_rep_def)
  have avg: "sint (bk_avg (acc_close a)) = round_away ?s ?n"
    unfolding acc_close_def Let_def bucket.simps w(1,2) s acc_close_rounded [OF w(5,3,4)]
    by (rule clamp_average [OF between])
  show "nearest_away ?s ?n (sint (bk_avg (acc_close a)))"
    using near avg by simp
  show "bk_index (acc_close a) = i" "unat (bk_count (acc_close a)) = length vs"
    "bk_min (acc_close a) = ac_min a" "bk_max (acc_close a) = ac_max a"
    using assms by (simp_all add: acc_close_def acc_rep_def Let_def)
  then show "bucket_valid (acc_close a)"
    using assms avg between by (simp add: bucket_valid_def acc_rep_def word_greater_zero_iff flip: unat_gt_0)
qed

lemma acc_try_from_row:
  assumes "acc_rep a i vs"
  shows "acc_try_from (acc_to_row a) = Inr a"
proof -
  note w = acc_rep_word [OF assms]
  have prod: "sint (ucast (ac_count a) * scast v :: i128) = int (length vs) * sint v" for v :: i64
  proof -
    have "\<bar>int (length vs) * sint v\<bar> \<le> 2 ^ 32 * 2 ^ 63"
      unfolding abs_mult using w(4) sint_ge [of v] sint_lt [of v] by (intro mult_mono) (simp_all add: abs_le_iff)
    moreover have "ucast (ac_count a) * scast v = (word_of_int (int (length vs) * sint v) :: i128)"
      by (simp add: w(2))
    ultimately show ?thesis
      by (simp only:) (intro sint128_word_of_int; simp add: abs_le_iff)
  qed
  have "ac_count a > 0" and "sint (ac_sum a) = sum_list (map sint vs)" and "sint (ac_min a) \<le> sint (ac_max a)"
    using assms by (auto simp: acc_rep_def word_greater_zero_iff simp flip: unat_gt_0)
  then show ?thesis
    using acc_rep_sum_between [OF assms]
    by (simp add: acc_try_from_def acc_to_row_def acc_parts_def acc_from_parts_def prod)
qed


section \<open>Properties\<close>

text \<open>Closing a bucket is exact: an accumulator fed values one by one (fewer than \<open>2 ^ 32\<close> of them)
  closes into a bucket with their number, their minimum and maximum, and their mean rounded to the
  nearest integer, halves away from zero; the bucket is one the rollup chunk takes, and its row
  reads back.\<close>

theorem accumulator_close_exact:
  assumes "length vs < 2 ^ 32 - 1"
  shows "let a = fold (\<lambda>v a. acc_add a v) vs (acc_open t ts v); b = acc_close a; ws = v # vs in
    bk_index b = ts div bucket_secs t \<and> unat (bk_count b) = length ws
    \<and> bk_min b \<in> set ws \<and> bk_max b \<in> set ws
    \<and> list_all (\<lambda>w. sint (bk_min b) \<le> sint w \<and> sint w \<le> sint (bk_max b)) ws
    \<and> nearest_away (sum_list (map sint ws)) (int (length ws)) (sint (bk_avg b))
    \<and> bucket_valid b \<and> acc_try_from (acc_to_row a) = Inr a"
proof -
  have fed: "acc_rep (fold (\<lambda>v a. acc_add a v) us a) i (ws @ us)"
    if "acc_rep a i ws" and "length ws + length us < 2 ^ 32" for a i ws us
    using that
  proof (induction us arbitrary: a ws)
    case (Cons u us)
    have "acc_rep (acc_add a u) i (ws @ [u])"
      using Cons.prems by (intro acc_rep_add) simp_all
    then show ?case
      using Cons.IH [of "acc_add a u" "ws @ [u]"] Cons.prems(2) by simp
  qed simp
  have rep: "acc_rep (fold (\<lambda>v a. acc_add a v) vs (acc_open t ts v)) (ts div bucket_secs t) (v # vs)"
    using fed [OF acc_rep_open, of v vs t ts] assms by simp
  then show ?thesis
    using acc_close_rep [OF rep] acc_try_from_row [OF rep] by (simp add: acc_rep_def list_all_iff Let_def)
qed

theorem accumulator_close_exact_witness:
  "nearest_away (sum_list (map sint [2 :: i64, 3])) 2
     (sint (bk_avg (acc_close (acc_add (acc_open RollupMinute 61 2) 3))))"
  using accumulator_close_exact [of "[3]" RollupMinute 61 2] by (simp add: Let_def)

end
