(* ===== verification/Series_State.thy ===== *)
theory Series_State
  imports Accumulator
begin

text \<open>
  One series in the head (\<open>system-hub/hub-store/src/state.rs\<close>): its open raw chunk, its open
  rollup buckets and chunks, and the chunks they seal.  The trait \<open>OpenChunk\<close> is the record of
  its operations; the locale \<open>open_chunk\<close> is the contract the head relies on, with the history
  of one tier's open chunk proved once inside it, and it is interpreted on the raw and the rollup
  chunks.
\<close>

record sealed =
  se_tier :: tier
  se_span :: span_start
  se_seq :: u16
  se_bytes :: bytes

datatype not_after_last = NotAfterLast

section \<open>Open chunks\<close>

text \<open>\<open>Option::into_iter\<close>: at most one element.\<close>

definition opt_list :: "'a option \<Rightarrow> 'a list" where
  "opt_list m = (case m of None \<Rightarrow> [] | Some x \<Rightarrow> [x])"

lemma opt_list_simps [simp]: "opt_list None = []" "opt_list (Some x) = [x]"
  by (simp_all add: opt_list_def)

record ('c, 'i) open_chunk_ops =
  oc_tier :: "'c \<Rightarrow> tier"
  oc_fresh :: "'c \<Rightarrow> 'c"
  oc_push :: "'c \<Rightarrow> 'i \<Rightarrow> push_refused + 'c"
  oc_is_empty :: "'c \<Rightarrow> bool"
  oc_encode :: "'c \<Rightarrow> bytes"

definition raw_ops :: "(raw_chunk, raw_point) open_chunk_ops" where
  "raw_ops = \<lparr>oc_tier = (\<lambda>_. Raw), oc_fresh = (\<lambda>c. raw_new (rc_encoding c)), oc_push = raw_push,
     oc_is_empty = raw_is_empty, oc_encode = raw_encode\<rparr>"

definition rollup_ops :: "(rollup_chunk, bucket) open_chunk_ops" where
  "rollup_ops = \<lparr>oc_tier = (\<lambda>c. rollup_tier_of (uc_tier c)), oc_fresh = (\<lambda>c. rollup_new (uc_tier c)),
     oc_push = rollup_push, oc_is_empty = rollup_is_empty, oc_encode = rollup_encode\<rparr>"

record 'c open_tier =
  op_chunk :: 'c
  op_span :: "span_start option"
  op_next_seq :: u16

definition open_new :: "'c \<Rightarrow> 'c open_tier" where
  "open_new c = \<lparr>op_chunk = c, op_span = None, op_next_seq = 0\<rparr>"

definition open_seal :: "('c, 'i) open_chunk_ops \<Rightarrow> 'c open_tier \<Rightarrow> sealed option \<times> 'c open_tier" where
  "open_seal ops opn = (case op_span opn of
       None \<Rightarrow> (None, opn)
     | Some sp \<Rightarrow>
         if oc_is_empty ops (op_chunk opn) then (None, opn)
         else (Some \<lparr>se_tier = oc_tier ops (op_chunk opn), se_span = sp, se_seq = op_next_seq opn,
                     se_bytes = oc_encode ops (op_chunk opn)\<rparr>,
               opn\<lparr>op_chunk := oc_fresh ops (op_chunk opn), op_next_seq := sat_add (op_next_seq opn) 1\<rparr>))"

text \<open>The item is pushed again after a refusal, and the second result is dropped, as in the source.\<close>

definition open_push_in ::
  "('c, 'i) open_chunk_ops \<Rightarrow> 'c open_tier \<Rightarrow> span_start \<Rightarrow> 'i \<Rightarrow> sealed list \<times> 'c open_tier" where
  "open_push_in ops opn sp item =
     (let (sealed, opn) = (if op_span opn \<noteq> Some sp
                           then case open_seal ops opn of
                                  (s, opn) \<Rightarrow> (opt_list s, opn\<lparr>op_span := Some sp, op_next_seq := 0\<rparr>)
                           else ([], opn))
      in case oc_push ops (op_chunk opn) item of
           Inr chunk \<Rightarrow> (sealed, opn\<lparr>op_chunk := chunk\<rparr>)
         | Inl _ \<Rightarrow>
             case open_seal ops opn of
               (s, opn) \<Rightarrow> (sealed @ opt_list s,
                 (case oc_push ops (op_chunk opn) item of
                    Inr chunk \<Rightarrow> opn\<lparr>op_chunk := chunk\<rparr>
                  | Inl _ \<Rightarrow> opn)))"

definition open_seal_if_in ::
  "('c, 'i) open_chunk_ops \<Rightarrow> 'c open_tier \<Rightarrow> span_start \<Rightarrow> sealed option \<times> 'c open_tier" where
  "open_seal_if_in ops opn sp = (if op_span opn = Some sp then open_seal ops opn else (None, opn))"

definition open_seal_if_closed ::
  "('c, 'i) open_chunk_ops \<Rightarrow> 'c open_tier \<Rightarrow> u64 \<Rightarrow> sealed option \<times> 'c open_tier" where
  "open_seal_if_closed ops opn hub_now =
     (let t = oc_tier ops (op_chunk opn)
      in if (case op_span opn of None \<Rightarrow> False | Some s \<Rightarrow> span_is_closed t s hub_now)
         then open_seal ops opn else (None, opn))"

definition open_holds :: "('c, 'i) open_chunk_ops \<Rightarrow> 'c open_tier \<Rightarrow> span_start \<Rightarrow> bool" where
  "open_holds ops opn sp \<longleftrightarrow> op_span opn = Some sp \<and> \<not> oc_is_empty ops (op_chunk opn)"

definition open_push_point :: "raw_chunk open_tier \<Rightarrow> raw_point \<Rightarrow> sealed list \<times> raw_chunk open_tier" where
  "open_push_point opn point = open_push_in raw_ops opn (span_of Raw (rp_ts point)) point"

section \<open>Rollup tiers\<close>

record rollup_state_rec =
  rs_tier :: rollup_tier
  rs_bucket :: "accumulator option"
  rs_open :: "rollup_chunk open_tier"

definition rs_new :: "rollup_tier \<Rightarrow> rollup_state_rec" where
  "rs_new t = \<lparr>rs_tier = t, rs_bucket = None, rs_open = open_new (rollup_new t)\<rparr>"

definition rs_close_bucket :: "rollup_state_rec \<Rightarrow> sealed list \<times> rollup_state_rec" where
  "rs_close_bucket r = (case rs_bucket r of
       None \<Rightarrow> ([], r)
     | Some a \<Rightarrow>
         let bucket = acc_close a;
             sp = span_of (rollup_tier_of (rs_tier r)) (bk_index bucket * bucket_secs (rs_tier r));
             (sealed, opn) = open_push_in rollup_ops (rs_open r) sp bucket
         in (sealed, r\<lparr>rs_bucket := None, rs_open := opn\<rparr>))"

definition rs_add :: "rollup_state_rec \<Rightarrow> u64 \<Rightarrow> i64 \<Rightarrow> sealed list \<times> rollup_state_rec" where
  "rs_add r ts v = (case rs_bucket r of
       Some a \<Rightarrow>
         if acc_holds a (rs_tier r) ts then ([], r\<lparr>rs_bucket := Some (acc_add a v)\<rparr>)
         else (case rs_close_bucket r of (sealed, r) \<Rightarrow> (sealed, r\<lparr>rs_bucket := Some (acc_open (rs_tier r) ts v)\<rparr>))
     | None \<Rightarrow>
         (case rs_close_bucket r of (sealed, r) \<Rightarrow> (sealed, r\<lparr>rs_bucket := Some (acc_open (rs_tier r) ts v)\<rparr>)))"

definition rs_holds_open :: "rollup_state_rec \<Rightarrow> span_start \<Rightarrow> bool" where
  "rs_holds_open r sp \<longleftrightarrow> open_holds rollup_ops (rs_open r) sp
     \<or> (case rs_bucket r of None \<Rightarrow> False
        | Some a \<Rightarrow> span_of (rollup_tier_of (rs_tier r)) (ac_index a * bucket_secs (rs_tier r)) = sp)"

definition rs_sweep :: "rollup_state_rec \<Rightarrow> u64 \<Rightarrow> sealed list \<times> rollup_state_rec" where
  "rs_sweep r hub_now =
     (let len = bucket_secs (rs_tier r);
          past = (case rs_bucket r of None \<Rightarrow> False
                  | Some b \<Rightarrow> sat_sub hub_now ((ac_index b + 1) * len) > len)
      in if past then rs_close_bucket r else ([], r))"

section \<open>The series\<close>

record series_state =
  ss_kind :: value_kind
  ss_last_ts :: "u64 option"
  ss_raw :: "raw_chunk open_tier"
  ss_minute :: rollup_state_rec
  ss_hour :: rollup_state_rec

definition ss_new :: "value_kind \<Rightarrow> series_state" where
  "ss_new k = \<lparr>ss_kind = k, ss_last_ts = None, ss_raw = open_new (raw_new (kind_encoding k)),
     ss_minute = rs_new RollupMinute, ss_hour = rs_new RollupHour\<rparr>"

definition ss_append :: "series_state \<Rightarrow> u64 \<Rightarrow> scaled \<Rightarrow> not_after_last + sealed list \<times> series_state" where
  "ss_append s ts v =
     (if (case ss_last_ts s of None \<Rightarrow> False | Some l \<Rightarrow> ts \<le> l) then Inl NotAfterLast
      else let point = \<lparr>rp_ts = ts, rp_value = scaled_get v\<rparr>;
               (s1, raw) = open_push_point (ss_raw s) point;
               (s2, minute) = rs_add (ss_minute s) ts (rp_value point);
               (s3, hour) = rs_add (ss_hour s) ts (rp_value point)
           in Inr (s1 @ s2 @ s3,
                s\<lparr>ss_raw := raw, ss_minute := minute, ss_hour := hour, ss_last_ts := Some ts\<rparr>))"

definition ss_sweep :: "series_state \<Rightarrow> u64 \<Rightarrow> sealed list \<times> series_state" where
  "ss_sweep s hub_now =
     (let (s1, minute) = rs_sweep (ss_minute s) hub_now;
          (s2, hour) = rs_sweep (ss_hour s) hub_now
      in (s1 @ s2, s\<lparr>ss_minute := minute, ss_hour := hour\<rparr>))"

definition ss_seal_span :: "series_state \<Rightarrow> tier \<Rightarrow> span_start \<Rightarrow> sealed option \<times> series_state" where
  "ss_seal_span s t sp = (case t of
       Raw \<Rightarrow> (case open_seal_if_in raw_ops (ss_raw s) sp of (x, opn) \<Rightarrow> (x, s\<lparr>ss_raw := opn\<rparr>))
     | Minute \<Rightarrow> (case open_seal_if_in rollup_ops (rs_open (ss_minute s)) sp of
                    (x, opn) \<Rightarrow> (x, s\<lparr>ss_minute := (ss_minute s)\<lparr>rs_open := opn\<rparr>\<rparr>))
     | Hour \<Rightarrow> (case open_seal_if_in rollup_ops (rs_open (ss_hour s)) sp of
                    (x, opn) \<Rightarrow> (x, s\<lparr>ss_hour := (ss_hour s)\<lparr>rs_open := opn\<rparr>\<rparr>)))"

definition ss_seal_closed :: "series_state \<Rightarrow> u64 \<Rightarrow> sealed list \<times> series_state" where
  "ss_seal_closed s hub_now =
     (let (x1, raw) = open_seal_if_closed raw_ops (ss_raw s) hub_now;
          (x2, minute) = open_seal_if_closed rollup_ops (rs_open (ss_minute s)) hub_now;
          (x3, hour) = open_seal_if_closed rollup_ops (rs_open (ss_hour s)) hub_now
      in (opt_list x1 @ opt_list x2 @ opt_list x3,
          s\<lparr>ss_raw := raw, ss_minute := (ss_minute s)\<lparr>rs_open := minute\<rparr>,
            ss_hour := (ss_hour s)\<lparr>rs_open := hour\<rparr>\<rparr>))"

definition ss_holds_open :: "series_state \<Rightarrow> tier \<Rightarrow> span_start \<Rightarrow> bool" where
  "ss_holds_open s t sp = (case t of
       Raw \<Rightarrow> open_holds raw_ops (ss_raw s) sp
     | Minute \<Rightarrow> rs_holds_open (ss_minute s) sp
     | Hour \<Rightarrow> rs_holds_open (ss_hour s) sp)"

definition ss_unsealed_points :: "series_state \<Rightarrow> raw_point list" where
  "ss_unsealed_points s = raw_points (op_chunk (ss_raw s))"

definition ss_unsealed_buckets :: "series_state \<Rightarrow> rollup_tier \<Rightarrow> bucket list" where
  "ss_unsealed_buckets s t = (case t of
       RollupMinute \<Rightarrow> rollup_buckets (op_chunk (rs_open (ss_minute s)))
     | RollupHour \<Rightarrow> rollup_buckets (op_chunk (rs_open (ss_hour s))))"


section \<open>The history of an open chunk\<close>

text \<open>The sealed chunks of one tier, decoded in the order they were sealed.\<close>

definition sealed_items :: "(bytes \<Rightarrow> 'i list) \<Rightarrow> sealed list \<Rightarrow> 'i list" where
  "sealed_items decode hs = concat (map (\<lambda>h. decode (se_bytes h)) hs)"

definition in_span_count :: "('i \<Rightarrow> span_start) \<Rightarrow> span_start \<Rightarrow> 'i list \<Rightarrow> nat" where
  "in_span_count sp s xs = length (filter (\<lambda>x. sp x = s) xs)"

definition sealed_in :: "span_start \<Rightarrow> sealed list \<Rightarrow> sealed list" where
  "sealed_in s hs = filter (\<lambda>h. se_span h = s) hs"

lemma sealed_items_simps [simp]:
  "sealed_items d [] = []"
  "sealed_items d (h # hs) = d (se_bytes h) @ sealed_items d hs"
  "sealed_items d (hs @ ks) = sealed_items d hs @ sealed_items d ks"
  by (simp_all add: sealed_items_def)

lemma in_span_count_simps [simp]:
  "in_span_count sp s [] = 0"
  "in_span_count sp s (x # xs) = (if sp x = s then 1 else 0) + in_span_count sp s xs"
  "in_span_count sp s (xs @ ys) = in_span_count sp s xs + in_span_count sp s ys"
  by (simp_all add: in_span_count_def)

lemma sealed_in_simps [simp]:
  "sealed_in s [] = []"
  "sealed_in s (h # hs) = (if se_span h = s then [h] else []) @ sealed_in s hs"
  "sealed_in s (hs @ ks) = sealed_in s hs @ sealed_in s ks"
  by (simp_all add: sealed_in_def)

text \<open>A tier's chunks are well sealed when each holds items of its own span, at least one, and the
  chunks of one span are numbered from 0 in the order they were sealed.\<close>

definition well_sealed :: "tier \<Rightarrow> (bytes \<Rightarrow> 'i list) \<Rightarrow> ('i \<Rightarrow> span_start) \<Rightarrow> sealed list \<Rightarrow> bool" where
  "well_sealed t d sp hs \<longleftrightarrow>
     (\<forall>h\<in>set hs. se_tier h = t \<and> d (se_bytes h) \<noteq> [] \<and> (\<forall>x\<in>set (d (se_bytes h)). sp x = se_span h))
     \<and> (\<forall>s. map se_seq (sealed_in s hs) = map of_nat [0..<length (sealed_in s hs)])"

lemma sealed_in_count:
  "well_sealed t d sp hs \<Longrightarrow> length (sealed_in s hs) \<le> in_span_count sp s (sealed_items d hs)"
proof -
  have "length (sealed_in s hs) \<le> in_span_count sp s (sealed_items d hs)"
    if "\<forall>h\<in>set hs. d (se_bytes h) \<noteq> [] \<and> (\<forall>x\<in>set (d (se_bytes h)). sp x = se_span h)"
    using that
  proof (induction hs)
    case (Cons h hs)
    have "1 \<le> in_span_count sp s (d (se_bytes h))" if "se_span h = s"
    proof -
      have "filter (\<lambda>x. sp x = s) (d (se_bytes h)) = d (se_bytes h)"
        using Cons.prems that by (simp add: filter_id_conv)
      then show ?thesis using Cons.prems by (simp add: in_span_count_def Suc_le_eq)
    qed
    with Cons show ?case by (auto simp: Suc_le_eq intro: order_trans le_add2)
  qed simp
  then show "well_sealed t d sp hs \<Longrightarrow> length (sealed_in s hs) \<le> in_span_count sp s (sealed_items d hs)"
    by (simp add: well_sealed_def)
qed

lemma well_sealed_Nil [simp]: "well_sealed t d sp []"
  by (simp add: well_sealed_def)

lemma well_sealed_snoc:
  assumes "well_sealed t d sp hs" and "se_tier h = t" and "d (se_bytes h) \<noteq> []"
    and "\<forall>x\<in>set (d (se_bytes h)). sp x = se_span h"
    and "se_seq h = of_nat (length (sealed_in (se_span h) hs))"
  shows "well_sealed t d sp (hs @ [h])"
  using assms by (auto simp: well_sealed_def)

text \<open>The keys \<open>(span, seq)\<close> of the sealed chunks are distinct while the numbers fit \<open>u16\<close>.\<close>

lemma distinct_by_class:
  "(\<And>s. distinct (map f (filter (\<lambda>h. g h = s) hs))) \<Longrightarrow> distinct (map (\<lambda>h. (g h, f h)) hs)"
proof (induction hs)
  case (Cons h hs)
  have "distinct (map f (filter (\<lambda>k. g k = s) hs))" for s
    using Cons.prems [of s] by (auto split: if_splits)
  moreover have "f h \<notin> f ` {k \<in> set hs. g k = g h}"
    using Cons.prems [of "g h"] by simp
  ultimately show ?case using Cons.IH by auto
qed simp

lemma well_sealed_distinct:
  assumes "well_sealed t d sp hs" and "\<And>s. in_span_count sp s (sealed_items d hs) < 2 ^ 16"
  shows "distinct (map (\<lambda>h. (se_span h, se_seq h)) hs)"
proof (rule distinct_by_class)
  fix s
  have "length (sealed_in s hs) < 2 ^ 16"
    using sealed_in_count [OF assms(1), of s] assms(2) [of s] by simp
  then have "unat (of_nat n :: u16) = n" if "n < length (sealed_in s hs)" for n
    using that by (intro unat_of_nat_small) simp
  then have "inj_on (of_nat :: nat \<Rightarrow> u16) (set [0..<length (sealed_in s hs)])"
    by (intro inj_on_inverseI [where g = unat]) simp
  then show "distinct (map se_seq (filter (\<lambda>h. se_span h = s) hs))"
    using assms(1) by (simp add: well_sealed_def distinct_map flip: sealed_in_def)
qed


text \<open>What the head needs of an open chunk: \<open>holds c xs\<close> says that the chunk holds the items
  \<open>xs\<close>, and \<open>good\<close> items are those an empty chunk takes.\<close>

locale open_chunk =
  fixes ops :: "('c, 'i) open_chunk_ops"
    and t :: tier
    and new_chunk :: 'c
    and holds :: "'c \<Rightarrow> 'i list \<Rightarrow> bool"
    and decode :: "bytes \<Rightarrow> 'i list"
    and good :: "'i \<Rightarrow> bool"
  assumes holds_new: "holds new_chunk []"
    and push_holds: "holds c xs \<Longrightarrow> oc_push ops c x = Inr c' \<Longrightarrow> holds c' (xs @ [x])"
    and push_new: "good x \<Longrightarrow> \<exists>c. oc_push ops new_chunk x = Inr c"
    and fresh_new: "holds c xs \<Longrightarrow> oc_fresh ops c = new_chunk"
    and is_empty: "holds c xs \<Longrightarrow> oc_is_empty ops c \<longleftrightarrow> xs = []"
    and tier_t: "holds c xs \<Longrightarrow> oc_tier ops c = t"
    and decode_encode: "holds c xs \<Longrightarrow> xs \<noteq> [] \<Longrightarrow> decode (oc_encode ops c) = xs"
    and empty_new: "holds c [] \<Longrightarrow> c = new_chunk"
begin

text \<open>The tier sealed \<open>hs\<close>, holds \<open>cur\<close> open, and was given the items \<open>xs\<close> in all.\<close>

definition history :: "('i \<Rightarrow> span_start) \<Rightarrow> sealed list \<Rightarrow> 'c open_tier \<Rightarrow> 'i list \<Rightarrow> 'i list \<Rightarrow> bool" where
  "history sp hs opn cur xs \<longleftrightarrow>
     holds (op_chunk opn) cur \<and> sealed_items decode hs @ cur = xs \<and> well_sealed t decode sp hs
     \<and> op_span opn = (if xs = [] then None else Some (sp (last xs)))
     \<and> (\<forall>x\<in>set cur. sp x = sp (last xs))
     \<and> (xs \<noteq> [] \<longrightarrow> op_next_seq opn = of_nat (length (sealed_in (sp (last xs)) hs)))"

lemma history_new: "history sp [] (open_new new_chunk) [] []"
  by (simp add: history_def open_new_def holds_new)

text \<open>Sealing moves the open items into one sealed chunk.\<close>

lemma history_seal:
  assumes hist: "history sp hs opn cur xs" and fits: "in_span_count sp (sp (last xs)) xs < 2 ^ 16"
    and seal: "open_seal ops opn = (m, opn')"
  shows "history sp (hs @ opt_list m) opn' [] xs" and "op_span opn' = op_span opn"
proof -
  have holds: "holds (op_chunk opn) cur" and items: "sealed_items decode hs @ cur = xs"
    and well: "well_sealed t decode sp hs" and cur: "\<forall>x\<in>set cur. sp x = sp (last xs)"
    using hist by (simp_all add: history_def)
  have "history sp (hs @ opt_list m) opn' [] xs \<and> op_span opn' = op_span opn"
  proof (cases "cur = []")
    case True
    then have "m = None" and "opn' = opn"
      using seal is_empty [OF holds] by (auto simp: open_seal_def split: option.splits)
    with hist True show ?thesis by (simp add: history_def)
  next
    case False
    then have ne: "xs \<noteq> []" using items by auto
    let ?s = "sp (last xs)" and ?n = "length (sealed_in (sp (last xs)) hs)"
    have sp: "op_span opn = Some ?s" and seq: "op_next_seq opn = of_nat ?n"
      using hist ne by (simp_all add: history_def)
    let ?h = "\<lparr>se_tier = t, se_span = ?s, se_seq = of_nat ?n, se_bytes = oc_encode ops (op_chunk opn)\<rparr>"
    have m: "m = Some ?h" and opn': "opn' = opn\<lparr>op_chunk := new_chunk, op_next_seq := sat_add (of_nat ?n) 1\<rparr>"
      using seal sp seq False is_empty [OF holds] tier_t [OF holds] fresh_new [OF holds]
      by (auto simp: open_seal_def)
    note dec = decode_encode [OF holds False]
    have "well_sealed t decode sp (hs @ [?h])"
      using well cur False by (intro well_sealed_snoc) (simp_all add: dec)
    moreover have "?n + 1 < 2 ^ 16"
    proof -
      have "in_span_count sp ?s xs = in_span_count sp ?s (sealed_items decode hs) + in_span_count sp ?s cur"
        using arg_cong [OF items, of "in_span_count sp ?s"] by simp
      moreover have "1 \<le> in_span_count sp ?s cur"
        using cur False by (simp add: in_span_count_def Suc_le_eq)
      ultimately show ?thesis
        using fits sealed_in_count [OF well, of ?s] by linarith
    qed
    then have "sat_add (of_nat ?n) 1 = (of_nat (Suc ?n) :: u16)"
      by (intro sat_add_of_nat_1) simp
    ultimately show ?thesis
      using items dec sp ne holds_new by (simp add: history_def m opn')
  qed
  then show "history sp (hs @ opt_list m) opn' [] xs" and "op_span opn' = op_span opn" by simp_all
qed

lemma history_fresh_span:
  assumes "history sp hs opn [] xs" and "xs \<noteq> [] \<longrightarrow> sp (last xs) < s" and "sorted (map sp xs)"
    and "oc_push ops (op_chunk opn) x = Inr c" and "sp x = s"
  shows "history sp hs (opn\<lparr>op_chunk := c, op_span := Some s, op_next_seq := 0\<rparr>) [x] (xs @ [x])"
proof -
  have items: "sealed_items decode hs = xs" and well: "well_sealed t decode sp hs"
    using assms(1) by (simp_all add: history_def)
  have "sp y \<noteq> s" if "y \<in> set xs" for y
  proof -
    have "sp y \<le> sp (last xs)"
      using assms(3) that by (rule sorted_map_last)
    with assms(2) that show ?thesis by auto
  qed
  then have "in_span_count sp s xs = 0"
    by (simp add: in_span_count_def filter_empty_conv)
  then have "sealed_in s hs = []"
    using sealed_in_count [OF well, of s] items by simp
  moreover have "holds c [x]"
    using push_holds [of "op_chunk opn" "[]"] assms(1,4) by (simp add: history_def)
  ultimately show ?thesis
    using items well assms(5) by (simp add: history_def)
qed

lemma history_same_span:
  assumes "history sp hs opn cur xs" and "op_span opn = Some (sp x)" and "oc_push ops (op_chunk opn) x = Inr c"
  shows "history sp hs (opn\<lparr>op_chunk := c\<rparr>) (cur @ [x]) (xs @ [x])"
proof -
  have "xs \<noteq> []" and "sp x = sp (last xs)"
    using assms(1,2) by (auto simp: history_def split: if_splits)
  moreover have "holds c (cur @ [x])"
    using assms(1,3) push_holds by (auto simp: history_def)
  ultimately show ?thesis
    using assms(1) by (auto simp: history_def)
qed

lemma history_empty_chunk: "history sp hs opn [] xs \<Longrightarrow> op_chunk opn = new_chunk"
  by (simp add: history_def empty_new)

text \<open>An item is never lost: it joins the open chunk or starts the next one.\<close>

lemma history_push:
  assumes hist: "history sp hs opn cur xs" and x: "good x" and mono: "sorted (map sp (xs @ [x]))"
    and fits: "in_span_count sp (sp (last xs)) xs < 2 ^ 16"
    and push: "open_push_in ops opn (sp x) x = (hs', opn')"
  shows "\<exists>cur'. history sp (hs @ hs') opn' cur' (xs @ [x])"
proof (cases "op_span opn = Some (sp x)")
  case same: True
  show ?thesis
  proof (cases "oc_push ops (op_chunk opn) x")
    case (Inr c)
    then show ?thesis
      using push same history_same_span [OF hist same Inr] by (auto simp: open_push_in_def)
  next
    case (Inl e)
    obtain m opn1 where seal: "open_seal ops opn = (m, opn1)" by (cases "open_seal ops opn")
    note h1 = history_seal [OF hist fits seal]
    obtain c where c: "oc_push ops (op_chunk opn1) x = Inr c"
      using push_new [OF x] history_empty_chunk [OF h1(1)] by auto
    have "hs' = opt_list m" and "opn' = opn1\<lparr>op_chunk := c\<rparr>"
      using push same Inl seal c by (simp_all add: open_push_in_def)
    then show ?thesis
      using history_same_span [OF h1(1) _ c] h1(2) same by auto
  qed
next
  case other: False
  obtain m opn1 where seal: "open_seal ops opn = (m, opn1)" by (cases "open_seal ops opn")
  note h1 = history_seal [OF hist fits seal]
  obtain c where c: "oc_push ops (op_chunk opn1) x = Inr c"
    using push_new [OF x] history_empty_chunk [OF h1(1)] by auto
  have "hs' = opt_list m" and "opn' = opn1\<lparr>op_chunk := c, op_span := Some (sp x), op_next_seq := 0\<rparr>"
    using push other seal c by (auto simp: open_push_in_def)
  moreover have "xs \<noteq> [] \<longrightarrow> sp (last xs) < sp x"
  proof
    assume ne: "xs \<noteq> []"
    then have "sp (last xs) \<noteq> sp x" using hist other by (simp add: history_def)
    moreover have "sp (last xs) \<le> sp x" using mono ne by (simp add: sorted_append)
    ultimately show "sp (last xs) < sp x" by simp
  qed
  moreover have "sorted (map sp xs)"
    using mono by (simp add: sorted_append)
  ultimately show ?thesis
    using history_fresh_span [OF h1(1) _ _ c refl] by auto
qed

lemma history_seal_if_in:
  assumes "history sp hs opn cur xs" and "in_span_count sp (sp (last xs)) xs < 2 ^ 16"
    and "open_seal_if_in ops opn s = (m, opn')"
  shows "\<exists>cur'. history sp (hs @ opt_list m) opn' cur' xs"
  using assms history_seal(1) [OF assms(1,2)] by (auto simp: open_seal_if_in_def split: if_splits)

lemma history_seal_if_closed:
  assumes "history sp hs opn cur xs" and "in_span_count sp (sp (last xs)) xs < 2 ^ 16"
    and "open_seal_if_closed ops opn now = (m, opn')"
  shows "\<exists>cur'. history sp (hs @ opt_list m) opn' cur' xs"
    and "span_is_closed t s now \<Longrightarrow> \<not> open_holds ops opn' s"
proof -
  have tier: "oc_tier ops (op_chunk opn) = t"
    using assms(1) tier_t by (auto simp: history_def)
  show "\<exists>cur'. history sp (hs @ opt_list m) opn' cur' xs"
    using assms history_seal(1) [OF assms(1,2)] by (auto simp: open_seal_if_closed_def Let_def split: if_splits)
  show "\<not> open_holds ops opn' s" if "span_is_closed t s now"
  proof (cases "op_span opn = Some s")
    case True
    then have "open_seal ops opn = (m, opn')"
      using that tier assms(3) by (simp add: open_seal_if_closed_def)
    then have "holds (op_chunk opn') []"
      using history_seal(1) [OF assms(1,2)] by (auto simp: history_def)
    then show ?thesis using is_empty by (simp add: open_holds_def)
  next
    case False
    then have "op_span opn' \<noteq> Some s"
      using assms(3) by (auto simp: open_seal_if_closed_def open_seal_def Let_def split: if_splits option.splits)
    then show ?thesis by (simp add: open_holds_def)
  qed
qed

end


section \<open>The raw and rollup chunks keep the contract\<close>

definition raw_items :: "encoding \<Rightarrow> bytes \<Rightarrow> raw_point list" where
  "raw_items e bs = (case decode_raw bs e of Inl _ \<Rightarrow> [] | Inr ps \<Rightarrow> ps)"

definition rollup_items :: "rollup_tier \<Rightarrow> bytes \<Rightarrow> bucket list" where
  "rollup_items t bs = (case decode_rollup bs t of Inl _ \<Rightarrow> [] | Inr bks \<Rightarrow> bks)"

definition raw_holds :: "encoding \<Rightarrow> raw_chunk \<Rightarrow> raw_point list \<Rightarrow> bool" where
  "raw_holds e c ps \<longleftrightarrow> raw_push_all (raw_new e) ps = Inr c"

definition rollup_holds :: "rollup_tier \<Rightarrow> rollup_chunk \<Rightarrow> bucket list \<Rightarrow> bool" where
  "rollup_holds t c bs \<longleftrightarrow> rollup_push_all (rollup_new t) bs = Inr c"

lemma raw_holds_state: "raw_holds e c ps \<Longrightarrow> raw_state e c ps"
  by (simp add: raw_holds_def raw_push_all_state)

lemma rollup_holds_state: "rollup_holds t c bs \<Longrightarrow> rollup_state t c bs"
  by (simp add: rollup_holds_def rollup_push_all_state)

lemma raw_state_encoding: "raw_state e c ps \<Longrightarrow> rc_encoding c = e"
  by (cases ps) (simp_all add: raw_state_def raw_new_def)

lemma rollup_state_tier: "rollup_state t c bs \<Longrightarrow> uc_tier c = t"
  by (cases bs) (simp_all add: rollup_state_def rollup_new_def)

interpretation raw_tier: open_chunk raw_ops Raw "raw_new e" "raw_holds e" "raw_items e" "\<lambda>_. True" for e
proof
  fix c xs x c'
  show "raw_holds e (raw_new e) []"
    by (simp add: raw_holds_def)
  show "raw_holds e c' (xs @ [x])" if "raw_holds e c xs" and "oc_push raw_ops c x = Inr c'"
    using that by (simp add: raw_holds_def raw_ops_def raw_push_all_append)
  show "\<exists>c. oc_push raw_ops (raw_new e) x = Inr c"
    by (simp add: raw_ops_def raw_push_def raw_new_def)
  assume c: "raw_holds e c xs"
  show "oc_fresh raw_ops c = raw_new e"
    using raw_state_encoding [OF raw_holds_state [OF c]] by (simp add: raw_ops_def)
  show "oc_is_empty raw_ops c \<longleftrightarrow> xs = []"
    using raw_state_count [OF raw_holds_state [OF c]] by (simp add: raw_ops_def raw_is_empty_def)
  show "oc_tier raw_ops c = Raw"
    by (simp add: raw_ops_def)
  show "raw_items e (oc_encode raw_ops c) = xs" if "xs \<noteq> []"
    using raw_holds_state [OF c] that
    by (cases xs) (simp_all add: raw_items_def raw_ops_def decode_raw_state)
next
  show "raw_holds e c [] \<Longrightarrow> c = raw_new e" for c
    by (simp add: raw_holds_def)
qed

interpretation rollup_open: open_chunk rollup_ops "rollup_tier_of t" "rollup_new t" "rollup_holds t" "rollup_items t"
  bucket_valid for t
proof
  fix c xs x c'
  show "rollup_holds t (rollup_new t) []"
    by (simp add: rollup_holds_def)
  show "rollup_holds t c' (xs @ [x])" if "rollup_holds t c xs" and "oc_push rollup_ops c x = Inr c'"
    using that by (simp add: rollup_holds_def rollup_ops_def rollup_push_all_append)
  show "\<exists>c. oc_push rollup_ops (rollup_new t) x = Inr c" if "bucket_valid x"
    using that by (simp add: rollup_ops_def rollup_push_def rollup_new_def)
  assume c: "rollup_holds t c xs"
  note state = rollup_holds_state [OF c]
  show "oc_fresh rollup_ops c = rollup_new t"
    using rollup_state_tier [OF state] by (simp add: rollup_ops_def)
  show "oc_is_empty rollup_ops c \<longleftrightarrow> xs = []"
    using rollup_state_count [OF state] by (simp add: rollup_ops_def rollup_is_empty_def)
  show "oc_tier rollup_ops c = rollup_tier_of t"
    using rollup_state_tier [OF state] by (simp add: rollup_ops_def)
  show "rollup_items t (oc_encode rollup_ops c) = xs" if "xs \<noteq> []"
    using state that by (cases xs) (simp_all add: rollup_items_def rollup_ops_def decode_rollup_state)
next
  show "rollup_holds t c [] \<Longrightarrow> c = rollup_new t" for c
    by (simp add: rollup_holds_def)
qed

end
