(* ===== verification/Series_History.thy ===== *)
theory Series_History
  imports Series_State
begin

text \<open>
  The history of a series under any sequence of the head's operations: what it sealed, what it
  holds open and the points it was given.  Nothing is lost (\<open>raw_history_run\<close>), the keys of the
  sealed chunks are unique, the rollup tiers hold exactly one bucket per bucket of points, and after
  a sweep and \<open>seal_closed\<close> at one time nothing of a closed span is left open.
\<close>

section \<open>Operation sequences\<close>

text \<open>The calls a writer makes on a series; a refused append changes nothing.\<close>

datatype series_op = OpAppend u64 scaled | OpSweep u64 | OpSealSpan tier span_start | OpSealClosed u64

definition series_step :: "series_state \<Rightarrow> series_op \<Rightarrow> sealed list \<times> series_state" where
  "series_step s op = (case op of
       OpAppend ts v \<Rightarrow> (case ss_append s ts v of Inl _ \<Rightarrow> ([], s) | Inr r \<Rightarrow> r)
     | OpSweep now \<Rightarrow> ss_sweep s now
     | OpSealSpan t sp \<Rightarrow> (case ss_seal_span s t sp of (m, s) \<Rightarrow> (opt_list m, s))
     | OpSealClosed now \<Rightarrow> ss_seal_closed s now)"

primrec series_run :: "series_state \<Rightarrow> series_op list \<Rightarrow> sealed list \<times> series_state" where
  "series_run s [] = ([], s)"
| "series_run s (op # ops) =
     (let (hs, s) = series_step s op; (ks, s) = series_run s ops in (hs @ ks, s))"

text \<open>The points given and accepted: each strictly after the one before.\<close>

fun accepted_points :: "u64 option \<Rightarrow> series_op list \<Rightarrow> raw_point list" where
  "accepted_points l [] = []"
| "accepted_points l (OpAppend ts v # ops) =
     (if (case l of None \<Rightarrow> True | Some x \<Rightarrow> x < ts)
      then \<lparr>rp_ts = ts, rp_value = scaled_get v\<rparr> # accepted_points (Some ts) ops
      else accepted_points l ops)"
| "accepted_points l (_ # ops) = accepted_points l ops"

definition sealed_of :: "tier \<Rightarrow> sealed list \<Rightarrow> sealed list" where
  "sealed_of t hs = filter (\<lambda>h. se_tier h = t) hs"

lemma sealed_of_simps [simp]:
  "sealed_of t [] = []"
  "sealed_of t (hs @ ks) = sealed_of t hs @ sealed_of t ks"
  by (simp_all add: sealed_of_def)

section \<open>How many items one span can hold\<close>

text \<open>Items with strictly increasing keys, \<open>k\<close> keys to a span.\<close>

lemma in_span_count_le:
  assumes keys: "sorted_wrt (<) (map key xs)" and k: "0 < k"
    and same: "\<And>x y. x \<in> set xs \<Longrightarrow> y \<in> set xs \<Longrightarrow> sp x = sp y \<Longrightarrow> key x div k = key y div k"
  shows "in_span_count sp s xs \<le> (k :: nat)"
proof (cases "filter (\<lambda>x. sp x = s) xs")
  case Nil
  then show ?thesis by (simp add: in_span_count_def)
next
  case (Cons x ys)
  let ?fs = "filter (\<lambda>x. sp x = s) xs"
  define q where "q = key x div k"
  have "x \<in> set ?fs" unfolding Cons by simp
  then have x: "x \<in> set xs" "sp x = s" by simp_all
  have "sorted_wrt (<) (map key ?fs)"
    using keys by (simp add: sorted_wrt_map sorted_wrt_filter)
  then have distinct: "distinct (map key ?fs)"
    using strict_sorted_iff by blast
  have "key y \<in> {q * k..<q * k + k}" if "y \<in> set ?fs" for y
  proof -
    have "key y div k = q"
      using same [of y x] that x by (simp add: q_def)
    then show ?thesis
      using k by (metis add.commute atLeastLessThan_iff div_mult_mod_eq le_add1 mod_less_divisor
          nat_add_left_cancel_less)
  qed
  then have "set (map key ?fs) \<subseteq> {q * k..<q * k + k}" by auto
  then have "card (set (map key ?fs)) \<le> card {q * k..<q * k + k}" by (intro card_mono) simp_all
  then show ?thesis
    using distinct_card [OF distinct] by (simp add: in_span_count_def)
qed

definition point_span :: "raw_point \<Rightarrow> span_start" where
  "point_span p = span_of Raw (rp_ts p)"

definition bucket_span :: "rollup_tier \<Rightarrow> bucket \<Rightarrow> span_start" where
  "bucket_span t b = span_of (rollup_tier_of t) (bk_index b * bucket_secs t)"

lemma span_of_mono: "a \<le> b \<Longrightarrow> span_of t a \<le> span_of t b"
  by (simp add: less_eq_span_start_def word_le_nat_alt unat_span_of_mult div_le_mono)

lemma span_of_eq_div:
  "span_of t a = span_of t b \<longleftrightarrow> unat a div unat (span_secs t) = unat b div unat (span_secs t)"
proof -
  have "0 < unat (span_secs t)" by (simp add: unat_span_secs)
  moreover have "span_of t a = span_of t b
      \<longleftrightarrow> unat (span_get (span_of t a)) = unat (span_get (span_of t b))"
    by (metis span_start.expand word_unat_eq_iff)
  ultimately show ?thesis by (simp add: unat_span_of_mult)
qed

section \<open>Each tier seals its own chunks\<close>

definition seals_tier :: "tier \<Rightarrow> sealed list \<Rightarrow> bool" where
  "seals_tier t hs \<longleftrightarrow> (\<forall>h\<in>set hs. se_tier h = t)"

lemma seals_tier_simps [simp]:
  "seals_tier t []" "seals_tier t (hs @ ks) \<longleftrightarrow> seals_tier t hs \<and> seals_tier t ks"
  by (auto simp: seals_tier_def)

lemma sealed_of_seals: "seals_tier t hs \<Longrightarrow> sealed_of u hs = (if u = t then hs else [])"
  by (auto simp: seals_tier_def sealed_of_def filter_empty_conv filter_id_conv)

text \<open>A property of chunks that pushing and starting afresh keep, and that fixes their tier.\<close>

lemma open_seal_keeps:
  assumes "open_seal ops opn = (m, opn')" and "P (op_chunk opn)"
    and "\<And>c. P c \<Longrightarrow> P (oc_fresh ops c) \<and> oc_tier ops c = t"
  shows "seals_tier t (opt_list m) \<and> P (op_chunk opn')"
  using assms by (auto simp: open_seal_def seals_tier_def split: option.splits if_splits)

lemma open_push_keeps:
  assumes push_in: "open_push_in ops opn s x = (hs, opn')" and P: "P (op_chunk opn)"
    and fresh: "\<And>c. P c \<Longrightarrow> P (oc_fresh ops c) \<and> oc_tier ops c = t"
    and push: "\<And>c c'. P c \<Longrightarrow> oc_push ops c x = Inr c' \<Longrightarrow> P c'"
  shows "seals_tier t hs \<and> P (op_chunk opn')"
proof -
  obtain m1 o1 where seal1: "open_seal ops opn = (m1, o1)" by (cases "open_seal ops opn")
  define o2 where "o2 = (if op_span opn \<noteq> Some s then o1\<lparr>op_span := Some s, op_next_seq := 0\<rparr> else opn)"
  define h1 where "h1 = (if op_span opn \<noteq> Some s then opt_list m1 else [])"
  obtain m3 o3 where seal3: "open_seal ops o2 = (m3, o3)" by (cases "open_seal ops o2")
  note k1 = open_seal_keeps [OF seal1 P fresh]
  have o2: "P (op_chunk o2)" and h1: "seals_tier t h1"
    using k1 P by (simp_all add: o2_def h1_def)
  note k3 = open_seal_keeps [OF seal3 o2 fresh]
  have "(hs, opn') = (case oc_push ops (op_chunk o2) x of
      Inr c \<Rightarrow> (h1, o2\<lparr>op_chunk := c\<rparr>)
    | Inl _ \<Rightarrow> (h1 @ opt_list m3,
        (case oc_push ops (op_chunk o3) x of Inr c \<Rightarrow> o3\<lparr>op_chunk := c\<rparr> | Inl _ \<Rightarrow> o3)))"
    using push_in seal1 seal3 by (auto simp: open_push_in_def o2_def h1_def split: if_splits sum.splits)
  then show ?thesis
    using o2 h1 k3 push by (auto split: sum.splits)
qed

lemma rollup_push_tier: "rollup_push c b = Inr c' \<Longrightarrow> uc_tier c' = uc_tier c"
  by (auto simp: rollup_push_def result_simps Let_def case_prod_beta split: if_splits option.splits bool.splits)

lemmas raw_seal_tier = open_seal_keeps [where ops = raw_ops and P = "\<lambda>_. True" and t = Raw]
lemmas raw_push_tier = open_push_keeps [where ops = raw_ops and P = "\<lambda>_. True" and t = Raw]

lemma raw_ops_tier: "True \<and> oc_tier raw_ops c = Raw"
  by (simp add: raw_ops_def)

lemma rollup_ops_tier:
  "uc_tier c = t \<Longrightarrow> uc_tier (oc_fresh rollup_ops c) = t \<and> oc_tier rollup_ops c = rollup_tier_of t"
  by (simp add: rollup_ops_def rollup_new_def)

lemma rollup_ops_push_tier: "uc_tier c = t \<Longrightarrow> oc_push rollup_ops c x = Inr c' \<Longrightarrow> uc_tier c' = t"
  by (simp add: rollup_ops_def rollup_push_tier)


definition rs_tier_ok :: "rollup_tier \<Rightarrow> rollup_state_rec \<Rightarrow> bool" where
  "rs_tier_ok t r \<longleftrightarrow> rs_tier r = t \<and> uc_tier (op_chunk (rs_open r)) = t"

lemma rollup_push_in_tier:
  assumes "open_push_in rollup_ops opn s x = (hs, opn')" and "uc_tier (op_chunk opn) = t"
  shows "seals_tier (rollup_tier_of t) hs \<and> uc_tier (op_chunk opn') = t"
  using assms rollup_ops_tier rollup_ops_push_tier by (rule open_push_keeps)

lemma raw_push_in_tier:
  assumes "open_push_in raw_ops opn s x = (hs, opn')"
  shows "seals_tier Raw hs"
  using open_push_keeps [OF assms TrueI raw_ops_tier TrueI] by simp

lemma rs_close_bucket_tier:
  "rs_close_bucket r = (hs, r') \<Longrightarrow> rs_tier_ok t r \<Longrightarrow> seals_tier (rollup_tier_of t) hs \<and> rs_tier_ok t r'"
  by (auto simp: rs_close_bucket_def rs_tier_ok_def Let_def dest: rollup_push_in_tier split: option.splits prod.splits)

lemma rs_add_tier:
  "rs_add r ts v = (hs, r') \<Longrightarrow> rs_tier_ok t r \<Longrightarrow> seals_tier (rollup_tier_of t) hs \<and> rs_tier_ok t r'"
  using rs_close_bucket_tier [of r _ _ t]
  by (auto simp: rs_add_def split: option.splits prod.splits if_splits) (auto simp: rs_tier_ok_def)

lemma rs_sweep_tier:
  "rs_sweep r now = (hs, r') \<Longrightarrow> rs_tier_ok t r \<Longrightarrow> seals_tier (rollup_tier_of t) hs \<and> rs_tier_ok t r'"
  using rs_close_bucket_tier [of r hs r' t] by (auto simp: rs_sweep_def Let_def split: if_splits)

lemma open_seal_if_rollup_tier:
  assumes "uc_tier (op_chunk opn) = t"
  shows "open_seal_if_in rollup_ops opn s = (m, opn')
      \<Longrightarrow> seals_tier (rollup_tier_of t) (opt_list m) \<and> uc_tier (op_chunk opn') = t"
    and "open_seal_if_closed rollup_ops opn now = (m, opn')
      \<Longrightarrow> seals_tier (rollup_tier_of t) (opt_list m) \<and> uc_tier (op_chunk opn') = t"
  using assms open_seal_keeps [where ops = rollup_ops and P = "\<lambda>c. uc_tier c = t", OF _ assms rollup_ops_tier]
  by (auto simp: open_seal_if_in_def open_seal_if_closed_def Let_def split: if_splits)

lemma open_seal_if_raw_tier:
  shows "open_seal_if_in raw_ops opn s = (m, opn') \<Longrightarrow> seals_tier Raw (opt_list m)"
    and "open_seal_if_closed raw_ops opn now = (m, opn') \<Longrightarrow> seals_tier Raw (opt_list m)"
  using open_seal_keeps [where ops = raw_ops and P = "\<lambda>_. True", OF _ _ raw_ops_tier]
  by (auto simp: open_seal_if_in_def open_seal_if_closed_def Let_def split: if_splits)

section \<open>A step of the series, tier by tier\<close>

text \<open>What one operation does to each tier: \<open>step_view s op (h1, h2, h3) s'\<close> splits the sealed
  chunks of a step by the tier they come from.\<close>

inductive step_view :: "series_state \<Rightarrow> series_op \<Rightarrow> sealed list \<times> sealed list \<times> sealed list \<Rightarrow> series_state \<Rightarrow> bool" where
  refused: "ss_last_ts s = Some l \<Longrightarrow> ts \<le> l \<Longrightarrow> step_view s (OpAppend ts v) ([], [], []) s"
| appended: "(case ss_last_ts s of None \<Rightarrow> True | Some l \<Rightarrow> l < ts) \<Longrightarrow>
    open_push_in raw_ops (ss_raw s) (span_of Raw ts) \<lparr>rp_ts = ts, rp_value = scaled_get v\<rparr> = (h1, raw) \<Longrightarrow>
    rs_add (ss_minute s) ts (scaled_get v) = (h2, m) \<Longrightarrow> rs_add (ss_hour s) ts (scaled_get v) = (h3, h) \<Longrightarrow>
    step_view s (OpAppend ts v) (h1, h2, h3)
      (s\<lparr>ss_raw := raw, ss_minute := m, ss_hour := h, ss_last_ts := Some ts\<rparr>)"
| swept: "rs_sweep (ss_minute s) now = (h2, m) \<Longrightarrow> rs_sweep (ss_hour s) now = (h3, h) \<Longrightarrow>
    step_view s (OpSweep now) ([], h2, h3) (s\<lparr>ss_minute := m, ss_hour := h\<rparr>)"
| sealed_raw: "open_seal_if_in raw_ops (ss_raw s) sp = (x, opn) \<Longrightarrow>
    step_view s (OpSealSpan Raw sp) (opt_list x, [], []) (s\<lparr>ss_raw := opn\<rparr>)"
| sealed_minute: "open_seal_if_in rollup_ops (rs_open (ss_minute s)) sp = (x, opn) \<Longrightarrow>
    step_view s (OpSealSpan Minute sp) ([], opt_list x, []) (s\<lparr>ss_minute := (ss_minute s)\<lparr>rs_open := opn\<rparr>\<rparr>)"
| sealed_hour: "open_seal_if_in rollup_ops (rs_open (ss_hour s)) sp = (x, opn) \<Longrightarrow>
    step_view s (OpSealSpan Hour sp) ([], [], opt_list x) (s\<lparr>ss_hour := (ss_hour s)\<lparr>rs_open := opn\<rparr>\<rparr>)"
| sealed_closed: "open_seal_if_closed raw_ops (ss_raw s) now = (x1, raw) \<Longrightarrow>
    open_seal_if_closed rollup_ops (rs_open (ss_minute s)) now = (x2, m) \<Longrightarrow>
    open_seal_if_closed rollup_ops (rs_open (ss_hour s)) now = (x3, h) \<Longrightarrow>
    step_view s (OpSealClosed now) (opt_list x1, opt_list x2, opt_list x3)
      (s\<lparr>ss_raw := raw, ss_minute := (ss_minute s)\<lparr>rs_open := m\<rparr>, ss_hour := (ss_hour s)\<lparr>rs_open := h\<rparr>\<rparr>)"

lemma series_step_view:
  assumes "series_step s op = (hs, s')"
  obtains h1 h2 h3 where "step_view s op (h1, h2, h3) s'" and "hs = h1 @ h2 @ h3"
proof (cases op)
  case (OpAppend ts v)
  show ?thesis
  proof (cases "case ss_last_ts s of None \<Rightarrow> True | Some l \<Rightarrow> l < ts")
    case True
    let ?p = "\<lparr>rp_ts = ts, rp_value = scaled_get v\<rparr>"
    obtain h1 raw h2 m h3 h where parts: "open_push_in raw_ops (ss_raw s) (span_of Raw ts) ?p = (h1, raw)"
      "rs_add (ss_minute s) ts (scaled_get v) = (h2, m)" "rs_add (ss_hour s) ts (scaled_get v) = (h3, h)"
      by (metis surj_pair)
    have "\<not> (case ss_last_ts s of None \<Rightarrow> False | Some l \<Rightarrow> ts \<le> l)"
      using True by (auto split: option.splits)
    then have "hs = h1 @ h2 @ h3" and
      "s' = s\<lparr>ss_raw := raw, ss_minute := m, ss_hour := h, ss_last_ts := Some ts\<rparr>"
      using assms OpAppend parts by (auto simp: series_step_def ss_append_def open_push_point_def)
    then show ?thesis
      using that step_view.appended [OF True parts] OpAppend by simp
  next
    case False
    then show ?thesis
      using assms OpAppend that step_view.refused
      by (auto simp: series_step_def ss_append_def not_less split: option.splits)
  qed
next
  case (OpSweep now)
  obtain h2 m h3 h where parts: "rs_sweep (ss_minute s) now = (h2, m)" "rs_sweep (ss_hour s) now = (h3, h)"
    by (metis surj_pair)
  then have "hs = [] @ h2 @ h3" and "s' = s\<lparr>ss_minute := m, ss_hour := h\<rparr>"
    using assms OpSweep by (auto simp: series_step_def ss_sweep_def)
  then show ?thesis
    using that step_view.swept [OF parts] OpSweep by simp
next
  case (OpSealSpan t sp)
  show ?thesis
  proof (cases t)
    case Raw
    obtain x opn where part: "open_seal_if_in raw_ops (ss_raw s) sp = (x, opn)" by (metis surj_pair)
    then have "hs = opt_list x @ [] @ []" and "s' = s\<lparr>ss_raw := opn\<rparr>"
      using assms OpSealSpan Raw by (auto simp: series_step_def ss_seal_span_def)
    then show ?thesis
      using that step_view.sealed_raw [OF part] OpSealSpan Raw by simp
  next
    case Minute
    obtain x opn where part: "open_seal_if_in rollup_ops (rs_open (ss_minute s)) sp = (x, opn)" by (metis surj_pair)
    then have "hs = [] @ opt_list x @ []" and "s' = s\<lparr>ss_minute := (ss_minute s)\<lparr>rs_open := opn\<rparr>\<rparr>"
      using assms OpSealSpan Minute by (auto simp: series_step_def ss_seal_span_def)
    then show ?thesis
      using that step_view.sealed_minute [OF part] OpSealSpan Minute by simp
  next
    case Hour
    obtain x opn where part: "open_seal_if_in rollup_ops (rs_open (ss_hour s)) sp = (x, opn)" by (metis surj_pair)
    then have "hs = [] @ [] @ opt_list x" and "s' = s\<lparr>ss_hour := (ss_hour s)\<lparr>rs_open := opn\<rparr>\<rparr>"
      using assms OpSealSpan Hour by (auto simp: series_step_def ss_seal_span_def)
    then show ?thesis
      using that step_view.sealed_hour [OF part] OpSealSpan Hour by simp
  qed
next
  case (OpSealClosed now)
  obtain x1 raw x2 m x3 h where parts: "open_seal_if_closed raw_ops (ss_raw s) now = (x1, raw)"
    "open_seal_if_closed rollup_ops (rs_open (ss_minute s)) now = (x2, m)"
    "open_seal_if_closed rollup_ops (rs_open (ss_hour s)) now = (x3, h)"
    by (metis surj_pair)
  then have "hs = opt_list x1 @ opt_list x2 @ opt_list x3" and
    "s' = s\<lparr>ss_raw := raw, ss_minute := (ss_minute s)\<lparr>rs_open := m\<rparr>, ss_hour := (ss_hour s)\<lparr>rs_open := h\<rparr>\<rparr>"
    using assms OpSealClosed by (auto simp: series_step_def ss_seal_closed_def)
  then show ?thesis
    using that step_view.sealed_closed [OF parts] OpSealClosed by simp
qed


definition tiers_ok :: "series_state \<Rightarrow> bool" where
  "tiers_ok s \<longleftrightarrow> rs_tier_ok RollupMinute (ss_minute s) \<and> rs_tier_ok RollupHour (ss_hour s)"

lemma rollup_tier_of_simps [simp]: "rollup_tier_of RollupMinute = Minute" "rollup_tier_of RollupHour = Hour"
  by (simp_all add: rollup_tier_of_def)

lemma step_view_tiers:
  assumes "step_view s op (h1, h2, h3) s'" and "tiers_ok s"
  shows "seals_tier Raw h1 \<and> seals_tier Minute h2 \<and> seals_tier Hour h3 \<and> tiers_ok s' \<and> ss_kind s' = ss_kind s"
  using assms
proof (cases rule: step_view.cases)
  case (appended ts v raw m h)
  then show ?thesis
    using assms(2) rs_add_tier [of "ss_minute s" _ _ h2 m RollupMinute] rs_add_tier [of "ss_hour s" _ _ h3 h RollupHour]
      raw_push_in_tier by (auto simp: tiers_ok_def)
next
  case (swept now m h)
  then show ?thesis
    using assms(2) rs_sweep_tier [of "ss_minute s" _ h2 m RollupMinute] rs_sweep_tier [of "ss_hour s" _ h3 h RollupHour]
    by (auto simp: tiers_ok_def)
next
  case (sealed_raw sp x opn)
  then show ?thesis using assms(2) open_seal_if_raw_tier by (auto simp: tiers_ok_def)
next
  case (sealed_minute sp x opn)
  then show ?thesis
    using assms(2) open_seal_if_rollup_tier(1) [of "rs_open (ss_minute s)" RollupMinute sp x opn]
    by (auto simp: tiers_ok_def rs_tier_ok_def)
next
  case (sealed_hour sp x opn)
  then show ?thesis
    using assms(2) open_seal_if_rollup_tier(1) [of "rs_open (ss_hour s)" RollupHour sp x opn]
    by (auto simp: tiers_ok_def rs_tier_ok_def)
next
  case (sealed_closed now x1 raw x2 m x3 h)
  then show ?thesis
    using assms(2) open_seal_if_rollup_tier(2) [of "rs_open (ss_minute s)" RollupMinute now x2 m]
      open_seal_if_rollup_tier(2) [of "rs_open (ss_hour s)" RollupHour now x3 h] open_seal_if_raw_tier
    by (auto simp: tiers_ok_def rs_tier_ok_def)
qed (use assms in auto)

section \<open>The raw tier\<close>

abbreviation "raw_history e \<equiv> open_chunk.history Raw (raw_holds e) (raw_items e) point_span"

definition raw_ok :: "encoding \<Rightarrow> sealed list \<Rightarrow> series_state \<Rightarrow> raw_point list \<Rightarrow> bool" where
  "raw_ok e hs s pts \<longleftrightarrow> sorted_wrt (<) (map rp_ts pts)
     \<and> ss_last_ts s = (if pts = [] then None else Some (rp_ts (last pts)))
     \<and> (\<exists>cur. raw_history e hs (ss_raw s) cur pts)"

lemma point_span_count: "sorted_wrt (<) (map rp_ts pts) \<Longrightarrow> in_span_count point_span s pts \<le> 3600"
proof (rule in_span_count_le [where key = "\<lambda>p. unat (rp_ts p)"])
  show "sorted_wrt (<) (map rp_ts pts) \<Longrightarrow> sorted_wrt (<) (map (\<lambda>p. unat (rp_ts p)) pts)"
    by (simp add: sorted_wrt_map word_less_nat_alt)
  show "unat (rp_ts x) div 3600 = unat (rp_ts y) div 3600" if "point_span x = point_span y" for x y
    using that by (simp add: point_span_def span_of_eq_div unat_span_secs)
qed simp

lemma point_span_sorted: "sorted_wrt (<) (map rp_ts pts) \<Longrightarrow> sorted (map point_span pts)"
  unfolding sorted_wrt_map sorted_map point_span_def
  by (erule sorted_wrt_mono_rel [rotated]) (auto intro: span_of_mono)

lemma accepted_points_Cons:
  "accepted_points l (op # ops) = accepted_points l [op]
     @ accepted_points (if accepted_points l [op] = [] then l else Some (rp_ts (last (accepted_points l [op])))) ops"
  by (cases op) auto

lemma raw_ok_step:
  assumes view: "step_view s op (h1, h2, h3) s'" and ok: "raw_ok e hs s pts"
  shows "raw_ok e (hs @ h1) s' (pts @ accepted_points (ss_last_ts s) [op])"
proof -
  obtain cur where hist: "raw_history e hs (ss_raw s) cur pts" and sorted: "sorted_wrt (<) (map rp_ts pts)"
    and last_ts: "ss_last_ts s = (if pts = [] then None else Some (rp_ts (last pts)))"
    using ok by (auto simp: raw_ok_def)
  have fits: "in_span_count point_span (point_span (last pts)) pts < 2 ^ 16"
    using point_span_count [OF sorted, of "point_span (last pts)"] by simp
  show ?thesis
    using view
  proof (cases rule: step_view.cases)
    case (appended ts v raw m h)
    let ?p = "\<lparr>rp_ts = ts, rp_value = scaled_get v\<rparr>"
    have "rp_ts p < ts" if "p \<in> set pts" for p
    proof -
      have "rp_ts p \<le> rp_ts (last pts)"
        using that strict_sorted_imp_sorted [OF sorted] by (intro sorted_map_last)
      then show ?thesis
        using appended(3) last_ts that by (auto split: if_splits)
    qed
    then have sorted': "sorted_wrt (<) (map rp_ts (pts @ [?p]))"
      using sorted by (simp add: sorted_wrt_append)
    moreover have "open_push_in raw_ops (ss_raw s) (point_span ?p) ?p = (h1, raw)"
      using appended by (simp add: point_span_def)
    then have "\<exists>cur'. raw_history e (hs @ h1) raw cur' (pts @ [?p])"
      using point_span_sorted [OF sorted'] by (intro raw_tier.history_push [OF hist TrueI _ fits])
    moreover have "accepted_points (ss_last_ts s) [op] = [?p]"
      using appended by (simp split: option.splits)
    ultimately show ?thesis
      using appended by (simp add: raw_ok_def)
  next
    case (sealed_raw sp x opn)
    then show ?thesis
      using ok raw_tier.history_seal_if_in [OF hist fits sealed_raw(6)] by (auto simp: raw_ok_def)
  next
    case (sealed_closed now x1 raw x2 m x3 h)
    then show ?thesis
      using ok raw_tier.history_seal_if_closed(1) [OF hist fits sealed_closed(6)] by (auto simp: raw_ok_def)
  qed (use ok in \<open>auto simp: raw_ok_def\<close>)
qed


lemma series_run_raw:
  assumes "series_run s ops = (hs, s')" and "tiers_ok s" and "raw_ok e ks s pts"
  shows "raw_ok e (ks @ sealed_of Raw hs) s' (pts @ accepted_points (ss_last_ts s) ops) \<and> tiers_ok s'
    \<and> ss_kind s' = ss_kind s"
  using assms
proof (induction ops arbitrary: s hs ks pts)
  case (Cons op ops)
  obtain h1s s1 where step: "series_step s op = (h1s, s1)" by (cases "series_step s op")
  obtain h2s where run: "series_run s1 ops = (h2s, s')" and hs: "hs = h1s @ h2s"
    using Cons.prems(1) step by (auto split: prod.splits)
  from step obtain h1 h2 h3 where view: "step_view s op (h1, h2, h3) s1" and h1s: "h1s = h1 @ h2 @ h3"
    by (rule series_step_view)
  note tiers = step_view_tiers [OF view Cons.prems(2)]
  let ?new = "accepted_points (ss_last_ts s) [op]"
  note ok = raw_ok_step [OF view Cons.prems(3)]
  have "ss_last_ts s1 = (if ?new = [] then ss_last_ts s else Some (rp_ts (last ?new)))"
    using ok Cons.prems(3) by (auto simp: raw_ok_def)
  then have accepted: "accepted_points (ss_last_ts s) (op # ops) = ?new @ accepted_points (ss_last_ts s1) ops"
    by (subst accepted_points_Cons) simp
  have "sealed_of Raw h1s = h1"
    using tiers by (auto simp: h1s sealed_of_seals)
  moreover have "raw_ok e ((ks @ h1) @ sealed_of Raw h2s) s' ((pts @ ?new) @ accepted_points (ss_last_ts s1) ops)
      \<and> tiers_ok s' \<and> ss_kind s' = ss_kind s1"
    using tiers ok by (intro Cons.IH [OF run]) auto
  ultimately show ?case
    unfolding accepted hs using tiers by simp
qed simp

lemma raw_ok_new: "raw_ok (kind_encoding k) [] (ss_new k) []"
  using raw_tier.history_new by (auto simp: raw_ok_def ss_new_def)

lemma tiers_ok_new: "tiers_ok (ss_new k)"
  by (simp add: tiers_ok_def rs_tier_ok_def ss_new_def rs_new_def open_new_def rollup_new_def)

lemma series_run_new_raw:
  assumes "series_run (ss_new k) ops = (hs, s)"
  shows "raw_ok (kind_encoding k) (sealed_of Raw hs) s (accepted_points None ops)" and "tiers_ok s"
    and "ss_kind s = k"
  using series_run_raw [OF assms tiers_ok_new raw_ok_new] by (simp_all add: ss_new_def)

section \<open>The rollup tiers\<close>

definition point_index :: "rollup_tier \<Rightarrow> raw_point \<Rightarrow> u64" where
  "point_index t p = rp_ts p div bucket_secs t"

text \<open>The points of each bucket, in order.\<close>

fun bucket_groups :: "rollup_tier \<Rightarrow> raw_point list \<Rightarrow> raw_point list list" where
  "bucket_groups t [] = []"
| "bucket_groups t (p # ps) = (case bucket_groups t ps of
       [] \<Rightarrow> [[p]]
     | g # gs \<Rightarrow> if point_index t (hd g) = point_index t p then (p # g) # gs else [p] # g # gs)"

text \<open>A bucket that sums up the points \<open>g\<close>: their number, minimum, maximum, and mean rounded half
  away from zero.\<close>

definition bucket_summary :: "rollup_tier \<Rightarrow> raw_point list \<Rightarrow> bucket \<Rightarrow> bool" where
  "bucket_summary t g b \<longleftrightarrow> g \<noteq> [] \<and> (\<forall>p\<in>set g. point_index t p = bk_index b)
     \<and> unat (bk_count b) = length g
     \<and> bk_min b \<in> rp_value ` set g \<and> bk_max b \<in> rp_value ` set g
     \<and> (\<forall>p\<in>set g. sint (bk_min b) \<le> sint (rp_value p) \<and> sint (rp_value p) \<le> sint (bk_max b))
     \<and> nearest_away (sum_list (map (\<lambda>p. sint (rp_value p)) g)) (int (length g)) (sint (bk_avg b))"

lemma concat_bucket_groups [simp]: "concat (bucket_groups t ps) = ps"
  by (induction ps) (auto split: list.splits)

lemma bucket_groups_nonempty: "g \<in> set (bucket_groups t ps) \<Longrightarrow> g \<noteq> []"
  by (induction ps arbitrary: g) (auto split: list.splits if_splits)

lemma bucket_groups_eq_Nil [simp]: "bucket_groups t ps = [] \<longleftrightarrow> ps = []"
  by (cases ps) (auto split: list.splits)

lemma bucket_groups_same:
  "g \<in> set (bucket_groups t ps) \<Longrightarrow> p \<in> set g \<Longrightarrow> point_index t p = point_index t (hd g)"
  by (induction ps arbitrary: g p) (fastforce split: list.splits if_splits)+

lemma last_concat: "gs \<noteq> [] \<Longrightarrow> (\<And>g. g \<in> set gs \<Longrightarrow> g \<noteq> []) \<Longrightarrow> last (concat gs) = last (last gs)"
  by (induction gs rule: rev_induct) auto

lemma last_bucket_group: "ps \<noteq> [] \<Longrightarrow> last (last (bucket_groups t ps)) = last ps"
  using last_concat [of "bucket_groups t ps"] bucket_groups_nonempty by fastforce

lemma bucket_groups_snoc_same:
  "ps \<noteq> [] \<Longrightarrow> point_index t (last ps) = point_index t p \<Longrightarrow>
    bucket_groups t (ps @ [p]) = butlast (bucket_groups t ps) @ [last (bucket_groups t ps) @ [p]]"
proof (induction ps)
  case (Cons q ps)
  show ?case
  proof (cases "ps = []")
    case True
    with Cons.prems show ?thesis by simp
  next
    case False
    obtain g gs where g: "bucket_groups t ps = g # gs"
      using False by (metis bucket_groups_eq_Nil neq_Nil_conv)
    have ne: "g \<noteq> []" using g bucket_groups_nonempty [of g t ps] by simp
    have IH: "bucket_groups t (ps @ [p]) = butlast (g # gs) @ [last (g # gs) @ [p]]"
      using Cons.IH False Cons.prems g by simp
    show ?thesis
      using IH ne by (cases "gs = []") (auto simp: g)
  qed
qed simp

lemma bucket_groups_snoc_new:
  "ps = [] \<or> point_index t (last ps) \<noteq> point_index t p \<Longrightarrow>
    bucket_groups t (ps @ [p]) = bucket_groups t ps @ [[p]]"
proof (induction ps)
  case (Cons q ps)
  show ?case
  proof (cases "ps = []")
    case True
    with Cons.prems show ?thesis by auto
  next
    case False
    obtain g gs where g: "bucket_groups t ps = g # gs"
      using False by (metis bucket_groups_eq_Nil neq_Nil_conv)
    have "bucket_groups t (ps @ [p]) = g # gs @ [[p]]"
      using Cons.IH False Cons.prems g by simp
    then show ?thesis by (simp add: g)
  qed
qed simp

lemma unat_point_index: "unat (point_index t p) = unat (rp_ts p) div unat (bucket_secs t)"
  by (simp add: point_index_def unat_div)

lemma point_index_mono: "rp_ts p \<le> rp_ts q \<Longrightarrow> point_index t p \<le> point_index t q"
  by (simp add: word_le_nat_alt unat_point_index div_le_mono)

lemma bucket_groups_sorted:
  "sorted_wrt (<) (map rp_ts ps) \<Longrightarrow> sorted_wrt (<) (map (\<lambda>g. point_index t (hd g)) (bucket_groups t ps))"
proof (induction ps)
  case step: (Cons p ps)
  show ?case
  proof (cases "bucket_groups t ps")
    case Nil
    then show ?thesis by simp
  next
    case (Cons g gs)
    have sorted: "sorted_wrt (<) (map (\<lambda>g. point_index t (hd g)) (g # gs))"
      using step Cons by simp
    have "hd g \<in> set ps"
      using Cons bucket_groups_nonempty [of g t ps] concat_bucket_groups [of t ps] by (cases g) auto
    then have "point_index t p \<le> point_index t (hd g)"
      using step.prems by (intro point_index_mono) auto
    then show ?thesis
      using sorted Cons by auto
  qed
qed simp


lemma bucket_summary_close:
  assumes "acc_rep a i (map rp_value g)" and "\<And>p. p \<in> set g \<Longrightarrow> point_index t p = i"
  shows "bucket_summary t g (acc_close a)"
  using acc_close_rep [OF assms(1)] assms
  by (auto simp: bucket_summary_def acc_rep_def o_def)

lemma bucket_summary_index:
  "list_all2 (bucket_summary t) gs bs \<Longrightarrow> map bk_index bs = map (\<lambda>g. point_index t (hd g)) gs"
  by (induction rule: list_all2_induct) (auto simp: bucket_summary_def)

text \<open>A bucket's start does not overflow, and the buckets of a span have adjacent indices.\<close>

definition index_fits :: "rollup_tier \<Rightarrow> u64 \<Rightarrow> bool" where
  "index_fits t i \<longleftrightarrow> unat i * unat (bucket_secs t) < 2 ^ 64"

lemma index_fits_point: "index_fits t (point_index t p)"
proof -
  have "unat (rp_ts p) div unat (bucket_secs t) * unat (bucket_secs t) \<le> unat (rp_ts p)"
    by simp
  also have "\<dots> < 2 ^ 64" using unsigned_less [of "rp_ts p"] by simp
  finally show ?thesis by (simp add: index_fits_def unat_point_index)
qed

lemma unat_bucket_start: "index_fits t i \<Longrightarrow> unat (i * bucket_secs t) = unat i * unat (bucket_secs t)"
  by (simp add: index_fits_def unat_mult_small)

lemma span_secs_buckets: "unat (span_secs (rollup_tier_of t)) = max_buckets t * unat (bucket_secs t)"
  by (cases t) (simp_all add: unat_span_secs unat_bucket_secs)

lemma bucket_span_index:
  assumes "index_fits t (bk_index a)" and "index_fits t (bk_index b)" and "bucket_span t a = bucket_span t b"
  shows "unat (bk_index a) div max_buckets t = unat (bk_index b) div max_buckets t"
proof -
  have "unat i * unat (bucket_secs t) div (max_buckets t * unat (bucket_secs t)) = unat i div max_buckets t" for i :: u64
    by (cases t) (simp_all add: unat_bucket_secs)
  then show ?thesis
    using assms by (simp add: bucket_span_def span_of_eq_div unat_bucket_start span_secs_buckets)
qed

lemma bucket_span_count:
  assumes "sorted_wrt (<) (map bk_index bs)" and "\<And>b. b \<in> set bs \<Longrightarrow> index_fits t (bk_index b)"
  shows "in_span_count (bucket_span t) s bs \<le> max_buckets t"
proof (rule in_span_count_le [where key = "\<lambda>b. unat (bk_index b)"])
  show "sorted_wrt (<) (map (\<lambda>b. unat (bk_index b)) bs)"
    using assms(1) by (simp add: sorted_wrt_map word_less_nat_alt)
  show "0 < max_buckets t" by (cases t) simp_all
qed (use assms(2) bucket_span_index in blast)

lemma bucket_span_sorted:
  assumes "sorted_wrt (<) (map bk_index bs)" and "\<And>b. b \<in> set bs \<Longrightarrow> index_fits t (bk_index b)"
  shows "sorted (map (bucket_span t) bs)"
proof -
  have "bucket_span t a \<le> bucket_span t b"
    if "index_fits t (bk_index a)" "index_fits t (bk_index b)" "bk_index a < bk_index b" for a b
    using that unfolding bucket_span_def
    by (intro span_of_mono) (simp add: word_le_nat_alt word_less_nat_alt unat_bucket_start)
  then show ?thesis
    using assms unfolding sorted_wrt_map sorted_map
    by (auto intro: sorted_wrt_mono_rel [where P = "\<lambda>a b. bk_index a < bk_index b"])
qed

text \<open>The bounds on a group: its points are at different seconds of one bucket.\<close>

lemma bucket_group_length:
  assumes "sorted_wrt (<) (map rp_ts ps)" and g: "g \<in> set (bucket_groups t ps)"
  shows "length g \<le> 3600"
proof -
  obtain gs1 gs2 where "bucket_groups t ps = gs1 @ g # gs2"
    using g by (meson split_list)
  then have "ps = concat gs1 @ g @ concat gs2"
    using concat_bucket_groups [of t ps] by simp
  then have "sorted_wrt (<) (map rp_ts g)"
    using assms(1) by (simp add: sorted_wrt_append)
  then have "in_span_count (\<lambda>_. SpanStart 0) (SpanStart 0) g \<le> unat (bucket_secs t)"
  proof (intro in_span_count_le [where key = "\<lambda>p. unat (rp_ts p)"])
    show "unat (rp_ts x) div unat (bucket_secs t) = unat (rp_ts y) div unat (bucket_secs t)"
      if "x \<in> set g" "y \<in> set g" for x y
      using bucket_groups_same [OF g that(1)] bucket_groups_same [OF g that(2)]
      by (metis unat_point_index)
  qed (simp_all add: sorted_wrt_map word_less_nat_alt unat_bucket_secs)
  then show ?thesis
    by (simp add: in_span_count_def unat_bucket_secs split: if_splits)
qed

section \<open>One bucket per bucket of points\<close>

abbreviation "rollup_history t \<equiv> open_chunk.history (rollup_tier_of t) (rollup_holds t) (rollup_items t) (bucket_span t)"

text \<open>The tier's closed buckets \<open>bs\<close> and its open one, against the points given so far; \<open>now\<close> is
  the latest hub time the tier was swept at.\<close>

definition rollup_buckets_ok :: "rollup_tier \<Rightarrow> u64 \<Rightarrow> accumulator option \<Rightarrow> bucket list \<Rightarrow> raw_point list \<Rightarrow> bool" where
  "rollup_buckets_ok t now acc bs pts \<longleftrightarrow> (case acc of
       None \<Rightarrow> list_all2 (bucket_summary t) (bucket_groups t pts) bs
         \<and> (pts \<noteq> [] \<longrightarrow> (unat (point_index t (last pts)) + 1) * unat (bucket_secs t) \<le> unat now)
     | Some a \<Rightarrow> pts \<noteq> [] \<and> list_all2 (bucket_summary t) (butlast (bucket_groups t pts)) bs
         \<and> acc_rep a (point_index t (last pts)) (map rp_value (last (bucket_groups t pts))))"

definition rollup_ok :: "rollup_tier \<Rightarrow> u64 \<Rightarrow> sealed list \<Rightarrow> rollup_state_rec \<Rightarrow> bucket list \<Rightarrow> raw_point list \<Rightarrow> bool" where
  "rollup_ok t now hs r bs pts \<longleftrightarrow> rs_tier r = t \<and> sorted_wrt (<) (map rp_ts pts)
     \<and> (\<forall>p\<in>set pts. unat (rp_ts p) < 2 ^ 63)
     \<and> (\<exists>cur. rollup_history t hs (rs_open r) cur bs) \<and> rollup_buckets_ok t now (rs_bucket r) bs pts"

lemma group_heads_fit:
  "map bk_index bs = map (\<lambda>g. point_index t (hd g)) gs \<Longrightarrow> b \<in> set bs \<Longrightarrow> index_fits t (bk_index b)"
  by (metis (mono_tags, lifting) index_fits_point image_iff list.set_map)

lemma last_group_index:
  assumes "pts \<noteq> []" and "p \<in> set (last (bucket_groups t pts))"
  shows "point_index t p = point_index t (last pts)"
proof -
  let ?g = "last (bucket_groups t pts)"
  have g: "?g \<in> set (bucket_groups t pts)" using assms(1) by simp
  have "last pts \<in> set ?g"
    using last_bucket_group [OF assms(1), of t] bucket_groups_nonempty [OF g] by (metis last_in_set)
  then show ?thesis
    using bucket_groups_same [OF g] assms(2) by metis
qed


lemma rollup_fits:
  assumes "sorted_wrt (<) (map rp_ts pts)" and "list_all2 (bucket_summary t) gs bs"
    and "gs = bucket_groups t pts \<or> gs = butlast (bucket_groups t pts)"
  shows "in_span_count (bucket_span t) s bs < 2 ^ 16" and "sorted (map (bucket_span t) bs)"
proof -
  have "sorted_wrt (<) (map (\<lambda>g. point_index t (hd g)) gs)"
    using bucket_groups_sorted [OF assms(1), of t] assms(3)
    by (metis (no_types, lifting) append_butlast_last_id bucket_groups_eq_Nil butlast.simps(1) map_append
        sorted_wrt_append)
  then have sorted: "sorted_wrt (<) (map bk_index bs)"
    using bucket_summary_index [OF assms(2)] by simp
  note fit = group_heads_fit [OF bucket_summary_index [OF assms(2)]]
  have "max_buckets t < 2 ^ 16" by (cases t) simp_all
  then show "in_span_count (bucket_span t) s bs < 2 ^ 16"
    using bucket_span_count [OF sorted fit, of s] by linarith
  show "sorted (map (bucket_span t) bs)"
    using sorted fit by (rule bucket_span_sorted)
qed

lemma rollup_ok_fits:
  assumes "rollup_ok t now hs r bs pts"
  shows "in_span_count (bucket_span t) s bs < 2 ^ 16"
  using assms rollup_fits(1)
  by (auto simp: rollup_ok_def rollup_buckets_ok_def split: option.splits)

lemma rollup_close_step:
  assumes ok: "rollup_ok t now hs r bs pts" and a: "rs_bucket r = Some a" and close: "rs_close_bucket r = (hs', r')"
  shows "list_all2 (bucket_summary t) (bucket_groups t pts) (bs @ [acc_close a])"
    and "\<exists>cur. rollup_history t (hs @ hs') (rs_open r') cur (bs @ [acc_close a])"
    and "rs_tier r' = t" and "rs_bucket r' = None"
proof -
  have t: "rs_tier r = t" and sorted: "sorted_wrt (<) (map rp_ts pts)" and ne: "pts \<noteq> []"
    and closed: "list_all2 (bucket_summary t) (butlast (bucket_groups t pts)) bs"
    and rep: "acc_rep a (point_index t (last pts)) (map rp_value (last (bucket_groups t pts)))"
    using ok a by (auto simp: rollup_ok_def rollup_buckets_ok_def)
  obtain cur where hist: "rollup_history t hs (rs_open r) cur bs"
    using ok by (auto simp: rollup_ok_def)
  have "bucket_summary t (last (bucket_groups t pts)) (acc_close a)"
    using rep last_group_index [OF ne] by (rule bucket_summary_close)
  then have "list_all2 (bucket_summary t) (butlast (bucket_groups t pts) @ [last (bucket_groups t pts)])
      (bs @ [acc_close a])"
    using closed by (intro list_all2_appendI) simp_all
  then show all: "list_all2 (bucket_summary t) (bucket_groups t pts) (bs @ [acc_close a])"
    using ne by simp
  obtain opn where push: "open_push_in rollup_ops (rs_open r) (bucket_span t (acc_close a)) (acc_close a) = (hs', opn)"
    and r': "r' = r\<lparr>rs_bucket := None, rs_open := opn\<rparr>"
    using close a t by (auto simp: rs_close_bucket_def bucket_span_def Let_def split: prod.splits)
  show "\<exists>cur. rollup_history t (hs @ hs') (rs_open r') cur (bs @ [acc_close a])"
    unfolding r' rollup_state_rec.simps
    using rollup_open.history_push [OF hist acc_close_rep(2) [OF rep] rollup_fits(2) [OF sorted all disjI1 [OF refl]]
        rollup_ok_fits [OF ok] push] by simp
  show "rs_tier r' = t" and "rs_bucket r' = None"
    using t by (simp_all add: r')
qed

text \<open>Adding a point of the hub's present or later.\<close>

lemma rollup_add_step:
  assumes ok: "rollup_ok t now hs r bs pts" and sorted: "sorted_wrt (<) (map rp_ts (pts @ [p]))"
    and now: "now \<le> rp_ts p" and small: "unat (rp_ts p) < 2 ^ 63"
    and add: "rs_add r (rp_ts p) (rp_value p) = (hs', r')"
  shows "\<exists>bs'. rollup_ok t now (hs @ hs') r' bs' (pts @ [p])"
proof -
  have t: "rs_tier r = t" and smalls: "\<forall>q\<in>set (pts @ [p]). unat (rp_ts q) < 2 ^ 63"
    using ok small by (auto simp: rollup_ok_def)
  obtain cur where hist: "rollup_history t hs (rs_open r) cur bs"
    using ok by (auto simp: rollup_ok_def)
  have open_new: "acc_rep (acc_open t (rp_ts p) (rp_value p)) (point_index t p) [rp_value p]"
    unfolding point_index_def by (rule acc_rep_open)
  show ?thesis
  proof (cases "rs_bucket r")
    case None
    have "pts = [] \<or> point_index t (last pts) \<noteq> point_index t p"
    proof (rule disjCI)
      assume same: "\<not> point_index t (last pts) \<noteq> point_index t p"
      show "pts = []"
      proof (rule ccontr)
        assume "pts \<noteq> []"
        then have "(unat (point_index t (last pts)) + 1) * unat (bucket_secs t) \<le> unat now"
          using ok None by (simp add: rollup_ok_def rollup_buckets_ok_def)
        then have "(unat (rp_ts p) div unat (bucket_secs t) + 1) * unat (bucket_secs t) \<le> unat (rp_ts p)"
          using now same by (simp add: unat_point_index [of t p] word_le_nat_alt)
        moreover have "0 < unat (bucket_secs t)" by (simp add: unat_bucket_secs)
        then have "unat (rp_ts p) < (unat (rp_ts p) div unat (bucket_secs t) + 1) * unat (bucket_secs t)"
          by (metis Suc_eq_plus1 dividend_less_div_times add.commute mult_Suc)
        ultimately show False by simp
      qed
    qed
    then have "bucket_groups t (pts @ [p]) = bucket_groups t pts @ [[p]]"
      by (rule bucket_groups_snoc_new)
    moreover have "hs' = []" and "r' = r\<lparr>rs_bucket := Some (acc_open t (rp_ts p) (rp_value p))\<rparr>"
      using add None t by (simp_all add: rs_add_def rs_close_bucket_def)
    ultimately have "rollup_ok t now (hs @ hs') r' bs (pts @ [p])"
      using ok None t sorted smalls hist open_new by (auto simp: rollup_ok_def rollup_buckets_ok_def)
    then show ?thesis ..
  next
    case (Some a)
    have ne: "pts \<noteq> []" and closed: "list_all2 (bucket_summary t) (butlast (bucket_groups t pts)) bs"
      and rep: "acc_rep a (point_index t (last pts)) (map rp_value (last (bucket_groups t pts)))"
      using ok Some by (auto simp: rollup_ok_def rollup_buckets_ok_def)
    have index: "ac_index a = point_index t (last pts)"
      using rep by (simp add: acc_rep_def)
    show ?thesis
    proof (cases "acc_holds a t (rp_ts p)")
      case True
      then have "bucket_groups t (pts @ [p]) = butlast (bucket_groups t pts) @ [last (bucket_groups t pts) @ [p]]"
        using ne index by (intro bucket_groups_snoc_same) (simp_all add: acc_holds_def point_index_def)
      moreover have same: "point_index t p = point_index t (last pts)"
        using True index by (simp add: acc_holds_def point_index_def)
      moreover have "length (last (bucket_groups t pts)) \<le> 3600"
        using ok ne bucket_group_length [of pts "last (bucket_groups t pts)" t] by (auto simp: rollup_ok_def)
      then have "acc_rep (acc_add a (rp_value p)) (point_index t (last pts))
          (map rp_value (last (bucket_groups t pts)) @ [rp_value p])"
        using rep by (intro acc_rep_add) simp_all
      moreover have "hs' = []" and "r' = r\<lparr>rs_bucket := Some (acc_add a (rp_value p))\<rparr>"
        using add Some t True by (simp_all add: rs_add_def)
      ultimately have "rollup_ok t now (hs @ hs') r' bs (pts @ [p])"
        using t sorted smalls hist closed by (auto simp: rollup_ok_def rollup_buckets_ok_def)
      then show ?thesis ..
    next
      case False
      then have groups: "bucket_groups t (pts @ [p]) = bucket_groups t pts @ [[p]]"
        using index by (intro bucket_groups_snoc_new) (simp add: acc_holds_def point_index_def)
      obtain r1 where close: "rs_close_bucket r = (hs', r1)"
        and r': "r' = r1\<lparr>rs_bucket := Some (acc_open (rs_tier r1) (rp_ts p) (rp_value p))\<rparr>"
        using add Some t False by (auto simp: rs_add_def split: prod.splits)
      have "rollup_ok t now (hs @ hs') r' (bs @ [acc_close a]) (pts @ [p])"
        using rollup_close_step [OF ok Some close] groups sorted smalls open_new
        by (auto simp: rollup_ok_def rollup_buckets_ok_def r')
      then show ?thesis ..
    qed
  qed
qed

text \<open>A sweep closes a bucket only once its end is past.\<close>

lemma rollup_ok_later: "rollup_ok t now hs r bs pts \<Longrightarrow> now \<le> later \<Longrightarrow> rollup_ok t later hs r bs pts"
  by (fastforce simp: rollup_ok_def rollup_buckets_ok_def word_le_nat_alt split: option.splits)

lemma unat_bucket_end:
  assumes "unat ts < 2 ^ 63"
  shows "unat ((ts div bucket_secs t + 1) * bucket_secs t) = (unat (ts div bucket_secs t) + 1) * unat (bucket_secs t)"
proof -
  have q: "unat (ts div bucket_secs t) * unat (bucket_secs t) \<le> unat ts"
    by (simp add: unat_div)
  moreover have "1 \<le> unat (bucket_secs t)" and len: "unat (bucket_secs t) \<le> 3600"
    by (simp_all add: unat_bucket_secs)
  ultimately have "unat (ts div bucket_secs t) \<le> unat ts"
    by (metis mult.right_neutral mult_le_mono2 order_trans)
  then have "unat (ts div bucket_secs t + 1) = unat (ts div bucket_secs t) + 1"
    using assms unat_add_small [of "ts div bucket_secs t" 1] by simp
  moreover have "(unat (ts div bucket_secs t) + 1) * unat (bucket_secs t) < 2 ^ 64"
    using q len assms by (simp add: add_mult_distrib)
  ultimately show ?thesis
    using unat_mult_small [of "ts div bucket_secs t + 1" "bucket_secs t"] by simp
qed

lemma rollup_sweep_step:
  assumes ok: "rollup_ok t now hs r bs pts" and later: "now \<le> later" "hub_now \<le> later"
    and sweep: "rs_sweep r hub_now = (hs', r')"
  shows "\<exists>bs'. rollup_ok t later (hs @ hs') r' bs' pts"
proof (cases "rs_bucket r")
  case None
  then have "hs' = []" and "r' = r"
    using sweep by (simp_all add: rs_sweep_def)
  then show ?thesis
    using rollup_ok_later [OF ok later(1)] by auto
next
  case (Some a)
  have t: "rs_tier r = t" and ne: "pts \<noteq> []" and index: "ac_index a = point_index t (last pts)"
    and small: "unat (rp_ts (last pts)) < 2 ^ 63"
    using ok Some by (auto simp: rollup_ok_def rollup_buckets_ok_def acc_rep_def)
  have bucket_end: "unat ((ac_index a + 1) * bucket_secs t) = (unat (point_index t (last pts)) + 1) * unat (bucket_secs t)"
    using unat_bucket_end [OF small, of t] by (simp add: index point_index_def)
  show ?thesis
  proof (cases "sat_sub hub_now ((ac_index a + 1) * bucket_secs t) > bucket_secs t")
    case True
    then have close: "rs_close_bucket r = (hs', r')"
      using sweep Some t by (simp add: rs_sweep_def Let_def)
    have "unat ((ac_index a + 1) * bucket_secs t) \<le> unat hub_now"
      using True by (simp add: word_less_nat_alt unat_sat_sub)
    then have "(unat (point_index t (last pts)) + 1) * unat (bucket_secs t) \<le> unat later"
      using bucket_end later(2) by (simp add: word_le_nat_alt)
    then have "rollup_ok t later (hs @ hs') r' (bs @ [acc_close a]) pts"
      using rollup_close_step [OF ok Some close] ok by (auto simp: rollup_ok_def rollup_buckets_ok_def)
    then show ?thesis ..
  next
    case False
    then have "hs' = []" and "r' = r"
      using sweep Some t by (simp_all add: rs_sweep_def Let_def)
    then show ?thesis
      using rollup_ok_later [OF ok later(1)] by auto
  qed
qed

lemma rollup_seal_step:
  assumes ok: "rollup_ok t now hs r bs pts"
  shows "open_seal_if_in rollup_ops (rs_open r) s = (m, opn)
      \<Longrightarrow> rollup_ok t now (hs @ opt_list m) (r\<lparr>rs_open := opn\<rparr>) bs pts"
    and "open_seal_if_closed rollup_ops (rs_open r) hub_now = (m, opn)
      \<Longrightarrow> rollup_ok t now (hs @ opt_list m) (r\<lparr>rs_open := opn\<rparr>) bs pts"
proof -
  obtain cur where hist: "rollup_history t hs (rs_open r) cur bs"
    using ok by (auto simp: rollup_ok_def)
  show "open_seal_if_in rollup_ops (rs_open r) s = (m, opn)
      \<Longrightarrow> rollup_ok t now (hs @ opt_list m) (r\<lparr>rs_open := opn\<rparr>) bs pts"
    using ok rollup_open.history_seal_if_in [OF hist rollup_ok_fits [OF ok]] by (auto simp: rollup_ok_def)
  show "open_seal_if_closed rollup_ops (rs_open r) hub_now = (m, opn)
      \<Longrightarrow> rollup_ok t now (hs @ opt_list m) (r\<lparr>rs_open := opn\<rparr>) bs pts"
    using ok rollup_open.history_seal_if_closed(1) [OF hist rollup_ok_fits [OF ok]] by (auto simp: rollup_ok_def)
qed


section \<open>Runs in hub time\<close>

text \<open>The hub's clock never goes back: a point is given at or after the latest sweep.  Hub times stay
  below \<open>2 ^ 63\<close> seconds, so that no bucket end overflows.\<close>

fun well_timed :: "u64 \<Rightarrow> series_op list \<Rightarrow> bool" where
  "well_timed now [] \<longleftrightarrow> True"
| "well_timed now (OpAppend ts v # ops) \<longleftrightarrow> now \<le> ts \<and> unat ts < 2 ^ 63 \<and> well_timed now ops"
| "well_timed now (OpSweep n # ops) \<longleftrightarrow> well_timed (max now n) ops"
| "well_timed now (OpSealSpan t s # ops) \<longleftrightarrow> well_timed now ops"
| "well_timed now (OpSealClosed n # ops) \<longleftrightarrow> well_timed now ops"

definition op_now :: "u64 \<Rightarrow> series_op \<Rightarrow> u64" where
  "op_now now op = (case op of OpSweep n \<Rightarrow> max now n | _ \<Rightarrow> now)"

lemma well_timed_Cons: "well_timed now (op # ops) \<longleftrightarrow> well_timed now [op] \<and> well_timed (op_now now op) ops"
  by (cases op) (auto simp: op_now_def)

definition ss_rollup :: "series_state \<Rightarrow> rollup_tier \<Rightarrow> rollup_state_rec" where
  "ss_rollup s t = (case t of RollupMinute \<Rightarrow> ss_minute s | RollupHour \<Rightarrow> ss_hour s)"

definition tier_part :: "rollup_tier \<Rightarrow> 'a \<times> 'a \<times> 'a \<Rightarrow> 'a" where
  "tier_part t = (\<lambda>(h1, h2, h3). case t of RollupMinute \<Rightarrow> h2 | RollupHour \<Rightarrow> h3)"

lemma rollup_ok_step:
  assumes view: "step_view s op (h1, h2, h3) s'" and raw: "raw_ok e ks s pts"
    and timed: "well_timed now [op]" and ok: "rollup_ok t now hs (ss_rollup s t) bs pts"
  shows "\<exists>bs'. rollup_ok t (op_now now op) (hs @ tier_part t (h1, h2, h3)) (ss_rollup s' t) bs'
    (pts @ accepted_points (ss_last_ts s) [op])"
  using view
proof (cases rule: step_view.cases)
  case (appended ts v raw m h)
  let ?p = "\<lparr>rp_ts = ts, rp_value = scaled_get v\<rparr>"
  have new: "accepted_points (ss_last_ts s) [op] = [?p]"
    using appended by (simp split: option.splits)
  then have "sorted_wrt (<) (map rp_ts (pts @ [?p]))"
    using raw_ok_step [OF view raw] by (simp add: raw_ok_def)
  moreover have "rs_add (ss_rollup s t) (rp_ts ?p) (rp_value ?p) = (tier_part t (h1, h2, h3), ss_rollup s' t)"
    using appended by (cases t) (simp_all add: ss_rollup_def tier_part_def)
  moreover have "now \<le> rp_ts ?p" and "unat (rp_ts ?p) < 2 ^ 63"
    using timed appended by simp_all
  ultimately show ?thesis
    unfolding new using rollup_add_step [OF ok] appended by (simp add: op_now_def)
next
  case (swept n m h)
  have "rs_sweep (ss_rollup s t) n = (tier_part t (h1, h2, h3), ss_rollup s' t)"
    using swept by (cases t) (simp_all add: ss_rollup_def tier_part_def)
  then show ?thesis
    using rollup_sweep_step [OF ok, of "max now n" n] swept by (simp add: op_now_def)
next
  case (sealed_minute sp x opn)
  then show ?thesis
    using ok rollup_seal_step(1) [OF ok, of sp x opn]
    by (cases t) (auto simp: ss_rollup_def tier_part_def op_now_def)
next
  case (sealed_hour sp x opn)
  then show ?thesis
    using ok rollup_seal_step(1) [OF ok, of sp x opn]
    by (cases t) (auto simp: ss_rollup_def tier_part_def op_now_def)
next
  case (sealed_closed n x1 raw x2 m x3 h)
  then show ?thesis
    using rollup_seal_step(2) [OF ok, of n x2 m] rollup_seal_step(2) [OF ok, of n x3 h]
    by (cases t) (auto simp: ss_rollup_def tier_part_def op_now_def)
qed (use ok in \<open>cases t; auto simp: ss_rollup_def tier_part_def op_now_def\<close>)+

definition rollup_invariant :: "rollup_tier \<Rightarrow> u64 \<Rightarrow> sealed list \<Rightarrow> series_state \<Rightarrow> raw_point list \<Rightarrow> bool" where
  "rollup_invariant t now hs s pts \<longleftrightarrow> (\<exists>bs. rollup_ok t now (sealed_of (rollup_tier_of t) hs) (ss_rollup s t) bs pts)"

definition series_ok :: "u64 \<Rightarrow> sealed list \<Rightarrow> series_state \<Rightarrow> raw_point list \<Rightarrow> bool" where
  "series_ok now hs s pts \<longleftrightarrow> tiers_ok s \<and> raw_ok (kind_encoding (ss_kind s)) (sealed_of Raw hs) s pts
     \<and> rollup_invariant RollupMinute now hs s pts \<and> rollup_invariant RollupHour now hs s pts"

lemma sealed_of_part:
  assumes "step_view s op (h1, h2, h3) s'" and "tiers_ok s"
  shows "sealed_of Raw (h1 @ h2 @ h3) = h1"
    and "sealed_of (rollup_tier_of t) (h1 @ h2 @ h3) = tier_part t (h1, h2, h3)"
  using step_view_tiers [OF assms] by (auto simp: sealed_of_seals tier_part_def split: rollup_tier.splits)

lemma series_ok_step:
  assumes step: "series_step s op = (hs, s')" and ok: "series_ok now ks s pts" and timed: "well_timed now [op]"
  shows "series_ok (op_now now op) (ks @ hs) s' (pts @ accepted_points (ss_last_ts s) [op])"
proof -
  from step obtain h1 h2 h3 where view: "step_view s op (h1, h2, h3) s'" and hs: "hs = h1 @ h2 @ h3"
    by (rule series_step_view)
  have tiers: "tiers_ok s" and raw: "raw_ok (kind_encoding (ss_kind s)) (sealed_of Raw ks) s pts"
    using ok by (simp_all add: series_ok_def)
  note parts = sealed_of_part [OF view tiers]
  have "rollup_invariant t (op_now now op) (ks @ hs) s' (pts @ accepted_points (ss_last_ts s) [op])"
    if "rollup_invariant t now ks s pts" for t
    using that rollup_ok_step [OF view raw timed] parts(2) [of t] by (auto simp: rollup_invariant_def hs)
  then show ?thesis
    using ok step_view_tiers [OF view tiers] raw_ok_step [OF view raw] parts(1) by (simp add: series_ok_def hs)
qed

lemma series_ok_run:
  assumes "series_run s ops = (hs, s')" and "series_ok now ks s pts" and "well_timed now ops"
  shows "\<exists>later. series_ok later (ks @ hs) s' (pts @ accepted_points (ss_last_ts s) ops)"
  using assms
proof (induction ops arbitrary: s hs ks pts now)
  case (Cons op ops)
  obtain h1s s1 where step: "series_step s op = (h1s, s1)" by (cases "series_step s op")
  obtain h2s where run: "series_run s1 ops = (h2s, s')" and hs: "hs = h1s @ h2s"
    using Cons.prems(1) step by (auto split: prod.splits)
  have timed: "well_timed now [op]" "well_timed (op_now now op) ops"
    using Cons.prems(3) well_timed_Cons by blast+
  let ?new = "accepted_points (ss_last_ts s) [op]"
  note ok = series_ok_step [OF step Cons.prems(2) timed(1)]
  have "ss_last_ts s1 = (if ?new = [] then ss_last_ts s else Some (rp_ts (last ?new)))"
    using ok Cons.prems(2) by (auto simp: series_ok_def raw_ok_def)
  then have "accepted_points (ss_last_ts s) (op # ops) = ?new @ accepted_points (ss_last_ts s1) ops"
    by (subst accepted_points_Cons) simp
  then show ?case
    using Cons.IH [OF run ok timed(2)] by (simp add: hs)
qed auto

lemma series_ok_new: "series_ok 0 [] (ss_new k) []"
proof -
  have "rollup_ok t 0 [] (rs_new t) [] []" for t
    using rollup_open.history_new by (auto simp: rollup_ok_def rollup_buckets_ok_def rs_new_def)
  then show ?thesis
    using tiers_ok_new raw_ok_new
    by (auto simp: series_ok_def rollup_invariant_def ss_rollup_def ss_new_def simp del: rollup_tier_of_simps)
qed

lemma series_run_new_ok:
  assumes "series_run (ss_new k) ops = (hs, s)" and "well_timed 0 ops"
  obtains now where "series_ok now hs s (accepted_points None ops)"
  using series_ok_run [OF assms(1) series_ok_new assms(2)] by (auto simp: ss_new_def)


section \<open>Closed spans\<close>

definition bucket_fits :: "rollup_tier \<Rightarrow> rollup_state_rec \<Rightarrow> bool" where
  "bucket_fits t r \<longleftrightarrow> (case rs_bucket r of None \<Rightarrow> True | Some a \<Rightarrow> index_fits t (ac_index a))"

lemma index_fits_ts: "index_fits t (ts div bucket_secs t)"
  using index_fits_point [of t "\<lparr>rp_ts = ts, rp_value = 0\<rparr>"] by (simp add: point_index_def)

lemma rs_close_bucket_None: "rs_close_bucket r = (hs, r') \<Longrightarrow> rs_bucket r' = None \<and> rs_tier r' = rs_tier r"
  by (auto simp: rs_close_bucket_def Let_def split: option.splits prod.splits)

lemma bucket_fits_add:
  "rs_add r ts v = (hs, r') \<Longrightarrow> rs_tier r = t \<Longrightarrow> bucket_fits t r \<Longrightarrow> bucket_fits t r'"
  using rs_close_bucket_None [of r]
  by (auto simp: rs_add_def bucket_fits_def acc_add_def acc_open_def index_fits_ts
      split: option.splits prod.splits if_splits)

lemma bucket_fits_sweep:
  "rs_sweep r now = (hs, r') \<Longrightarrow> bucket_fits t r \<Longrightarrow> bucket_fits t r'"
  using rs_close_bucket_None [of r hs r'] by (auto simp: rs_sweep_def bucket_fits_def Let_def split: if_splits)

definition buckets_fit :: "series_state \<Rightarrow> bool" where
  "buckets_fit s \<longleftrightarrow> bucket_fits RollupMinute (ss_minute s) \<and> bucket_fits RollupHour (ss_hour s)"

lemma buckets_fit_step:
  assumes "step_view s op hs s'" and "tiers_ok s" and "buckets_fit s"
  shows "buckets_fit s'"
  using assms
proof (cases rule: step_view.cases)
  case (appended ts v h1 raw h2 m h3 h)
  then show ?thesis
    using assms(2,3) bucket_fits_add [of "ss_minute s" _ _ h2 m] bucket_fits_add [of "ss_hour s" _ _ h3 h]
    by (simp add: buckets_fit_def tiers_ok_def rs_tier_ok_def)
next
  case (swept now h2 m h3 h)
  then show ?thesis
    using assms(3) bucket_fits_sweep [of "ss_minute s" _ h2 m] bucket_fits_sweep [of "ss_hour s" _ h3 h]
    by (simp add: buckets_fit_def)
qed (use assms in \<open>simp_all add: buckets_fit_def bucket_fits_def\<close>)

lemma series_run_fits:
  "series_run s ops = (hs, s') \<Longrightarrow> tiers_ok s \<Longrightarrow> buckets_fit s \<Longrightarrow> tiers_ok s' \<and> buckets_fit s'"
proof (induction ops arbitrary: s hs)
  case (Cons op ops)
  obtain h1s s1 where step: "series_step s op = (h1s, s1)" by (cases "series_step s op")
  obtain h2s where run: "series_run s1 ops = (h2s, s')"
    using Cons.prems(1) step by (auto split: prod.splits)
  from step obtain h1 h2 h3 where view: "step_view s op (h1, h2, h3) s1"
    by (rule series_step_view)
  show ?case
    using step_view_tiers [OF view Cons.prems(2)] buckets_fit_step [OF view Cons.prems(2,3)]
    by (intro Cons.IH [OF run]) simp_all
qed simp

text \<open>A sweep leaves no bucket of a closed span open: the span's grace is longer than a bucket.\<close>

lemma swept_bucket_open:
  assumes sweep: "rs_sweep r now = (hs, r')" and t: "rs_tier r = t" and fits: "bucket_fits t r"
    and closed: "span_is_closed (rollup_tier_of t) s now" and a: "rs_bucket r' = Some a"
  shows "span_of (rollup_tier_of t) (ac_index a * bucket_secs t) \<noteq> s"
proof
  assume s: "span_of (rollup_tier_of t) (ac_index a * bucket_secs t) = s"
  have same: "rs_bucket r = Some a" "\<not> sat_sub now ((ac_index a + 1) * bucket_secs t) > bucket_secs t"
    using sweep a t rs_close_bucket_None [of r hs r'] by (auto simp: rs_sweep_def Let_def split: if_splits option.splits)
  have start: "unat (ac_index a * bucket_secs t) = unat (ac_index a) * unat (bucket_secs t)"
    using fits same(1) by (simp add: bucket_fits_def unat_bucket_start)
  let ?i = "unat (ac_index a)" and ?len = "unat (bucket_secs t)" and ?k = "max_buckets t"
  have secs: "unat (span_secs (rollup_tier_of t)) = ?k * ?len" by (rule span_secs_buckets)
  have len: "0 < ?len" and k: "0 < ?k" by (cases t; simp add: unat_bucket_secs)+
  have s_start: "unat (span_get s) = ?i div ?k * (?k * ?len)"
    using start len by (simp add: unat_span_of_mult secs flip: s)
  have "?i + 1 \<le> ?i div ?k * ?k + ?k"
    using k by (metis Suc_eq_plus1 Suc_leI dividend_less_div_times add.commute)
  then have "(?i + 1) * ?len \<le> (?i div ?k * ?k + ?k) * ?len" by (intro mult_le_mono1)
  also have "\<dots> = unat (span_get s) + unat (span_secs (rollup_tier_of t))"
    by (simp add: s_start secs algebra_simps)
  finally have end_le: "(?i + 1) * ?len \<le> unat (span_get s) + unat (span_secs (rollup_tier_of t))" .
  have bound: "unat (span_get s) + unat (span_secs (rollup_tier_of t)) + unat (grace_secs (rollup_tier_of t)) < unat now"
    using closed by (rule span_is_closed_bound)
  have grace: "?len < unat (grace_secs (rollup_tier_of t))"
    by (cases t) (simp_all add: unat_grace_secs unat_bucket_secs)
  have now: "unat now < 2 ^ 64" using unsigned_less [of now] by simp
  have "(?i + 1) * 1 \<le> (?i + 1) * ?len" using len by (intro mult_le_mono2) simp
  then have "?i + 1 < 2 ^ 64" using end_le bound now by simp
  then have "unat (ac_index a + 1) = ?i + 1"
    using unat_add_small [of "ac_index a" 1] by simp
  then have "unat ((ac_index a + 1) * bucket_secs t) = (?i + 1) * ?len"
    using unat_mult_small [of "ac_index a + 1" "bucket_secs t"] end_le bound now by simp
  then have "?len < unat (sat_sub now ((ac_index a + 1) * bucket_secs t))"
    using end_le bound grace by (simp add: unat_sat_sub)
  then show False
    using same(2) by (simp add: word_less_nat_alt)
qed

lemma seal_if_closed_open:
  assumes seal: "open_seal_if_closed ops opn now = (m, opn')" and closed: "span_is_closed t s now"
    and tier: "oc_tier ops (op_chunk opn) = t" and fresh: "oc_is_empty ops (oc_fresh ops (op_chunk opn))"
  shows "\<not> open_holds ops opn' s"
  using assms by (auto simp: open_seal_if_closed_def open_holds_def open_seal_def Let_def split: option.splits if_splits)

lemma swept_sealed_rollup:
  assumes ok: "rs_tier_ok t r" "bucket_fits t r" and sweep: "rs_sweep r now = (hs, r1)"
    and seal: "open_seal_if_closed rollup_ops (rs_open r1) now = (m, opn)"
    and closed: "span_is_closed (rollup_tier_of t) s now"
  shows "\<not> rs_holds_open (r1\<lparr>rs_open := opn\<rparr>) s"
proof -
  have r1: "rs_tier_ok t r1" using rs_sweep_tier [OF sweep ok(1)] by simp
  then have "\<not> open_holds rollup_ops opn s"
    by (intro seal_if_closed_open [OF seal closed])
       (simp_all add: rs_tier_ok_def rollup_ops_def rollup_is_empty_def rollup_new_def)
  moreover have "span_of (rollup_tier_of t) (ac_index a * bucket_secs t) \<noteq> s" if "rs_bucket r1 = Some a" for a
    using swept_bucket_open [OF sweep _ ok(2) closed that] ok(1) by (simp add: rs_tier_ok_def)
  ultimately show ?thesis
    using r1 by (auto simp: rs_holds_open_def rs_tier_ok_def split: option.splits)
qed

lemma swept_sealed_not_open:
  assumes ok: "tiers_ok s" "buckets_fit s" and sweep: "ss_sweep s now = (hs, s1)"
    and seal: "ss_seal_closed s1 now = (ks, s2)" and closed: "span_is_closed t sp now"
  shows "\<not> ss_holds_open s2 t sp"
proof -
  obtain h2 m h3 h where sw: "rs_sweep (ss_minute s) now = (h2, m)" "rs_sweep (ss_hour s) now = (h3, h)"
    by (metis surj_pair)
  then have s1: "s1 = s\<lparr>ss_minute := m, ss_hour := h\<rparr>"
    using sweep by (auto simp: ss_sweep_def)
  obtain x1 raw x2 mo x3 ho where se: "open_seal_if_closed raw_ops (ss_raw s) now = (x1, raw)"
    "open_seal_if_closed rollup_ops (rs_open m) now = (x2, mo)" "open_seal_if_closed rollup_ops (rs_open h) now = (x3, ho)"
    by (metis surj_pair)
  then have s2: "s2 = s\<lparr>ss_raw := raw, ss_minute := m\<lparr>rs_open := mo\<rparr>, ss_hour := h\<lparr>rs_open := ho\<rparr>\<rparr>"
    using seal s1 by (auto simp: ss_seal_closed_def)
  show ?thesis
  proof (cases t)
    case Raw
    have "\<not> open_holds raw_ops raw sp"
      using closed Raw by (intro seal_if_closed_open [OF se(1)])
        (simp_all add: raw_ops_def raw_is_empty_def raw_new_def)
    then show ?thesis by (simp add: s2 ss_holds_open_def Raw)
  next
    case Minute
    have "\<not> rs_holds_open (m\<lparr>rs_open := mo\<rparr>) sp"
      using ok closed Minute
      by (intro swept_sealed_rollup [where t = RollupMinute, OF _ _ sw(1) se(2)]) (simp_all add: tiers_ok_def buckets_fit_def)
    then show ?thesis by (simp add: s2 ss_holds_open_def Minute)
  next
    case Hour
    have "\<not> rs_holds_open (h\<lparr>rs_open := ho\<rparr>) sp"
      using ok closed Hour
      by (intro swept_sealed_rollup [where t = RollupHour, OF _ _ sw(2) se(3)]) (simp_all add: tiers_ok_def buckets_fit_def)
    then show ?thesis by (simp add: s2 ss_holds_open_def Hour)
  qed
qed


section \<open>Properties\<close>

lemma rollup_ok_buckets:
  assumes "rollup_ok t now hs r bs pts"
  shows "sealed_items (rollup_items t) hs @ rollup_buckets (op_chunk (rs_open r)) = bs"
    and "list_all2 (bucket_summary t) (bucket_groups t pts) (bs @ map acc_close (opt_list (rs_bucket r)))"
proof -
  obtain cur where hist: "rollup_history t hs (rs_open r) cur bs"
    using assms by (auto simp: rollup_ok_def)
  then show "sealed_items (rollup_items t) hs @ rollup_buckets (op_chunk (rs_open r)) = bs"
    using rollup_buckets_state [OF rollup_holds_state, of t "op_chunk (rs_open r)" cur]
    by (simp add: rollup_open.history_def)
  show "list_all2 (bucket_summary t) (bucket_groups t pts) (bs @ map acc_close (opt_list (rs_bucket r)))"
  proof (cases "rs_bucket r")
    case None
    then show ?thesis using assms by (simp add: rollup_ok_def rollup_buckets_ok_def)
  next
    case (Some a)
    obtain hs' r' where "rs_close_bucket r = (hs', r')" by (cases "rs_close_bucket r")
    from rollup_close_step(1) [OF assms Some this] Some show ?thesis by simp
  qed
qed

lemma rollup_ok_keys:
  "rollup_ok t now hs r bs pts \<Longrightarrow> distinct (map (\<lambda>h. (se_span h, se_seq h)) hs)"
proof -
  assume ok: "rollup_ok t now hs r bs pts"
  then obtain cur where hist: "rollup_history t hs (rs_open r) cur bs"
    by (auto simp: rollup_ok_def)
  then have "bs = sealed_items (rollup_items t) hs @ cur" and well: "well_sealed (rollup_tier_of t) (rollup_items t) (bucket_span t) hs"
    by (simp_all add: rollup_open.history_def)
  then have "in_span_count (bucket_span t) s (sealed_items (rollup_items t) hs) < 2 ^ 16" for s
    using rollup_ok_fits [OF ok, of s] by simp
  with well show ?thesis by (rule well_sealed_distinct)
qed

lemma raw_ok_keys:
  "raw_ok e hs s pts \<Longrightarrow> distinct (map (\<lambda>h. (se_span h, se_seq h)) hs)"
proof -
  assume ok: "raw_ok e hs s pts"
  then obtain cur where hist: "raw_history e hs (ss_raw s) cur pts" and sorted: "sorted_wrt (<) (map rp_ts pts)"
    by (auto simp: raw_ok_def)
  then have "pts = sealed_items (raw_items e) hs @ cur" and well: "well_sealed Raw (raw_items e) point_span hs"
    by (simp_all add: raw_tier.history_def)
  then have "in_span_count point_span x (sealed_items (raw_items e) hs) < 2 ^ 16" for x
    using point_span_count [OF sorted, of x] by simp
  with well show ?thesis by (rule well_sealed_distinct)
qed

lemma series_ok_keys:
  assumes "series_ok now hs s pts"
  shows "distinct (map (\<lambda>h. (se_tier h, se_span h, se_seq h)) hs)"
proof (rule distinct_by_class)
  fix t
  have "distinct (map (\<lambda>h. (se_span h, se_seq h)) (sealed_of t hs))"
  proof (cases t)
    case Raw
    then show ?thesis using assms raw_ok_keys by (auto simp: series_ok_def)
  next
    case Minute
    then show ?thesis
      using assms rollup_ok_keys by (auto simp: series_ok_def rollup_invariant_def)
  next
    case Hour
    then show ?thesis
      using assms rollup_ok_keys by (auto simp: series_ok_def rollup_invariant_def)
  qed
  then show "distinct (map (\<lambda>h. (se_span h, se_seq h)) (filter (\<lambda>h. se_tier h = t) hs))"
    by (simp add: sealed_of_def)
qed

text \<open>C5. No point is lost or reordered: whatever operations a new series goes through, the raw
  chunks it sealed, decoded in order, followed by the points it still holds unsealed, are exactly the
  points it accepted.\<close>

theorem raw_points_never_lost:
  "sealed_items (raw_items (kind_encoding k)) (sealed_of Raw (fst (series_run (ss_new k) ops)))
     @ ss_unsealed_points (snd (series_run (ss_new k) ops)) = accepted_points None ops"
proof -
  obtain hs s where run: "series_run (ss_new k) ops = (hs, s)" by (cases "series_run (ss_new k) ops")
  obtain cur where hist: "raw_history (kind_encoding k) (sealed_of Raw hs) (ss_raw s) cur (accepted_points None ops)"
    using series_run_new_raw(1) [OF run] by (auto simp: raw_ok_def)
  then have "raw_holds (kind_encoding k) (op_chunk (ss_raw s)) cur"
    by (simp add: raw_tier.history_def)
  then have "raw_points (op_chunk (ss_raw s)) = cur"
    by (intro raw_points_state raw_holds_state)
  with hist show ?thesis
    by (simp add: run ss_unsealed_points_def raw_tier.history_def)
qed

text \<open>C6. The rollup tiers are exact: when points come in hub time order, the buckets of a tier (sealed,
  unsealed and open) are, one for one and in order, the summaries of the accepted points grouped by
  bucket: count, minimum, maximum, and mean rounded half away from zero.\<close>

theorem rollup_tiers_exact:
  assumes "well_timed 0 ops"
  shows "let (hs, s) = series_run (ss_new k) ops in
    list_all2 (bucket_summary t) (bucket_groups t (accepted_points None ops))
      (sealed_items (rollup_items t) (sealed_of (rollup_tier_of t) hs) @ ss_unsealed_buckets s t
        @ map acc_close (opt_list (rs_bucket (ss_rollup s t))))"
proof -
  obtain hs s where run: "series_run (ss_new k) ops = (hs, s)" by (cases "series_run (ss_new k) ops")
  obtain now where "series_ok now hs s (accepted_points None ops)"
    using run assms by (rule series_run_new_ok)
  then obtain bs where ok: "rollup_ok t now (sealed_of (rollup_tier_of t) hs) (ss_rollup s t) bs (accepted_points None ops)"
    by (cases t) (auto simp: series_ok_def rollup_invariant_def)
  have "ss_unsealed_buckets s t = rollup_buckets (op_chunk (rs_open (ss_rollup s t)))"
    by (cases t) (simp_all add: ss_unsealed_buckets_def ss_rollup_def)
  then show ?thesis
    using rollup_ok_buckets [OF ok] by (simp add: run flip: append_assoc)
qed

text \<open>C9. The writer can insert every sealed chunk under its key: no two chunks a series seals have the
  same tier, span and sequence number.\<close>

theorem sealed_keys_distinct:
  assumes "well_timed 0 ops"
  shows "distinct (map (\<lambda>h. (se_tier h, se_span h, se_seq h)) (fst (series_run (ss_new k) ops)))"
proof -
  obtain hs s where run: "series_run (ss_new k) ops = (hs, s)" by (cases "series_run (ss_new k) ops")
  obtain now where "series_ok now hs s (accepted_points None ops)"
    using run assms by (rule series_run_new_ok)
  then show ?thesis using series_ok_keys by (simp add: run)
qed

text \<open>A closed span is whole in the sealed chunks: after any operations, a sweep and a
  \<open>seal_closed\<close> at the same hub time leave nothing of a span closed at that time open, in any tier.\<close>

theorem closed_span_not_held_open:
  assumes "span_is_closed t sp now"
  shows "\<not> ss_holds_open (snd (series_run (ss_new k) (ops @ [OpSweep now, OpSealClosed now]))) t sp"
proof -
  have append: "series_run s (xs @ ys) = (case series_run s xs of (hs, s) \<Rightarrow> case series_run s ys of (ks, s) \<Rightarrow> (hs @ ks, s))"
    for s xs ys by (induction xs arbitrary: s) (simp_all split: prod.splits)
  obtain hs s where run: "series_run (ss_new k) ops = (hs, s)" by (cases "series_run (ss_new k) ops")
  have "buckets_fit (ss_new k)"
    by (simp add: buckets_fit_def bucket_fits_def ss_new_def rs_new_def)
  then have ok: "tiers_ok s" "buckets_fit s"
    using series_run_fits [OF run tiers_ok_new] by simp_all
  obtain h1 s1 h2 s2 where steps: "ss_sweep s now = (h1, s1)" "ss_seal_closed s1 now = (h2, s2)"
    by (metis surj_pair)
  then have "snd (series_run (ss_new k) (ops @ [OpSweep now, OpSealClosed now])) = s2"
    by (simp add: append run series_step_def)
  then show ?thesis
    using swept_sealed_not_open [OF ok steps assms] by simp
qed

theorem rollup_tiers_exact_witness:
  "well_timed 0 [OpAppend 10 (Scaled 5), OpSweep 200, OpAppend 200 (Scaled 8)]
   \<and> (let (hs, s) = series_run (ss_new Count) [OpAppend 10 (Scaled 5), OpSweep 200, OpAppend 200 (Scaled 8)] in
    list_all2 (bucket_summary RollupMinute) [[\<lparr>rp_ts = 10, rp_value = 5\<rparr>], [\<lparr>rp_ts = 200, rp_value = 8\<rparr>]]
      (sealed_items (rollup_items RollupMinute) (sealed_of Minute hs) @ ss_unsealed_buckets s RollupMinute
        @ map acc_close (opt_list (rs_bucket (ss_rollup s RollupMinute)))))"
proof -
  let ?ops = "[OpAppend 10 (Scaled 5), OpSweep 200, OpAppend 200 (Scaled 8)]"
  have timed: "well_timed 0 ?ops" by simp
  have "bucket_groups RollupMinute (accepted_points None ?ops)
      = [[\<lparr>rp_ts = 10, rp_value = 5\<rparr>], [\<lparr>rp_ts = 200, rp_value = 8\<rparr>]]"
    by (simp add: point_index_def bucket_secs_def)
  then show ?thesis
    using timed rollup_tiers_exact [OF timed, of Count RollupMinute] by (simp only: rollup_tier_of_simps simp_thms)
qed

theorem sealed_keys_distinct_witness:
  "well_timed 0 [OpAppend 10 (Scaled 5), OpAppend 4000 (Scaled 8)]
   \<and> distinct (map (\<lambda>h. (se_tier h, se_span h, se_seq h))
        (fst (series_run (ss_new Count) [OpAppend 10 (Scaled 5), OpAppend 4000 (Scaled 8)])))"
proof
  show timed: "well_timed 0 [OpAppend 10 (Scaled 5), OpAppend 4000 (Scaled 8)]" by simp
  show "distinct (map (\<lambda>h. (se_tier h, se_span h, se_seq h))
      (fst (series_run (ss_new Count) [OpAppend 10 (Scaled 5), OpAppend 4000 (Scaled 8)])))"
    by (rule sealed_keys_distinct [OF timed])
qed

theorem closed_span_not_held_open_witness:
  "span_is_closed Minute (SpanStart 0) 3721
   \<and> \<not> ss_holds_open (snd (series_run (ss_new Count) ([OpAppend 10 (Scaled 5)] @ [OpSweep 3721, OpSealClosed 3721]))) Minute (SpanStart 0)"
proof
  show closed: "span_is_closed Minute (SpanStart 0) 3721"
    by (simp add: span_is_closed_def span_end_def span_secs_def grace_secs_def SWEEP_SECS_def sat_add_def)
  show "\<not> ss_holds_open (snd (series_run (ss_new Count)
      ([OpAppend 10 (Scaled 5)] @ [OpSweep 3721, OpSealClosed 3721]))) Minute (SpanStart 0)"
    by (rule closed_span_not_held_open [OF closed])
qed

end
