(* ===== verification/Bytes_Reader.thy ===== *)
theory Bytes_Reader
  imports Prelude
begin

text \<open>
  The cursor over the store's persisted values (\<open>system-hub/hub-store/src/bytes.rs\<close>): big-endian
  fields of fixed width, fields with a two-byte length, and the check that nothing is left.  A
  reader is the bytes it has left.  Each field's lemma says that a reader standing before the
  written field reads it back and stands after it, and that what a reader accepted is the field's
  only encoding.
\<close>

datatype short = Short

type_synonym reader = bytes

definition rd_array :: "nat \<Rightarrow> reader \<Rightarrow> short + bytes \<times> reader" where
  "rd_array n r = (if n \<le> length r then Inr (take n r, drop n r) else Inl Short)"

definition rd_u8 :: "reader \<Rightarrow> short + u8 \<times> reader" where
  "rd_u8 r = rbind (rd_array 1 r) (\<lambda>(bs, r). Inr (bs ! 0, r))"

definition rd_u16 :: "reader \<Rightarrow> short + u16 \<times> reader" where
  "rd_u16 r = rbind (rd_array 2 r) (\<lambda>(bs, r). Inr (from_be_bytes bs, r))"

definition rd_u32 :: "reader \<Rightarrow> short + u32 \<times> reader" where
  "rd_u32 r = rbind (rd_array 4 r) (\<lambda>(bs, r). Inr (from_be_bytes bs, r))"

definition rd_u64 :: "reader \<Rightarrow> short + u64 \<times> reader" where
  "rd_u64 r = rbind (rd_array 8 r) (\<lambda>(bs, r). Inr (from_be_bytes bs, r))"

definition rd_i64 :: "reader \<Rightarrow> short + i64 \<times> reader" where
  "rd_i64 r = rbind (rd_array 8 r) (\<lambda>(bs, r). Inr (from_be_bytes bs, r))"

definition rd_i128 :: "reader \<Rightarrow> short + i128 \<times> reader" where
  "rd_i128 r = rbind (rd_array 16 r) (\<lambda>(bs, r). Inr (from_be_bytes bs, r))"

definition rd_bytes :: "nat \<Rightarrow> reader \<Rightarrow> short + bytes \<times> reader" where
  "rd_bytes n r = (if n \<le> length r then Inr (take n r, drop n r) else Inl Short)"

definition rd_u16_prefixed :: "reader \<Rightarrow> short + bytes \<times> reader" where
  "rd_u16_prefixed r = rbind (rd_u16 r) (\<lambda>(n, r). rd_bytes (unat n) r)"

definition rd_finish :: "reader \<Rightarrow> short + unit" where
  "rd_finish r = (if r = [] then Inr () else Inl Short)"

definition put_u16_prefixed :: "bytes \<Rightarrow> bytes \<Rightarrow> bytes" where
  "put_u16_prefixed out bs = out @ to_be_bytes 2 (of_nat (length bs) :: u16) @ bs"

section \<open>Fields read back\<close>

named_theorems field_simps \<open>a reader standing before a written field\<close>

lemma rd_array_append [field_simps]: "length bs = n \<Longrightarrow> rd_array n (bs @ r) = Inr (bs, r)"
  by (simp add: rd_array_def)

lemma rd_u8_Cons [field_simps]: "rd_u8 (b # r) = Inr (b, r)"
  by (simp add: rd_u8_def rd_array_def)

lemma rd_words [field_simps]:
  "rd_u16 (to_be_bytes 2 a @ r) = Inr (a, r)"
  "rd_u32 (to_be_bytes 4 b @ r) = Inr (b, r)"
  "rd_u64 (to_be_bytes 8 c @ r) = Inr (c, r)"
  "rd_i64 (to_be_bytes 8 d @ r) = Inr (d, r)"
  "rd_i128 (to_be_bytes 16 e @ r) = Inr (e, r)"
  by (simp_all add: rd_u16_def rd_u32_def rd_u64_def rd_i64_def rd_i128_def rd_array_append)

lemma rd_words_end [field_simps]:
  "rd_u16 (to_be_bytes 2 a) = Inr (a, [])"
  "rd_u32 (to_be_bytes 4 b) = Inr (b, [])"
  "rd_u64 (to_be_bytes 8 c) = Inr (c, [])"
  "rd_i64 (to_be_bytes 8 d) = Inr (d, [])"
  using rd_words [of _ "[]"] by simp_all

lemma rd_bytes_append [field_simps]: "length bs = n \<Longrightarrow> rd_bytes n (bs @ r) = Inr (bs, r)"
  by (simp add: rd_bytes_def)

lemma rd_u16_prefixed_put [field_simps]:
  "length bs < 2 ^ 16 \<Longrightarrow> rd_u16_prefixed (put_u16_prefixed [] bs @ r) = Inr (bs, r)"
  by (simp add: rd_u16_prefixed_def put_u16_prefixed_def rd_words rd_bytes_append unat_of_nat_small)

lemma put_u16_prefixed_append: "put_u16_prefixed out bs = out @ put_u16_prefixed [] bs"
  by (simp add: put_u16_prefixed_def)

section \<open>What a reader accepted\<close>

lemma rd_array_Inr: "rd_array n r = Inr (bs, r') \<longleftrightarrow> length bs = n \<and> r = bs @ r'"
  by (auto simp: rd_array_def)

lemma rd_u8_Inr: "rd_u8 r = Inr (b, r') \<longleftrightarrow> r = b # r'"
  by (cases r) (auto simp: rd_u8_def rd_array_def)

lemma rd_bytes_Inr: "rd_bytes n r = Inr (bs, r') \<longleftrightarrow> length bs = n \<and> r = bs @ r'"
  by (auto simp: rd_bytes_def)

lemma rd_word_Inr:
  assumes "8 * n = LENGTH('a)"
  shows "rbind (rd_array n r) (\<lambda>(bs, r). Inr (from_be_bytes bs :: 'a::len word, r)) = Inr (w, r')
    \<longleftrightarrow> r = to_be_bytes n w @ r'"
proof
  show "r = to_be_bytes n w @ r'"
    if read: "rbind (rd_array n r) (\<lambda>(bs, r). Inr (from_be_bytes bs :: 'a word, r)) = Inr (w, r')"
  proof -
    obtain bs where bs: "length bs = n" "r = bs @ r'" "w = from_be_bytes bs"
      using read by (auto simp: result_simps rd_array_Inr)
    then show ?thesis using to_from_be_bytes [of bs, where 'a = 'a] assms by simp
  qed
  show "rbind (rd_array n r) (\<lambda>(bs, r). Inr (from_be_bytes bs :: 'a word, r)) = Inr (w, r')"
    if "r = to_be_bytes n w @ r'"
    using that assms by (simp add: rd_array_append)
qed

lemma rd_words_Inr:
  "rd_u16 r = Inr (a, r') \<longleftrightarrow> r = to_be_bytes 2 a @ r'"
  "rd_u32 r = Inr (b, r') \<longleftrightarrow> r = to_be_bytes 4 b @ r'"
  "rd_u64 r = Inr (c, r') \<longleftrightarrow> r = to_be_bytes 8 c @ r'"
  "rd_i64 r = Inr (d, r') \<longleftrightarrow> r = to_be_bytes 8 d @ r'"
  "rd_i128 r = Inr (e, r') \<longleftrightarrow> r = to_be_bytes 16 e @ r'"
  by (simp_all add: rd_u16_def rd_u32_def rd_u64_def rd_i64_def rd_i128_def rd_word_Inr)

lemma rd_u16_prefixed_Inr:
  "rd_u16_prefixed r = Inr (bs, r') \<longleftrightarrow> length bs < 2 ^ 16 \<and> r = put_u16_prefixed [] bs @ r'"
proof
  show "length bs < 2 ^ 16 \<and> r = put_u16_prefixed [] bs @ r'" if read: "rd_u16_prefixed r = Inr (bs, r')"
  proof -
    obtain n where n: "r = to_be_bytes 2 n @ bs @ r'" "length bs = unat (n :: u16)"
      using read by (auto simp: rd_u16_prefixed_def result_simps rd_words_Inr rd_bytes_Inr)
    have "unat n < 2 ^ 16" using unsigned_less [of n] by simp
    with n show ?thesis by (simp add: put_u16_prefixed_def)
  qed
qed (simp add: rd_u16_prefixed_put)

lemma rd_finish_Inr: "rd_finish r = Inr u \<longleftrightarrow> r = []"
  by (simp add: rd_finish_def)

lemmas read_Inr = rd_u8_Inr rd_words_Inr rd_bytes_Inr rd_u16_prefixed_Inr rd_finish_Inr

end
