(* ===== verification/Series_Tail.thy ===== *)
theory Series_Tail
  imports Series_History Bytes_Reader
begin

text \<open>
  A series' tail (\<open>system-hub/hub-store/src/state/tail.rs\<close>): its state in the head as persisted.
  Every state a series reaches in hub time order reopens from its tail as it was, so a restart loses
  nothing; bytes that are no tail, or a tail whose parts contradict each other, are refused.
\<close>

datatype tail_error = TailUnknownVersion u8 | TailMalformed | TailOutOfDomain

definition TAIL_V1 :: u8 where
  "TAIL_V1 = 1"

text \<open>\<open>From<Short> for TailError\<close>, applied by every \<open>?\<close> on a reader.\<close>

abbreviation tail_field :: "short + 'a \<Rightarrow> tail_error + 'a" where
  "tail_field m \<equiv> map_err (\<lambda>_. TailMalformed) m"

section \<open>Writing\<close>

definition put_optional_u64 :: "u64 option \<Rightarrow> bytes" where
  "put_optional_u64 m = (case m of None \<Rightarrow> [0] | Some v \<Rightarrow> 1 # to_be_bytes 8 v)"

definition put_open :: "('c, 'i) open_chunk_ops \<Rightarrow> 'c open_tier \<Rightarrow> bytes" where
  "put_open ops opn =
     put_optional_u64 (map_option span_get (op_span opn)) @ to_be_bytes 2 (op_next_seq opn)
       @ put_u16_prefixed []
           (if oc_is_empty ops (op_chunk opn) then [] else oc_encode ops (op_chunk opn))"

definition put_bucket :: "accumulator option \<Rightarrow> bytes" where
  "put_bucket m = (case map_option acc_to_row m of
       None \<Rightarrow> [0]
     | Some row \<Rightarrow> 1 # to_be_bytes 8 (ar_index row) @ to_be_bytes 16 (ar_sum row) @ to_be_bytes 4 (ar_count row)
         @ to_be_bytes 8 (ar_min row) @ to_be_bytes 8 (ar_max row))"

definition ss_to_tail :: "series_state \<Rightarrow> bytes" where
  "ss_to_tail s =
     [TAIL_V1, kind_code (ss_kind s)] @ put_optional_u64 (ss_last_ts s) @ put_open raw_ops (ss_raw s)
       @ put_open rollup_ops (rs_open (ss_minute s)) @ put_open rollup_ops (rs_open (ss_hour s))
       @ put_bucket (rs_bucket (ss_minute s)) @ put_bucket (rs_bucket (ss_hour s))"

section \<open>Reading\<close>

definition read_optional_u64 :: "reader \<Rightarrow> tail_error + u64 option \<times> reader" where
  "read_optional_u64 r =
     rbind (tail_field (rd_u8 r)) (\<lambda>(b, r).
       if b = 0 then Inr (None, r)
       else if b = 1 then rbind (tail_field (rd_u64 r)) (\<lambda>(v, r). Inr (Some v, r))
       else Inl TailMalformed)"

definition read_open :: "reader \<Rightarrow> tier \<Rightarrow> 'c \<Rightarrow> (bytes \<Rightarrow> 'c option) \<Rightarrow> tail_error + 'c open_tier \<times> reader" where
  "read_open r t blank reopen =
     rbind (read_optional_u64 r) (\<lambda>(m, r).
     rbind (case m of None \<Rightarrow> Inr None
            | Some start \<Rightarrow> rbind (ok_or TailMalformed (span_new t start)) (\<lambda>s. Inr (Some s))) (\<lambda>sp.
     rbind (tail_field (rd_u16 r)) (\<lambda>(next_seq, r).
     rbind (tail_field (rd_u16_prefixed r)) (\<lambda>(bs, r).
     rbind (if bs = [] then Inr blank else ok_or TailMalformed (reopen bs)) (\<lambda>chunk.
       Inr (\<lparr>op_chunk = chunk, op_span = sp, op_next_seq = next_seq\<rparr>, r))))))"

definition read_bucket :: "reader \<Rightarrow> tail_error + accumulator option \<times> reader" where
  "read_bucket r =
     rbind (tail_field (rd_u8 r)) (\<lambda>(b, r).
       if b = 0 then Inr (None, r)
       else if b = 1 then
         rbind (tail_field (rd_u64 r)) (\<lambda>(index, r).
         rbind (tail_field (rd_i128 r)) (\<lambda>(s, r).
         rbind (tail_field (rd_u32 r)) (\<lambda>(count, r).
         rbind (tail_field (rd_i64 r)) (\<lambda>(mn, r).
         rbind (tail_field (rd_i64 r)) (\<lambda>(mx, r).
         rbind (map_err (\<lambda>_. TailMalformed)
             (acc_try_from \<lparr>ar_index = index, ar_sum = s, ar_count = count, ar_min = mn, ar_max = mx\<rparr>)) (\<lambda>a.
           Inr (Some a, r)))))))
       else Inl TailMalformed)"

section \<open>The checks on a whole tail\<close>

definition tail_in_span :: "tier \<Rightarrow> span_start option \<Rightarrow> u64 list \<Rightarrow> bool" where
  "tail_in_span t sp tms \<longleftrightarrow> tms = []
     \<or> (case sp of None \<Rightarrow> False | Some s \<Rightarrow> list_all (\<lambda>x. span_of t x = s) tms)"

text \<open>One rollup tier's part of \<open>check_coherence\<close>: the starts of its closed buckets, whether they fit
  their span and come before the open bucket, and the times it adds.\<close>

definition rs_closed_starts :: "rollup_state_rec \<Rightarrow> u64 list" where
  "rs_closed_starts r = map (\<lambda>b. bk_index b * bucket_secs (rs_tier r)) (rollup_buckets (op_chunk (rs_open r)))"

definition rs_coherent :: "rollup_state_rec \<Rightarrow> bool" where
  "rs_coherent r \<longleftrightarrow>
     tail_in_span (rollup_tier_of (rs_tier r)) (op_span (rs_open r)) (rs_closed_starts r)
     \<and> (case rs_bucket r of None \<Rightarrow> True
        | Some a \<Rightarrow> rs_closed_starts r = [] \<or> last (rs_closed_starts r) < ac_index a * bucket_secs (rs_tier r))"

definition rs_times :: "rollup_state_rec \<Rightarrow> u64 list" where
  "rs_times r = (case rs_bucket r of None \<Rightarrow> [] | Some a \<Rightarrow> [ac_index a * bucket_secs (rs_tier r)]) @ rs_closed_starts r"

definition check_coherence :: "series_state \<Rightarrow> tail_error + unit" where
  "check_coherence s =
     (let raw = map rp_ts (raw_points (op_chunk (ss_raw s)));
          tms = raw @ rs_times (ss_minute s) @ rs_times (ss_hour s);
          coherent = tail_in_span Raw (op_span (ss_raw s)) raw \<and> rs_coherent (ss_minute s) \<and> rs_coherent (ss_hour s)
            \<and> (case ss_last_ts s of None \<Rightarrow> tms = [] | Some l \<Rightarrow> list_all (\<lambda>t. t \<le> l) tms)
      in if coherent then Inr () else Inl TailMalformed)"

definition check_domain :: "series_state \<Rightarrow> tail_error + unit" where
  "check_domain s =
     (let points = map rp_value (raw_points (op_chunk (ss_raw s)));
          buckets = concat (map (\<lambda>b. [bk_min b, bk_avg b, bk_max b])
            (ss_unsealed_buckets s RollupMinute @ ss_unsealed_buckets s RollupHour));
          opens = concat (map (\<lambda>a. let row = acc_to_row a in [ar_min row, ar_max row])
            (opt_list (rs_bucket (ss_minute s)) @ opt_list (rs_bucket (ss_hour s))))
      in if list_all (\<lambda>v. is_ok (check_scaled (ss_kind s) v)) (points @ buckets @ opens) then Inr ()
         else Inl TailOutOfDomain)"

definition ss_from_tail :: "bytes \<Rightarrow> tail_error + series_state" where
  "ss_from_tail bs =
     rbind (tail_field (rd_u8 bs)) (\<lambda>(version, r).
     if version \<noteq> TAIL_V1 then Inl (TailUnknownVersion version)
     else rbind (tail_field (rd_u8 r)) (\<lambda>(code, r).
     rbind (ok_or TailMalformed (kind_from_code code)) (\<lambda>kind.
     rbind (read_optional_u64 r) (\<lambda>(last_ts, r).
     rbind (read_open r Raw (raw_new (kind_encoding kind)) (\<lambda>b. ok (raw_reopen b (kind_encoding kind)))) (\<lambda>(raw, r).
     rbind (read_open r Minute (rollup_new RollupMinute) (\<lambda>b. ok (rollup_reopen b RollupMinute))) (\<lambda>(minute, r).
     rbind (read_open r Hour (rollup_new RollupHour) (\<lambda>b. ok (rollup_reopen b RollupHour))) (\<lambda>(hour, r).
     rbind (read_bucket r) (\<lambda>(mb, r).
     rbind (read_bucket r) (\<lambda>(hb, r).
     rbind (tail_field (rd_finish r)) (\<lambda>_.
       let state = \<lparr>ss_kind = kind, ss_last_ts = last_ts, ss_raw = raw,
             ss_minute = \<lparr>rs_tier = RollupMinute, rs_bucket = mb, rs_open = minute\<rparr>,
             ss_hour = \<lparr>rs_tier = RollupHour, rs_bucket = hb, rs_open = hour\<rparr>\<rparr>
       in rbind (check_domain state) (\<lambda>_. rbind (check_coherence state) (\<lambda>_. Inr state))))))))))))"

section \<open>Each part reads back\<close>

lemma read_optional_u64_put [field_simps]: "read_optional_u64 (put_optional_u64 m @ r) = Inr (m, r)"
  by (cases m) (simp_all add: read_optional_u64_def put_optional_u64_def field_simps)

lemma read_bucket_put:
  assumes "\<And>a. m = Some a \<Longrightarrow> \<exists>i vs. acc_rep a i vs"
  shows "read_bucket (put_bucket m @ r) = Inr (m, r)"
proof (cases m)
  case None
  then show ?thesis by (simp add: read_bucket_def put_bucket_def field_simps)
next
  case (Some a)
  obtain i vs where rep: "acc_rep a i vs" using assms Some by blast
  have row: "\<lparr>ar_index = ar_index (acc_to_row a), ar_sum = ar_sum (acc_to_row a), ar_count = ar_count (acc_to_row a),
      ar_min = ar_min (acc_to_row a), ar_max = ar_max (acc_to_row a)\<rparr> = acc_to_row a" by simp
  show ?thesis
    using Some acc_try_from_row [OF rep] by (simp add: read_bucket_def put_bucket_def field_simps row)
qed

lemma read_open_put:
  assumes "case op_span opn of None \<Rightarrow> True | Some s \<Rightarrow> span_on_grid t s"
    and "oc_is_empty ops (op_chunk opn) \<Longrightarrow> op_chunk opn = blank"
    and "\<not> oc_is_empty ops (op_chunk opn) \<Longrightarrow> oc_encode ops (op_chunk opn) \<noteq> []
      \<and> length (oc_encode ops (op_chunk opn)) < 2 ^ 16 \<and> reopen (oc_encode ops (op_chunk opn)) = Some (op_chunk opn)"
  shows "read_open (put_open ops opn @ r) t blank reopen = Inr (opn, r)"
  using assms
  by (cases "op_span opn"; cases "oc_is_empty ops (op_chunk opn)")
     (simp_all add: read_open_def put_open_def field_simps span_new_get put_u16_prefixed_def [of "[]" "[]"]
        rd_u16_prefixed_put [of "[]", simplified put_u16_prefixed_def, simplified])


section \<open>A reached state reads back\<close>

lemma raw_open_reads_back:
  assumes "raw_history e hs opn cur pts"
  shows "read_open (put_open raw_ops opn @ r) Raw (raw_new e) (\<lambda>b. ok (raw_reopen b e)) = Inr (opn, r)"
proof (rule read_open_put)
  have holds: "raw_holds e (op_chunk opn) cur"
    using assms by (simp add: raw_tier.history_def)
  note empty = raw_tier.is_empty [OF holds]
  show "case op_span opn of None \<Rightarrow> True | Some s \<Rightarrow> span_on_grid Raw s"
    using assms by (auto simp: raw_tier.history_def point_span_def)
  show "op_chunk opn = raw_new e" if "oc_is_empty raw_ops (op_chunk opn)"
    using that empty holds raw_tier.empty_new by simp
  show "oc_encode raw_ops (op_chunk opn) \<noteq> [] \<and> length (oc_encode raw_ops (op_chunk opn)) < 2 ^ 16
      \<and> ok (raw_reopen (oc_encode raw_ops (op_chunk opn)) e) = Some (op_chunk opn)"
    if nonempty: "\<not> oc_is_empty raw_ops (op_chunk opn)"
  proof -
    obtain p qs where cur: "cur = p # qs" using nonempty empty by (cases cur) auto
    note state = raw_holds_state [OF holds, unfolded cur]
    have "raw_encode (op_chunk opn) \<noteq> []"
      using raw_encode_state [OF state] by simp
    moreover have "raw_reopen (raw_encode (op_chunk opn)) e = Inr (op_chunk opn)"
      using raw_reopen_state [OF holds [unfolded raw_holds_def]] cur by simp
    ultimately show ?thesis
      using raw_encoded_len_state [OF state] by (simp add: raw_ops_def MAX_RAW_CHUNK_BYTES_def)
  qed
qed

lemma rollup_open_reads_back:
  assumes "rollup_history t hs opn cur bs"
  shows "read_open (put_open rollup_ops opn @ r) (rollup_tier_of t) (rollup_new t) (\<lambda>b. ok (rollup_reopen b t)) = Inr (opn, r)"
proof (rule read_open_put)
  have holds: "rollup_holds t (op_chunk opn) cur"
    using assms by (simp add: rollup_open.history_def)
  note empty = rollup_open.is_empty [OF holds]
  show "case op_span opn of None \<Rightarrow> True | Some s \<Rightarrow> span_on_grid (rollup_tier_of t) s"
    using assms by (auto simp: rollup_open.history_def bucket_span_def)
  show "op_chunk opn = rollup_new t" if "oc_is_empty rollup_ops (op_chunk opn)"
    using that empty holds rollup_open.empty_new by simp
  show "oc_encode rollup_ops (op_chunk opn) \<noteq> [] \<and> length (oc_encode rollup_ops (op_chunk opn)) < 2 ^ 16
      \<and> ok (rollup_reopen (oc_encode rollup_ops (op_chunk opn)) t) = Some (op_chunk opn)"
    if nonempty: "\<not> oc_is_empty rollup_ops (op_chunk opn)"
  proof -
    obtain b cs where cur: "cur = b # cs" using nonempty empty by (cases cur) auto
    note state = rollup_holds_state [OF holds]
    have "rollup_encode (op_chunk opn) \<noteq> []"
      using rollup_encode_state [OF state [unfolded cur]] by simp
    moreover have "rollup_reopen (rollup_encode (op_chunk opn)) t = Inr (op_chunk opn)"
      using rollup_reopen_state [OF holds [unfolded rollup_holds_def]] cur by simp
    ultimately show ?thesis
      using rollup_encoded_len_state [OF state] rollup_encoded_len_le [OF state] by (simp add: rollup_ops_def)
  qed
qed

text \<open>A bucket starts no later than its points, so no later than the last point.\<close>

lemma bucket_start_le: "point_index t p * bucket_secs t \<le> rp_ts p"
proof -
  have "unat (point_index t p * bucket_secs t) = unat (rp_ts p) div unat (bucket_secs t) * unat (bucket_secs t)"
    by (simp add: unat_bucket_start index_fits_point unat_point_index)
  then show ?thesis by (simp add: word_le_nat_alt)
qed

lemma summary_start_le:
  assumes "bucket_summary t g b" and "set g \<subseteq> set pts" and "sorted_wrt (<) (map rp_ts pts)"
  shows "bk_index b * bucket_secs t \<le> rp_ts (last pts)"
proof -
  obtain p where p: "p \<in> set g" "point_index t p = bk_index b"
    using assms(1) by (cases g) (auto simp: bucket_summary_def)
  have "rp_ts p \<le> rp_ts (last pts)"
    using assms(2,3) p(1) by (intro sorted_map_last strict_sorted_imp_sorted) auto
  with bucket_start_le [of t p] p(2) show ?thesis by simp
qed

lemma rollup_ok_parts:
  assumes "rollup_ok t now hs r bs pts"
  obtains cur where "rollup_history t hs (rs_open r) cur bs" and "rollup_buckets (op_chunk (rs_open r)) = cur"
    and "set cur \<subseteq> set bs" and "cur = [] \<or> last cur = last bs"
proof -
  obtain cur where hist: "rollup_history t hs (rs_open r) cur bs"
    using assms by (auto simp: rollup_ok_def)
  then have "bs = sealed_items (rollup_items t) hs @ cur" and holds: "rollup_holds t (op_chunk (rs_open r)) cur"
    by (simp_all add: rollup_open.history_def)
  then have "set cur \<subseteq> set bs" and "cur = [] \<or> last cur = last bs" by (cases "cur = []"; simp)+
  with hist that rollup_buckets_state [OF rollup_holds_state [OF holds]] show ?thesis by blast
qed

lemma rollup_ok_summaries:
  assumes "rollup_ok t now hs r bs pts" and "b \<in> set bs"
  obtains g where "bucket_summary t g b" and "set g \<subseteq> set pts"
proof -
  have "list_all2 (bucket_summary t) (bucket_groups t pts) (bs @ map acc_close (opt_list (rs_bucket r)))"
    using assms(1) by (rule rollup_ok_buckets)
  then obtain g where "g \<in> set (bucket_groups t pts)" and "bucket_summary t g b"
    using assms(2) by (metis Un_iff in_set_conv_nth list_all2_conv_all_nth set_append)
  moreover from \<open>g \<in> set (bucket_groups t pts)\<close> have "set g \<subseteq> set (concat (bucket_groups t pts))"
    unfolding set_concat by blast
  ultimately show ?thesis using that by simp
qed

lemma rollup_ok_coherent:
  assumes ok: "rollup_ok t now hs r bs pts"
  shows "rs_coherent r"
proof -
  have t: "rs_tier r = t" and sorted: "sorted_wrt (<) (map rp_ts pts)"
    using ok by (simp_all add: rollup_ok_def)
  obtain cur where hist: "rollup_history t hs (rs_open r) cur bs" and cur: "rollup_buckets (op_chunk (rs_open r)) = cur"
    and sub: "set cur \<subseteq> set bs" and last_cur: "cur = [] \<or> last cur = last bs"
    using ok by (rule rollup_ok_parts)
  have spans: "tail_in_span (rollup_tier_of t) (op_span (rs_open r)) (rs_closed_starts r)"
    using hist sub by (auto simp: rollup_open.history_def tail_in_span_def rs_closed_starts_def cur t list_all_iff bucket_span_def)
  have "last (rs_closed_starts r) < ac_index a * bucket_secs t"
    if a: "rs_bucket r = Some a" and ne: "rs_closed_starts r \<noteq> []" for a
  proof -
    have "cur \<noteq> []" using ne by (simp add: rs_closed_starts_def cur)
    then have last_start: "last (rs_closed_starts r) = bk_index (last bs) * bucket_secs t" and bs: "bs \<noteq> []"
      using last_cur sub by (auto simp: rs_closed_starts_def cur t last_map)
    obtain hs' r' where "rs_close_bucket r = (hs', r')" by (cases "rs_close_bucket r")
    from rollup_close_step(1) [OF ok a this]
    have all: "list_all2 (bucket_summary t) (bucket_groups t pts) (bs @ [acc_close a])" .
    have heads: "map bk_index (bs @ [acc_close a]) = map (\<lambda>g. point_index t (hd g)) (bucket_groups t pts)"
      using all by (rule bucket_summary_index)
    then have "sorted_wrt (<) (map bk_index (bs @ [acc_close a]))"
      using bucket_groups_sorted [OF sorted, of t] by simp
    moreover have index: "bk_index (acc_close a) = ac_index a" by (simp add: acc_close_def Let_def)
    ultimately have "bk_index (last bs) < ac_index a"
      using bs by (simp add: sorted_wrt_append)
    moreover have "index_fits t (bk_index b)" if "b \<in> set (bs @ [acc_close a])" for b
      using group_heads_fit [OF heads that] .
    from this [of "last bs"] this [of "acc_close a"]
    have "index_fits t (bk_index (last bs))" and "index_fits t (ac_index a)"
      using bs by (simp_all add: index)
    ultimately show ?thesis
      by (simp add: last_start word_less_nat_alt unat_bucket_start unat_bucket_secs)
  qed
  then show ?thesis
    using spans by (auto simp: rs_coherent_def t split: option.splits)
qed

lemma rollup_ok_times:
  assumes ok: "rollup_ok t now hs r bs pts" and x: "x \<in> set (rs_times r)"
  shows "pts \<noteq> [] \<and> x \<le> rp_ts (last pts)"
proof -
  have t: "rs_tier r = t" and sorted: "sorted_wrt (<) (map rp_ts pts)"
    using ok by (simp_all add: rollup_ok_def)
  obtain cur where cur: "rollup_buckets (op_chunk (rs_open r)) = cur" and sub: "set cur \<subseteq> set bs"
    using ok by (rule rollup_ok_parts)
  consider (open_bucket) a where "rs_bucket r = Some a" "x = ac_index a * bucket_secs t"
    | (closed) b where "b \<in> set bs" "x = bk_index b * bucket_secs t"
    using x sub by (cases "rs_bucket r") (auto simp: rs_times_def rs_closed_starts_def cur t)
  then show ?thesis
  proof cases
    case (open_bucket a)
    then have "pts \<noteq> []" and "ac_index a = point_index t (last pts)"
      using ok by (auto simp: rollup_ok_def rollup_buckets_ok_def acc_rep_def)
    with open_bucket bucket_start_le show ?thesis by simp
  next
    case (closed b)
    obtain g where g: "bucket_summary t g b" "set g \<subseteq> set pts"
      using ok closed(1) by (rule rollup_ok_summaries)
    then have "pts \<noteq> []" by (auto simp: bucket_summary_def)
    with summary_start_le [OF g sorted] closed(2) show ?thesis by simp
  qed
qed

section \<open>Values in the domain\<close>

definition value_ok :: "value_kind \<Rightarrow> i64 \<Rightarrow> bool" where
  "value_ok k v \<longleftrightarrow> 0 \<le> sint v \<and> sint v \<le> sint (max_scaled k)"

lemma is_ok_check_scaled: "is_ok (check_scaled k v) \<longleftrightarrow> value_ok k v"
  by (simp add: check_scaled_def value_ok_def)

lemma rollup_ok_values:
  assumes ok: "rollup_ok t now hs r bs pts" and pts: "\<forall>p\<in>set pts. value_ok k (rp_value p)"
  shows "b \<in> set bs \<Longrightarrow> value_ok k (bk_min b) \<and> value_ok k (bk_avg b) \<and> value_ok k (bk_max b)"
    and "rs_bucket r = Some a \<Longrightarrow> value_ok k (ac_min a) \<and> value_ok k (ac_max a)"
proof -
  show "value_ok k (bk_min b) \<and> value_ok k (bk_avg b) \<and> value_ok k (bk_max b)" if "b \<in> set bs"
  proof -
    obtain g where g: "bucket_summary t g b" "set g \<subseteq> set pts"
      using ok \<open>b \<in> set bs\<close> by (rule rollup_ok_summaries)
    let ?s = "sum_list (map (\<lambda>p. sint (rp_value p)) g)" and ?n = "int (length g)"
    have ends: "value_ok k (bk_min b)" "value_ok k (bk_max b)"
      using g pts by (auto simp: bucket_summary_def)
    have bounds: "\<forall>p\<in>set g. sint (bk_min b) \<le> sint (rp_value p) \<and> sint (rp_value p) \<le> sint (bk_max b)"
      and near: "nearest_away ?s ?n (sint (bk_avg b))" and n: "0 < ?n"
      using g(1) by (auto simp: bucket_summary_def)
    have "?n * sint (bk_min b) \<le> ?s" and "?s \<le> ?n * sint (bk_max b)"
      using bounds sum_list_mono [of g "\<lambda>_. sint (bk_min b)" "\<lambda>p. sint (rp_value p)"]
        sum_list_mono [of g "\<lambda>p. sint (rp_value p)" "\<lambda>_. sint (bk_max b)"]
      by (simp_all add: sum_list_triv)
    then have "sint (bk_min b) \<le> sint (bk_avg b) \<and> sint (bk_avg b) \<le> sint (bk_max b)"
      using near n by (intro nearest_away_between)
    with ends show ?thesis by (auto simp: value_ok_def)
  qed
  show "value_ok k (ac_min a) \<and> value_ok k (ac_max a)" if a: "rs_bucket r = Some a"
  proof -
    let ?g = "last (bucket_groups t pts)"
    have ne: "pts \<noteq> []" and rep: "acc_rep a (point_index t (last pts)) (map rp_value ?g)"
      using ok a by (auto simp: rollup_ok_def rollup_buckets_ok_def)
    have "?g \<in> set (bucket_groups t pts)" using ne by simp
    then have "set ?g \<subseteq> set (concat (bucket_groups t pts))" unfolding set_concat by blast
    then have "\<forall>v\<in>set (map rp_value ?g). value_ok k v"
      using pts by (auto simp: subset_iff)
    then show ?thesis using rep by (auto simp: acc_rep_def)
  qed
qed

lemma check_domain_ok:
  assumes ok: "series_ok now hs s pts" and pts: "\<forall>p\<in>set pts. value_ok (ss_kind s) (rp_value p)"
  shows "check_domain s = Inr ()"
proof -
  let ?ok = "value_ok (ss_kind s)"
  obtain cur where raw: "raw_history (kind_encoding (ss_kind s)) (sealed_of Raw hs) (ss_raw s) cur pts"
    using ok by (auto simp: series_ok_def raw_ok_def)
  then have "raw_points (op_chunk (ss_raw s)) = cur" and "set cur \<subseteq> set pts"
    using raw_points_state [OF raw_holds_state] by (auto simp: raw_tier.history_def)
  then have points: "list_all ?ok (map rp_value (raw_points (op_chunk (ss_raw s))))"
    using pts by (auto simp: list_all_iff)
  have buckets: "list_all (\<lambda>b. ?ok (bk_min b) \<and> ?ok (bk_avg b) \<and> ?ok (bk_max b)) (ss_unsealed_buckets s t)"
    and opens: "list_all (\<lambda>a. ?ok (ac_min a) \<and> ?ok (ac_max a)) (opt_list (rs_bucket (ss_rollup s t)))" for t
  proof -
    obtain bs where r: "rollup_ok t now (sealed_of (rollup_tier_of t) hs) (ss_rollup s t) bs pts"
      using ok by (cases t) (auto simp: series_ok_def rollup_invariant_def)
    obtain cur where "rollup_buckets (op_chunk (rs_open (ss_rollup s t))) = cur" "set cur \<subseteq> set bs"
      using r by (rule rollup_ok_parts)
    then have "set (ss_unsealed_buckets s t) \<subseteq> set bs"
      by (cases t) (simp_all add: ss_unsealed_buckets_def ss_rollup_def)
    then show "list_all (\<lambda>b. ?ok (bk_min b) \<and> ?ok (bk_avg b) \<and> ?ok (bk_max b)) (ss_unsealed_buckets s t)"
      using rollup_ok_values(1) [OF r pts] by (auto simp: list_all_iff)
    show "list_all (\<lambda>a. ?ok (ac_min a) \<and> ?ok (ac_max a)) (opt_list (rs_bucket (ss_rollup s t)))"
      using rollup_ok_values(2) [OF r pts] by (cases "rs_bucket (ss_rollup s t)") simp_all
  qed
  show ?thesis
    using points buckets [of RollupMinute] buckets [of RollupHour] opens [of RollupMinute] opens [of RollupHour]
    by (auto simp: check_domain_def is_ok_check_scaled acc_to_row_def acc_parts_def ss_rollup_def list_all_iff)
qed

lemma check_coherence_ok:
  assumes ok: "series_ok now hs s pts"
  shows "check_coherence s = Inr ()"
proof -
  obtain cur where raw: "raw_history (kind_encoding (ss_kind s)) (sealed_of Raw hs) (ss_raw s) cur pts"
    and sorted: "sorted_wrt (<) (map rp_ts pts)"
    and last_ts: "ss_last_ts s = (if pts = [] then None else Some (rp_ts (last pts)))"
    using ok by (auto simp: series_ok_def raw_ok_def)
  then have cur: "raw_points (op_chunk (ss_raw s)) = cur" and sub: "set cur \<subseteq> set pts"
    using raw_points_state [OF raw_holds_state] by (auto simp: raw_tier.history_def)
  obtain bm bh where m: "rollup_ok RollupMinute now (sealed_of Minute hs) (ss_minute s) bm pts"
    and h: "rollup_ok RollupHour now (sealed_of Hour hs) (ss_hour s) bh pts"
    using ok by (auto simp: series_ok_def rollup_invariant_def ss_rollup_def)
  have spans: "tail_in_span Raw (op_span (ss_raw s)) (map rp_ts cur)"
    using raw sub by (auto simp: raw_tier.history_def tail_in_span_def list_all_iff point_span_def)
  let ?tms = "map rp_ts cur @ rs_times (ss_minute s) @ rs_times (ss_hour s)"
  have tms: "pts \<noteq> [] \<and> x \<le> rp_ts (last pts)" if "x \<in> set ?tms" for x
    using that rollup_ok_times [OF m, of x] rollup_ok_times [OF h, of x] sub
      sorted_map_last [OF strict_sorted_imp_sorted [OF sorted]] by auto
  have "case ss_last_ts s of None \<Rightarrow> ?tms = [] | Some l \<Rightarrow> list_all (\<lambda>t. t \<le> l) ?tms"
  proof (cases "pts = []")
    case True
    then have "?tms = []" using tms by (metis last_in_set)
    with True show ?thesis by (simp add: last_ts)
  next
    case False
    then have "list_all (\<lambda>t. t \<le> rp_ts (last pts)) ?tms" using tms by (simp only: list_all_iff) blast
    with False show ?thesis by (simp add: last_ts)
  qed
  then show ?thesis
    using spans rollup_ok_coherent [OF m] rollup_ok_coherent [OF h] by (simp add: check_coherence_def cur)
qed


lemma rollup_ok_bucket: "rollup_ok t now hs r bs pts \<Longrightarrow> rs_bucket r = Some a \<Longrightarrow> \<exists>i vs. acc_rep a i vs"
  by (auto simp: rollup_ok_def rollup_buckets_ok_def)

lemma ss_from_tail_ok:
  assumes ok: "series_ok now hs s pts" and pts: "\<forall>p\<in>set pts. value_ok (ss_kind s) (rp_value p)"
  shows "ss_from_tail (ss_to_tail s) = Inr s"
proof -
  obtain cur where raw: "raw_history (kind_encoding (ss_kind s)) (sealed_of Raw hs) (ss_raw s) cur pts"
    using ok by (auto simp: series_ok_def raw_ok_def)
  obtain bm bh where m: "rollup_ok RollupMinute now (sealed_of Minute hs) (ss_minute s) bm pts"
    and h: "rollup_ok RollupHour now (sealed_of Hour hs) (ss_hour s) bh pts"
    using ok by (auto simp: series_ok_def rollup_invariant_def ss_rollup_def)
  obtain cm ch where mh: "rollup_history RollupMinute (sealed_of Minute hs) (rs_open (ss_minute s)) cm bm"
    and hh: "rollup_history RollupHour (sealed_of Hour hs) (rs_open (ss_hour s)) ch bh"
    using m h by (auto simp: rollup_ok_def)
  note buckets = rollup_ok_bucket [OF m] rollup_ok_bucket [OF h]
  have read_m: "read_bucket (put_bucket (rs_bucket (ss_minute s)) @ r) = Inr (rs_bucket (ss_minute s), r)"
    and read_h: "read_bucket (put_bucket (rs_bucket (ss_hour s)) @ r) = Inr (rs_bucket (ss_hour s), r)" for r
    by (rule read_bucket_put, erule buckets)+
  note opens = raw_open_reads_back [OF raw]
    rollup_open_reads_back [OF mh, simplified] rollup_open_reads_back [OF hh, simplified]
  have tiers: "rs_tier (ss_minute s) = RollupMinute" "rs_tier (ss_hour s) = RollupHour"
    using m h by (simp_all add: rollup_ok_def)
  have state: "\<lparr>ss_kind = ss_kind s, ss_last_ts = ss_last_ts s, ss_raw = ss_raw s,
      ss_minute = \<lparr>rs_tier = RollupMinute, rs_bucket = rs_bucket (ss_minute s), rs_open = rs_open (ss_minute s)\<rparr>,
      ss_hour = \<lparr>rs_tier = RollupHour, rs_bucket = rs_bucket (ss_hour s), rs_open = rs_open (ss_hour s)\<rparr>\<rparr> = s"
    by (simp flip: tiers)
  show ?thesis
    using check_domain_ok [OF ok pts] check_coherence_ok [OF ok] read_h [of "[]"]
    by (simp add: ss_from_tail_def ss_to_tail_def field_simps opens read_m rd_finish_def Let_def state)
qed

section \<open>Properties\<close>

text \<open>The values a caller can give: \<open>Scaled\<close> is only made by the kind's own checks.\<close>

definition op_in_domain :: "value_kind \<Rightarrow> series_op \<Rightarrow> bool" where
  "op_in_domain k op = (case op of OpAppend ts v \<Rightarrow> is_ok (check_scaled k (scaled_get v)) | _ \<Rightarrow> True)"

lemma accepted_points_ok:
  "list_all (op_in_domain k) ops \<Longrightarrow> \<forall>p\<in>set (accepted_points l ops). value_ok k (rp_value p)"
  by (induction l ops rule: accepted_points.induct) (auto simp: op_in_domain_def is_ok_check_scaled)

text \<open>C7. A restart loses nothing: every state a series reaches by operations in hub time order, with
  values of its kind's domain, is read back from its tail exactly as it was, open chunks, open
  buckets and next sequence numbers included.\<close>

theorem tail_roundtrip:
  assumes "well_timed 0 ops" and "list_all (op_in_domain k) ops"
  shows "let s = snd (series_run (ss_new k) ops) in ss_from_tail (ss_to_tail s) = Inr s"
proof -
  obtain hs s where run: "series_run (ss_new k) ops = (hs, s)" by (cases "series_run (ss_new k) ops")
  obtain now where ok: "series_ok now hs s (accepted_points None ops)"
    using run assms(1) by (rule series_run_new_ok)
  have "ss_kind s = k" using run by (rule series_run_new_raw)
  then show ?thesis
    using ss_from_tail_ok [OF ok] accepted_points_ok [OF assms(2)] by (simp add: run)
qed

theorem tail_roundtrip_witness:
  "well_timed 0 [OpAppend 10 (Scaled 0), OpSweep 200, OpAppend 200 (Scaled 0)]
   \<and> (let s = snd (series_run (ss_new Percent) [OpAppend 10 (Scaled 0), OpSweep 200, OpAppend 200 (Scaled 0)])
      in ss_from_tail (ss_to_tail s) = Inr s)"
proof -
  let ?ops = "[OpAppend 10 (Scaled 0), OpSweep 200, OpAppend 200 (Scaled 0)]"
  have timed: "well_timed 0 ?ops" by simp
  have domain: "list_all (op_in_domain Percent) ?ops"
    by (simp add: op_in_domain_def check_scaled_def sint_max_scaled kind_top_def)
  from timed tail_roundtrip [OF timed domain] show ?thesis by blast
qed

end
