(* ===== verification/Names.thy ===== *)
theory Names
  imports Prelude "HOL-Library.List_Lexorder"
begin

text \<open>
  The names a series is made of (\<open>system-hub/hub-store/src/name.rs\<close>).  A Rust string is its UTF-8
  bytes; \<open>utf8_chars\<close> is the decoding the standard library does, with its exact ranges, so
  that a byte string is a string when it decodes.  A metric name keeps the bytes it was checked on.
\<close>

section \<open>UTF-8\<close>

definition utf8_cont :: "u8 \<Rightarrow> bool" where
  "utf8_cont b \<longleftrightarrow> 0x80 \<le> b \<and> b \<le> 0xBF"

definition utf8_second3 :: "u8 \<Rightarrow> u8 \<Rightarrow> bool" where
  "utf8_second3 a b \<longleftrightarrow> (if a = 0xE0 then 0xA0 \<le> b \<and> b \<le> 0xBF
     else if a = 0xED then 0x80 \<le> b \<and> b \<le> 0x9F else utf8_cont b)"

definition utf8_second4 :: "u8 \<Rightarrow> u8 \<Rightarrow> bool" where
  "utf8_second4 a b \<longleftrightarrow> (if a = 0xF0 then 0x90 \<le> b \<and> b \<le> 0xBF
     else if a = 0xF4 then 0x80 \<le> b \<and> b \<le> 0x8F else utf8_cont b)"

text \<open>The scalar values of a string, or nothing when the bytes are no UTF-8.\<close>

fun utf8_chars :: "bytes \<Rightarrow> nat list option" where
  "utf8_chars [] = Some []"
| "utf8_chars (a # bs) =
     (if a < 0x80 then map_option (Cons (unat a)) (utf8_chars bs)
      else if 0xC2 \<le> a \<and> a \<le> 0xDF then
        (case bs of
           b # bs \<Rightarrow> if utf8_cont b
             then map_option (Cons ((unat a - 0xC0) * 64 + (unat b - 0x80))) (utf8_chars bs) else None
         | [] \<Rightarrow> None)
      else if 0xE0 \<le> a \<and> a \<le> 0xEF then
        (case bs of
           b # c # bs \<Rightarrow> if utf8_second3 a b \<and> utf8_cont c
             then map_option (Cons ((unat a - 0xE0) * 4096 + (unat b - 0x80) * 64 + (unat c - 0x80))) (utf8_chars bs)
             else None
         | _ \<Rightarrow> None)
      else if 0xF0 \<le> a \<and> a \<le> 0xF4 then
        (case bs of
           b # c # d # bs \<Rightarrow> if utf8_second4 a b \<and> utf8_cont c \<and> utf8_cont d
             then map_option (Cons ((unat a - 0xF0) * 262144 + (unat b - 0x80) * 4096 + (unat c - 0x80) * 64
                    + (unat d - 0x80))) (utf8_chars bs)
             else None
         | _ \<Rightarrow> None)
      else None)"

definition from_utf8 :: "bytes \<Rightarrow> bytes option" where
  "from_utf8 bs = (case utf8_chars bs of None \<Rightarrow> None | Some _ \<Rightarrow> Some bs)"

text \<open>\<open>char::is_control\<close>: the scalar values of the general category Cc.\<close>

definition is_control :: "nat \<Rightarrow> bool" where
  "is_control c \<longleftrightarrow> c < 0x20 \<or> 0x7F \<le> c \<and> c \<le> 0x9F"

section \<open>Names\<close>

definition MAX_METRIC_NAME_BYTES :: nat where
  "MAX_METRIC_NAME_BYTES = 261"

definition MAX_SYSTEM_KEY_BYTES :: nat where
  "MAX_SYSTEM_KEY_BYTES = 255"

datatype metric_name = MetricName (metric_as_str: bytes)

datatype system_key = SystemKey (system_as_bytes: bytes)

datatype generation = Generation (generation_get: u64)

text \<open>The derived orders: keys by their bytes, lexicographically; generations by their number.\<close>

instantiation system_key :: linorder
begin

definition less_eq_system_key :: "system_key \<Rightarrow> system_key \<Rightarrow> bool" where
  "less_eq_system_key a b \<longleftrightarrow> system_as_bytes a \<le> system_as_bytes b"

definition less_system_key :: "system_key \<Rightarrow> system_key \<Rightarrow> bool" where
  "less_system_key a b \<longleftrightarrow> system_as_bytes a < system_as_bytes b"

instance
  by standard (auto simp: less_eq_system_key_def less_system_key_def system_key.expand)

end

instantiation generation :: linorder
begin

definition less_eq_generation :: "generation \<Rightarrow> generation \<Rightarrow> bool" where
  "less_eq_generation a b \<longleftrightarrow> generation_get a \<le> generation_get b"

definition less_generation :: "generation \<Rightarrow> generation \<Rightarrow> bool" where
  "less_generation a b \<longleftrightarrow> generation_get a < generation_get b"

instance
  by standard (auto simp: less_eq_generation_def less_generation_def generation.expand)

end

datatype invalid_name = NameEmpty | NameTooLong | ControlCharacter

definition check_length :: "nat \<Rightarrow> nat \<Rightarrow> invalid_name + unit" where
  "check_length len mx = (if len = 0 then Inl NameEmpty else if len > mx then Inl NameTooLong else Inr ())"

text \<open>The argument is a string: bytes that decode.\<close>

definition metric_name_try_from :: "bytes \<Rightarrow> invalid_name + metric_name" where
  "metric_name_try_from name =
     rbind (check_length (length name) MAX_METRIC_NAME_BYTES) (\<lambda>_.
       if list_ex is_control (case utf8_chars name of None \<Rightarrow> [] | Some cs \<Rightarrow> cs) then Inl ControlCharacter
       else Inr (MetricName name))"

definition system_key_try_from :: "bytes \<Rightarrow> invalid_name + system_key" where
  "system_key_try_from key =
     rbind (check_length (length key) MAX_SYSTEM_KEY_BYTES) (\<lambda>_. Inr (SystemKey key))"

section \<open>What the checks leave\<close>

text \<open>The names the constructors let through.\<close>

definition metric_name_ok :: "metric_name \<Rightarrow> bool" where
  "metric_name_ok m \<longleftrightarrow> (\<exists>cs. utf8_chars (metric_as_str m) = Some cs \<and> \<not> list_ex is_control cs)
     \<and> 1 \<le> length (metric_as_str m) \<and> length (metric_as_str m) \<le> 261"

definition system_key_ok :: "system_key \<Rightarrow> bool" where
  "system_key_ok k \<longleftrightarrow> 1 \<le> length (system_as_bytes k) \<and> length (system_as_bytes k) \<le> 255"

lemma check_length_Inr: "check_length n mx = Inr u \<longleftrightarrow> 1 \<le> n \<and> n \<le> mx"
  by (auto simp: check_length_def)

lemma from_utf8_Some: "from_utf8 bs = Some s \<longleftrightarrow> s = bs \<and> (\<exists>cs. utf8_chars bs = Some cs)"
  by (auto simp: from_utf8_def split: option.splits)

lemma metric_name_try_from_Inr:
  "utf8_chars name = Some cs \<Longrightarrow>
    metric_name_try_from name = Inr m \<longleftrightarrow> m = MetricName name \<and> metric_name_ok m"
  by (auto simp: metric_name_try_from_def metric_name_ok_def result_simps check_length_Inr MAX_METRIC_NAME_BYTES_def
      split: if_splits)

lemma system_key_try_from_Inr: "system_key_try_from key = Inr k \<longleftrightarrow> k = SystemKey key \<and> system_key_ok k"
  by (auto simp: system_key_try_from_def system_key_ok_def result_simps check_length_Inr MAX_SYSTEM_KEY_BYTES_def)


end
