(* ===== verification/Series_Keys.thy ===== *)
theory Series_Keys
  imports Bytes_Reader Names Tier Value_Kind
begin

text \<open>
  Series, their keys and their records (\<open>system-hub/hub-store/src/series.rs\<close>).  Both encodings are
  canonical: decoding what was encoded gives it back, and what decodes was the encoding of what it
  decodes to.  The prefix of a system's generation starts exactly the keys of that generation.
\<close>

datatype series_id = SeriesId (series_id_get: u32)

record series_key =
  sk_system :: system_key
  sk_generation :: generation
  sk_metric :: metric_name

text \<open>The last spans stand in the order of the tiers: raw, minute, hour.\<close>

record series_record =
  sr_key :: series_key
  sr_kind :: value_kind
  sr_last_spans :: "span_start option list"

datatype record_error = RecordUnknownVersion u8 | RecordMalformed

definition RECORD_V1 :: u8 where
  "RECORD_V1 = 1"

definition series_key_prefix :: "system_key \<Rightarrow> generation \<Rightarrow> bytes" where
  "series_key_prefix system g =
     [of_nat (length (system_as_bytes system))] @ system_as_bytes system @ to_be_bytes 8 (generation_get g)"

definition series_key_to_bytes :: "series_key \<Rightarrow> bytes" where
  "series_key_to_bytes k = series_key_prefix (sk_system k) (sk_generation k) @ metric_as_str (sk_metric k)"

text \<open>\<open>split_first\<close>, \<open>split_at_checked\<close> and \<open>split_first_chunk\<close> of a slice.\<close>

definition split_first :: "bytes \<Rightarrow> (u8 \<times> bytes) option" where
  "split_first bs = (case bs of [] \<Rightarrow> None | b # r \<Rightarrow> Some (b, r))"

definition split_at_checked :: "nat \<Rightarrow> bytes \<Rightarrow> (bytes \<times> bytes) option" where
  "split_at_checked n bs = (if n \<le> length bs then Some (take n bs, drop n bs) else None)"

definition series_key_from_bytes :: "bytes \<Rightarrow> record_error + series_key" where
  "series_key_from_bytes bs =
     rbind (ok_or RecordMalformed (split_first bs)) (\<lambda>(len, rest).
     rbind (ok_or RecordMalformed (split_at_checked (unat len) rest)) (\<lambda>(system, rest).
     rbind (ok_or RecordMalformed (split_at_checked 8 rest)) (\<lambda>(g, metric).
     rbind (ok_or RecordMalformed (from_utf8 metric)) (\<lambda>metric.
     rbind (map_err (\<lambda>_. RecordMalformed) (system_key_try_from system)) (\<lambda>system.
     rbind (map_err (\<lambda>_. RecordMalformed) (metric_name_try_from metric)) (\<lambda>metric.
       Inr \<lparr>sk_system = system, sk_generation = Generation (from_be_bytes g), sk_metric = metric\<rparr>))))))"

definition put_span :: "span_start option \<Rightarrow> bytes" where
  "put_span m = (case m of None \<Rightarrow> [0] | Some start \<Rightarrow> 1 # to_be_bytes 8 (span_get start))"

definition series_record_to_bytes :: "series_record \<Rightarrow> bytes" where
  "series_record_to_bytes r =
     (let key = series_key_to_bytes (sr_key r)
      in [RECORD_V1, kind_code (sr_kind r)] @ concat (map put_span (sr_last_spans r))
           @ to_be_bytes 2 (of_nat (length key) :: u16) @ key)"

definition read_span :: "bytes \<Rightarrow> tier \<Rightarrow> record_error + span_start option \<times> bytes" where
  "read_span bs t = (case split_first bs of
       None \<Rightarrow> Inl RecordMalformed
     | Some (b, rest) \<Rightarrow>
         if b = 0 then Inr (None, rest)
         else if b = 1 then
           rbind (ok_or RecordMalformed (split_at_checked 8 rest)) (\<lambda>(start, rest).
           rbind (ok_or RecordMalformed (span_new t (from_be_bytes start))) (\<lambda>s. Inr (Some s, rest)))
         else Inl RecordMalformed)"

primrec read_spans :: "tier list \<Rightarrow> bytes \<Rightarrow> record_error + span_start option list \<times> bytes" where
  "read_spans [] rest = Inr ([], rest)"
| "read_spans (t # ts) rest =
     rbind (read_span rest t) (\<lambda>(slot, rest).
     rbind (read_spans ts rest) (\<lambda>(slots, rest). Inr (slot # slots, rest)))"

definition series_record_from_bytes :: "bytes \<Rightarrow> record_error + series_record" where
  "series_record_from_bytes bs =
     rbind (ok_or RecordMalformed (split_first bs)) (\<lambda>(version, rest).
     if version \<noteq> RECORD_V1 then Inl (RecordUnknownVersion version)
     else rbind (ok_or RecordMalformed (split_first rest)) (\<lambda>(kind, rest).
     rbind (ok_or RecordMalformed (kind_from_code kind)) (\<lambda>kind.
     rbind (read_spans all_tiers rest) (\<lambda>(last_spans, rest).
     rbind (ok_or RecordMalformed (split_at_checked 2 rest)) (\<lambda>(len, key).
     if length key \<noteq> unat (from_be_bytes len :: u16) then Inl RecordMalformed
     else rbind (series_key_from_bytes key) (\<lambda>key.
       Inr \<lparr>sr_key = key, sr_kind = kind, sr_last_spans = last_spans\<rparr>))))))"

definition record_last_span :: "series_record \<Rightarrow> tier \<Rightarrow> span_start option" where
  "record_last_span r t = sr_last_spans r ! unat (tier_code t)"

section \<open>Well-formed keys and records\<close>

definition series_key_ok :: "series_key \<Rightarrow> bool" where
  "series_key_ok k \<longleftrightarrow> system_key_ok (sk_system k) \<and> metric_name_ok (sk_metric k)"

definition series_record_ok :: "series_record \<Rightarrow> bool" where
  "series_record_ok r \<longleftrightarrow> series_key_ok (sr_key r)
     \<and> list_all2 (\<lambda>t m. case m of None \<Rightarrow> True | Some s \<Rightarrow> span_on_grid t s) all_tiers (sr_last_spans r)"

lemma split_first_Some: "split_first bs = Some (b, r) \<longleftrightarrow> bs = b # r"
  by (cases bs) (auto simp: split_first_def)

lemma split_at_checked_Some: "split_at_checked n bs = Some (x, y) \<longleftrightarrow> length x = n \<and> bs = x @ y"
  by (auto simp: split_at_checked_def)

lemma word_field: "length bs = 8 \<and> w = from_be_bytes bs \<longleftrightarrow> bs = to_be_bytes 8 w" for w :: u64
  using to_from_be_bytes [of bs, where 'a = 64] by auto

text \<open>The one characterisation both directions rest on: a key decodes exactly from its own bytes.\<close>

lemma series_key_from_bytes_Inr:
  "series_key_from_bytes bs = Inr k \<longleftrightarrow> series_key_ok k \<and> bs = series_key_to_bytes k"
proof
  assume "series_key_from_bytes bs = Inr k"
  then obtain len system g metric m where bs: "bs = len # system @ g @ metric" "length system = unat len" "length g = 8"
    and utf: "from_utf8 metric = Some metric" and sys: "system_key_try_from system = Inr (SystemKey system)"
    and met: "metric_name_try_from metric = Inr m"
    and k: "k = \<lparr>sk_system = SystemKey system, sk_generation = Generation (from_be_bytes g), sk_metric = m\<rparr>"
    by (auto simp: series_key_from_bytes_def result_simps split_first_Some split_at_checked_Some
        system_key_try_from_Inr from_utf8_Some)
  have "system_key_ok (SystemKey system)"
    using sys by (simp add: system_key_try_from_Inr)
  moreover have "m = MetricName metric \<and> metric_name_ok m"
    using utf met metric_name_try_from_Inr by (auto simp: from_utf8_Some)
  moreover have "len = of_nat (length system)"
    using bs(2) by simp
  moreover have "g = to_be_bytes 8 (from_be_bytes g :: u64)"
    using word_field [of g "from_be_bytes g"] bs(3) by blast
  ultimately show "series_key_ok k \<and> bs = series_key_to_bytes k"
    using bs k by (auto simp: series_key_ok_def series_key_to_bytes_def series_key_prefix_def)
next
  assume k: "series_key_ok k \<and> bs = series_key_to_bytes k"
  let ?s = "system_as_bytes (sk_system k)" and ?m = "metric_as_str (sk_metric k)"
  obtain cs where cs: "utf8_chars ?m = Some cs"
    using k by (auto simp: series_key_ok_def metric_name_ok_def)
  have "unat (of_nat (length ?s) :: u8) = length ?s"
    using k by (intro unat_of_nat_small) (simp add: series_key_ok_def system_key_ok_def)
  moreover have "system_key_try_from ?s = Inr (sk_system k)"
    using k by (simp add: system_key_try_from_Inr series_key_ok_def)
  moreover have "metric_name_try_from ?m = Inr (sk_metric k)"
    using k metric_name_try_from_Inr [OF cs] by (simp add: series_key_ok_def)
  moreover have "from_utf8 ?m = Some ?m"
    using cs by (simp add: from_utf8_Some)
  ultimately show "series_key_from_bytes bs = Inr k"
    using k by (simp add: series_key_from_bytes_def series_key_to_bytes_def series_key_prefix_def
        split_first_def split_at_checked_def)
qed

lemma length_series_key: "series_key_ok k \<Longrightarrow> length (series_key_to_bytes k) \<le> 525"
  by (simp add: series_key_ok_def system_key_ok_def metric_name_ok_def series_key_to_bytes_def series_key_prefix_def)

lemma read_span_Inr:
  "read_span bs t = Inr (m, rest) \<longleftrightarrow> bs = put_span m @ rest \<and> (case m of None \<Rightarrow> True | Some s \<Rightarrow> span_on_grid t s)"
proof
  show "bs = put_span m @ rest \<and> (case m of None \<Rightarrow> True | Some s \<Rightarrow> span_on_grid t s)"
    if "read_span bs t = Inr (m, rest)"
    using that word_field
    by (auto simp: read_span_def put_span_def result_simps split_first_Some split_at_checked_Some span_new_Some
        span_on_grid_def to_from_be_bytes split: option.splits if_splits)
       (metis to_from_be_bytes len_num0 word_field)
  show "read_span bs t = Inr (m, rest)"
    if "bs = put_span m @ rest \<and> (case m of None \<Rightarrow> True | Some s \<Rightarrow> span_on_grid t s)"
    using that span_new_get
    by (cases m) (simp_all add: read_span_def put_span_def split_first_def split_at_checked_def)
qed

lemma read_spans_Inr:
  "read_spans ts bs = Inr (ms, rest) \<longleftrightarrow> bs = concat (map put_span ms) @ rest
    \<and> list_all2 (\<lambda>t m. case m of None \<Rightarrow> True | Some s \<Rightarrow> span_on_grid t s) ts ms"
  by (induction ts arbitrary: bs ms) (auto simp: result_simps read_span_Inr list_all2_Cons1)

lemma kind_from_code_Some: "kind_from_code c = Some k \<longleftrightarrow> c = kind_code k"
  by (auto simp: kind_from_code_def find_Some_iff) (metis kind_from_code_code kind_from_code_def find_Some_iff)

lemma series_record_from_bytes_Inr:
  "series_record_from_bytes bs = Inr r \<longleftrightarrow> series_record_ok r \<and> bs = series_record_to_bytes r"
proof
  assume "series_record_from_bytes bs = Inr r"
  then obtain len key where bs: "bs = [RECORD_V1, kind_code (sr_kind r)] @ concat (map put_span (sr_last_spans r)) @ len @ key"
    and spans: "list_all2 (\<lambda>t m. case m of None \<Rightarrow> True | Some s \<Rightarrow> span_on_grid t s) all_tiers (sr_last_spans r)"
    and len: "length len = 2" "length key = unat (from_be_bytes len :: u16)"
    and key: "series_key_from_bytes key = Inr (sr_key r)"
    by (auto simp: series_record_from_bytes_def result_simps split_first_Some split_at_checked_Some
        kind_from_code_Some read_spans_Inr split: if_splits)
  have "len = to_be_bytes 2 (from_be_bytes len :: u16)"
    using to_from_be_bytes [of len, where 'a = 16] len(1) by simp
  then have "len = to_be_bytes 2 (of_nat (length key) :: u16)"
    using len(2) by simp
  then show "series_record_ok r \<and> bs = series_record_to_bytes r"
    using bs spans key by (simp add: series_record_ok_def series_record_to_bytes_def series_key_from_bytes_Inr Let_def)
next
  assume r: "series_record_ok r \<and> bs = series_record_to_bytes r"
  let ?key = "series_key_to_bytes (sr_key r)"
  have "unat (of_nat (length ?key) :: u16) = length ?key"
    using r length_series_key [of "sr_key r"] by (intro unat_of_nat_small) (simp add: series_record_ok_def)
  moreover have "series_key_from_bytes ?key = Inr (sr_key r)"
    using r by (simp add: series_key_from_bytes_Inr series_record_ok_def)
  moreover have "read_spans all_tiers (concat (map put_span (sr_last_spans r)) @ rest) = Inr (sr_last_spans r, rest)" for rest
    using r by (simp add: read_spans_Inr series_record_ok_def)
  ultimately show "series_record_from_bytes bs = Inr r"
    using r by (simp add: series_record_from_bytes_def series_record_to_bytes_def split_first_def split_at_checked_def Let_def)
qed

section \<open>Properties\<close>

text \<open>The key table is a faithful index: a series key decodes exactly from its own bytes, so two
  series never share key bytes; and the prefix of a system's generation starts a key's bytes exactly
  when the key is of that system and generation.\<close>

theorem series_key_codec:
  assumes "series_key_ok k" and "system_key_ok system"
  shows "(series_key_from_bytes bs = Inr k \<longleftrightarrow> bs = series_key_to_bytes k)
    \<and> (take (length (series_key_prefix system g)) (series_key_to_bytes k) = series_key_prefix system g
        \<longleftrightarrow> sk_system k = system \<and> sk_generation k = g)"
proof -
  let ?s = "system_as_bytes system" and ?t = "system_as_bytes (sk_system k)"
  have len: "length ?s = length ?t" if "(of_nat (length ?s) :: u8) = of_nat (length ?t)"
  proof -
    have "unat (of_nat (length ?s) :: u8) = length ?s" "unat (of_nat (length ?t) :: u8) = length ?t"
      using assms by (simp_all add: unat_of_nat_small series_key_ok_def system_key_ok_def)
    with that show ?thesis by metis
  qed
  have "sk_system k = system \<and> sk_generation k = g"
    if "take (length (series_key_prefix system g)) (series_key_to_bytes k) = series_key_prefix system g"
  proof -
    have same: "length ?s = length ?t"
      using that len by (simp add: series_key_prefix_def series_key_to_bytes_def take_Cons')
    then have "?t @ to_be_bytes 8 (generation_get (sk_generation k)) = ?s @ to_be_bytes 8 (generation_get g)"
      using that by (simp add: series_key_prefix_def series_key_to_bytes_def take_Cons')
    then have "?t = ?s" and "generation_get (sk_generation k) = generation_get g"
      using same by (simp_all add: to_be_bytes_inject)
    then show ?thesis by (simp add: system_key.expand generation.expand)
  qed
  moreover have "take (length (series_key_prefix system g)) (series_key_to_bytes k) = series_key_prefix system g"
    if "sk_system k = system \<and> sk_generation k = g"
    using that by (auto simp: series_key_to_bytes_def)
  ultimately have "take (length (series_key_prefix system g)) (series_key_to_bytes k) = series_key_prefix system g
      \<longleftrightarrow> sk_system k = system \<and> sk_generation k = g"
    by (rule iffI)
  then show ?thesis
    using assms(1) series_key_from_bytes_Inr [of bs k] by blast
qed

theorem series_key_codec_witness:
  "let k = \<lparr>sk_system = SystemKey [104], sk_generation = Generation 2, sk_metric = MetricName [99, 112, 117]\<rparr> in
   series_key_ok k \<and> series_key_from_bytes (series_key_to_bytes k) = Inr k"
proof -
  let ?k = "\<lparr>sk_system = SystemKey [104], sk_generation = Generation 2, sk_metric = MetricName [99, 112, 117]\<rparr>"
  have "series_key_ok ?k"
    by (simp add: series_key_ok_def system_key_ok_def metric_name_ok_def is_control_def)
  moreover have "system_key_ok (SystemKey [104])" by (simp add: system_key_ok_def)
  ultimately show ?thesis
    using series_key_codec [of ?k "SystemKey [104]" "series_key_to_bytes ?k"] by (simp add: Let_def)
qed

text \<open>The series table's records are canonical: a record decodes exactly from its own bytes, with its
  kind, its last spans on their tiers' grids and its key; any other bytes are refused, or are another
  record's.\<close>

theorem series_record_codec:
  assumes "series_record_ok r"
  shows "series_record_from_bytes bs = Inr r \<longleftrightarrow> bs = series_record_to_bytes r"
  using assms by (simp add: series_record_from_bytes_Inr)

theorem series_record_codec_witness:
  "let r = \<lparr>sr_key = \<lparr>sk_system = SystemKey [104], sk_generation = Generation 2, sk_metric = MetricName [99]\<rparr>,
            sr_kind = Percent, sr_last_spans = [Some (SpanStart 7200), None, Some (SpanStart 86400)]\<rparr> in
   series_record_ok r \<and> series_record_from_bytes (series_record_to_bytes r) = Inr r"
proof -
  let ?r = "\<lparr>sr_key = \<lparr>sk_system = SystemKey [104], sk_generation = Generation 2, sk_metric = MetricName [99]\<rparr>,
            sr_kind = Percent, sr_last_spans = [Some (SpanStart 7200), None, Some (SpanStart 86400)]\<rparr>"
  have "series_record_ok ?r"
    by (simp add: series_record_ok_def series_key_ok_def system_key_ok_def metric_name_ok_def is_control_def
        all_tiers_def span_on_grid_def unat_span_secs)
  with series_record_codec [OF this] show ?thesis by (simp add: Let_def)
qed

end
