(* ===== verification/Log_Entry.thy ===== *)
theory Log_Entry
  imports Rollup_Chunk Series_Keys
begin

text \<open>
  The points log's entry (\<open>system-hub/hub-store/src/tables.rs\<close>): the points of one group commit,
  as varints against their earliest timestamp.  An entry decodes to the points it was made of, in
  their order, whatever their series and times.
\<close>

record logged_point =
  lp_id :: series_id
  lp_ts :: u64
  lp_value :: i64

datatype bad_log_entry = BadLogEntry

definition LOG_V1 :: u8 where
  "LOG_V1 = 1"

definition log_base :: "logged_point list \<Rightarrow> u64" where
  "log_base points = (case map lp_ts points of [] \<Rightarrow> 0 | t # ts \<Rightarrow> fold min ts t)"

definition put_logged :: "u64 \<Rightarrow> logged_point \<Rightarrow> bytes \<Rightarrow> bytes" where
  "put_logged base p out =
     (let out = write_varint out (ucast (series_id_get (lp_id p)));
          out = write_varint out (lp_ts p - base)
      in write_varint out (zigzag (lp_value p)))"

definition encode_log_entry :: "logged_point list \<Rightarrow> bytes" where
  "encode_log_entry points =
     (let base = log_base points;
          out = write_varint [LOG_V1] (of_nat (length points));
          out = write_varint out base
      in fold (put_logged base) points out)"

text \<open>The closure \<open>next\<close> of the decoder, and its loop over \<open>0..count\<close>.\<close>

definition log_next :: "bytes \<Rightarrow> nat \<Rightarrow> bad_log_entry + u64 \<times> nat" where
  "log_next bs pos = map_err (\<lambda>_. BadLogEntry) (read_varint bs pos)"

primrec decode_logged :: "nat \<Rightarrow> bytes \<Rightarrow> u64 \<Rightarrow> nat \<Rightarrow> bad_log_entry + logged_point list \<times> nat" where
  "decode_logged 0 bs base pos = Inr ([], pos)"
| "decode_logged (Suc n) bs base pos =
     rbind (log_next bs pos) (\<lambda>(i, pos).
     rbind (ok_or BadLogEntry (u32_try_from i)) (\<lambda>i.
     rbind (log_next bs pos) (\<lambda>(d, pos).
     rbind (ok_or BadLogEntry (checked_add base d)) (\<lambda>ts.
     rbind (log_next bs pos) (\<lambda>(v, pos).
     rbind (decode_logged n bs base pos) (\<lambda>(points, pos).
       Inr (\<lparr>lp_id = SeriesId i, lp_ts = ts, lp_value = unzigzag v\<rparr> # points, pos)))))))"

definition decode_log_entry :: "bytes \<Rightarrow> bad_log_entry + logged_point list" where
  "decode_log_entry bs =
     (if bs = [] \<or> hd bs \<noteq> LOG_V1 then Inl BadLogEntry
      else rbind (log_next bs 1) (\<lambda>(count, pos).
           rbind (log_next bs pos) (\<lambda>(base, pos).
           rbind (decode_logged (unat count) bs base pos) (\<lambda>(points, pos).
             if pos \<noteq> length bs then Inl BadLogEntry else Inr points))))"

section \<open>Round trip\<close>

definition logged_bytes :: "u64 \<Rightarrow> logged_point \<Rightarrow> bytes" where
  "logged_bytes base p = write_varint [] (ucast (series_id_get (lp_id p))) @ write_varint [] (lp_ts p - base)
     @ write_varint [] (zigzag (lp_value p))"

lemma put_logged_append: "put_logged base p out = out @ logged_bytes base p"
  unfolding put_logged_def logged_bytes_def Let_def by (metis append.assoc write_varint_append)

lemma fold_put_logged: "fold (put_logged base) ps out = out @ concat (map (logged_bytes base) ps)"
  by (induction ps arbitrary: out) (simp_all add: put_logged_append)

lemma fold_min_le: "fold min ts t \<le> t \<and> (\<forall>x\<in>set ts. fold min ts t \<le> x)" for t :: "'a::linorder"
  by (induction ts arbitrary: t) (simp_all add: min.coboundedI1, (meson min.boundedE order_trans)+)

lemma log_base_le: "p \<in> set ps \<Longrightarrow> log_base ps \<le> lp_ts p"
  by (cases ps) (use fold_min_le [of "map lp_ts (tl ps)" "lp_ts (hd ps)"] in \<open>auto simp: log_base_def\<close>)

lemma log_next_write: "log_next (pre @ write_varint [] v @ suf) (length pre) = Inr (v, length pre + length (write_varint [] v))"
  by (simp add: log_next_def read_varint_write)

lemma decode_logged_bytes:
  assumes "\<And>p. p \<in> set ps \<Longrightarrow> base \<le> lp_ts p"
  shows "decode_logged (length ps) (pre @ concat (map (logged_bytes base) ps) @ suf) base (length pre)
    = Inr (ps, length pre + length (concat (map (logged_bytes base) ps)))"
  using assms
proof (induction ps arbitrary: pre)
  case (Cons p ps)
  let ?a = "write_varint [] (ucast (series_id_get (lp_id p)))" and ?b = "write_varint [] (lp_ts p - base)"
    and ?c = "write_varint [] (zigzag (lp_value p))"
  let ?rest = "concat (map (logged_bytes base) ps) @ suf"
  let ?bs = "pre @ concat (map (logged_bytes base) (p # ps)) @ suf"
  have bs: "?bs = pre @ ?a @ ?b @ ?c @ ?rest" by (simp add: logged_bytes_def)
  have "log_next ?bs (length pre) = Inr (ucast (series_id_get (lp_id p)), length (pre @ ?a))"
    unfolding bs using log_next_write [of pre "ucast (series_id_get (lp_id p))" "?b @ ?c @ ?rest"] by simp
  moreover have "log_next ?bs (length (pre @ ?a)) = Inr (lp_ts p - base, length (pre @ ?a @ ?b))"
    unfolding bs using log_next_write [of "pre @ ?a" "lp_ts p - base" "?c @ ?rest"] by simp
  moreover have "log_next ?bs (length (pre @ ?a @ ?b)) = Inr (zigzag (lp_value p), length (pre @ ?a @ ?b @ ?c))"
    unfolding bs using log_next_write [of "pre @ ?a @ ?b" "zigzag (lp_value p)" ?rest] by simp
  moreover have "decode_logged (length ps) ?bs base (length (pre @ ?a @ ?b @ ?c))
      = Inr (ps, length (pre @ ?a @ ?b @ ?c) + length (concat (map (logged_bytes base) ps)))"
    unfolding bs using Cons.IH [of "pre @ ?a @ ?b @ ?c"] Cons.prems by simp
  moreover have "checked_add base (lp_ts p - base) = Some (lp_ts p)"
    using Cons.prems [of p] by (simp add: checked_add_eq_Some unat_sub_le word_le_nat_alt)
  ultimately show ?case
    by (simp add: u32_try_from_ucast logged_bytes_def [of base p] add.assoc length_concat)
qed simp

lemma decode_encode_log_entry:
  assumes "length points < 2 ^ 64"
  shows "decode_log_entry (encode_log_entry points) = Inr points"
proof -
  let ?base = "log_base points"
  let ?n = "write_varint [] (of_nat (length points))" and ?b = "write_varint [] ?base"
    and ?ps = "concat (map (logged_bytes ?base) points)"
  have head: "write_varint (write_varint [LOG_V1] (of_nat (length points))) ?base = [LOG_V1] @ ?n @ ?b"
    by (metis append.assoc write_varint_append)
  have bs: "encode_log_entry points = [LOG_V1] @ ?n @ ?b @ ?ps"
    unfolding encode_log_entry_def Let_def head fold_put_logged by simp
  have "log_next (encode_log_entry points) 1 = Inr (of_nat (length points), length ([LOG_V1] @ ?n))"
    unfolding bs using log_next_write [of "[LOG_V1]" "of_nat (length points)" "?b @ ?ps"] by simp
  moreover have "log_next (encode_log_entry points) (length ([LOG_V1] @ ?n)) = Inr (?base, length ([LOG_V1] @ ?n @ ?b))"
    unfolding bs using log_next_write [of "[LOG_V1] @ ?n" ?base ?ps] by simp
  moreover have "decode_logged (length points) (encode_log_entry points) ?base (length ([LOG_V1] @ ?n @ ?b))
      = Inr (points, length (encode_log_entry points))"
    unfolding bs using decode_logged_bytes [of points ?base "[LOG_V1] @ ?n @ ?b" "[]"] log_base_le by simp
  moreover have "unat (of_nat (length points) :: u64) = length points"
    using assms by (intro unat_of_nat_small) simp
  moreover have "encode_log_entry points \<noteq> []" "hd (encode_log_entry points) = LOG_V1"
    by (simp_all add: bs)
  ultimately show ?thesis
    by (simp add: decode_log_entry_def)
qed

section \<open>Properties\<close>

text \<open>A group commit's log entry replays exactly: it decodes to the points it was made of, in order.\<close>

theorem log_entry_roundtrip:
  assumes "length points < 2 ^ 64"
  shows "decode_log_entry (encode_log_entry points) = Inr points"
  using assms by (rule decode_encode_log_entry)

theorem log_entry_roundtrip_witness:
  "decode_log_entry (encode_log_entry [\<lparr>lp_id = SeriesId 3, lp_ts = 20, lp_value = -4\<rparr>, \<lparr>lp_id = SeriesId 1, lp_ts = 9, lp_value = 7\<rparr>])
     = Inr [\<lparr>lp_id = SeriesId 3, lp_ts = 20, lp_value = -4\<rparr>, \<lparr>lp_id = SeriesId 1, lp_ts = 9, lp_value = 7\<rparr>]"
  by (rule log_entry_roundtrip) simp

end
