(* ===== verification/Hub_Clock.thy ===== *)
theory Hub_Clock
  imports Prelude
begin

text \<open>
  Hub time and the guarded retention clock (\<open>system-hub/hub-store/src/clock.rs\<close>), with the part of
  \<open>std::time::Duration\<close> the store uses: seconds and nanoseconds, ordered in that order.  Hub time
  never runs backwards; the retention clock, which decides what may be deleted, advances at most
  twice as fast as the monotonic clock and never past hub time or the system clock.
\<close>

datatype duration = Duration (as_secs: u64) (subsec_nanos: u32)

instantiation duration :: linorder
begin

definition less_eq_duration :: "duration \<Rightarrow> duration \<Rightarrow> bool" where
  "less_eq_duration a b \<longleftrightarrow> as_secs a < as_secs b \<or> as_secs a = as_secs b \<and> subsec_nanos a \<le> subsec_nanos b"

definition less_duration :: "duration \<Rightarrow> duration \<Rightarrow> bool" where
  "less_duration a b \<longleftrightarrow> as_secs a < as_secs b \<or> as_secs a = as_secs b \<and> subsec_nanos a < subsec_nanos b"

instance
  by standard (auto simp: less_eq_duration_def less_duration_def duration.expand)

end

definition from_secs :: "u64 \<Rightarrow> duration" where
  "from_secs s = Duration s 0"

record hub_clock =
  last_issued :: u64

datatype hold = HoldNone | Held u64

datatype elapsed = SinceOpen | Measured duration

definition clock_resume :: "u64 \<Rightarrow> hub_clock" where
  "clock_resume ts = \<lparr>last_issued = ts\<rparr>"

definition clock_now :: "hub_clock \<Rightarrow> u64 \<Rightarrow> u64 \<times> hub_clock" where
  "clock_now c system_now = (let ts = max (last_issued c) system_now in (ts, c\<lparr>last_issued := ts\<rparr>))"

definition clock_hold :: "hub_clock \<Rightarrow> u64 \<Rightarrow> hold" where
  "clock_hold c system_now = (case checked_sub (last_issued c) system_now of
       Some gap \<Rightarrow> if gap > 0 then Held gap else HoldNone
     | None \<Rightarrow> HoldNone)"

definition retention_now :: "u64 \<Rightarrow> u64 \<Rightarrow> u64 \<Rightarrow> elapsed \<Rightarrow> u64" where
  "retention_now previous hub_now system_now since =
     (let allowed = (case since of SinceOpen \<Rightarrow> 0 | Measured d \<Rightarrow> sat_mul (as_secs d) 2)
      in min (min hub_now system_now) (sat_add previous allowed))"

definition first_retention_clock :: "u64 \<Rightarrow> u64 \<Rightarrow> u64" where
  "first_retention_clock hub_now system_now = min hub_now system_now"

section \<open>Runs of the clock\<close>

text \<open>The times issued for a sequence of readings of the system clock.\<close>

primrec issued :: "hub_clock \<Rightarrow> u64 list \<Rightarrow> u64 list" where
  "issued c [] = []"
| "issued c (s # ss) = (let (ts, c') = clock_now c s in ts # issued c' ss)"

lemma duration_le_secs: "(d :: duration) \<le> e \<Longrightarrow> as_secs d \<le> as_secs e"
  by (auto simp: less_eq_duration_def)

lemma unat_min: "unat (min a b) = min (unat a) (unat b)"
  by (simp add: min_def word_le_nat_alt)

lemma issued_ge: "t \<in> set (issued c ss) \<Longrightarrow> last_issued c \<le> t"
proof (induction ss arbitrary: c)
  case (Cons s ss)
  then show ?case
    using Cons.IH [of "c\<lparr>last_issued := max (last_issued c) s\<rparr>"] by (auto simp: clock_now_def Let_def)
qed simp

lemma issued_sorted: "sorted (issued c ss)"
  by (induction ss arbitrary: c) (auto simp: clock_now_def Let_def dest: issued_ge)

lemma issued_ge_system: "list_all2 (\<le>) ss (issued c ss)"
  by (induction ss arbitrary: c) (auto simp: clock_now_def Let_def)

section \<open>Properties\<close>

text \<open>Hub time never runs backwards: whatever the system clock reads, and across a restart from the
  last committed time, the issued times are non-decreasing, at least the resumed time and at least
  the system clock; and the clock reports a hold of exactly the seconds hub time is ahead.\<close>

theorem hub_time_monotone:
  "sorted (ts # issued (clock_resume ts) ss) \<and> list_all2 (\<le>) ss (issued (clock_resume ts) ss)
   \<and> (case clock_hold (clock_resume ts) s of
        HoldNone \<Rightarrow> ts \<le> s | Held gap \<Rightarrow> s < ts \<and> unat ts = unat s + unat gap)"
proof -
  have "sorted (ts # issued (clock_resume ts) ss)"
    using issued_sorted issued_ge [of _ "clock_resume ts"] by (auto simp: clock_resume_def)
  moreover have "case clock_hold (clock_resume ts) s of
        HoldNone \<Rightarrow> ts \<le> s | Held gap \<Rightarrow> s < ts \<and> unat ts = unat s + unat gap"
    by (auto simp: clock_hold_def clock_resume_def word_gt_0 checked_sub_def word_order_unat unat_sub_le)
  ultimately show ?thesis using issued_ge_system by blast
qed

text \<open>The retention clock is guarded: a pass never takes it past hub time or the system clock, nor
  further than twice the whole seconds measured since the previous pass (not at all on the first
  pass after the store opened), and it advances whenever all three allow it.\<close>

theorem retention_clock_guarded:
  "let r = retention_now previous hub_now system_now since;
       allowed = (case since of SinceOpen \<Rightarrow> 0 | Measured d \<Rightarrow> 2 * unat (as_secs d))
   in r \<le> hub_now \<and> r \<le> system_now \<and> unat r \<le> unat previous + allowed
    \<and> (r = hub_now \<or> r = system_now \<or> unat r = min (2 ^ 64 - 1) (unat previous + allowed))"
proof -
  have mult: "unat (sat_add previous (sat_mul s 2)) = min (2 ^ 64 - 1) (unat previous + 2 * unat s)" for s
    by (auto simp: unat_arith_simps)
  have zero: "sat_add previous 0 = previous"
    using u64_bound [of previous] by (simp add: word_unat_eq_iff unat_arith_simps)
  show ?thesis
    using u64_bound [of previous]
    by (cases since) (auto simp: retention_now_def Let_def min_def mult zero word_order_unat split: if_splits)
qed

text \<open>A system clock stepped back before the open lowers the retention clock at the first pass.\<close>

lemma first_pass_may_lower_the_clock:
  assumes "system_now < previous"
  shows "retention_now previous hub_now system_now SinceOpen < previous"
proof -
  have "min (min hub_now system_now) (sat_add previous 0) \<le> system_now"
    by (simp add: min.coboundedI1)
  then show ?thesis
    using assms by (simp add: retention_now_def)
qed

end
