(* ===== verification/Ordered_Map.thy ===== *)
theory Ordered_Map
  imports Prelude
begin

text \<open>
  The ordered collections of Rust's standard library: a \<open>BTreeMap\<close> as its entries in strictly
  increasing key order, a \<open>BTreeSet\<close> as its elements in strictly increasing order.  The locale
  \<open>map_interface\<close> states what the components rely on of a map (what a lookup returns after an
  insertion or a removal, and that both keep the order), and is interpreted on the sorted lists.
\<close>

type_synonym ('k, 'v) btree_map = "('k \<times> 'v) list"

type_synonym 'k btree_set = "'k list"

definition om_valid :: "('k::linorder, 'v) btree_map \<Rightarrow> bool" where
  "om_valid m \<longleftrightarrow> sorted_wrt (<) (map fst m)"

definition om_get :: "('k, 'v) btree_map \<Rightarrow> 'k \<Rightarrow> 'v option" where
  "om_get m k = map_of m k"

primrec om_insert :: "('k::linorder, 'v) btree_map \<Rightarrow> 'k \<Rightarrow> 'v \<Rightarrow> ('k, 'v) btree_map" where
  "om_insert [] k v = [(k, v)]"
| "om_insert (e # m) k v = (if k < fst e then (k, v) # e # m
     else if k = fst e then (k, v) # m else e # om_insert m k v)"

definition om_remove :: "('k, 'v) btree_map \<Rightarrow> 'k \<Rightarrow> ('k, 'v) btree_map" where
  "om_remove m k = filter (\<lambda>e. fst e \<noteq> k) m"

definition om_values :: "('k, 'v) btree_map \<Rightarrow> 'v list" where
  "om_values m = map snd m"

definition bs_contains :: "'k btree_set \<Rightarrow> 'k \<Rightarrow> bool" where
  "bs_contains s k \<longleftrightarrow> k \<in> set s"

primrec bs_insert :: "'k::linorder btree_set \<Rightarrow> 'k \<Rightarrow> 'k btree_set" where
  "bs_insert [] k = [k]"
| "bs_insert (x # s) k = (if k < x then k # x # s else if k = x then x # s else x # bs_insert s k)"

section \<open>The interface of a map\<close>

locale map_interface =
  fixes get :: "'m \<Rightarrow> 'k \<Rightarrow> 'v option"
    and insert :: "'m \<Rightarrow> 'k \<Rightarrow> 'v \<Rightarrow> 'm"
    and remove :: "'m \<Rightarrow> 'k \<Rightarrow> 'm"
    and valid :: "'m \<Rightarrow> bool"
  assumes get_insert: "valid m \<Longrightarrow> get (insert m k v) j = (if j = k then Some v else get m j)"
    and get_remove: "valid m \<Longrightarrow> get (remove m k) j = (if j = k then None else get m j)"
    and valid_insert: "valid m \<Longrightarrow> valid (insert m k v)"
    and valid_remove: "valid m \<Longrightarrow> valid (remove m k)"
begin

text \<open>Keeping an entry only when it says something: 
  one branch removes the key, the other inserts.\<close>

lemma get_put:
  "valid m \<Longrightarrow> get (if gone then remove m k else insert m k v) j
    = (if j = k then (if gone then None else Some v) else get m j)"
  by (simp add: get_insert get_remove)

lemma valid_put: "valid m \<Longrightarrow> valid (if gone then remove m k else insert m k v)"
  by (simp add: valid_insert valid_remove)

end

lemma om_insert_keys: "set (map fst (om_insert m k v)) = insert k (set (map fst m))"
  by (induction m) auto

lemma om_insert_valid: "om_valid m \<Longrightarrow> om_valid (om_insert m k v)"
proof (induction m)
  case (Cons e m)
  then have "om_valid (om_insert m k v)" by (simp add: om_valid_def)
  then show ?case
    using Cons.prems om_insert_keys [of m k v] by (auto simp: om_valid_def)
qed (simp add: om_valid_def)

lemma om_get_insert: "om_get (om_insert m k v) j = (if j = k then Some v else om_get m j)"
  by (induction m) (auto simp: om_get_def)

lemma om_get_remove: "om_get (om_remove m k) j = (if j = k then None else om_get m j)"
  by (induction m) (auto simp: om_get_def om_remove_def)

lemma om_remove_valid: "om_valid m \<Longrightarrow> om_valid (om_remove m k)"
  by (simp add: om_valid_def om_remove_def sorted_wrt_map sorted_wrt_filter)

interpretation btree: map_interface om_get om_insert om_remove om_valid
  by unfold_locales (simp_all add: om_get_insert om_get_remove om_insert_valid om_remove_valid)

section \<open>Further facts\<close>

lemma om_valid_Nil [simp]: "om_valid []"
  by (simp add: om_valid_def)

lemma om_get_Nil [simp]: "om_get [] k = None"
  by (simp add: om_get_def)

lemma om_valid_distinct: "om_valid m \<Longrightarrow> distinct (map fst m)"
  by (simp add: om_valid_def strict_sorted_iff)

lemma om_get_iff: "om_valid m \<Longrightarrow> om_get m k = Some v \<longleftrightarrow> (k, v) \<in> set m"
  by (simp add: om_get_def om_valid_distinct)

lemma om_get_in: "om_get m k = Some v \<Longrightarrow> (k, v) \<in> set m"
  by (simp add: om_get_def map_of_SomeD)

lemma om_get_None: "om_get m k = None \<longleftrightarrow> k \<notin> fst ` set m"
  by (simp add: om_get_def map_of_eq_None_iff)

lemma om_values_iff: "om_valid m \<Longrightarrow> v \<in> set (om_values m) \<longleftrightarrow> (\<exists>k. om_get m k = Some v)"
  by (force simp: om_values_def om_get_iff)

lemma bs_insert_set [simp]: "set (bs_insert s k) = insert k (set s)"
  by (induction s) auto

lemma bs_insert_sorted: "sorted_wrt (<) s \<Longrightarrow> sorted_wrt (<) (bs_insert s k)"
  by (induction s) auto

lemma bs_contains_insert [simp]: "bs_contains (bs_insert s k) j \<longleftrightarrow> j = k \<or> bs_contains s j"
  by (auto simp: bs_contains_def)

section \<open>Maps built from lists\<close>

lemma om_get_collect:
  "om_get (foldl (\<lambda>m (k, v). om_insert m k v) m xs) j = (case map_of (rev xs) j of Some v \<Rightarrow> Some v | None \<Rightarrow> om_get m j)"
  by (induction xs arbitrary: m) (auto simp: om_get_insert split: option.splits)

lemma om_valid_collect: "om_valid m \<Longrightarrow> om_valid (foldl (\<lambda>m (k, v). om_insert m k v) m xs)"
  by (induction xs arbitrary: m) (auto simp: om_insert_valid)

lemma om_eqI:
  assumes "om_valid a" and "om_valid b" and "\<And>k. om_get a k = om_get b k"
  shows "a = b"
proof -
  have "set a = set b" using om_get_iff [OF assms(1)] om_get_iff [OF assms(2)] assms(3) by auto
  moreover have "inj_on fst (set b)" using om_valid_distinct [OF assms(2)] by (simp add: distinct_map)
  ultimately show ?thesis
    using map_sorted_distinct_set_unique [of fst a b] om_valid_distinct [OF assms(1)] om_valid_distinct [OF assms(2)] assms(1,2)
    by (auto simp: om_valid_def strict_sorted_iff)
qed

lemma om_collect_set:
  assumes "distinct (map fst xs)"
  shows "set (foldl (\<lambda>m (k, v). om_insert m k v) [] xs) = set xs"
proof -
  have "(k, v) \<in> set (foldl (\<lambda>m (k, v). om_insert m k v) [] xs) \<longleftrightarrow> (k, v) \<in> set xs" for k v
  proof -
    have "distinct (map fst (rev xs))" using assms by (simp add: rev_map [symmetric])
    then have "map_of (rev xs) k = Some v \<longleftrightarrow> (k, v) \<in> set xs" using map_of_eq_Some_iff [of "rev xs" k v] by simp
    moreover have "om_get (foldl (\<lambda>m (k, v). om_insert m k v) [] xs) k = map_of (rev xs) k"
      by (simp add: om_get_collect split: option.splits)
    ultimately show ?thesis using om_get_iff [OF om_valid_collect [OF om_valid_Nil, of xs], of k v] by simp
  qed
  then show ?thesis by auto
qed

lemma om_collect_eq:
  assumes "om_valid m" and "distinct (map fst xs)" and "set xs = set m"
  shows "foldl (\<lambda>m (k, v). om_insert m k v) [] xs = m"
proof (rule om_eqI [OF om_valid_collect [OF om_valid_Nil] assms(1)])
  fix k
  show "om_get (foldl (\<lambda>m (k, v). om_insert m k v) [] xs) k = om_get m k"
    using om_get_iff [OF om_valid_collect [OF om_valid_Nil, of xs], of k] om_get_iff [OF assms(1), of k] om_collect_set [OF assms(2)] assms(3)
    by (metis not_None_eq)
qed

end
