(* ===== verification/Policy.thy ===== *)
theory Policy
  imports Tier Names Hub_Clock Ordered_Map
begin

text \<open>
  Retention policies (\<open>system-hub/hub-store/src/retention/policy.rs\<close>): a bounded period per tier, the
  global policy, and per-system overrides, each tier following the global policy or fixed, with at
  most one pending shortening.  The state is a global policy and an ordered map of overrides; the
  lemmas show that every reachable state holds only periods of their own tier within its bounds,
  that a requested change never shortens what is enforced before its delay has ended, and that
  \<open>longest\<close> bounds every system's period.
\<close>

record 'a per_tier =
  pt_raw :: 'a
  pt_minute :: 'a
  pt_hour :: 'a

definition pt_from_fn :: "(tier \<Rightarrow> 'a) \<Rightarrow> 'a per_tier" where
  "pt_from_fn f = \<lparr>pt_raw = f Raw, pt_minute = f Minute, pt_hour = f Hour\<rparr>"

definition pt_get :: "'a per_tier \<Rightarrow> tier \<Rightarrow> 'a" where
  "pt_get p t = (case t of Raw \<Rightarrow> pt_raw p | Minute \<Rightarrow> pt_minute p | Hour \<Rightarrow> pt_hour p)"

text \<open>Assigning through \<open>get_mut\<close>.\<close>

definition pt_set :: "'a per_tier \<Rightarrow> tier \<Rightarrow> 'a \<Rightarrow> 'a per_tier" where
  "pt_set p t x = (case t of Raw \<Rightarrow> p\<lparr>pt_raw := x\<rparr> | Minute \<Rightarrow> p\<lparr>pt_minute := x\<rparr> | Hour \<Rightarrow> p\<lparr>pt_hour := x\<rparr>)"

section \<open>Periods and the global policy\<close>

record tier_period =
  tp_tier :: tier
  tp_period :: duration

datatype out_of_bounds = OutOfBounds tier

definition tier_period_new :: "tier \<Rightarrow> duration \<Rightarrow> out_of_bounds + tier_period" where
  "tier_period_new t period =
     (if from_secs (min_retention_secs t) \<le> period \<and> period \<le> from_secs (max_retention_secs t)
      then Inr \<lparr>tp_tier = t, tp_period = period\<rparr> else Inl (OutOfBounds t))"

definition default_for :: "tier \<Rightarrow> tier_period" where
  "default_for t = (let days = (case t of Raw \<Rightarrow> 1 | Minute \<Rightarrow> 14 | Hour \<Rightarrow> 30)
     in \<lparr>tp_tier = t, tp_period = from_secs (days * 86400)\<rparr>)"

record retention_policy =
  pol_periods :: "tier_period per_tier"

definition policy_default :: retention_policy where
  "policy_default = \<lparr>pol_periods = pt_from_fn default_for\<rparr>"

definition policy_with :: "retention_policy \<Rightarrow> tier_period \<Rightarrow> retention_policy" where
  "policy_with p period = p\<lparr>pol_periods := pt_set (pol_periods p) (tp_tier period) period\<rparr>"

definition policy_period :: "retention_policy \<Rightarrow> tier \<Rightarrow> tier_period" where
  "policy_period p t = pt_get (pol_periods p) t"

section \<open>Overrides\<close>

datatype tier_setting = FollowGlobal | Fixed tier_period

definition setting_resolve :: "tier_setting \<Rightarrow> tier_period \<Rightarrow> tier_period" where
  "setting_resolve s global = (case s of FollowGlobal \<Rightarrow> global | Fixed p \<Rightarrow> p)"

record pending_shortening =
  ps_next :: tier_setting
  ps_delay :: duration

record tier_override =
  to_setting :: tier_setting
  to_pending :: "pending_shortening option"

definition tier_override_default :: tier_override where
  "tier_override_default = \<lparr>to_setting = FollowGlobal, to_pending = None\<rparr>"

definition to_enforced :: "tier_override \<Rightarrow> tier_period \<Rightarrow> tier_period" where
  "to_enforced ov global = setting_resolve (to_setting ov) global"

definition to_change :: "tier_override \<Rightarrow> tier_setting \<Rightarrow> tier_period \<Rightarrow> duration \<Rightarrow> tier_override" where
  "to_change ov requested global delay =
     (if tp_period (to_enforced ov global) \<le> tp_period (setting_resolve requested global)
      then \<lparr>to_setting = requested, to_pending = None\<rparr>
      else \<lparr>to_setting = to_setting ov, to_pending = Some \<lparr>ps_next = requested, ps_delay = delay\<rparr>\<rparr>)"

definition to_take_effect :: "tier_override \<Rightarrow> tier_override" where
  "to_take_effect ov = (case to_pending ov of
       Some p \<Rightarrow> \<lparr>to_setting = ps_next p, to_pending = None\<rparr>
     | None \<Rightarrow> ov)"

definition to_follows_global :: "tier_override \<Rightarrow> bool" where
  "to_follows_global ov \<longleftrightarrow> to_setting ov = FollowGlobal \<and> to_pending ov = None"

definition to_is_of :: "tier_override \<Rightarrow> tier \<Rightarrow> bool" where
  "to_is_of ov t = list_all (\<lambda>s. case s of FollowGlobal \<Rightarrow> True | Fixed p \<Rightarrow> tp_tier p = t)
     (to_setting ov # (case to_pending ov of None \<Rightarrow> [] | Some p \<Rightarrow> [ps_next p]))"

record override =
  ov_tiers :: "tier_override per_tier"

datatype tier_mismatch = TierMismatch tier

definition override_default :: override where
  "override_default = \<lparr>ov_tiers = pt_from_fn (\<lambda>_. tier_override_default)\<rparr>"

definition override_new :: "tier_override per_tier \<Rightarrow> tier_mismatch + override" where
  "override_new tiers = (case find (\<lambda>t. \<not> to_is_of (pt_get tiers t) t) all_tiers of
       Some t \<Rightarrow> Inl (TierMismatch t)
     | None \<Rightarrow> Inr \<lparr>ov_tiers = tiers\<rparr>)"

definition ov_tier :: "override \<Rightarrow> tier \<Rightarrow> tier_override" where
  "ov_tier ov t = pt_get (ov_tiers ov) t"

definition ov_follows_global :: "override \<Rightarrow> bool" where
  "ov_follows_global ov = list_all (\<lambda>t. to_follows_global (ov_tier ov t)) all_tiers"

section \<open>Requested changes\<close>

record retention_change =
  rch_tiers :: "tier_setting per_tier"

datatype duplicate_tier = DuplicateTier tier

definition change_follow_global :: retention_change where
  "change_follow_global = \<lparr>rch_tiers = pt_from_fn (\<lambda>_. FollowGlobal)\<rparr>"

primrec change_fold :: "retention_change \<Rightarrow> tier_period list \<Rightarrow> duplicate_tier + retention_change" where
  "change_fold c [] = Inr c"
| "change_fold c (p # ps) = (case pt_get (rch_tiers c) (tp_tier p) of
       FollowGlobal \<Rightarrow> change_fold (c\<lparr>rch_tiers := pt_set (rch_tiers c) (tp_tier p) (Fixed p)\<rparr>) ps
     | Fixed _ \<Rightarrow> Inl (DuplicateTier (tp_tier p)))"

definition change_new :: "tier_period list \<Rightarrow> duplicate_tier + retention_change" where
  "change_new periods = change_fold change_follow_global periods"

definition change_tier :: "retention_change \<Rightarrow> tier \<Rightarrow> tier_setting" where
  "change_tier c t = pt_get (rch_tiers c) t"

section \<open>The policies of the hub\<close>

record retention_outcome =
  ro_before :: "override option"
  ro_after :: "override option"

record policies =
  po_global :: retention_policy
  po_overrides :: "(system_key, override) btree_map"

definition policies_new :: "retention_policy \<Rightarrow> policies" where
  "policies_new global = \<lparr>po_global = global, po_overrides = []\<rparr>"

definition override_of :: "policies \<Rightarrow> system_key \<Rightarrow> override option" where
  "override_of p system = om_get (po_overrides p) system"

definition policies_put :: "policies \<Rightarrow> system_key \<Rightarrow> override \<Rightarrow> policies" where
  "policies_put p system over = p\<lparr>po_overrides :=
     (if ov_follows_global over then om_remove (po_overrides p) system else om_insert (po_overrides p) system over)\<rparr>"

definition policies_restore :: "policies \<Rightarrow> system_key \<Rightarrow> override \<Rightarrow> policies" where
  "policies_restore p system over = policies_put p system over"

definition effective :: "policies \<Rightarrow> system_key \<Rightarrow> tier \<Rightarrow> tier_period" where
  "effective p system t = (let global = policy_period (po_global p) t
     in case om_get (po_overrides p) system of None \<Rightarrow> global | Some over \<Rightarrow> to_enforced (ov_tier over t) global)"

definition longest :: "policies \<Rightarrow> tier \<Rightarrow> tier_period" where
  "longest p t = (let global = policy_period (po_global p) t
     in foldl (\<lambda>longest q. if tp_period longest < tp_period q then q else longest) global
          (map (\<lambda>over. to_enforced (ov_tier over t) global) (om_values (po_overrides p))))"

definition policies_update ::
  "policies \<Rightarrow> system_key \<Rightarrow> (override \<Rightarrow> retention_policy \<Rightarrow> override) \<Rightarrow> retention_outcome \<times> policies" where
  "policies_update p system f =
     (let before = om_get (po_overrides p) system;
          after = f (case before of None \<Rightarrow> override_default | Some over \<Rightarrow> over) (po_global p);
          p' = policies_put p system after
      in (\<lparr>ro_before = before, ro_after = om_get (po_overrides p') system\<rparr>, p'))"

definition policies_change ::
  "policies \<Rightarrow> system_key \<Rightarrow> retention_change \<Rightarrow> duration \<Rightarrow> retention_outcome \<times> policies" where
  "policies_change p system change delay =
     policies_update p system (\<lambda>over global. \<lparr>ov_tiers = pt_from_fn (\<lambda>t.
       to_change (ov_tier over t) (change_tier change t) (policy_period global t) delay)\<rparr>)"

definition policies_take_effect :: "policies \<Rightarrow> system_key \<Rightarrow> tier \<Rightarrow> retention_outcome \<times> policies" where
  "policies_take_effect p system t = (case om_get (po_overrides p) system of
       None \<Rightarrow> (\<lparr>ro_before = None, ro_after = None\<rparr>, p)
     | Some _ \<Rightarrow> policies_update p system (\<lambda>over _.
         over\<lparr>ov_tiers := pt_set (ov_tiers over) t (to_take_effect (ov_tier over t))\<rparr>))"


section \<open>Lemmas\<close>

lemma pt_get_simps [simp]:
  "pt_get (pt_from_fn f) t = f t"
  "pt_get (pt_set p t x) t' = (if t' = t then x else pt_get p t')"
  by (cases t; simp add: pt_get_def pt_from_fn_def) (cases t; cases t'; simp add: pt_get_def pt_set_def)

lemma set_all_tiers [simp]: "set all_tiers = UNIV"
proof -
  have "t \<in> set all_tiers" for t by (cases t) (simp_all add: all_tiers_def)
  then show ?thesis by blast
qed

lemma all_tiers_iff [simp]: "list_all P all_tiers \<longleftrightarrow> (\<forall>t. P t)"
  by (simp add: list_all_iff)

lemma ov_tier_update [simp]:
  "ov_tier \<lparr>ov_tiers = pt_from_fn f\<rparr> t = f t"
  "ov_tier (over\<lparr>ov_tiers := pt_set (ov_tiers over) t x\<rparr>) t' = (if t' = t then x else ov_tier over t')"
  by (simp_all add: ov_tier_def)

lemma ov_tier_default [simp]: "ov_tier override_default t = tier_override_default"
  by (simp add: override_default_def)

text \<open>A period of its own tier, within its bounds; a setting, and an override, made of such periods.\<close>

definition period_ok :: "tier \<Rightarrow> tier_period \<Rightarrow> bool" where
  "period_ok t p \<longleftrightarrow> tier_period_new t (tp_period p) = Inr p"

definition setting_ok :: "tier \<Rightarrow> tier_setting \<Rightarrow> bool" where
  "setting_ok t s = (case s of FollowGlobal \<Rightarrow> True | Fixed p \<Rightarrow> period_ok t p)"

definition tier_override_ok :: "tier \<Rightarrow> tier_override \<Rightarrow> bool" where
  "tier_override_ok t ov \<longleftrightarrow> setting_ok t (to_setting ov)
     \<and> (case to_pending ov of None \<Rightarrow> True | Some p \<Rightarrow> setting_ok t (ps_next p))"

definition override_ok :: "override \<Rightarrow> bool" where
  "override_ok over \<longleftrightarrow> (\<forall>t. tier_override_ok t (ov_tier over t))"

text \<open>The invariant of the policies: what their type promises, and no override that says nothing.\<close>

definition policies_ok :: "policies \<Rightarrow> bool" where
  "policies_ok p \<longleftrightarrow> (\<forall>t. period_ok t (policy_period (po_global p) t)) \<and> om_valid (po_overrides p)
     \<and> (\<forall>system over. om_get (po_overrides p) system = Some over \<longrightarrow> override_ok over \<and> \<not> ov_follows_global over)"

lemma period_ok_iff:
  "period_ok t p \<longleftrightarrow> tp_tier p = t \<and> from_secs (min_retention_secs t) \<le> tp_period p
     \<and> tp_period p \<le> from_secs (max_retention_secs t)"
  by (cases p) (auto simp: period_ok_def tier_period_new_def)

lemma tier_period_new_ok: "tier_period_new t d = Inr p \<Longrightarrow> period_ok t p"
  by (auto simp: period_ok_def tier_period_new_def split: if_splits)

lemma default_for_ok: "period_ok t (default_for t)"
  by (cases t) (simp_all add: period_ok_iff default_for_def from_secs_def less_eq_duration_def
      min_retention_secs_def max_retention_secs_def)

lemma setting_resolve_ok: "setting_ok t s \<Longrightarrow> period_ok t g \<Longrightarrow> period_ok t (setting_resolve s g)"
  by (cases s) (simp_all add: setting_ok_def setting_resolve_def)

lemma to_change_ok:
  "tier_override_ok t ov \<Longrightarrow> setting_ok t s \<Longrightarrow> tier_override_ok t (to_change ov s g d)"
  by (auto simp: tier_override_ok_def to_change_def)

lemma to_take_effect_ok: "tier_override_ok t ov \<Longrightarrow> tier_override_ok t (to_take_effect ov)"
  by (auto simp: tier_override_ok_def to_take_effect_def split: option.splits)

lemma override_default_ok: "override_ok override_default"
  by (simp add: override_ok_def tier_override_ok_def tier_override_default_def setting_ok_def)

lemma override_get_put:
  "om_valid (po_overrides p) \<Longrightarrow> om_get (po_overrides (policies_put p system over)) s
    = (if s = system then (if ov_follows_global over then None else Some over) else om_get (po_overrides p) s)"
  by (simp add: policies_put_def btree.get_put)

lemma policies_put_valid: "om_valid (po_overrides p) \<Longrightarrow> om_valid (po_overrides (policies_put p system over))"
  by (simp add: policies_put_def btree.valid_put)

lemma policies_put_global [simp]: "po_global (policies_put p system over) = po_global p"
  by (simp add: policies_put_def)

lemma policies_put_ok: "policies_ok p \<Longrightarrow> override_ok over \<Longrightarrow> policies_ok (policies_put p system over)"
  by (auto simp: policies_ok_def override_get_put policies_put_valid split: if_splits)

lemma policies_update_ok:
  assumes "policies_ok p" "\<And>over. override_ok over \<Longrightarrow> override_ok (f over (po_global p))"
  shows "policies_ok (snd (policies_update p system f))"
proof -
  have "override_ok (case om_get (po_overrides p) system of None \<Rightarrow> override_default | Some over \<Rightarrow> over)"
    using assms(1) by (auto simp: policies_ok_def override_default_ok split: option.splits)
  then show ?thesis
    using assms by (simp add: policies_update_def Let_def policies_put_ok)
qed

lemma change_fold_ok:
  "change_fold c ps = Inr c' \<Longrightarrow> \<forall>p\<in>set ps. period_ok (tp_tier p) p \<Longrightarrow> \<forall>t. setting_ok t (change_tier c t)
    \<Longrightarrow> setting_ok t (change_tier c' t)"
  by (induction ps arbitrary: c) (auto simp: change_tier_def setting_ok_def split: tier_setting.splits)

lemma change_new_ok:
  "change_new ps = Inr c \<Longrightarrow> \<forall>p\<in>set ps. period_ok (tp_tier p) p \<Longrightarrow> setting_ok t (change_tier c t)"
  unfolding change_new_def
  by (erule change_fold_ok) (simp_all add: change_tier_def change_follow_global_def setting_ok_def)

text \<open>What is enforced for a system: an absent override says what the default one says.\<close>

lemma effective_put:
  assumes "om_valid (po_overrides p)"
  shows "effective (policies_put p system over) s t
    = (if s = system then to_enforced (ov_tier over t) (policy_period (po_global p) t) else effective p s t)"
proof -
  have "to_enforced (ov_tier over t) g = g" if "ov_follows_global over" for g
    using that by (simp add: ov_follows_global_def to_follows_global_def to_enforced_def setting_resolve_def)
  then show ?thesis
    by (simp add: effective_def override_get_put [OF assms] Let_def)
qed

lemma effective_default:
  "effective p s t = to_enforced (ov_tier (case om_get (po_overrides p) s of None \<Rightarrow> override_default | Some over \<Rightarrow> over) t)
     (policy_period (po_global p) t)"
  by (auto simp: effective_def Let_def to_enforced_def setting_resolve_def tier_override_default_def split: option.splits)

lemma effective_ok: "policies_ok p \<Longrightarrow> period_ok t (effective p s t)"
proof (cases "om_get (po_overrides p) s")
  case (Some over)
  assume ok: "policies_ok p"
  then have "override_ok over" using Some by (simp add: policies_ok_def)
  then have "setting_ok t (to_setting (ov_tier over t))"
    by (simp add: override_ok_def tier_override_ok_def)
  then show ?thesis
    using ok Some by (simp add: policies_ok_def effective_def to_enforced_def setting_resolve_ok)
qed (simp add: policies_ok_def effective_def)

text \<open>The longest period: a fold that keeps the first of the largest.\<close>

lemma longest_fold:
  "let l = foldl (\<lambda>longest q. if tp_period longest < tp_period q then q else longest) g qs
   in (l = g \<or> l \<in> set qs) \<and> (\<forall>q\<in>insert g (set qs). tp_period q \<le> tp_period l)"
proof (induction qs rule: rev_induct)
  case (snoc q qs)
  then show ?case by (auto simp: Let_def)
qed simp


lemma longest_bounds: "om_valid (po_overrides p) \<Longrightarrow> tp_period (effective p s t) \<le> tp_period (longest p t)"
proof -
  assume valid: "om_valid (po_overrides p)"
  let ?g = "policy_period (po_global p) t"
  let ?qs = "map (\<lambda>over. to_enforced (ov_tier over t) ?g) (om_values (po_overrides p))"
  have "effective p s t \<in> insert ?g (set ?qs)"
  proof (cases "om_get (po_overrides p) s")
    case (Some over)
    then have "over \<in> set (om_values (po_overrides p))" using om_values_iff [OF valid] by blast
    then show ?thesis using Some by (simp add: effective_def)
  qed (simp add: effective_def)
  then show ?thesis
    using longest_fold [of ?g ?qs] unfolding longest_def Let_def by blast
qed

lemma longest_attained: "om_valid (po_overrides p) \<Longrightarrow> longest p t = policy_period (po_global p) t \<or> (\<exists>s. longest p t = effective p s t)"
proof -
  assume valid: "om_valid (po_overrides p)"
  let ?g = "policy_period (po_global p) t"
  let ?qs = "map (\<lambda>over. to_enforced (ov_tier over t) ?g) (om_values (po_overrides p))"
  have "longest p t = ?g \<or> longest p t \<in> set ?qs"
    using longest_fold [of ?g ?qs] by (simp add: longest_def Let_def)
  moreover have "\<exists>s. q = effective p s t" if q: "q \<in> set ?qs" for q
  proof -
    obtain over s where "om_get (po_overrides p) s = Some over" "q = to_enforced (ov_tier over t) ?g"
      using q om_values_iff [OF valid] by auto
    then have "q = effective p s t" by (simp add: effective_def)
    then show ?thesis ..
  qed
  ultimately show ?thesis by blast
qed

section \<open>Reachable policies\<close>

text \<open>The states the operations lead to from a new store.  A period only comes from
  \<open>TierPeriod::new\<close> or the defaults, so it is within the bounds of the tier it names.\<close>

definition period_made :: "tier_period \<Rightarrow> bool" where
  "period_made p \<longleftrightarrow> period_ok (tp_tier p) p"

definition setting_made :: "tier_setting \<Rightarrow> bool" where
  "setting_made s = (case s of FollowGlobal \<Rightarrow> True | Fixed p \<Rightarrow> period_made p)"

definition tier_override_made :: "tier_override \<Rightarrow> bool" where
  "tier_override_made ov \<longleftrightarrow> setting_made (to_setting ov)
     \<and> (case to_pending ov of None \<Rightarrow> True | Some p \<Rightarrow> setting_made (ps_next p))"

inductive policies_reachable :: "policies \<Rightarrow> bool" where
  new: "list_all period_made ps \<Longrightarrow> policies_reachable (policies_new (foldl policy_with policy_default ps))"
| restore: "policies_reachable p \<Longrightarrow> override_new tiers = Inr over \<Longrightarrow> list_all (\<lambda>t. tier_override_made (pt_get tiers t)) all_tiers
    \<Longrightarrow> policies_reachable (policies_restore p system over)"
| change: "policies_reachable p \<Longrightarrow> change_new ps = Inr c \<Longrightarrow> list_all period_made ps
    \<Longrightarrow> policies_reachable (snd (policies_change p system c delay))"
| take_effect: "policies_reachable p \<Longrightarrow> policies_reachable (snd (policies_take_effect p system t))"

lemma policy_with_ok:
  "list_all period_made ps \<Longrightarrow> \<forall>t. period_ok t (policy_period g t)
    \<Longrightarrow> period_ok t (policy_period (foldl policy_with g ps) t)"
proof (induction ps arbitrary: g)
  case (Cons p ps)
  have "\<forall>t. period_ok t (policy_period (policy_with g p) t)"
    using Cons.prems by (simp add: policy_period_def policy_with_def period_made_def)
  then show ?case using Cons by simp
qed simp

lemma setting_made_ok:
  "setting_made s \<Longrightarrow> (case s of FollowGlobal \<Rightarrow> True | Fixed p \<Rightarrow> tp_tier p = t) \<Longrightarrow> setting_ok t s"
  by (cases s) (auto simp: setting_made_def setting_ok_def period_made_def)

lemma to_is_of_made: "to_is_of ov t \<Longrightarrow> tier_override_made ov \<Longrightarrow> tier_override_ok t ov"
  by (cases "to_pending ov") (simp_all add: to_is_of_def tier_override_made_def tier_override_ok_def setting_made_ok)

lemma override_new_ok:
  assumes "override_new tiers = Inr over" "\<forall>t. tier_override_made (pt_get tiers t)"
  shows "override_ok over"
proof -
  have over: "over = \<lparr>ov_tiers = tiers\<rparr>" and "find (\<lambda>t. \<not> to_is_of (pt_get tiers t) t) all_tiers = None"
    using assms(1) by (auto simp: override_new_def split: option.splits)
  then have "\<forall>t. to_is_of (pt_get tiers t) t" by (simp add: find_None_iff)
  then have "tier_override_ok t (pt_get tiers t)" for t
    using assms(2) by (intro to_is_of_made) simp_all
  then show ?thesis by (simp add: override_ok_def over ov_tier_def)
qed

lemma policies_reachable_ok: "policies_reachable p \<Longrightarrow> policies_ok p"
proof (induction rule: policies_reachable.induct)
  case (new ps)
  have "\<forall>t. period_ok t (policy_period policy_default t)"
    by (simp add: policy_period_def policy_default_def default_for_ok)
  with new show ?case by (simp add: policies_ok_def policies_new_def policy_with_ok)
next
  case (restore p tiers over system)
  then show ?case by (simp add: policies_restore_def policies_put_ok override_new_ok)
next
  case (change p ps c system delay)
  have "setting_ok t (change_tier c t)" for t
    using change.hyps by (auto simp: list_all_iff period_made_def intro: change_new_ok)
  then show ?case
    unfolding policies_change_def using change.IH
    by (intro policies_update_ok) (simp_all add: override_ok_def to_change_ok)
next
  case (take_effect p system t)
  then show ?case
    by (auto simp: policies_take_effect_def override_ok_def to_take_effect_ok intro!: policies_update_ok split: option.splits)
qed

section \<open>Properties\<close>

text \<open>C15. Whatever overrides are restored, changes requested and shortenings applied, the period
  enforced for any system and tier is a period of that tier within the tier's bounds, no override
  that says nothing is kept, and the overrides stay in key order.\<close>

theorem policies_invariant:
  assumes "policies_reachable p"
  shows "tier_period_new t (tp_period (effective p s t)) = Inr (effective p s t)
    \<and> om_valid (po_overrides p) \<and> (case override_of p s of None \<Rightarrow> True | Some over \<Rightarrow> \<not> ov_follows_global over)"
proof -
  have "policies_ok p" using assms by (rule policies_reachable_ok)
  moreover from this have "period_ok t (effective p s t)" by (rule effective_ok)
  ultimately show ?thesis
    by (simp add: policies_ok_def period_ok_def override_of_def split: option.splits)
qed

theorem policies_invariant_witness:
  "let p = snd (policies_change (policies_new policy_default) (SystemKey [104])
        \<lparr>rch_tiers = \<lparr>pt_raw = Fixed \<lparr>tp_tier = Raw, tp_period = from_secs 7200\<rparr>, pt_minute = FollowGlobal, pt_hour = FollowGlobal\<rparr>\<rparr>
        (from_secs 600))
   in tier_period_new Raw (tp_period (effective p (SystemKey [104]) Raw)) = Inr (effective p (SystemKey [104]) Raw)
    \<and> om_valid (po_overrides p)"
proof -
  let ?two_hours = "\<lparr>tp_tier = Raw, tp_period = from_secs 7200\<rparr>"
  let ?c = "\<lparr>rch_tiers = \<lparr>pt_raw = Fixed ?two_hours, pt_minute = FollowGlobal, pt_hour = FollowGlobal\<rparr>\<rparr>"
  have made: "list_all period_made [?two_hours]"
    by (simp add: period_made_def period_ok_iff from_secs_def less_eq_duration_def min_retention_secs_def max_retention_secs_def)
  have c: "change_new [?two_hours] = Inr ?c"
    by (simp add: change_new_def change_follow_global_def pt_from_fn_def pt_get_def pt_set_def)
  have "policies_reachable (policies_new policy_default)" using policies_reachable.new [of "[]"] by simp
  from policies_invariant [OF policies_reachable.change [OF this c made]] show ?thesis
    unfolding Let_def by blast
qed

text \<open>C14. A retention change never shortens at once: for the system it names, a tier whose requested
  period is at least the enforced one is enforced as requested from now on; a shorter one leaves the
  enforced period as it is, and takes effect exactly when the pending shortening is applied.  No
  other system's period changes.\<close>

theorem retention_change_delayed:
  assumes "policies_reachable p"
  shows "let requested = setting_resolve (change_tier c t) (policy_period (po_global p) t);
             p' = snd (policies_change p system c delay)
         in (if tp_period (effective p system t) \<le> tp_period requested
             then effective p' system t = requested
             else effective p' system t = effective p system t
               \<and> effective (snd (policies_take_effect p' system t)) system t = requested)
          \<and> effective p' s t = (if s = system then effective p' system t else effective p s t)"
proof -
  have valid: "om_valid (po_overrides p)" using policies_reachable_ok [OF assms] by (simp add: policies_ok_def)
  define over where "over = (case om_get (po_overrides p) system of None \<Rightarrow> override_default | Some over \<Rightarrow> over)"
  let ?g = "\<lambda>t. policy_period (po_global p) t"
  define over' where "over' = \<lparr>ov_tiers = pt_from_fn (\<lambda>t. to_change (ov_tier over t) (change_tier c t) (?g t) delay)\<rparr>"
  define p' where "p' = policies_put p system over'"
  have p': "snd (policies_change p system c delay) = p'"
    by (simp add: policies_change_def policies_update_def Let_def over_def over'_def p'_def)
  have valid': "om_valid (po_overrides p')" using valid by (simp add: p'_def policies_put_valid)
  have eff: "effective p system t = to_enforced (ov_tier over t) (?g t)"
    unfolding over_def by (rule effective_default)
  have eff': "effective p' u t = (if u = system then to_enforced (ov_tier over' t) (?g t) else effective p u t)" for u
    unfolding p'_def by (rule effective_put [OF valid])
  let ?req = "setting_resolve (change_tier c t) (?g t)"
  have taken: "effective (snd (policies_take_effect p' system t)) system t = ?req"
    if shorter: "\<not> tp_period (effective p system t) \<le> tp_period ?req"
  proof -
    have "to_pending (ov_tier over' t) = Some \<lparr>ps_next = change_tier c t, ps_delay = delay\<rparr>"
      using shorter by (simp add: over'_def to_change_def eff)
    moreover from this have "\<not> ov_follows_global over'"
      by (auto simp: ov_follows_global_def to_follows_global_def)
    then have "om_get (po_overrides p') system = Some over'"
      by (simp add: p'_def override_get_put [OF valid])
    ultimately show ?thesis
      by (simp add: policies_take_effect_def policies_update_def Let_def effective_put [OF valid'] to_take_effect_def
          to_enforced_def) (simp add: p'_def)
  qed
  show ?thesis
    using taken by (simp add: p' eff' Let_def) (simp add: eff over'_def to_change_def to_enforced_def)
qed

theorem retention_change_delayed_witness:
  "let p = policies_new policy_default; requested = \<lparr>tp_tier = Raw, tp_period = from_secs 7200\<rparr>;
       c = \<lparr>rch_tiers = \<lparr>pt_raw = Fixed requested, pt_minute = FollowGlobal, pt_hour = FollowGlobal\<rparr>\<rparr>;
       p' = snd (policies_change p (SystemKey [104]) c (from_secs 600))
   in effective p' (SystemKey [104]) Raw = default_for Raw
    \<and> effective (snd (policies_take_effect p' (SystemKey [104]) Raw)) (SystemKey [104]) Raw = requested"
proof -
  have reach: "policies_reachable (policies_new policy_default)" using policies_reachable.new [of "[]"] by simp
  have eff: "effective (policies_new policy_default) (SystemKey [104]) Raw = default_for Raw"
    by (simp add: effective_def policies_new_def policy_period_def policy_default_def)
  show ?thesis
    using retention_change_delayed [OF reach, of "\<lparr>rch_tiers = \<lparr>pt_raw = Fixed \<lparr>tp_tier = Raw, tp_period = from_secs 7200\<rparr>,
        pt_minute = FollowGlobal, pt_hour = FollowGlobal\<rparr>\<rparr>" Raw "SystemKey [104]" "from_secs 600" "SystemKey [104]"]
    by (simp add: Let_def eff change_tier_def pt_get_def setting_resolve_def default_for_def from_secs_def less_eq_duration_def)
qed

end
