(* ===== verification/Liveness.thy ===== *)
theory Liveness
  imports Policy
begin

text \<open>
  Live and dead chunks (\<open>system-hub/hub-store/src/retention/liveness.rs\<close>): whether a chunk may still
  be read or kept, from its owner, the tombstones, the policies and the retention clock.
\<close>

datatype owner = Owner (ow_system: system_key) (ow_generation: generation)

instantiation owner :: linorder
begin

definition less_eq_owner :: "owner \<Rightarrow> owner \<Rightarrow> bool" where
  "less_eq_owner a b \<longleftrightarrow> ow_system a < ow_system b \<or> ow_system a = ow_system b \<and> ow_generation a \<le> ow_generation b"

definition less_owner :: "owner \<Rightarrow> owner \<Rightarrow> bool" where
  "less_owner a b \<longleftrightarrow> ow_system a < ow_system b \<or> ow_system a = ow_system b \<and> ow_generation a < ow_generation b"

instance
  by standard (auto simp: less_eq_owner_def less_owner_def owner.expand)

end

datatype tombstones = Tombstones (ts_owners: "owner btree_set")

definition ts_insert :: "tombstones \<Rightarrow> owner \<Rightarrow> tombstones" where
  "ts_insert ts w = Tombstones (bs_insert (ts_owners ts) w)"

definition ts_contains :: "tombstones \<Rightarrow> owner \<Rightarrow> bool" where
  "ts_contains ts w = bs_contains (ts_owners ts) w"

datatype death = Unmapped | Tombstoned | Expired

datatype liveness = Live | Dead death

definition expired :: "tier \<Rightarrow> span_start \<Rightarrow> tier_period \<Rightarrow> u64 \<Rightarrow> bool" where
  "expired t s period now = (let cutoff = sat_sub now (as_secs (tp_period period)) in span_end t s \<le> cutoff)"

definition chunk_liveness ::
  "tier \<Rightarrow> span_start \<Rightarrow> owner option \<Rightarrow> policies \<Rightarrow> tombstones \<Rightarrow> u64 \<Rightarrow> liveness" where
  "chunk_liveness t s owner p ts now = (case owner of
       None \<Rightarrow> Dead Unmapped
     | Some w \<Rightarrow> if ts_contains ts w then Dead Tombstoned
         else let period = effective p (ow_system w) t
           in if expired t s period now then Dead Expired else Live)"

section \<open>Lemmas\<close>

lemma ts_contains_insert [simp]: "ts_contains (ts_insert ts w) v \<longleftrightarrow> v = w \<or> ts_contains ts v"
  by (simp add: ts_contains_def ts_insert_def)

lemma span_end_pos: "0 < unat (span_end t s)"
  by (simp add: span_end_def unat_arith_simps unat_span_secs)

text \<open>A span is expired when every second of it is older than the clock minus the period.\<close>

lemma expired_iff: "expired t s p now \<longleftrightarrow> unat (span_end t s) + unat (as_secs (tp_period p)) \<le> unat now"
  using span_end_pos [of t s] by (auto simp: expired_def word_le_nat_alt unat_arith_simps)

lemma expired_mono:
  "expired t s p now \<Longrightarrow> now \<le> later \<Longrightarrow> tp_period q \<le> tp_period p \<Longrightarrow> expired t s q later"
  using duration_le_secs [of "tp_period q" "tp_period p"] by (auto simp: expired_iff word_le_nat_alt)

lemma chunk_liveness_Some:
  "chunk_liveness t s (Some w) p ts now = Live \<longleftrightarrow> \<not> ts_contains ts w \<and> \<not> expired t s (effective p (ow_system w) t) now"
  by (simp add: chunk_liveness_def Let_def)

section \<open>Properties\<close>

text \<open>A chunk is live exactly when its owner is known and not tombstoned, and its span's end plus its
  system's period for the tier is still ahead of the retention clock.\<close>

theorem chunk_liveness_exact:
  "chunk_liveness t s owner p ts now = Live \<longleftrightarrow> (case owner of
      None \<Rightarrow> False
    | Some w \<Rightarrow> \<not> ts_contains ts w
        \<and> unat now < unat (span_end t s) + unat (as_secs (tp_period (effective p (ow_system w) t))))"
proof (cases owner)
  case (Some w)
  then show ?thesis by (auto simp: chunk_liveness_Some expired_iff)
qed (simp add: chunk_liveness_def)

text \<open>Death is final for a span past the longest period: no chunk of it is live for any owner, at any
  later retention clock and whatever else is tombstoned.\<close>

theorem expired_for_all:
  assumes "policies_reachable p" and "expired t s (longest p t) now" and "now \<le> later"
  shows "chunk_liveness t s owner p ts later \<noteq> Live"
proof (cases owner)
  case (Some w)
  have "om_valid (po_overrides p)" using policies_reachable_ok [OF assms(1)] by (simp add: policies_ok_def)
  then have "tp_period (effective p (ow_system w) t) \<le> tp_period (longest p t)" by (rule longest_bounds)
  with assms(2,3) have "expired t s (effective p (ow_system w) t) later" by (rule expired_mono)
  then show ?thesis by (simp add: Some chunk_liveness_Some)
qed (simp add: chunk_liveness_def)

theorem expired_for_all_witness:
  "chunk_liveness Raw (SpanStart 0) (Some (Owner (SystemKey [104]) (Generation 1))) (policies_new policy_default)
     (Tombstones []) 100000 \<noteq> Live"
proof -
  have reach: "policies_reachable (policies_new policy_default)" using policies_reachable.new [of "[]"] by simp
  have "longest (policies_new policy_default) Raw = default_for Raw"
    by (simp add: longest_def policies_new_def om_values_def policy_period_def policy_default_def)
  then have "expired Raw (SpanStart 0) (longest (policies_new policy_default) Raw) 90000"
    by (simp add: expired_iff default_for_def from_secs_def span_end_def sat_add_def span_secs_def)
  from expired_for_all [OF reach this, of 100000] show ?thesis by simp
qed

end
