(* ===== verification/Retention_Files.thy ===== *)
theory Retention_Files
  imports Liveness "HOL-Library.Product_Lexorder"
begin

text \<open>
  What a retention pass does to the block files (\<open>system-hub/hub-store/src/retention/files.rs\<close>): retire
  a file whose every chunk is dead, rewrite at most one file without its dead chunks, keep the rest.
\<close>

record holder =
  ho_owner :: "owner option"
  ho_bytes :: u64

datatype file_condition = Sound | Damaged | InFlight

record file_facts =
  ff_tier :: tier
  ff_span :: span_start
  ff_length :: u64
  ff_condition :: file_condition
  ff_holders :: "holder list"

datatype rewrite_cause = CauseErased | CauseExpired

datatype file_fate = Keep | Retire | Rewrite rewrite_cause

type_synonym file_key = "tier \<times> span_start"

record file_plan =
  fp_retire :: "file_key list"
  fp_rewrite :: "(file_key \<times> rewrite_cause) option"

text \<open>Rust's \<open>sum\<close> of \<open>u64\<close> wraps in a release build.\<close>

definition rewrite_fate_of :: "file_facts \<Rightarrow> policies \<Rightarrow> (liveness \<times> u64) list \<Rightarrow> u64 \<Rightarrow> file_fate" where
  "rewrite_fate_of file p deaths now =
     (let erased = sum_list (map snd (filter (\<lambda>(l, _). l = Dead Tombstoned \<or> l = Dead Unmapped) deaths));
          past_global = expired (ff_tier file) (ff_span file) (policy_period (po_global p) (ff_tier file)) now;
          any_expired = list_ex (\<lambda>(l, _). l = Dead Expired) deaths
      in if 0 < ff_length file \<and> ff_length file \<le> sat_mul erased 4 then Rewrite CauseErased
         else if past_global \<and> any_expired then Rewrite CauseExpired
         else Keep)"

definition file_fate_of :: "file_facts \<Rightarrow> policies \<Rightarrow> tombstones \<Rightarrow> u64 \<Rightarrow> file_fate" where
  "file_fate_of file p ts now =
     (let deaths = map (\<lambda>h. (chunk_liveness (ff_tier file) (ff_span file) (ho_owner h) p ts now, ho_bytes h)) (ff_holders file);
          all_dead = list_all (\<lambda>(l, _). case l of Dead _ \<Rightarrow> True | Live \<Rightarrow> False) deaths
      in case ff_condition file of
           InFlight \<Rightarrow> Keep
         | Sound \<Rightarrow> if all_dead then Retire else rewrite_fate_of file p deaths now
         | Damaged \<Rightarrow> if all_dead then Retire else Keep)"

text \<open>\<open>Iterator::min_by_key\<close>: the first of the elements with the least key.\<close>

primrec min_by_key :: "('a \<Rightarrow> 'k::linorder) \<Rightarrow> 'a list \<Rightarrow> 'a option" where
  "min_by_key f [] = None"
| "min_by_key f (x # xs) = (case min_by_key f xs of
       None \<Rightarrow> Some x
     | Some y \<Rightarrow> Some (if f y < f x then y else x))"

definition plan_files :: "file_facts list \<Rightarrow> policies \<Rightarrow> tombstones \<Rightarrow> u64 \<Rightarrow> file_plan" where
  "plan_files files p ts now =
     (let fates = map (\<lambda>f. (f, file_fate_of f p ts now)) files;
          retire = map (\<lambda>(f, _). (ff_tier f, ff_span f)) (filter (\<lambda>(_, fate). fate = Retire) fates);
          rewrite = map_option (\<lambda>(f, cause). ((ff_tier f, ff_span f), cause))
            (min_by_key (\<lambda>(f, _). (span_end (ff_tier f) (ff_span f), ff_tier f))
              (List.map_filter (\<lambda>(f, fate). case fate of Rewrite cause \<Rightarrow> Some (f, cause) | Keep \<Rightarrow> None | Retire \<Rightarrow> None) fates))
      in \<lparr>fp_retire = retire, fp_rewrite = rewrite\<rparr>)"

section \<open>Lemmas\<close>

lemma min_by_key_None [simp]: "min_by_key f xs = None \<longleftrightarrow> xs = []"
  by (cases xs) (auto split: option.splits)

lemma min_by_key_Some:
  "min_by_key f xs = Some x \<Longrightarrow> x \<in> set xs \<and> (\<forall>y\<in>set xs. f x \<le> f y)"
proof (induction xs arbitrary: x)
  case (Cons z zs)
  show ?case
  proof (cases "min_by_key f zs")
    case (Some y)
    with Cons.IH [OF Some] Cons.prems show ?thesis by (auto split: if_splits)
  qed (use Cons.prems in auto)
qed simp

definition holder_liveness :: "file_facts \<Rightarrow> policies \<Rightarrow> tombstones \<Rightarrow> u64 \<Rightarrow> holder \<Rightarrow> liveness" where
  "holder_liveness f p ts now h = chunk_liveness (ff_tier f) (ff_span f) (ho_owner h) p ts now"

lemma all_dead_iff:
  "list_all (\<lambda>(l, _). case l of Dead _ \<Rightarrow> True | Live \<Rightarrow> False) (map (\<lambda>h. (f h, g h)) hs) \<longleftrightarrow> (\<forall>h\<in>set hs. f h \<noteq> Live)"
  by (auto simp: list_all_iff split: liveness.splits)

lemma rewrite_needs_death:
  assumes "rewrite_fate_of file p (map (\<lambda>h. (f h, ho_bytes h)) hs) now = Rewrite cause"
  shows "\<exists>h\<in>set hs. f h \<noteq> Live"
proof (rule ccontr)
  assume "\<not> ?thesis"
  then have "filter (\<lambda>(l, _). l = Dead Tombstoned \<or> l = Dead Unmapped) (map (\<lambda>h. (f h, ho_bytes h)) hs) = []"
    and "\<not> list_ex (\<lambda>(l, _). l = Dead Expired) (map (\<lambda>h. (f h, ho_bytes h)) hs)"
    by (auto simp: filter_empty_conv list_ex_iff)
  then show False
    using assms by (auto simp: rewrite_fate_of_def Let_def sat_mul_def word_gt_0 split: if_splits)
qed

lemma file_fate_rewrite:
  "file_fate_of f p ts now = Rewrite cause \<Longrightarrow> ff_condition f = Sound
    \<and> (\<exists>h\<in>set (ff_holders f). holder_liveness f p ts now h = Live)
    \<and> (\<exists>h\<in>set (ff_holders f). holder_liveness f p ts now h \<noteq> Live)"
  using rewrite_needs_death [of f p "holder_liveness f p ts now" "ff_holders f" now cause]
  by (auto simp: file_fate_of_def Let_def all_dead_iff holder_liveness_def [symmetric] split: file_condition.splits if_splits)

lemma file_fate_retire:
  "file_fate_of f p ts now = Retire \<longleftrightarrow> ff_condition f \<noteq> InFlight
    \<and> (\<forall>h\<in>set (ff_holders f). holder_liveness f p ts now h \<noteq> Live)"
  by (auto simp: file_fate_of_def Let_def all_dead_iff holder_liveness_def [symmetric] rewrite_fate_of_def
      split: file_condition.splits if_splits)

text \<open>The files the plan may rewrite.\<close>

lemma set_rewrites:
  "set (List.map_filter (\<lambda>(f, fate). case fate of Rewrite cause \<Rightarrow> Some (f, cause) | Keep \<Rightarrow> None | Retire \<Rightarrow> None)
      (map (\<lambda>f. (f, g f)) files)) = {(f, cause). f \<in> set files \<and> g f = Rewrite cause}"
  by (induction files) (auto split: file_fate.splits)

section \<open>Properties\<close>

text \<open>The plan loses no live chunk: the retired keys are, in the order given, those of the files not in
  flight with no live chunk; and the rewrite is of a sound file holding both live and dead chunks,
  with the least (span end, tier) among all files to rewrite, or there is no such file.\<close>

theorem plan_files_sound:
  "let plan = plan_files files p ts now in
   fp_retire plan = map (\<lambda>f. (ff_tier f, ff_span f)) (filter (\<lambda>f. ff_condition f \<noteq> InFlight
      \<and> (\<forall>h\<in>set (ff_holders f). chunk_liveness (ff_tier f) (ff_span f) (ho_owner h) p ts now \<noteq> Live)) files)
   \<and> (case fp_rewrite plan of
        None \<Rightarrow> (\<forall>f\<in>set files. \<forall>cause. file_fate_of f p ts now \<noteq> Rewrite cause)
      | Some (key, cause) \<Rightarrow> (\<exists>f\<in>set files. key = (ff_tier f, ff_span f) \<and> file_fate_of f p ts now = Rewrite cause
          \<and> ff_condition f = Sound
          \<and> (\<exists>h\<in>set (ff_holders f). chunk_liveness (ff_tier f) (ff_span f) (ho_owner h) p ts now = Live)
          \<and> (\<exists>h\<in>set (ff_holders f). chunk_liveness (ff_tier f) (ff_span f) (ho_owner h) p ts now \<noteq> Live)
          \<and> (\<forall>g\<in>set files. \<forall>c. file_fate_of g p ts now = Rewrite c
              \<longrightarrow> (span_end (ff_tier f) (ff_span f), ff_tier f) \<le> (span_end (ff_tier g) (ff_span g), ff_tier g))))"
proof -
  let ?fate = "\<lambda>f. file_fate_of f p ts now" and ?key = "\<lambda>(f, c). (span_end (ff_tier f) (ff_span f), ff_tier f)"
  let ?fates = "map (\<lambda>f. (f, ?fate f)) files"
  define due where "due = List.map_filter
      (\<lambda>(f, fate). case fate of Rewrite cause \<Rightarrow> Some (f, cause) | Keep \<Rightarrow> None | Retire \<Rightarrow> None) ?fates"
  have due: "set due = {(f, cause). f \<in> set files \<and> ?fate f = Rewrite cause}"
    unfolding due_def by (rule set_rewrites)
  have retire: "fp_retire (plan_files files p ts now) = map (\<lambda>f. (ff_tier f, ff_span f)) (filter (\<lambda>f. ?fate f = Retire) files)"
    by (simp add: plan_files_def Let_def filter_map o_def)
  have rewrite: "fp_rewrite (plan_files files p ts now)
      = map_option (\<lambda>(f, cause). ((ff_tier f, ff_span f), cause)) (min_by_key ?key due)"
    by (simp add: plan_files_def Let_def due_def)
  show ?thesis
  proof (cases "min_by_key ?key due")
    case None
    then have "set due = {}" by simp
    then have "\<forall>f\<in>set files. \<forall>cause. ?fate f \<noteq> Rewrite cause" unfolding due by blast
    then show ?thesis
      using None by (simp add: Let_def retire rewrite file_fate_retire holder_liveness_def)
  next
    case (Some fc)
    obtain f c where fc: "fc = (f, c)" by (cases fc)
    have min: "(f, c) \<in> set due" "\<forall>y\<in>set due. ?key (f, c) \<le> ?key y"
      using min_by_key_Some [OF Some] fc by blast+
    then have f: "f \<in> set files" "?fate f = Rewrite c" unfolding due by simp_all
    have least: "\<forall>g\<in>set files. \<forall>c'. ?fate g = Rewrite c' \<longrightarrow> ?key (f, c) \<le> ?key (g, c')"
      using min(2) unfolding due by blast
    note dead = file_fate_rewrite [OF f(2), unfolded holder_liveness_def]
    show ?thesis
      using f dead least by (auto simp: Let_def retire rewrite Some fc file_fate_retire holder_liveness_def intro!: bexI [of _ f])
  qed
qed

theorem plan_files_sound_witness:
  "fp_retire (plan_files [\<lparr>ff_tier = Raw, ff_span = SpanStart 0, ff_length = 46, ff_condition = Sound, ff_holders = []\<rparr>]
     (policies_new policy_default) (Tombstones []) 0) = [(Raw, SpanStart 0)]"
  using plan_files_sound [of "[\<lparr>ff_tier = Raw, ff_span = SpanStart 0, ff_length = 46, ff_condition = Sound, ff_holders = []\<rparr>]"
     "policies_new policy_default" "Tombstones []" 0] by (simp add: Let_def)

end
