(* ===== verification/Capacity.thy ===== *)
theory Capacity
  imports Retention_Files "HOL-Library.Multiset"
begin

text \<open>
  Disk space (\<open>system-hub/hub-store/src/capacity.rs\<close>): the storage cap and the files it retires, the
  free space an open requires, and when the store is worth compacting.
\<close>

definition GIB :: u64 where
  "GIB = push_bit 30 1"

datatype share = Share (share_percent: u8)

datatype invalid_share = InvalidShare

definition share_new :: "u8 \<Rightarrow> invalid_share + share" where
  "share_new percent = (if 1 \<le> percent \<and> percent \<le> 100 then Inr (Share percent) else Inl InvalidShare)"

datatype storage_limit = LimitBytes u64 | LimitShare share | LimitUnlimited

definition storage_limit_default :: storage_limit where
  "storage_limit_default = LimitShare (Share 80)"

datatype storage_cap = CapBytes u64 | CapUnlimited

definition limit_cap :: "storage_limit \<Rightarrow> u64 \<Rightarrow> storage_cap" where
  "limit_cap limit volume_bytes = (case limit of
       LimitBytes n \<Rightarrow> CapBytes n
     | LimitShare s \<Rightarrow>
         (let n = ucast volume_bytes * ucast (share_percent s) div 100 :: u128
          in CapBytes (if unat n < 2 ^ 64 then ucast n else - 1))
     | LimitUnlimited \<Rightarrow> CapUnlimited)"

record cap_candidate =
  cc_key :: file_key
  cc_length :: u64
  cc_condition :: file_condition

datatype cap_outcome = Met | Unmet u64

record cap_plan =
  cp_retire :: "file_key list"
  cp_outcome :: cap_outcome

datatype cap_rank = RankRaw | RankMinute

instantiation cap_rank :: linorder
begin

definition less_eq_cap_rank :: "cap_rank \<Rightarrow> cap_rank \<Rightarrow> bool" where
  "less_eq_cap_rank a b \<longleftrightarrow> a = RankRaw \<or> b = RankMinute"

definition less_cap_rank :: "cap_rank \<Rightarrow> cap_rank \<Rightarrow> bool" where
  "less_cap_rank a b \<longleftrightarrow> a = RankRaw \<and> b = RankMinute"

instance
proof
  fix x y z :: cap_rank
  show "x < y \<longleftrightarrow> x \<le> y \<and> \<not> y \<le> x" "x \<le> x" "x \<le> y \<or> y \<le> x"
    by (cases x; cases y; simp add: less_eq_cap_rank_def less_cap_rank_def)+
  show "x \<le> y \<Longrightarrow> y \<le> z \<Longrightarrow> x \<le> z" "x \<le> y \<Longrightarrow> y \<le> x \<Longrightarrow> x = y"
    by (auto simp: less_eq_cap_rank_def)
qed

end

definition cap_rank_of :: "cap_candidate \<Rightarrow> cap_rank option" where
  "cap_rank_of file =
     (let rank = (case fst (cc_key file) of Raw \<Rightarrow> Some RankRaw | Minute \<Rightarrow> Some RankMinute | Hour \<Rightarrow> None)
      in case cc_condition file of Sound \<Rightarrow> rank | Damaged \<Rightarrow> rank | InFlight \<Rightarrow> None)"

text \<open>The candidates in the order the cap takes them; \<open>sort_by_key\<close> is stable.\<close>

definition cap_ranked :: "cap_candidate list \<Rightarrow> (cap_rank \<times> cap_candidate) list" where
  "cap_ranked files = sort_key (\<lambda>(rank, f). (rank, snd (cc_key f)))
     (List.map_filter (\<lambda>f. map_option (\<lambda>rank. (rank, f)) (cap_rank_of f)) files)"

definition cap_take :: "u64 \<Rightarrow> u64 \<times> file_key list \<Rightarrow> cap_rank \<times> cap_candidate \<Rightarrow> u64 \<times> file_key list" where
  "cap_take cap acc entry = (case acc of (left, retire) \<Rightarrow>
     if cap < left then (sat_sub left (cc_length (snd entry)), retire @ [cc_key (snd entry)]) else (left, retire))"

definition cap_retirements :: "u64 \<Rightarrow> storage_cap \<Rightarrow> cap_candidate list \<Rightarrow> cap_plan" where
  "cap_retirements total_bytes cap files = (case cap of
       CapUnlimited \<Rightarrow> \<lparr>cp_retire = [], cp_outcome = Met\<rparr>
     | CapBytes cap \<Rightarrow>
         (let (left, retire) = foldl (cap_take cap) (total_bytes, []) (cap_ranked files);
              outcome = (case checked_sub left cap of Some excess \<Rightarrow> if 0 < excess then Unmet excess else Met | None \<Rightarrow> Met)
          in \<lparr>cp_retire = retire, cp_outcome = outcome\<rparr>))"

definition floor_bytes :: "u64 \<Rightarrow> u64 \<Rightarrow> u64" where
  "floor_bytes volume_bytes rewind_bytes = sat_add (max (volume_bytes div 50) GIB) (sat_mul rewind_bytes 2)"

record below_floor =
  bf_free :: u64
  bf_floor :: u64

definition check_floor :: "u64 \<Rightarrow> u64 \<Rightarrow> below_floor + unit" where
  "check_floor free flr = (if free < flr then Inl \<lparr>bf_free = free, bf_floor = flr\<rparr> else Inr ())"

definition compaction_due :: "u64 \<Rightarrow> u64 \<Rightarrow> bool" where
  "compaction_due file_bytes reclaimable \<longleftrightarrow> GIB < reclaimable \<and> file_bytes < sat_mul reclaimable 4"

section \<open>Lemmas\<close>

text \<open>A share of the volume is the exact percentage, rounded down, and never more than the volume.\<close>

lemma limit_cap_share:
  assumes "share_new percent = Inr s"
  shows "\<exists>n. limit_cap (LimitShare s) v = CapBytes n \<and> unat n = unat v * unat percent div 100 \<and> n \<le> v"
proof -
  have s: "s = Share percent" and p: "unat percent \<le> 100"
    using assms by (auto simp: share_new_def word_le_nat_alt split: if_splits)
  let ?m = "unat v * unat percent"
  have le: "?m div 100 \<le> unat v"
    using mult_le_mono2 [OF p, of "unat v"] by linarith
  have "?m \<le> unat v * 100" using p by (rule mult_le_mono2)
  also have "\<dots> < 2 ^ 64 * 100" using u64_bound [of v] by (intro mult_less_mono1) simp_all
  also have "\<dots> \<le> 2 ^ 128" by simp
  finally have small: "?m < 2 ^ 128" .
  have "unat percent < 2 ^ 128" "unat v < 2 ^ 128" using p u64_bound [of v] by simp_all
  then have "unat (ucast v :: u128) = unat v" "unat (ucast percent :: u128) = unat percent"
    by (simp_all add: unsigned_ucast_eq take_bit_nat_eq_self_iff)
  then have prod: "unat (ucast v * ucast percent :: u128) = ?m"
    using small by (simp add: unat_word_ariths)
  then have n: "unat (ucast v * ucast percent div 100 :: u128) = ?m div 100"
    by (simp add: unat_div)
  have fits: "?m div 100 < 2 ^ 64" using le u64_bound [of v] by (rule order_le_less_trans)
  then have "unat (ucast (ucast v * ucast percent div 100 :: u128) :: u64) = ?m div 100"
    by (simp add: unsigned_ucast_eq n take_bit_nat_eq_self_iff)
  with le fits show ?thesis
    by (simp add: s limit_cap_def Let_def n word_le_nat_alt)
qed

text \<open>The bytes left after the first \<open>k\<close> files of an order are retired.\<close>

definition bytes_left :: "u64 \<Rightarrow> (cap_rank \<times> cap_candidate) list \<Rightarrow> nat \<Rightarrow> nat" where
  "bytes_left total_bytes order k = unat total_bytes - sum_list (map (\<lambda>e. unat (cc_length (snd e))) (take k order))"

definition cap_prefix :: "u64 \<Rightarrow> u64 \<Rightarrow> (cap_rank \<times> cap_candidate) list \<Rightarrow> nat \<Rightarrow> bool" where
  "cap_prefix cap total_bytes order k \<longleftrightarrow> k \<le> length order \<and> (\<forall>j<k. unat cap < bytes_left total_bytes order j)
     \<and> (bytes_left total_bytes order k \<le> unat cap \<or> k = length order)"

lemma cap_take_pair:
  "cap_take cap (left, retire) e
    = (if cap < left then (sat_sub left (cc_length (snd e)), retire @ [cc_key (snd e)]) else (left, retire))"
  by (simp add: cap_take_def)

lemma cap_fold:
  assumes "foldl (cap_take cap) (total_bytes, []) order = (left, retire)"
  shows "\<exists>k. cap_prefix cap total_bytes order k \<and> retire = map (\<lambda>e. cc_key (snd e)) (take k order)
    \<and> unat left = bytes_left total_bytes order k"
  using assms
proof (induction order arbitrary: left retire rule: rev_induct)
  case Nil
  then show ?case by (auto simp: cap_prefix_def bytes_left_def)
next
  case (snoc e order)
  obtain l r where lr: "foldl (cap_take cap) (total_bytes, []) order = (l, r)" by fastforce
  then obtain k where k: "cap_prefix cap total_bytes order k" "r = map (\<lambda>e. cc_key (snd e)) (take k order)"
    "unat l = bytes_left total_bytes order k" using snoc.IH by blast
  have same: "bytes_left total_bytes (order @ [e]) j = bytes_left total_bytes order j" if "j \<le> length order" for j
    using that by (simp add: bytes_left_def)
  show ?case
  proof (cases "cap < l")
    case False
    then have "left = l" "retire = r" using snoc.prems lr by (simp_all add: cap_take_pair)
    moreover have "cap_prefix cap total_bytes (order @ [e]) k"
      using k(1,3) False same by (auto simp: cap_prefix_def word_less_nat_alt)
    ultimately show ?thesis using k same [of k] by (intro exI [of _ k]) (simp add: cap_prefix_def)
  next
    case True
    then have all: "k = length order" using k by (auto simp: cap_prefix_def word_less_nat_alt)
    have "left = sat_sub l (cc_length (snd e))" "retire = r @ [cc_key (snd e)]"
      using snoc.prems lr True by (simp_all add: cap_take_pair)
    moreover have "cap_prefix cap total_bytes (order @ [e]) (Suc k)"
      using k True same all by (auto simp: cap_prefix_def word_less_nat_alt less_Suc_eq)
    moreover have "bytes_left total_bytes (order @ [e]) (Suc k) = unat l - unat (cc_length (snd e))"
      using k(3) all by (simp add: bytes_left_def)
    ultimately show ?thesis using k(2) all by (intro exI [of _ "Suc k"]) (simp add: unat_arith_simps)
  qed
qed

lemma cap_ranked_set:
  "set (cap_ranked files) = {(rank, f). f \<in> set files \<and> cap_rank_of f = Some rank}"
  unfolding cap_ranked_def by (induction files) (auto split: option.splits)

lemma cap_ranked_sorted: "sorted (map (\<lambda>(rank, f). (rank, snd (cc_key f))) (cap_ranked files))"
  by (simp add: cap_ranked_def)

lemma cap_rank_of_Some:
  "cap_rank_of f = Some rank \<longleftrightarrow> cc_condition f \<noteq> InFlight
    \<and> (fst (cc_key f) = Raw \<and> rank = RankRaw \<or> fst (cc_key f) = Minute \<and> rank = RankMinute)"
  by (auto simp: cap_rank_of_def Let_def split: tier.splits file_condition.splits)

section \<open>Properties\<close>

text \<open>C19. The cap retires no more than it must and nothing it may not: the retired files are a prefix of
  the eligible ones (raw or minute, not in flight; every raw file before any minute file, the oldest
  span first), retired while the bytes left exceed the cap and not further; the outcome says exactly
  by how much the cap is still exceeded.\<close>

theorem cap_retirements_sound:
  "let order = cap_ranked files; plan = cap_retirements total_bytes (CapBytes cap) files in
   sorted (map (\<lambda>(rank, f). (rank, snd (cc_key f))) order)
   \<and> set order = {(rank, f). f \<in> set files \<and> cc_condition f \<noteq> InFlight
       \<and> (fst (cc_key f) = Raw \<and> rank = RankRaw \<or> fst (cc_key f) = Minute \<and> rank = RankMinute)}
   \<and> (\<exists>k\<le>length order. cp_retire plan = map (\<lambda>e. cc_key (snd e)) (take k order)
       \<and> (\<forall>j<k. unat cap < bytes_left total_bytes order j)
       \<and> (case cp_outcome plan of
            Met \<Rightarrow> bytes_left total_bytes order k \<le> unat cap
          | Unmet excess \<Rightarrow> k = length order \<and> bytes_left total_bytes order k = unat cap + unat excess \<and> 0 < excess))"
proof -
  obtain l r where fold: "foldl (cap_take cap) (total_bytes, []) (cap_ranked files) = (l, r)" by fastforce
  then obtain k where k: "cap_prefix cap total_bytes (cap_ranked files) k" "r = map (\<lambda>e. cc_key (snd e)) (take k (cap_ranked files))"
    "unat l = bytes_left total_bytes (cap_ranked files) k" using cap_fold by blast
  let ?plan = "cap_retirements total_bytes (CapBytes cap) files"
  have retire: "cp_retire ?plan = r"
    and outcome: "cp_outcome ?plan = (if cap < l then Unmet (l - cap) else Met)"
    by (auto simp: cap_retirements_def fold checked_sub_def Let_def word_gt_0)
  have "case cp_outcome ?plan of
            Met \<Rightarrow> bytes_left total_bytes (cap_ranked files) k \<le> unat cap
          | Unmet excess \<Rightarrow> k = length (cap_ranked files)
              \<and> bytes_left total_bytes (cap_ranked files) k = unat cap + unat excess \<and> 0 < excess"
    using k(1,3) by (auto simp: outcome cap_prefix_def word_less_nat_alt unat_sub_le word_gt_0 unat_gt_0)
  moreover have "k \<le> length (cap_ranked files)" "\<forall>j<k. unat cap < bytes_left total_bytes (cap_ranked files) j"
    using k(1) by (simp_all add: cap_prefix_def)
  ultimately show ?thesis
    using k(2) by (auto simp: Let_def retire cap_ranked_sorted cap_ranked_set cap_rank_of_Some)
qed

theorem cap_retirements_sound_witness:
  "cp_retire (cap_retirements 500 (CapBytes 100)
     [\<lparr>cc_key = (Hour, SpanStart 0), cc_length = 200, cc_condition = Sound\<rparr>,
      \<lparr>cc_key = (Raw, SpanStart 0), cc_length = 300, cc_condition = Damaged\<rparr>]) = [(Raw, SpanStart 0)]"
proof -
  let ?files = "[\<lparr>cc_key = (Hour, SpanStart 0), cc_length = 200, cc_condition = Sound\<rparr>,
      \<lparr>cc_key = (Raw, SpanStart 0), cc_length = 300, cc_condition = Damaged\<rparr>]"
  have order: "cap_ranked ?files = [(RankRaw, \<lparr>cc_key = (Raw, SpanStart 0), cc_length = 300, cc_condition = Damaged\<rparr>)]"
    by (simp add: cap_ranked_def cap_rank_of_def)
  let ?plan = "cap_retirements 500 (CapBytes 100) ?files"
  obtain k where k: "k \<le> length (cap_ranked ?files)" "cp_retire ?plan = map (\<lambda>e. cc_key (snd e)) (take k (cap_ranked ?files))"
    and out: "case cp_outcome ?plan of
            Met \<Rightarrow> bytes_left 500 (cap_ranked ?files) k \<le> unat (100 :: u64)
          | Unmet excess \<Rightarrow> k = length (cap_ranked ?files)
              \<and> bytes_left 500 (cap_ranked ?files) k = unat (100 :: u64) + unat excess \<and> 0 < excess"
    using cap_retirements_sound [of ?files 500 100, unfolded Let_def, THEN conjunct2, THEN conjunct2] by blast
  have "k \<noteq> 0"
  proof
    assume "k = 0"
    then show False using out unfolding order by (auto simp: bytes_left_def split: cap_outcome.splits)
  qed
  then have "k = 1" using k(1) by (simp add: order)
  then show ?thesis using k(2) by (simp add: order)
qed

end
