(* ===== verification/Text_Fields.thy ===== *)
theory Text_Fields
  imports Prelude
begin

text \<open>
  The text operations of the Rust standard library the sources use, on strings as lists of their
  bytes as characters: decimal printing (\<open>{}\<close> and \<open>{:0w}\<close>), reading digits back, and cutting a
  string at a suffix or at the first occurrence of a pattern.
\<close>

section \<open>Strings\<close>

text \<open>Decimal printing, and \<open>str::parse\<close> on a string of digits.\<close>

definition digit_char :: "nat \<Rightarrow> char" where
  "digit_char d = char_of (48 + d)"

fun show_nat :: "nat \<Rightarrow> string" where
  "show_nat n = (if n < 10 then [digit_char n] else show_nat (n div 10) @ [digit_char (n mod 10)])"

declare show_nat.simps [simp del]

definition is_digit :: "char \<Rightarrow> bool" where
  "is_digit c \<longleftrightarrow> 48 \<le> (of_char c :: nat) \<and> (of_char c :: nat) \<le> 57"

definition digits_value :: "string \<Rightarrow> nat" where
  "digits_value s = foldl (\<lambda>n c. 10 * n + (of_char c - 48)) 0 s"

definition strip_suffix :: "string \<Rightarrow> string \<Rightarrow> string option" where
  "strip_suffix suf s = (if length suf \<le> length s \<and> drop (length s - length suf) s = suf
     then Some (take (length s - length suf) s) else None)"

fun split_once :: "string \<Rightarrow> string \<Rightarrow> (string \<times> string) option" where
  "split_once pat s = (if take (length pat) s = pat then Some ([], drop (length pat) s)
     else case s of [] \<Rightarrow> None | c # cs \<Rightarrow> map_option (\<lambda>(a, b). (c # a, b)) (split_once pat cs))"

declare split_once.simps [simp del]

text \<open>\<open>char::is_whitespace\<close>: the code points with the Unicode property White Space.\<close>

definition is_whitespace :: "nat \<Rightarrow> bool" where
  "is_whitespace c \<longleftrightarrow> 9 \<le> c \<and> c \<le> 13 \<or> c \<in> {32, 133, 160, 5760, 8232, 8233, 8239, 8287, 12288} \<or> 8192 \<le> c \<and> c \<le> 8202"

section \<open>Decimal numbers\<close>

lemma of_digit_char: "d < 10 \<Longrightarrow> of_char (digit_char d) = 48 + d"
  by (simp add: digit_char_def of_char_of take_bit_nat_eq_self_iff)

lemma digit_char_inverse: "is_digit c \<Longrightarrow> digit_char (of_char c - 48) = c"
  by (simp add: is_digit_def digit_char_def)

lemma is_digit_char: "d < 10 \<Longrightarrow> is_digit (digit_char d)"
  by (simp add: is_digit_def of_digit_char)

lemma digits_value_snoc: "digits_value (s @ [c]) = 10 * digits_value s + (of_char c - 48)"
  by (simp add: digits_value_def)

lemma digits_value_show [simp]: "digits_value (show_nat n) = n"
proof (induction n rule: show_nat.induct)
  case (1 n)
  show ?case
  proof (cases "n < 10")
    case True
    then show ?thesis by (simp add: show_nat.simps [of n] digits_value_def of_digit_char)
  next
    case False
    with 1 show ?thesis by (simp add: show_nat.simps [of n] digits_value_snoc of_digit_char)
  qed
qed

lemma show_nat_digits: "list_all is_digit (show_nat n)"
proof (induction n rule: show_nat.induct)
  case (1 n)
  then show ?case by (cases "n < 10") (simp_all add: show_nat.simps [of n] is_digit_char)
qed

text \<open>The canonical spellings are exactly the printed numbers.\<close>

definition spelled :: "string \<Rightarrow> bool" where
  "spelled s \<longleftrightarrow> s \<noteq> [] \<and> list_all is_digit s \<and> (s = ''0'' \<or> hd s \<noteq> CHR ''0'')"

lemma show_nat_hd: "show_nat n \<noteq> [] \<and> (n \<noteq> 0 \<longrightarrow> hd (show_nat n) \<noteq> CHR ''0'')"
proof (induction n rule: show_nat.induct)
  case (1 n)
  show ?case
  proof (cases "n < 10")
    case True
    have "digit_char n \<noteq> CHR ''0''" if "n \<noteq> 0"
    proof
      assume "digit_char n = CHR ''0''"
      then have "of_char (digit_char n) = (of_char (CHR ''0'') :: nat)" by simp
      with True that show False by (simp add: of_digit_char)
    qed
    with True show ?thesis by (simp add: show_nat.simps [of n])
  next
    case False
    with 1 have "show_nat (n div 10) \<noteq> []" "hd (show_nat (n div 10)) \<noteq> CHR ''0''" by auto
    with False show ?thesis by (simp add: show_nat.simps [of n])
  qed
qed

lemma show_nat_0: "show_nat 0 = ''0''"
proof -
  have "of_char (digit_char 0) = (of_char (CHR ''0'') :: nat)" by (simp add: of_digit_char)
  then show ?thesis by (simp only: of_char_eq_iff) (simp add: show_nat.simps)
qed

lemma spelled_show: "spelled (show_nat n)"
  using show_nat_hd [of n] show_nat_0 show_nat_digits [of n] by (cases "n = 0") (auto simp: spelled_def)

lemma show_digits_value: "spelled s \<Longrightarrow> show_nat (digits_value s) = s"
proof (induction s rule: rev_induct)
  case Nil
  then show ?case by (simp add: spelled_def)
next
  case (snoc c s)
  have c: "is_digit c" using snoc.prems by (simp add: spelled_def)
  then have low: "of_char c - 48 < (10 :: nat)" by (auto simp: is_digit_def)
  show ?case
  proof (cases "s = []")
    case True
    with c low show ?thesis by (simp add: digits_value_def show_nat.simps digit_char_inverse)
  next
    case False
    with snoc.prems have s: "spelled s" "hd s \<noteq> CHR ''0''" by (auto simp: spelled_def)
    have "digits_value s \<noteq> 0"
    proof
      assume "digits_value s = 0"
      then have "s = ''0''" using snoc.IH [OF s(1)] show_nat_0 by simp
      with s(2) show False by simp
    qed
    then show ?thesis
      using snoc.IH [OF s(1)] c low
      by (simp add: digits_value_snoc show_nat.simps [of "10 * digits_value s + (of_char c - 48)"] digit_char_inverse)
  qed
qed

section \<open>Cutting strings\<close>

lemma strip_suffix_Some: "strip_suffix suf s = Some a \<longleftrightarrow> s = a @ suf"
  by (auto simp: strip_suffix_def) (metis append_take_drop_id)

lemma strip_suffix_append [simp]: "strip_suffix suf (a @ suf) = Some a"
  by (simp add: strip_suffix_Some)

lemma split_once_Nil: "split_once pat [] = (if pat = [] then Some ([], []) else None)"
  by (simp add: split_once.simps [of pat "[]"])

lemma split_once_Cons:
  "split_once pat (c # s) = (if take (length pat) (c # s) = pat then Some ([], drop (length pat) (c # s))
     else map_option (\<lambda>(a, b). (c # a, b)) (split_once pat s))"
  by (simp add: split_once.simps [of pat "c # s"])

lemma split_once_Some: "split_once pat s = Some (a, b) \<Longrightarrow> s = a @ pat @ b"
proof (induction s arbitrary: a)
  case Nil
  then show ?case by (auto simp: split_once_Nil split: if_splits)
next
  case (Cons c s)
  show ?case
  proof (cases "take (length pat) (c # s) = pat")
    case True
    with Cons.prems have "a = []" "b = drop (length pat) (c # s)" by (simp_all add: split_once_Cons)
    with True show ?thesis by (metis append_Nil append_take_drop_id)
  next
    case False
    with Cons.prems obtain a' where "split_once pat s = Some (a', b)" "a = c # a'"
      by (auto simp: split_once_Cons simp del: take_Suc_Cons)
    with Cons.IH show ?thesis by simp
  qed
qed

text \<open>Digits hold no dot, so the first \<open>.r\<close> of a stem is the one the number ends at.\<close>

lemma digit_no_dot: "is_digit c \<Longrightarrow> c \<noteq> CHR ''.''"
  by (auto simp: is_digit_def)

lemma split_once_digits: "list_all is_digit s \<Longrightarrow> split_once ''.r'' s = None"
  by (induction s) (auto simp: split_once_Nil split_once_Cons dest: digit_no_dot)

lemma split_once_stem:
  "list_all is_digit s \<Longrightarrow> split_once ''.r'' (s @ CHR ''.'' # CHR ''r'' # n) = Some (s, n)"
  by (induction s) (auto simp: split_once_Cons dest: digit_no_dot)

end
