(* ===== verification/Block_Name.thy ===== *)
theory Block_Name
  imports Tier Text_Fields "HOL-Library.Product_Lexorder"
begin

text \<open>
  Block file names (\<open>system-hub/hub-store/src/block/name.rs\<close>): \<open><span start>[.r<n>].blk\<close>, printed from
  the file's tier, span and rewrite number and parsed back only from the canonical spelling.
\<close>

section \<open>Names\<close>

datatype rewrite_no = RewriteNo (rewrite_get: u32)

datatype block_name = BlockName (bn_tier: tier) (bn_span: span_start) (bn_rewrite: rewrite_no)

instantiation rewrite_no :: linorder
begin

definition less_eq_rewrite_no :: "rewrite_no \<Rightarrow> rewrite_no \<Rightarrow> bool" where
  "less_eq_rewrite_no a b \<longleftrightarrow> rewrite_get a \<le> rewrite_get b"

definition less_rewrite_no :: "rewrite_no \<Rightarrow> rewrite_no \<Rightarrow> bool" where
  "less_rewrite_no a b \<longleftrightarrow> rewrite_get a < rewrite_get b"

instance
  by standard (auto simp: less_eq_rewrite_no_def less_rewrite_no_def rewrite_no.expand)

end

instantiation block_name :: linorder
begin

definition less_eq_block_name :: "block_name \<Rightarrow> block_name \<Rightarrow> bool" where
  "less_eq_block_name a b \<longleftrightarrow> (bn_tier a, bn_span a, bn_rewrite a) \<le> (bn_tier b, bn_span b, bn_rewrite b)"

definition less_block_name :: "block_name \<Rightarrow> block_name \<Rightarrow> bool" where
  "less_block_name a b \<longleftrightarrow> (bn_tier a, bn_span a, bn_rewrite a) < (bn_tier b, bn_span b, bn_rewrite b)"

instance
  by standard (auto simp: less_eq_block_name_def less_block_name_def block_name.expand)

end

datatype file_kind = Block block_name | Temporary | Foreign

definition file_name :: "block_name \<Rightarrow> string" where
  "file_name b = (let n = rewrite_get (bn_rewrite b); span = show_nat (unat (span_get (bn_span b)))
     in if n = 0 then span @ ''.blk'' else span @ ''.r'' @ show_nat (unat n) @ ''.blk'')"

definition temporary_name :: "block_name \<Rightarrow> string" where
  "temporary_name b = file_name b @ ''.tmp''"

definition canonical :: "string \<Rightarrow> 'a::len word option" where
  "canonical digits =
     (let spelled = digits \<noteq> [] \<and> list_all is_digit digits
            \<and> (digits = ''0'' \<or> \<not> (case digits of [] \<Rightarrow> False | c # _ \<Rightarrow> c = CHR ''0''))
      in if spelled \<and> digits_value digits < 2 ^ LENGTH('a) then Some (of_nat (digits_value digits)) else None)"

definition parse_stem :: "tier \<Rightarrow> string \<Rightarrow> block_name option" where
  "parse_stem t stem =
     Option.bind (case split_once ''.r'' stem of
          Some (span, n) \<Rightarrow> Option.bind (canonical n) (\<lambda>n. if 0 < n then Some (span, n) else None)
        | None \<Rightarrow> Some (stem, 0)) (\<lambda>(span, rewrite).
     Option.bind (canonical span) (\<lambda>start.
     Option.bind (span_new t start) (\<lambda>span.
       Some (BlockName t span (RewriteNo rewrite)))))"

definition classify :: "tier \<Rightarrow> string \<Rightarrow> file_kind" where
  "classify t name = (case strip_suffix ''.blk.tmp'' name of
       Some stem \<Rightarrow> (case parse_stem t stem of Some _ \<Rightarrow> Temporary | None \<Rightarrow> Foreign)
     | None \<Rightarrow> (case Option.bind (strip_suffix ''.blk'' name) (parse_stem t) of
           None \<Rightarrow> Foreign | Some b \<Rightarrow> Block b))"

section \<open>Canonical numbers\<close>

lemma canonical_Some:
  "canonical s = Some (w :: 'a::len word) \<longleftrightarrow> s = show_nat (unat w)"
proof
  have sp: "(s \<noteq> [] \<and> list_all is_digit s \<and> (s = ''0'' \<or> \<not> (case s of [] \<Rightarrow> False | c # _ \<Rightarrow> c = CHR ''0''))) \<longleftrightarrow> spelled s" for s
    by (cases s) (auto simp: spelled_def)
  show "s = show_nat (unat w)" if "canonical s = Some w"
  proof -
    have "spelled s" "digits_value s < 2 ^ LENGTH('a)" "w = of_nat (digits_value s)"
      using that by (auto simp: canonical_def Let_def sp split: if_splits)
    then show ?thesis by (simp add: show_digits_value unat_of_nat_small)
  qed
  show "canonical s = Some w" if "s = show_nat (unat w)"
    using that spelled_show [of "unat w"] unsigned_less [of w] by (simp add: canonical_def Let_def sp)
qed

section \<open>Stems\<close>

lemma canonical_show: "canonical (show_nat (unat w)) = Some w"
  by (simp add: canonical_Some)

definition stem_of :: "block_name \<Rightarrow> string" where
  "stem_of b = show_nat (unat (span_get (bn_span b)))
     @ (if rewrite_get (bn_rewrite b) = 0 then [] else ''.r'' @ show_nat (unat (rewrite_get (bn_rewrite b))))"

lemma file_name_stem: "file_name b = stem_of b @ ''.blk''"
  by (simp add: file_name_def stem_of_def Let_def)

lemma split_once_stem_of:
  "split_once ''.r'' (stem_of b) = (if rewrite_get (bn_rewrite b) = 0 then None
     else Some (show_nat (unat (span_get (bn_span b))), show_nat (unat (rewrite_get (bn_rewrite b)))))"
  by (simp add: stem_of_def split_once_digits split_once_stem show_nat_digits)

lemma parse_stem_Some:
  "parse_stem t stem = Some b \<longleftrightarrow> stem = stem_of b \<and> bn_tier b = t \<and> span_on_grid t (bn_span b)"
proof
  show "stem = stem_of b \<and> bn_tier b = t \<and> span_on_grid t (bn_span b)" if parse: "parse_stem t stem = Some b"
  proof (cases "split_once ''.r'' stem")
    case None
    with parse show ?thesis
      by (auto simp: parse_stem_def bind_eq_Some_conv canonical_Some span_new_Some span_on_grid_def stem_of_def)
  next
    case (Some an)
    then obtain a n where an: "split_once ''.r'' stem = Some (a, n)" by (cases an) simp
    then have "stem = a @ ''.r'' @ n" by (rule split_once_Some)
    with parse an show ?thesis
      by (auto simp: parse_stem_def bind_eq_Some_conv canonical_Some span_new_Some span_on_grid_def stem_of_def
          word_gt_0 split: if_splits)
  qed
  assume b: "stem = stem_of b \<and> bn_tier b = t \<and> span_on_grid t (bn_span b)"
  from b have span: "span_new t (span_get (bn_span b)) = Some (bn_span b)" by (simp add: span_new_get)
  have "stem = show_nat (unat (span_get (bn_span b)))" if "rewrite_get (bn_rewrite b) = 0"
    using b that by (simp add: stem_of_def)
  with b span show "parse_stem t stem = Some b"
    by (cases b; cases "bn_rewrite b") (auto simp: parse_stem_def split_once_stem_of word_gt_0 canonical_show)
qed

section \<open>Properties\<close>

text \<open>A tier's directory and its block files are in bijection: a name is taken for a block file exactly
  when it is the canonical name of a block of that tier on the tier's grid, which is then that block,
  so no two blocks share a name and no other spelling is touched; and the name a block is written to
  before its rename is a temporary one.\<close>

theorem block_names_canonical:
  "(classify t name = Block b \<longleftrightarrow> name = file_name b \<and> bn_tier b = t \<and> span_on_grid t (bn_span b))
   \<and> (classify t name = Temporary \<longleftrightarrow> (\<exists>b. name = temporary_name b \<and> bn_tier b = t \<and> span_on_grid t (bn_span b)))"
proof -
  have tmp: "strip_suffix ''.blk.tmp'' (a @ ''.blk'') = None" for a
  proof (rule ccontr)
    assume "\<not> ?thesis"
    then obtain c where "a @ ''.blk'' = c @ ''.blk.tmp''" by (auto simp: strip_suffix_Some)
    then have "last (a @ ''.blk'') = last (c @ ''.blk.tmp'')" by (rule arg_cong)
    then show False by simp
  qed
  have block: "classify t name = Block b \<longleftrightarrow> strip_suffix ''.blk.tmp'' name = None
      \<and> (\<exists>stem. name = stem @ ''.blk'' \<and> parse_stem t stem = Some b)"
    by (auto simp: classify_def bind_eq_Some_conv bind_eq_None_conv strip_suffix_Some split: option.splits)
  have temp: "classify t name = Temporary \<longleftrightarrow> (\<exists>stem b. name = stem @ ''.blk.tmp'' \<and> parse_stem t stem = Some b)"
    by (auto simp: classify_def bind_eq_Some_conv bind_eq_None_conv strip_suffix_Some split: option.splits)
  show ?thesis
    unfolding block temp by (auto simp: parse_stem_Some file_name_stem temporary_name_def tmp)
qed

end
