(* ===== verification/Block_Record.thy ===== *)
theory Block_Record
  imports Bytes_Reader Block_Name
begin

text \<open>
  A row of the \<open>blocks\<close> table (\<open>system-hub/hub-store/src/block/record.rs\<close>): the format, rewrite number,
  length, chunk count and tombstoned bytes of a span's file, and its byte form.
\<close>

definition BLOCK_RECORD_V1 :: u8 where
  "BLOCK_RECORD_V1 = 1"

record block_record =
  br_format :: u8
  br_rewrite :: rewrite_no
  br_length :: u64
  br_chunk_count :: u32
  br_tombstoned :: u64

datatype bad_record = UnknownRecordVersion u8 | MalformedRecord

definition block_record_to_bytes :: "block_record \<Rightarrow> bytes" where
  "block_record_to_bytes r = [BLOCK_RECORD_V1, br_format r] @ to_be_bytes 4 (rewrite_get (br_rewrite r))
     @ to_be_bytes 8 (br_length r) @ to_be_bytes 4 (br_chunk_count r) @ to_be_bytes 8 (br_tombstoned r)"

definition read_block_record :: "reader \<Rightarrow> short + block_record \<times> reader" where
  "read_block_record r = rbind (rd_u8 r) (\<lambda>(format, r). rbind (rd_u32 r) (\<lambda>(rewrite, r).
     rbind (rd_u64 r) (\<lambda>(len, r). rbind (rd_u32 r) (\<lambda>(count, r). rbind (rd_u64 r) (\<lambda>(tombstoned, r).
       Inr (\<lparr>br_format = format, br_rewrite = RewriteNo rewrite, br_length = len, br_chunk_count = count,
         br_tombstoned = tombstoned\<rparr>, r))))))"

definition block_record_from_bytes :: "bytes \<Rightarrow> bad_record + block_record" where
  "block_record_from_bytes bs =
     rbind (map_err (\<lambda>_. MalformedRecord) (rd_u8 bs)) (\<lambda>(version, r).
       if version \<noteq> BLOCK_RECORD_V1 then Inl (UnknownRecordVersion version)
       else rbind (map_err (\<lambda>_. MalformedRecord) (read_block_record r)) (\<lambda>(row, r).
         rbind (map_err (\<lambda>_. MalformedRecord) (rd_finish r)) (\<lambda>_. Inr row)))"

section \<open>Properties\<close>

text \<open>The rows of the block table are canonical: bytes decode to a row exactly when they are the row's
  own bytes; bytes of another version are refused by that version's number.\<close>

theorem block_record_codec:
  "(block_record_from_bytes bs = Inr r \<longleftrightarrow> bs = block_record_to_bytes r)
   \<and> (block_record_from_bytes bs = Inl (UnknownRecordVersion v) \<longleftrightarrow> v \<noteq> 1 \<and> (\<exists>rest. bs = v # rest))"
proof -
  have "block_record_from_bytes (block_record_to_bytes r) = Inr r"
    by (cases "br_rewrite r")
      (simp add: block_record_from_bytes_def block_record_to_bytes_def read_block_record_def field_simps rd_finish_def)
  moreover have "bs = block_record_to_bytes r" if "block_record_from_bytes bs = Inr r"
    using that by (auto simp: block_record_from_bytes_def block_record_to_bytes_def read_block_record_def
        result_simps read_Inr split: if_splits)
  moreover have "block_record_from_bytes bs = Inl (UnknownRecordVersion v) \<longleftrightarrow> v \<noteq> 1 \<and> (\<exists>rest. bs = v # rest)"
    by (cases bs) (auto simp: block_record_from_bytes_def BLOCK_RECORD_V1_def field_simps rd_u8_def rd_array_def map_err_def
        result_simps split: if_splits sum.splits)
  ultimately show ?thesis by blast
qed

end
