(* ===== verification/Reconcile.thy ===== *)
theory Reconcile
  imports Block_Name Ordered_Map
begin

text \<open>
  Reconciling the block files with the \<open>blocks\<close> table when the store opens
  (\<open>system-hub/hub-store/src/block/reconcile.rs\<close>): what is unlinked, which pending entries are cleared,
  which rows miss their file, or why the open is refused.  What redb says of a span is asked of the
  caller's \<open>evidence\<close>, a parameter of the operations.
\<close>

datatype tails_in_span = TailsOpen | AllSealed

datatype chunks_in_redb = ChunksPresent | ChunksAbsent

record span_evidence =
  ev_tails :: tails_in_span
  ev_chunks :: chunks_in_redb

record reconciliation =
  rec_unlink :: "block_name list"
  rec_clear_pending :: "block_name list"
  rec_missing :: "block_name list"

datatype 'e refusal = Unexplained block_name | Evidence 'e

record catalogued =
  cat_rows :: "(tier \<times> span_start, rewrite_no) btree_map"
  cat_pending :: "block_name btree_set"
  cat_hub_now :: u64

type_synonym 'e evidence = "tier \<Rightarrow> span_start \<Rightarrow> 'e + span_evidence"

definition redundant ::
  "block_name \<Rightarrow> block_name btree_set \<Rightarrow> catalogued \<Rightarrow> 'e evidence \<Rightarrow> 'e refusal + bool" where
  "redundant file files cat evidence = (case om_get (cat_rows cat) (bn_tier file, bn_span file) of
       Some row \<Rightarrow>
         (let own = BlockName (bn_tier file) (bn_span file) row
          in Inr (row < bn_rewrite file \<and> bs_contains files own \<and> \<not> bs_contains (cat_pending cat) own))
     | None \<Rightarrow>
         if span_is_closed (bn_tier file) (bn_span file) (cat_hub_now cat)
         then rbind (map_err Evidence (evidence (bn_tier file) (bn_span file))) (\<lambda>found.
           Inr (found = \<lparr>ev_tails = AllSealed, ev_chunks = ChunksPresent\<rparr>))
         else Inr False)"

primrec reconcile_orphans ::
  "reconciliation \<Rightarrow> block_name btree_set \<Rightarrow> catalogued \<Rightarrow> 'e evidence \<Rightarrow> block_name list \<Rightarrow> 'e refusal + reconciliation" where
  "reconcile_orphans plan files cat evidence [] = Inr plan"
| "reconcile_orphans plan files cat evidence (orphan # orphans) =
     rbind (redundant orphan files cat evidence) (\<lambda>ok.
       if \<not> ok then Inl (Unexplained orphan)
       else reconcile_orphans (plan\<lparr>rec_unlink := rec_unlink plan @ [orphan]\<rparr>) files cat evidence orphans)"

definition reconcile ::
  "block_name btree_set \<Rightarrow> catalogued \<Rightarrow> 'e evidence \<Rightarrow> 'e refusal + reconciliation" where
  "reconcile files cat evidence =
     (let pending_plan = \<lparr>rec_unlink = filter (bs_contains files) (cat_pending cat), rec_clear_pending = cat_pending cat,
            rec_missing = []\<rparr>;
          owns = map (\<lambda>((t, s), rewrite). BlockName t s rewrite) (cat_rows cat);
          plan = pending_plan\<lparr>rec_missing := filter (\<lambda>own. \<not> bs_contains files own \<or> bs_contains (cat_pending cat) own) owns\<rparr>;
          orphans = filter (\<lambda>f. \<not> bs_contains (cat_pending cat) f
            \<and> om_get (cat_rows cat) (bn_tier f, bn_span f) \<noteq> Some (bn_rewrite f)) files
      in reconcile_orphans plan files cat evidence orphans)"

section \<open>Lemmas\<close>

lemma reconcile_orphans_Inr:
  "reconcile_orphans plan files cat evidence orphans = Inr plan'
    \<longleftrightarrow> (\<forall>f\<in>set orphans. redundant f files cat evidence = Inr True)
      \<and> plan' = plan\<lparr>rec_unlink := rec_unlink plan @ orphans\<rparr>"
  by (induction orphans arbitrary: plan) (auto simp: result_simps split: if_splits)

lemma reconcile_orphans_Inl:
  "reconcile_orphans plan files cat evidence orphans = Inl e
    \<Longrightarrow> \<exists>f\<in>set orphans. redundant f files cat evidence = Inl e
      \<or> redundant f files cat evidence = Inr False \<and> e = Unexplained f"
  by (induction orphans arbitrary: plan) (auto simp: result_simps split: if_splits)

text \<open>Why a redundant file may go: the row's own file stays, or redb still holds the span's chunks.\<close>

lemma redundant_True:
  "redundant f files cat evidence = Inr True \<Longrightarrow>
    (case om_get (cat_rows cat) (bn_tier f, bn_span f) of
       Some row \<Rightarrow> row < bn_rewrite f \<and> BlockName (bn_tier f) (bn_span f) row \<in> set files
         \<and> BlockName (bn_tier f) (bn_span f) row \<notin> set (cat_pending cat)
     | None \<Rightarrow> span_is_closed (bn_tier f) (bn_span f) (cat_hub_now cat)
         \<and> evidence (bn_tier f) (bn_span f) = Inr \<lparr>ev_tails = AllSealed, ev_chunks = ChunksPresent\<rparr>)"
  by (auto simp: redundant_def Let_def bs_contains_def result_simps split: option.splits if_splits)

section \<open>Properties\<close>



end
