(* ===== verification/List_Pieces.thy ===== *)
theory List_Pieces
  imports Prelude
begin

text \<open>
  Cutting a slice into consecutive pieces (\<open>slice::chunks\<close>), and fields of a fixed width laid end to
  end: cutting their concatenation gives the fields back.
\<close>

text \<open>\<open>slice::chunks(n)\<close> for a positive \<open>n\<close>: consecutive pieces of \<open>n\<close> elements, the last one what
  is left.\<close>

function chunks_of :: "nat \<Rightarrow> 'a list \<Rightarrow> 'a list list" where
  "chunks_of n xs = (if n = 0 \<or> xs = [] then [] else take n xs # chunks_of n (drop n xs))"
  by auto
termination
  by (relation "measure (\<lambda>(n, xs). length xs)") (auto simp: neq_Nil_conv)

declare chunks_of.simps [simp del]

section \<open>Pieces of a list\<close>

lemma chunks_of_Nil [simp]: "chunks_of n [] = []"
  by (simp add: chunks_of.simps)

lemma chunks_of_step: "0 < n \<Longrightarrow> xs \<noteq> [] \<Longrightarrow> chunks_of n xs = take n xs # chunks_of n (drop n xs)"
  by (subst chunks_of.simps) simp

lemma concat_chunks_of: "0 < n \<Longrightarrow> concat (chunks_of n xs) = xs"
proof (induction n xs rule: chunks_of.induct)
  case (1 n xs)
  then show ?case by (cases "xs = []") (simp_all add: chunks_of_step)
qed

lemma chunks_of_map: "chunks_of n (map f xs) = map (map f) (chunks_of n xs)"
proof (induction n xs rule: chunks_of.induct)
  case (1 n xs)
  then show ?case
    by (cases "n = 0 \<or> xs = []") (auto simp: chunks_of.simps [of n "map f xs"] chunks_of.simps [of n xs] take_map drop_map)
qed

lemma chunks_of_nonempty: "b \<in> set (chunks_of n xs) \<Longrightarrow> b \<noteq> []"
proof (induction n xs rule: chunks_of.induct)
  case (1 n xs)
  then show ?case by (cases "n = 0 \<or> xs = []") (auto simp: chunks_of.simps [of n xs])
qed

lemma length_chunks_of: "0 < n \<Longrightarrow> length (chunks_of n xs) = div_ceil (length xs) n"
proof (induction n xs rule: chunks_of.induct)
  case (1 n xs)
  show ?case
  proof (cases "xs = []")
    case True
    then show ?thesis using 1(2) by (simp add: div_ceil_def)
  next
    case False
    then have IH: "length (chunks_of n (drop n xs)) = div_ceil (length (drop n xs)) n"
      using 1 by simp
    have "div_ceil (length xs) n = Suc (div_ceil (length xs - n) n)"
    proof (cases "n \<le> length xs")
      case True
      then have "length xs + n - 1 = (length xs - n + n - 1) + n" using 1(2) by simp
      then show ?thesis using 1(2) by (simp only: div_ceil_def div_add_self2)
    next
      case short: False
      obtain m where m: "length xs = Suc m" using False by (cases xs) simp_all
      with short have "(length xs + n - 1) div n = 1" by (intro div_nat_eqI) simp_all
      then show ?thesis using short 1(2) by (simp add: div_ceil_def)
    qed
    then show ?thesis using IH False 1(2) by (simp add: chunks_of_step)
  qed
qed

lemma nth_chunks_of: "0 < n \<Longrightarrow> i < length (chunks_of n xs) \<Longrightarrow> chunks_of n xs ! i = take n (drop (i * n) xs)"
proof (induction n xs arbitrary: i rule: chunks_of.induct)
  case (1 n xs)
  then have ne: "xs \<noteq> []" by auto
  show ?case
  proof (cases i)
    case 0
    then show ?thesis using ne 1(2) by (simp add: chunks_of_step)
  next
    case (Suc j)
    then have "chunks_of n (drop n xs) ! j = take n (drop (j * n) (drop n xs))"
      using 1 ne by (simp add: chunks_of_step)
    then show ?thesis using Suc ne 1(2) by (simp add: chunks_of_step add.commute)
  qed
qed

lemma chunks_of_index: "0 < n \<Longrightarrow> i < length (chunks_of n xs) \<Longrightarrow> i * n < length xs"
proof -
  assume n: "0 < n" and i: "i < length (chunks_of n xs)"
  then have "chunks_of n xs ! i \<noteq> []" using chunks_of_nonempty nth_mem by blast
  then show ?thesis using nth_chunks_of [OF n i] by auto
qed

text \<open>Fixed-width fields: cutting the concatenation gives the fields back.\<close>

lemma take_drop_fields:
  assumes "\<And>x. x \<in> set xs \<Longrightarrow> length (f x) = k"
  shows "take (m * k) (concat (map f xs)) = concat (map f (take m xs))"
    and "drop (m * k) (concat (map f xs)) = concat (map f (drop m xs))"
  using assms
proof (induction xs arbitrary: m)
  case (Cons x xs)
  {
    case 1
    then show ?case using Cons by (cases m) simp_all
  next
    case 2
    then show ?case using Cons by (cases m) simp_all
  }
qed simp_all

lemma length_fields: "(\<And>x. x \<in> set xs \<Longrightarrow> length (f x) = k) \<Longrightarrow> length (concat (map f xs)) = length xs * k"
  by (induction xs) simp_all

lemma chunks_of_fields:
  assumes "\<And>x. x \<in> set xs \<Longrightarrow> length (f x) = k" "0 < k" "0 < m"
  shows "chunks_of (m * k) (concat (map f xs)) = map (\<lambda>b. concat (map f b)) (chunks_of m xs)"
  using assms
proof (induction m xs rule: chunks_of.induct)
  case (1 m xs)
  show ?case
  proof (cases "xs = []")
    case False
    have ne: "concat (map f xs) \<noteq> []" using False 1(2,3) by (cases xs) auto
    have "\<And>x. x \<in> set (drop m xs) \<Longrightarrow> length (f x) = k" using 1(2) by (auto dest: in_set_dropD)
    then show ?thesis
      using False ne 1 take_drop_fields [of xs f k m] by (simp add: chunks_of_step [of m xs] chunks_of_step [OF _ ne])
  qed simp
qed

lemma chunks_of_1: "chunks_of (Suc 0) xs = map (\<lambda>x. [x]) xs"
  by (induction xs) (simp_all add: chunks_of_step)

lemma chunks_of_single: "(\<And>x. x \<in> set xs \<Longrightarrow> length (f x) = k) \<Longrightarrow> 0 < k \<Longrightarrow> chunks_of k (concat (map f xs)) = map f xs"
  using chunks_of_fields [of xs f k 1] by (simp add: chunks_of_1 o_def)

end
