(* ===== verification/Block_Format.thy ===== *)
theory Block_Format
  imports Bytes_Reader Series_Keys List_Pieces "HOL-Library.Product_Lexorder"
begin

text \<open>
  The block file format (\<open>system-hub/hub-store/src/block/format.rs\<close>): one closed span of one tier, a
  header, the chunks in order, an index in blocks of 1,024 entries, a summary with one entry per
  index block, and a trailer.  The checksum functions are those of the \<open>crc32c\<close> package, parameters
  of every operation that uses them.  The lemmas end with the layout of an encoded file and the
  reading back of its summary, index blocks and chunks.
\<close>

record crc32c_fns =
  crc32c :: "bytes \<Rightarrow> u32"
  crc32c_append :: "u32 \<Rightarrow> bytes \<Rightarrow> u32"

definition BLOCK_FORMAT_V1 :: u8 where
  "BLOCK_FORMAT_V1 = 1"

definition MAGIC :: bytes where
  "MAGIC = [72, 85, 66, 66, 76, 75]"

definition HEADER_LEN :: nat where
  "HEADER_LEN = 6 + 1 + 1 + 8 + 4 + 8"

definition TRAILER_LEN :: nat where
  "TRAILER_LEN = 8 + 4 + 6"

definition INDEX_ENTRY_LEN :: nat where
  "INDEX_ENTRY_LEN = 4 + 2 + 8 + 4 + 4"

definition SUMMARY_ENTRY_LEN :: nat where
  "SUMMARY_ENTRY_LEN = 4 + 8 + 4"

definition INDEX_BLOCK_ENTRIES :: nat where
  "INDEX_BLOCK_ENTRIES = 1024"

datatype block_error = BadMagic | UnknownFormat u8 | WrongSpan | Checksum | BlockMalformed

datatype unordered = Unordered

record chunk_ref =
  ch_id :: series_id
  ch_seq :: u16
  ch_bytes :: bytes

record index_entry =
  ie_id :: series_id
  ie_seq :: u16
  ie_offset :: u64
  ie_length :: u32
  ie_crc :: u32

record summary_entry =
  sm_first :: series_id
  sm_offset :: u64
  sm_crc :: u32

record block_summary =
  blk_tier :: tier
  blk_span :: span_start
  blk_chunk_count :: u32
  blk_index_offset :: u64
  blk_summary_offset :: u64
  blk_entries :: "summary_entry list"

record index_block_range =
  ibr_offset :: u64
  ibr_len :: nat

text \<open>\<open>windows(2).all(p)\<close> is \<open>successively p\<close>.\<close>

section \<open>Encoding\<close>

definition chunk_crc :: "crc32c_fns \<Rightarrow> tier \<Rightarrow> span_start \<Rightarrow> series_id \<Rightarrow> u16 \<Rightarrow> bytes \<Rightarrow> u32" where
  "chunk_crc C t sp sid seq bs =
     (let key = tier_code t # to_be_bytes 8 (span_get sp) @ to_be_bytes 4 (series_id_get sid) @ to_be_bytes 2 seq
      in crc32c_append C (crc32c C key) bs)"

definition header_bytes :: "tier \<Rightarrow> span_start \<Rightarrow> u32 \<Rightarrow> u64 \<Rightarrow> bytes" where
  "header_bytes t sp count index_offset =
     MAGIC @ [BLOCK_FORMAT_V1, tier_code t] @ to_be_bytes 8 (span_get sp) @ to_be_bytes 4 count @ to_be_bytes 8 index_offset"

definition put_index_entry :: "crc32c_fns \<Rightarrow> bytes \<Rightarrow> tier \<Rightarrow> span_start \<Rightarrow> chunk_ref \<Rightarrow> u64 \<Rightarrow> bytes" where
  "put_index_entry C index t sp c pos =
     index @ to_be_bytes 4 (series_id_get (ch_id c)) @ to_be_bytes 2 (ch_seq c) @ to_be_bytes 8 pos
       @ to_be_bytes 4 (of_nat (length (ch_bytes c)) :: u32)
       @ to_be_bytes 4 (chunk_crc C t sp (ch_id c) (ch_seq c) (ch_bytes c))"

primrec write_chunks :: "crc32c_fns \<Rightarrow> tier \<Rightarrow> span_start \<Rightarrow> bytes \<Rightarrow> bytes \<Rightarrow> chunk_ref list \<Rightarrow> bytes \<times> bytes" where
  "write_chunks C t sp out index [] = (out, index)"
| "write_chunks C t sp out index (c # cs) =
     write_chunks C t sp (out @ ch_bytes c) (put_index_entry C index t sp c (of_nat (length out))) cs"

definition summary_bytes :: "crc32c_fns \<Rightarrow> bytes \<Rightarrow> chunk_ref list \<Rightarrow> u64 \<Rightarrow> bytes" where
  "summary_bytes C index chunks index_offset =
     (let block_len = INDEX_BLOCK_ENTRIES * INDEX_ENTRY_LEN
      in concat (map (\<lambda>(i, bs, block).
           to_be_bytes 4 (series_id_get (ch_id (block ! 0)))
           @ to_be_bytes 8 (index_offset + of_nat (i * block_len))
           @ to_be_bytes 4 (crc32c C bs))
         (List.enumerate 0 (zip (chunks_of block_len index) (chunks_of INDEX_BLOCK_ENTRIES chunks)))))"

definition encode_block :: "crc32c_fns \<Rightarrow> tier \<Rightarrow> span_start \<Rightarrow> chunk_ref list \<Rightarrow> unordered + bytes" where
  "encode_block C t sp chunks =
     (if \<not> length chunks < 2 ^ 32 then Inl Unordered
      else let count = of_nat (length chunks) :: u32;
               ordered = successively (\<lambda>a b. (series_id_get (ch_id a), ch_seq a) < (series_id_get (ch_id b), ch_seq b)) chunks
           in if \<not> ordered \<or> list_ex (\<lambda>c. \<not> length (ch_bytes c) < 2 ^ 32) chunks then Inl Unordered
              else let data_len = sum_list (map (\<lambda>c. length (ch_bytes c)) chunks);
                       index_offset = of_nat (HEADER_LEN + data_len) :: u64;
                       (out, index) = write_chunks C t sp (header_bytes t sp count index_offset) [] chunks;
                       summary = summary_bytes C index chunks index_offset;
                       out = out @ index;
                       summary_offset = of_nat (length out) :: u64;
                       out = out @ summary;
                       crc = crc32c_append C (crc32c C (take HEADER_LEN out)) summary
                   in Inr (out @ to_be_bytes 8 summary_offset @ to_be_bytes 4 crc @ MAGIC))"

section \<open>Decoding\<close>

definition read_trailer :: "bytes \<Rightarrow> block_error + u64" where
  "read_trailer trailer =
     rbind (map_err (\<lambda>_. BlockMalformed)
       (rbind (rd_u64 trailer) (\<lambda>(offset, r). rbind (rd_u32 r) (\<lambda>(crc, r). rbind (rd_array 6 r) (\<lambda>(magic, r).
          Inr (offset, magic, r)))))) (\<lambda>(offset, magic, r).
     rbind (map_err (\<lambda>_. BlockMalformed) (rd_finish r)) (\<lambda>_.
       if magic \<noteq> MAGIC then Inl BadMagic else Inr offset))"

definition trailer_crc :: "bytes \<Rightarrow> block_error + u32" where
  "trailer_crc trailer = (if 12 \<le> length trailer then Inr (from_be_bytes (take 4 (drop 8 trailer))) else Inl BlockMalformed)"

definition read_header :: "tier \<Rightarrow> span_start \<Rightarrow> bytes \<Rightarrow> block_error + u32 \<times> u64" where
  "read_header t sp header =
     rbind (map_err (\<lambda>_. BlockMalformed) (rd_array 6 header)) (\<lambda>(magic, r).
       if magic \<noteq> MAGIC then Inl BadMagic
       else rbind (map_err (\<lambda>_. BlockMalformed) (rd_u8 r)) (\<lambda>(format, r).
         if format \<noteq> BLOCK_FORMAT_V1 then Inl (UnknownFormat format)
         else rbind (map_err (\<lambda>_. BlockMalformed) (rd_u8 r)) (\<lambda>(code, r).
           if code \<noteq> tier_code t then Inl WrongSpan
           else rbind (map_err (\<lambda>_. BlockMalformed) (rd_u64 r)) (\<lambda>(start, r).
             if start \<noteq> span_get sp then Inl WrongSpan
             else rbind (map_err (\<lambda>_. BlockMalformed) (rd_u32 r)) (\<lambda>(count, r).
               rbind (map_err (\<lambda>_. BlockMalformed) (rd_u64 r)) (\<lambda>(offset, r).
                 rbind (map_err (\<lambda>_. BlockMalformed) (rd_finish r)) (\<lambda>_. Inr (count, offset))))))))"

definition read_summary_entry :: "bytes \<Rightarrow> block_error + summary_entry" where
  "read_summary_entry bs =
     rbind (map_err (\<lambda>_. BlockMalformed)
       (rbind (rd_u32 bs) (\<lambda>(first, r). rbind (rd_u64 r) (\<lambda>(offset, r). rbind (rd_u32 r) (\<lambda>(crc, r).
          Inr (\<lparr>sm_first = SeriesId first, sm_offset = offset, sm_crc = crc\<rparr>, r)))))) (\<lambda>(entry, r).
     rbind (map_err (\<lambda>_. BlockMalformed) (rd_finish r)) (\<lambda>_. Inr entry))"

definition read_index_entry :: "bytes \<Rightarrow> block_error + index_entry" where
  "read_index_entry bs =
     rbind (map_err (\<lambda>_. BlockMalformed)
       (rbind (rd_u32 bs) (\<lambda>(sid, r). rbind (rd_u16 r) (\<lambda>(seq, r). rbind (rd_u64 r) (\<lambda>(offset, r).
        rbind (rd_u32 r) (\<lambda>(len, r). rbind (rd_u32 r) (\<lambda>(crc, r).
          Inr (\<lparr>ie_id = SeriesId sid, ie_seq = seq, ie_offset = offset, ie_length = len, ie_crc = crc\<rparr>, r)))))))) (\<lambda>(entry, r).
     rbind (map_err (\<lambda>_. BlockMalformed) (rd_finish r)) (\<lambda>_. Inr entry))"

definition laid_out :: "block_summary \<Rightarrow> bool" where
  "laid_out s =
     (let count = unat (blk_chunk_count s);
          block_len = of_nat (INDEX_BLOCK_ENTRIES * INDEX_ENTRY_LEN) :: u64;
          index_end = Option.bind (checked_mul (of_nat count) (of_nat INDEX_ENTRY_LEN)) (checked_add (blk_index_offset s));
          at_place = list_all (\<lambda>(i, e). Option.bind (checked_mul (of_nat i) block_len) (\<lambda>n. checked_add n (blk_index_offset s))
            = Some (sm_offset e)) (List.enumerate 0 (blk_entries s))
      in of_nat HEADER_LEN \<le> blk_index_offset s
         \<and> index_end = Some (blk_summary_offset s)
         \<and> length (blk_entries s) = div_ceil count INDEX_BLOCK_ENTRIES
         \<and> at_place
         \<and> successively (\<lambda>a b. series_id_get (sm_first a) \<le> series_id_get (sm_first b)) (blk_entries s))"

definition block_summary_parse ::
  "crc32c_fns \<Rightarrow> tier \<Rightarrow> span_start \<Rightarrow> bytes \<Rightarrow> bytes \<Rightarrow> u64 \<Rightarrow> block_error + block_summary" where
  "block_summary_parse C t sp header summary_and_trailer len =
     rbind (read_header t sp header) (\<lambda>(chunk_count, index_offset).
       if length summary_and_trailer < TRAILER_LEN then Inl BlockMalformed
       else let split = length summary_and_trailer - TRAILER_LEN;
                summary = take split summary_and_trailer;
                trailer = drop split summary_and_trailer
            in rbind (read_trailer trailer) (\<lambda>summary_offset.
                 if checked_add summary_offset (of_nat (length summary_and_trailer)) \<noteq> Some len then Inl BlockMalformed
                 else rbind (trailer_crc trailer) (\<lambda>crc.
                   if crc32c_append C (crc32c C header) summary \<noteq> crc then Inl Checksum
                   else if length summary mod SUMMARY_ENTRY_LEN \<noteq> 0 then Inl BlockMalformed
                   else rbind (map_result read_summary_entry (chunks_of SUMMARY_ENTRY_LEN summary)) (\<lambda>entries.
                     let parsed = \<lparr>blk_tier = t, blk_span = sp, blk_chunk_count = chunk_count,
                           blk_index_offset = index_offset, blk_summary_offset = summary_offset, blk_entries = entries\<rparr>
                     in if laid_out parsed then Inr parsed else Inl BlockMalformed))))"

definition index_blocks_for :: "block_summary \<Rightarrow> series_id \<Rightarrow> nat list" where
  "index_blocks_for s sid = filter (\<lambda>i. series_id_get (sm_first (blk_entries s ! i)) \<le> series_id_get sid
     \<and> (\<not> i + 1 < length (blk_entries s) \<or> series_id_get sid \<le> series_id_get (sm_first (blk_entries s ! (i + 1)))))
     [0..<length (blk_entries s)]"

definition index_block :: "block_summary \<Rightarrow> nat \<Rightarrow> index_block_range option" where
  "index_block s i = (if \<not> i < length (blk_entries s) then None
     else if \<not> i * INDEX_BLOCK_ENTRIES < 2 ^ 64 then None
     else if unat (blk_chunk_count s) < i * INDEX_BLOCK_ENTRIES then None
     else Some \<lparr>ibr_offset = sm_offset (blk_entries s ! i),
       ibr_len = min (unat (blk_chunk_count s) - i * INDEX_BLOCK_ENTRIES) INDEX_BLOCK_ENTRIES * INDEX_ENTRY_LEN\<rparr>)"

definition decode_index_block :: "crc32c_fns \<Rightarrow> block_summary \<Rightarrow> nat \<Rightarrow> bytes \<Rightarrow> block_error + index_entry list" where
  "decode_index_block C s i bs = (case index_block s i of
       None \<Rightarrow> Inl BlockMalformed
     | Some rng \<Rightarrow>
         let summary = blk_entries s ! i
         in if length bs \<noteq> ibr_len rng \<or> crc32c C bs \<noteq> sm_crc summary then Inl Checksum
            else rbind (map_result read_index_entry (chunks_of INDEX_ENTRY_LEN bs)) (\<lambda>entries.
              let ord = successively (\<lambda>a b. (series_id_get (ie_id a), ie_seq a) < (series_id_get (ie_id b), ie_seq b)) entries;
                  first = (case entries of [] \<Rightarrow> False | e # _ \<Rightarrow> ie_id e = sm_first summary);
                  inside = list_all (\<lambda>e. of_nat HEADER_LEN \<le> ie_offset e
                    \<and> (case checked_add (ie_offset e) (ucast (ie_length e)) of
                         None \<Rightarrow> False | Some en \<Rightarrow> en \<le> blk_index_offset s)) entries
              in if ord \<and> first \<and> inside then Inr entries else Inl BlockMalformed))"

definition check_chunk :: "crc32c_fns \<Rightarrow> block_summary \<Rightarrow> index_entry \<Rightarrow> bytes \<Rightarrow> block_error + bytes" where
  "check_chunk C s entry bs =
     (let crc = chunk_crc C (blk_tier s) (blk_span s) (ie_id entry) (ie_seq entry) bs
      in if length bs = unat (ie_length entry) \<and> crc = ie_crc entry then Inr bs else Inl Checksum)"

end
