(* ===== verification/Block_File.thy ===== *)
theory Block_File
  imports Block_Format Block_Name Ordered_Map "HOL-Library.AList"
begin

text \<open>
  Block files on disk (\<open>system-hub/hub-store/src/block/file.rs\<close>).  The tier directories are an
  association list from (tier, file name) to bytes; which system calls fail, and how, is a record of
  the environment, so that every error path of the source is a branch here.  Directory modes and
  paths above \<open>blocks/\<close> are left out.
\<close>

definition SUMMARY_MAX :: u64 where
  "SUMMARY_MAX = push_bit 20 16"

datatype file_error = FileMissing | FileDamaged block_error | FileIo

datatype error_kind = AlreadyExists | OtherKind nat

datatype write_error = WriteExists | WriteIo error_kind

type_synonym path = "tier \<times> string"

type_synonym block_dir = "(path \<times> bytes) list"

record scan =
  sc_blocks :: "block_name btree_set"
  sc_temporaries :: "path list"

record io_env =
  io_open_fails :: bool
  io_stat_fails :: bool
  io_read_fails :: "u64 \<Rightarrow> u64 \<Rightarrow> bool"

record write_env =
  wr_create :: "error_kind option"
  wr_write :: "(error_kind \<times> bytes) option"
  wr_link :: "error_kind option"
  wr_sync_dir :: "error_kind option"
  wr_remove_fails :: bool

definition block_path :: "block_name \<Rightarrow> path" where
  "block_path name = (bn_tier name, file_name name)"

definition tmp_path :: "block_name \<Rightarrow> path" where
  "tmp_path name = (bn_tier name, temporary_name name)"

section \<open>Listing\<close>

text \<open>A name that is not UTF-8 holds a byte no block file's name has, so it is foreign like any other.\<close>

definition scan_entry :: "scan \<Rightarrow> path \<Rightarrow> scan" where
  "scan_entry sc p = (case classify (fst p) (snd p) of
       Block name \<Rightarrow> sc\<lparr>sc_blocks := bs_insert (sc_blocks sc) name\<rparr>
     | Temporary \<Rightarrow> sc\<lparr>sc_temporaries := sc_temporaries sc @ [p]\<rparr>
     | Foreign \<Rightarrow> sc)"

definition dir_scan :: "block_dir \<Rightarrow> scan" where
  "dir_scan d = foldl scan_entry \<lparr>sc_blocks = [], sc_temporaries = []\<rparr>
     (concat (map (\<lambda>t. filter (\<lambda>p. fst p = t) (map fst d)) all_tiers))"

definition remove_temporaries :: "block_dir \<Rightarrow> block_dir" where
  "remove_temporaries d = foldl (\<lambda>d p. AList.delete p d) d (sc_temporaries (dir_scan d))"

section \<open>Writing\<close>

definition dir_remove :: "write_env \<Rightarrow> block_dir \<Rightarrow> path \<Rightarrow> block_dir" where
  "dir_remove env d p = (if wr_remove_fails env then d else AList.delete p d)"

definition write_temporary :: "write_env \<Rightarrow> block_dir \<Rightarrow> path \<Rightarrow> bytes \<Rightarrow> (error_kind + unit) \<times> block_dir" where
  "write_temporary env d tmp bs =
     (if map_of d tmp \<noteq> None then (Inl AlreadyExists, d)
      else case wr_create env of
        Some k \<Rightarrow> (Inl k, d)
      | None \<Rightarrow> (case wr_write env of
            Some (k, partial) \<Rightarrow> (Inl k, dir_remove env (AList.update tmp partial d) tmp)
          | None \<Rightarrow> (Inr (), AList.update tmp bs d)))"

definition hard_link :: "write_env \<Rightarrow> block_dir \<Rightarrow> path \<Rightarrow> path \<Rightarrow> (error_kind + unit) \<times> block_dir" where
  "hard_link env d tmp p =
     (if map_of d p \<noteq> None then (Inl AlreadyExists, d)
      else case wr_link env of
        Some k \<Rightarrow> (Inl k, d)
      | None \<Rightarrow> (case map_of d tmp of None \<Rightarrow> (Inl (OtherKind 0), d) | Some bs \<Rightarrow> (Inr (), AList.update p bs d)))"

definition dir_write :: "write_env \<Rightarrow> block_dir \<Rightarrow> block_name \<Rightarrow> bytes \<Rightarrow> (write_error + unit) \<times> block_dir" where
  "dir_write env d name bs =
     (let tmp = tmp_path name; p = block_path name
      in case write_temporary env d tmp bs of
        (Inl k, d) \<Rightarrow> (Inl (WriteIo k), d)
      | (Inr _, d) \<Rightarrow>
          (let (linked, d) = hard_link env d tmp p;
               d = dir_remove env d tmp
           in case linked of
                Inl k \<Rightarrow> (Inl (if k = AlreadyExists then WriteExists else WriteIo k), d)
              | Inr _ \<Rightarrow> (case wr_sync_dir env of
                    Some k \<Rightarrow> (Inl (WriteIo k), dir_remove env d p)
                  | None \<Rightarrow> (Inr (), d))))"

definition dir_unlink :: "block_dir \<Rightarrow> block_name \<Rightarrow> block_dir" where
  "dir_unlink d name = AList.delete (block_path name) d"

section \<open>Reading\<close>

definition open_file :: "io_env \<Rightarrow> block_dir \<Rightarrow> path \<Rightarrow> file_error + bytes" where
  "open_file env d p = (case map_of d p of
       None \<Rightarrow> Inl FileMissing
     | Some bs \<Rightarrow> if io_open_fails env then Inl FileIo else Inr bs)"

definition read_at :: "io_env \<Rightarrow> bytes \<Rightarrow> u64 \<Rightarrow> u64 \<Rightarrow> file_error + bytes" where
  "read_at env file offset len =
     (if len = 0 then Inr []
      else if io_read_fails env offset len then Inl FileIo
      else if unat offset + unat len \<le> length file then Inr (take (unat len) (drop (unat offset) file))
      else Inl (FileDamaged BlockMalformed))"

definition dir_read_summary :: "crc32c_fns \<Rightarrow> io_env \<Rightarrow> block_dir \<Rightarrow> block_name \<Rightarrow> file_error + block_summary" where
  "dir_read_summary C env d name =
     rbind (open_file env d (block_path name)) (\<lambda>file.
     rbind (if io_stat_fails env then Inl FileIo else Inr (of_nat (length file) :: u64)) (\<lambda>len.
       if len < of_nat (HEADER_LEN + TRAILER_LEN) then Inl (FileDamaged BlockMalformed)
       else rbind (read_at env file 0 (of_nat HEADER_LEN)) (\<lambda>header.
         rbind (read_at env file (len - of_nat TRAILER_LEN) (of_nat TRAILER_LEN)) (\<lambda>trailer.
         rbind (map_err FileDamaged (read_trailer trailer)) (\<lambda>offset.
         rbind (ok_or (FileDamaged BlockMalformed) (checked_sub len offset)) (\<lambda>tail.
           if SUMMARY_MAX < tail then Inl (FileDamaged BlockMalformed)
           else rbind (read_at env file offset tail) (\<lambda>summary.
             map_err FileDamaged (block_summary_parse C (bn_tier name) (bn_span name) header summary len))))))))"

primrec read_entries ::
  "crc32c_fns \<Rightarrow> io_env \<Rightarrow> bytes \<Rightarrow> block_summary \<Rightarrow> series_id \<Rightarrow> (u16 \<times> bytes) list \<Rightarrow> index_entry list
    \<Rightarrow> file_error + (u16 \<times> bytes) list" where
  "read_entries C env file s sid chunks [] = Inr chunks"
| "read_entries C env file s sid chunks (entry # entries) =
     (if ie_id entry \<noteq> sid then read_entries C env file s sid chunks entries
      else rbind (read_at env file (ie_offset entry) (ucast (ie_length entry))) (\<lambda>bs.
        rbind (map_err FileDamaged (check_chunk C s entry bs)) (\<lambda>_.
          read_entries C env file s sid (chunks @ [(ie_seq entry, bs)]) entries)))"

primrec read_index_blocks ::
  "crc32c_fns \<Rightarrow> io_env \<Rightarrow> bytes \<Rightarrow> block_summary \<Rightarrow> series_id \<Rightarrow> (u16 \<times> bytes) list \<Rightarrow> nat list
    \<Rightarrow> file_error + (u16 \<times> bytes) list" where
  "read_index_blocks C env file s sid chunks [] = Inr chunks"
| "read_index_blocks C env file s sid chunks (i # is) =
     rbind (ok_or (FileDamaged BlockMalformed) (index_block s i)) (\<lambda>rng.
     rbind (read_at env file (ibr_offset rng) (of_nat (ibr_len rng))) (\<lambda>index.
     rbind (map_err FileDamaged (decode_index_block C s i index)) (\<lambda>entries.
     rbind (read_entries C env file s sid chunks entries) (\<lambda>chunks.
       read_index_blocks C env file s sid chunks is))))"

definition dir_read_series ::
  "crc32c_fns \<Rightarrow> io_env \<Rightarrow> block_dir \<Rightarrow> block_name \<Rightarrow> block_summary \<Rightarrow> series_id \<Rightarrow> file_error + (u16 \<times> bytes) list" where
  "dir_read_series C env d name s sid =
     rbind (open_file env d (block_path name)) (\<lambda>file.
       read_index_blocks C env file s sid [] (index_blocks_for s sid))"

section \<open>Writing is all or nothing\<close>

lemma temporary_name_not_file: "tmp_path name \<noteq> block_path name"
  by (simp add: tmp_path_def block_path_def temporary_name_def)

lemma map_of_dir_remove:
  "map_of (dir_remove env d p) q = (if q = p \<and> \<not> wr_remove_fails env then None else map_of d q)"
  by (simp add: dir_remove_def AList.delete_conv')



end
