(* ===== verification/Block_Roundtrip.thy ===== *)
theory Block_Roundtrip
  imports Block_File
begin

text \<open>
  What an encoded block file is and how it reads back: the file is its header, data, index, summary and
  trailer end to end; each index block and each summary entry decodes to what was written; and the
  chunks of every series are found through the sparse index.
\<close>

lemmas format_lens = HEADER_LEN_def TRAILER_LEN_def INDEX_ENTRY_LEN_def SUMMARY_ENTRY_LEN_def INDEX_BLOCK_ENTRIES_def

section \<open>Entries and their bytes\<close>

definition index_entry_bytes :: "index_entry \<Rightarrow> bytes" where
  "index_entry_bytes e = to_be_bytes 4 (series_id_get (ie_id e)) @ to_be_bytes 2 (ie_seq e) @ to_be_bytes 8 (ie_offset e)
     @ to_be_bytes 4 (ie_length e) @ to_be_bytes 4 (ie_crc e)"

definition summary_entry_bytes :: "summary_entry \<Rightarrow> bytes" where
  "summary_entry_bytes e = to_be_bytes 4 (series_id_get (sm_first e)) @ to_be_bytes 8 (sm_offset e) @ to_be_bytes 4 (sm_crc e)"

definition index_entry_of :: "crc32c_fns \<Rightarrow> tier \<Rightarrow> span_start \<Rightarrow> nat \<Rightarrow> chunk_ref \<Rightarrow> index_entry" where
  "index_entry_of C t sp pos c = \<lparr>ie_id = ch_id c, ie_seq = ch_seq c, ie_offset = of_nat pos,
     ie_length = of_nat (length (ch_bytes c)), ie_crc = chunk_crc C t sp (ch_id c) (ch_seq c) (ch_bytes c)\<rparr>"

primrec index_entries :: "crc32c_fns \<Rightarrow> tier \<Rightarrow> span_start \<Rightarrow> nat \<Rightarrow> chunk_ref list \<Rightarrow> index_entry list" where
  "index_entries C t sp pos [] = []"
| "index_entries C t sp pos (c # cs) = index_entry_of C t sp pos c # index_entries C t sp (pos + length (ch_bytes c)) cs"

definition block_data :: "chunk_ref list \<Rightarrow> bytes" where
  "block_data cs = concat (map ch_bytes cs)"

lemma length_entry_bytes [simp]:
  "length (index_entry_bytes e) = 22" "length (summary_entry_bytes s) = 16"
  by (simp_all add: index_entry_bytes_def summary_entry_bytes_def)

lemma read_index_entry_bytes [simp]: "read_index_entry (index_entry_bytes e) = Inr e"
  by (cases "ie_id e") (simp add: read_index_entry_def index_entry_bytes_def field_simps rd_finish_def)

lemma read_summary_entry_bytes [simp]: "read_summary_entry (summary_entry_bytes e) = Inr e"
  by (cases "sm_first e") (simp add: read_summary_entry_def summary_entry_bytes_def field_simps rd_finish_def)

lemma put_index_entry_bytes:
  "put_index_entry C index t sp c (of_nat pos) = index @ index_entry_bytes (index_entry_of C t sp pos c)"
  by (simp add: put_index_entry_def index_entry_bytes_def index_entry_of_def)

lemma write_chunks_eq:
  "write_chunks C t sp out index cs
    = (out @ block_data cs, index @ concat (map index_entry_bytes (index_entries C t sp (length out) cs)))"
  by (induction cs arbitrary: out index) (simp_all add: put_index_entry_bytes block_data_def)

lemma length_index_entries [simp]: "length (index_entries C t sp pos cs) = length cs"
  by (induction cs arbitrary: pos) simp_all

lemma map_index_entries:
  "map ie_id (index_entries C t sp pos cs) = map ch_id cs"
  "map ie_seq (index_entries C t sp pos cs) = map ch_seq cs"
  by (induction cs arbitrary: pos) (simp_all add: index_entry_of_def)

lemma header_len: "length (header_bytes t sp count off) = 28"
  by (simp add: header_bytes_def MAGIC_def)

lemma read_header_bytes: "read_header t sp (header_bytes t sp count off) = Inr (count, off)"
proof -
  have "rd_array 6 (header_bytes t sp count off)
      = Inr (MAGIC, [BLOCK_FORMAT_V1, tier_code t] @ to_be_bytes 8 (span_get sp) @ to_be_bytes 4 count @ to_be_bytes 8 off)"
    unfolding header_bytes_def by (rule rd_array_append) (simp add: MAGIC_def)
  then show ?thesis by (simp add: read_header_def field_simps rd_finish_def)
qed

section \<open>The layout of a file\<close>

definition summary_of :: "crc32c_fns \<Rightarrow> u64 \<Rightarrow> nat \<Rightarrow> index_entry list \<Rightarrow> summary_entry" where
  "summary_of C off i b = \<lparr>sm_first = ie_id (b ! 0), sm_offset = off + of_nat (i * 22528),
     sm_crc = crc32c C (concat (map index_entry_bytes b))\<rparr>"

definition summaries :: "crc32c_fns \<Rightarrow> u64 \<Rightarrow> index_entry list list \<Rightarrow> summary_entry list" where
  "summaries C off blocks = map (\<lambda>(i, b). summary_of C off i b) (List.enumerate 0 blocks)"

lemma length_summaries [simp]: "length (summaries C off blocks) = length blocks"
  by (simp add: summaries_def)

lemma nth_summaries: "i < length blocks \<Longrightarrow> summaries C off blocks ! i = summary_of C off i (blocks ! i)"
  by (simp add: summaries_def nth_enumerate_eq)

text \<open>The chunks and the index entries are cut alike.\<close>

lemma block_firsts:
  assumes "map ie_id es = map ch_id cs" "i < length (chunks_of 1024 es)"
  shows "length (chunks_of 1024 cs) = length (chunks_of 1024 es)"
    and "map ie_id (chunks_of 1024 es ! i) = map ch_id (chunks_of 1024 cs ! i)"
    and "ch_id (chunks_of 1024 cs ! i ! 0) = ie_id (chunks_of 1024 es ! i ! 0)"
proof -
  have eq: "map (map ie_id) (chunks_of 1024 es) = map (map ch_id) (chunks_of 1024 cs)"
    using arg_cong [OF assms(1), of "chunks_of 1024"] by (simp add: chunks_of_map)
  then show len: "length (chunks_of 1024 cs) = length (chunks_of 1024 es)" by (metis length_map)
  show ids: "map ie_id (chunks_of 1024 es ! i) = map ch_id (chunks_of 1024 cs ! i)"
    using arg_cong [OF eq, of "\<lambda>xs. xs ! i"] assms(2) len by simp
  have "chunks_of 1024 es ! i \<noteq> []"
    using nth_mem [OF assms(2)] by (rule chunks_of_nonempty)
  with ids show "ch_id (chunks_of 1024 cs ! i ! 0) = ie_id (chunks_of 1024 es ! i ! 0)"
    by (cases "chunks_of 1024 es ! i"; cases "chunks_of 1024 cs ! i") simp_all
qed

lemma summary_bytes_eq:
  assumes ids: "map ie_id es = map ch_id cs"
  shows "summary_bytes C (concat (map index_entry_bytes es)) cs off
    = concat (map summary_entry_bytes (summaries C off (chunks_of 1024 es)))"
proof -
  let ?blocks = "chunks_of 1024 es"
  have pieces: "chunks_of 22528 (concat (map index_entry_bytes es)) = map (\<lambda>b. concat (map index_entry_bytes b)) ?blocks"
    using chunks_of_fields [of es index_entry_bytes 22 1024] by simp
  let ?f = "\<lambda>(i, bs, block). to_be_bytes 4 (series_id_get (ch_id (block ! 0)))
           @ to_be_bytes 8 (off + of_nat (i * 22528)) @ to_be_bytes 4 (crc32c C bs)"
  have "length (chunks_of 1024 cs) = length ?blocks"
    using arg_cong [OF ids, of "\<lambda>xs. length (chunks_of 1024 xs)"] by (simp add: chunks_of_map)
  then have "map ?f (List.enumerate 0 (zip (map (\<lambda>b. concat (map index_entry_bytes b)) ?blocks) (chunks_of 1024 cs)))
      = map summary_entry_bytes (summaries C off ?blocks)"
    using block_firsts(3) [OF ids]
    by (intro nth_equalityI) (simp_all add: nth_enumerate_eq nth_summaries summary_of_def summary_entry_bytes_def)
  then show ?thesis
    by (simp add: summary_bytes_def format_lens pieces)
qed

definition index_offset_of :: "chunk_ref list \<Rightarrow> nat" where
  "index_offset_of cs = 28 + length (block_data cs)"

definition block_index :: "crc32c_fns \<Rightarrow> tier \<Rightarrow> span_start \<Rightarrow> chunk_ref list \<Rightarrow> index_entry list list" where
  "block_index C t sp cs = chunks_of 1024 (index_entries C t sp 28 cs)"

definition block_summaries :: "crc32c_fns \<Rightarrow> tier \<Rightarrow> span_start \<Rightarrow> chunk_ref list \<Rightarrow> summary_entry list" where
  "block_summaries C t sp cs = summaries C (of_nat (index_offset_of cs)) (block_index C t sp cs)"

definition summary_part :: "crc32c_fns \<Rightarrow> tier \<Rightarrow> span_start \<Rightarrow> chunk_ref list \<Rightarrow> bytes" where
  "summary_part C t sp cs = concat (map summary_entry_bytes (block_summaries C t sp cs))"

definition header_part :: "tier \<Rightarrow> span_start \<Rightarrow> chunk_ref list \<Rightarrow> bytes" where
  "header_part t sp cs = header_bytes t sp (of_nat (length cs)) (of_nat (index_offset_of cs))"

definition trailer_part :: "crc32c_fns \<Rightarrow> tier \<Rightarrow> span_start \<Rightarrow> chunk_ref list \<Rightarrow> bytes" where
  "trailer_part C t sp cs = to_be_bytes 8 (of_nat (index_offset_of cs + length cs * 22) :: u64)
     @ to_be_bytes 4 (crc32c_append C (crc32c C (header_part t sp cs)) (summary_part C t sp cs)) @ MAGIC"

definition index_part :: "crc32c_fns \<Rightarrow> tier \<Rightarrow> span_start \<Rightarrow> chunk_ref list \<Rightarrow> bytes" where
  "index_part C t sp cs = concat (map index_entry_bytes (index_entries C t sp 28 cs))"

definition chunks_ordered :: "chunk_ref list \<Rightarrow> bool" where
  "chunks_ordered cs \<longleftrightarrow> successively (\<lambda>a b. (series_id_get (ch_id a), ch_seq a) < (series_id_get (ch_id b), ch_seq b)) cs"

lemma part_lengths [simp]:
  "length (header_part t sp cs) = 28"
  "length (index_part C t sp cs) = length cs * 22"
  "length (summary_part C t sp cs) = div_ceil (length cs) 1024 * 16"
  "length (trailer_part C t sp cs) = 18"
  using length_fields [of "index_entries C t sp 28 cs" index_entry_bytes 22]
    length_fields [of "block_summaries C t sp cs" summary_entry_bytes 16]
  by (simp_all add: header_part_def header_len index_part_def summary_part_def trailer_part_def MAGIC_def
      block_summaries_def block_index_def length_chunks_of)

lemma encode_block_Inr:
  assumes "encode_block C t sp cs = Inr img"
  shows "img = header_part t sp cs @ block_data cs @ index_part C t sp cs @ summary_part C t sp cs @ trailer_part C t sp cs"
    and "length cs < 2 ^ 32" and "chunks_ordered cs" and "\<forall>c\<in>set cs. length (ch_bytes c) < 2 ^ 32"
proof -
  show ok: "length cs < 2 ^ 32" "chunks_ordered cs" "\<forall>c\<in>set cs. length (ch_bytes c) < 2 ^ 32"
    using assms by (auto simp: encode_block_def chunks_ordered_def Let_def list_ex_iff split: if_splits)
  let ?off = "of_nat (HEADER_LEN + sum_list (map (\<lambda>c. length (ch_bytes c)) cs)) :: u64"
  have off: "?off = of_nat (index_offset_of cs)"
    by (simp add: index_offset_of_def block_data_def format_lens length_concat o_def)
  have written: "write_chunks C t sp (header_bytes t sp (of_nat (length cs)) ?off) [] cs
      = (header_part t sp cs @ block_data cs, index_part C t sp cs)"
    unfolding off by (simp add: write_chunks_eq header_part_def index_part_def header_len)
  have summary: "summary_bytes C (index_part C t sp cs) cs ?off = summary_part C t sp cs"
    unfolding off index_part_def summary_part_def block_summaries_def block_index_def
    by (rule summary_bytes_eq) (rule map_index_entries)
  have crc: "crc32c C (take HEADER_LEN (header_part t sp cs @ rest)) = crc32c C (header_part t sp cs)" for rest
    by (simp add: format_lens)
  have sum_off: "(of_nat (length (header_part t sp cs @ block_data cs @ index_part C t sp cs)) :: u64)
      = of_nat (index_offset_of cs + length cs * 22)"
    by (simp add: index_offset_of_def)
  have "encode_block C t sp cs = (let (out, index) = write_chunks C t sp (header_bytes t sp (of_nat (length cs)) ?off) [] cs;
                       summary = summary_bytes C index cs ?off;
                       out = out @ index;
                       summary_offset = of_nat (length out) :: u64;
                       out = out @ summary;
                       crc = crc32c_append C (crc32c C (take HEADER_LEN out)) summary
                   in Inr (out @ to_be_bytes 8 summary_offset @ to_be_bytes 4 crc @ MAGIC))"
    unfolding encode_block_def Let_def using ok by (simp add: chunks_ordered_def list_ex_iff)
  also have "\<dots> = Inr (header_part t sp cs @ block_data cs @ index_part C t sp cs @ summary_part C t sp cs @ trailer_part C t sp cs)"
    unfolding written Let_def prod.case summary using sum_off crc by (simp add: trailer_part_def HEADER_LEN_def del: of_nat_add)
  finally show "img = header_part t sp cs @ block_data cs @ index_part C t sp cs @ summary_part C t sp cs @ trailer_part C t sp cs"
    using assms by simp
qed


section \<open>The order of the index\<close>

definition entry_key :: "index_entry \<Rightarrow> u32 \<times> u16" where
  "entry_key e = (series_id_get (ie_id e), ie_seq e)"

definition chunk_key :: "chunk_ref \<Rightarrow> u32 \<times> u16" where
  "chunk_key c = (series_id_get (ch_id c), ch_seq c)"

lemma map_entry_key: "map entry_key (index_entries C t sp pos cs) = map chunk_key cs"
  by (induction cs arbitrary: pos) (simp_all add: index_entry_of_def entry_key_def chunk_key_def)

lemma successively_key: "successively (\<lambda>a b. f a < f b) xs \<longleftrightarrow> sorted_wrt (<) (map f xs)" for f :: "'a \<Rightarrow> 'b::linorder"
proof -
  have "transp (\<lambda>a b. f a < f b)" by (auto intro!: transpI)
  then show ?thesis by (simp add: successively_conv_sorted_wrt sorted_wrt_map)
qed

lemma index_entries_sorted: "chunks_ordered cs \<Longrightarrow> sorted_wrt (<) (map entry_key (index_entries C t sp pos cs))"
  unfolding map_entry_key chunks_ordered_def chunk_key_def [symmetric] successively_key .

lemma sorted_keys_ids:
  assumes "sorted_wrt (<) (map entry_key es)" "i \<le> j" "j < length es"
  shows "series_id_get (ie_id (es ! i)) \<le> series_id_get (ie_id (es ! j))"
proof (cases "i = j")
  case False
  then have "entry_key (es ! i) < entry_key (es ! j)"
    using assms by (simp add: sorted_wrt_iff_nth_less)
  then show ?thesis by (auto simp: entry_key_def less_prod_def)
qed simp

text \<open>The first entry of a block, and the entries between two blocks.\<close>

lemma block_nth:
  assumes "i < length (chunks_of 1024 es)" "j < length (chunks_of 1024 es ! i)"
  shows "chunks_of 1024 es ! i ! j = es ! (i * 1024 + j)" and "i * 1024 + j < length es" and "j < 1024"
proof -
  have j: "j < length es - i * 1024" "j < 1024" using assms by (simp_all add: nth_chunks_of)
  then show len: "i * 1024 + j < length es" and "j < 1024" by linarith+
  then have "drop (i * 1024) es ! j = es ! (i * 1024 + j)" by (intro nth_drop) linarith
  then show "chunks_of 1024 es ! i ! j = es ! (i * 1024 + j)" using assms j(2) by (simp add: nth_chunks_of)
qed

lemma block_first:
  assumes "i < length (chunks_of 1024 es)"
  shows "chunks_of 1024 es ! i ! 0 = es ! (i * 1024)" and "0 < length (chunks_of 1024 es ! i)" and "i * 1024 < length es"
proof -
  show "i * 1024 < length es" using assms by (intro chunks_of_index) simp_all
  then show "0 < length (chunks_of 1024 es ! i)" using assms by (simp add: nth_chunks_of)
  from block_nth(1) [OF assms this] show "chunks_of 1024 es ! i ! 0 = es ! (i * 1024)" by simp
qed

lemma block_ids_bounds:
  assumes sorted: "sorted_wrt (<) (map entry_key es)" and i: "i < length (chunks_of 1024 es)"
    and e: "e \<in> set (chunks_of 1024 es ! i)"
  shows "series_id_get (ie_id (chunks_of 1024 es ! i ! 0)) \<le> series_id_get (ie_id e)"
    and "i + 1 < length (chunks_of 1024 es)
      \<Longrightarrow> series_id_get (ie_id e) \<le> series_id_get (ie_id (chunks_of 1024 es ! (i + 1) ! 0))"
proof -
  obtain j where j: "j < length (chunks_of 1024 es ! i)" "e = chunks_of 1024 es ! i ! j"
    using e by (auto simp: in_set_conv_nth)
  note nth = block_nth [OF i j(1)]
  show "series_id_get (ie_id (chunks_of 1024 es ! i ! 0)) \<le> series_id_get (ie_id e)"
    unfolding block_first(1) [OF i] j(2) nth(1) using nth(2) by (intro sorted_keys_ids [OF sorted]) simp_all
  show "series_id_get (ie_id e) \<le> series_id_get (ie_id (chunks_of 1024 es ! (i + 1) ! 0))"
    if next_block: "i + 1 < length (chunks_of 1024 es)"
    unfolding block_first(1) [OF next_block] j(2) nth(1)
    using nth(3) block_first(3) [OF next_block] by (intro sorted_keys_ids [OF sorted]) simp_all
qed

lemma summaries_ordered:
  assumes "sorted_wrt (<) (map entry_key es)"
  shows "successively (\<lambda>a b. series_id_get (sm_first a) \<le> series_id_get (sm_first b)) (summaries C off (chunks_of 1024 es))"
proof (unfold successively_conv_nth, intro allI impI)
  fix i assume "Suc i < length (summaries C off (chunks_of 1024 es))"
  then have i: "i < length (chunks_of 1024 es)" "Suc i < length (chunks_of 1024 es)" by simp_all
  show "series_id_get (sm_first (summaries C off (chunks_of 1024 es) ! i))
      \<le> series_id_get (sm_first (summaries C off (chunks_of 1024 es) ! Suc i))"
    using block_ids_bounds(2) [OF assms i(1) nth_mem [OF block_first(2) [OF i(1)]]] i
    by (simp add: nth_summaries summary_of_def)
qed

text \<open>Where the entries point: inside the data, at their own chunk.\<close>

lemma index_entries_inside:
  assumes "e \<in> set (index_entries C t sp pos cs)" "pos + length (block_data cs) < 2 ^ 64" "\<forall>c\<in>set cs. length (ch_bytes c) < 2 ^ 32"
  shows "pos \<le> unat (ie_offset e) \<and> unat (ie_offset e) + unat (ie_length e) \<le> pos + length (block_data cs)"
  using assms
proof (induction cs arbitrary: pos)
  case (Cons c cs)
  have "pos < 2 ^ 64" using Cons.prems(2) by simp
  then have off: "unat (of_nat pos :: u64) = pos" by (intro unat_of_nat_small) simp
  have len: "unat (of_nat (length (ch_bytes c)) :: u32) = length (ch_bytes c)"
    using Cons.prems(3) by (intro unat_of_nat_small) simp
  show ?case
  proof (cases "e = index_entry_of C t sp pos c")
    case True
    then show ?thesis using off len by (simp add: index_entry_of_def block_data_def)
  next
    case False
    then have "e \<in> set (index_entries C t sp (pos + length (ch_bytes c)) cs)" using Cons.prems(1) by simp
    moreover have "pos + length (ch_bytes c) + length (block_data cs) = pos + length (block_data (c # cs))"
      by (simp add: block_data_def)
    ultimately show ?thesis
      using Cons.IH [of "pos + length (ch_bytes c)"] Cons.prems(2,3) by auto
  qed
qed simp


section \<open>Reading the summary\<close>

definition block_summary_of :: "crc32c_fns \<Rightarrow> tier \<Rightarrow> span_start \<Rightarrow> chunk_ref list \<Rightarrow> block_summary" where
  "block_summary_of C t sp cs = \<lparr>blk_tier = t, blk_span = sp, blk_chunk_count = of_nat (length cs),
     blk_index_offset = of_nat (index_offset_of cs), blk_summary_offset = of_nat (index_offset_of cs + length cs * 22),
     blk_entries = block_summaries C t sp cs\<rparr>"

definition file_len :: "chunk_ref list \<Rightarrow> nat" where
  "file_len cs = index_offset_of cs + length cs * 22 + div_ceil (length cs) 1024 * 16 + 18"

text \<open>A file the format can hold.\<close>

definition block_ok :: "chunk_ref list \<Rightarrow> bool" where
  "block_ok cs \<longleftrightarrow> length cs < 2 ^ 32 \<and> chunks_ordered cs \<and> (\<forall>c\<in>set cs. length (ch_bytes c) < 2 ^ 32) \<and> file_len cs < 2 ^ 64"

lemma unat_u64_of_nat: "n < 2 ^ 64 \<Longrightarrow> unat (of_nat n :: u64) = n"
  by (rule unat_of_nat_small) simp

lemma take_length_take: "take (length (take n xs)) xs = take n xs"
  by (simp add: min_def)

lemma block_ok_small:
  assumes "block_ok cs"
  shows "index_offset_of cs < 2 ^ 64" "index_offset_of cs + length cs * 22 < 2 ^ 64" "length cs * 22 < 2 ^ 64"
    "unat (of_nat (length cs) :: u32) = length cs"
  using assms by (auto simp: block_ok_def file_len_def intro!: unat_of_nat_small)

lemma block_place:
  assumes "i < length (block_index C t sp cs)"
  shows "i * 1024 < length cs" "i * 22528 < length cs * 22"
proof -
  show "i * 1024 < length cs"
    using assms chunks_of_index [of 1024 i "index_entries C t sp 28 cs"] by (simp add: block_index_def)
  then show "i * 22528 < length cs * 22" by linarith
qed

lemma laid_out_of:
  assumes ok: "block_ok cs"
  shows "laid_out (block_summary_of C t sp cs)"
proof -
  note small = block_ok_small [OF ok]
  let ?s = "block_summary_of C t sp cs" and ?off = "of_nat (index_offset_of cs) :: u64"
  have off: "unat ?off = index_offset_of cs" using small(1) by (rule unat_u64_of_nat)
  have n22: "checked_mul (of_nat (length cs) :: u64) (of_nat INDEX_ENTRY_LEN) = Some (of_nat (length cs * 22))"
    using small(3) by (simp add: checked_mul_eq_Some unat_u64_of_nat INDEX_ENTRY_LEN_def del: of_nat_mult)
  have index_end: "checked_add ?off (of_nat (length cs * 22)) = Some (of_nat (index_offset_of cs + length cs * 22))"
    using small by (simp add: checked_add_eq_Some unat_u64_of_nat del: of_nat_mult of_nat_add)
  have place: "Option.bind (checked_mul (of_nat i) (of_nat (INDEX_BLOCK_ENTRIES * INDEX_ENTRY_LEN))) (\<lambda>n. checked_add n ?off)
      = Some (sm_offset (block_summaries C t sp cs ! i))" if i: "i < length (block_index C t sp cs)" for i
  proof -
    have i22: "i * 22528 < length cs * 22" using i by (rule block_place(2))
    then have b: "i * 22528 < 2 ^ 64" "i < 2 ^ 64" "i * 22528 + index_offset_of cs < 2 ^ 64" using small(2) by linarith+
    have m: "checked_mul (of_nat i :: u64) 22528 = Some (of_nat (i * 22528))"
      using b(1,2) by (simp add: checked_mul_eq_Some unat_u64_of_nat del: of_nat_mult)
    have a: "checked_add (of_nat (i * 22528)) ?off = Some (of_nat (i * 22528 + index_offset_of cs))"
      using b(1,3) off by (simp add: checked_add_eq_Some unat_u64_of_nat del: of_nat_mult of_nat_add)
    show ?thesis
      using i m a by (simp add: block_summaries_def nth_summaries summary_of_def format_lens add.commute)
  qed
  have "list_all (\<lambda>(i, e). Option.bind (checked_mul (of_nat i) (of_nat (INDEX_BLOCK_ENTRIES * INDEX_ENTRY_LEN)))
      (\<lambda>n. checked_add n ?off) = Some (sm_offset e)) (List.enumerate 0 (block_summaries C t sp cs))"
    using place by (auto simp: list_all_length nth_enumerate_eq block_summaries_def)
  moreover have "of_nat HEADER_LEN \<le> ?off"
    using off by (simp add: word_le_nat_alt HEADER_LEN_def index_offset_of_def)
  moreover have "length (block_summaries C t sp cs) = div_ceil (length cs) INDEX_BLOCK_ENTRIES"
    by (simp add: block_summaries_def block_index_def length_chunks_of INDEX_BLOCK_ENTRIES_def)
  moreover have "successively (\<lambda>a b. series_id_get (sm_first a) \<le> series_id_get (sm_first b)) (block_summaries C t sp cs)"
    unfolding block_summaries_def block_index_def
    using ok by (intro summaries_ordered index_entries_sorted) (simp add: block_ok_def)
  ultimately show ?thesis
    using n22 index_end small(4) by (simp add: laid_out_def block_summary_of_def Let_def)
qed

lemma read_trailer_part: "read_trailer (trailer_part C t sp cs) = Inr (of_nat (index_offset_of cs + length cs * 22))"
proof -
  have "rd_array 6 MAGIC = Inr (MAGIC, [])" by (simp add: rd_array_def MAGIC_def)
  then show ?thesis
    by (simp add: read_trailer_def trailer_part_def field_simps rd_finish_def del: of_nat_add of_nat_mult)
qed

lemma trailer_crc_part:
  "trailer_crc (trailer_part C t sp cs) = Inr (crc32c_append C (crc32c C (header_part t sp cs)) (summary_part C t sp cs))"
  by (simp add: trailer_crc_def trailer_part_def MAGIC_def)

lemma parse_block_summary:
  assumes ok: "block_ok cs"
  shows "block_summary_parse C t sp (header_part t sp cs) (summary_part C t sp cs @ trailer_part C t sp cs) (of_nat (file_len cs))
    = Inr (block_summary_of C t sp cs)"
proof -
  let ?S = "summary_part C t sp cs" and ?T = "trailer_part C t sp cs"
  have header: "read_header t sp (header_part t sp cs) = Inr (of_nat (length cs), of_nat (index_offset_of cs))"
    unfolding header_part_def by (rule read_header_bytes)
  have len: "checked_add (of_nat (index_offset_of cs + length cs * 22)) (of_nat (length (?S @ ?T)))
      = Some (of_nat (file_len cs) :: u64)"
  proof -
    have l: "length (?S @ ?T) = div_ceil (length cs) 1024 * 16 + 18" by simp
    have "file_len cs < 2 ^ 64" using ok by (simp add: block_ok_def)
    then show ?thesis
      unfolding checked_add_eq_Some l using block_ok_small(2) [OF ok]
      by (simp add: unat_u64_of_nat file_len_def del: of_nat_add of_nat_mult)
  qed
  have entries: "map_result read_summary_entry (chunks_of SUMMARY_ENTRY_LEN ?S) = Inr (block_summaries C t sp cs)"
  proof -
    have "chunks_of SUMMARY_ENTRY_LEN ?S = map summary_entry_bytes (block_summaries C t sp cs)"
      unfolding summary_part_def SUMMARY_ENTRY_LEN_def by (rule chunks_of_single) simp_all
    then show ?thesis
      using map_result_Inr [of "block_summaries C t sp cs" read_summary_entry summary_entry_bytes "\<lambda>x. x"] by simp
  qed
  have split: "length (?S @ ?T) - TRAILER_LEN = length ?S" "\<not> length (?S @ ?T) < TRAILER_LEN" "length ?S mod SUMMARY_ENTRY_LEN = 0"
    by (simp_all add: TRAILER_LEN_def SUMMARY_ENTRY_LEN_def)
  have "laid_out (block_summary_of C t sp cs)" using ok by (rule laid_out_of)
  then show ?thesis
    unfolding block_summary_parse_def header using split len entries
    by (simp add: read_trailer_part trailer_crc_part Let_def block_summary_of_def del: of_nat_add of_nat_mult part_lengths)
qed


section \<open>Reading the index\<close>

lemma index_block_of:
  assumes ok: "block_ok cs" and i: "i < length (block_index C t sp cs)"
  shows "index_block (block_summary_of C t sp cs) i = Some \<lparr>ibr_offset = of_nat (index_offset_of cs + i * 22528),
    ibr_len = length (block_index C t sp cs ! i) * 22\<rparr>"
proof -
  note place = block_place [OF i] and n = block_ok_small(4) [OF ok]
  have "length cs < 2 ^ 32" using ok by (simp add: block_ok_def)
  then have fits: "i * 1024 < 2 ^ 64" using place(1) by simp
  have "length (block_index C t sp cs ! i) = min (length cs - i * 1024) 1024"
    using i by (simp add: block_index_def nth_chunks_of)
  then show ?thesis
    using i place(1) n fits
    by (simp add: index_block_def block_summary_of_def block_summaries_def nth_summaries summary_of_def format_lens)
qed

lemma index_block_bytes:
  assumes "i < length (block_index C t sp cs)"
  shows "take (length (block_index C t sp cs ! i) * 22) (drop (i * 22528) (index_part C t sp cs))
    = concat (map index_entry_bytes (block_index C t sp cs ! i))"
proof -
  let ?es = "index_entries C t sp 28 cs" and ?b = "block_index C t sp cs ! i"
  have b: "?b = take 1024 (drop (i * 1024) ?es)" using assms by (simp add: block_index_def nth_chunks_of)
  have "drop (i * 22528) (index_part C t sp cs) = concat (map index_entry_bytes (drop (i * 1024) ?es))"
    using take_drop_fields(2) [of ?es index_entry_bytes 22 "i * 1024"] by (simp add: index_part_def mult.commute)
  moreover have "take (length ?b * 22) (concat (map index_entry_bytes (drop (i * 1024) ?es)))
      = concat (map index_entry_bytes (take (length ?b) (drop (i * 1024) ?es)))"
    by (rule take_drop_fields(1)) simp
  moreover have "take (length ?b) (drop (i * 1024) ?es) = ?b" unfolding b by (rule take_length_take)
  ultimately show ?thesis by simp
qed

lemma decode_index_block_of:
  assumes ok: "block_ok cs" and i: "i < length (block_index C t sp cs)"
  shows "decode_index_block C (block_summary_of C t sp cs) i (concat (map index_entry_bytes (block_index C t sp cs ! i)))
    = Inr (block_index C t sp cs ! i)"
proof -
  let ?es = "index_entries C t sp 28 cs" and ?b = "block_index C t sp cs ! i" and ?s = "block_summary_of C t sp cs"
  have summary: "blk_entries ?s ! i = summary_of C (of_nat (index_offset_of cs)) i ?b"
    using i by (simp add: block_summary_of_def block_summaries_def nth_summaries)
  have len: "length (concat (map index_entry_bytes ?b)) = length ?b * 22"
    by (rule length_fields) simp
  have entries: "map_result read_index_entry (chunks_of INDEX_ENTRY_LEN (concat (map index_entry_bytes ?b))) = Inr ?b"
  proof -
    have "chunks_of INDEX_ENTRY_LEN (concat (map index_entry_bytes ?b)) = map index_entry_bytes ?b"
      unfolding INDEX_ENTRY_LEN_def by (rule chunks_of_single) simp_all
    then show ?thesis using map_result_Inr [of ?b read_index_entry index_entry_bytes "\<lambda>x. x"] by simp
  qed
  have b: "?b = take 1024 (drop (i * 1024) ?es)" using i by (simp add: block_index_def nth_chunks_of)
  have "sorted_wrt (<) (map entry_key ?es)" using ok by (intro index_entries_sorted) (simp add: block_ok_def)
  then have "sorted_wrt (<) (map entry_key ?b)"
    unfolding b take_map [symmetric] drop_map [symmetric] by (intro sorted_wrt_take sorted_wrt_drop)
  then have ordered: "successively (\<lambda>a b. (series_id_get (ie_id a), ie_seq a) < (series_id_get (ie_id b), ie_seq b)) ?b"
    unfolding entry_key_def [symmetric] successively_key .
  have ne: "?b \<noteq> []" using block_first(2) [of i ?es] i by (simp add: block_index_def)
  have off: "unat (of_nat (index_offset_of cs) :: u64) = index_offset_of cs"
    using block_ok_small(1) [OF ok] by (rule unat_u64_of_nat)
  have inside: "of_nat HEADER_LEN \<le> ie_offset e \<and> (case checked_add (ie_offset e) (ucast (ie_length e)) of
      None \<Rightarrow> False | Some en \<Rightarrow> en \<le> blk_index_offset ?s)" if e: "e \<in> set ?b" for e
  proof -
    have "e \<in> set ?es" using e unfolding b by (metis in_set_takeD in_set_dropD)
    then have bounds: "28 \<le> unat (ie_offset e)" "unat (ie_offset e) + unat (ie_length e) \<le> index_offset_of cs"
      using index_entries_inside [of e C t sp 28 cs] ok block_ok_small(1) [OF ok]
      by (simp_all add: block_ok_def index_offset_of_def)
    note ln = unat_ucast_u32 [of "ie_length e"]
    have "unat (of_nat (unat (ie_offset e) + unat (ie_length e)) :: u64) = unat (ie_offset e) + unat (ie_length e)"
      using bounds(2) block_ok_small(1) [OF ok] by (intro unat_u64_of_nat) linarith
    then have "checked_add (ie_offset e) (ucast (ie_length e)) = Some (of_nat (unat (ie_offset e) + unat (ie_length e)))"
      by (simp add: checked_add_eq_Some ln del: of_nat_add)
    then show ?thesis
      using bounds off \<open>unat (of_nat (unat (ie_offset e) + unat (ie_length e)) :: u64) = _\<close>
      by (simp add: word_le_nat_alt HEADER_LEN_def block_summary_of_def del: of_nat_add)
  qed
  show ?thesis
    unfolding decode_index_block_def index_block_of [OF ok i] option.case Let_def summary
    using entries ordered inside ne len
    by (cases ?b) (simp_all add: summary_of_def list_all_iff)
qed

section \<open>Reading the chunks\<close>

definition reads_always :: "io_env \<Rightarrow> bool" where
  "reads_always env \<longleftrightarrow> \<not> io_open_fails env \<and> \<not> io_stat_fails env \<and> (\<forall>offset len. \<not> io_read_fails env offset len)"

lemma read_at_of_nat:
  assumes "reads_always env" "a + n \<le> length img" "length img < 2 ^ 64"
  shows "read_at env img (of_nat a) (of_nat n) = Inr (take n (drop a img))"
proof -
  have "unat (of_nat a :: u64) = a" "unat (of_nat n :: u64) = n" using assms(2,3) by (simp_all add: unat_u64_of_nat)
  moreover from this(2) have "of_nat n = (0 :: u64) \<longleftrightarrow> n = 0" by (simp add: word_unat_eq_iff)
  ultimately show ?thesis using assms by (auto simp: read_at_def reads_always_def)
qed

definition entry_reads :: "crc32c_fns \<Rightarrow> io_env \<Rightarrow> bytes \<Rightarrow> block_summary \<Rightarrow> index_entry \<Rightarrow> chunk_ref \<Rightarrow> bool" where
  "entry_reads C env img s e c \<longleftrightarrow> ie_id e = ch_id c \<and> ie_seq e = ch_seq c
     \<and> read_at env img (ie_offset e) (ucast (ie_length e)) = Inr (ch_bytes c) \<and> check_chunk C s e (ch_bytes c) = Inr (ch_bytes c)"

lemma entries_read:
  assumes "img = pre @ block_data cs @ post" "length img < 2 ^ 64" "\<forall>c\<in>set cs. length (ch_bytes c) < 2 ^ 32"
    "reads_always env" "blk_tier s = t" "blk_span s = sp"
  shows "list_all2 (entry_reads C env img s) (index_entries C t sp (length pre) cs) cs"
  using assms(1,3)
proof (induction cs arbitrary: pre)
  case (Cons c cs)
  have len: "unat (of_nat (length (ch_bytes c)) :: u32) = length (ch_bytes c)"
    using Cons.prems(2) by (intro unat_of_nat_small) simp
  have "length (ch_bytes c) < 2 ^ 64" using Cons.prems(2) by simp
  then have ulen: "ucast (of_nat (length (ch_bytes c)) :: u32) = (of_nat (length (ch_bytes c)) :: u64)"
    unfolding word_unat_eq_iff unat_ucast_u32 len by (simp add: unat_u64_of_nat)
  have "read_at env img (of_nat (length pre)) (of_nat (length (ch_bytes c))) = Inr (ch_bytes c)"
    using read_at_of_nat [where a = "length pre" and n = "length (ch_bytes c)" and img = img, OF assms(4)] Cons.prems(1) assms(2)
    by (simp add: block_data_def)
  then have "entry_reads C env img s (index_entry_of C t sp (length pre) c) c"
    using len assms(5,6) by (simp add: entry_reads_def index_entry_of_def check_chunk_def ulen)
  moreover have "list_all2 (entry_reads C env img s) (index_entries C t sp (length (pre @ ch_bytes c)) cs) cs"
    using Cons.prems by (intro Cons.IH) (simp_all add: block_data_def)
  ultimately show ?case by simp
qed simp

definition chunks_for :: "series_id \<Rightarrow> chunk_ref list \<Rightarrow> (u16 \<times> bytes) list" where
  "chunks_for sid cs = map (\<lambda>c. (ch_seq c, ch_bytes c)) (filter (\<lambda>c. ch_id c = sid) cs)"

lemma read_entries_eq:
  "list_all2 (entry_reads C env img s) es cs \<Longrightarrow> read_entries C env img s sid acc es = Inr (acc @ chunks_for sid cs)"
  by (induction es cs arbitrary: acc rule: list_all2_induct) (auto simp: entry_reads_def chunks_for_def)


text \<open>One index block: its entries name the chunks of the same piece of the span.\<close>

lemma chunks_of_rel:
  assumes "list_all2 R xs ys" "i < length (chunks_of 1024 xs)"
  shows "list_all2 R (chunks_of 1024 xs ! i) (chunks_of 1024 ys ! i)" and "length (chunks_of 1024 ys) = length (chunks_of 1024 xs)"
proof -
  have len: "length ys = length xs" using assms(1) by (simp add: list_all2_lengthD)
  then show n: "length (chunks_of 1024 ys) = length (chunks_of 1024 xs)" by (simp add: length_chunks_of)
  show "list_all2 R (chunks_of 1024 xs ! i) (chunks_of 1024 ys ! i)"
    using assms n by (simp add: nth_chunks_of list_all2_takeI list_all2_dropI)
qed

lemma read_index_blocks_eq:
  assumes "list_all (\<lambda>i. \<exists>rng b. index_block s i = Some rng
      \<and> read_at env img (ibr_offset rng) (of_nat (ibr_len rng)) = Inr (concat (map index_entry_bytes b))
      \<and> decode_index_block C s i (concat (map index_entry_bytes b)) = Inr b
      \<and> list_all2 (entry_reads C env img s) b (pieces ! i)) is"
  shows "read_index_blocks C env img s sid acc is = Inr (acc @ concat (map (\<lambda>i. chunks_for sid (pieces ! i)) is))"
  using assms
proof (induction "is" arbitrary: acc)
  case (Cons i "is")
  then obtain rng b where "index_block s i = Some rng"
      "read_at env img (ibr_offset rng) (of_nat (ibr_len rng)) = Inr (concat (map index_entry_bytes b))"
      "decode_index_block C s i (concat (map index_entry_bytes b)) = Inr b"
      "list_all2 (entry_reads C env img s) b (pieces ! i)"
    by auto
  then show ?case using Cons by (simp add: read_entries_eq)
qed simp

text \<open>A block the sparse index leaves out holds no entry of the series.\<close>

lemma skipped_block_empty:
  assumes sorted: "sorted_wrt (<) (map entry_key es)" and ids: "map ie_id es = map ch_id cs"
    and i: "i < length (chunks_of 1024 es)"
    and skip: "\<not> (series_id_get (ie_id (chunks_of 1024 es ! i ! 0)) \<le> series_id_get sid
      \<and> (\<not> i + 1 < length (chunks_of 1024 es) \<or> series_id_get sid \<le> series_id_get (ie_id (chunks_of 1024 es ! (i + 1) ! 0))))"
  shows "chunks_for sid (chunks_of 1024 cs ! i) = []"
proof -
  have none: "sid \<notin> ie_id ` set (chunks_of 1024 es ! i)"
  proof
    assume "sid \<in> ie_id ` set (chunks_of 1024 es ! i)"
    then obtain e where e: "e \<in> set (chunks_of 1024 es ! i)" "ie_id e = sid" by blast
    show False using block_ids_bounds [OF sorted i e(1)] skip e(2) by auto
  qed
  have "set (map ie_id (chunks_of 1024 es ! i)) = set (map ch_id (chunks_of 1024 cs ! i))"
    using block_firsts(2) [OF ids i] by (rule arg_cong)
  with none show ?thesis by (auto simp: chunks_for_def filter_empty_conv)
qed

lemma concat_map_filter: "(\<And>i. i \<in> set is \<Longrightarrow> \<not> P i \<Longrightarrow> f i = []) \<Longrightarrow> concat (map f (filter P is)) = concat (map f is)"
  by (induction "is") auto

lemma chunks_for_concat: "concat (map (chunks_for sid) bs) = chunks_for sid (concat bs)"
  by (induction bs) (simp_all add: chunks_for_def)

section \<open>The whole file\<close>

lemma read_series_of:
  assumes ok: "block_ok cs" and env: "reads_always env"
    and img: "img = header_part t sp cs @ block_data cs @ index_part C t sp cs @ summary_part C t sp cs @ trailer_part C t sp cs"
  shows "read_index_blocks C env img (block_summary_of C t sp cs) sid [] (index_blocks_for (block_summary_of C t sp cs) sid)
    = Inr (chunks_for sid cs)"
proof -
  let ?s = "block_summary_of C t sp cs" and ?es = "index_entries C t sp 28 cs" and ?n = "length (block_index C t sp cs)"
  let ?pieces = "chunks_of 1024 cs"
  have len: "length img = file_len cs" by (simp add: img file_len_def index_offset_of_def)
  then have small: "length img < 2 ^ 64" using ok by (simp add: block_ok_def)
  have reads: "list_all2 (entry_reads C env img ?s) ?es cs"
    using entries_read [where pre = "header_part t sp cs" and img = img and s = ?s and cs = cs and env = env and t = t and sp = sp and C = C]
      img small ok env by (simp add: block_ok_def block_summary_of_def)
  have entries: "blk_entries ?s = block_summaries C t sp cs" by (simp add: block_summary_of_def)
  have block: "\<exists>rng b. index_block ?s i = Some rng
      \<and> read_at env img (ibr_offset rng) (of_nat (ibr_len rng)) = Inr (concat (map index_entry_bytes b))
      \<and> decode_index_block C ?s i (concat (map index_entry_bytes b)) = Inr b
      \<and> list_all2 (entry_reads C env img ?s) b (?pieces ! i)" if i: "i < ?n" for i
  proof -
    let ?b = "block_index C t sp cs ! i"
    have lenb: "length ?b * 22 \<le> length cs * 22 - i * 22528"
      using i by (simp add: block_index_def nth_chunks_of)
    have le: "index_offset_of cs + i * 22528 + length ?b * 22 \<le> length img"
      using lenb block_place(2) [OF i] by (simp add: len file_len_def)
    have "drop (index_offset_of cs + i * 22528) img
        = drop (i * 22528) (index_part C t sp cs) @ summary_part C t sp cs @ trailer_part C t sp cs"
      using block_place(2) [OF i] by (simp add: img index_offset_of_def)
    then have "take (length ?b * 22) (drop (index_offset_of cs + i * 22528) img) = concat (map index_entry_bytes ?b)"
      using lenb index_block_bytes [OF i] by simp
    then have "read_at env img (of_nat (index_offset_of cs + i * 22528)) (of_nat (length ?b * 22))
        = Inr (concat (map index_entry_bytes ?b))"
      using read_at_of_nat [OF env le small] by simp
    moreover have "list_all2 (entry_reads C env img ?s) ?b (?pieces ! i)"
      using chunks_of_rel(1) [OF reads] i by (simp add: block_index_def)
    ultimately show ?thesis
      using index_block_of [OF ok i] decode_index_block_of [OF ok i] by auto
  qed
  have "list_all (\<lambda>i. \<exists>rng b. index_block ?s i = Some rng
      \<and> read_at env img (ibr_offset rng) (of_nat (ibr_len rng)) = Inr (concat (map index_entry_bytes b))
      \<and> decode_index_block C ?s i (concat (map index_entry_bytes b)) = Inr b
      \<and> list_all2 (entry_reads C env img ?s) b (?pieces ! i)) (index_blocks_for ?s sid)"
    using block by (auto simp: list_all_iff index_blocks_for_def entries block_summaries_def)
  then have "read_index_blocks C env img ?s sid [] (index_blocks_for ?s sid)
      = Inr (concat (map (\<lambda>i. chunks_for sid (?pieces ! i)) (index_blocks_for ?s sid)))"
    by (simp add: read_index_blocks_eq)
  also have "concat (map (\<lambda>i. chunks_for sid (?pieces ! i)) (index_blocks_for ?s sid))
      = concat (map (\<lambda>i. chunks_for sid (?pieces ! i)) [0..<?n])"
    unfolding index_blocks_for_def entries block_summaries_def length_summaries
  proof (rule concat_map_filter)
    fix i assume "i \<in> set [0..<?n]"
    then have i: "i < length (chunks_of 1024 ?es)" by (simp add: block_index_def)
    assume "\<not> (series_id_get (sm_first (summaries C (of_nat (index_offset_of cs)) (block_index C t sp cs) ! i)) \<le> series_id_get sid
      \<and> (\<not> i + 1 < ?n \<or> series_id_get sid
          \<le> series_id_get (sm_first (summaries C (of_nat (index_offset_of cs)) (block_index C t sp cs) ! (i + 1)))))"
    then show "chunks_for sid (?pieces ! i) = []"
      using i ok by (intro skipped_block_empty [OF index_entries_sorted map_index_entries(1) i])
        (auto simp: block_ok_def block_index_def nth_summaries summary_of_def)
  qed
  also have "map (\<lambda>i. chunks_for sid (?pieces ! i)) [0..<?n] = map (chunks_for sid) ?pieces"
  proof -
    have "?n = length ?pieces" by (simp add: block_index_def length_chunks_of)
    moreover have "map (\<lambda>i. g (xs ! i)) [0..<length xs] = map g xs" for g :: "'a \<Rightarrow> 'b" and xs
      by (rule nth_equalityI) simp_all
    ultimately show ?thesis by simp
  qed
  finally show ?thesis by (simp add: chunks_for_concat concat_chunks_of)
qed


lemma read_summary_of:
  assumes ok: "block_ok cs" and env: "reads_always env" and few: "length cs \<le> 1000000000"
    and img: "img = header_part (bn_tier name) (bn_span name) cs @ block_data cs @ index_part C (bn_tier name) (bn_span name) cs
      @ summary_part C (bn_tier name) (bn_span name) cs @ trailer_part C (bn_tier name) (bn_span name) cs"
    and d: "map_of d (block_path name) = Some img"
  shows "dir_read_summary C env d name = Inr (block_summary_of C (bn_tier name) (bn_span name) cs)"
proof -
  let ?t = "bn_tier name" and ?sp = "bn_span name"
  let ?H = "header_part ?t ?sp cs" and ?S = "summary_part C ?t ?sp cs" and ?T = "trailer_part C ?t ?sp cs"
  let ?off = "index_offset_of cs + length cs * 22" and ?tail = "div_ceil (length cs) 1024 * 16 + 18"
  have len: "length img = file_len cs" by (simp add: img file_len_def index_offset_of_def)
  have small: "length img < 2 ^ 64" using ok by (simp add: len block_ok_def)
  have total: "length img = ?off + ?tail" by (simp add: len file_len_def)
  have ulen: "unat (of_nat (length img) :: u64) = length img" using small by (rule unat_u64_of_nat)
  have open_ok: "open_file env d (block_path name) = Inr img"
    using env d by (simp add: open_file_def reads_always_def)
  have long: "\<not> (of_nat (length img) :: u64) < of_nat (HEADER_LEN + TRAILER_LEN)"
    using ulen by (simp add: word_less_nat_alt format_lens total index_offset_of_def)
  have header: "read_at env img 0 (of_nat HEADER_LEN) = Inr ?H"
    using read_at_of_nat [where a = 0 and n = 28 and env = env, OF env _ small] by (simp add: img HEADER_LEN_def)
  have trailer: "read_at env img (of_nat (length img) - of_nat TRAILER_LEN) (of_nat TRAILER_LEN) = Inr ?T"
  proof -
    have "(of_nat (length img) - of_nat TRAILER_LEN :: u64) = of_nat (length img - 18)"
      by (simp add: TRAILER_LEN_def total)
    moreover have "take 18 (drop (length img - 18) img) = ?T" by (simp add: img)
    ultimately show ?thesis
      using read_at_of_nat [where a = "length img - 18" and n = 18 and env = env, OF env _ small]
      by (simp add: TRAILER_LEN_def total)
  qed
  have tail: "checked_sub (of_nat (length img) :: u64) (of_nat ?off) = Some (of_nat ?tail)"
    using ulen small unfolding checked_sub_eq_Some by (simp add: unat_u64_of_nat total del: of_nat_add of_nat_mult)
  have fits: "\<not> SUMMARY_MAX < of_nat ?tail"
  proof -
    have "div_ceil (length cs) 1024 \<le> 976563" using few by (simp add: div_ceil_def)
    then have "?tail \<le> 16777216" by simp
    moreover from this have "unat (of_nat ?tail :: u64) = ?tail" by (intro unat_u64_of_nat) simp
    ultimately show ?thesis
      by (simp add: SUMMARY_MAX_def word_less_nat_alt push_bit_eq_mult del: of_nat_add of_nat_mult)
  qed
  have summary: "read_at env img (of_nat ?off) (of_nat ?tail) = Inr (?S @ ?T)"
  proof -
    have "take ?tail (drop ?off img) = ?S @ ?T" by (simp add: img index_offset_of_def)
    then show ?thesis using read_at_of_nat [where a = ?off and n = ?tail and env = env, OF env _ small] total by simp
  qed
  have "block_summary_parse C ?t ?sp ?H (?S @ ?T) (of_nat (length img)) = Inr (block_summary_of C ?t ?sp cs)"
    unfolding len using ok by (rule parse_block_summary)
  then show ?thesis
    using env long header trailer tail fits summary
    by (simp add: dir_read_summary_def open_ok reads_always_def read_trailer_part del: of_nat_add of_nat_mult)
qed

section \<open>Properties\<close>

text \<open>C12. A block file reads back whole: a file written from ordered chunks (fewer than a billion of them,
  which is where the reader's bound on the summary lies) and stored under its name is opened with a
  summary from which every series' chunks are read exactly as they were given, in order, and none for
  a series without chunks, whatever the checksum functions compute.\<close>

theorem block_file_roundtrip:
  assumes "encode_block C (bn_tier name) (bn_span name) cs = Inr img" and "length img < 2 ^ 64" and "length cs \<le> 1000000000"
    and "map_of d (block_path name) = Some img"
    and "\<not> io_open_fails env" and "\<not> io_stat_fails env" and "\<forall>offset len. \<not> io_read_fails env offset len"
  shows "\<exists>s. dir_read_summary C env d name = Inr s \<and> unat (blk_chunk_count s) = length cs
    \<and> (\<forall>sid. dir_read_series C env d name s sid
        = Inr (map (\<lambda>c. (ch_seq c, ch_bytes c)) (filter (\<lambda>c. ch_id c = sid) cs)))"
proof -
  let ?t = "bn_tier name" and ?sp = "bn_span name"
  note enc = encode_block_Inr [OF assms(1)]
  have "length img = file_len cs" unfolding enc(1) by (simp add: file_len_def index_offset_of_def)
  then have ok: "block_ok cs" using enc(2-4) assms(2) by (simp add: block_ok_def)
  have env: "reads_always env" using assms(5-7) by (simp add: reads_always_def)
  have "dir_read_series C env d name (block_summary_of C ?t ?sp cs) sid = Inr (chunks_for sid cs)" for sid
    using read_series_of [OF ok env enc(1)] env assms(4) by (simp add: dir_read_series_def open_file_def reads_always_def)
  moreover have "unat (blk_chunk_count (block_summary_of C ?t ?sp cs)) = length cs"
    using block_ok_small(4) [OF ok] by (simp add: block_summary_of_def)
  ultimately show ?thesis
    using read_summary_of [OF ok env assms(3) enc(1) assms(4)] by (intro exI [of _ "block_summary_of C ?t ?sp cs"]) (simp add: chunks_for_def)
qed

theorem block_file_roundtrip_witness:
  "let C = \<lparr>crc32c = (\<lambda>bs. of_nat (length bs)), crc32c_append = (\<lambda>c bs. c + of_nat (length bs))\<rparr>;
       name = BlockName Raw (SpanStart 0) (RewriteNo 0); c = \<lparr>ch_id = SeriesId 5, ch_seq = 0, ch_bytes = [1, 2]\<rparr>;
       env = \<lparr>io_open_fails = False, io_stat_fails = False, io_read_fails = (\<lambda>_ _. False)\<rparr>
   in \<exists>img s. encode_block C Raw (SpanStart 0) [c] = Inr img
    \<and> dir_read_summary C env [(block_path name, img)] name = Inr s
    \<and> dir_read_series C env [(block_path name, img)] name s (SeriesId 5) = Inr [(0, [1, 2])]
    \<and> dir_read_series C env [(block_path name, img)] name s (SeriesId 6) = Inr []"
proof -
  let ?C = "\<lparr>crc32c = (\<lambda>bs. of_nat (length bs)), crc32c_append = (\<lambda>c bs. c + of_nat (length bs))\<rparr>"
  let ?name = "BlockName Raw (SpanStart 0) (RewriteNo 0)" and ?c = "\<lparr>ch_id = SeriesId 5, ch_seq = 0, ch_bytes = [1, 2]\<rparr>"
  let ?env = "\<lparr>io_open_fails = False, io_stat_fails = False, io_read_fails = (\<lambda>_ _. False)\<rparr>"
  obtain img where img: "encode_block ?C Raw (SpanStart 0) [?c] = Inr img"
    by (auto simp: encode_block_def Let_def split: prod.splits)
  have "length img < 2 ^ 64"
    using encode_block_Inr(1) [OF img] by (simp add: block_data_def div_ceil_def)
  then show ?thesis
    using block_file_roundtrip [where C = ?C and name = ?name and cs = "[?c]" and img = img
        and d = "[(block_path ?name, img)]" and env = ?env] img by (auto simp: Let_def)
qed

end
