(* ===== verification/Float32.thy ===== *)
theory Float32
  imports Float64 Text_Fields
begin

text \<open>
  The part of IEEE 754 binary32 (Rust's \<open>f32\<close>) the agent's rules use: comparisons, \<open>f32::max\<close>,
  \<open>clamp\<close>, the casts from an unsigned integer and from \<open>f64\<close>, and printing with one decimal.  A finite
  value is its sign and its magnitude, so the two zeros are told apart where printing does.
\<close>

datatype f32 = NaN32 | Inf32 bool | Fin32 bool rat

fun f32_is_nan :: "f32 \<Rightarrow> bool" where
  "f32_is_nan NaN32 = True"
| "f32_is_nan _ = False"

definition signed :: "bool \<Rightarrow> rat \<Rightarrow> rat" where
  "signed s q = (if s then - q else q)"

text \<open>\<open>a < b\<close> and \<open>a <= b\<close>: false when either is NaN.\<close>

fun f32_lt :: "f32 \<Rightarrow> f32 \<Rightarrow> bool" where
  "f32_lt NaN32 b = False"
| "f32_lt a NaN32 = False"
| "f32_lt (Inf32 s) (Inf32 t) = (s \<and> \<not> t)"
| "f32_lt (Inf32 s) (Fin32 _ _) = s"
| "f32_lt (Fin32 _ _) (Inf32 t) = (\<not> t)"
| "f32_lt (Fin32 s a) (Fin32 t b) = (signed s a < signed t b)"

fun f32_eq :: "f32 \<Rightarrow> f32 \<Rightarrow> bool" where
  "f32_eq (Inf32 s) (Inf32 t) = (s = t)"
| "f32_eq (Fin32 s a) (Fin32 t b) = (signed s a = signed t b)"
| "f32_eq _ _ = False"

definition f32_le :: "f32 \<Rightarrow> f32 \<Rightarrow> bool" where
  "f32_le a b \<longleftrightarrow> f32_lt a b \<or> f32_eq a b"

text \<open>\<open>f32::max\<close>: the other operand when one is NaN (of two zeros it may return either; here the first).\<close>

definition f32_max :: "f32 \<Rightarrow> f32 \<Rightarrow> f32" where
  "f32_max a b = (if f32_is_nan a then b else if f32_lt a b then b else a)"

text \<open>Rounding to 24 bits of precision, to the nearest, ties to even.\<close>

definition ulp_exponent32 :: "rat \<Rightarrow> int" where
  "ulp_exponent32 q = max (log2_floor q - 23) (- 149)"

definition fl32 :: "bool \<Rightarrow> rat \<Rightarrow> f32" where
  "fl32 s q = (if q = 0 then Fin32 s 0
     else let v = of_int (round_half_even (q / 2 powi ulp_exponent32 q)) * 2 powi ulp_exponent32 q
          in if 2 powi 128 \<le> v then Inf32 s else Fin32 s v)"

text \<open>\<open>n as f32\<close> of an unsigned integer, and \<open>x as f32\<close> of an \<open>f64\<close> (whose zero is read as \<open>0.0\<close>).\<close>

definition u64_as_f32 :: "u64 \<Rightarrow> f32" where
  "u64_as_f32 n = fl32 False (of_nat (unat n))"

fun f64_as_f32 :: "f64 \<Rightarrow> f32" where
  "f64_as_f32 NaN = NaN32"
| "f64_as_f32 (Inf s) = Inf32 s"
| "f64_as_f32 (Fin q) = fl32 (q < 0) \<bar>q\<bar>"

text \<open>\<open>x.clamp(lo, hi)\<close> for ordered bounds, and \<open>x + 0.0\<close>.\<close>

definition f32_clamp :: "f32 \<Rightarrow> f32 \<Rightarrow> f32 \<Rightarrow> f32" where
  "f32_clamp x lo hi = (let x = (if f32_lt x lo then lo else x) in if f32_lt hi x then hi else x)"

fun f32_plus_zero :: "f32 \<Rightarrow> f32" where
  "f32_plus_zero (Fin32 s q) = Fin32 (s \<and> q \<noteq> 0) q"
| "f32_plus_zero x = x"

text \<open>\<open>{:.1}\<close>: the sign, then the magnitude rounded to one decimal, ties to even.\<close>

fun show_fixed1 :: "f32 \<Rightarrow> string" where
  "show_fixed1 NaN32 = ''NaN''"
| "show_fixed1 (Inf32 s) = (if s then ''-inf'' else ''inf'')"
| "show_fixed1 (Fin32 s q) = (let n = nat (round_half_even (10 * q))
     in (if s then ''-'' else []) @ show_nat (n div 10) @ ''.'' @ show_nat (n mod 10))"

end
