(* ===== verification/Token_Bucket.thy ===== *)
theory Token_Bucket
  imports Prelude
begin

text \<open>
  Token buckets (\<open>system-hub/src/token_bucket.rs\<close>) and the hourly warning
  (\<open>system-hub/src/hourly_warning.rs\<close>), on the monotonic clock.  An \<open>Instant\<close> and a \<open>Duration\<close> are
  counts of nanoseconds; the arithmetic on them that could overflow stays below \<open>now\<close>
  (\<open>refill_keeps\<close>).  The bucket refines a continuous one that gains a nanosecond of credit per
  nanosecond up to its capacity, and the interface \<open>rate_limiter\<close> carries the bound on how much a
  source can pass.
\<close>

type_synonym instant = nat
type_synonym nanos = nat

section \<open>The bucket\<close>

text \<open>The capacity is a \<open>NonZeroU8\<close>: see \<open>refill_ok\<close>.\<close>

record refill =
  rf_capacity :: u8
  rf_period :: nanos

record token_bucket =
  tb_refill :: refill
  tb_tokens :: u8
  tb_last_refill :: instant

datatype bucket_empty = BucketEmpty

definition refill_new :: "u8 \<Rightarrow> nanos \<Rightarrow> refill" where
  "refill_new capacity period = \<lparr>rf_capacity = capacity, rf_period = period\<rparr>"

definition bucket_full :: "refill \<Rightarrow> instant \<Rightarrow> token_bucket" where
  "bucket_full refill now = \<lparr>tb_refill = refill, tb_tokens = rf_capacity refill, tb_last_refill = now\<rparr>"

definition bucket_refill :: "token_bucket \<Rightarrow> instant \<Rightarrow> token_bucket" where
  "bucket_refill b now =
     (let capacity = rf_capacity (tb_refill b);
          missing = sat_sub capacity (tb_tokens b);
          elapsed = now - tb_last_refill b;
          period = rf_period (tb_refill b);
          periods = (if period = 0 then None else Some (elapsed div period));
          full = b\<lparr>tb_tokens := capacity, tb_last_refill := max now (tb_last_refill b)\<rparr>
      in case periods of
           None \<Rightarrow> full
         | Some n \<Rightarrow> if n < 2 ^ 8 \<and> of_nat n < missing
             then b\<lparr>tb_tokens := tb_tokens b + of_nat n, tb_last_refill := tb_last_refill b + period * n\<rparr>
             else full)"

definition bucket_take :: "token_bucket \<Rightarrow> instant \<Rightarrow> bucket_empty + token_bucket" where
  "bucket_take b now =
     (let refilled = bucket_refill b now
      in rbind (ok_or BucketEmpty (checked_sub (tb_tokens refilled) 1)) (\<lambda>tokens. Inr (refilled\<lparr>tb_tokens := tokens\<rparr>)))"

section \<open>The hourly warning\<close>

datatype hourly_warning = Warn | QuietWarning

definition WARNING_EVERY :: nanos where
  "WARNING_EVERY = 3600 * 10 ^ 9"

definition hourly_warning_at :: "instant option \<Rightarrow> instant \<Rightarrow> hourly_warning" where
  "hourly_warning_at last_warned now = (case last_warned of
      Some t \<Rightarrow> if now - t < WARNING_EVERY then QuietWarning else Warn
    | None \<Rightarrow> Warn)"

section \<open>The continuous bucket\<close>

text \<open>The specification: credit in nanoseconds, gained with time up to the capacity, a period spent by
  each take.\<close>

record credit_bucket =
  cb_level :: nat
  cb_at :: instant

definition credit_at :: "nat \<Rightarrow> credit_bucket \<Rightarrow> instant \<Rightarrow> nat" where
  "credit_at limit c now = min limit (cb_level c + (now - cb_at c))"

definition credit_take :: "nat \<Rightarrow> nat \<Rightarrow> credit_bucket \<Rightarrow> instant \<Rightarrow> credit_bucket option" where
  "credit_take limit cost c now =
     (if cost \<le> credit_at limit c now then Some \<lparr>cb_level = credit_at limit c now - cost, cb_at = now\<rparr> else None)"

definition refill_ok :: "refill \<Rightarrow> bool" where
  "refill_ok r \<longleftrightarrow> rf_capacity r \<noteq> 0"

definition credit_limit :: "refill \<Rightarrow> nat" where
  "credit_limit r = unat (rf_capacity r) * rf_period r"

definition bucket_ok :: "token_bucket \<Rightarrow> bool" where
  "bucket_ok b \<longleftrightarrow> refill_ok (tb_refill b) \<and> tb_tokens b \<le> rf_capacity (tb_refill b)"

text \<open>What a bucket is worth at a time.\<close>

definition bucket_credit :: "token_bucket \<Rightarrow> instant \<Rightarrow> nat" where
  "bucket_credit b now = min (credit_limit (tb_refill b)) (unat (tb_tokens b) * rf_period (tb_refill b) + (now - tb_last_refill b))"

lemma u8_bound: "unat (w :: u8) < 256"
proof -
  have "unat w < 2 ^ LENGTH(8)" by (rule unsigned_less)
  then show ?thesis by simp
qed

lemma refill_partial:
  assumes "bucket_ok b" and "0 < rf_period (tb_refill b)"
    and "unat (tb_tokens b) + (now - tb_last_refill b) div rf_period (tb_refill b) < unat (rf_capacity (tb_refill b))"
  shows "bucket_refill b now = b\<lparr>tb_tokens := tb_tokens b + of_nat ((now - tb_last_refill b) div rf_period (tb_refill b)),
      tb_last_refill := tb_last_refill b + rf_period (tb_refill b) * ((now - tb_last_refill b) div rf_period (tb_refill b))\<rparr>"
    and "unat (tb_tokens (bucket_refill b now)) = unat (tb_tokens b) + (now - tb_last_refill b) div rf_period (tb_refill b)"
proof -
  let ?n = "(now - tb_last_refill b) div rf_period (tb_refill b)"
  have n: "?n < 256" using assms(3) u8_bound [of "rf_capacity (tb_refill b)"] by linarith
  then have small: "unat (of_nat ?n :: u8) = ?n" by (simp add: unat_of_nat_small)
  have "of_nat ?n < sat_sub (rf_capacity (tb_refill b)) (tb_tokens b)"
    using assms(3) small by (simp add: word_less_nat_alt unat_sat_sub)
  then show eq: "bucket_refill b now = b\<lparr>tb_tokens := tb_tokens b + of_nat ?n, tb_last_refill := tb_last_refill b + rf_period (tb_refill b) * ?n\<rparr>"
    using n assms(2) by (simp add: bucket_refill_def Let_def)
  show "unat (tb_tokens (bucket_refill b now)) = unat (tb_tokens b) + ?n"
    unfolding eq using assms(3) small u8_bound [of "rf_capacity (tb_refill b)"] by (simp add: unat_word_ariths)
qed

lemma refill_full:
  assumes "bucket_ok b"
    and "rf_period (tb_refill b) = 0 \<or> unat (rf_capacity (tb_refill b)) \<le> unat (tb_tokens b) + (now - tb_last_refill b) div rf_period (tb_refill b)"
  shows "bucket_refill b now = b\<lparr>tb_tokens := rf_capacity (tb_refill b), tb_last_refill := max now (tb_last_refill b)\<rparr>"
proof (cases "rf_period (tb_refill b) = 0")
  case False
  let ?n = "(now - tb_last_refill b) div rf_period (tb_refill b)"
  have "\<not> (of_nat ?n < sat_sub (rf_capacity (tb_refill b)) (tb_tokens b))" if "?n < 2 ^ 8"
    using that assms False by (simp add: word_less_nat_alt unat_sat_sub unat_of_nat_small)
  with False show ?thesis by (auto simp: bucket_refill_def Let_def)
qed (simp add: bucket_refill_def Let_def)

text \<open>A refill keeps the worth, and turns it into tokens: the remainder is less than a period.\<close>

lemma refill_keeps:
  assumes ok: "bucket_ok b" and "tb_last_refill b \<le> now"
  shows "bucket_ok (bucket_refill b now)" and "tb_refill (bucket_refill b now) = tb_refill b"
    and "tb_last_refill (bucket_refill b now) \<le> now"
    and "unat (tb_tokens (bucket_refill b now)) * rf_period (tb_refill b) + (now - tb_last_refill (bucket_refill b now)) = bucket_credit b now"
    and "0 < rf_period (tb_refill b) \<Longrightarrow> now - tb_last_refill (bucket_refill b now) < rf_period (tb_refill b)"
proof -
  let ?p = "rf_period (tb_refill b)" and ?e = "now - tb_last_refill b" and ?t = "unat (tb_tokens b)" and ?c = "unat (rf_capacity (tb_refill b))"
  have tc: "?t \<le> ?c" using ok by (simp add: bucket_ok_def word_le_nat_alt)
  have "bucket_ok (bucket_refill b now) \<and> tb_refill (bucket_refill b now) = tb_refill b \<and> tb_last_refill (bucket_refill b now) \<le> now
    \<and> unat (tb_tokens (bucket_refill b now)) * ?p + (now - tb_last_refill (bucket_refill b now)) = bucket_credit b now
    \<and> (0 < ?p \<longrightarrow> now - tb_last_refill (bucket_refill b now) < ?p)"
  proof (cases "?p = 0 \<or> ?c \<le> ?t + ?e div ?p")
    case True
    have "?c * ?p \<le> ?t * ?p + ?e"
    proof -
      have "?c * ?p \<le> ?t * ?p + ?e div ?p * ?p"
        using True mult_le_mono1 [of ?c "?t + ?e div ?p" ?p] by (auto simp: add_mult_distrib)
      then show ?thesis using div_times_less_eq_dividend [of ?e ?p] by linarith
    qed
    then show ?thesis
      using refill_full [OF ok True] ok assms(2) by (auto simp: bucket_ok_def bucket_credit_def credit_limit_def)
  next
    case False
    then have p: "0 < ?p" and less: "?t + ?e div ?p < ?c" by auto
    note part = refill_partial [OF ok p less]
    have e: "?p * (?e div ?p) + ?e mod ?p = ?e" by simp
    have rem: "now - tb_last_refill (bucket_refill b now) = ?e mod ?p"
      unfolding part(1) by (simp add: diff_diff_left [symmetric] minus_mult_div_eq_mod)
    have "?t * ?p + ?e < ?c * ?p"
    proof -
      have "?t * ?p + ?e < (?t + ?e div ?p + 1) * ?p" using dividend_less_times_div [OF p, of ?e] by (simp add: algebra_simps)
      also have "\<dots> \<le> ?c * ?p" using less by (intro mult_le_mono1) simp
      finally show ?thesis .
    qed
    then have credit: "bucket_credit b now = ?t * ?p + ?e" by (simp add: bucket_credit_def credit_limit_def)
    have "unat (tb_tokens (bucket_refill b now)) * ?p + ?e mod ?p = ?t * ?p + ?e"
      unfolding part(2) add_mult_distrib using e by (simp only: mult.commute [of "?e div ?p"] add.assoc)
    moreover have "bucket_ok (bucket_refill b now)"
      using ok less part(2) part(1) by (simp add: bucket_ok_def word_le_nat_alt)
    moreover have "tb_last_refill (bucket_refill b now) \<le> now"
    proof -
      have "?p * (?e div ?p) \<le> ?e" by (rule times_div_less_eq_dividend)
      then have "tb_last_refill b + ?p * (?e div ?p) \<le> now" using assms(2) by linarith
      then show ?thesis by (simp add: part(1))
    qed
    ultimately show ?thesis using part(1) rem credit p by simp
  qed
  then show "bucket_ok (bucket_refill b now)" "tb_refill (bucket_refill b now) = tb_refill b" "tb_last_refill (bucket_refill b now) \<le> now"
    "unat (tb_tokens (bucket_refill b now)) * ?p + (now - tb_last_refill (bucket_refill b now)) = bucket_credit b now"
    "0 < ?p \<Longrightarrow> now - tb_last_refill (bucket_refill b now) < ?p" by blast+
qed

section \<open>Refinement\<close>

lemma bucket_take_credit:
  assumes "bucket_ok b" and "tb_last_refill b \<le> now"
  shows "case bucket_take b now of
      Inl _ \<Rightarrow> bucket_credit b now < rf_period (tb_refill b)
    | Inr b' \<Rightarrow> bucket_ok b' \<and> tb_refill b' = tb_refill b \<and> tb_last_refill b' \<le> now \<and> rf_period (tb_refill b) \<le> bucket_credit b now
        \<and> unat (tb_tokens b') * rf_period (tb_refill b) + (now - tb_last_refill b') = bucket_credit b now - rf_period (tb_refill b)"
proof -
  note keep = refill_keeps [OF assms]
  let ?r = "bucket_refill b now" and ?p = "rf_period (tb_refill b)"
  show ?thesis
  proof (cases "tb_tokens ?r = 0")
    case True
    have "0 < ?p"
    proof (rule ccontr)
      assume "\<not> 0 < ?p"
      then have "bucket_refill b now = b\<lparr>tb_tokens := rf_capacity (tb_refill b), tb_last_refill := max now (tb_last_refill b)\<rparr>"
        using refill_full [OF assms(1)] by simp
      with True assms(1) show False by (simp add: bucket_ok_def refill_ok_def)
    qed
    then have "bucket_credit b now < ?p" using keep(4,5) True by simp
    with True show ?thesis by (simp add: bucket_take_def Let_def checked_sub_def)
  next
    case False
    then have one: "(1 :: u8) \<le> tb_tokens ?r" by (simp add: word_le_nat_alt unat_gt_0 Suc_le_eq)
    then have tokens: "unat (tb_tokens ?r - 1) = unat (tb_tokens ?r) - 1" "1 \<le> unat (tb_tokens ?r)" by (simp_all add: unat_sub word_le_nat_alt)
    have run: "bucket_take b now = Inr (?r\<lparr>tb_tokens := tb_tokens ?r - 1\<rparr>)"
      using one by (simp add: bucket_take_def Let_def checked_sub_def)
    have "?p \<le> unat (tb_tokens ?r) * ?p" using tokens(2) by simp
    then have "?p \<le> bucket_credit b now" using keep(4) by linarith
    moreover have "unat (tb_tokens ?r - 1) * ?p + (now - tb_last_refill ?r) = bucket_credit b now - ?p"
      using keep(4) \<open>?p \<le> unat (tb_tokens ?r) * ?p\<close> unfolding tokens(1) diff_mult_distrib by linarith
    moreover have "tb_tokens ?r - 1 \<le> rf_capacity (tb_refill b)"
      using keep(1,2) tokens by (auto simp: bucket_ok_def word_le_nat_alt)
    ultimately show ?thesis using run keep by (simp add: bucket_ok_def)
  qed
qed

text \<open>Takes at the given times, each admitted or refused; a refused take leaves the bucket as it was.\<close>

primrec bucket_run :: "token_bucket \<Rightarrow> instant list \<Rightarrow> bool list" where
  "bucket_run b [] = []"
| "bucket_run b (t # ts) = (case bucket_take b t of Inl _ \<Rightarrow> False # bucket_run b ts | Inr b' \<Rightarrow> True # bucket_run b' ts)"

primrec credit_run :: "nat \<Rightarrow> nat \<Rightarrow> credit_bucket \<Rightarrow> instant list \<Rightarrow> bool list" where
  "credit_run limit cost c [] = []"
| "credit_run limit cost c (t # ts) =
     (case credit_take limit cost c t of None \<Rightarrow> False # credit_run limit cost c ts | Some c' \<Rightarrow> True # credit_run limit cost c' ts)"

text \<open>The simulation relation: the same worth at every time from the last one on.\<close>

definition simulates :: "token_bucket \<Rightarrow> credit_bucket \<Rightarrow> bool" where
  "simulates b c \<longleftrightarrow> bucket_ok b \<and> tb_last_refill b \<le> cb_at c
     \<and> (\<forall>now\<ge>cb_at c. credit_at (credit_limit (tb_refill b)) c now = bucket_credit b now)"

lemma simulates_take:
  assumes sim: "simulates b c" and later: "cb_at c \<le> now"
  shows "case bucket_take b now of
      Inl _ \<Rightarrow> credit_take (credit_limit (tb_refill b)) (rf_period (tb_refill b)) c now = None
    | Inr b' \<Rightarrow> \<exists>c'. credit_take (credit_limit (tb_refill b)) (rf_period (tb_refill b)) c now = Some c' \<and> simulates b' c'
        \<and> tb_refill b' = tb_refill b \<and> cb_at c' = now"
proof -
  have ok: "bucket_ok b" "tb_last_refill b \<le> now" and cr: "credit_at (credit_limit (tb_refill b)) c now = bucket_credit b now"
    using sim later by (auto simp: simulates_def)
  note step = bucket_take_credit [OF ok]
  show ?thesis
  proof (cases "bucket_take b now")
    case (Inl e)
    with step show ?thesis by (simp add: credit_take_def cr)
  next
    case (Inr b')
    let ?lim = "credit_limit (tb_refill b)" and ?p = "rf_period (tb_refill b)"
    let ?c = "\<lparr>cb_level = bucket_credit b now - ?p, cb_at = now\<rparr>"
    have b': "bucket_ok b'" "tb_refill b' = tb_refill b" "tb_last_refill b' \<le> now" "?p \<le> bucket_credit b now"
      "unat (tb_tokens b') * ?p + (now - tb_last_refill b') = bucket_credit b now - ?p" using step Inr by simp_all
    have "credit_at ?lim ?c later = bucket_credit b' later" if "now \<le> later" for later
    proof -
      have "bucket_credit b now - ?p + (later - now) = unat (tb_tokens b') * ?p + (later - tb_last_refill b')"
        using b'(3,5) that by linarith
      then show ?thesis unfolding credit_at_def bucket_credit_def [of b'] b'(2) by simp
    qed
    then have "simulates b' ?c" using b' by (simp add: simulates_def)
    moreover have "credit_take ?lim ?p c now = Some ?c" using b'(4) by (simp add: credit_take_def cr)
    ultimately show ?thesis using Inr b' by simp
  qed
qed

lemma simulates_full: "refill_ok r \<Longrightarrow> simulates (bucket_full r now) \<lparr>cb_level = credit_limit r, cb_at = now\<rparr>"
  by (auto simp: simulates_def bucket_ok_def bucket_full_def credit_at_def bucket_credit_def credit_limit_def)

lemma simulates_run:
  "simulates b c \<Longrightarrow> sorted (cb_at c # ts)
     \<Longrightarrow> bucket_run b ts = credit_run (credit_limit (tb_refill b)) (rf_period (tb_refill b)) c ts"
proof (induction ts arbitrary: b c)
  case (Cons t ts)
  note step = simulates_take [OF Cons.prems(1), of t]
  show ?case
  proof (cases "bucket_take b t")
    case (Inl e)
    then show ?thesis using step Cons by simp
  next
    case (Inr b')
    then obtain c' where "credit_take (credit_limit (tb_refill b)) (rf_period (tb_refill b)) c t = Some c'" "simulates b' c'"
      "tb_refill b' = tb_refill b" "cb_at c' = t" using step Cons.prems(2) by auto
    then show ?thesis using Inr Cons.IH [of b' c'] Cons.prems(2) by simp
  qed
qed simp

section \<open>The bound on what passes\<close>

text \<open>A rate limiter is worth a credit at every time, gains it no faster than time passes, never holds
  more than its limit, and spends its cost on each admission.\<close>

locale rate_limiter =
  fixes valid :: "'b \<Rightarrow> instant \<Rightarrow> bool"
    and admit :: "'b \<Rightarrow> instant \<Rightarrow> 'b option"
    and credit :: "'b \<Rightarrow> instant \<Rightarrow> nat"
    and limit :: "'b \<Rightarrow> nat" and cost :: "'b \<Rightarrow> nat"
  assumes valid_later: "valid b now \<Longrightarrow> now \<le> later \<Longrightarrow> valid b later"
    and credit_limited: "credit b now \<le> limit b"
    and credit_gain: "now \<le> later \<Longrightarrow> credit b later \<le> credit b now + (later - now)"
    and admit_spends: "valid b now \<Longrightarrow> admit b now = Some b'
      \<Longrightarrow> valid b' now \<and> cost b' = cost b \<and> limit b' = limit b \<and> credit b' now + cost b \<le> credit b now"
begin

primrec admitted :: "'b \<Rightarrow> instant list \<Rightarrow> nat" where
  "admitted b [] = 0"
| "admitted b (t # ts) = (case admit b t of None \<Rightarrow> admitted b ts | Some b' \<Rightarrow> Suc (admitted b' ts))"

lemma admitted_credit:
  "valid b now \<Longrightarrow> sorted (now # ts) \<Longrightarrow> admitted b ts * cost b \<le> credit b now + (last (now # ts) - now)"
proof (induction ts arbitrary: b now)
  case (Cons t ts)
  have later: "now \<le> t" "t \<le> last (t # ts)" using Cons.prems(2) by (auto simp: sorted_wrt.simps(2) last_in_set)
  have valid: "valid b t" using Cons.prems(1) later(1) by (rule valid_later)
  have gain: "credit b t \<le> credit b now + (t - now)" using later(1) by (rule credit_gain)
  show ?case
  proof (cases "admit b t")
    case None
    have "admitted b ts * cost b \<le> credit b t + (last (t # ts) - t)" using Cons.IH [OF valid] Cons.prems(2) by simp
    with None gain later show ?thesis by simp
  next
    case (Some b')
    have spent: "valid b' t" "cost b' = cost b" "credit b' t + cost b \<le> credit b t" using admit_spends [OF valid Some] by blast+
    have "admitted b' ts * cost b' \<le> credit b' t + (last (t # ts) - t)" using Cons.IH [OF spent(1)] Cons.prems(2) by simp
    then have "Suc (admitted b' ts) * cost b \<le> credit b now + (last (t # ts) - now)"
      using spent(3) gain later unfolding mult_Suc spent(2) by linarith
    with Some show ?thesis by simp
  qed
qed simp

lemma admitted_bound:
  "valid b now \<Longrightarrow> sorted (now # ts) \<Longrightarrow> admitted b ts * cost b \<le> limit b + (last (now # ts) - now)"
  using admitted_credit [of b now ts] credit_limited [of b now] by linarith

end

definition bucket_admit :: "token_bucket \<Rightarrow> instant \<Rightarrow> token_bucket option" where
  "bucket_admit b now = ok (bucket_take b now)"

interpretation bucket: rate_limiter "\<lambda>b now. bucket_ok b \<and> tb_last_refill b \<le> now" bucket_admit bucket_credit
  "\<lambda>b. credit_limit (tb_refill b)" "\<lambda>b. rf_period (tb_refill b)"
proof unfold_locales
  fix b b' now
  assume b: "bucket_ok b \<and> tb_last_refill b \<le> now" and "bucket_admit b now = Some b'"
  then have run: "bucket_take b now = Inr b'" by (simp add: bucket_admit_def ok_eq_Some)
  note step = bucket_take_credit [of b now, unfolded run sum.case]
  have "bucket_credit b' now \<le> bucket_credit b now - rf_period (tb_refill b)"
    using step b by (simp add: bucket_credit_def [of b'])
  then show "(bucket_ok b' \<and> tb_last_refill b' \<le> now) \<and> rf_period (tb_refill b') = rf_period (tb_refill b)
      \<and> credit_limit (tb_refill b') = credit_limit (tb_refill b) \<and> bucket_credit b' now + rf_period (tb_refill b) \<le> bucket_credit b now"
    using step b by auto
qed (auto simp: bucket_credit_def)

lemma admitted_run: "bucket.admitted b ts = length (filter id (bucket_run b ts))"
  by (induction ts arbitrary: b) (simp_all add: bucket_admit_def split: sum.splits)

text \<open>No source passes more than its bucket allows: of the takes made between two times, a bucket of
  positive period admits at most its capacity and one more per whole period in between.\<close>

lemma token_bucket_rate:
  assumes "refill_ok r" and "0 < rf_period r" and "sorted (start # ts)"
  shows "length (filter id (bucket_run (bucket_full r start) ts)) \<le> unat (rf_capacity r) + (last (start # ts) - start) div rf_period r"
proof -
  have ok: "bucket_ok (bucket_full r start) \<and> tb_last_refill (bucket_full r start) \<le> start"
    using assms(1) by (simp add: bucket_ok_def bucket_full_def)
  have "bucket.admitted (bucket_full r start) ts * rf_period r \<le> unat (rf_capacity r) * rf_period r + (last (start # ts) - start)"
    using bucket.admitted_bound [OF ok assms(3)] by (simp add: bucket_full_def credit_limit_def)
  then have "bucket.admitted (bucket_full r start) ts \<le> (unat (rf_capacity r) * rf_period r + (last (start # ts) - start)) div rf_period r"
    using assms(2) by (simp only: less_eq_div_iff_mult_less_eq)
  then show ?thesis using assms(2) by (simp add: admitted_run)
qed

section \<open>Refinement of the continuous bucket\<close>

text \<open>C36. A token bucket is a continuous one: on a clock that does not run backwards, it admits exactly the
  takes that a bucket gaining a nanosecond of credit per nanosecond, up to its capacity, and
  spending a refill period per take would admit, a zero period included.\<close>

theorem token_bucket_refines:
  assumes "refill_ok r" and "sorted (start # ts)"
  shows "bucket_run (bucket_full r start) ts
    = credit_run (unat (rf_capacity r) * rf_period r) (rf_period r) \<lparr>cb_level = unat (rf_capacity r) * rf_period r, cb_at = start\<rparr> ts"
  using simulates_run [OF simulates_full [OF assms(1), of start], of ts] assms(2)
  by (simp add: bucket_full_def credit_limit_def)

theorem token_bucket_refines_witness:
  "bucket_run (bucket_full (refill_new 3 1000) 0) [0, 0, 0, 999, 1000]
    = credit_run 3000 1000 \<lparr>cb_level = 3000, cb_at = 0\<rparr> [0, 0, 0, 999, 1000]"
  using token_bucket_refines [of "refill_new 3 1000" 0 "[0, 0, 0, 999, 1000]"] by (simp add: refill_ok_def refill_new_def)

end
