(* ===== verification/Usage.thy ===== *)
theory Usage
  imports Float32 Token_Bucket
begin

text \<open>
  The agent's usage values (\<open>src/environment/usage.rs\<close>, with \<open>CpuCount\<close> of \<open>environment/cgroup.rs\<close>):
  percents held to the scale, load averages, CPU usage between two readings of a cgroup's counter,
  and the hypervisor's steal from \<open>/proc/stat\<close>.  A \<open>Duration\<close> and an \<open>Instant\<close> are nanoseconds; text is
  the list of its code points.
\<close>

section \<open>Values\<close>

datatype percent = Percent (percent_get: f32)

definition percent_saturating :: "f32 \<Rightarrow> percent option" where
  "percent_saturating v = (if \<not> f32_is_nan v
     then Some (Percent (f32_plus_zero (f32_clamp v (Fin32 False 0) (Fin32 False 100)))) else None)"

datatype load_average = LoadAverage (load_get: f32)

datatype cpu_count = CpuCount (cpus: f64)

definition cpu_count_new :: "f64 \<Rightarrow> cpu_count option" where
  "cpu_count_new n = (case n of Fin q \<Rightarrow> if 0 < q then Some (CpuCount n) else None | _ \<Rightarrow> None)"

definition cpu_count_cores :: "u64 \<Rightarrow> cpu_count" where
  "cpu_count_cores cores = CpuCount (fl (of_nat (max (unat cores) 1)))"

section \<open>CPU usage\<close>

definition MIN_USAGE_INTERVAL :: nanos where
  "MIN_USAGE_INTERVAL = 500 * 10 ^ 6"

record cpu_counters =
  cc_usage :: nanos
  cc_read_at :: instant

text \<open>Addition of finite values, and \<open>Duration::as_secs_f64\<close>.\<close>

fun f64_add_fin :: "f64 \<Rightarrow> f64 \<Rightarrow> f64" where
  "f64_add_fin (Fin a) (Fin b) = fl (a + b)"
| "f64_add_fin _ _ = NaN"

definition as_secs_f64 :: "nanos \<Rightarrow> f64" where
  "as_secs_f64 d = f64_add_fin (fl (of_nat (d div 10 ^ 9))) (f64_div (fl (of_nat (d mod 10 ^ 9))) (Fin (10 ^ 9)))"

definition nanos_checked_sub :: "nat \<Rightarrow> nat \<Rightarrow> nat option" where
  "nanos_checked_sub a b = (if b \<le> a then Some (a - b) else None)"

definition cpu_usage :: "cpu_counters \<Rightarrow> cpu_counters \<Rightarrow> cpu_count \<Rightarrow> percent option" where
  "cpu_usage prev cur capacity =
     Option.bind (nanos_checked_sub (cc_read_at cur) (cc_read_at prev)) (\<lambda>wall.
     Option.bind (nanos_checked_sub (cc_usage cur) (cc_usage prev)) (\<lambda>used.
       if wall < MIN_USAGE_INTERVAL then None
       else let share = f64_div (as_secs_f64 used) (f64_mul (as_secs_f64 wall) (cpus capacity))
            in percent_saturating (f64_as_f32 (f64_mul share (Fin 100)))))"

section \<open>Steal\<close>

definition STEAL_COLUMN :: nat where
  "STEAL_COLUMN = 7"

datatype steal_counters = StealCounters (steal_of: u64) (total_of: u64)

type_synonym codepoints = "nat list"

definition cp :: "string \<Rightarrow> codepoints" where
  "cp s = map of_char s"

text \<open>\<open>str::lines\<close>: cut at each line feed, a carriage return before it dropped, no last empty line.\<close>

function lines_of :: "codepoints \<Rightarrow> codepoints list" where
  "lines_of s = (if s = [] then []
     else let line = takeWhile (\<lambda>c. c \<noteq> 10) s; rest = dropWhile (\<lambda>c. c \<noteq> 10) s;
              line = (if rest \<noteq> [] \<and> line \<noteq> [] \<and> last line = 13 then butlast line else line)
          in line # lines_of (tl rest))"
  by auto

termination
proof (relation "measure length")
  fix s :: codepoints and line rest
  assume "s \<noteq> []" and "rest = dropWhile (\<lambda>c. c \<noteq> 10) s"
  then show "(tl rest, s) \<in> measure length"
    using length_dropWhile_le [of "\<lambda>c. c \<noteq> 10" s] by (cases s) auto
qed simp

declare lines_of.simps [simp del]

text \<open>\<open>str::split_whitespace\<close>: the maximal runs without whitespace.\<close>

function words_of :: "codepoints \<Rightarrow> codepoints list" where
  "words_of s = (let s = dropWhile is_whitespace s
     in if s = [] then [] else takeWhile (\<lambda>c. \<not> is_whitespace c) s # words_of (dropWhile (\<lambda>c. \<not> is_whitespace c) s))"
  by auto

termination
proof (relation "measure length")
  fix s x :: codepoints
  assume x: "x = dropWhile is_whitespace s" and "x \<noteq> []"
  then have "\<not> is_whitespace (hd x)" by (simp add: hd_dropWhile)
  then have "length (dropWhile (\<lambda>c. \<not> is_whitespace c) x) < length x"
    using \<open>x \<noteq> []\<close> length_dropWhile_le [of "\<lambda>c. \<not> is_whitespace c" "tl x"] by (cases x) auto
  then show "(dropWhile (\<lambda>c. \<not> is_whitespace c) x, s) \<in> measure length"
    using x length_dropWhile_le [of is_whitespace s] by simp
qed simp

declare words_of.simps [simp del]

text \<open>\<open>str::parse::<u64>\<close>: an optional plus, then at least one digit, below \<open>2 ^ 64\<close>.\<close>

definition parse_u64 :: "codepoints \<Rightarrow> u64 option" where
  "parse_u64 s =
     (let digits = (case s of c # (d # ds) \<Rightarrow> if c = 43 then d # ds else s | _ \<Rightarrow> s);
          n = foldl (\<lambda>n c. 10 * n + (c - 48)) 0 digits
      in if digits \<noteq> [] \<and> list_all (\<lambda>c. 48 \<le> c \<and> c \<le> 57) digits \<and> n < 2 ^ 64 then Some (of_nat n) else None)"

definition strip_prefix :: "codepoints \<Rightarrow> codepoints \<Rightarrow> codepoints option" where
  "strip_prefix p s = (if take (length p) s = p then Some (drop (length p) s) else None)"

primrec find_map :: "('a \<Rightarrow> 'b option) \<Rightarrow> 'a list \<Rightarrow> 'b option" where
  "find_map f [] = None"
| "find_map f (x # xs) = (case f x of Some y \<Rightarrow> Some y | None \<Rightarrow> find_map f xs)"

primrec collect_options :: "'a option list \<Rightarrow> 'a list option" where
  "collect_options [] = Some []"
| "collect_options (x # xs) = Option.bind x (\<lambda>x. map_option (Cons x) (collect_options xs))"

primrec checked_sum :: "u64 \<Rightarrow> u64 list \<Rightarrow> u64 option" where
  "checked_sum s [] = Some s"
| "checked_sum s (x # xs) = Option.bind (checked_add s x) (\<lambda>s. checked_sum s xs)"

definition from_proc_stat :: "codepoints \<Rightarrow> steal_counters option" where
  "from_proc_stat content =
     Option.bind (find_map (strip_prefix (cp ''cpu '')) (lines_of content)) (\<lambda>columns.
     Option.bind (collect_options (map parse_u64 (take (STEAL_COLUMN + 1) (words_of columns)))) (\<lambda>user_to_steal.
     Option.bind (if STEAL_COLUMN < length user_to_steal then Some (user_to_steal ! STEAL_COLUMN) else None) (\<lambda>steal.
     Option.bind (checked_sum 0 user_to_steal) (\<lambda>tot.
       Some (StealCounters steal tot)))))"

definition steal_share :: "steal_counters \<Rightarrow> steal_counters \<Rightarrow> percent option" where
  "steal_share prev cur =
     Option.bind (checked_sub (steal_of cur) (steal_of prev)) (\<lambda>stolen.
     Option.bind (Option.bind (checked_sub (total_of cur) (total_of prev)) (\<lambda>t. if 0 < t then Some t else None)) (\<lambda>elapsed.
       percent_saturating (f64_as_f32 (f64_div (f64_mul (fl (of_nat (unat stolen))) (Fin 100)) (fl (of_nat (unat elapsed)))))))"

section \<open>Properties\<close>

definition on_scale :: "percent \<Rightarrow> bool" where
  "on_scale p \<longleftrightarrow> (\<exists>q. percent_get p = Fin32 False q \<and> 0 \<le> q \<and> q \<le> 100)"

text \<open>A binary32 value is a sign and a magnitude.\<close>

definition f32_ok :: "f32 \<Rightarrow> bool" where
  "f32_ok v = (case v of Fin32 _ q \<Rightarrow> 0 \<le> q | _ \<Rightarrow> True)"

lemma f64_as_f32_ok: "f32_ok (f64_as_f32 x)"
proof (cases x)
  case (Fin q)
  have "0 \<le> round_half_even (\<bar>q\<bar> / 2 powi ulp_exponent32 \<bar>q\<bar>)" by (intro round_half_even_nonneg) simp
  then show ?thesis using Fin by (simp add: f32_ok_def fl32_def Let_def)
qed (simp_all add: f32_ok_def)

lemma percent_saturating_on_scale:
  assumes "percent_saturating v = Some p" and "f32_ok v"
  shows "on_scale p"
  using assms
  by (cases v) (auto simp: percent_saturating_def on_scale_def f32_clamp_def f32_ok_def signed_def Let_def split: if_splits)

lemma checked_sum_Some: "checked_sum s xs = Some t \<Longrightarrow> unat t = unat s + sum_list (map unat xs)"
  by (induction xs arbitrary: s) (auto simp: bind_eq_Some_conv checked_add_eq_Some)

lemma from_proc_stat_part: "from_proc_stat content = Some k \<Longrightarrow> steal_of k \<le> total_of k"
proof -
  assume "from_proc_stat content = Some k"
  then obtain xs where "STEAL_COLUMN < length xs" "steal_of k = xs ! STEAL_COLUMN" "checked_sum 0 xs = Some (total_of k)"
    by (auto simp: from_proc_stat_def bind_eq_Some_conv split: if_splits)
  then show ?thesis
    using checked_sum_Some [of 0 xs "total_of k"] member_le_sum_list [of "unat (xs ! STEAL_COLUMN)" "map unat xs"]
    by (simp add: word_le_nat_alt)
qed

text \<open>C40. Usage values keep to their types: every percent the agent derives (from any measured value, from
  two readings of a cgroup's CPU time, from two readings of the steal counters) is a number from 0 to
  100, never NaN, an infinity or a negative zero; and the steal read from \<open>/proc/stat\<close> is part of its
  total.\<close>

theorem usage_on_scale:
  "(percent_saturating v = Some p \<and> f32_ok v \<or> cpu_usage a b capacity = Some p \<or> steal_share c d = Some p \<longrightarrow> on_scale p)
   \<and> (from_proc_stat content = Some k \<longrightarrow> steal_of k \<le> total_of k)"
  using percent_saturating_on_scale f64_as_f32_ok from_proc_stat_part
  by (auto simp: cpu_usage_def steal_share_def bind_eq_Some_conv Let_def split: if_splits)

theorem usage_on_scale_witness:
  "\<exists>p. percent_saturating (Fin32 False 150) = Some p \<and> on_scale p"
  using usage_on_scale [of "Fin32 False 150" "Percent (Fin32 False 100)"]
  by (simp add: percent_saturating_def f32_clamp_def f32_ok_def signed_def)

end
