(* ===== verification/Iso_Time.thy ===== *)
theory Iso_Time
  imports Text_Fields "HOL-Library.List_Lexorder" "HOL-Library.Char_ord"
begin

text \<open>
  Calendar times (\<open>src/alerts.rs\<close> and \<open>system-hub/src/clock.rs\<close>, the same \<open>unix_to_iso8601\<close> in the agent
  and in the hub): seconds since the epoch printed as an ISO 8601 UTC time.  The code's \<open>i64\<close> year and
  day are integers here: \<open>civil_year_bounds\<close> shows they stay far inside 64 bits.  The reference is the
  Gregorian day count in closed form; the text order of the times is the order the hub's database
  sorts its alert records by.
\<close>

section \<open>Printing a time\<close>

definition is_leap :: "int \<Rightarrow> bool" where
  "is_leap y \<longleftrightarrow> y mod 4 = 0 \<and> y mod 100 \<noteq> 0 \<or> y mod 400 = 0"

definition days_in_year :: "int \<Rightarrow> int" where
  "days_in_year y = (if is_leap y then 366 else 365)"

function civil_year :: "int \<Rightarrow> int \<Rightarrow> int \<times> int" where
  "civil_year y d = (if d < days_in_year y then (y, d) else civil_year (y + 1) (d - days_in_year y))"
  by auto

termination
  by (relation "measure (\<lambda>(y, d). nat d)") (auto simp: days_in_year_def split: if_splits)

declare civil_year.simps [simp del]

definition month_days :: "int \<Rightarrow> int list" where
  "month_days y = (if is_leap y then [31, 29, 31, 30, 31, 30, 31, 31, 30, 31, 30, 31]
     else [31, 28, 31, 30, 31, 30, 31, 31, 30, 31, 30, 31])"

fun civil_month :: "int list \<Rightarrow> int \<Rightarrow> int \<Rightarrow> int \<times> int" where
  "civil_month [] m d = (m, d)"
| "civil_month (md # mds) m d = (if d < md then (m, d) else civil_month mds (m + 1) (d - md))"

text \<open>\<open>{:0w}\<close> of a non-negative number.\<close>

definition pad_nat :: "nat \<Rightarrow> nat \<Rightarrow> string" where
  "pad_nat w n = replicate (w - length (show_nat n)) (CHR ''0'') @ show_nat n"

definition unix_to_iso8601 :: "u64 \<Rightarrow> string" where
  "unix_to_iso8601 secs =
     (let days_since_epoch = secs div 86400;
          time_of_day = secs mod 86400;
          hours = time_of_day div 3600;
          mins = (time_of_day mod 3600) div 60;
          s = time_of_day mod 60;
          (y, d) = civil_year 1970 (int (unat days_since_epoch));
          (m, d) = civil_month (month_days y) 1 d;
          day = d + 1
      in pad_nat 4 (nat y) @ ''-'' @ pad_nat 2 (nat m) @ ''-'' @ pad_nat 2 (nat day) @ ''T''
         @ pad_nat 2 (unat hours) @ '':'' @ pad_nat 2 (unat mins) @ '':'' @ pad_nat 2 (unat s) @ ''Z'')"

section \<open>The Gregorian calendar\<close>

text \<open>A UTC time by its fields, the days before a year counted in closed form.\<close>

record datetime =
  dt_year :: int
  dt_month :: nat
  dt_day :: nat
  dt_hour :: nat
  dt_minute :: nat
  dt_second :: nat

definition leap_years_to :: "int \<Rightarrow> int" where
  "leap_years_to y = y div 4 - y div 100 + y div 400"

definition year_start :: "int \<Rightarrow> int" where
  "year_start y = 365 * (y - 1970) + leap_years_to (y - 1) - leap_years_to 1969"

definition month_start :: "int \<Rightarrow> nat \<Rightarrow> int" where
  "month_start y m = sum_list (take (m - 1) (month_days y))"

definition dt_valid :: "datetime \<Rightarrow> bool" where
  "dt_valid t \<longleftrightarrow> 1970 \<le> dt_year t \<and> 1 \<le> dt_month t \<and> dt_month t \<le> 12
     \<and> 1 \<le> dt_day t \<and> int (dt_day t) \<le> month_days (dt_year t) ! (dt_month t - 1)
     \<and> dt_hour t < 24 \<and> dt_minute t < 60 \<and> dt_second t < 60"

definition dt_days :: "datetime \<Rightarrow> int" where
  "dt_days t = year_start (dt_year t) + month_start (dt_year t) (dt_month t) + int (dt_day t) - 1"

definition dt_seconds :: "datetime \<Rightarrow> int" where
  "dt_seconds t = ((dt_days t * 24 + int (dt_hour t)) * 60 + int (dt_minute t)) * 60 + int (dt_second t)"

definition dt_show :: "datetime \<Rightarrow> string" where
  "dt_show t = pad_nat 4 (nat (dt_year t)) @ ''-'' @ pad_nat 2 (dt_month t) @ ''-'' @ pad_nat 2 (dt_day t) @ ''T''
     @ pad_nat 2 (dt_hour t) @ '':'' @ pad_nat 2 (dt_minute t) @ '':'' @ pad_nat 2 (dt_second t) @ ''Z''"

lemma div_step:
  assumes "0 < (k :: int)"
  shows "y div k = (y - 1) div k + (if y mod k = 0 then 1 else 0)"
proof (cases "y mod k = 0")
  case True
  have "(y - 1) div k = y div k - 1"
    by (rule int_div_pos_eq [of _ _ _ "k - 1"]) (use assms True mult_div_mod_eq [of k y] in \<open>simp_all add: algebra_simps\<close>)
  with True show ?thesis by simp
next
  case False
  have "1 \<le> y mod k" "y mod k < k" using assms False pos_mod_sign [of k y] pos_mod_bound [of k y] by linarith+
  then have "(y - 1) div k = y div k"
    by (intro int_div_pos_eq [of _ _ _ "y mod k - 1"]) (use mult_div_mod_eq [of k y] in \<open>simp_all add: algebra_simps\<close>)
  with False show ?thesis by simp
qed

lemma mod_mult_zero: "(y :: int) mod (a * b) = 0 \<Longrightarrow> y mod a = 0"
  by (metis dvd_mult_left mod_0_imp_dvd dvd_imp_mod_0)

lemma leap_count:
  fixes a b c :: int
  assumes "a = a' + (if A then 1 else 0)" and "b = b' + (if B then 1 else 0)" and "c = c' + (if C then 1 else 0)"
    and "C \<Longrightarrow> B" and "B \<Longrightarrow> A"
  shows "a - b + c = a' - b' + c' + (if A \<and> \<not> B \<or> C then 1 else 0)"
  using assms by auto

lemma leap_years_step: "leap_years_to y = leap_years_to (y - 1) + (if is_leap y then 1 else 0)"
  unfolding leap_years_to_def is_leap_def
  by (rule leap_count; (rule div_step, simp)?) (use mod_mult_zero [of y 100 4] mod_mult_zero [of y 4 25] in simp_all)

lemma year_start_step: "year_start (y + 1) = year_start y + days_in_year y"
  using leap_years_step [of y] by (simp add: year_start_def days_in_year_def)

lemma year_start_epoch [simp]: "year_start 1970 = 0"
  by (simp add: year_start_def)

lemma month_days_length [simp]: "length (month_days y) = 12"
  by (simp add: month_days_def)

lemma month_days_pos: "md \<in> set (month_days y) \<Longrightarrow> 28 \<le> md \<and> md \<le> 31"
  by (auto simp: month_days_def split: if_splits)

lemma month_days_sum: "sum_list (month_days y) = days_in_year y"
  by (simp add: month_days_def days_in_year_def)

lemma civil_year_exact:
  assumes "civil_year y d = (y', d')" and "0 \<le> d"
  shows "y \<le> y' \<and> 0 \<le> d' \<and> d' < days_in_year y' \<and> year_start y + d = year_start y' + d'"
  using assms
proof (induction y d rule: civil_year.induct)
  case (1 y d)
  show ?case
  proof (cases "d < days_in_year y")
    case True
    with 1(2,3) show ?thesis by (simp add: civil_year.simps [of y])
  next
    case False
    with 1 show ?thesis by (simp add: civil_year.simps [of y] year_start_step)
  qed
qed

lemma civil_month_exact:
  assumes "civil_month mds m d = (m', d')" and "0 \<le> d" and "d < sum_list mds"
  shows "\<exists>k<length mds. m' = m + int k \<and> 0 \<le> d' \<and> d' < mds ! k \<and> d = sum_list (take k mds) + d'"
  using assms
proof (induction mds m d rule: civil_month.induct)
  case (2 md mds m d)
  show ?case
  proof (cases "d < md")
    case True
    with 2(2,3) show ?thesis by (intro exI [of _ 0]) simp
  next
    case False
    with 2 obtain k where "k < length mds" "m' = m + 1 + int k" "0 \<le> d'" "d' < mds ! k" "d - md = sum_list (take k mds) + d'"
      by auto
    then show ?thesis by (intro exI [of _ "Suc k"]) simp
  qed
qed simp

text \<open>No intermediate of the year loop leaves 64 bits: the year is at most 1970 plus the days, of which
  there are fewer than \<open>2 ^ 48\<close>.\<close>

lemma year_start_ge: "1970 \<le> y \<Longrightarrow> 365 * (y - 1970) \<le> year_start y"
proof -
  assume y: "1970 \<le> y"
  have "leap_years_to 1969 \<le> leap_years_to (1969 + int n)" for n
  proof (induction n)
    case (Suc n)
    then show ?case using leap_years_step [of "1969 + int (Suc n)"] by (simp split: if_splits)
  qed simp
  from this [of "nat (y - 1970)"] y show ?thesis by (simp add: year_start_def)
qed

lemma civil_year_bounds:
  assumes "civil_year 1970 (int (unat (secs div 86400 :: u64))) = (y, d)"
  shows "1970 \<le> y" and "365 * (y - 1970) \<le> int (unat (secs div 86400))" and "y < 2 ^ 49" and "0 \<le> d" and "d < 366"
proof -
  have days: "int (unat (secs div 86400)) < 2 ^ 48"
    using u64_bound [of secs] by (simp add: unat_div)
  note ex = civil_year_exact [OF assms]
  show "1970 \<le> y" "0 \<le> d" "d < 366" using ex by (auto simp: days_in_year_def split: if_splits)
  show "365 * (y - 1970) \<le> int (unat (secs div 86400))" using ex year_start_ge [of y] by simp
  with days show "y < 2 ^ 49" by simp
qed

section \<open>Times and their fields\<close>

text \<open>The order of the fields, the most significant first.\<close>

definition dt_less :: "datetime \<Rightarrow> datetime \<Rightarrow> bool" where
  "dt_less t u \<longleftrightarrow> dt_year t < dt_year u \<or> dt_year t = dt_year u \<and> (dt_month t < dt_month u \<or> dt_month t = dt_month u
     \<and> (dt_day t < dt_day u \<or> dt_day t = dt_day u \<and> (dt_hour t < dt_hour u \<or> dt_hour t = dt_hour u
     \<and> (dt_minute t < dt_minute u \<or> dt_minute t = dt_minute u \<and> dt_second t < dt_second u))))"

lemma dt_total: "t = u \<or> dt_less t u \<or> dt_less u t" for t u :: datetime
  by (auto simp: dt_less_def datetime.equality intro!: datetime.equality)

lemma year_start_mono: "y \<le> y' \<Longrightarrow> year_start y \<le> year_start y'"
proof (induction "nat (y' - y)" arbitrary: y')
  case (Suc n)
  have "year_start (y' - 1) \<le> year_start y'" using year_start_step [of "y' - 1"] by (simp add: days_in_year_def split: if_splits)
  moreover have "n = nat (y' - 1 - y)" "y \<le> y' - 1" using Suc(2,3) by linarith+
  ultimately show ?case using Suc(1) [of "y' - 1"] by simp
qed simp

lemma month_start_step: "1 \<le> m \<Longrightarrow> m \<le> 12 \<Longrightarrow> month_start y (Suc m) = month_start y m + month_days y ! (m - 1)"
  using take_Suc_conv_app_nth [of "m - 1" "month_days y"] by (simp add: month_start_def)

lemma month_start_mono: "1 \<le> m \<Longrightarrow> m \<le> m' \<Longrightarrow> m' \<le> 13 \<Longrightarrow> month_start y m \<le> month_start y m'"
proof (induction m')
  case (Suc m')
  show ?case
  proof (cases "m \<le> m'")
    case True
    moreover have "0 \<le> month_days y ! (m' - 1)"
      using Suc.prems True month_days_pos [of "month_days y ! (m' - 1)" y] nth_mem [of "m' - 1" "month_days y"] by fastforce
    ultimately show ?thesis using Suc month_start_step [of m' y] by simp
  next
    case False
    with Suc.prems have "m = Suc m'" by simp
    then show ?thesis by simp
  qed
qed simp

text \<open>A date lies within its month, a month within its year.\<close>

lemma dt_days_range:
  assumes "dt_valid t"
  shows "year_start (dt_year t) + month_start (dt_year t) (dt_month t) \<le> dt_days t"
    and "dt_days t < year_start (dt_year t) + month_start (dt_year t) (Suc (dt_month t))"
    and "year_start (dt_year t) \<le> dt_days t" and "dt_days t < year_start (dt_year t + 1)"
proof -
  let ?y = "dt_year t" and ?m = "dt_month t"
  have m: "1 \<le> ?m" "?m \<le> 12" using assms by (simp_all add: dt_valid_def)
  have step: "month_start ?y (Suc ?m) = month_start ?y ?m + month_days ?y ! (?m - 1)" using m by (rule month_start_step)
  show low: "year_start ?y + month_start ?y ?m \<le> dt_days t" and high: "dt_days t < year_start ?y + month_start ?y (Suc ?m)"
    using assms step by (auto simp: dt_valid_def dt_days_def)
  have "0 \<le> month_start ?y ?m" using month_start_mono [of 1 ?m ?y] m by (simp add: month_start_def)
  with low show "year_start ?y \<le> dt_days t" by simp
  have "month_start ?y (Suc ?m) \<le> days_in_year ?y"
    using month_start_mono [of "Suc ?m" 13 ?y] m by (simp add: month_start_def month_days_sum)
  with high show "dt_days t < year_start (?y + 1)" by (simp add: year_start_step)
qed

lemma dt_seconds_mono:
  assumes "dt_valid t" and "dt_valid u" and "dt_less t u"
  shows "dt_seconds t < dt_seconds u"
proof -
  have fields: "dt_hour t < 24" "dt_minute t < 60" "dt_second t < 60" using assms(1) by (simp_all add: dt_valid_def)
  have date: "dt_days t < dt_days u"
    if earlier: "dt_year t < dt_year u \<or> dt_year t = dt_year u \<and> (dt_month t < dt_month u \<or> dt_month t = dt_month u \<and> dt_day t < dt_day u)"
  proof -
    consider (y) "dt_year t < dt_year u" | (m) "dt_year t = dt_year u" "dt_month t < dt_month u"
      | (d) "dt_year t = dt_year u" "dt_month t = dt_month u" "dt_day t < dt_day u" using earlier by blast
    then show ?thesis
    proof cases
      case y
      then show ?thesis using dt_days_range(4) [OF assms(1)] dt_days_range(3) [OF assms(2)] year_start_mono [of "dt_year t + 1" "dt_year u"] by simp
    next
      case m
      then have "month_start (dt_year t) (Suc (dt_month t)) \<le> month_start (dt_year t) (dt_month u)"
        using assms(2) by (intro month_start_mono) (auto simp: dt_valid_def)
      then show ?thesis using m(1) dt_days_range(2) [OF assms(1)] dt_days_range(1) [OF assms(2)] by simp
    next
      case d
      then show ?thesis by (simp add: dt_days_def)
    qed
  qed
  have same: "dt_days t = dt_days u" if "dt_year t = dt_year u" "dt_month t = dt_month u" "dt_day t = dt_day u"
    using that by (simp add: dt_days_def)
  from assms(3) consider "dt_days t < dt_days u" | "dt_days t = dt_days u" "dt_hour t < dt_hour u"
    | "dt_days t = dt_days u" "dt_hour t = dt_hour u" "dt_minute t < dt_minute u"
    | "dt_days t = dt_days u" "dt_hour t = dt_hour u" "dt_minute t = dt_minute u" "dt_second t < dt_second u"
    using date same unfolding dt_less_def by blast
  then show ?thesis by cases (use fields in \<open>simp_all add: dt_seconds_def\<close>)
qed

lemma dt_seconds_inject: "dt_valid t \<Longrightarrow> dt_valid u \<Longrightarrow> dt_seconds t = dt_seconds u \<Longrightarrow> t = u"
  using dt_total [of t u] dt_seconds_mono [of t u] dt_seconds_mono [of u t] by auto

lemma time_of_day_split: "(n div 3600 * 60 + n mod 3600 div 60) * 60 + n mod 60 = (n :: nat)"
proof -
  have "n mod 60 = n mod 3600 mod 60" by (rule mod_mod_cancel [symmetric]) simp
  moreover have "n mod 3600 div 60 * 60 + n mod 3600 mod 60 = n mod 3600" by (rule div_mult_mod_eq)
  moreover have "n div 3600 * 3600 + n mod 3600 = n" by (rule div_mult_mod_eq)
  ultimately show ?thesis by (simp only: add_mult_distrib mult.assoc numeral_times_numeral semiring_norm add.assoc)
qed

lemma unix_to_iso8601_fields:
  obtains t where "dt_valid t" and "dt_seconds t = int (unat secs)" and "unix_to_iso8601 secs = dt_show t"
proof -
  obtain y d where year: "civil_year 1970 (int (unat (secs div 86400))) = (y, d)" by fastforce
  obtain m d' where month: "civil_month (month_days y) 1 d = (m, d')" by fastforce
  have y: "1970 \<le> y" "0 \<le> d" "d < days_in_year y" "int (unat (secs div 86400)) = year_start y + d"
    using civil_year_exact [OF year] by auto
  obtain k where k: "k < 12" "m = 1 + int k" "0 \<le> d'" "d' < month_days y ! k" "d = sum_list (take k (month_days y)) + d'"
    using civil_month_exact [OF month] y by (auto simp: month_days_sum)
  let ?tod = "unat secs mod 86400"
  define t where "t = \<lparr>dt_year = y, dt_month = Suc k, dt_day = nat (d' + 1), dt_hour = ?tod div 3600,
    dt_minute = ?tod mod 3600 div 60, dt_second = ?tod mod 60\<rparr>"
  have "dt_valid t" using y k by (simp add: dt_valid_def t_def) linarith
  moreover have "dt_seconds t = int (unat secs)"
  proof -
    have days: "dt_days t = int (unat secs div 86400)" using y k by (simp add: dt_days_def t_def month_start_def unat_div)
    have "(int (?tod div 3600) * 60 + int (?tod mod 3600 div 60)) * 60 + int (?tod mod 60) = int ?tod"
      using arg_cong [OF time_of_day_split [of ?tod], of int] by (simp only: of_nat_add of_nat_mult of_nat_numeral)
    moreover have "dt_seconds t = int (unat secs div 86400) * 86400
        + ((int (?tod div 3600) * 60 + int (?tod mod 3600 div 60)) * 60 + int (?tod mod 60))"
      unfolding dt_seconds_def days by (simp add: t_def)
    moreover have "int (unat secs div 86400) * 86400 + int ?tod = int (unat secs)"
      using arg_cong [OF div_mult_mod_eq [of "unat secs" 86400], of int] by (simp only: of_nat_add of_nat_mult of_nat_numeral)
    ultimately show ?thesis by simp
  qed
  moreover have "unix_to_iso8601 secs = dt_show t"
    unfolding unix_to_iso8601_def Let_def year prod.case month
    using k(2,3) by (simp add: dt_show_def t_def unat_div unat_mod nat_add_distrib)
  ultimately show ?thesis by (rule that)
qed

section \<open>The text order of times\<close>

lemma pad_nat_1: "n < 10 \<Longrightarrow> pad_nat 1 n = [digit_char n]"
  by (simp add: pad_nat_def show_nat.simps)

lemma pad_nat_Suc:
  assumes "n < 10 ^ Suc w" and "0 < w"
  shows "pad_nat (Suc w) n = pad_nat w (n div 10) @ [digit_char (n mod 10)]"
proof (cases "n < 10")
  case True
  have "replicate w (CHR ''0'') = replicate (w - 1) (CHR ''0'') @ ''0''"
    using assms(2) replicate_append_same [of "w - 1" "CHR ''0''"] by (cases w) simp_all
  with True show ?thesis by (simp add: pad_nat_def show_nat.simps [of n] show_nat_0)
qed (simp add: pad_nat_def show_nat.simps [of n])

lemma append_less_append:
  "length a = length b \<Longrightarrow> a @ x < b @ y \<longleftrightarrow> a < b \<or> a = b \<and> x < y" for a b x y :: "'a::linorder list"
  by (induction a b rule: list_induct2) auto

lemma digit_char_less: "m < 10 \<Longrightarrow> n < 10 \<Longrightarrow> digit_char m < digit_char n \<longleftrightarrow> m < n"
  by (simp add: less_char_def of_digit_char)

lemma digit_char_inject: "m < 10 \<Longrightarrow> n < 10 \<Longrightarrow> digit_char m = digit_char n \<longleftrightarrow> m = n"
  by (metis add_left_imp_eq of_digit_char)

lemma decimal_less: "b < 10 \<Longrightarrow> d < 10 \<Longrightarrow> 10 * a + b < 10 * c + d \<longleftrightarrow> a < c \<or> a = c \<and> b < d" for a b c d :: nat
  by linarith

lemma pad_nat_order:
  assumes "0 < w" and "m < 10 ^ w" and "n < 10 ^ w"
  shows "length (pad_nat w m) = w" and "pad_nat w m = pad_nat w n \<longleftrightarrow> m = n" and "pad_nat w m < pad_nat w n \<longleftrightarrow> m < n"
proof -
  have "length (pad_nat w m) = w \<and> length (pad_nat w n) = w
      \<and> (pad_nat w m = pad_nat w n \<longleftrightarrow> m = n) \<and> (pad_nat w m < pad_nat w n \<longleftrightarrow> m < n)"
    using assms
  proof (induction w arbitrary: m n rule: nat_induct_non_zero)
    case 1
    then show ?case by (simp add: pad_nat_1 [simplified] digit_char_less digit_char_inject)
  next
    case (Suc w)
    have "m div 10 < 10 ^ w" "n div 10 < 10 ^ w" using Suc.prems by auto
    note IH = Suc.IH [OF this]
    have eq: "m = n \<longleftrightarrow> m div 10 = n div 10 \<and> m mod 10 = n mod 10" by (metis div_mult_mod_eq)
    have less: "m < n \<longleftrightarrow> m div 10 < n div 10 \<or> m div 10 = n div 10 \<and> m mod 10 < n mod 10"
      using decimal_less [of "m mod 10" "n mod 10" "m div 10" "n div 10"] by simp
    have digits: "digit_char (m mod 10) = digit_char (n mod 10) \<longleftrightarrow> m mod 10 = n mod 10"
      "[digit_char (m mod 10)] < [digit_char (n mod 10)] \<longleftrightarrow> m mod 10 < n mod 10"
      by (simp_all add: digit_char_less digit_char_inject)
    have lens: "length (pad_nat w (m div 10)) = length (pad_nat w (n div 10))" using IH by simp
    show ?case
      unfolding pad_nat_Suc [OF Suc.prems(1) Suc.hyps] pad_nat_Suc [OF Suc.prems(2) Suc.hyps]
        append_less_append [OF lens] digits eq less using IH digits by auto
  qed
  then show "length (pad_nat w m) = w" "pad_nat w m = pad_nat w n \<longleftrightarrow> m = n" "pad_nat w m < pad_nat w n \<longleftrightarrow> m < n"
    by blast+
qed

lemma pad_nat_append_less:
  "0 < w \<Longrightarrow> m < 10 ^ w \<Longrightarrow> n < 10 ^ w \<Longrightarrow> pad_nat w m @ x < pad_nat w n @ y \<longleftrightarrow> m < n \<or> m = n \<and> x < y"
  by (simp add: append_less_append pad_nat_order)

lemma dt_show_order:
  assumes "dt_valid t" and "dt_valid u" and "dt_year t < 10000" and "dt_year u < 10000"
  shows "dt_show t < dt_show u \<longleftrightarrow> dt_less t u"
proof -
  have month_le: "month_days y ! (m - 1) \<le> 31" if "1 \<le> m" "m \<le> 12" for y m
    using that month_days_pos [of "month_days y ! (m - 1)" y] nth_mem [of "m - 1" "month_days y"] by fastforce
  have two: "dt_month v < 10 ^ 2 \<and> dt_day v < 10 ^ 2 \<and> dt_hour v < 10 ^ 2 \<and> dt_minute v < 10 ^ 2 \<and> dt_second v < 10 ^ 2"
    if "dt_valid v" for v using that month_le [of "dt_month v" "dt_year v"] by (auto simp: dt_valid_def)
  have year: "nat (dt_year v) < 10 ^ 4" if "dt_year v < 10000" for v using that by simp
  have epoch: "0 < dt_year u" using assms(2) by (simp add: dt_valid_def)
  have nats: "nat (dt_year t) < nat (dt_year u) \<longleftrightarrow> dt_year t < dt_year u" "nat (dt_year t) = nat (dt_year u) \<longleftrightarrow> dt_year t = dt_year u"
    using assms(1,2) by (auto simp: dt_valid_def)
  show ?thesis
    unfolding dt_show_def dt_less_def pad_nat_append_less [of 4, OF _ year [OF assms(3)] year [OF assms(4)], simplified] nats
    using two [OF assms(1)] two [OF assms(2)] epoch by (auto simp: pad_nat_append_less [of 2, simplified])
qed

lemma dt_year_before_10000:
  assumes "dt_valid t" and "dt_seconds t < 253402300800"
  shows "dt_year t < 10000"
proof (rule ccontr)
  assume "\<not> ?thesis"
  then have "year_start 10000 \<le> dt_days t"
    using year_start_mono [of 10000 "dt_year t"] dt_days_range(3) [OF assms(1)] by simp
  then have "253402300800 \<le> dt_seconds t"
    by (simp add: year_start_def leap_years_to_def dt_seconds_def)
  with assms(2) show False by simp
qed

section \<open>Properties\<close>


text \<open>Sorting stored times as text sorts them by time: up to the year 9999, the printed times compare
  byte by byte exactly as the seconds they stand for.\<close>

theorem iso8601_order:
  assumes "a < 253402300800" and "b < 253402300800"
  shows "unix_to_iso8601 a < unix_to_iso8601 b \<longleftrightarrow> a < b"
proof -
  obtain t where t: "dt_valid t" "dt_seconds t = int (unat a)" "unix_to_iso8601 a = dt_show t" by (rule unix_to_iso8601_fields)
  obtain u where u: "dt_valid u" "dt_seconds u = int (unat b)" "unix_to_iso8601 b = dt_show u" by (rule unix_to_iso8601_fields)
  have "dt_seconds t < 253402300800" "dt_seconds u < 253402300800"
    using assms unfolding t(2) u(2) by (simp_all add: word_less_def)
  then have "dt_show t < dt_show u \<longleftrightarrow> dt_less t u"
    using t(1) u(1) dt_year_before_10000 by (intro dt_show_order) auto
  also have "\<dots> \<longleftrightarrow> dt_seconds t < dt_seconds u"
    using dt_total [of t u] dt_seconds_mono t(1) u(1) by (metis less_asym less_irrefl)
  finally show ?thesis unfolding t(2,3) u(2,3) by (simp add: word_less_def)
qed

theorem iso8601_order_witness: "unix_to_iso8601 951782399 < unix_to_iso8601 951782400"
  using iso8601_order [of 951782399 951782400] by simp

text \<open>C39. The year loop ends, and without overflow: on every number of seconds it makes at most one round per
  365 days, leaves a day within the year, and its year and day stay far inside 64 bits.\<close>

theorem year_loop_ends:
  "case civil_year 1970 (int (unat (secs div 86400 :: u64))) of (y, d) \<Rightarrow>
     1970 \<le> y \<and> 365 * (y - 1970) \<le> int (unat (secs div 86400)) \<and> y < 2 ^ 49 \<and> 0 \<le> d \<and> d < 366"
proof -
  obtain y d where "civil_year 1970 (int (unat (secs div 86400))) = (y, d)" by fastforce
  with civil_year_bounds [OF this] show ?thesis by simp
qed

end
