(* ===== verification/Alerts.thy ===== *)
theory Alerts
  imports Usage Iso_Time
begin

text \<open>
  The agent's alert rules (\<open>src/alerts.rs\<close>): a rule's breach as a state machine (clear, pending, active),
  its cooldown, the incident numbers of an agent run, and the manager that evaluates every rule on a
  tick's readings.  The \<open>uuid\<close> crate's \<open>hyphenated\<close> is the parameter \<open>hy\<close>; an agent run is its 128-bit
  identifier.  A \<open>HashMap\<close> of usages is a list of its entries in iteration order, the map of rule states
  is a partial function of the rule's position.
\<close>

section \<open>Rules, alerts and incidents\<close>

datatype alert_metric = Cpu | Memory | Swap | Disk | Load1 | Load5 | Load15

datatype alert_operator = Gt | Lt | Gte | Lte

datatype alert_severity = Info | Warning | Critical

record alert_rule =
  ar_metric :: alert_metric
  ar_operator :: alert_operator
  ar_threshold :: f32
  ar_severity :: alert_severity
  ar_duration_secs :: u64
  ar_cooldown_secs :: u64
  ar_mount_point :: "string option"
  ar_enabled :: bool

definition default_duration :: u64 where
  "default_duration = 0"

definition default_enabled :: bool where
  "default_enabled = True"

record active_alert =
  aa_id :: string
  aa_rule :: alert_rule
  aa_current_value :: f32
  aa_fired_at :: string
  aa_message :: string

datatype agent_run = AgentRun (as_uuid: u128)

record incident_id =
  ii_run :: agent_run
  ii_sequence :: u64

definition incident_id_show :: "(u128 \<Rightarrow> string) \<Rightarrow> incident_id \<Rightarrow> string" where
  "incident_id_show hy i = hy (as_uuid (ii_run i)) @ ''-'' @ show_nat (unat (ii_sequence i))"

record incident_sequence =
  iq_run :: agent_run
  iq_minted :: u64

definition mint :: "incident_sequence \<Rightarrow> incident_id \<times> incident_sequence" where
  "mint q = (let minted = iq_minted q + 1
     in (\<lparr>ii_run = iq_run q, ii_sequence = minted\<rparr>, q\<lparr>iq_minted := minted\<rparr>))"

record incident =
  inc_id :: incident_id
  inc_activated_at :: u64

datatype breach = Clear | Pending u64 | Active u64 incident f32

record observation =
  ob_value :: f32
  ob_breached :: bool

record rule_state =
  ru_breach :: breach
  ru_last_notified :: "u64 option"

datatype report = Quiet active_alert | Notify active_alert

datatype 'a reading = ReadMeasured 'a | Carried | Unavailable

fun reading_map :: "('a \<Rightarrow> 'b) \<Rightarrow> 'a reading \<Rightarrow> 'b reading" where
  "reading_map f (ReadMeasured v) = ReadMeasured (f v)"
| "reading_map f Carried = Carried"
| "reading_map f Unavailable = Unavailable"

record readings =
  rd_cpu :: "percent reading"
  rd_memory :: "percent reading"
  rd_swap :: "percent reading"
  rd_disk_usages :: "(string \<times> f32) list"
  rd_load1 :: load_average
  rd_load5 :: load_average
  rd_load15 :: load_average
  rd_cpu_cores :: u64

section \<open>Messages\<close>

definition is_breached :: "alert_operator \<Rightarrow> f32 \<Rightarrow> f32 \<Rightarrow> bool" where
  "is_breached operator v threshold = (case operator of
      Gt \<Rightarrow> f32_lt threshold v | Gte \<Rightarrow> f32_le threshold v | Lt \<Rightarrow> f32_lt v threshold | Lte \<Rightarrow> f32_le v threshold)"

definition metric_name_of :: "alert_metric \<Rightarrow> string" where
  "metric_name_of metric = (case metric of
      Cpu \<Rightarrow> ''CPU'' | Memory \<Rightarrow> ''Memory'' | Swap \<Rightarrow> ''Swap'' | Disk \<Rightarrow> ''Disk''
    | Load1 \<Rightarrow> ''Load (1m)'' | Load5 \<Rightarrow> ''Load (5m)'' | Load15 \<Rightarrow> ''Load (15m)'')"

definition severity_name :: "alert_severity \<Rightarrow> string" where
  "severity_name severity = (case severity of Info \<Rightarrow> ''INFO'' | Warning \<Rightarrow> ''WARNING'' | Critical \<Rightarrow> ''CRITICAL'')"

definition operator_symbol :: "alert_operator \<Rightarrow> string" where
  "operator_symbol operator = (case operator of Gt \<Rightarrow> ''>'' | Gte \<Rightarrow> ''>='' | Lt \<Rightarrow> ''<'' | Lte \<Rightarrow> ''<='')"

definition alert_message :: "alert_rule \<Rightarrow> f32 \<Rightarrow> f32 \<Rightarrow> u64 \<Rightarrow> string" where
  "alert_message rule v threshold breach_secs =
     (let mount_label = (case ar_mount_point rule of None \<Rightarrow> [] | Some m \<Rightarrow> '' on '' @ m)
      in severity_name (ar_severity rule) @ '' '' @ metric_name_of (ar_metric rule) @ '' ''
         @ operator_symbol (ar_operator rule) @ '' '' @ show_fixed1 v @ ''% (threshold: '' @ show_fixed1 threshold
         @ ''%)'' @ mount_label @ '' for '' @ show_nat (unat breach_secs) @ ''s'')"

section \<open>Breaches\<close>

definition pending_or_active :: "u64 \<Rightarrow> f32 \<Rightarrow> u64 \<Rightarrow> u64 \<Rightarrow> incident_sequence \<Rightarrow> breach \<times> incident_sequence" where
  "pending_or_active since v duration_secs now incidents =
     (if sat_sub now since < duration_secs then (Pending since, incidents)
      else let (i, incidents) = mint incidents
           in (Active since \<lparr>inc_id = i, inc_activated_at = now\<rparr> v, incidents))"

definition advance :: "breach \<Rightarrow> observation \<Rightarrow> u64 \<Rightarrow> u64 \<Rightarrow> incident_sequence \<Rightarrow> breach \<times> incident_sequence" where
  "advance b observed duration_secs now incidents =
     (if \<not> ob_breached observed then (Clear, incidents)
      else let since = (case b of Clear \<Rightarrow> now | Pending since \<Rightarrow> min since now | Active since _ _ \<Rightarrow> min since now)
           in case b of
                Active _ i _ \<Rightarrow> (Active since i (ob_value observed), incidents)
              | _ \<Rightarrow> pending_or_active since (ob_value observed) duration_secs now incidents)"

definition active_alert_of :: "(u128 \<Rightarrow> string) \<Rightarrow> breach \<Rightarrow> alert_rule \<Rightarrow> f32 \<Rightarrow> u64 \<Rightarrow> active_alert option" where
  "active_alert_of hy b rule threshold now = (case b of
      Active since i v \<Rightarrow> Some \<lparr>aa_id = incident_id_show hy (inc_id i), aa_rule = rule, aa_current_value = v,
        aa_fired_at = unix_to_iso8601 (inc_activated_at i),
        aa_message = alert_message rule v threshold (sat_sub now since)\<rparr>
    | _ \<Rightarrow> None)"

section \<open>Readings\<close>

definition value_for :: "readings \<Rightarrow> alert_rule \<Rightarrow> f32 reading" where
  "value_for r rule = (case ar_metric rule of
      Cpu \<Rightarrow> reading_map percent_get (rd_cpu r) | Memory \<Rightarrow> reading_map percent_get (rd_memory r)
    | Swap \<Rightarrow> reading_map percent_get (rd_swap r)
    | Disk \<Rightarrow> ReadMeasured (case ar_mount_point rule of
          Some mount_point \<Rightarrow> (case map_of (rd_disk_usages r) mount_point of Some v \<Rightarrow> v | None \<Rightarrow> Fin32 False 0)
        | None \<Rightarrow> foldl f32_max (Fin32 False 0) (map snd (rd_disk_usages r)))
    | Load1 \<Rightarrow> ReadMeasured (load_get (rd_load1 r)) | Load5 \<Rightarrow> ReadMeasured (load_get (rd_load5 r))
    | Load15 \<Rightarrow> ReadMeasured (load_get (rd_load15 r)))"

definition threshold_for :: "readings \<Rightarrow> alert_rule \<Rightarrow> f32" where
  "threshold_for r rule =
     (let auto_cores = (case ar_metric rule of
            Load1 \<Rightarrow> f32_eq (ar_threshold rule) (Fin32 False 0) | Load5 \<Rightarrow> f32_eq (ar_threshold rule) (Fin32 False 0)
          | Load15 \<Rightarrow> f32_eq (ar_threshold rule) (Fin32 False 0) | _ \<Rightarrow> False)
      in if auto_cores then u64_as_f32 (rd_cpu_cores r) else ar_threshold rule)"

section \<open>One rule's tick\<close>

definition rule_state_default :: rule_state where
  "rule_state_default = \<lparr>ru_breach = Clear, ru_last_notified = None\<rparr>"

definition take_notification :: "rule_state \<Rightarrow> u64 \<Rightarrow> u64 \<Rightarrow> bool \<times> rule_state" where
  "take_notification st cooldown_secs now =
     (let due = (case ru_last_notified st of None \<Rightarrow> True | Some notified \<Rightarrow> cooldown_secs \<le> sat_sub now notified)
      in (due, if due then st\<lparr>ru_last_notified := Some now\<rparr> else st))"

definition measure_rule :: "(u128 \<Rightarrow> string) \<Rightarrow> rule_state \<Rightarrow> alert_rule \<Rightarrow> observation \<Rightarrow> f32 \<Rightarrow> u64 \<Rightarrow> incident_sequence
    \<Rightarrow> report option \<times> rule_state \<times> incident_sequence" where
  "measure_rule hy st rule observed threshold now incidents =
     (let st = st\<lparr>ru_last_notified := map_option (\<lambda>notified. min notified now) (ru_last_notified st)\<rparr>;
          (b, incidents) = advance (ru_breach st) observed (ar_duration_secs rule) now incidents;
          st = st\<lparr>ru_breach := b\<rparr>
      in case active_alert_of hy b rule threshold now of
           None \<Rightarrow> (None, st, incidents)
         | Some alert \<Rightarrow> (case take_notification st (ar_cooldown_secs rule) now of
             (due, st) \<Rightarrow> (Some (if due then Notify alert else Quiet alert), st, incidents)))"

definition tick :: "(u128 \<Rightarrow> string) \<Rightarrow> rule_state \<Rightarrow> alert_rule \<Rightarrow> readings \<Rightarrow> u64 \<Rightarrow> incident_sequence
    \<Rightarrow> report option \<times> rule_state \<times> incident_sequence" where
  "tick hy st rule r now incidents =
     (let threshold = threshold_for r rule
      in case value_for r rule of
           ReadMeasured v \<Rightarrow> measure_rule hy st rule
             \<lparr>ob_value = v, ob_breached = is_breached (ar_operator rule) v threshold\<rparr> threshold now incidents
         | Carried \<Rightarrow> (map_option Quiet (active_alert_of hy (ru_breach st) rule threshold now), st, incidents)
         | Unavailable \<Rightarrow> (None, st\<lparr>ru_breach := Clear\<rparr>, incidents))"

section \<open>The manager\<close>

record alert_manager =
  am_rules :: "alert_rule list"
  am_active_alerts :: "active_alert list"
  am_states :: "nat \<rightharpoonup> rule_state"
  am_incidents :: incident_sequence

definition alerts_new :: "agent_run \<Rightarrow> alert_rule list \<Rightarrow> alert_manager" where
  "alerts_new run rules = \<lparr>am_rules = rules, am_active_alerts = [], am_states = (\<lambda>_. None),
     am_incidents = \<lparr>iq_run = run, iq_minted = 0\<rparr>\<rparr>"

definition replace_rules :: "alert_manager \<Rightarrow> alert_rule list \<Rightarrow> alert_manager" where
  "replace_rules m rules = m\<lparr>am_rules := rules, am_active_alerts := [], am_states := (\<lambda>_. None)\<rparr>"

definition default_rule :: "alert_metric \<Rightarrow> nat \<Rightarrow> alert_severity \<Rightarrow> u64 \<Rightarrow> u64 \<Rightarrow> bool \<Rightarrow> alert_rule" where
  "default_rule metric threshold severity duration cooldown enabled =
     \<lparr>ar_metric = metric, ar_operator = Gt, ar_threshold = Fin32 False (of_nat threshold), ar_severity = severity,
      ar_duration_secs = duration, ar_cooldown_secs = cooldown, ar_mount_point = None, ar_enabled = enabled\<rparr>"

definition with_defaults :: "agent_run \<Rightarrow> alert_manager" where
  "with_defaults run = alerts_new run
     [default_rule Cpu 90 Warning 60 300 True, default_rule Cpu 95 Critical 30 300 True,
      default_rule Memory 90 Warning 60 300 True, default_rule Memory 95 Critical 30 300 True,
      default_rule Disk 85 Warning 300 600 True, default_rule Disk 95 Critical 60 600 True,
      default_rule Load5 0 Warning 300 600 False]"

text \<open>The loop over the enabled rules, with their positions: states, incidents, notifications, active alerts.\<close>

definition evaluate_rule :: "(u128 \<Rightarrow> string) \<Rightarrow> readings \<Rightarrow> u64
    \<Rightarrow> (nat \<rightharpoonup> rule_state) \<times> incident_sequence \<times> active_alert list \<times> active_alert list \<Rightarrow> nat \<times> alert_rule
    \<Rightarrow> (nat \<rightharpoonup> rule_state) \<times> incident_sequence \<times> active_alert list \<times> active_alert list" where
  "evaluate_rule hy r now = (\<lambda>(states, incidents, notifications, active) (index, rule).
     let st = (case states index of Some st \<Rightarrow> st | None \<Rightarrow> rule_state_default);
         (rep, st, incidents) = tick hy st rule r now incidents;
         states = states(index \<mapsto> st)
     in case rep of
          None \<Rightarrow> (states, incidents, notifications, active)
        | Some (Quiet alert) \<Rightarrow> (states, incidents, notifications, active @ [alert])
        | Some (Notify alert) \<Rightarrow> (states, incidents, notifications @ [alert], active @ [alert]))"

definition evaluate :: "(u128 \<Rightarrow> string) \<Rightarrow> alert_manager \<Rightarrow> readings \<Rightarrow> u64 \<Rightarrow> active_alert list \<times> alert_manager" where
  "evaluate hy m r now =
     (case foldl (evaluate_rule hy r now) (am_states m, am_incidents m, [], [])
             (filter (\<lambda>(_, rule). ar_enabled rule) (enumerate 0 (am_rules m))) of
        (states, incidents, notifications, active) \<Rightarrow>
          (notifications, m\<lparr>am_active_alerts := active, am_states := states, am_incidents := incidents\<rparr>))"

end
