(* ===== verification/Alerts_Rule.thy ===== *)
theory Alerts_Rule
  imports Alerts
begin

text \<open>
  One rule over its ticks: the specification of when its alert is active and when it notifies, stated
  on what the rule has seen, and the proof that \<open>RuleState::tick\<close> meets it.
\<close>

section \<open>What a rule has seen\<close>

text \<open>A tick as the specification sees it: the rule's metric measured in breach or not, carried over, or
  unavailable.\<close>

datatype sighting = Breaching | Normal | Skipped | Gone

definition sighting_of :: "alert_rule \<Rightarrow> readings \<Rightarrow> sighting" where
  "sighting_of rule r = (case value_for r rule of
      ReadMeasured v \<Rightarrow> if is_breached (ar_operator rule) v (threshold_for r rule) then Breaching else Normal
    | Carried \<Rightarrow> Skipped | Unavailable \<Rightarrow> Gone)"

definition running :: "(sighting \<times> u64) list \<Rightarrow> nat \<Rightarrow> bool" where
  "running ss i \<longleftrightarrow> i < length ss \<and> fst (ss ! i) = Breaching
     \<and> (\<forall>l<length ss. i \<le> l \<longrightarrow> fst (ss ! l) \<in> {Breaching, Skipped})"

definition fired :: "u64 \<Rightarrow> (sighting \<times> u64) list \<Rightarrow> bool" where
  "fired dur ss \<longleftrightarrow> (\<exists>i k. i \<le> k \<and> k < length ss \<and> running ss i \<and> fst (ss ! k) = Breaching
     \<and> unat (snd (ss ! i)) + unat dur \<le> unat (snd (ss ! k)))"

lemma running_snoc:
  "running (ss @ [x]) i \<longleftrightarrow> fst x \<in> {Breaching, Skipped} \<and> running ss i \<or> i = length ss \<and> fst x = Breaching"
  by (auto simp: running_def nth_append less_Suc_eq)

lemma running_bound: "running ss i \<Longrightarrow> i < length ss"
  by (simp add: running_def)

lemma fired_snoc:
  "fired dur (ss @ [x]) \<longleftrightarrow> fst x \<in> {Breaching, Skipped} \<and> fired dur ss
     \<or> fst x = Breaching \<and> (dur = 0 \<or> (\<exists>i. running ss i \<and> unat (snd (ss ! i)) + unat dur \<le> unat (snd x)))"
  (is "?l \<longleftrightarrow> ?old \<or> ?new")
proof
  assume ?l
  then obtain i k where ik: "i \<le> k" "k \<le> length ss" "running (ss @ [x]) i" "fst ((ss @ [x]) ! k) = Breaching"
    "unat (snd ((ss @ [x]) ! i)) + unat dur \<le> unat (snd ((ss @ [x]) ! k))" by (auto simp: fired_def)
  show "?old \<or> ?new"
  proof (cases "k = length ss")
    case True
    show ?thesis
    proof (cases "i = length ss")
      case i: True
      with True ik show ?thesis by (auto simp: unat_eq_zero)
    next
      case False
      with True ik have "i < length ss" "running ss i" by (auto simp: running_snoc)
      with True ik show ?thesis by (auto simp: nth_append)
    qed
  next
    case False
    with ik have "k < length ss" "i < length ss" by simp_all
    with ik show ?thesis by (auto simp: running_snoc nth_append fired_def)
  qed
next
  assume "?old \<or> ?new"
  then show ?l
  proof
    assume ?old
    then obtain i k where "i \<le> k" "k < length ss" "running ss i" "fst (ss ! k) = Breaching"
      "unat (snd (ss ! i)) + unat dur \<le> unat (snd (ss ! k))" by (auto simp: fired_def)
    with \<open>?old\<close> show ?l unfolding fired_def by (intro exI [of _ i] exI [of _ k]) (auto simp: running_snoc nth_append)
  next
    assume new: ?new
    then consider "dur = 0" | i where "running ss i" "unat (snd (ss ! i)) + unat dur \<le> unat (snd x)" by blast
    then show ?l
    proof cases
      case 1
      with new show ?thesis unfolding fired_def
        by (intro exI [of _ "length ss"]) (auto simp: running_snoc)
    next
      case 2
      with new show ?thesis unfolding fired_def
        by (intro exI [of _ i] exI [of _ "length ss"]) (auto simp: running_snoc nth_append dest: running_bound)
    qed
  qed
qed

lemma fired_running: "fired dur ss \<Longrightarrow> \<exists>i. running ss i"
  by (auto simp: fired_def)

text \<open>What the breach records of the sightings.\<close>

definition breach_inv :: "u64 \<Rightarrow> (sighting \<times> u64) list \<Rightarrow> breach \<Rightarrow> bool" where
  "breach_inv dur ss b \<longleftrightarrow> (case b of
      Clear \<Rightarrow> \<forall>i. \<not> running ss i
    | Pending since \<Rightarrow> \<not> fired dur ss \<and> (\<exists>i. running ss i \<and> snd (ss ! i) = since) \<and> (\<forall>i. running ss i \<longrightarrow> since \<le> snd (ss ! i))
    | Active _ _ _ \<Rightarrow> fired dur ss)"

lemma breach_inv_fired: "breach_inv dur ss b \<Longrightarrow> fired dur ss \<longleftrightarrow> (\<exists>since i v. b = Active since i v)"
  by (cases b) (auto simp: breach_inv_def dest: fired_running)

lemma breach_inv_calm:
  "fst x \<in> {Normal, Gone} \<Longrightarrow> breach_inv dur (ss @ [x]) Clear"
  by (auto simp: breach_inv_def running_snoc)

lemma breach_inv_skipped:
  assumes "breach_inv dur ss b" and "fst x = Skipped"
  shows "breach_inv dur (ss @ [x]) b"
  using assms
  by (cases b) (auto simp: breach_inv_def running_snoc fired_snoc nth_append dest: running_bound)

lemma pending_or_active_cases:
  "(\<exists>q'. pending_or_active since v dur now q = (Pending since, q')) \<and> unat now - unat since < unat dur
   \<or> (\<exists>i q'. pending_or_active since v dur now q = (Active since i v, q')) \<and> unat dur \<le> unat now - unat since"
  by (auto simp: pending_or_active_def mint_def Let_def word_less_nat_alt unat_sat_sub)

lemma breach_inv_breaching:
  assumes inv: "breach_inv dur ss b" and past: "\<forall>y\<in>set ss. snd y \<le> now" and "ob_breached obs"
  shows "breach_inv dur (ss @ [(Breaching, now)]) (fst (advance b obs dur now q))"
proof (cases b)
  case Clear
  then have none: "\<forall>i. \<not> running ss i" "\<not> fired dur ss" using inv fired_running by (auto simp: breach_inv_def)
  show ?thesis
    using pending_or_active_cases [of now "ob_value obs" dur now q] none assms(3) Clear
    by (auto simp: advance_def Let_def breach_inv_def running_snoc fired_snoc nth_append word_unat_eq_iff)
next
  case (Pending s)
  then obtain i where i: "running ss i" "snd (ss ! i) = s" and nf: "\<not> fired dur ss"
    and least: "\<And>i. running ss i \<Longrightarrow> s \<le> snd (ss ! i)" using inv by (auto simp: breach_inv_def)
  then have le: "s \<le> now" using past nth_mem [of i ss] running_bound [of ss i] by auto
  have first: "fired dur (ss @ [(Breaching, now)]) \<longleftrightarrow> unat dur \<le> unat now - unat s"
  proof -
    have "fired dur (ss @ [(Breaching, now)]) \<longleftrightarrow> dur = 0 \<or> (\<exists>j. running ss j \<and> unat (snd (ss ! j)) + unat dur \<le> unat now)"
      using nf by (simp add: fired_snoc)
    also have "\<dots> \<longleftrightarrow> unat s + unat dur \<le> unat now"
      using i least le by (force simp: word_le_nat_alt)
    finally show ?thesis using le by (auto simp: word_le_nat_alt)
  qed
  have pend: "(\<exists>j. running (ss @ [(Breaching, now)]) j \<and> snd ((ss @ [(Breaching, now)]) ! j) = s)
      \<and> (\<forall>j. running (ss @ [(Breaching, now)]) j \<longrightarrow> s \<le> snd ((ss @ [(Breaching, now)]) ! j))"
    using i least le by (auto simp: running_snoc nth_append dest: running_bound)
  from le have "min s now = s" by (simp add: min_def)
  then show ?thesis
    using pending_or_active_cases [of s "ob_value obs" dur now q] first pend assms(3) Pending
    by (auto simp: advance_def Let_def breach_inv_def)
next
  case (Active s i v)
  with inv have "fired dur ss" by (simp add: breach_inv_def)
  with Active assms(3) show ?thesis by (simp add: advance_def Let_def breach_inv_def fired_snoc)
qed

section \<open>A rule over its ticks\<close>

text \<open>The ticks one rule takes part in: the readings, the time, and the run's incident sequence as it stands
  then, since the other rules mint from it too.\<close>

type_synonym rule_tick = "readings \<times> u64 \<times> incident_sequence"

definition rule_after :: "(u128 \<Rightarrow> string) \<Rightarrow> alert_rule \<Rightarrow> rule_tick list \<Rightarrow> rule_state" where
  "rule_after hy rule xs = foldl (\<lambda>st (r, now, q). fst (snd (tick hy st rule r now q))) rule_state_default xs"

definition report_of :: "(u128 \<Rightarrow> string) \<Rightarrow> alert_rule \<Rightarrow> rule_tick list \<Rightarrow> nat \<Rightarrow> report option" where
  "report_of hy rule xs j = (case xs ! j of (r, now, q) \<Rightarrow> fst (tick hy (rule_after hy rule (take j xs)) rule r now q))"

definition sightings :: "alert_rule \<Rightarrow> rule_tick list \<Rightarrow> (sighting \<times> u64) list" where
  "sightings rule xs = map (\<lambda>(r, now, q). (sighting_of rule r, now)) xs"

definition is_notify :: "report option \<Rightarrow> bool" where
  "is_notify rep = (case rep of Some (Notify _) \<Rightarrow> True | _ \<Rightarrow> False)"

lemma rule_after_snoc: "rule_after hy rule (xs @ [(r, now, q)]) = fst (snd (tick hy (rule_after hy rule xs) rule r now q))"
  by (simp add: rule_after_def)

lemma tick_breach:
  "ru_breach (fst (snd (tick hy st rule r now q))) = (case value_for r rule of
      ReadMeasured v \<Rightarrow> fst (advance (ru_breach st) \<lparr>ob_value = v, ob_breached = is_breached (ar_operator rule) v (threshold_for r rule)\<rparr>
        (ar_duration_secs rule) now q)
    | Carried \<Rightarrow> ru_breach st | Unavailable \<Rightarrow> Clear)"
  by (auto simp: tick_def measure_rule_def take_notification_def Let_def split: reading.splits prod.splits option.splits)

lemma rule_after_breach:
  assumes "sorted (map (\<lambda>(r, now, q). now) xs)"
  shows "breach_inv (ar_duration_secs rule) (sightings rule xs) (ru_breach (rule_after hy rule xs))"
  using assms
proof (induction xs rule: rev_induct)
  case Nil
  then show ?case by (simp add: rule_after_def rule_state_default_def sightings_def breach_inv_def running_def)
next
  case (snoc x xs)
  obtain r now q where x: "x = (r, now, q)" by (cases x)
  have IH: "breach_inv (ar_duration_secs rule) (sightings rule xs) (ru_breach (rule_after hy rule xs))"
    using snoc by (simp add: sorted_append)
  have past: "\<forall>y\<in>set (sightings rule xs). snd y \<le> now"
    using snoc.prems by (auto simp: sightings_def sorted_append x)
  have ss: "sightings rule (xs @ [(r, now, q)]) = sightings rule xs @ [(sighting_of rule r, now)]" by (simp add: sightings_def x)
  show ?case
  proof (cases "value_for r rule")
    case (ReadMeasured v)
    show ?thesis
    proof (cases "is_breached (ar_operator rule) v (threshold_for r rule)")
      case True
      with ReadMeasured have "sighting_of rule r = Breaching" by (simp add: sighting_of_def)
      with ReadMeasured True show ?thesis
        using breach_inv_breaching [OF IH past] by (simp add: ss x rule_after_snoc tick_breach)
    next
      case False
      with ReadMeasured show ?thesis
        by (simp add: ss x rule_after_snoc tick_breach sighting_of_def advance_def breach_inv_calm)
    qed
  next
    case Carried
    then show ?thesis
      using breach_inv_skipped [OF IH] by (simp add: ss x rule_after_snoc tick_breach sighting_of_def)
  next
    case Unavailable
    then show ?thesis by (simp add: ss x rule_after_snoc tick_breach sighting_of_def breach_inv_calm)
  qed
qed

lemma tick_reports:
  "fst (tick hy st rule r now q) \<noteq> None \<longleftrightarrow> (\<exists>since i v. ru_breach (fst (snd (tick hy st rule r now q))) = Active since i v)"
  by (auto simp: tick_def measure_rule_def active_alert_of_def take_notification_def Let_def
      split: reading.splits prod.splits option.splits breach.splits if_splits)

lemma tick_notifies:
  "is_notify (fst (tick hy st rule r now q)) \<longleftrightarrow> (\<exists>v. value_for r rule = ReadMeasured v) \<and> fst (tick hy st rule r now q) \<noteq> None
     \<and> (case ru_last_notified st of None \<Rightarrow> True | Some t \<Rightarrow> unat (ar_cooldown_secs rule) \<le> unat now - unat (min t now))"
  by (auto simp: tick_def measure_rule_def active_alert_of_def take_notification_def is_notify_def Let_def
      word_le_nat_alt unat_sat_sub split: reading.splits prod.splits option.splits breach.splits if_splits)

lemma tick_last_notified:
  "ru_last_notified (fst (snd (tick hy st rule r now q))) = (if is_notify (fst (tick hy st rule r now q)) then Some now
     else if (\<exists>v. value_for r rule = ReadMeasured v) then map_option (\<lambda>t. min t now) (ru_last_notified st) else ru_last_notified st)"
  by (auto simp: tick_def measure_rule_def active_alert_of_def take_notification_def is_notify_def Let_def
      split: reading.splits prod.splits option.splits breach.splits if_splits)

lemma report_of_prefix: "j < length xs \<Longrightarrow> report_of hy rule (xs @ ys) j = report_of hy rule xs j"
  by (simp add: report_of_def nth_append)

lemma report_of_last: "report_of hy rule (xs @ [(r, now, q)]) (length xs) = fst (tick hy (rule_after hy rule xs) rule r now q)"
  by (simp add: report_of_def)

text \<open>The last notification is the latest one.\<close>

definition time_of :: "rule_tick \<Rightarrow> u64" where
  "time_of x = (case x of (r, now, q) \<Rightarrow> now)"

definition notified_inv :: "(u128 \<Rightarrow> string) \<Rightarrow> alert_rule \<Rightarrow> rule_tick list \<Rightarrow> u64 option \<Rightarrow> bool" where
  "notified_inv hy rule xs l \<longleftrightarrow> (case l of
      None \<Rightarrow> \<forall>i<length xs. \<not> is_notify (report_of hy rule xs i)
    | Some t \<Rightarrow> (\<exists>i<length xs. is_notify (report_of hy rule xs i) \<and> time_of (xs ! i) = t)
        \<and> (\<forall>i<length xs. is_notify (report_of hy rule xs i) \<longrightarrow> time_of (xs ! i) \<le> t))"

lemma rule_after_notified:
  assumes "sorted (map time_of xs)"
  shows "notified_inv hy rule xs (ru_last_notified (rule_after hy rule xs))"
  using assms
proof (induction xs rule: rev_induct)
  case Nil
  then show ?case by (simp add: rule_after_def rule_state_default_def notified_inv_def)
next
  case (snoc x xs)
  obtain r now q where x: "x = (r, now, q)" by (cases x)
  let ?l = "ru_last_notified (rule_after hy rule xs)"
  have IH: "notified_inv hy rule xs ?l" using snoc by (simp add: sorted_append)
  have past: "time_of y \<le> now" if "y \<in> set xs" for y using snoc.prems that by (auto simp: sorted_append x time_of_def)
  have past_nth: "i < length xs \<Longrightarrow> time_of (xs ! i) \<le> now" for i using past nth_mem by blast
  have all: "(\<forall>i<length (xs @ [x]). P i) \<longleftrightarrow> (\<forall>i<length xs. P i) \<and> P (length xs)"
    "(\<exists>i<length (xs @ [x]). P i) \<longleftrightarrow> (\<exists>i<length xs. P i) \<or> P (length xs)" for P by (auto simp: less_Suc_eq)
  have at: "i < length xs \<Longrightarrow> report_of hy rule (xs @ [x]) i = report_of hy rule xs i" "i < length xs \<Longrightarrow> (xs @ [x]) ! i = xs ! i" for i
    by (simp_all add: report_of_prefix nth_append)
  have now: "time_of ((xs @ [x]) ! length xs) = now" by (simp add: x time_of_def)
  let ?rep = "fst (tick hy (rule_after hy rule xs) rule r now q)"
  have rep: "report_of hy rule (xs @ [x]) (length xs) = ?rep" by (simp add: x report_of_last)
  show ?case
  proof (cases "is_notify ?rep")
    case True
    then have l: "ru_last_notified (rule_after hy rule (xs @ [x])) = Some now" by (simp add: x rule_after_snoc tick_last_notified)
    show ?thesis
      unfolding l notified_inv_def option.case all rep now using True past_nth at by auto
  next
    case False
    have "map_option (\<lambda>t. min t now) ?l = ?l"
      using IH past_nth by (cases ?l) (auto simp: notified_inv_def min_def)
    with False have l: "ru_last_notified (rule_after hy rule (xs @ [x])) = ?l" by (simp add: x rule_after_snoc tick_last_notified)
    show ?thesis
      using IH unfolding l notified_inv_def all rep now using False at by (cases ?l) auto
  qed
qed

lemma cooldown_due:
  assumes "notified_inv hy rule xs l" and "\<And>i. i < length xs \<Longrightarrow> time_of (xs ! i) \<le> now"
  shows "(case l of None \<Rightarrow> True | Some t \<Rightarrow> c \<le> unat now - unat (min t now))
    \<longleftrightarrow> (\<forall>i<length xs. is_notify (report_of hy rule xs i) \<longrightarrow> unat (time_of (xs ! i)) + c \<le> unat now)"
proof (cases l)
  case (Some t)
  then obtain k where k: "k < length xs" "is_notify (report_of hy rule xs k)" "time_of (xs ! k) = t"
    and latest: "\<And>i. i < length xs \<Longrightarrow> is_notify (report_of hy rule xs i) \<Longrightarrow> unat (time_of (xs ! i)) \<le> unat t"
    using assms(1) by (auto simp: notified_inv_def word_le_nat_alt)
  have "min t now = t" "unat t \<le> unat now" using assms(2) [OF k(1)] k(3) by (simp_all add: min_def word_le_nat_alt)
  then show ?thesis using k latest Some by fastforce
qed (use assms(1) in \<open>auto simp: notified_inv_def\<close>)

text \<open>C20. A rule reports exactly what it has seen.  On a clock that does not step back, a tick reports an
  alert if and only if the metric has been in breach, without a normal or unavailable reading in
  between, from one measured tick to another at least the rule's duration later; and it notifies
  exactly when it measured the breach itself and the cooldown has passed since every earlier
  notification.\<close>

theorem alert_reports_exact:
  assumes "sorted (map time_of xs)" and "j < length xs"
  shows "(report_of hy rule xs j \<noteq> None \<longleftrightarrow> fired (ar_duration_secs rule) (take (Suc j) (sightings rule xs)))
    \<and> (is_notify (report_of hy rule xs j) \<longleftrightarrow> report_of hy rule xs j \<noteq> None \<and> fst (sightings rule xs ! j) = Breaching
       \<and> (\<forall>i<j. is_notify (report_of hy rule xs i)
            \<longrightarrow> unat (time_of (xs ! i)) + unat (ar_cooldown_secs rule) \<le> unat (time_of (xs ! j))))"
proof -
  obtain r now q where x: "xs ! j = (r, now, q)" by (cases "xs ! j")
  let ?p = "take j xs" and ?st = "rule_after hy rule (take j xs)"
  have pre: "take (Suc j) xs = ?p @ [(r, now, q)]" using assms(2) x by (simp add: take_Suc_conv_app_nth)
  have srt: "sorted (map time_of (take k xs))" for k using assms(1) sorted_wrt_take [of "(\<le>)" "map time_of xs" k] by (simp add: take_map)
  have rep: "report_of hy rule xs j = fst (tick hy ?st rule r now q)" by (simp add: report_of_def x)
  have times: "map time_of = map (\<lambda>(r, now, q). now)" by (auto simp: time_of_def)
  have inv: "breach_inv (ar_duration_secs rule) (take (Suc j) (sightings rule xs)) (ru_breach (rule_after hy rule (take (Suc j) xs)))"
    using rule_after_breach [of "take (Suc j) xs" rule hy] srt by (simp add: times sightings_def take_map)
  have fires: "report_of hy rule xs j \<noteq> None \<longleftrightarrow> fired (ar_duration_secs rule) (take (Suc j) (sightings rule xs))"
    unfolding rep tick_reports breach_inv_fired [OF inv] by (simp add: pre rule_after_snoc)
  have seen: "fst (sightings rule xs ! j) = sighting_of rule r" using assms(2) x by (simp add: sightings_def)
  have breaching: "(\<exists>v. value_for r rule = ReadMeasured v) \<longleftrightarrow> sighting_of rule r = Breaching" if "fired (ar_duration_secs rule) (take (Suc j) (sightings rule xs))"
  proof -
    have "sighting_of rule r \<noteq> Normal"
      using that assms(2) seen fired_running [OF that] by (fastforce simp: running_def sightings_def)
    then show ?thesis by (auto simp: sighting_of_def split: reading.splits if_splits)
  qed
  have past: "time_of (xs ! i) \<le> now" if "i < j" for i
    using assms that x sorted_nth_mono [of "map time_of xs" i j] by (simp add: time_of_def)
  have cool: "(case ru_last_notified ?st of None \<Rightarrow> True | Some t \<Rightarrow> unat (ar_cooldown_secs rule) \<le> unat now - unat (min t now))
      \<longleftrightarrow> (\<forall>i<j. is_notify (report_of hy rule xs i) \<longrightarrow> unat (time_of (xs ! i)) + unat (ar_cooldown_secs rule) \<le> unat now)"
  proof -
    have same: "report_of hy rule ?p i = report_of hy rule xs i" if "i < j" for i
      using that assms(2) report_of_prefix [of i ?p hy rule "drop j xs"] by simp
    show ?thesis
      using cooldown_due [OF rule_after_notified [OF srt [of j]], where now = now and rule = rule and hy = hy] past same assms(2) by simp
  qed
  have "is_notify (report_of hy rule xs j) \<longleftrightarrow> report_of hy rule xs j \<noteq> None \<and> fst (sightings rule xs ! j) = Breaching
       \<and> (\<forall>i<j. is_notify (report_of hy rule xs i)
            \<longrightarrow> unat (time_of (xs ! i)) + unat (ar_cooldown_secs rule) \<le> unat (time_of (xs ! j)))"
    using fires breaching cool unfolding rep tick_notifies seen x by (auto simp: time_of_def)
  with fires show ?thesis by blast
qed

definition cpu_at :: "nat \<Rightarrow> readings" where
  "cpu_at n = \<lparr>rd_cpu = ReadMeasured (Percent (Fin32 False (of_nat n))), rd_memory = Carried, rd_swap = Unavailable, rd_disk_usages = [],
     rd_load1 = LoadAverage NaN32, rd_load5 = LoadAverage NaN32, rd_load15 = LoadAverage NaN32, rd_cpu_cores = 4\<rparr>"

lemma cpu_at_sighting:
  "sighting_of (default_rule Cpu 90 Warning d c e) (cpu_at n) = (if 90 < n then Breaching else Normal)"
  by (simp add: sighting_of_def value_for_def threshold_for_def default_rule_def cpu_at_def is_breached_def signed_def)

theorem alert_reports_exact_witness:
  "let q = \<lparr>iq_run = AgentRun 7, iq_minted = 0\<rparr>; xs = [(cpu_at 95, 0, q), (cpu_at 96, 60, q)]
   in is_notify (report_of (\<lambda>_. ''run'') (default_rule Cpu 90 Warning 60 300 True) xs 1)"
proof -
  define q where "q = \<lparr>iq_run = AgentRun 7, iq_minted = 0\<rparr>"
  let ?rule = "default_rule Cpu 90 Warning 60 300 True" and ?xs = "[(cpu_at 95, 0, q), (cpu_at 96, 60, q)]"
  have dur: "ar_duration_secs ?rule = 60" by (simp add: default_rule_def)
  have sight: "sightings ?rule ?xs = [(Breaching, 0)] @ [(Breaching, 60)]" by (simp add: sightings_def cpu_at_sighting)
  have empty: "\<not> fired d []" "\<not> running [] i" for d i by (simp_all add: fired_def running_def)
  have one: "\<not> fired 60 ([] @ [(Breaching, 0)])" "running ([] @ [(Breaching, 0)]) 0"
    unfolding fired_snoc running_snoc using empty by simp_all
  then have two: "fired 60 ([(Breaching, 0)] @ [(Breaching, 60)])" unfolding fired_snoc by auto
  have srt: "sorted (map time_of ?xs)" by (simp add: time_of_def)
  note ex = alert_reports_exact [OF srt, where rule = ?rule and hy = "\<lambda>_. ''run''", unfolded sight dur]
  have "\<not> is_notify (report_of (\<lambda>_. ''run'') ?rule ?xs 0)" using ex [of 0] one(1) by (simp add: is_notify_def)
  then have "is_notify (report_of (\<lambda>_. ''run'') ?rule ?xs 1)" using ex [of 1] two by simp
  then show ?thesis by (simp add: q_def Let_def)
qed

text \<open>C22. No rule stalls, whatever it remembers and wherever the clock has been: once the metric has been
  measured in breach on two consecutive ticks at least the duration apart, the alert is active; and
  when they are the cooldown apart too, it notifies.  A clock that stepped back before the first of
  them does not delay it.\<close>

theorem alert_never_stalls:
  assumes "sighting_of rule r0 = Breaching" and "sighting_of rule r1 = Breaching"
    and "unat t0 + unat (ar_duration_secs rule) \<le> unat t1"
  shows "case tick hy st rule r0 t0 q0 of (rep0, st', _) \<Rightarrow>
      (case tick hy st' rule r1 t1 q1 of (rep1, _, _) \<Rightarrow>
         rep1 \<noteq> None \<and> (unat t0 + unat (ar_cooldown_secs rule) \<le> unat t1 \<longrightarrow> is_notify rep1))"
proof -
  obtain v0 where v0: "value_for r0 rule = ReadMeasured v0" "is_breached (ar_operator rule) v0 (threshold_for r0 rule)"
    using assms(1) by (auto simp: sighting_of_def split: reading.splits if_splits)
  obtain v1 where v1: "value_for r1 rule = ReadMeasured v1" "is_breached (ar_operator rule) v1 (threshold_for r1 rule)"
    using assms(2) by (auto simp: sighting_of_def split: reading.splits if_splits)
  let ?st = "fst (snd (tick hy st rule r0 t0 q0))"
  let ?tick = "tick hy ?st rule r1 t1 q1"
  have since: "(\<exists>s. ru_breach ?st = Pending s \<and> s \<le> t0) \<or> (\<exists>s i v. ru_breach ?st = Active s i v)"
    using v0 by (auto simp: tick_breach advance_def pending_or_active_def Let_def min_def mint_def split: breach.splits)
  have "\<exists>s i v. ru_breach (fst (snd ?tick)) = Active s i v"
    using since
  proof
    assume "\<exists>s. ru_breach ?st = Pending s \<and> s \<le> t0"
    then obtain s where s: "ru_breach ?st = Pending s" "s \<le> t0" by blast
    then have "unat s + unat (ar_duration_secs rule) \<le> unat t1" "min s t1 = s"
      using assms(3) by (auto simp: word_le_nat_alt min_def)
    with s v1 show ?thesis
      using pending_or_active_cases [of s v1 "ar_duration_secs rule" t1 q1] by (auto simp: tick_breach advance_def)
  qed (use v1 in \<open>auto simp: tick_breach advance_def\<close>)
  then have rep: "fst ?tick \<noteq> None" by (rule tick_reports [THEN iffD2])
  have recent: "case ru_last_notified ?st of None \<Rightarrow> True | Some l \<Rightarrow> l \<le> t0"
    using v0 by (auto simp: tick_last_notified split: option.splits)
  have due: "case ru_last_notified ?st of None \<Rightarrow> True | Some t \<Rightarrow> unat (ar_cooldown_secs rule) \<le> unat t1 - unat (min t t1)"
    if "unat t0 + unat (ar_cooldown_secs rule) \<le> unat t1"
    using recent that by (auto simp: word_le_nat_alt min_def split: option.splits)
  then have "unat t0 + unat (ar_cooldown_secs rule) \<le> unat t1 \<longrightarrow> is_notify (fst ?tick)"
    using rep v1 by (simp add: tick_notifies)
  with rep show ?thesis by (simp add: split_beta)
qed

theorem alert_never_stalls_witness:
  "let q = \<lparr>iq_run = AgentRun 7, iq_minted = 0\<rparr>; rule = default_rule Cpu 90 Warning 60 300 True
   in case tick (\<lambda>_. ''run'') \<lparr>ru_breach = Pending 5000, ru_last_notified = Some 4000\<rparr> rule (cpu_at 95) 100 q of (_, st, _) \<Rightarrow>
        is_notify (fst (tick (\<lambda>_. ''run'') st rule (cpu_at 95) 400 q))"
proof -
  define q where "q = \<lparr>iq_run = AgentRun 7, iq_minted = 0\<rparr>"
  let ?rule = "default_rule Cpu 90 Warning 60 300 True"
  have "sighting_of ?rule (cpu_at 95) = Breaching" by (simp add: cpu_at_sighting)
  moreover have "ar_duration_secs ?rule = 60" "ar_cooldown_secs ?rule = 300" by (simp_all add: default_rule_def)
  ultimately show ?thesis
    using alert_never_stalls [of ?rule "cpu_at 95" "cpu_at 95" 100 400, where hy = "\<lambda>_. ''run''"
        and st = "\<lparr>ru_breach = Pending 5000, ru_last_notified = Some 4000\<rparr>" and ?q0.0 = q and ?q1.0 = q]
    by (simp add: q_def [symmetric] Let_def split_beta)
qed

end
