(* ===== verification/Alerts_Incidents.thy ===== *)
theory Alerts_Incidents
  imports Alerts_Rule
begin

text \<open>
  The incident identifiers of an agent run, over every sequence of evaluations and rule replacements:
  what the manager's state says of the active incidents, and that no identifier is ever reused.
\<close>

section \<open>The active incidents\<close>

definition breach_id :: "rule_state \<Rightarrow> incident_id option" where
  "breach_id st = (case ru_breach st of Active _ i _ \<Rightarrow> Some (inc_id i) | _ \<Rightarrow> None)"

definition active_id :: "(nat \<rightharpoonup> rule_state) \<Rightarrow> nat \<Rightarrow> incident_id option" where
  "active_id states idx = Option.bind (states idx) breach_id"

definition report_id :: "report \<Rightarrow> string" where
  "report_id rep = aa_id (case rep of Quiet a \<Rightarrow> a | Notify a \<Rightarrow> a)"

lemma tick_incident:
  assumes "tick hy st rule r now q = (rep, st', q')"
  shows "map_option report_id rep = map_option (incident_id_show hy) (breach_id st')"
    and "q' = q \<and> (breach_id st' = None \<or> breach_id st' = breach_id st)
      \<or> q' = snd (mint q) \<and> breach_id st' = Some (fst (mint q))"
  using assms
  by (auto simp: tick_def measure_rule_def advance_def pending_or_active_def mint_def active_alert_of_def take_notification_def
      breach_id_def report_id_def Let_def split: reading.splits prod.splits option.splits breach.splits if_splits)

definition ids_ok :: "(nat \<rightharpoonup> rule_state) \<Rightarrow> incident_sequence \<Rightarrow> bool" where
  "ids_ok states q \<longleftrightarrow>
     (\<forall>idx i. active_id states idx = Some i \<longrightarrow> ii_run i = iq_run q \<and> ii_sequence i \<le> iq_minted q)
     \<and> (\<forall>a b i. active_id states a = Some i \<longrightarrow> active_id states b = Some i \<longrightarrow> a = b)"

text \<open>One rule's step: the incident it carries stays, goes, or is the next one minted.\<close>

lemma evaluate_rule_step:
  assumes "evaluate_rule hy r now (S, q, N, A) (idx, rule) = (S', q', N', A')" and "ids_ok S q" and "unat (iq_minted q) + 1 < 2 ^ 64"
  shows "ids_ok S' q'" and "iq_run q' = iq_run q" and "iq_minted q \<le> iq_minted q'"
    and "unat (iq_minted q') \<le> unat (iq_minted q) + 1"
    and "\<And>k. k \<noteq> idx \<Longrightarrow> S' k = S k"
    and "\<And>k i. active_id S' k = Some i \<Longrightarrow> active_id S k = Some i \<or> iq_minted q < ii_sequence i"
    and "map aa_id A' = map aa_id A @ (case active_id S' idx of None \<Rightarrow> [] | Some i \<Rightarrow> [incident_id_show hy i])"
proof -
  define st where "st = (case S idx of Some st \<Rightarrow> st | None \<Rightarrow> rule_state_default)"
  obtain rep st' q'' where t: "tick hy st rule r now q = (rep, st', q'')" by (cases "tick hy st rule r now q")
  have S': "S' = S(idx \<mapsto> st')" and q': "q' = q''"
    and A': "map aa_id A' = map aa_id A @ (case rep of None \<Rightarrow> [] | Some rep \<Rightarrow> [report_id rep])"
    using assms(1) t by (auto simp: evaluate_rule_def st_def [symmetric] Let_def report_id_def split: option.splits report.splits)
  have old: "breach_id st = active_id S idx"
    by (simp add: st_def active_id_def breach_id_def rule_state_default_def split: option.splits)
  have new: "active_id S' k = (if k = idx then breach_id st' else active_id S k)" for k by (simp add: S' active_id_def)
  have minted: "unat (iq_minted q + 1) = unat (iq_minted q) + 1" using assms(3) by (simp add: unat_word_ariths)
  note inc = tick_incident(2) [OF t, unfolded old mint_def Let_def]
  show "iq_run q' = iq_run q" "iq_minted q \<le> iq_minted q'" "unat (iq_minted q') \<le> unat (iq_minted q) + 1"
    using inc minted by (auto simp: q' word_le_nat_alt)
  show "\<And>k. k \<noteq> idx \<Longrightarrow> S' k = S k" by (simp add: S')
  show fresh: "active_id S' k = Some i \<Longrightarrow> active_id S k = Some i \<or> iq_minted q < ii_sequence i" for k i
    using inc minted by (auto simp: new word_less_nat_alt split: if_splits)
  show "ids_ok S' q'"
    using inc
  proof
    assume "q'' = q \<and> (breach_id st' = None \<or> breach_id st' = active_id S idx)"
    then have "active_id S' k = Some i \<Longrightarrow> active_id S k = Some i" and "q' = q" for k i
      by (auto simp: new q' split: if_splits)
    then show ?thesis using assms(2) unfolding ids_ok_def by metis
  next
    assume minting: "q'' = snd (\<lparr>ii_run = iq_run q, ii_sequence = iq_minted q + 1\<rparr>, q\<lparr>iq_minted := iq_minted q + 1\<rparr>)
      \<and> breach_id st' = Some (fst (\<lparr>ii_run = iq_run q, ii_sequence = iq_minted q + 1\<rparr>, q\<lparr>iq_minted := iq_minted q + 1\<rparr>))"
    have below: "ii_sequence i \<le> iq_minted q \<and> ii_run i = iq_run q" if "active_id S k = Some i" for k i
      using assms(2) that by (auto simp: ids_ok_def)
    have lt: "ii_sequence i < iq_minted q + 1" if "active_id S k = Some i" for k i
      using below [OF that] minted by (simp add: word_le_nat_alt word_less_nat_alt)
    show ?thesis
      using minting assms(2) below lt by (auto simp: ids_ok_def new q' less_imp_le dest!: lt)
  qed
  show "map aa_id A' = map aa_id A @ (case active_id S' idx of None \<Rightarrow> [] | Some i \<Rightarrow> [incident_id_show hy i])"
    using A' tick_incident(1) [OF t] by (cases rep; cases "breach_id st'") (simp_all add: new)
qed

lemma evaluate_fold:
  assumes "foldl (evaluate_rule hy r now) (S, q, N, A) L = (S', q', N', A')" and "ids_ok S q"
    and "distinct (map fst L)" and "unat (iq_minted q) + length L < 2 ^ 64"
  shows "ids_ok S' q' \<and> iq_run q' = iq_run q \<and> iq_minted q \<le> iq_minted q' \<and> unat (iq_minted q') \<le> unat (iq_minted q) + length L
    \<and> (\<forall>k. k \<notin> fst ` set L \<longrightarrow> S' k = S k)
    \<and> (\<forall>k i. active_id S' k = Some i \<longrightarrow> active_id S k = Some i \<or> iq_minted q < ii_sequence i)
    \<and> map aa_id A' = map aa_id A @ map (incident_id_show hy) (List.map_filter (\<lambda>x. active_id S' (fst x)) L)"
  using assms
proof (induction L arbitrary: S q N A)
  case Nil
  then show ?case by (simp add: List.map_filter_def)
next
  case (Cons x L)
  obtain idx rule where x: "x = (idx, rule)" by (cases x)
  obtain S1 q1 N1 A1 where one: "evaluate_rule hy r now (S, q, N, A) (idx, rule) = (S1, q1, N1, A1)"
    by (cases "evaluate_rule hy r now (S, q, N, A) (idx, rule)")
  have room: "unat (iq_minted q) + 1 < 2 ^ 64" using Cons.prems(4) by simp
  note step = evaluate_rule_step [OF one Cons.prems(2) room]
  have "ids_ok S' q' \<and> iq_run q' = iq_run q1 \<and> iq_minted q1 \<le> iq_minted q' \<and> unat (iq_minted q') \<le> unat (iq_minted q1) + length L
    \<and> (\<forall>k. k \<notin> fst ` set L \<longrightarrow> S' k = S1 k)
    \<and> (\<forall>k i. active_id S' k = Some i \<longrightarrow> active_id S1 k = Some i \<or> iq_minted q1 < ii_sequence i)
    \<and> map aa_id A' = map aa_id A1 @ map (incident_id_show hy) (List.map_filter (\<lambda>x. active_id S' (fst x)) L)"
    using Cons.prems step(1,4) one by (intro Cons.IH) (auto simp: x)
  note rest = this
  have same: "S' idx = S1 idx" using rest Cons.prems(3) by (auto simp: x)
  have act: "active_id S' idx = active_id S1 idx" by (simp add: active_id_def same)
  show ?case
  proof (intro conjI allI impI)
    show "map aa_id A' = map aa_id A @ map (incident_id_show hy) (List.map_filter (\<lambda>x. active_id S' (fst x)) (x # L))"
      using rest step(7) act by (simp add: x List.map_filter_simps split: option.splits)
    show "active_id S k = Some i \<or> iq_minted q < ii_sequence i" if "active_id S' k = Some i" for k i
      using rest step(3,6) that by (meson order.strict_trans1)
    show "S' k = S k" if "k \<notin> fst ` set (x # L)" for k using rest step(5) that by (simp add: x)
  qed (use rest step in auto)
qed

section \<open>The manager over its operations\<close>

datatype alert_op = Tick readings u64 | Replace "alert_rule list"

definition alert_step :: "(u128 \<Rightarrow> string) \<Rightarrow> alert_manager \<Rightarrow> alert_op \<Rightarrow> alert_manager" where
  "alert_step hy m x = (case x of Tick r now \<Rightarrow> snd (evaluate hy m r now) | Replace rules \<Rightarrow> replace_rules m rules)"

definition alerts_after :: "(u128 \<Rightarrow> string) \<Rightarrow> alert_manager \<Rightarrow> alert_op list \<Rightarrow> alert_manager" where
  "alerts_after hy m ops = foldl (alert_step hy) m ops"

definition alert_ids :: "alert_manager \<Rightarrow> string list" where
  "alert_ids m = map aa_id (am_active_alerts m)"

text \<open>How many incidents the operations can mint: one per rule and tick.\<close>

fun rule_ticks :: "nat \<Rightarrow> alert_op list \<Rightarrow> nat" where
  "rule_ticks n [] = 0"
| "rule_ticks n (Tick _ _ # ops) = n + rule_ticks n ops"
| "rule_ticks n (Replace rules # ops) = rule_ticks (length rules) ops"

definition enabled_rules :: "alert_manager \<Rightarrow> (nat \<times> alert_rule) list" where
  "enabled_rules m = filter (\<lambda>(_, rule). ar_enabled rule) (enumerate 0 (am_rules m))"

definition mgr_ok :: "(u128 \<Rightarrow> string) \<Rightarrow> alert_manager \<Rightarrow> bool" where
  "mgr_ok hy m \<longleftrightarrow> ids_ok (am_states m) (am_incidents m)
     \<and> (\<forall>k. active_id (am_states m) k \<noteq> None \<longrightarrow> k \<in> fst ` set (enabled_rules m))
     \<and> alert_ids m = map (incident_id_show hy) (List.map_filter (\<lambda>x. active_id (am_states m) (fst x)) (enabled_rules m))"

abbreviation minted :: "alert_manager \<Rightarrow> nat" where
  "minted m \<equiv> unat (iq_minted (am_incidents m))"

definition kept_or_new :: "alert_manager \<Rightarrow> alert_manager \<Rightarrow> bool" where
  "kept_or_new m m' \<longleftrightarrow> iq_run (am_incidents m') = iq_run (am_incidents m) \<and> minted m \<le> minted m'
     \<and> (\<forall>k i. active_id (am_states m') k = Some i
           \<longrightarrow> active_id (am_states m) k = Some i \<or> minted m < unat (ii_sequence i))"

lemma distinct_enabled: "distinct (map fst (enabled_rules m))"
  by (simp add: enabled_rules_def distinct_map_filter)

lemma enabled_length: "length (enabled_rules m) \<le> length (am_rules m)"
  using length_filter_le [of "\<lambda>(_, rule). ar_enabled rule" "enumerate 0 (am_rules m)"] by (simp add: enabled_rules_def)

lemma no_active: "active_id (\<lambda>_. None) k = None"
  by (simp add: active_id_def)

lemma alert_step_ok:
  assumes ok: "mgr_ok hy m" and room: "minted m + rule_ticks (length (am_rules m)) (x # ops) < 2 ^ 64"
  shows "mgr_ok hy (alert_step hy m x) \<and> kept_or_new m (alert_step hy m x)
    \<and> minted (alert_step hy m x) + rule_ticks (length (am_rules (alert_step hy m x))) ops
        \<le> minted m + rule_ticks (length (am_rules m)) (x # ops)"
proof (cases x)
  case (Tick r now)
  obtain S' q' N' A' where f: "foldl (evaluate_rule hy r now) (am_states m, am_incidents m, [], []) (enabled_rules m) = (S', q', N', A')"
    by (cases "foldl (evaluate_rule hy r now) (am_states m, am_incidents m, [], []) (enabled_rules m)")
  have m': "alert_step hy m x = m\<lparr>am_active_alerts := A', am_states := S', am_incidents := q'\<rparr>"
    by (simp add: alert_step_def Tick evaluate_def f [unfolded enabled_rules_def])
  have "minted m + length (enabled_rules m) < 2 ^ 64" using room enabled_length [of m] Tick by simp
  note fold = evaluate_fold [OF f _ distinct_enabled this]
  have ids: "ids_ok (am_states m) (am_incidents m)" using ok by (simp add: mgr_ok_def)
  note facts = fold [OF ids]
  have "k \<in> fst ` set (enabled_rules m)" if "active_id S' k \<noteq> None" for k
  proof (rule ccontr)
    assume out: "k \<notin> fst ` set (enabled_rules m)"
    then have "S' k = am_states m k" using facts by blast
    then have "active_id (am_states m) k \<noteq> None" using that by (simp add: active_id_def)
    with ok out show False by (simp add: mgr_ok_def)
  qed
  moreover have "enabled_rules (m\<lparr>am_active_alerts := A', am_states := S', am_incidents := q'\<rparr>) = enabled_rules m"
    by (simp add: enabled_rules_def)
  ultimately have "mgr_ok hy (alert_step hy m x)" using facts by (simp add: m' mgr_ok_def alert_ids_def)
  moreover have "kept_or_new m (alert_step hy m x)" using facts by (simp add: kept_or_new_def m' word_le_nat_alt word_less_nat_alt)
  moreover have "minted (alert_step hy m x) \<le> minted m + length (am_rules m)" using facts enabled_length [of m] by (simp add: m')
  moreover have "am_rules (alert_step hy m x) = am_rules m" by (simp add: m')
  ultimately show ?thesis by (simp add: Tick)
next
  case (Replace rules)
  then show ?thesis
    by (simp add: alert_step_def replace_rules_def mgr_ok_def kept_or_new_def ids_ok_def no_active alert_ids_def List.map_filter_def)
qed

lemma kept_or_new_trans:
  assumes "kept_or_new a b" and "kept_or_new b c"
  shows "kept_or_new a c"
proof -
  have "active_id (am_states a) k = Some i \<or> minted a < unat (ii_sequence i)" if "active_id (am_states c) k = Some i" for k i
  proof -
    from that assms(2) consider "active_id (am_states b) k = Some i" | "minted b < unat (ii_sequence i)"
      by (auto simp: kept_or_new_def)
    then show ?thesis using assms(1) by cases (auto simp: kept_or_new_def)
  qed
  with assms show ?thesis by (simp add: kept_or_new_def)
qed

lemma alerts_after_ok:
  assumes "mgr_ok hy m" and "minted m + rule_ticks (length (am_rules m)) (ops @ later) < 2 ^ 64"
  shows "mgr_ok hy (alerts_after hy m ops) \<and> kept_or_new m (alerts_after hy m ops)
    \<and> minted (alerts_after hy m ops) + rule_ticks (length (am_rules (alerts_after hy m ops))) later
        \<le> minted m + rule_ticks (length (am_rules m)) (ops @ later)"
  using assms
proof (induction ops arbitrary: m)
  case Nil
  then show ?case by (simp add: alerts_after_def kept_or_new_def)
next
  case (Cons x ops)
  note step = alert_step_ok [OF Cons.prems(1), of x "ops @ later"]
  have one: "alerts_after hy m (x # ops) = alerts_after hy (alert_step hy m x) ops" by (simp add: alerts_after_def)
  show ?case
    unfolding one using step Cons.IH [of "alert_step hy m x"] Cons.prems(2) kept_or_new_trans [of m "alert_step hy m x"] by simp
qed

lemma show_nat_inject: "show_nat m = show_nat n \<longleftrightarrow> m = n"
  by (metis digits_value_show)

lemma incident_id_show_inject:
  "ii_run i = ii_run i' \<Longrightarrow> incident_id_show hy i = incident_id_show hy i' \<longleftrightarrow> ii_sequence i = ii_sequence i'"
  by (simp add: incident_id_show_def show_nat_inject word_unat_eq_iff)

lemma set_map_filter_iff: "y \<in> set (List.map_filter f xs) \<longleftrightarrow> (\<exists>x\<in>set xs. f x = Some y)"
  by (induction xs) (auto simp: List.map_filter_simps split: option.splits)

lemma alert_ids_iff:
  assumes "mgr_ok hy m"
  shows "x \<in> set (alert_ids m) \<longleftrightarrow> (\<exists>k i. active_id (am_states m) k = Some i \<and> x = incident_id_show hy i)"
proof -
  have "i \<in> set (List.map_filter (\<lambda>x. active_id (am_states m) (fst x)) (enabled_rules m)) \<longleftrightarrow> (\<exists>k. active_id (am_states m) k = Some i)" for i
    using assms unfolding mgr_ok_def set_map_filter_iff by (metis imageE option.distinct(1))
  moreover have "alert_ids m = map (incident_id_show hy) (List.map_filter (\<lambda>x. active_id (am_states m) (fst x)) (enabled_rules m))"
    using assms by (simp add: mgr_ok_def)
  ultimately show ?thesis by (auto simp only: set_map image_iff) (blast+)?
qed

lemma alert_ids_distinct:
  assumes "mgr_ok hy m"
  shows "distinct (alert_ids m)"
proof -
  let ?act = "active_id (am_states m)"
  have same: "a = b" if "?act a = Some i" "?act b = Some i'" "incident_id_show hy i = incident_id_show hy i'" for a b i i'
  proof -
    have "ii_run i = ii_run i'" using assms that(1,2) by (simp add: mgr_ok_def ids_ok_def)
    moreover from this have "ii_sequence i = ii_sequence i'" using that(3) incident_id_show_inject by blast
    ultimately have "i = i'" by (simp add: incident_id.equality)
    then show ?thesis using assms that by (auto simp: mgr_ok_def ids_ok_def)
  qed
  have "distinct (map (incident_id_show hy) (List.map_filter (\<lambda>x. ?act (fst x)) L))" if "distinct (map fst L)" for L :: "(nat \<times> alert_rule) list"
    using that
  proof (induction L)
    case (Cons x L)
    have "incident_id_show hy i \<notin> incident_id_show hy ` set (List.map_filter (\<lambda>x. ?act (fst x)) L)" if "?act (fst x) = Some i" for i
    proof
      assume "incident_id_show hy i \<in> incident_id_show hy ` set (List.map_filter (\<lambda>x. ?act (fst x)) L)"
      then obtain y i' where "y \<in> set L" "?act (fst y) = Some i'" "incident_id_show hy i = incident_id_show hy i'"
        by (auto simp: set_map_filter_iff)
      then have "fst x \<in> fst ` set L" using same [OF that] by (metis imageI)
      with Cons.prems show False by simp
    qed
    with Cons show ?case by (auto simp: List.map_filter_simps split: option.splits)
  qed (simp add: List.map_filter_simps)
  from this [OF distinct_enabled] show ?thesis using assms by (simp add: mgr_ok_def)
qed

lemma alerts_new_ok: "mgr_ok hy (alerts_new run rules)"
  by (simp add: mgr_ok_def alerts_new_def ids_ok_def no_active alert_ids_def List.map_filter_def)

text \<open>C21. An incident's identifier is never used for another: over any sequence of evaluations and rule
  replacements (short of minting \<open>2 ^ 64\<close> incidents), the active alerts have distinct identifiers, and
  an identifier seen active at two moments was active at every moment in between.\<close>

theorem incident_ids_never_reused:
  assumes "rule_ticks (length rules) ops < 2 ^ 64" and "i \<le> j" and "j \<le> k"
  shows "distinct (alert_ids (alerts_after hy (alerts_new run rules) (take j ops)))
    \<and> (x \<in> set (alert_ids (alerts_after hy (alerts_new run rules) (take i ops)))
       \<longrightarrow> x \<in> set (alert_ids (alerts_after hy (alerts_new run rules) (take k ops)))
       \<longrightarrow> x \<in> set (alert_ids (alerts_after hy (alerts_new run rules) (take j ops))))"
proof -
  define m where "m = (\<lambda>n. alerts_after hy (alerts_new run rules) (take n ops))"
  have start: "minted (alerts_new run rules) = 0" "length (am_rules (alerts_new run rules)) = length rules" by (simp_all add: alerts_new_def)
  have ok: "mgr_ok hy (m n) \<and> minted (m n) + rule_ticks (length (am_rules (m n))) (drop n ops) \<le> rule_ticks (length rules) ops" for n
    using alerts_after_ok [OF alerts_new_ok, of run rules "take n ops" "drop n ops" hy] assms(1) by (simp add: m_def start)
  have kept: "kept_or_new (m a) (m b)" if "a \<le> b" for a b
  proof -
    have split: "take b ops = take a ops @ take (b - a) (drop a ops)" using that by (metis take_add le_add_diff_inverse)
    have "m b = alerts_after hy (m a) (take (b - a) (drop a ops))" unfolding m_def split by (simp add: alerts_after_def)
    then show ?thesis
      using alerts_after_ok [of hy "m a" "take (b - a) (drop a ops)" "drop (b - a) (drop a ops)", unfolded append_take_drop_id] ok [of a] assms(1) by simp
  qed
  have "x \<in> set (alert_ids (m j))" if xi: "x \<in> set (alert_ids (m i))" and xk: "x \<in> set (alert_ids (m k))"
  proof -
    obtain a p where p: "active_id (am_states (m i)) a = Some p" "x = incident_id_show hy p" using alert_ids_iff ok xi by blast
    obtain b r where r: "active_id (am_states (m k)) b = Some r" "x = incident_id_show hy r" using alert_ids_iff ok xk by blast
    have known: "ii_run z = iq_run (am_incidents (m n)) \<and> unat (ii_sequence z) \<le> minted (m n)" if "active_id (am_states (m n)) c = Some z" for n c z
      using ok [of n] that by (auto simp: mgr_ok_def ids_ok_def word_le_nat_alt)
    have "iq_run (am_incidents (m k)) = iq_run (am_incidents (m i))" using kept [of i k] assms by (simp add: kept_or_new_def)
    then have "ii_sequence r = ii_sequence p"
      using incident_id_show_inject [of r p hy] known [OF p(1)] known [OF r(1)] p(2) r(2) by simp
    moreover have "minted (m i) \<le> minted (m j)" using kept [OF assms(2)] by (simp add: kept_or_new_def)
    ultimately have "\<not> minted (m j) < unat (ii_sequence r)" using known [OF p(1)] by simp
    then have "active_id (am_states (m j)) b = Some r" using kept [OF assms(3)] r(1) by (auto simp: kept_or_new_def)
    then show ?thesis using alert_ids_iff ok r(2) by blast
  qed
  then show ?thesis using alert_ids_distinct ok unfolding m_def by blast
qed

theorem incident_ids_never_reused_witness:
  "let rule = default_rule Cpu 90 Warning 0 300 True; ops = [Tick (cpu_at 95) 10, Tick (cpu_at 96) 20, Tick (cpu_at 97) 30]
   in ''run-1'' \<in> set (alert_ids (alerts_after (\<lambda>_. ''run'') (alerts_new (AgentRun 7) [rule]) (take 2 ops)))"
proof -
  let ?rule = "default_rule Cpu 90 Warning 0 300 True" and ?ops = "[Tick (cpu_at 95) 10, Tick (cpu_at 96) 20, Tick (cpu_at 97) 30]"
  have one: "show_nat (Suc 0) = ''1''" using show_digits_value [of "''1''"] by (simp add: digits_value_def spelled_def is_digit_def)
  note run = alerts_after_def alerts_new_def alert_step_def evaluate_def evaluate_rule_def tick_def measure_rule_def advance_def
    pending_or_active_def mint_def active_alert_of_def take_notification_def value_for_def threshold_for_def is_breached_def
    default_rule_def cpu_at_def rule_state_default_def alert_ids_def incident_id_show_def signed_def sat_sub_def Let_def
  have "alert_ids (alerts_after (\<lambda>_. ''run'') (alerts_new (AgentRun 7) [?rule]) (take n ?ops)) = [''run-1'']" if "n = 1 \<or> n = 3" for n
    using that one by (auto simp: run enumerate_eq_zip)
  from this [of 1] this [of 3] show ?thesis
    using incident_ids_never_reused [of "[?rule]" ?ops 1 2 3 "\<lambda>_. ''run''" "AgentRun 7" "''run-1''"] by simp
qed

end
