(* ===== verification/Registry.thy ===== *)
theory Registry
  imports Names
begin

text \<open>
  The fleet registry: systems, their identity and status (\<open>system-hub/src/models.rs\<close>), the rules on what
  agents report (\<open>system-hub/src/registry.rs\<close>), the \<open>systems\<close> table's updates (\<open>system-hub/src/db/mod.rs\<close>
  and \<open>db/sources.rs\<close>) and the registry fill after a stored snapshot (\<open>system-hub/src/registry_fill.rs\<close>).
  A string is its UTF-8 bytes.  The table is a map from ids to rows; whether SQLite fails a statement
  is an argument (\<open>None\<close> when it does not), and a failed statement changes nothing.
\<close>

definition str :: "string \<Rightarrow> bytes" where
  "str s = map of_char s"

section \<open>Systems\<close>

datatype system_status = Online | Offline | UnknownStatus

definition status_show :: "system_status \<Rightarrow> bytes" where
  "status_show s = (case s of Online \<Rightarrow> str ''online'' | Offline \<Rightarrow> str ''offline'' | UnknownStatus \<Rightarrow> str ''unknown'')"

definition parse_status :: "bytes \<Rightarrow> system_status" where
  "parse_status s = (if s = str ''online'' then Online else if s = str ''offline'' then Offline else UnknownStatus)"

record system_info =
  si_id :: bytes
  si_name :: bytes
  si_url :: bytes
  si_token :: bytes
  si_status :: system_status
  si_last_seen :: bytes
  si_last_error :: "bytes option"
  si_os :: "bytes option"
  si_hostname :: "bytes option"
  si_kernel :: "bytes option"
  si_cpu_model :: "bytes option"
  si_cpu_cores :: "u64 option"
  si_total_memory_display :: "bytes option"
  si_total_memory_bytes :: "u64 option"
  si_poll_interval_secs :: u64
  si_enabled :: bool

datatype system_id = SystemId (id_str: bytes)

definition MAX_SYSTEM_ID_BYTES :: nat where
  "MAX_SYSTEM_ID_BYTES = 255"

datatype system_id_error = IdEmpty | IdTooLong | DotSegment

definition system_id_try_from :: "bytes \<Rightarrow> system_id_error + system_id" where
  "system_id_try_from v = (if v = [] then Inl IdEmpty
     else if v = str ''.'' \<or> v = str ''..'' then Inl DotSegment
     else if MAX_SYSTEM_ID_BYTES < length v then Inl IdTooLong
     else Inr (SystemId v))"

definition DEFAULT_NAME_MAX_BYTES :: nat where
  "DEFAULT_NAME_MAX_BYTES = 8"

text \<open>\<open>str::floor_char_boundary\<close>: the greatest index up to \<open>n\<close> at which no character is cut.\<close>

primrec char_boundary_below :: "bytes \<Rightarrow> nat \<Rightarrow> nat" where
  "char_boundary_below s 0 = 0"
| "char_boundary_below s (Suc n) = (if utf8_cont (s ! Suc n) then char_boundary_below s n else Suc n)"

definition floor_char_boundary :: "bytes \<Rightarrow> nat \<Rightarrow> nat" where
  "floor_char_boundary s n = (if length s \<le> n then length s else char_boundary_below s n)"

definition default_name :: "system_id \<Rightarrow> bytes" where
  "default_name i = take (floor_char_boundary (id_str i) DEFAULT_NAME_MAX_BYTES) (id_str i)"

definition is_default_name :: "system_id \<Rightarrow> bytes \<Rightarrow> bool" where
  "is_default_name i name \<longleftrightarrow> name = default_name i"

section \<open>What agents report\<close>

definition MAX_DISPLAY_BYTES :: nat where
  "MAX_DISPLAY_BYTES = 64"

definition follows_display_rule :: "bytes \<Rightarrow> bool" where
  "follows_display_rule s \<longleftrightarrow> 1 \<le> length s \<and> length s \<le> MAX_DISPLAY_BYTES
     \<and> \<not> list_ex is_control (case utf8_chars s of None \<Rightarrow> [] | Some cs \<Rightarrow> cs)"

datatype invalid_display = InvalidDisplay

datatype uptime_display = UptimeDisplay bytes

definition uptime_display_try_from :: "bytes \<Rightarrow> invalid_display + uptime_display" where
  "uptime_display_try_from v = (if follows_display_rule v then Inr (UptimeDisplay v) else Inl InvalidDisplay)"

record memory_capacity =
  mc_display :: bytes
  mc_bytes :: u64

definition capacity_reported :: "bytes option \<Rightarrow> u64 option \<Rightarrow> memory_capacity option" where
  "capacity_reported d b =
     Option.bind (Option.bind d (\<lambda>d. if follows_display_rule d then Some d else None)) (\<lambda>d.
     Option.bind (Option.bind b (\<lambda>b. if signed_try_from b \<noteq> None then Some b else None)) (\<lambda>b.
       Some \<lparr>mc_display = d, mc_bytes = b\<rparr>))"

definition capacity_stored :: "system_info \<Rightarrow> memory_capacity option" where
  "capacity_stored s = capacity_reported (si_total_memory_display s) (si_total_memory_bytes s)"

definition memory_capacity_refresh :: "memory_capacity option \<Rightarrow> memory_capacity option \<Rightarrow> memory_capacity option" where
  "memory_capacity_refresh stored reported =
     Option.bind reported (\<lambda>c. if stored \<noteq> Some c then Some c else None)"

datatype poll_interval = PollInterval (column_value: i64)

datatype poll_interval_out_of_range = PollIntervalOutOfRange

definition poll_interval_try_from :: "u64 \<Rightarrow> poll_interval_out_of_range + poll_interval" where
  "poll_interval_try_from secs = (case signed_try_from secs of Some v \<Rightarrow> Inr (PollInterval v) | None \<Rightarrow> Inl PollIntervalOutOfRange)"

definition poll_interval_secs :: "poll_interval \<Rightarrow> u64" where
  "poll_interval_secs i = of_int \<bar>sint (column_value i)\<bar>"

definition needs_system_info :: "system_info \<Rightarrow> bool" where
  "needs_system_info s \<longleftrightarrow> si_hostname s = None \<or> si_os s = None"

definition PUSH_URL :: bytes where
  "PUSH_URL = str ''push://''"

definition MAIL_URL :: bytes where
  "MAIL_URL = str ''mail://''"

datatype system_source = Push | Poll | Mail

definition source_of :: "bytes \<Rightarrow> system_source" where
  "source_of url = (if url = PUSH_URL then Push else if url = MAIL_URL then Mail else Poll)"

definition polled_systems :: "system_info list \<Rightarrow> system_info list" where
  "polled_systems systems = filter (\<lambda>s. si_enabled s
     \<and> (case source_of (si_url s) of Poll \<Rightarrow> True | Push \<Rightarrow> False | Mail \<Rightarrow> False)) systems"

section \<open>The systems table\<close>

type_synonym systems_table = "bytes \<rightharpoonup> system_info"

text \<open>\<open>UPDATE systems SET ... WHERE id = ?\<close>: of the row, when there is one.\<close>

definition update_row :: "'e option \<Rightarrow> systems_table \<Rightarrow> bytes \<Rightarrow> (system_info \<Rightarrow> system_info) \<Rightarrow> ('e + unit) \<times> systems_table" where
  "update_row fails t i f = (case fails of Some e \<Rightarrow> (Inl e, t) | None \<Rightarrow> (Inr (), t(i := map_option f (t i))))"

definition update_system_status :: "'e option \<Rightarrow> systems_table \<Rightarrow> bytes \<Rightarrow> system_status \<Rightarrow> bytes \<Rightarrow> bytes option \<Rightarrow> ('e + unit) \<times> systems_table" where
  "update_system_status fails t i status last_seen err =
     update_row fails t i (\<lambda>s. s\<lparr>si_status := status, si_last_seen := last_seen, si_last_error := err\<rparr>)"

definition update_system_info :: "'e option \<Rightarrow> systems_table \<Rightarrow> bytes \<Rightarrow> bytes option \<Rightarrow> bytes option \<Rightarrow> bytes option \<Rightarrow> bytes option \<Rightarrow> u64 option
    \<Rightarrow> ('e + unit) \<times> systems_table" where
  "update_system_info fails t i os hostname kern cpu_model cpu_cores =
     update_row fails t i (\<lambda>s. s\<lparr>si_os := os, si_hostname := hostname, si_kernel := kern, si_cpu_model := cpu_model, si_cpu_cores := cpu_cores\<rparr>)"

definition update_memory_capacity :: "'e option \<Rightarrow> systems_table \<Rightarrow> bytes \<Rightarrow> memory_capacity \<Rightarrow> ('e + unit) \<times> systems_table" where
  "update_memory_capacity fails t i c =
     update_row fails t i (\<lambda>s. s\<lparr>si_total_memory_display := Some (mc_display c), si_total_memory_bytes := Some (mc_bytes c)\<rparr>)"

definition set_if :: "'a option \<Rightarrow> ('a \<Rightarrow> system_info \<Rightarrow> system_info) \<Rightarrow> system_info \<Rightarrow> system_info" where
  "set_if v f s = (case v of None \<Rightarrow> s | Some v \<Rightarrow> f v s)"

definition update_system_config :: "'e option \<Rightarrow> systems_table \<Rightarrow> bytes \<Rightarrow> bytes option \<Rightarrow> bytes option \<Rightarrow> bytes option
    \<Rightarrow> poll_interval option \<Rightarrow> bool option \<Rightarrow> ('e + unit) \<times> systems_table" where
  "update_system_config fails t i name url token interval enabled =
     (if name = None \<and> url = None \<and> token = None \<and> interval = None \<and> enabled = None then (Inr (), t)
      else update_row fails t i (\<lambda>s. set_if enabled (\<lambda>v s. s\<lparr>si_enabled := v\<rparr>)
        (set_if interval (\<lambda>v s. s\<lparr>si_poll_interval_secs := column_value v\<rparr>) (set_if token (\<lambda>v s. s\<lparr>si_token := v\<rparr>)
        (set_if url (\<lambda>v s. s\<lparr>si_url := v\<rparr>) (set_if name (\<lambda>v s. s\<lparr>si_name := v\<rparr>) s))))))"

text \<open>\<open>reset_status\<close> keeps every column but the status; it returns how many rows changed.\<close>

definition resets :: "bytes \<Rightarrow> system_status \<Rightarrow> system_info \<Rightarrow> bool" where
  "resets url from s \<longleftrightarrow> si_url s = url \<and> si_status s = from"

definition reset_status :: "systems_table \<Rightarrow> bytes \<Rightarrow> system_status \<Rightarrow> system_status \<Rightarrow> systems_table" where
  "reset_status t url from to = (\<lambda>i. map_option (\<lambda>s. if resets url from s then s\<lparr>si_status := to\<rparr> else s) (t i))"

record source_row =
  sw_id :: bytes
  sw_source :: system_source
  sw_status :: system_status

text \<open>A row as SQLite hands it over: each column reads or does not.\<close>

definition source_row_of :: "bytes option \<Rightarrow> bool option \<Rightarrow> bytes option \<Rightarrow> source_row option" where
  "source_row_of i is_push status =
     (let source = (case is_push of Some True \<Rightarrow> Push | Some False \<Rightarrow> Poll | None \<Rightarrow> Poll)
      in map_option (\<lambda>i. \<lparr>sw_id = i, sw_source = source,
           sw_status = (case status of None \<Rightarrow> UnknownStatus | Some s \<Rightarrow> parse_status s)\<rparr>) i)"

definition system_sources :: "(bytes option \<times> bool option \<times> bytes option) list \<Rightarrow> source_row list \<times> nat" where
  "system_sources rows = (let mapped = map (\<lambda>(i, p, s). source_row_of i p s) rows
     in (List.map_filter id mapped, length (filter Option.is_none mapped)))"

section \<open>The registry fill\<close>

record reported_info =
  ri_hostname :: bytes
  ri_os_name :: bytes
  ri_kernel :: bytes
  ri_cpu_model :: bytes
  ri_cpu_cores :: u64
  ri_memory :: "memory_capacity option"

text \<open>How SQLite answers the fill's four statements; a failed write is logged and the fill goes on.\<close>

record 'e fill_db =
  fd_get :: "'e option"
  fd_info :: "'e option"
  fd_memory :: "'e option"
  fd_name :: "'e option"

definition fill_registry :: "'e fill_db \<Rightarrow> systems_table \<Rightarrow> system_id \<Rightarrow> reported_info \<Rightarrow> systems_table" where
  "fill_registry db t i info =
     (case (fd_get db, t (id_str i)) of
        (Some _, _) \<Rightarrow> t
      | (None, None) \<Rightarrow> t
      | (None, Some sys) \<Rightarrow>
          (let t = (if needs_system_info sys
                 then snd (update_system_info (fd_info db) t (id_str i) (Some (ri_os_name info)) (Some (ri_hostname info))
                        (Some (ri_kernel info)) (Some (ri_cpu_model info)) (Some (ri_cpu_cores info)))
                 else t);
               t = (case memory_capacity_refresh (capacity_stored sys) (ri_memory info) of
                   Some c \<Rightarrow> snd (update_memory_capacity (fd_memory db) t (id_str i) c) | None \<Rightarrow> t)
           in if is_default_name i (si_name sys)
              then snd (update_system_config (fd_name db) t (id_str i) (Some (ri_hostname info)) None None None None) else t))"

section \<open>Properties\<close>

text \<open>A system that reports by mail has a source of its own, and the poller leaves it out.\<close>

lemma mail_url_is_a_mail_source:
  "source_of MAIL_URL = Mail"
  "si_url s = MAIL_URL \<Longrightarrow> s \<notin> set (polled_systems systems)"
proof -
  show mail: "source_of MAIL_URL = Mail"
    by (simp add: source_of_def MAIL_URL_def PUSH_URL_def str_def)
  show "si_url s = MAIL_URL \<Longrightarrow> s \<notin> set (polled_systems systems)"
    by (simp add: polled_systems_def mail)
qed

lemma capacity_reported_again:
  "capacity_reported d b = Some c \<Longrightarrow> capacity_reported (Some (mc_display c)) (Some (mc_bytes c)) = Some c"
  by (auto simp: capacity_reported_def bind_eq_Some_conv split: if_splits)

lemma status_roundtrip: "parse_status (status_show s) = s"
  by (cases s) (simp_all add: parse_status_def status_show_def str_def)

text \<open>The row after a fill whose statements all succeed.\<close>

definition filled_row :: "system_id \<Rightarrow> reported_info \<Rightarrow> system_info \<Rightarrow> system_info" where
  "filled_row i info s =
     (let s1 = (if needs_system_info s then s\<lparr>si_os := Some (ri_os_name info), si_hostname := Some (ri_hostname info),
            si_kernel := Some (ri_kernel info), si_cpu_model := Some (ri_cpu_model info), si_cpu_cores := Some (ri_cpu_cores info)\<rparr> else s);
          s2 = (case memory_capacity_refresh (capacity_stored s) (ri_memory info) of None \<Rightarrow> s1 | Some c \<Rightarrow> s1\<lparr>si_total_memory_display := Some (mc_display c), si_total_memory_bytes := Some (mc_bytes c)\<rparr>)
      in if is_default_name i (si_name s) then s2\<lparr>si_name := ri_hostname info\<rparr> else s2)"

lemma fill_registry_row:
  assumes "fd_get db = None" and "fd_info db = None" and "fd_memory db = None" and "fd_name db = None" and "t (id_str i) = Some s"
  shows "fill_registry db t i info = t(id_str i \<mapsto> filled_row i info s)"
proof -
  have same: "t(id_str i \<mapsto> s) = t" using assms(5) by (rule fun_upd_idem)
  note run = fill_registry_def filled_row_def Let_def update_system_info_def update_memory_capacity_def
    update_system_config_def update_row_def set_if_def
  show ?thesis
    using assms same
    by (cases "needs_system_info s"; cases "memory_capacity_refresh (capacity_stored s) (ri_memory info)"; cases "is_default_name i (si_name s)")
      (simp_all add: run)
qed

lemma filled_row_name: "si_name (filled_row i info s) = (if is_default_name i (si_name s) then ri_hostname info else si_name s)"
  by (simp add: filled_row_def Let_def split: option.split)

lemma filled_row_info: "\<not> needs_system_info (filled_row i info s)"
  by (simp add: filled_row_def Let_def needs_system_info_def split: option.split)

lemma filled_row_capacity:
  assumes "ri_memory info = capacity_reported d b"
  shows "capacity_stored (filled_row i info s) = (case ri_memory info of Some c \<Rightarrow> Some c | None \<Rightarrow> capacity_stored s)"
proof (cases "memory_capacity_refresh (capacity_stored s) (ri_memory info)")
  case None
  then have "ri_memory info = None \<or> capacity_stored s = ri_memory info"
    by (cases "ri_memory info") (auto simp: memory_capacity_refresh_def split: if_splits)
  moreover have "capacity_stored (filled_row i info s) = capacity_stored s"
    using None by (simp add: filled_row_def Let_def capacity_stored_def)
  ultimately show ?thesis by (auto split: option.split)
next
  case (Some c)
  then have c: "ri_memory info = Some c" by (auto simp: memory_capacity_refresh_def bind_eq_Some_conv split: if_splits)
  then have "capacity_reported (Some (mc_display c)) (Some (mc_bytes c)) = Some c" using assms capacity_reported_again by simp
  with Some c show ?thesis by (simp add: filled_row_def Let_def capacity_stored_def)
qed

lemma filled_row_again:
  assumes "ri_memory info = capacity_reported d b"
  shows "filled_row i info (filled_row i info s) = filled_row i info s"
proof -
  let ?s = "filled_row i info s"
  have "memory_capacity_refresh (capacity_stored ?s) (ri_memory info) = None"
    unfolding filled_row_capacity [OF assms] by (simp add: memory_capacity_refresh_def split: option.split)
  then have "filled_row i info ?s = (if is_default_name i (si_name ?s) then ?s\<lparr>si_name := ri_hostname info\<rparr> else ?s)"
    using filled_row_info [of i info s] unfolding filled_row_def [of i info ?s] by (simp add: Let_def)
  moreover have "?s\<lparr>si_name := ri_hostname info\<rparr> = ?s" if "is_default_name i (si_name ?s)"
  proof -
    have "ri_hostname info = si_name ?s" using that by (simp add: filled_row_name split: if_splits)
    then show ?thesis by simp
  qed
  ultimately show ?thesis by simp
qed



end
