(* ===== verification/Applications.thy ===== *)
theory Applications
  imports Token_Bucket Ordered_Map Float32
begin

text \<open>
  The hub's view of Spring Boot applications (\<open>system-hub/src/applications.rs\<close>) and the intake of a
  scrape round (\<open>system-hub/src/round_intake.rs\<close>, with \<open>Database::store_round\<close> of
  \<open>system-hub/src/db/history.rs\<close>): names, gauges and rounds, the memory of recent rounds, a source's pace,
  admission, freshness, and the points a round adds.  Text is a list of bytes as characters, except
  a version, which is cut by characters and is the list of its code points.  Outside the sources and
  hence parameters: \<open>Uuid::try_parse\<close>, the keyed digest of a round, and how SQLite answers.
\<close>

section \<open>Names, health, versions and gauges\<close>

definition APPLICATION_RETENTION_SECS :: u64 where
  "APPLICATION_RETENTION_SECS = 86400"

definition MAX_APPLICATIONS :: nat where
  "MAX_APPLICATIONS = 16"

datatype application_name = ApplicationName (app_name: string)

definition is_ascii_alphanumeric :: "char \<Rightarrow> bool" where
  "is_ascii_alphanumeric c = (let n = (of_char c :: nat)
     in 48 \<le> n \<and> n \<le> 57 \<or> 65 \<le> n \<and> n \<le> 90 \<or> 97 \<le> n \<and> n \<le> 122)"

definition application_name_parse :: "string \<Rightarrow> application_name option" where
  "application_name_parse v =
     (let allowed = (\<lambda>b. is_ascii_alphanumeric b \<or> b = CHR ''_'' \<or> b = CHR ''.'' \<or> b = CHR ''-'');
          valid = 1 \<le> length v \<and> length v \<le> 64 \<and> list_all allowed v \<and> v \<noteq> ''.'' \<and> v \<noteq> ''..''
      in if valid then Some (ApplicationName v) else None)"

datatype application_health = Up | Down | OutOfService | HealthUnknown | Unreachable

definition health_from_wire :: "string \<Rightarrow> application_health" where
  "health_from_wire name = (if name = ''up'' then Up else if name = ''down'' then Down
     else if name = ''out_of_service'' then OutOfService else if name = ''unreachable'' then Unreachable else HealthUnknown)"

definition health_wire_name :: "application_health \<Rightarrow> string" where
  "health_wire_name h = (case h of Up \<Rightarrow> ''up'' | Down \<Rightarrow> ''down'' | OutOfService \<Rightarrow> ''out_of_service''
     | HealthUnknown \<Rightarrow> ''unknown'' | Unreachable \<Rightarrow> ''unreachable'')"

datatype application_version = ApplicationVersion (version_chars: "nat list")

definition application_version_parse :: "nat list \<Rightarrow> application_version option" where
  "application_version_parse raw =
     (let cut = take 64 raw in if list_all is_whitespace cut then None else Some (ApplicationVersion cut))"

datatype application_gauge = HeapUsedBytes | HeapMaxBytes | CpuPercent | LiveThreads | GcPausePercent
  | HttpRequestsPerSecond | HttpServerErrorsPerSecond | HttpMeanLatencyMs | DbConnectionsActive | UptimeSeconds

definition all_gauges :: "application_gauge list" where
  "all_gauges = [HeapUsedBytes, HeapMaxBytes, CpuPercent, LiveThreads, GcPausePercent, HttpRequestsPerSecond,
     HttpServerErrorsPerSecond, HttpMeanLatencyMs, DbConnectionsActive, UptimeSeconds]"

text \<open>The derived order is the order of declaration.\<close>

definition gauge_rank :: "application_gauge \<Rightarrow> nat" where
  "gauge_rank g = (case g of HeapUsedBytes \<Rightarrow> 0 | HeapMaxBytes \<Rightarrow> 1 | CpuPercent \<Rightarrow> 2 | LiveThreads \<Rightarrow> 3 | GcPausePercent \<Rightarrow> 4
     | HttpRequestsPerSecond \<Rightarrow> 5 | HttpServerErrorsPerSecond \<Rightarrow> 6 | HttpMeanLatencyMs \<Rightarrow> 7 | DbConnectionsActive \<Rightarrow> 8
     | UptimeSeconds \<Rightarrow> 9)"

lemma gauge_rank_inject: "gauge_rank a = gauge_rank b \<longleftrightarrow> a = b"
  by (cases a; cases b) (simp_all add: gauge_rank_def)

instantiation application_gauge :: linorder
begin

definition less_eq_application_gauge :: "application_gauge \<Rightarrow> application_gauge \<Rightarrow> bool" where
  "less_eq_application_gauge a b \<longleftrightarrow> gauge_rank a \<le> gauge_rank b"

definition less_application_gauge :: "application_gauge \<Rightarrow> application_gauge \<Rightarrow> bool" where
  "less_application_gauge a b \<longleftrightarrow> gauge_rank a < gauge_rank b"

instance
  by standard (auto simp: less_eq_application_gauge_def less_application_gauge_def gauge_rank_inject [symmetric])

end

definition gauge_wire_name :: "application_gauge \<Rightarrow> string" where
  "gauge_wire_name g = (case g of
      HeapUsedBytes \<Rightarrow> ''heap_used_bytes'' | HeapMaxBytes \<Rightarrow> ''heap_max_bytes'' | CpuPercent \<Rightarrow> ''cpu_percent''
    | LiveThreads \<Rightarrow> ''live_threads'' | GcPausePercent \<Rightarrow> ''gc_pause_percent''
    | HttpRequestsPerSecond \<Rightarrow> ''http_requests_per_second'' | HttpServerErrorsPerSecond \<Rightarrow> ''http_server_errors_per_second''
    | HttpMeanLatencyMs \<Rightarrow> ''http_mean_latency_ms'' | DbConnectionsActive \<Rightarrow> ''db_connections_active''
    | UptimeSeconds \<Rightarrow> ''uptime_seconds'')"

definition gauge_from_wire :: "string \<Rightarrow> application_gauge option" where
  "gauge_from_wire name = List.find (\<lambda>g. gauge_wire_name g = name) all_gauges"

type_synonym gauges = "(application_gauge, f64) btree_map"

fun is_finite :: "f64 \<Rightarrow> bool" where
  "is_finite (Fin _) = True"
| "is_finite _ = False"

definition gauges_from_wire :: "(string \<times> f64) list \<Rightarrow> gauges" where
  "gauges_from_wire raw = foldl (\<lambda>m (g, v). om_insert m g v) []
     (List.map_filter (\<lambda>(name, v). map_option (\<lambda>g. (g, v)) (gauge_from_wire name)) (filter (\<lambda>(_, v). is_finite v) raw))"

record application_report =
  rp_name :: application_name
  rp_health :: application_health
  rp_version :: "application_version option"
  rp_gauges :: gauges

section \<open>Rounds\<close>

datatype scrape_round_error = TooManyApplications | InvalidApplicationName | DuplicateApplicationName | InvalidRun | InvalidInterval

datatype round_id = RoundId (rid_run: u128) (rid_seq: u64)

definition round_id_parse :: "(string \<Rightarrow> u128 option) \<Rightarrow> string \<Rightarrow> u64 \<Rightarrow> scrape_round_error + round_id" where
  "round_id_parse try_parse run sq = rbind (ok_or InvalidRun (try_parse run)) (\<lambda>run. Inr (RoundId run sq))"

datatype scrape_interval = ScrapeInterval (interval_secs: u64)

definition scrape_interval_from_secs :: "u64 \<Rightarrow> scrape_round_error + scrape_interval" where
  "scrape_interval_from_secs secs = (if 10 \<le> secs \<and> secs \<le> 3600 then Inr (ScrapeInterval secs) else Inl InvalidInterval)"

record scrape_round =
  sr_id :: round_id
  sr_interval :: scrape_interval
  sr_applications :: "application_report list"

text \<open>\<open>names.insert\<close> over every name: false at the first one already in the set.\<close>

primrec all_inserted :: "'a list \<Rightarrow> 'a set \<Rightarrow> bool" where
  "all_inserted [] names = True"
| "all_inserted (x # xs) names = (x \<notin> names \<and> all_inserted xs (insert x names))"

definition scrape_round_new :: "round_id \<Rightarrow> scrape_interval \<Rightarrow> application_report list \<Rightarrow> scrape_round_error + scrape_round" where
  "scrape_round_new i interval apps =
     (if MAX_APPLICATIONS < length apps then Inl TooManyApplications
      else if \<not> all_inserted (map rp_name apps) {} then Inl DuplicateApplicationName
      else Inr \<lparr>sr_id = i, sr_interval = interval, sr_applications = apps\<rparr>)"

record held_round =
  hr_round :: scrape_round
  hr_received_at :: u64

datatype round_digest = RoundDigest u64

definition RECENT_ROUNDS :: nat where
  "RECENT_ROUNDS = 8"

type_synonym recent_rounds = "(round_id \<times> round_digest) list"

definition recent_contains :: "recent_rounds \<Rightarrow> round_id \<Rightarrow> round_digest \<Rightarrow> bool" where
  "recent_contains recent i d \<longleftrightarrow> (i, d) \<in> set recent"

definition recent_remember :: "recent_rounds \<Rightarrow> round_id \<Rightarrow> round_digest \<Rightarrow> recent_rounds" where
  "recent_remember recent i d = (let kept = (if length recent = RECENT_ROUNDS then tl recent else recent) in kept @ [(i, d)])"

section \<open>Pace and admission\<close>

definition MIN_ROUND_SPACING :: nanos where
  "MIN_ROUND_SPACING = 8 * 10 ^ 9"

definition PACE_BURST :: u8 where
  "PACE_BURST = 2"

definition PACE :: refill where
  "PACE = refill_new PACE_BURST MIN_ROUND_SPACING"

datatype source_pace = SourcePace (pace_bucket: token_bucket)

datatype too_soon = TooSoon

definition source_pace_new :: "instant \<Rightarrow> source_pace" where
  "source_pace_new now = SourcePace (bucket_full PACE now)"

definition source_pace_take :: "source_pace \<Rightarrow> instant \<Rightarrow> too_soon + source_pace" where
  "source_pace_take p now = map_err (\<lambda>_. TooSoon) (rbind (bucket_take (pace_bucket p) now) (\<lambda>b. Inr (SourcePace b)))"

datatype admission = Accept source_pace | AdmitDuplicate | AdmitTooSoon

definition admit_round :: "recent_rounds \<Rightarrow> source_pace \<Rightarrow> round_id \<Rightarrow> round_digest \<Rightarrow> instant \<Rightarrow> admission" where
  "admit_round recent pace incoming digest now =
     (if recent_contains recent incoming digest then AdmitDuplicate
      else case source_pace_take pace now of Inr pace \<Rightarrow> Accept pace | Inl _ \<Rightarrow> AdmitTooSoon)"

datatype freshness = Fresh | Stale

definition FRESHNESS_SLACK_SECS :: u64 where
  "FRESHNESS_SLACK_SECS = 30"

definition freshness_of :: "held_round \<Rightarrow> u64 \<Rightarrow> freshness" where
  "freshness_of held now =
     (let fresh_for = 2 * interval_secs (sr_interval (hr_round held)) + FRESHNESS_SLACK_SECS
      in if sat_add (hr_received_at held) fresh_for < now then Stale else Fresh)"

definition application_points :: "scrape_round \<Rightarrow> (string \<times> f32) list" where
  "application_points rnd = concat (map (\<lambda>app.
     let name = app_name (rp_name app); up = (if rp_health app = Up then Fin32 False 1 else Fin32 False 0)
     in map (\<lambda>(g, v). (''app:'' @ name @ '':'' @ gauge_wire_name g, f64_as_f32 v)) (rp_gauges app) @ [(''app:'' @ name @ '':up'', up)])
     (sr_applications rnd))"

section \<open>Storing a round\<close>

datatype round_stored = Stored | DuplicateRound | RoundTooSoon | SystemGone

record system_applications =
  sa_shown :: "held_round option"
  sa_recent :: recent_rounds
  sa_poll_pace :: "source_pace option"
  sa_poll_refusal_warned_at :: "instant option"

definition system_applications_default :: system_applications where
  "system_applications_default = \<lparr>sa_shown = None, sa_recent = [], sa_poll_pace = None, sa_poll_refusal_warned_at = None\<rparr>"

text \<open>A row of the \<open>metrics\<close> table: system, metric, value, time.\<close>

type_synonym metric_row = "string \<times> string \<times> f32 \<times> u64"

record round_app =
  ra_live :: "string \<rightharpoonup> system_applications"
  ra_metrics :: "metric_row list"

text \<open>How SQLite answers: whether the system's row exists, and whether the transaction (its start, an
  insertion or its commit) fails, which rolls it back.\<close>

record 'e round_db =
  db_exists :: "'e + bool"
  db_transaction :: "'e option"

definition db_store_round :: "'e round_db \<Rightarrow> metric_row list \<Rightarrow> string \<Rightarrow> (string \<times> f32) list \<Rightarrow> u64 \<Rightarrow> admission
    \<Rightarrow> ('e + round_stored) \<times> metric_row list \<times> source_pace option" where
  "db_store_round db metrics system_id points received_at decide =
     (case db_exists db of
        Inl e \<Rightarrow> (Inl e, metrics, None)
      | Inr False \<Rightarrow> (Inr SystemGone, metrics, None)
      | Inr True \<Rightarrow> (case decide of
            AdmitDuplicate \<Rightarrow> (Inr DuplicateRound, metrics, None)
          | AdmitTooSoon \<Rightarrow> (Inr RoundTooSoon, metrics, None)
          | Accept pace \<Rightarrow> (case db_transaction db of
                Some e \<Rightarrow> (Inl e, metrics, None)
              | None \<Rightarrow> (Inr Stored, metrics @ map (\<lambda>(metric, v). (system_id, metric, v, received_at)) points, Some pace))))"

record arrival =
  av_now :: instant
  av_received_at :: u64

record incoming =
  ic_id :: round_id
  ic_digest :: round_digest

definition decide_round :: "round_app \<Rightarrow> string \<Rightarrow> incoming \<Rightarrow> (system_applications option \<Rightarrow> source_pace) \<Rightarrow> instant \<Rightarrow> admission" where
  "decide_round app system_id i pace_of now =
     (let entry = ra_live app system_id;
          recent = (case entry of None \<Rightarrow> [] | Some entry \<Rightarrow> sa_recent entry)
      in admit_round recent (pace_of entry) (ic_id i) (ic_digest i) now)"

definition hold_round :: "round_app \<Rightarrow> string \<Rightarrow> incoming \<Rightarrow> held_round \<Rightarrow> (system_applications \<Rightarrow> system_applications) \<Rightarrow> round_app" where
  "hold_round app system_id i held keep =
     (let entry = (case ra_live app system_id of None \<Rightarrow> system_applications_default | Some entry \<Rightarrow> entry);
          entry = entry\<lparr>sa_recent := recent_remember (sa_recent entry) (ic_id i) (ic_digest i), sa_shown := Some held\<rparr>
      in app\<lparr>ra_live := (ra_live app)(system_id \<mapsto> keep entry)\<rparr>)"

definition store_one :: "(scrape_round \<Rightarrow> round_digest) \<Rightarrow> 'e round_db \<Rightarrow> round_app \<Rightarrow> string \<Rightarrow> scrape_round \<Rightarrow> arrival
    \<Rightarrow> (system_applications option \<Rightarrow> source_pace) \<Rightarrow> (system_applications \<Rightarrow> source_pace \<Rightarrow> system_applications)
    \<Rightarrow> ('e + round_stored) \<times> round_app \<times> source_pace option" where
  "store_one digest db app system_id rnd arr pace_of keep =
     (let i = \<lparr>ic_id = sr_id rnd, ic_digest = digest rnd\<rparr>;
          points = application_points rnd
      in case db_store_round db (ra_metrics app) system_id points (av_received_at arr)
                (decide_round app system_id i pace_of (av_now arr)) of
           (r, metrics, None) \<Rightarrow> (r, app\<lparr>ra_metrics := metrics\<rparr>, None)
         | (r, metrics, Some spent) \<Rightarrow>
             (r, hold_round (app\<lparr>ra_metrics := metrics\<rparr>) system_id i
                \<lparr>hr_round = rnd, hr_received_at = av_received_at arr\<rparr> (\<lambda>entry. keep entry spent), Some spent))"

definition store_round :: "(scrape_round \<Rightarrow> round_digest) \<Rightarrow> 'e round_db \<Rightarrow> round_app \<Rightarrow> string \<Rightarrow> scrape_round \<Rightarrow> source_pace \<Rightarrow> arrival
    \<Rightarrow> ('e + round_stored) \<times> source_pace \<times> round_app" where
  "store_round digest db app system_id rnd pace arr =
     (case store_one digest db app system_id rnd arr (\<lambda>_. pace) (\<lambda>entry _. entry) of
        (r, app, spent) \<Rightarrow> (r, case spent of None \<Rightarrow> pace | Some spent \<Rightarrow> spent, app))"

definition store_polled_round :: "(scrape_round \<Rightarrow> round_digest) \<Rightarrow> 'e round_db \<Rightarrow> round_app \<Rightarrow> string \<Rightarrow> scrape_round \<Rightarrow> arrival
    \<Rightarrow> ('e + round_stored) \<times> round_app" where
  "store_polled_round digest db app system_id rnd arr =
     (let fresh = source_pace_new (av_now arr)
      in case store_one digest db app system_id rnd arr
                (\<lambda>entry. case entry of None \<Rightarrow> fresh | Some entry \<Rightarrow> (case sa_poll_pace entry of None \<Rightarrow> fresh | Some p \<Rightarrow> p))
                (\<lambda>entry spent. entry\<lparr>sa_poll_pace := Some spent\<rparr>) of
           (r, app, _) \<Rightarrow> (r, app))"

section \<open>The names of points\<close>

lemma gauge_wire_name_inject: "gauge_wire_name a = gauge_wire_name b \<longleftrightarrow> a = b"
  by (cases a; cases b) (simp_all add: gauge_wire_name_def)

lemma gauge_wire_name_not_up: "gauge_wire_name g \<noteq> ''up''"
  by (cases g) (simp_all add: gauge_wire_name_def)

lemma gauges_from_wire_distinct: "distinct (map fst (gauges_from_wire raw))"
proof -
  have "om_valid (foldl (\<lambda>m (g, v). om_insert m g v) m xs)" if "om_valid m" for m and xs :: "(application_gauge \<times> f64) list"
    using that by (induction xs arbitrary: m) (auto simp: om_insert_valid)
  from this [OF om_valid_Nil] show ?thesis unfolding gauges_from_wire_def by (intro om_valid_distinct)
qed

lemma application_name_no_colon: "application_name_parse s = Some n \<Longrightarrow> CHR '':'' \<notin> set (app_name n)"
proof -
  assume parsed: "application_name_parse s = Some n"
  have "\<not> (is_ascii_alphanumeric (CHR '':'') \<or> CHR '':'' = CHR ''_'' \<or> CHR '':'' = CHR ''.'' \<or> CHR '':'' = CHR ''-'')"
    by (simp add: is_ascii_alphanumeric_def)
  moreover have "app_name n = s" "list_all (\<lambda>b. is_ascii_alphanumeric b \<or> b = CHR ''_'' \<or> b = CHR ''.'' \<or> b = CHR ''-'') s"
    using parsed by (auto simp: application_name_parse_def Let_def split: if_splits)
  ultimately show ?thesis unfolding list_all_iff by blast
qed

lemma split_at_first:
  assumes "c \<notin> set a" and "c \<notin> set b"
  shows "a @ c # x = b @ c # y \<longleftrightarrow> a = b \<and> x = y"
proof
  assume eq: "a @ c # x = b @ c # y"
  have "takeWhile (\<lambda>d. d \<noteq> c) (u @ c # v) = u" if "c \<notin> set u" for u v
    using that by (induction u) auto
  from this [OF assms(1), of x] this [OF assms(2), of y] have "a = b" using eq by simp
  with eq show "a = b \<and> x = y" by simp
qed simp

lemma all_inserted_iff: "all_inserted xs names \<longleftrightarrow> distinct xs \<and> set xs \<inter> names = {}"
  by (induction xs arbitrary: names) auto

text \<open>The points of one application, by name.\<close>

definition point_names :: "application_report \<Rightarrow> string list" where
  "point_names app = map (\<lambda>suffix. ''app:'' @ app_name (rp_name app) @ '':'' @ suffix) (map (gauge_wire_name \<circ> fst) (rp_gauges app) @ [''up''])"

lemma application_points_names: "map fst (application_points rnd) = concat (map point_names (sr_applications rnd))"
  unfolding application_points_def map_concat map_map
  by (intro arg_cong [where f = concat] map_cong refl) (simp add: point_names_def Let_def split_beta' comp_def)

lemma point_names_distinct:
  assumes "distinct (map fst (rp_gauges app))"
  shows "distinct (point_names app)"
proof -
  have "distinct (map (gauge_wire_name \<circ> fst) (rp_gauges app))"
    using assms unfolding map_map [symmetric] by (simp add: distinct_map inj_on_def gauge_wire_name_inject del: map_map)
  then have "distinct (map (gauge_wire_name \<circ> fst) (rp_gauges app) @ [''up''])"
    using gauge_wire_name_not_up by (auto simp del: map_map dest: sym)
  then show ?thesis unfolding point_names_def by (simp only: distinct_map inj_on_def) simp
qed

lemma point_names_disjoint:
  assumes "CHR '':'' \<notin> set (app_name (rp_name a))" and "CHR '':'' \<notin> set (app_name (rp_name b))" and "rp_name a \<noteq> rp_name b"
  shows "set (point_names a) \<inter> set (point_names b) = {}"
proof -
  have "app_name (rp_name a) \<noteq> app_name (rp_name b)" using assms(3) application_name.expand by blast
  then show ?thesis using split_at_first [OF assms(1,2)] split_at_first [OF assms(2,1)] by (auto simp: point_names_def)
qed

text \<open>No two points of a scrape round share a metric: under the names the hub parses and the gauges it
  keeps, every point a round adds goes to a series of its own.\<close>

theorem application_points_distinct:
  assumes "scrape_round_new i interval apps = Inr rnd"
    and "\<forall>app\<in>set apps. (\<exists>s. application_name_parse s = Some (rp_name app)) \<and> (\<exists>raw. rp_gauges app = gauges_from_wire raw)"
  shows "distinct (map fst (application_points rnd))"
proof -
  have apps: "sr_applications rnd = apps" and names: "distinct (map rp_name apps)"
    using assms(1) by (auto simp: scrape_round_new_def all_inserted_iff split: if_splits)
  have "distinct (concat (map point_names apps))"
    using names assms(2)
  proof (induction apps)
    case (Cons a apps)
    have colon: "CHR '':'' \<notin> set (app_name (rp_name b))" if "b \<in> set (a # apps)" for b
      using Cons.prems(2) that application_name_no_colon by blast
    have "distinct (map fst (rp_gauges a))" using Cons.prems(2) gauges_from_wire_distinct by auto
    then have "distinct (point_names a)" by (rule point_names_distinct)
    moreover have "set (point_names a) \<inter> set (point_names b) = {}" if "b \<in> set apps" for b
      using Cons.prems(1) that colon by (intro point_names_disjoint) auto
    ultimately show ?case using Cons by (auto simp: disjoint_iff)
  qed simp
  then show ?thesis by (simp add: application_points_names apps)
qed

theorem application_points_distinct_witness:
  "distinct (map fst (application_points \<lparr>sr_id = RoundId 7 1, sr_interval = ScrapeInterval 15,
     sr_applications = [\<lparr>rp_name = ApplicationName ''a'', rp_health = Up, rp_version = None,
         rp_gauges = gauges_from_wire [(''live_threads'', Fin 12)]\<rparr>,
       \<lparr>rp_name = ApplicationName ''b'', rp_health = Down, rp_version = None, rp_gauges = gauges_from_wire []\<rparr>]\<rparr>))"
proof -
  let ?apps = "[\<lparr>rp_name = ApplicationName ''a'', rp_health = Up, rp_version = None, rp_gauges = gauges_from_wire [(''live_threads'', Fin 12)]\<rparr>,
       \<lparr>rp_name = ApplicationName ''b'', rp_health = Down, rp_version = None, rp_gauges = gauges_from_wire []\<rparr>]"
  have parse: "application_name_parse ''a'' = Some (ApplicationName ''a'')" "application_name_parse ''b'' = Some (ApplicationName ''b'')"
    by (simp_all add: application_name_parse_def is_ascii_alphanumeric_def)
  have "scrape_round_new (RoundId 7 1) (ScrapeInterval 15) ?apps
      = Inr \<lparr>sr_id = RoundId 7 1, sr_interval = ScrapeInterval 15, sr_applications = ?apps\<rparr>"
    by (simp add: scrape_round_new_def MAX_APPLICATIONS_def)
  moreover have "\<forall>app\<in>set ?apps. (\<exists>s. application_name_parse s = Some (rp_name app)) \<and> (\<exists>raw. rp_gauges app = gauges_from_wire raw)"
    using parse by auto
  ultimately show ?thesis by (rule application_points_distinct)
qed

section \<open>The intake over its rounds\<close>

text \<open>Rounds arrive on push connections (under the connection's pace) and from the poller, for any
  system, while the database answers as it will.  The log is what was stored: system, round and time.\<close>

datatype 'e round_op = Pushed string scrape_round source_pace arrival "'e round_db" | Polled string scrape_round arrival "'e round_db"

type_synonym round_log = "(string \<times> scrape_round \<times> u64) list"

definition round_step :: "(scrape_round \<Rightarrow> round_digest) \<Rightarrow> round_log \<times> round_app \<Rightarrow> 'e round_op \<Rightarrow> round_log \<times> round_app" where
  "round_step digest s x = (case s of (logged, app) \<Rightarrow> (case x of
      Pushed sid rnd pace arr db \<Rightarrow> (case store_round digest db app sid rnd pace arr of
        (r, _, app) \<Rightarrow> (if r = Inr Stored then logged @ [(sid, rnd, av_received_at arr)] else logged, app))
    | Polled sid rnd arr db \<Rightarrow> (case store_polled_round digest db app sid rnd arr of
        (r, app) \<Rightarrow> (if r = Inr Stored then logged @ [(sid, rnd, av_received_at arr)] else logged, app))))"

definition rounds_run :: "(scrape_round \<Rightarrow> round_digest) \<Rightarrow> 'e round_op list \<Rightarrow> round_log \<times> round_app" where
  "rounds_run digest ops = foldl (round_step digest) ([], \<lparr>ra_live = (\<lambda>_. None), ra_metrics = []\<rparr>) ops"

definition recent_of :: "round_app \<Rightarrow> string \<Rightarrow> recent_rounds" where
  "recent_of app sid = (case ra_live app sid of None \<Rightarrow> [] | Some entry \<Rightarrow> sa_recent entry)"

definition round_key :: "(scrape_round \<Rightarrow> round_digest) \<Rightarrow> scrape_round \<Rightarrow> round_id \<times> round_digest" where
  "round_key digest rnd = (sr_id rnd, digest rnd)"

definition round_rows :: "string \<times> scrape_round \<times> u64 \<Rightarrow> metric_row list" where
  "round_rows = (\<lambda>(sid, rnd, t). map (\<lambda>(metric, v). (sid, metric, v, t)) (application_points rnd))"

definition last_n :: "nat \<Rightarrow> 'a list \<Rightarrow> 'a list" where
  "last_n n xs = drop (length xs - n) xs"

definition logged_keys :: "(scrape_round \<Rightarrow> round_digest) \<Rightarrow> round_log \<Rightarrow> string \<Rightarrow> (round_id \<times> round_digest) list" where
  "logged_keys digest logged sid = map (\<lambda>(_, rnd, _). round_key digest rnd) (filter (\<lambda>(s, _, _). s = sid) logged)"

lemma store_one_cases:
  assumes keep: "\<And>entry spent. sa_recent (keep entry spent) = sa_recent entry"
    and run: "store_one digest db app sid rnd arr pace_of keep = (r, app', spent)"
  shows "if r = Inr Stored
    then round_key digest rnd \<notin> set (recent_of app sid) \<and> ra_metrics app' = ra_metrics app @ round_rows (sid, rnd, av_received_at arr)
      \<and> (\<forall>s. recent_of app' s = (if s = sid then recent_remember (recent_of app sid) (sr_id rnd) (digest rnd) else recent_of app s))
    else app' = app"
proof -
  have key: "decide_round app sid \<lparr>ic_id = sr_id rnd, ic_digest = digest rnd\<rparr> pace_of now = Accept p \<Longrightarrow> round_key digest rnd \<notin> set (recent_of app sid)"
    for now p by (auto simp: decide_round_def admit_round_def Let_def recent_contains_def recent_of_def round_key_def split: if_splits option.splits)
  show ?thesis
    using run key keep
    by (auto simp: store_one_def db_store_round_def Let_def hold_round_def recent_of_def round_rows_def system_applications_default_def
        split: sum.splits bool.splits admission.splits option.splits)
qed

lemma remember_last_n: "recent_remember (last_n RECENT_ROUNDS logged) i d = last_n RECENT_ROUNDS (logged @ [(i, d)])"
proof (cases "length logged < 8")
  case False
  then have "Suc (length logged) - 8 = Suc (length logged - 8)" by simp
  then have "tl (drop (length logged - 8) logged) = drop (Suc (length logged) - 8) logged"
    by (simp only: drop_Suc tl_drop)
  with False show ?thesis by (simp add: recent_remember_def RECENT_ROUNDS_def last_n_def)
qed (simp add: recent_remember_def RECENT_ROUNDS_def last_n_def)

text \<open>What the log says of the state: the points stored, what is remembered, and that no round was
  stored while it was remembered.\<close>

definition intake_ok :: "(scrape_round \<Rightarrow> round_digest) \<Rightarrow> round_log \<times> round_app \<Rightarrow> bool" where
  "intake_ok digest s \<longleftrightarrow> (case s of (logged, app) \<Rightarrow> ra_metrics app = concat (map round_rows logged)
     \<and> (\<forall>sid. recent_of app sid = last_n RECENT_ROUNDS (logged_keys digest logged sid)
          \<and> (\<forall>k<length (logged_keys digest logged sid).
               logged_keys digest logged sid ! k \<notin> set (last_n RECENT_ROUNDS (take k (logged_keys digest logged sid))))))"

lemma logged_keys_snoc:
  "logged_keys digest (logged @ [(s, rnd, t)]) sid = logged_keys digest logged sid @ (if s = sid then [round_key digest rnd] else [])"
  by (simp add: logged_keys_def)

lemma intake_ok_store:
  assumes ok: "intake_ok digest (logged, app)"
    and keep: "\<And>entry spent. sa_recent (keep entry spent) = sa_recent entry"
    and run: "store_one digest db app sid rnd arr pace_of keep = (r, app', spent)"
  shows "intake_ok digest (if r = Inr Stored then logged @ [(sid, rnd, av_received_at arr)] else logged, app')"
proof (cases "r = Inr Stored")
  case True
  let ?logged = "logged @ [(sid, rnd, av_received_at arr)]"
  note step = store_one_cases [OF keep run, unfolded True, simplified]
  have recent: "recent_of app s = last_n RECENT_ROUNDS (logged_keys digest logged s)" for s using ok by (simp add: intake_ok_def)
  have old: "k < length (logged_keys digest logged s)
      \<Longrightarrow> logged_keys digest logged s ! k \<notin> set (last_n RECENT_ROUNDS (take k (logged_keys digest logged s)))" for s k
    using ok by (simp add: intake_ok_def)
  have "recent_of app' s = last_n RECENT_ROUNDS (logged_keys digest ?logged s)" for s
    using step recent by (simp add: logged_keys_snoc round_key_def remember_last_n)
  moreover have "logged_keys digest ?logged s ! k \<notin> set (last_n RECENT_ROUNDS (take k (logged_keys digest ?logged s)))"
    if "k < length (logged_keys digest ?logged s)" for s k
  proof (cases "k < length (logged_keys digest logged s)")
    case True
    then show ?thesis using old [OF True] by (simp add: logged_keys_snoc nth_append)
  next
    case False
    with that have "s = sid" "k = length (logged_keys digest logged s)" by (auto simp: logged_keys_snoc split: if_splits)
    then show ?thesis using step recent [of sid] by (simp add: logged_keys_snoc)
  qed
  moreover have "ra_metrics app' = concat (map round_rows ?logged)" using step ok by (simp add: intake_ok_def)
  ultimately show ?thesis using True by (simp add: intake_ok_def)
next
  case False
  with store_one_cases [OF keep run] ok show ?thesis by simp
qed

lemma rounds_run_ok: "intake_ok digest (rounds_run digest ops)"
proof (induction ops rule: rev_induct)
  case Nil
  show ?case by (simp add: rounds_run_def intake_ok_def recent_of_def logged_keys_def last_n_def)
next
  case (snoc x ops)
  obtain logged app where s: "rounds_run digest ops = (logged, app)" by fastforce
  have run: "rounds_run digest (ops @ [x]) = round_step digest (logged, app) x" using s by (simp add: rounds_run_def)
  have ok: "intake_ok digest (logged, app)" using snoc s by simp
  show ?case
  proof (cases x)
    case (Pushed sid rnd pace arr db)
    obtain r app' spent where one: "store_one digest db app sid rnd arr (\<lambda>_. pace) (\<lambda>entry _. entry) = (r, app', spent)" by (metis prod_cases3)
    then show ?thesis unfolding run using intake_ok_store [OF ok _ one] by (simp add: round_step_def Pushed store_round_def)
  next
    case (Polled sid rnd arr db)
    let ?pace = "\<lambda>entry. case entry of None \<Rightarrow> source_pace_new (av_now arr)
      | Some entry \<Rightarrow> (case sa_poll_pace entry of None \<Rightarrow> source_pace_new (av_now arr) | Some p \<Rightarrow> p)"
    obtain r app' spent where one: "store_one digest db app sid rnd arr ?pace (\<lambda>entry spent. entry\<lparr>sa_poll_pace := Some spent\<rparr>) = (r, app', spent)"
      by (metis prod_cases3)
    then show ?thesis unfolding run using intake_ok_store [OF ok _ one] by (simp add: round_step_def Polled store_polled_round_def Let_def)
  qed
qed

text \<open>C33. A round is stored whole, once: whatever arrives, from whichever source and however the database
  answers, the metrics table holds exactly the points of the rounds stored, in order, and no round is
  stored again while it is among the eight the system stored last.\<close>

theorem rounds_stored_once:
  "case rounds_run digest ops of (logged, app) \<Rightarrow> ra_metrics app = concat (map round_rows logged)
     \<and> (\<forall>sid. \<forall>j k. j < k \<and> k < length (logged_keys digest logged sid) \<and> k \<le> j + 8
          \<longrightarrow> logged_keys digest logged sid ! j \<noteq> logged_keys digest logged sid ! k)"
proof -
  obtain logged app where s: "rounds_run digest ops = (logged, app)" by fastforce
  have ok: "intake_ok digest (logged, app)" using rounds_run_ok [of digest ops] s by simp
  have "logged_keys digest logged sid ! j \<noteq> logged_keys digest logged sid ! k"
    if jk: "j < k" "k < length (logged_keys digest logged sid)" "k \<le> j + 8" for sid j k
  proof -
    let ?ks = "logged_keys digest logged sid"
    have "?ks ! k \<notin> set (last_n 8 (take k ?ks))" using ok jk(2) by (simp add: intake_ok_def RECENT_ROUNDS_def)
    moreover have "last_n 8 (take k ?ks) ! (j - (k - 8)) = ?ks ! j" "j - (k - 8) < length (last_n 8 (take k ?ks))"
      using jk by (simp_all add: last_n_def nth_drop)
    ultimately show ?thesis by (metis nth_mem)
  qed
  with ok show ?thesis by (simp add: s intake_ok_def)
qed

theorem rounds_stored_once_witness:
  "let rnd = (\<lambda>n. \<lparr>sr_id = RoundId 7 n, sr_interval = ScrapeInterval 15, sr_applications = []\<rparr>);
       db = \<lparr>db_exists = Inr True, db_transaction = (None :: nat option)\<rparr>;
       arr = \<lparr>av_now = 5, av_received_at = 100\<rparr>;
       keys = logged_keys (\<lambda>_. RoundDigest 3) (fst (rounds_run (\<lambda>_. RoundDigest 3)
          [Polled ''s'' (rnd 1) arr db, Polled ''s'' (rnd 1) arr db, Polled ''s'' (rnd 2) arr db])) ''s''
   in length keys = 2 \<and> keys ! 0 \<noteq> keys ! 1"
proof -
  define rnd where "rnd = (\<lambda>n. \<lparr>sr_id = RoundId 7 n, sr_interval = ScrapeInterval 15, sr_applications = []\<rparr>)"
  define db where "db = \<lparr>db_exists = Inr True, db_transaction = (None :: nat option)\<rparr>"
  define arr where "arr = \<lparr>av_now = 5, av_received_at = 100\<rparr>"
  let ?ops = "[Polled ''s'' (rnd 1) arr db, Polled ''s'' (rnd 1) arr db, Polled ''s'' (rnd 2) arr db]"
  let ?keys = "logged_keys (\<lambda>_. RoundDigest 3) (fst (rounds_run (\<lambda>_. RoundDigest 3) ?ops)) ''s''"
  note run = rounds_run_def round_step_def store_polled_round_def store_one_def db_store_round_def decide_round_def admit_round_def
    recent_contains_def source_pace_new_def source_pace_take_def bucket_take_def bucket_refill_def bucket_full_def PACE_def refill_new_def
    PACE_BURST_def MIN_ROUND_SPACING_def hold_round_def recent_remember_def RECENT_ROUNDS_def system_applications_default_def
    sat_sub_def checked_sub_def logged_keys_def Let_def
  have two: "length ?keys = 2" by (simp add: run rnd_def db_def arr_def)
  have "?keys ! 0 \<noteq> ?keys ! 1"
    using rounds_stored_once [of "\<lambda>_. RoundDigest 3" ?ops] two by (auto simp: split_beta)
  with two show ?thesis by (simp add: Let_def rnd_def db_def arr_def)
qed

end
