(* ===== verification/Presence.thy ===== *)
theory Presence
  imports Registry Token_Bucket Applications
begin

text \<open>
  Push connections: which one is current for a system (\<open>system-hub/src/presence.rs\<close>), the disconnection
  sweep (\<open>system-hub/src/push/sweep.rs\<close>) and the state a connection keeps between messages
  (\<open>system-hub/src/push/connection.rs\<close>).  A connection's task is identified by the allocation its lease
  points to; which tasks still run (\<open>strong_count() > 0\<close>) is the set \<open>running\<close>.  The hub's uptime is in
  nanoseconds.
\<close>

section \<open>Presence\<close>

definition RECONNECT_GRACE :: nanos where
  "RECONNECT_GRACE = 120 * 10 ^ 9"

datatype lease = Lease (lease_number: u64) (lease_task: nat)

record current =
  cu_number :: u64
  cu_task :: nat
  cu_claimed :: bool

record push_presence =
  pp_next :: u64
  pp_current :: "bytes \<rightharpoonup> current"

definition presence_default :: push_presence where
  "presence_default = \<lparr>pp_next = 0, pp_current = (\<lambda>_. None)\<rparr>"

datatype ending = EndingCurrent | NotCurrent

datatype offline_reason = NotConnected | InvalidSystemId

datatype sweep = Leave | MarkOffline offline_reason

datatype connection = NoConnection | Claimed | Unclaimed

definition reason_last_error :: "offline_reason \<Rightarrow> bytes" where
  "reason_last_error r = (case r of NotConnected \<Rightarrow> str ''push disconnected'' | InvalidSystemId \<Rightarrow> str ''invalid system id'')"

definition current_is_live :: "nat set \<Rightarrow> current \<Rightarrow> bool" where
  "current_is_live running c \<longleftrightarrow> cu_task c \<in> running"

text \<open>\<open>Arc::new\<close> allocates \<open>task\<close>.\<close>

definition presence_accept :: "nat set \<Rightarrow> nat \<Rightarrow> push_presence \<Rightarrow> system_id \<Rightarrow> lease \<times> push_presence" where
  "presence_accept running task p i =
     (let number = pp_next p;
          p = p\<lparr>pp_next := pp_next p + 1\<rparr>;
          taken = (case pp_current p (id_str i) of None \<Rightarrow> False | Some c \<Rightarrow> current_is_live running c)
      in (Lease number task,
          if \<not> taken then p\<lparr>pp_current := (pp_current p)(id_str i \<mapsto> \<lparr>cu_number = number, cu_task = task, cu_claimed = False\<rparr>)\<rparr> else p))"

definition presence_claim :: "push_presence \<Rightarrow> system_id \<Rightarrow> lease \<Rightarrow> push_presence" where
  "presence_claim p i l = p\<lparr>pp_current := (pp_current p)(id_str i \<mapsto> \<lparr>cu_number = lease_number l, cu_task = lease_task l, cu_claimed = True\<rparr>)\<rparr>"

definition presence_end :: "push_presence \<Rightarrow> system_id \<Rightarrow> lease \<Rightarrow> ending \<times> push_presence" where
  "presence_end p i l =
     (let is_current = (case pp_current p (id_str i) of None \<Rightarrow> False | Some c \<Rightarrow> cu_number c = lease_number l)
      in if is_current then (EndingCurrent, p\<lparr>pp_current := (pp_current p)(id_str i := None)\<rparr>) else (NotCurrent, p))"

definition connection_of :: "nat set \<Rightarrow> push_presence \<Rightarrow> bytes \<Rightarrow> connection \<times> push_presence" where
  "connection_of running p i = (case pp_current p i of
      None \<Rightarrow> (NoConnection, p)
    | Some c \<Rightarrow> if \<not> current_is_live running c then (NoConnection, p\<lparr>pp_current := (pp_current p)(i := None)\<rparr>)
        else if cu_claimed c then (Claimed, p) else (Unclaimed, p))"

definition presence_sweep :: "nat set \<Rightarrow> push_presence \<Rightarrow> bytes \<Rightarrow> system_status \<Rightarrow> nanos \<Rightarrow> sweep \<times> push_presence" where
  "presence_sweep running p i status up_for =
     (let (connection, p) = connection_of running p i;
          disconnected = (case (status, connection) of
              (Offline, _) \<Rightarrow> False
            | (Online, Claimed) \<Rightarrow> False
            | (Online, Unclaimed) \<Rightarrow> True
            | (Online, NoConnection) \<Rightarrow> True
            | (UnknownStatus, NoConnection) \<Rightarrow> True
            | (UnknownStatus, _) \<Rightarrow> False)
      in if \<not> disconnected \<or> up_for < RECONNECT_GRACE then (Leave, p)
         else (case system_id_try_from i of Inr _ \<Rightarrow> (MarkOffline NotConnected, p) | Inl _ \<Rightarrow> (MarkOffline InvalidSystemId, p)))"

section \<open>The sweep\<close>

definition SWEEP_PERIOD :: nanos where
  "SWEEP_PERIOD = 30 * 10 ^ 9"

record sweep_pass =
  sp_marked :: nat
  sp_failed :: nat
  sp_skipped :: nat

definition is_push :: "system_source \<Rightarrow> bool" where
  "is_push s = (case s of Push \<Rightarrow> True | Poll \<Rightarrow> False | Mail \<Rightarrow> False)"

definition mark_offline :: "'e option \<Rightarrow> systems_table \<Rightarrow> source_row \<Rightarrow> offline_reason \<Rightarrow> ('e + unit) \<times> systems_table" where
  "mark_offline fails t row reason =
     update_system_status fails t (sw_id row) Offline [] (Some (reason_last_error reason))"

definition pass_note :: "sweep_pass \<Rightarrow> 'e + unit \<Rightarrow> sweep_pass" where
  "pass_note pass marked = (case marked of Inr _ \<Rightarrow> pass\<lparr>sp_marked := sp_marked pass + 1\<rparr> | Inl _ \<Rightarrow> pass\<lparr>sp_failed := sp_failed pass + 1\<rparr>)"

text \<open>One row of a pass; \<open>fails\<close> says how SQLite answers the marking of each system.\<close>

definition sweep_row :: "nat set \<Rightarrow> nanos \<Rightarrow> (bytes \<Rightarrow> 'e option) \<Rightarrow> sweep_pass \<times> push_presence \<times> systems_table \<Rightarrow> source_row
    \<Rightarrow> sweep_pass \<times> push_presence \<times> systems_table" where
  "sweep_row running up_for fails = (\<lambda>(pass, p, t) row.
     case presence_sweep running p (sw_id row) (sw_status row) up_for of
       (Leave, p) \<Rightarrow> (pass, p, t)
     | (MarkOffline reason, p) \<Rightarrow> (case mark_offline (fails (sw_id row)) t row reason of (r, t) \<Rightarrow> (pass_note pass r, p, t)))"

definition sweep_pass_run :: "nat set \<Rightarrow> nanos \<Rightarrow> (bytes \<Rightarrow> 'e option) \<Rightarrow> 'e + source_row list \<times> nat \<Rightarrow> push_presence \<Rightarrow> systems_table
    \<Rightarrow> ('e + sweep_pass) \<times> push_presence \<times> systems_table" where
  "sweep_pass_run running up_for fails read p t = (case read of
      Inl e \<Rightarrow> (Inl e, p, t)
    | Inr (rows, skipped) \<Rightarrow>
        (case foldl (sweep_row running up_for fails) (\<lparr>sp_marked = 0, sp_failed = 0, sp_skipped = skipped\<rparr>, p, t)
                (filter (\<lambda>row. is_push (sw_source row)) rows) of
           (pass, p, t) \<Rightarrow> (Inr pass, p, t)))"

section \<open>One connection's state\<close>

datatype tally = Tally (tally_count: u64)

datatype occurrence = First | Repeat

definition tally_note :: "tally \<Rightarrow> occurrence \<times> tally" where
  "tally_note t = (let n = tally_count t + 1 in (if n = 1 then First else Repeat, Tally n))"

definition DECODE_BURST :: u8 where
  "DECODE_BURST = 3"

datatype decode_budget = DecodeBudget (budget_bucket: token_bucket)

datatype out_of_budget = OutOfBudget

definition decode_budget_new :: "nanos \<Rightarrow> instant \<Rightarrow> decode_budget" where
  "decode_budget_new refill now = DecodeBudget (bucket_full (refill_new DECODE_BURST refill) now)"

definition budget_spend :: "decode_budget \<Rightarrow> instant \<Rightarrow> out_of_budget + decode_budget" where
  "budget_spend b now = map_err (\<lambda>_. OutOfBudget) (rbind (bucket_take (budget_bucket b) now) (\<lambda>b. Inr (DecodeBudget b)))"

record connection_state =
  cs_budget :: decode_budget
  cs_pace :: source_pace
  cs_dropped_messages :: tally
  cs_refused_application_frames :: tally
  cs_refused_snapshot_frames :: tally
  cs_store_errors :: tally
  cs_undecodable_frames :: tally

definition connection_state_new :: "instant \<Rightarrow> nanos \<Rightarrow> connection_state" where
  "connection_state_new now decode_refill = \<lparr>cs_budget = decode_budget_new decode_refill now, cs_pace = source_pace_new now,
     cs_dropped_messages = Tally 0, cs_refused_application_frames = Tally 0, cs_refused_snapshot_frames = Tally 0,
     cs_store_errors = Tally 0, cs_undecodable_frames = Tally 0\<rparr>"

definition spend_decode_budget :: "connection_state \<Rightarrow> instant \<Rightarrow> (out_of_budget + unit) \<times> connection_state" where
  "spend_decode_budget c now = (case budget_spend (cs_budget c) now of
      Inr b \<Rightarrow> (Inr (), c\<lparr>cs_budget := b\<rparr>)
    | Inl _ \<Rightarrow> (Inl OutOfBudget, c\<lparr>cs_dropped_messages := snd (tally_note (cs_dropped_messages c))\<rparr>))"

section \<open>Connections as a state machine\<close>

text \<open>The hub's connections: the presence, the tasks that run, and every lease handed out with its system.
  A claim may come from work still in flight after its task is gone; a task may end in a panic,
  without the call to \<open>end\<close>.\<close>

record hub_connections =
  hc_presence :: push_presence
  hc_running :: "nat set"
  hc_leases :: "(bytes \<times> lease) list"

inductive presence_step :: "hub_connections \<Rightarrow> hub_connections \<Rightarrow> bool" where
  accepted: "presence_accept (hc_running w) (length (hc_leases w)) (hc_presence w) i = (l, p)
    \<Longrightarrow> presence_step w (w\<lparr>hc_presence := p, hc_running := insert (lease_task l) (hc_running w), hc_leases := hc_leases w @ [(id_str i, l)]\<rparr>)"
| claimed: "(id_str i, l) \<in> set (hc_leases w) \<Longrightarrow> presence_step w (w\<lparr>hc_presence := presence_claim (hc_presence w) i l\<rparr>)"
| ended: "(id_str i, l) \<in> set (hc_leases w) \<Longrightarrow> lease_task l \<in> hc_running w \<Longrightarrow> presence_end (hc_presence w) i l = (e, p)
    \<Longrightarrow> presence_step w (w\<lparr>hc_presence := p, hc_running := hc_running w - {lease_task l}\<rparr>)"
| panicked: "presence_step w (w\<lparr>hc_running := hc_running w - {task}\<rparr>)"
| swept: "presence_sweep (hc_running w) (hc_presence w) i status up_for = (s, p) \<Longrightarrow> presence_step w (w\<lparr>hc_presence := p\<rparr>)"

inductive presence_reachable :: "hub_connections \<Rightarrow> bool" where
  start: "presence_reachable \<lparr>hc_presence = presence_default, hc_running = {}, hc_leases = []\<rparr>"
| step: "presence_reachable w \<Longrightarrow> presence_step w w' \<Longrightarrow> presence_reachable w'"

definition presence_ok :: "hub_connections \<Rightarrow> bool" where
  "presence_ok w \<longleftrightarrow> (\<forall>k<length (hc_leases w). snd (hc_leases w ! k) = Lease (of_nat k) k)
     \<and> pp_next (hc_presence w) = of_nat (length (hc_leases w))
     \<and> (\<forall>i c. pp_current (hc_presence w) i = Some c \<longrightarrow> (i, Lease (cu_number c) (cu_task c)) \<in> set (hc_leases w))
     \<and> (\<forall>k\<in>hc_running w. k < length (hc_leases w))"

lemma presence_sweep_current:
  "presence_sweep running p i status up_for = (s, p') \<Longrightarrow>
     p' = p\<lparr>pp_current := (pp_current p)(i := Option.bind (pp_current p i) (\<lambda>c. if cu_task c \<in> running then Some c else None))\<rparr>"
proof -
  assume "presence_sweep running p i status up_for = (s, p')"
  then have "p' = snd (connection_of running p i)"
    by (auto simp: presence_sweep_def Let_def split_beta split: if_splits sum.splits)
  moreover have "(pp_current p)(i := pp_current p i) = pp_current p" by simp
  ultimately show ?thesis
    by (cases "pp_current p i") (auto simp: connection_of_def current_is_live_def fun_upd_idem)
qed

lemma presence_step_ok: "presence_step w w' \<Longrightarrow> presence_ok w \<Longrightarrow> presence_ok w'"
proof (induction rule: presence_step.induct)
  case (accepted w i l p)
  have p: "l = Lease (pp_next (hc_presence w)) (length (hc_leases w))" "pp_next p = pp_next (hc_presence w) + 1"
    "\<And>j c. pp_current p j = Some c \<Longrightarrow> pp_current (hc_presence w) j = Some c \<or> j = id_str i \<and> Lease (cu_number c) (cu_task c) = l"
    using accepted.hyps by (auto simp: presence_accept_def Let_def split: if_splits)
  have "(j, Lease (cu_number c) (cu_task c)) \<in> set (hc_leases w @ [(id_str i, l)])" if "pp_current p j = Some c" for j c
    using p(3) [OF that] accepted.prems by (auto simp: presence_ok_def)
  then show ?case using accepted.prems p(1,2) by (auto simp: presence_ok_def nth_append less_Suc_eq add.commute)
next
  case (claimed i l w)
  then show ?case by (cases l) (auto simp: presence_ok_def presence_claim_def split: if_splits)
next
  case (ended i l w e p)
  then have "pp_next p = pp_next (hc_presence w)" "\<And>j c. pp_current p j = Some c \<Longrightarrow> pp_current (hc_presence w) j = Some c"
    by (auto simp: presence_end_def Let_def split: if_splits)
  with ended show ?case by (auto simp: presence_ok_def)
next
  case (swept w i status up_for s p)
  then show ?case by (auto simp: presence_ok_def bind_eq_Some_conv dest!: presence_sweep_current split: if_splits)
qed (auto simp: presence_ok_def)

lemma presence_reachable_ok: "presence_reachable w \<Longrightarrow> presence_ok w"
proof (induction rule: presence_reachable.induct)
  case start
  show ?case by (simp add: presence_ok_def presence_default_def)
qed (rule presence_step_ok)

text \<open>Short of \<open>2 ^ 64\<close> connections, a number stands for one task.\<close>

lemma number_task:
  assumes "presence_ok w" and "length (hc_leases w) \<le> 2 ^ 64" and "(i, l) \<in> set (hc_leases w)" and "(j, l') \<in> set (hc_leases w)"
  shows "lease_number l = lease_number l' \<longleftrightarrow> lease_task l = lease_task l'"
proof -
  obtain a b where ab: "a < length (hc_leases w)" "b < length (hc_leases w)" "hc_leases w ! a = (i, l)" "hc_leases w ! b = (j, l')"
    using assms(3,4) by (metis in_set_conv_nth)
  then have l: "l = Lease (of_nat a) a" "l' = Lease (of_nat b) b" using assms(1) by (auto simp: presence_ok_def)
  have "a < 2 ^ LENGTH(64)" "b < 2 ^ LENGTH(64)" using ab(1,2) assms(2) by simp_all
  then have "unat (of_nat a :: u64) = a" "unat (of_nat b :: u64) = b" by (simp_all add: unat_of_nat_small)
  then show ?thesis using l by (metis lease.sel)
qed

text \<open>C34. Only the current connection's end takes its system down: after any history of handshakes, claims,
  ends, panics and sweeps (short of \<open>2 ^ 64\<close> connections), a connection's end is reported current if and
  only if the system's current connection is that very task; afterwards it is not, and no other
  system is touched.\<close>

theorem presence_end_exact:
  assumes "presence_reachable w" and "length (hc_leases w) \<le> 2 ^ 64" and "(id_str i, l) \<in> set (hc_leases w)"
  shows "case presence_end (hc_presence w) i l of (e, p) \<Rightarrow>
      (e = EndingCurrent \<longleftrightarrow> map_option cu_task (pp_current (hc_presence w) (id_str i)) = Some (lease_task l))
      \<and> map_option cu_task (pp_current p (id_str i)) \<noteq> Some (lease_task l)
      \<and> (\<forall>j. j \<noteq> id_str i \<longrightarrow> pp_current p j = pp_current (hc_presence w) j)"
proof -
  have ok: "presence_ok w" using assms(1) by (rule presence_reachable_ok)
  have "cu_number c = lease_number l \<longleftrightarrow> cu_task c = lease_task l" if "pp_current (hc_presence w) (id_str i) = Some c" for c
    using number_task [OF ok assms(2) _ assms(3), of "id_str i" "Lease (cu_number c) (cu_task c)"] ok that by (simp add: presence_ok_def)
  then show ?thesis by (cases "pp_current (hc_presence w) (id_str i)") (auto simp: presence_end_def Let_def)
qed

theorem presence_end_exact_witness:
  "fst (presence_end (presence_claim (snd (presence_accept {} 0 presence_default (SystemId [97]))) (SystemId [97]) (Lease 0 0)) (SystemId [97]) (Lease 0 0))
     = EndingCurrent"
proof -
  define w where "w = \<lparr>hc_presence = presence_default, hc_running = {}, hc_leases = []\<rparr>"
  obtain l p where lp: "presence_accept {} 0 presence_default (SystemId [97]) = (l, p)" by fastforce
  then have l: "l = Lease 0 0" by (simp add: presence_accept_def presence_default_def Let_def)
  let ?w1 = "w\<lparr>hc_presence := p, hc_running := insert (lease_task l) (hc_running w), hc_leases := hc_leases w @ [(id_str (SystemId [97]), l)]\<rparr>"
  let ?w2 = "?w1\<lparr>hc_presence := presence_claim (hc_presence ?w1) (SystemId [97]) l\<rparr>"
  have "presence_reachable w" unfolding w_def by (rule start)
  moreover have "presence_step w ?w1" by (rule accepted) (use lp in \<open>simp add: w_def\<close>)
  moreover have "presence_step ?w1 ?w2" by (rule claimed) (simp add: w_def)
  ultimately have "presence_reachable ?w2" by (meson step)
  then show ?thesis
    using presence_end_exact [of ?w2 "SystemId [97]" l] lp l by (simp add: w_def presence_claim_def split_beta)
qed

section \<open>What a sweep marks\<close>

text \<open>A system is overdue when the hub is past the grace and it has no live current connection, or an
  online one's never claimed.\<close>

definition overdue :: "nat set \<Rightarrow> push_presence \<Rightarrow> nanos \<Rightarrow> source_row \<Rightarrow> bool" where
  "overdue running p up_for row \<longleftrightarrow> RECONNECT_GRACE \<le> up_for \<and> (case sw_status row of
      Offline \<Rightarrow> False
    | Online \<Rightarrow> \<not> (\<exists>c. pp_current p (sw_id row) = Some c \<and> cu_task c \<in> running \<and> cu_claimed c)
    | UnknownStatus \<Rightarrow> \<not> (\<exists>c. pp_current p (sw_id row) = Some c \<and> cu_task c \<in> running))"

definition offline_row :: "bytes \<Rightarrow> system_info \<Rightarrow> system_info" where
  "offline_row i s = s\<lparr>si_status := Offline, si_last_seen := [],
     si_last_error := Some (str (if is_ok (system_id_try_from i) then ''push disconnected'' else ''invalid system id''))\<rparr>"

lemma presence_sweep_decides:
  "fst (presence_sweep running p (sw_id row) (sw_status row) up_for) = (if overdue running p up_for row
     then MarkOffline (if is_ok (system_id_try_from (sw_id row)) then NotConnected else InvalidSystemId) else Leave)"
  by (auto simp: presence_sweep_def connection_of_def current_is_live_def overdue_def Let_def
      split: option.split system_status.split sum.split if_splits)

lemma sweep_row_run:
  assumes "\<And>i. fails i = None"
  shows "sweep_row running up_for fails (pass, p, t) row
    = (if overdue running p up_for row then pass\<lparr>sp_marked := sp_marked pass + 1\<rparr> else pass,
       snd (presence_sweep running p (sw_id row) (sw_status row) up_for),
       if overdue running p up_for row then t(sw_id row := map_option (offline_row (sw_id row)) (t (sw_id row))) else t)"
proof -
  obtain s p' where run: "presence_sweep running p (sw_id row) (sw_status row) up_for = (s, p')" by fastforce
  then have s: "s = (if overdue running p up_for row
     then MarkOffline (if is_ok (system_id_try_from (sw_id row)) then NotConnected else InvalidSystemId) else Leave)"
    using presence_sweep_decides [of running p row up_for] by simp
  show ?thesis
    using assms
    by (simp add: sweep_row_def run s mark_offline_def update_system_status_def update_row_def pass_note_def reason_last_error_def
        offline_row_def [abs_def] if_distrib [of str])
qed

lemma sweep_keeps_others:
  assumes "presence_sweep running p i status up_for = (s, p')" and "sw_id row \<noteq> i"
  shows "overdue running p' up_for row = overdue running p up_for row"
proof -
  have "pp_current p' (sw_id row) = pp_current p (sw_id row)" using presence_sweep_current [OF assms(1)] assms(2) by simp
  then show ?thesis by (simp only: overdue_def)
qed

lemma sweep_fold:
  assumes "\<And>i. fails i = None" and "distinct (map sw_id rows)"
    and "foldl (sweep_row running up_for fails) (pass, p, t) rows = (pass', p', t')"
  shows "sp_marked pass' = sp_marked pass + length (filter (overdue running p up_for) rows)
    \<and> sp_failed pass' = sp_failed pass \<and> sp_skipped pass' = sp_skipped pass
    \<and> t' = (\<lambda>i. if \<exists>row\<in>set rows. sw_id row = i \<and> overdue running p up_for row then map_option (offline_row i) (t i) else t i)"
  using assms(2,3)
proof (induction rows arbitrary: pass p t)
  case (Cons row rows)
  obtain s p1 where sw: "presence_sweep running p (sw_id row) (sw_status row) up_for = (s, p1)" by fastforce
  define pass1 where "pass1 = (if overdue running p up_for row then pass\<lparr>sp_marked := sp_marked pass + 1\<rparr> else pass)"
  define t1 where "t1 = (if overdue running p up_for row then t(sw_id row := map_option (offline_row (sw_id row)) (t (sw_id row))) else t)"
  have "sweep_row running up_for fails (pass, p, t) row = (pass1, p1, t1)"
    unfolding sweep_row_run [OF assms(1)] by (simp add: sw pass1_def t1_def)
  then have rest: "foldl (sweep_row running up_for fails) (pass1, p1, t1) rows = (pass', p', t')" using Cons.prems(2) by simp
  have other: "overdue running p1 up_for r = overdue running p up_for r" if "r \<in> set rows" for r
    using sweep_keeps_others [OF sw, of r] Cons.prems(1) that by (metis distinct.simps(2) imageI list.map(2) list.set_map)
  have filt: "filter (overdue running p1 up_for) rows = filter (overdue running p up_for) rows" using other by (intro filter_cong) auto
  have ex: "(\<exists>r\<in>set rows. sw_id r = i \<and> overdue running p1 up_for r) \<longleftrightarrow> (\<exists>r\<in>set rows. sw_id r = i \<and> overdue running p up_for r)" for i
    using other by blast
  have new: "\<not> (\<exists>r\<in>set rows. sw_id r = sw_id row \<and> overdue running p up_for r)" using Cons.prems(1) by (metis distinct.simps(2) imageI list.map(2) list.set_map)
  have IH: "sp_marked pass' = sp_marked pass1 + length (filter (overdue running p up_for) rows)
    \<and> sp_failed pass' = sp_failed pass1 \<and> sp_skipped pass' = sp_skipped pass1
    \<and> t' = (\<lambda>i. if \<exists>row\<in>set rows. sw_id row = i \<and> overdue running p up_for row then map_option (offline_row i) (t1 i) else t1 i)"
    using Cons.IH [OF _ rest] Cons.prems(1) filt ex by simp
  show ?case
  proof (cases "overdue running p up_for row")
    case True
    then have "t1 = t(sw_id row := map_option (offline_row (sw_id row)) (t (sw_id row)))" "sp_marked pass1 = sp_marked pass + 1"
      "sp_failed pass1 = sp_failed pass" "sp_skipped pass1 = sp_skipped pass" by (simp_all add: t1_def pass1_def)
    with IH True new show ?thesis by (auto simp: fun_eq_iff)
  next
    case False
    then have "t1 = t" "pass1 = pass" by (simp_all add: t1_def pass1_def)
    with IH False show ?thesis by auto
  qed
qed simp

text \<open>C35. A sweep marks exactly the systems that are gone: of the push systems it reads, when its writes
  succeed, it marks offline those that are overdue, with the reason as their error, touches no other
  row (a polled or mail system never), and counts what it did.\<close>

theorem sweep_pass_exact:
  assumes "\<forall>i. fails i = None" and "distinct (map sw_id rows)"
  shows "case sweep_pass_run running up_for fails (Inr (rows, skipped)) p t of (r, _, t') \<Rightarrow>
      r = Inr \<lparr>sp_marked = length (filter (\<lambda>row. is_push (sw_source row) \<and> overdue running p up_for row) rows), sp_failed = 0, sp_skipped = skipped\<rparr>
      \<and> (\<forall>i. t' i = (if \<exists>row\<in>set rows. sw_id row = i \<and> sw_source row = Push \<and> overdue running p up_for row
            then map_option (offline_row i) (t i) else t i))"
proof -
  let ?rows = "filter (\<lambda>row. is_push (sw_source row)) rows"
  obtain pass p' t' where fold: "foldl (sweep_row running up_for fails) (\<lparr>sp_marked = 0, sp_failed = 0, sp_skipped = skipped\<rparr>, p, t) ?rows = (pass, p', t')"
    by (metis prod_cases3)
  have push: "is_push s \<longleftrightarrow> s = Push" for s by (cases s) (simp_all add: is_push_def)
  have "distinct (map sw_id ?rows)" using assms(2) by (simp add: distinct_map_filter)
  note facts = sweep_fold [OF _ this fold]
  have "sp_marked pass = length (filter (overdue running p up_for) ?rows)" "sp_failed pass = 0" "sp_skipped pass = skipped"
    and t': "t' = (\<lambda>i. if \<exists>row\<in>set ?rows. sw_id row = i \<and> overdue running p up_for row then map_option (offline_row i) (t i) else t i)"
    using facts assms(1) by auto
  then have "pass = \<lparr>sp_marked = length (filter (\<lambda>row. is_push (sw_source row) \<and> overdue running p up_for row) rows), sp_failed = 0, sp_skipped = skipped\<rparr>"
    by (simp add: filter_filter conj_commute)
  moreover have "(\<exists>row\<in>set ?rows. sw_id row = i \<and> overdue running p up_for row)
      \<longleftrightarrow> (\<exists>row\<in>set rows. sw_id row = i \<and> sw_source row = Push \<and> overdue running p up_for row)" for i
    by (auto simp: push)
  ultimately show ?thesis using t' by (simp add: sweep_pass_run_def fold)
qed

theorem sweep_pass_exact_witness:
  "sp_marked (case sweep_pass_run {} (120 * 10 ^ 9) (\<lambda>_. None :: nat option)
     (Inr ([\<lparr>sw_id = [97], sw_source = Push, sw_status = Online\<rparr>, \<lparr>sw_id = [98], sw_source = Poll, sw_status = Online\<rparr>], 0))
     presence_default (\<lambda>_. None) of (Inr pass, _, _) \<Rightarrow> pass) = 1"
proof -
  let ?rows = "[\<lparr>sw_id = [97], sw_source = Push, sw_status = Online\<rparr>, \<lparr>sw_id = [98], sw_source = Poll, sw_status = Online\<rparr>]"
  have "overdue {} presence_default (120 * 10 ^ 9) \<lparr>sw_id = [97], sw_source = Push, sw_status = Online\<rparr>"
    by (simp add: overdue_def RECONNECT_GRACE_def presence_default_def)
  then show ?thesis
    using sweep_pass_exact [of "\<lambda>_. None :: nat option" ?rows, where running = "{}" and up_for = "120 * 10 ^ 9" and skipped = 0
        and p = presence_default and t = "\<lambda>_. None"]
    by (auto simp: is_push_def)
qed

section \<open>What a connection may have decoded\<close>

primrec decode_run :: "connection_state \<Rightarrow> instant list \<Rightarrow> bool list \<times> connection_state" where
  "decode_run c [] = ([], c)"
| "decode_run c (t # ts) = (let (r, c) = spend_decode_budget c t; (rs, c) = decode_run c ts in (is_ok r # rs, c))"

lemma decode_run_bucket:
  "fst (decode_run c ts) = bucket_run (budget_bucket (cs_budget c)) ts
   \<and> tally_count (cs_dropped_messages (snd (decode_run c ts)))
     = tally_count (cs_dropped_messages c) + of_nat (length (filter Not (bucket_run (budget_bucket (cs_budget c)) ts)))"
proof (induction ts arbitrary: c)
  case (Cons t ts)
  then show ?case
    by (cases "bucket_take (budget_bucket (cs_budget c)) t")
      (simp_all add: spend_decode_budget_def budget_spend_def tally_note_def split_beta Let_def)
qed simp

text \<open>A connection's decode budget bounds the work a sender can cause: of the messages read between two
  times, at most three and one more per whole refill period are decoded, and every other one is
  counted as dropped.\<close>

theorem connection_decodes_bounded:
  assumes "0 < refill" and "sorted (start # ts)"
  shows "case decode_run (connection_state_new start refill) ts of (rs, c) \<Rightarrow>
      length (filter id rs) \<le> 3 + (last (start # ts) - start) div refill
      \<and> tally_count (cs_dropped_messages c) = of_nat (length (filter Not rs)) \<and> length rs = length ts"
proof -
  let ?r = "refill_new DECODE_BURST refill"
  have "refill_ok ?r" "0 < rf_period ?r" using assms(1) by (simp_all add: refill_ok_def refill_new_def DECODE_BURST_def)
  from token_bucket_rate [OF this assms(2)]
  have rate: "length (filter id (bucket_run (bucket_full ?r start) ts)) \<le> 3 + (last (start # ts) - start) div refill"
    by (simp add: refill_new_def DECODE_BURST_def)
  have len: "length (bucket_run b ts) = length ts" for b by (induction ts arbitrary: b) (simp_all split: sum.split)
  have "budget_bucket (cs_budget (connection_state_new start refill)) = bucket_full ?r start"
    by (simp add: connection_state_new_def decode_budget_new_def)
  then show ?thesis
    using decode_run_bucket [of "connection_state_new start refill" ts] rate len by (simp add: split_beta connection_state_new_def)
qed

theorem connection_decodes_bounded_witness:
  "length (filter id (fst (decode_run (connection_state_new 0 1000) [0, 0, 0, 0, 999, 1000]))) \<le> 4"
  using connection_decodes_bounded [of 1000 0 "[0, 0, 0, 0, 999, 1000]"] by (simp add: split_beta)

end
