(* ===== verification/Handoff.thy ===== *)
theory Handoff
  imports Block_File Retention_Files
begin

text \<open>
  The writer's bookkeeping of the span handoff (\<open>Handoffs\<close> of
  \<open>system-hub/hub-store/src/store/handoff.rs\<close>): the spans with chunks in the database, those chosen at
  a sweep, those the block writer is working on and those whose attempts failed.  A span is given to
  the block writer only once closed and never while it is in flight; a tier with more than three
  failing spans stops the store with the cause of its latest failure.
\<close>

datatype handoff_failure = HandoffRead | HandoffEncode | HandoffWrite error_kind | HandoffExists

definition BACKLOG_BOUND :: nat where
  "BACKLOG_BOUND = 3"

record backlog =
  bl_tier :: tier
  bl_last :: handoff_failure

record handoffs =
  hf_waiting :: "file_key btree_set"
  hf_in_flight :: "file_key btree_set"
  hf_failed :: "(file_key, u64 \<times> handoff_failure) btree_map"
  hf_failures :: u64
  hf_due :: "file_key btree_set"

text \<open>Removal from a \<open>BTreeSet\<close> and its extension by the elements of an iterator.\<close>

definition bs_remove :: "'k btree_set \<Rightarrow> 'k \<Rightarrow> 'k btree_set" where
  "bs_remove s k = filter (\<lambda>x. x \<noteq> k) s"

definition bs_extend :: "'k::linorder btree_set \<Rightarrow> 'k list \<Rightarrow> 'k btree_set" where
  "bs_extend s ks = foldl bs_insert s ks"

section \<open>Operations\<close>

definition handoffs_new :: "file_key btree_set \<Rightarrow> handoffs" where
  "handoffs_new waiting = \<lparr>hf_waiting = waiting, hf_in_flight = [], hf_failed = [], hf_failures = 0, hf_due = []\<rparr>"

definition handoffs_sealed :: "handoffs \<Rightarrow> file_key \<Rightarrow> handoffs" where
  "handoffs_sealed h sp = h\<lparr>hf_waiting := bs_insert (hf_waiting h) sp\<rparr>"

text \<open>\<open>Iterator::max_by_key\<close>: the last of the elements with the greatest key.\<close>

primrec max_by_key :: "('a \<Rightarrow> 'k::linorder) \<Rightarrow> 'a list \<Rightarrow> 'a option" where
  "max_by_key f [] = None"
| "max_by_key f (x # xs) = (case max_by_key f xs of
       None \<Rightarrow> Some x
     | Some y \<Rightarrow> Some (if f y < f x then x else y))"

definition handoffs_backlog :: "handoffs \<Rightarrow> tier \<Rightarrow> backlog option" where
  "handoffs_backlog h t =
     (let failing = filter (\<lambda>((u, _), _). u = t) (hf_failed h);
          count = length failing
      in Option.bind (max_by_key (\<lambda>(_, (order, _)). order) failing) (\<lambda>(_, (_, cause)).
           if BACKLOG_BOUND < count then Some \<lparr>bl_tier = t, bl_last = cause\<rparr> else None))"

text \<open>\<open>Iterator::find_map\<close>.\<close>

primrec find_map :: "('a \<Rightarrow> 'b option) \<Rightarrow> 'a list \<Rightarrow> 'b option" where
  "find_map f [] = None"
| "find_map f (x # xs) = (case f x of Some y \<Rightarrow> Some y | None \<Rightarrow> find_map f xs)"

definition handoffs_choose :: "handoffs \<Rightarrow> u64 \<Rightarrow> (backlog + unit) \<times> handoffs" where
  "handoffs_choose h hub_now = (case find_map (handoffs_backlog h) all_tiers of
       Some b \<Rightarrow> (Inl b, h)
     | None \<Rightarrow>
         (let closed = filter (\<lambda>sp. \<not> bs_contains (hf_in_flight h) sp)
                (filter (\<lambda>(t, sp). span_is_closed t sp hub_now) (hf_waiting h))
          in (Inr (), h\<lparr>hf_due := bs_extend (hf_due h) closed\<rparr>)))"

definition handoffs_take_due :: "handoffs \<Rightarrow> file_key list \<times> handoffs" where
  "handoffs_take_due h = (hf_due h, h\<lparr>hf_due := [], hf_in_flight := bs_extend (hf_in_flight h) (hf_due h)\<rparr>)"

definition handoffs_landed :: "handoffs \<Rightarrow> file_key \<Rightarrow> handoffs" where
  "handoffs_landed h sp = h\<lparr>hf_waiting := bs_remove (hf_waiting h) sp, hf_in_flight := bs_remove (hf_in_flight h) sp,
     hf_failed := om_remove (hf_failed h) sp\<rparr>"

definition handoffs_idle :: "handoffs \<Rightarrow> file_key list" where
  "handoffs_idle h = filter (\<lambda>sp. \<not> bs_contains (hf_in_flight h) sp) (hf_waiting h)"

definition handoffs_emptied :: "handoffs \<Rightarrow> file_key \<Rightarrow> handoffs" where
  "handoffs_emptied h sp = h\<lparr>hf_waiting := bs_remove (hf_waiting h) sp, hf_failed := om_remove (hf_failed h) sp,
     hf_due := bs_remove (hf_due h) sp\<rparr>"

definition handoffs_failed :: "handoffs \<Rightarrow> file_key \<Rightarrow> handoff_failure \<Rightarrow> handoffs" where
  "handoffs_failed h sp cause = h\<lparr>hf_in_flight := bs_remove (hf_in_flight h) sp,
     hf_failed := om_insert (hf_failed h) sp (hf_failures h, cause), hf_failures := hf_failures h + 1\<rparr>"

definition handoff_name :: "file_key \<Rightarrow> block_name" where
  "handoff_name = (\<lambda>(t, sp). BlockName t sp (RewriteNo 0))"

section \<open>Lemmas\<close>

lemma bs_remove_set [simp]: "set (bs_remove s k) = set s - {k}"
  by (auto simp: bs_remove_def)

lemma bs_extend_set [simp]: "set (bs_extend s ks) = set s \<union> set ks"
  by (induction ks arbitrary: s) (auto simp: bs_extend_def)

lemma bs_extend_sorted: "sorted_wrt (<) s \<Longrightarrow> sorted_wrt (<) (bs_extend s ks)"
  by (induction ks arbitrary: s) (auto simp: bs_extend_def bs_insert_sorted)

lemma max_by_key_None [simp]: "max_by_key f xs = None \<longleftrightarrow> xs = []"
  by (cases xs) (auto split: option.splits)

lemma max_by_key_Some: "max_by_key f xs = Some x \<Longrightarrow> x \<in> set xs \<and> (\<forall>y\<in>set xs. f y \<le> f x)"
proof (induction xs arbitrary: x)
  case (Cons z zs)
  show ?case
  proof (cases "max_by_key f zs")
    case (Some y)
    with Cons.IH [OF Some] Cons.prems show ?thesis by (auto split: if_splits)
  qed (use Cons.prems in auto)
qed simp

lemma find_map_None: "find_map f xs = None \<longleftrightarrow> (\<forall>x\<in>set xs. f x = None)"
  by (induction xs) (auto split: option.splits)

lemma find_map_Some: "find_map f xs = Some y \<Longrightarrow> \<exists>x\<in>set xs. f x = Some y"
  by (induction xs) (auto split: option.splits)

text \<open>The failing spans of a tier.\<close>

definition failing :: "handoffs \<Rightarrow> tier \<Rightarrow> (file_key \<times> (u64 \<times> handoff_failure)) list" where
  "failing h t = filter (\<lambda>((u, _), _). u = t) (hf_failed h)"

lemma handoffs_backlog_None: "handoffs_backlog h t = None \<longleftrightarrow> length (failing h t) \<le> BACKLOG_BOUND"
  by (cases "max_by_key (\<lambda>(_, (order, _)). order) (failing h t)")
    (auto simp: handoffs_backlog_def Let_def failing_def [symmetric] BACKLOG_BOUND_def split: prod.splits)

lemma handoffs_backlog_Some:
  assumes "handoffs_backlog h t = Some b"
  shows "bl_tier b = t \<and> BACKLOG_BOUND < length (failing h t)
    \<and> (\<exists>sp order. (sp, (order, bl_last b)) \<in> set (failing h t) \<and> (\<forall>(_, (o', _))\<in>set (failing h t). o' \<le> order))"
proof -
  obtain e where e: "max_by_key (\<lambda>(_, (order, _)). order) (failing h t) = Some e"
    and b: "(case e of (_, (_, cause)) \<Rightarrow> if BACKLOG_BOUND < length (failing h t) then Some \<lparr>bl_tier = t, bl_last = cause\<rparr> else None) = Some b"
    using assms by (auto simp: handoffs_backlog_def Let_def failing_def [symmetric] bind_eq_Some_conv)
  obtain sp order cause where "e = (sp, (order, cause))" by (cases e) auto
  with b max_by_key_Some [OF e] show ?thesis by (fastforce split: if_splits)
qed

section \<open>The states the writer reaches\<close>

text \<open>What the writer calls and when: a commit seals chunks, a sweep chooses at hub time, which never
  runs backwards, a commit takes what is due, the block writer answers for spans in flight, and a
  retention pass empties idle ones.\<close>

inductive handoff_reachable :: "u64 \<Rightarrow> handoffs \<Rightarrow> bool" where
  start: "sorted_wrt (<) waiting \<Longrightarrow> handoff_reachable now (handoffs_new waiting)"
| sealed: "handoff_reachable now h \<Longrightarrow> handoff_reachable now (handoffs_sealed h sp)"
| choose: "handoff_reachable now h \<Longrightarrow> now \<le> later \<Longrightarrow> handoff_reachable later (snd (handoffs_choose h later))"
| take_due: "handoff_reachable now h \<Longrightarrow> handoff_reachable now (snd (handoffs_take_due h))"
| landed: "handoff_reachable now h \<Longrightarrow> sp \<in> set (hf_in_flight h) \<Longrightarrow> handoff_reachable now (handoffs_landed h sp)"
| failed: "handoff_reachable now h \<Longrightarrow> sp \<in> set (hf_in_flight h) \<Longrightarrow> handoff_reachable now (handoffs_failed h sp cause)"
| emptied: "handoff_reachable now h \<Longrightarrow> sp \<in> set (handoffs_idle h) \<Longrightarrow> handoff_reachable now (handoffs_emptied h sp)"

definition handoffs_ok :: "u64 \<Rightarrow> handoffs \<Rightarrow> bool" where
  "handoffs_ok now h \<longleftrightarrow> set (hf_due h) \<inter> set (hf_in_flight h) = {}
     \<and> set (hf_due h) \<union> set (hf_in_flight h) \<union> fst ` set (hf_failed h) \<subseteq> set (hf_waiting h)
     \<and> sorted_wrt (<) (hf_due h) \<and> (\<forall>(t, sp)\<in>set (hf_due h). span_is_closed t sp now)"

lemma om_insert_fst: "fst ` set (om_insert m k v) = insert k (fst ` set m)"
  using om_insert_keys [of m k v] by simp

lemma om_remove_fst: "fst ` set (om_remove m k) = fst ` set m - {k}"
  by (auto simp: om_remove_def)

lemma handoffs_choose_ok:
  assumes "handoffs_ok now h" and "now \<le> later"
  shows "handoffs_ok later (snd (handoffs_choose h later))"
proof -
  have "span_is_closed t sp now \<Longrightarrow> span_is_closed t sp later" for t sp
    using assms(2) by (auto simp: span_is_closed_def)
  then show ?thesis
    using assms(1) by (fastforce simp: handoffs_ok_def handoffs_choose_def bs_contains_def bs_extend_sorted split: option.splits)
qed

lemma handoff_reachable_ok: "handoff_reachable now h \<Longrightarrow> handoffs_ok now h"
proof (induction rule: handoff_reachable.induct)
  case (choose now h later)
  then show ?case by (simp add: handoffs_choose_ok)
next
  case (emptied now h sp)
  then have "sp \<notin> set (hf_in_flight h)" by (simp add: handoffs_idle_def bs_contains_def)
  with emptied show ?case
    by (auto simp: handoffs_ok_def handoffs_emptied_def om_remove_fst sorted_wrt_filter bs_remove_def)
qed (auto simp: handoffs_ok_def handoffs_new_def handoffs_sealed_def handoffs_take_due_def handoffs_landed_def
    handoffs_failed_def om_insert_fst om_remove_fst)

section \<open>Properties\<close>



end
