(* ===== verification/Store_Tables.thy ===== *)
theory Store_Tables
  imports Series_Tail Series_Keys Log_Entry Block_Record Retention_Files Ordered_Map
    "HOL-Library.Product_Lexorder" "HOL-Library.Char_ord"
begin

text \<open>
  The tables of \<open>hub.redb\<close> (\<open>system-hub/hub-store/src/tables.rs\<close>), the life of a store
  (\<open>store/lifecycle.rs\<close>), the errors of its interface (\<open>store.rs\<close>) and the lookup of a series'
  key (\<open>store/records.rs\<close>).  A redb table is its entries in key order; a write transaction works on a
  copy of the tables that replaces them when its commit succeeds.  Which calls redb refuses is the
  environment's choice, an argument of the operations that make them.
\<close>

instantiation series_id :: linorder
begin

definition less_eq_series_id :: "series_id \<Rightarrow> series_id \<Rightarrow> bool" where
  "less_eq_series_id a b \<longleftrightarrow> series_id_get a \<le> series_id_get b"

definition less_series_id :: "series_id \<Rightarrow> series_id \<Rightarrow> bool" where
  "less_series_id a b \<longleftrightarrow> series_id_get a < series_id_get b"

instance
  by standard (auto simp: less_eq_series_id_def less_series_id_def series_id.expand)

end

section \<open>Tables\<close>

text \<open>(tier, span start, series, sequence number).\<close>

type_synonym chunk_key = "u8 \<times> u64 \<times> u32 \<times> u16"

record store_db =
  db_meta :: "(string, bytes) btree_map"
  db_series :: "(u32, bytes) btree_map"
  db_series_key :: "(bytes, u32) btree_map"
  db_points_log :: "(u64, bytes) btree_map"
  db_tails :: "(u8 \<times> u32, bytes) btree_map"
  db_chunks :: "(chunk_key, bytes) btree_map"
  db_blocks :: "(u8 \<times> u64, bytes) btree_map"
  db_block_generations :: "(u64 \<times> u8 \<times> u64, u64) btree_map"
  db_pending_unlinks :: "(u8 \<times> u64 \<times> u32, unit) btree_map"

definition db_empty :: store_db where
  "db_empty = \<lparr>db_meta = [], db_series = [], db_series_key = [], db_points_log = [], db_tails = [], db_chunks = [],
     db_blocks = [], db_block_generations = [], db_pending_unlinks = []\<rparr>"

definition META_FORMAT :: string where
  "META_FORMAT = ''format''"

definition META_ID_COUNTER :: string where
  "META_ID_COUNTER = ''id_counter''"

definition META_CLOCK :: string where
  "META_CLOCK = ''clock''"

definition META_COMMIT_SEQ :: string where
  "META_COMMIT_SEQ = ''commit_seq''"

definition META_RETENTION_CLOCK :: string where
  "META_RETENTION_CLOCK = ''retention_clock''"

definition STORE_FORMAT :: u64 where
  "STORE_FORMAT = 1"

definition table_range :: "('k::linorder, 'v) btree_map \<Rightarrow> 'k \<Rightarrow> 'k \<Rightarrow> ('k, 'v) btree_map" where
  "table_range m lo hi = filter (\<lambda>(k, _). lo \<le> k \<and> k \<le> hi) m"

definition table_from :: "('k::linorder, 'v) btree_map \<Rightarrow> 'k \<Rightarrow> ('k, 'v) btree_map" where
  "table_from m lo = filter (\<lambda>(k, _). lo \<le> k) m"

text \<open>Every key of a span in \<open>chunks\<close>, as the bounds of an inclusive range.\<close>

definition span_range :: "tier \<Rightarrow> span_start \<Rightarrow> chunk_key \<times> chunk_key" where
  "span_range t sp = ((tier_code t, span_get sp, 0, 0), (tier_code t, span_get sp, - 1, - 1))"

section \<open>The life of a store\<close>

datatype store_life = Running | Closed | Failed

datatype corrupt_chunk = CorruptChunk (cc_tier: tier) (cc_span: u64)

datatype store_error = StoreClosed | StoreFailed | StoreIo | StoreCorrupt corrupt_chunk

definition life_check :: "store_life \<Rightarrow> store_error + unit" where
  "life_check s = (case s of Running \<Rightarrow> Inr () | Closed \<Rightarrow> Inl StoreClosed | Failed \<Rightarrow> Inl StoreFailed)"

definition life_fail :: "store_life \<Rightarrow> store_life" where
  "life_fail s = Failed"

definition life_close :: "store_life \<Rightarrow> store_life" where
  "life_close s = (if s = Running then Closed else s)"

definition writer_gone :: "store_life \<Rightarrow> store_error \<times> store_life" where
  "writer_gone s =
     (let s = (if s = Running then Failed else s)
      in (case life_check s of Inl e \<Rightarrow> e | Inr _ \<Rightarrow> StoreFailed, s))"

datatype rejected = RejectedNotAfterLast | SeriesCapReached | KindMismatch | RejectedOutOfDomain

record append_report =
  ap_at :: u64
  ap_accepted :: u16
  ap_rejected :: "(metric_name \<times> rejected) list"

section \<open>Records\<close>

datatype unreadable = UnreadableStore | UnreadableRecord record_error

text \<open>\<open>refused\<close>: redb refuses the read.\<close>

definition recorded_key :: "bool \<Rightarrow> (u32, bytes) btree_map \<Rightarrow> u32 \<Rightarrow> unreadable + series_key option" where
  "recorded_key refused series i =
     (if refused then Inl UnreadableStore
      else case om_get series i of
        None \<Rightarrow> Inr None
      | Some bs \<Rightarrow> rbind (map_err UnreadableRecord (series_record_from_bytes bs)) (\<lambda>record. Inr (Some (sr_key record))))"

section \<open>Lemmas\<close>

lemma table_range_get:
  "om_valid m \<Longrightarrow> om_get (table_range m lo hi) k = (if lo \<le> k \<and> k \<le> hi then om_get m k else None)"
  by (induction m) (auto simp: om_get_def table_range_def om_valid_def)

lemma table_range_valid: "om_valid m \<Longrightarrow> om_valid (table_range m lo hi)"
  by (simp add: om_valid_def table_range_def sorted_wrt_map sorted_wrt_filter)

lemma in_span_range:
  "fst (span_range t sp) \<le> (c, s, i, n) \<and> (c, s, i, n) \<le> snd (span_range t sp) \<longleftrightarrow> c = tier_code t \<and> s = span_get sp"
  by (auto simp: span_range_def less_eq_prod_simp)

text \<open>A clean stop is never reported as a failure, nor a failure as a clean stop.\<close>

lemma life_latches:
  "life_check (life_close Failed) = Inl StoreFailed"
  "writer_gone Closed = (StoreClosed, Closed)"
  "snd (writer_gone Running) = Failed"
  by (simp_all add: life_check_def life_close_def writer_gone_def)

end
