(* ===== verification/Store_Ingest.thy ===== *)
theory Store_Ingest
  imports Store_Tables Hub_Clock "HOL-Library.AList"
begin

text \<open>
  Ingestion on the writer thread (\<open>system-hub/hub-store/src/store/ingest.rs\<close> over the head of
  \<open>store/head.rs\<close>): points stamped at hub time, checked against their series and applied to the head;
  series interned, or brought back from their tail; and what the next commit must write because of it.
  A key always falls in the same one of the head's shards, so the shards are one map, an association
  list; the order in which a sweep over all of them meets the series is an argument.
\<close>

section \<open>State\<close>

record head_entry =
  he_id :: series_id
  he_state :: series_state
  he_last_spans :: "span_start option list"
  he_dirty :: bool
  he_pending :: "sealed list"

type_synonym head = "(series_key \<times> head_entry) list"

record 'c core =
  co_head :: head
  co_clock :: hub_clock
  co_next_id :: u32
  co_index :: "(series_id, series_key) btree_map"
  co_points :: "logged_point list"
  co_new_series :: "series_id btree_set"
  co_sealed :: "(series_id \<times> sealed) list"
  co_touched :: "series_id btree_set"
  co_changes :: "'c list"
  co_catalog_dirty :: bool

definition core_new :: "head \<Rightarrow> hub_clock \<Rightarrow> u32 \<Rightarrow> 'c core" where
  "core_new head clock next_id = \<lparr>co_head = head, co_clock = clock, co_next_id = next_id, co_index = [], co_points = [],
     co_new_series = [], co_sealed = [], co_touched = [], co_changes = [], co_catalog_dirty = False\<rparr>"

text \<open>The reading of the system clock is an argument.\<close>

definition core_hub_now :: "'c core \<Rightarrow> u64 \<Rightarrow> u64 \<times> 'c core" where
  "core_hub_now core system_now = (case clock_now (co_clock core) system_now of (now, clock) \<Rightarrow> (now, core\<lparr>co_clock := clock\<rparr>))"

definition core_clocks :: "'c core \<Rightarrow> u64 \<Rightarrow> (u64 \<times> u64) \<times> 'c core" where
  "core_clocks core system_now =
     (case clock_now (co_clock core) system_now of (now, clock) \<Rightarrow> ((now, system_now), core\<lparr>co_clock := clock\<rparr>))"

definition catalog_written :: "'c core \<Rightarrow> 'c core" where
  "catalog_written core = core\<lparr>co_catalog_dirty := True\<rparr>"

definition take_changes :: "'c core \<Rightarrow> 'c list \<Rightarrow> 'c core" where
  "take_changes core changes = core\<lparr>co_changes := co_changes core @ changes\<rparr>"

section \<open>Sealed chunks\<close>

text \<open>The greater of two options, \<open>None\<close> being the least.\<close>

definition option_max :: "'a::linorder option \<Rightarrow> 'a option \<Rightarrow> 'a option" where
  "option_max a b = (case (a, b) of (Some x, Some y) \<Rightarrow> Some (max x y) | (None, _) \<Rightarrow> b | (_, None) \<Rightarrow> a)"

definition keep_one :: "'c core \<times> head_entry \<Rightarrow> sealed \<Rightarrow> 'c core \<times> head_entry" where
  "keep_one ce chunk = (case ce of (core, entry) \<Rightarrow>
     let i = unat (tier_code (se_tier chunk));
         spans = (he_last_spans entry)[i := option_max (he_last_spans entry ! i) (Some (se_span chunk))]
     in (core\<lparr>co_sealed := co_sealed core @ [(he_id entry, chunk)], co_touched := bs_insert (co_touched core) (he_id entry)\<rparr>,
         entry\<lparr>he_last_spans := spans, he_pending := he_pending entry @ [chunk]\<rparr>))"

definition keep_sealed :: "'c core \<Rightarrow> head_entry \<Rightarrow> sealed list \<Rightarrow> 'c core \<times> head_entry" where
  "keep_sealed core entry chunks = foldl keep_one (core, entry) chunks"

section \<open>Series brought into the head\<close>

record interned_series =
  in_id :: series_id
  in_record :: series_record
  in_tail :: "bytes option"

datatype redb_error = RedbRefused | RedbCorrupted record_error

definition interned :: "bool \<Rightarrow> store_db \<Rightarrow> series_key \<Rightarrow> redb_error + interned_series option" where
  "interned refused db key =
     (if refused then Inl RedbRefused
      else case om_get (db_series_key db) (series_key_to_bytes key) of
        None \<Rightarrow> Inr None
      | Some i \<Rightarrow> (case om_get (db_series db) i of
            None \<Rightarrow> Inr None
          | Some bs \<Rightarrow> rbind (map_err RedbCorrupted (series_record_from_bytes bs)) (\<lambda>record.
              Inr (Some \<lparr>in_id = SeriesId i, in_record = record, in_tail = om_get (db_tails db) (tier_code Raw, i)\<rparr>))))"

definition core_install :: "'c core \<Rightarrow> series_key \<Rightarrow> head_entry \<Rightarrow> 'c core" where
  "core_install core key entry = core\<lparr>co_index := om_insert (co_index core) (he_id entry) key,
     co_head := AList.update key entry (co_head core)\<rparr>"

definition activate ::
  "bool \<Rightarrow> store_db \<Rightarrow> 'c core \<Rightarrow> series_key \<Rightarrow> value_kind \<Rightarrow> (store_error + (rejected + unit)) \<times> 'c core" where
  "activate refused db core key kind = (case interned refused db key of
       Inl _ \<Rightarrow> (Inl StoreFailed, core)
     | Inr (Some found) \<Rightarrow>
         (case (case in_tail found of
                  Some bs \<Rightarrow> map_err (\<lambda>_. StoreFailed) (ss_from_tail bs)
                | None \<Rightarrow> Inr (ss_new (sr_kind (in_record found)))) of
            Inl e \<Rightarrow> (Inl e, core)
          | Inr state \<Rightarrow> (Inr (Inr ()), core_install core key
              \<lparr>he_id = in_id found, he_state = state, he_last_spans = sr_last_spans (in_record found), he_dirty = False,
               he_pending = []\<rparr>))
     | Inr None \<Rightarrow>
         (case checked_add (co_next_id core) 1 of
            None \<Rightarrow> (Inr (Inl SeriesCapReached), core)
          | Some next \<Rightarrow>
              (let i = SeriesId (co_next_id core);
                   core = core\<lparr>co_next_id := next, co_new_series := bs_insert (co_new_series core) i,
                     co_touched := bs_insert (co_touched core) i\<rparr>
               in (Inr (Inr ()), core_install core key
                    \<lparr>he_id = i, he_state = ss_new kind, he_last_spans = [None, None, None], he_dirty = True,
                     he_pending = []\<rparr>))))"

section \<open>Points\<close>

text \<open>What \<open>append_point\<close> does once the series is in the head.\<close>

definition append_active ::
  "'c core \<Rightarrow> series_key \<Rightarrow> value_kind \<Rightarrow> i64 \<Rightarrow> scaled \<Rightarrow> u64 \<Rightarrow> (store_error + (rejected + unit)) \<times> 'c core" where
  "append_active core key kind v scaled ts = (case map_of (co_head core) key of
       None \<Rightarrow> (Inl StoreFailed, core)
     | Some entry \<Rightarrow>
         if ss_kind (he_state entry) \<noteq> kind then (Inr (Inl KindMismatch), core)
         else (case ss_append (he_state entry) ts scaled of
             Inl _ \<Rightarrow> (Inr (Inl RejectedNotAfterLast), core)
           | Inr (chunks, state) \<Rightarrow>
               (case keep_sealed core (entry\<lparr>he_state := state, he_dirty := True\<rparr>) chunks of (core, entry) \<Rightarrow>
                  (Inr (Inr ()), core\<lparr>co_head := AList.update key entry (co_head core),
                     co_points := co_points core @ [\<lparr>lp_id = he_id entry, lp_ts = ts, lp_value = v\<rparr>]\<rparr>))))"

definition append_point ::
  "bool \<Rightarrow> store_db \<Rightarrow> 'c core \<Rightarrow> series_key \<Rightarrow> value_kind \<Rightarrow> i64 \<Rightarrow> u64 \<Rightarrow> (store_error + (rejected + unit)) \<times> 'c core" where
  "append_point refused db core key kind v ts = (case check_scaled kind v of
       Inl _ \<Rightarrow> (Inr (Inl RejectedOutOfDomain), core)
     | Inr scaled \<Rightarrow>
         (case (if map_of (co_head core) key = None then activate refused db core key kind else (Inr (Inr ()), core)) of
            (Inl e, core) \<Rightarrow> (Inl e, core)
          | (Inr (Inl refusal), core) \<Rightarrow> (Inr (Inl refusal), core)
          | (Inr (Inr _), core) \<Rightarrow> append_active core key kind v scaled ts))"

text \<open>\<open>refused\<close> says for each key whether redb refuses its reads.\<close>

primrec append_each ::
  "(series_key \<Rightarrow> bool) \<Rightarrow> store_db \<Rightarrow> system_key \<Rightarrow> generation \<Rightarrow> u64 \<Rightarrow> 'c core \<Rightarrow> append_report
    \<Rightarrow> (metric_name \<times> value_kind \<times> i64) list \<Rightarrow> (store_error + append_report) \<times> 'c core" where
  "append_each refused db system g ts core report [] = (Inr report, core)"
| "append_each refused db system g ts core report (p # ps) = (case p of (metric, kind, v) \<Rightarrow>
     let key = \<lparr>sk_system = system, sk_generation = g, sk_metric = metric\<rparr>
     in case append_point (refused key) db core key kind v ts of
          (Inl e, core) \<Rightarrow> (Inl e, core)
        | (Inr (Inr _), core) \<Rightarrow>
            append_each refused db system g ts core (report\<lparr>ap_accepted := sat_add (ap_accepted report) 1\<rparr>) ps
        | (Inr (Inl refusal), core) \<Rightarrow>
            append_each refused db system g ts core (report\<lparr>ap_rejected := ap_rejected report @ [(metric, refusal)]\<rparr>) ps)"

definition append_points ::
  "(series_key \<Rightarrow> bool) \<Rightarrow> store_db \<Rightarrow> 'c core \<Rightarrow> system_key \<Rightarrow> generation \<Rightarrow> (metric_name \<times> value_kind \<times> i64) list \<Rightarrow> u64
    \<Rightarrow> (store_error + append_report) \<times> 'c core" where
  "append_points refused db core system g points ts =
     append_each refused db system g ts core \<lparr>ap_at = ts, ap_accepted = 0, ap_rejected = []\<rparr> points"

section \<open>The sweep\<close>

definition sweep_entry :: "u64 \<Rightarrow> 'c core \<Rightarrow> series_key \<Rightarrow> 'c core" where
  "sweep_entry hub_now core key = (case map_of (co_head core) key of
       None \<Rightarrow> core
     | Some entry \<Rightarrow>
         (case ss_sweep (he_state entry) hub_now of (chunks, state) \<Rightarrow>
          case ss_seal_closed state hub_now of (rest, state) \<Rightarrow>
          case keep_sealed core (entry\<lparr>he_state := state\<rparr>) (chunks @ rest) of (core, entry) \<Rightarrow>
            core\<lparr>co_head := AList.update key entry (co_head core)\<rparr>))"

definition core_sweep :: "'c core \<Rightarrow> series_key list \<Rightarrow> u64 \<Rightarrow> 'c core" where
  "core_sweep core order hub_now = foldl (sweep_entry hub_now) core order"

end
