(* ===== verification/Store_Blocks.thy ===== *)
theory Store_Blocks
  imports Store_Ingest Handoff Reconcile
begin

text \<open>
  The store's block files (\<open>system-hub/hub-store/src/store/blocks.rs\<close>): what memory keeps of each, the
  reads a query makes of them, and the open's reconciliation of the files with the \<open>blocks\<close> rows.
  The directory and what memory knows of it are passed from call to call; the system calls that fail
  are the environment's choice.
\<close>

datatype known = Readable rewrite_no block_summary | Unreadable rewrite_no

definition known_rewrite :: "known \<Rightarrow> rewrite_no" where
  "known_rewrite k = (case k of Readable rewrite _ \<Rightarrow> rewrite | Unreadable rewrite \<Rightarrow> rewrite)"

text \<open>The last failures stand in the order of the tiers.\<close>

record blocks =
  bl_known :: "file_key \<rightharpoonup> known"
  bl_failures :: u64
  bl_last_failures :: "handoff_failure option list"

definition blocks_new :: blocks where
  "blocks_new = \<lparr>bl_known = (\<lambda>_. None), bl_failures = 0, bl_last_failures = [None, None, None]\<rparr>"

definition blocks_install :: "blocks \<Rightarrow> block_name \<Rightarrow> file_error + block_summary \<Rightarrow> blocks" where
  "blocks_install b name summary =
     (let known = (case summary of Inr s \<Rightarrow> Readable (bn_rewrite name) s | Inl _ \<Rightarrow> Unreadable (bn_rewrite name))
      in b\<lparr>bl_known := (bl_known b)((bn_tier name, bn_span name) \<mapsto> known)\<rparr>)"

definition blocks_evict :: "blocks \<Rightarrow> file_key \<Rightarrow> blocks" where
  "blocks_evict b sp = b\<lparr>bl_known := (bl_known b)(sp := None)\<rparr>"

definition blocks_condition :: "blocks \<Rightarrow> file_key \<Rightarrow> file_condition" where
  "blocks_condition b sp = (case bl_known b sp of
       Some (Unreadable _) \<Rightarrow> Damaged
     | Some (Readable _ _) \<Rightarrow> Sound
     | None \<Rightarrow> Sound)"

definition blocks_handoff_failed :: "blocks \<Rightarrow> tier \<Rightarrow> handoff_failure \<Rightarrow> blocks" where
  "blocks_handoff_failed b t cause = b\<lparr>bl_last_failures := (bl_last_failures b)[unat (tier_code t) := Some cause],
     bl_failures := bl_failures b + 1\<rparr>"

definition blocks_series_chunks ::
  "crc32c_fns \<Rightarrow> io_env \<Rightarrow> block_dir \<Rightarrow> blocks \<Rightarrow> block_name \<Rightarrow> series_id \<Rightarrow> (store_error + (u16 \<times> bytes) list) \<times> blocks" where
  "blocks_series_chunks C env d b name sid =
     (let corrupt = StoreCorrupt (CorruptChunk (bn_tier name) (span_get (bn_span name)));
          sp = (bn_tier name, bn_span name);
          known = (case bl_known b sp of
              Some k \<Rightarrow> if known_rewrite k = bn_rewrite name then Some k else None
            | None \<Rightarrow> None);
          b = (case known of Some _ \<Rightarrow> b | None \<Rightarrow> blocks_install b name (dir_read_summary C env d name))
      in (case bl_known b sp of
            None \<Rightarrow> Inl StoreIo
          | Some (Unreadable _) \<Rightarrow> Inl corrupt
          | Some (Readable _ summary) \<Rightarrow>
              map_err (\<lambda>e. case e of FileMissing \<Rightarrow> corrupt | FileDamaged _ \<Rightarrow> corrupt | FileIo \<Rightarrow> StoreIo)
                (dir_read_series C env d name summary sid), b))"

section \<open>Reading the tables at open\<close>

text \<open>The texts of the errors are left out.\<close>

datatype open_error = OpenDatabase | OpenFormat u64 | OpenCorrupt | UnexplainedBlock path

definition open_span_key :: "u8 \<Rightarrow> u64 \<Rightarrow> open_error + file_key" where
  "open_span_key c start =
     rbind (ok_or OpenCorrupt (tier_from_code c)) (\<lambda>t.
     rbind (ok_or OpenCorrupt (span_new t start)) (\<lambda>sp. Inr (t, sp)))"

primrec rows_from :: "(file_key, rewrite_no) btree_map \<Rightarrow> (u8 \<times> u64, bytes) btree_map \<Rightarrow> open_error + (file_key, rewrite_no) btree_map" where
  "rows_from rows [] = Inr rows"
| "rows_from rows (e # es) = (case e of ((c, start), bs) \<Rightarrow>
     rbind (map_err (\<lambda>_. OpenCorrupt) (block_record_from_bytes bs)) (\<lambda>record.
     rbind (open_span_key c start) (\<lambda>sp. rows_from (om_insert rows sp (br_rewrite record)) es)))"

definition read_rows :: "store_db \<Rightarrow> open_error + (file_key, rewrite_no) btree_map" where
  "read_rows db = rows_from [] (db_blocks db)"

primrec pending_from :: "block_name btree_set \<Rightarrow> (u8 \<times> u64 \<times> u32, unit) btree_map \<Rightarrow> open_error + block_name btree_set" where
  "pending_from pending [] = Inr pending"
| "pending_from pending (e # es) = (case e of ((c, start, rewrite), _) \<Rightarrow>
     rbind (open_span_key c start) (\<lambda>(t, sp). pending_from (bs_insert pending (BlockName t sp (RewriteNo rewrite))) es))"

definition read_pending :: "store_db \<Rightarrow> open_error + block_name btree_set" where
  "read_pending db = pending_from [] (db_pending_unlinks db)"

definition span_evidence_of :: "bool \<Rightarrow> store_db \<Rightarrow> head \<Rightarrow> tier \<Rightarrow> span_start \<Rightarrow> redb_error + span_evidence" where
  "span_evidence_of refused db head t sp =
     (let opn = list_ex (\<lambda>(_, e). ss_holds_open (he_state e) t sp) head
      in if refused then Inl RedbRefused
         else let present = table_range (db_chunks db) (fst (span_range t sp)) (snd (span_range t sp)) \<noteq> []
           in Inr \<lparr>ev_tails = (if opn then TailsOpen else AllSealed), ev_chunks = (if present then ChunksPresent else ChunksAbsent)\<rparr>)"

definition clear_pending :: "store_db \<Rightarrow> block_name list \<Rightarrow> store_db" where
  "clear_pending db names = db\<lparr>db_pending_unlinks := foldl (\<lambda>m n. om_remove m (tier_code (bn_tier n), span_get (bn_span n), rewrite_get (bn_rewrite n)))
     (db_pending_unlinks db) names\<rparr>"

lemma table_from_shrinks:
  assumes "table_from m lo = e # es" and "fst e < lo'"
  shows "length (table_from m lo') < length (table_from m lo)"
proof -
  have "e \<in> set (table_from m lo)"
    by (simp add: assms(1))
  then have e: "e \<in> set m" "lo \<le> fst e"
    by (auto simp: table_from_def)
  have "table_from m lo' = filter (\<lambda>(k, _). lo' \<le> k) (table_from m lo)"
    using e(2) assms(2) by (auto simp: table_from_def intro!: filter_cong)
  moreover have "\<not> (case e of (k, _) \<Rightarrow> lo' \<le> k)"
    using assms(2) by (auto split: prod.splits)
  ultimately show ?thesis
    using length_filter_less [OF \<open>e \<in> set (table_from m lo)\<close>, of "\<lambda>(k, _). lo' \<le> k"] by simp
qed

lemma checked_add_greater: "checked_add a 1 = Some b \<Longrightarrow> a < b" for a :: "'a::len word"
  by (auto simp: checked_add_def word_less_nat_alt unat_word_ariths split: if_splits)

lemma spans_seek_shrinks:
  assumes "table_from chunks from = ((c, start, i, n), bs) # rest"
  shows "checked_add start 1 = Some next
      \<Longrightarrow> length (table_from chunks (c, next, 0, 0)) < Suc (length rest)"
    and "checked_add c 1 = Some next_tier
      \<Longrightarrow> length (table_from chunks (next_tier, 0, 0, 0)) < Suc (length rest)"
  using table_from_shrinks [OF assms] assms by (auto dest!: checked_add_greater)

text \<open>One seek per span: the first entry at or after \<open>from\<close>, then the first of a later span.\<close>

function spans_seek :: "(chunk_key, bytes) btree_map \<Rightarrow> chunk_key \<Rightarrow> file_key btree_set \<Rightarrow> open_error + file_key btree_set" where
  "spans_seek chunks from spans = (case table_from chunks from of
       [] \<Rightarrow> Inr spans
     | ((c, start, _, _), _) # _ \<Rightarrow>
         rbind (open_span_key c start) (\<lambda>sp.
           let spans = bs_insert spans sp
           in case checked_add start 1 of
                Some next \<Rightarrow> spans_seek chunks (c, next, 0, 0) spans
              | None \<Rightarrow> (case checked_add c 1 of
                    Some next_tier \<Rightarrow> spans_seek chunks (next_tier, 0, 0, 0) spans
                  | None \<Rightarrow> Inr spans)))"
  by pat_completeness auto

termination
  by (relation "measure (\<lambda>(chunks, from, _). length (table_from chunks from))")
    (auto dest: spans_seek_shrinks)

declare spans_seek.simps [simp del]

definition spans_in_redb :: "store_db \<Rightarrow> open_error + file_key btree_set" where
  "spans_in_redb db = spans_seek (db_chunks db) (0, 0, 0, 0) []"

section \<open>Reconciliation at open\<close>

text \<open>Which calls fail while the store opens: the listing of the directory, redb's reads for a span and
  its write transaction, the unlinking of a file, and the reads of the files.\<close>

record open_env =
  oe_scan_fails :: bool
  oe_read_refused :: "tier \<Rightarrow> span_start \<Rightarrow> bool"
  oe_write_refused :: bool
  oe_unlink_fails :: "block_name \<Rightarrow> bool"
  oe_io :: io_env

primrec unlink_all :: "open_env \<Rightarrow> block_dir \<Rightarrow> block_name list \<Rightarrow> (open_error + unit) \<times> block_dir" where
  "unlink_all env d [] = (Inr (), d)"
| "unlink_all env d (n # ns) = (if oe_unlink_fails env n then (Inl OpenDatabase, d) else unlink_all env (dir_unlink d n) ns)"

definition install_rows ::
  "crc32c_fns \<Rightarrow> open_env \<Rightarrow> block_dir \<Rightarrow> block_name list \<Rightarrow> (file_key, rewrite_no) btree_map \<Rightarrow> blocks \<Rightarrow> blocks" where
  "install_rows C env d missing rows b = foldl (\<lambda>b ((t, sp), rewrite).
     let name = BlockName t sp rewrite
     in blocks_install b name (if name \<in> set missing then Inl FileMissing else dir_read_summary C (oe_io env) d name)) b rows"

definition reconcile_at_open ::
  "crc32c_fns \<Rightarrow> open_env \<Rightarrow> store_db \<Rightarrow> head \<Rightarrow> block_dir \<Rightarrow> blocks \<Rightarrow> u64
    \<Rightarrow> (open_error + file_key btree_set) \<times> store_db \<times> block_dir \<times> blocks" where
  "reconcile_at_open C env db head d b hub_now =
     (if oe_scan_fails env then (Inl OpenDatabase, db, d, b)
      else case rbind (read_rows db) (\<lambda>rows. rbind (read_pending db) (\<lambda>pending.
             rbind (map_err (\<lambda>r. case r of Unexplained name \<Rightarrow> UnexplainedBlock (block_path name) | Evidence _ \<Rightarrow> OpenDatabase)
                 (reconcile (sc_blocks (dir_scan d)) \<lparr>cat_rows = rows, cat_pending = pending, cat_hub_now = hub_now\<rparr>
                   (\<lambda>t sp. span_evidence_of (oe_read_refused env t sp) db head t sp))) (\<lambda>plan.
               Inr (rows, plan)))) of
          Inl e \<Rightarrow> (Inl e, db, d, b)
        | Inr (rows, plan) \<Rightarrow>
            (case unlink_all env d (rec_unlink plan) of
               (Inl e, d) \<Rightarrow> (Inl e, db, d, b)
             | (Inr _, d) \<Rightarrow>
                 if rec_clear_pending plan \<noteq> [] \<and> oe_write_refused env then (Inl OpenDatabase, db, d, b)
                 else (spans_in_redb db, clear_pending db (rec_clear_pending plan), d,
                   install_rows C env d (rec_missing plan) rows b)))"

end
