(* ===== verification/Store_Pass.thy ===== *)
theory Store_Pass
  imports Store_Blocks
begin

text \<open>
  The retention pass as the writer runs it, one bounded batch per group commit
  (\<open>system-hub/hub-store/src/store/pass.rs\<close>, \<open>store/retire.rs\<close>): the guarded retention clock moves, the
  dead chunks of \<open>chunks\<close> are deleted, the block files whose every chunk is dead are planned and their
  rows removed.  A chunk or a file is deleted only when its owner is known to be dead; what the pass
  cannot name it keeps.  The readings of the monotonic clock are arguments.
\<close>

section \<open>Chunks\<close>

record world =
  wo_policies :: policies
  wo_tombstones :: tombstones
  wo_retention_now :: u64
  wo_in_flight :: "file_key btree_set"

datatype chunk_fate = ChunkKeep | ChunkDelete

definition chunk_span :: "chunk_key \<Rightarrow> file_key option" where
  "chunk_span key = (case key of (c, start, _, _) \<Rightarrow>
     Option.bind (tier_from_code c) (\<lambda>t. Option.bind (span_new t start) (\<lambda>sp. Some (t, sp))))"

definition chunk_fate_of :: "chunk_key \<Rightarrow> owner option \<Rightarrow> world \<Rightarrow> chunk_fate" where
  "chunk_fate_of key owner w = (case chunk_span key of
       None \<Rightarrow> ChunkKeep
     | Some (t, sp) \<Rightarrow>
         if bs_contains (wo_in_flight w) (t, sp) then ChunkKeep
         else (case chunk_liveness t sp owner (wo_policies w) (wo_tombstones w) (wo_retention_now w) of
             Live \<Rightarrow> ChunkKeep
           | Dead _ \<Rightarrow> ChunkDelete))"

definition BATCH :: nat where
  "BATCH = 50000"

datatype scan_end = ScanMore chunk_key | ScanDone

definition delete_dead_chunks ::
  "(chunk_key, bytes) btree_map \<Rightarrow> chunk_key \<Rightarrow> nat \<Rightarrow> (chunk_key \<Rightarrow> chunk_fate) \<Rightarrow> scan_end \<times> (chunk_key, bytes) btree_map" where
  "delete_dead_chunks chunks from limit fate =
     (let visited = take (limit + 1) (map fst (table_from chunks from));
          batch = take (min (length visited) limit) visited;
          rest = drop (min (length visited) limit) visited;
          chunks = foldl om_remove chunks (filter (\<lambda>k. fate k = ChunkDelete) batch)
      in (case rest of [] \<Rightarrow> ScanDone | next # _ \<Rightarrow> ScanMore next, chunks))"

definition chunk_owner ::
  "bool \<Rightarrow> (series_id, series_key) btree_map \<Rightarrow> (u32, bytes) btree_map \<Rightarrow> u32 \<Rightarrow> unreadable + owner option" where
  "chunk_owner refused owners series i =
     (let to_owner = (\<lambda>key. Owner (sk_system key) (sk_generation key))
      in case om_get owners (SeriesId i) of
           Some key \<Rightarrow> Inr (Some (to_owner key))
         | None \<Rightarrow> rbind (recorded_key refused series i) (\<lambda>key. Inr (map_option to_owner key)))"

text \<open>What one entry is judged: an owner that cannot be read keeps the chunk.\<close>

definition entry_fate ::
  "(u32 \<Rightarrow> bool) \<Rightarrow> (series_id, series_key) btree_map \<Rightarrow> (u32, bytes) btree_map \<Rightarrow> world \<Rightarrow> chunk_key \<Rightarrow> chunk_fate" where
  "entry_fate refused owners series w key = (case key of (_, _, i, _) \<Rightarrow>
     case chunk_owner (refused i) owners series i of
       Inr owner \<Rightarrow> chunk_fate_of key owner w
     | Inl _ \<Rightarrow> ChunkKeep)"

definition forget_emptied :: "store_db \<Rightarrow> handoffs \<Rightarrow> handoffs" where
  "forget_emptied db h = foldl (\<lambda>h (t, sp).
     if table_range (db_chunks db) (fst (span_range t sp)) (snd (span_range t sp)) = []
     then handoffs_emptied h (t, sp) else h) h (handoffs_idle h)"

section \<open>Files\<close>

record retirement =
  rt_name :: block_name
  rt_generations :: "generation list"

definition retirement_cost :: "retirement \<Rightarrow> nat" where
  "retirement_cost r = 2 + length (rt_generations r)"

record inventory =
  iv_rows :: "(file_key, block_record) btree_map"
  iv_holders :: "(file_key, (generation \<times> u64) list) btree_map"

definition inventory_span :: "u8 \<Rightarrow> u64 \<Rightarrow> file_key option" where
  "inventory_span c start = Option.bind (tier_from_code c) (\<lambda>t. Option.bind (span_new t start) (\<lambda>sp. Some (t, sp)))"

definition inventory_row :: "(file_key, block_record) btree_map \<Rightarrow> (u8 \<times> u64) \<times> bytes \<Rightarrow> (file_key, block_record) btree_map" where
  "inventory_row rows e = (case e of ((c, start), bs) \<Rightarrow>
     case (inventory_span c start, ok (block_record_from_bytes bs)) of
       (Some sp, Some record) \<Rightarrow> om_insert rows sp record
     | _ \<Rightarrow> rows)"

definition inventory_holder ::
  "(file_key, (generation \<times> u64) list) btree_map \<Rightarrow> (u64 \<times> u8 \<times> u64) \<times> u64 \<Rightarrow> (file_key, (generation \<times> u64) list) btree_map" where
  "inventory_holder holders e = (case e of ((g, c, start), bs) \<Rightarrow>
     case inventory_span c start of
       Some sp \<Rightarrow> om_insert holders sp ((case om_get holders sp of Some hs \<Rightarrow> hs | None \<Rightarrow> []) @ [(Generation g, bs)])
     | None \<Rightarrow> holders)"

definition read_inventory :: "store_db \<Rightarrow> inventory" where
  "read_inventory db =
     (let rows = foldl inventory_row [] (db_blocks db);
          holders = foldl inventory_holder [] (db_block_generations db)
      in \<lparr>iv_rows = filter (\<lambda>(sp, record). br_chunk_count record = 0 \<or> om_get holders sp \<noteq> None) rows, iv_holders = holders\<rparr>)"

primrec systems_from :: "(generation \<rightharpoonup> system_key) \<Rightarrow> (u32, bytes) btree_map \<Rightarrow> unreadable + (generation \<rightharpoonup> system_key)" where
  "systems_from systems [] = Inr systems"
| "systems_from systems (e # es) =
     rbind (map_err UnreadableRecord (series_record_from_bytes (snd e))) (\<lambda>record.
       let key = sr_key record
       in systems_from (if systems (sk_generation key) = None then systems(sk_generation key \<mapsto> sk_system key) else systems) es)"

definition systems_of :: "store_db \<Rightarrow> series_key list \<Rightarrow> inventory \<Rightarrow> unreadable + (generation \<rightharpoonup> system_key)" where
  "systems_of db owners stock =
     (let systems = foldl (\<lambda>m key. m(sk_generation key \<mapsto> sk_system key)) (\<lambda>_. None) owners;
          unnamed = list_ex (\<lambda>(g, _). systems g = None) (concat (om_values (iv_holders stock)))
      in if unnamed then systems_from systems (db_series db) else Inr systems)"

definition facts_of ::
  "file_key \<Rightarrow> block_record \<Rightarrow> inventory \<Rightarrow> (generation \<rightharpoonup> system_key) \<Rightarrow> blocks \<Rightarrow> world \<Rightarrow> file_facts" where
  "facts_of sp record stock systems b w =
     (let holders = (case om_get (iv_holders stock) sp of
            None \<Rightarrow> []
          | Some held \<Rightarrow> map (\<lambda>(g, bs). \<lparr>ho_owner = map_option (\<lambda>system. Owner system g) (systems g), ho_bytes = bs\<rparr>) held);
          condition = (if bs_contains (wo_in_flight w) sp then InFlight else blocks_condition b sp)
      in \<lparr>ff_tier = fst sp, ff_span = snd sp, ff_length = br_length record, ff_condition = condition, ff_holders = holders\<rparr>)"

definition retirement_of :: "file_key \<Rightarrow> inventory \<Rightarrow> retirement option" where
  "retirement_of sp stock = Option.bind (om_get (iv_rows stock) sp) (\<lambda>record.
     let generations = (case om_get (iv_holders stock) sp of Some held \<Rightarrow> map fst held | None \<Rightarrow> [])
     in Some \<lparr>rt_name = BlockName (fst sp) (snd sp) (br_rewrite record), rt_generations = generations\<rparr>)"

definition plan_retirements :: "store_db \<Rightarrow> blocks \<Rightarrow> series_key list \<Rightarrow> world \<Rightarrow> retirement list" where
  "plan_retirements db b owners w =
     (let stock = read_inventory db
      in case systems_of db owners stock of
           Inl _ \<Rightarrow> []
         | Inr systems \<Rightarrow>
             (let facts = map (\<lambda>(sp, record). facts_of sp record stock systems b w) (iv_rows stock);
                  plan = plan_files facts (wo_policies w) (wo_tombstones w) (wo_retention_now w)
              in List.map_filter (\<lambda>sp. retirement_of sp stock) (fp_retire plan)))"

definition retire_file :: "store_db \<Rightarrow> retirement \<Rightarrow> store_db" where
  "retire_file db file =
     (let c = tier_code (bn_tier (rt_name file)); start = span_get (bn_span (rt_name file))
      in db\<lparr>db_blocks := om_remove (db_blocks db) (c, start),
            db_block_generations := foldl (\<lambda>m g. om_remove m (generation_get g, c, start)) (db_block_generations db) (rt_generations file),
            db_pending_unlinks := om_insert (db_pending_unlinks db) (c, start, rewrite_get (bn_rewrite (rt_name file))) ()\<rparr>)"

text \<open>The loop of \<open>retire\<close>: the names retired so far, the entries spent, the queue.\<close>

primrec retire_loop :: "nat \<Rightarrow> block_name list \<Rightarrow> nat \<Rightarrow> store_db \<Rightarrow> retirement list \<Rightarrow> block_name list \<times> store_db \<times> retirement list" where
  "retire_loop limit retired spent db [] = (retired, db, [])"
| "retire_loop limit retired spent db (file # queue) =
     (if retired \<noteq> [] \<and> limit < spent + retirement_cost file then (retired, db, file # queue)
      else retire_loop limit (retired @ [rt_name file]) (spent + retirement_cost file) (retire_file db file) queue)"

definition retire :: "store_db \<Rightarrow> retirement list \<Rightarrow> nat \<Rightarrow> block_name list \<times> store_db \<times> retirement list" where
  "retire db queue limit = retire_loop limit [] 0 db queue"

section \<open>The schedule\<close>

datatype stage = StageChunks chunk_key | StageFiles "retirement list"

datatype pass_step = StepWorking | StepRetired "block_name list" | StepFinished

text \<open>Readings of \<open>Instant\<close> are nanoseconds, those of the monotonic clock durations.\<close>

record retention =
  re_clock :: u64
  re_interval :: nat
  re_next :: nat
  re_last_start :: "duration option"
  re_stage :: "stage option"

definition duration_sub :: "duration \<Rightarrow> duration \<Rightarrow> duration" where
  "duration_sub a b =
     (if subsec_nanos b \<le> subsec_nanos a
      then case checked_sub (as_secs a) (as_secs b) of Some s \<Rightarrow> Duration s (subsec_nanos a - subsec_nanos b) | None \<Rightarrow> Duration 0 0
      else case Option.bind (checked_sub (as_secs a) (as_secs b)) (\<lambda>s. checked_sub s 1) of
          Some s \<Rightarrow> Duration s (subsec_nanos a + 1000000000 - subsec_nanos b) | None \<Rightarrow> Duration 0 0)"

definition retention_new :: "u64 \<Rightarrow> nat \<Rightarrow> nat \<Rightarrow> retention" where
  "retention_new clock interval instant = \<lparr>re_clock = clock, re_interval = interval, re_next = instant + interval,
     re_last_start = None, re_stage = None\<rparr>"

definition retention_due :: "retention \<Rightarrow> nat \<Rightarrow> bool" where
  "retention_due r instant \<longleftrightarrow> re_stage r = None \<and> re_next r \<le> instant"

definition retention_begin :: "retention \<Rightarrow> duration \<Rightarrow> u64 \<Rightarrow> u64 \<Rightarrow> retention" where
  "retention_begin r reading hub_now system_now =
     (let since = (case re_last_start r of None \<Rightarrow> SinceOpen | Some l \<Rightarrow> Measured (duration_sub reading l))
      in r\<lparr>re_clock := retention_now (re_clock r) hub_now system_now since, re_last_start := Some reading,
           re_stage := Some (StageChunks (0, 0, 0, 0))\<rparr>)"

definition retention_world :: "retention \<Rightarrow> policies \<Rightarrow> tombstones \<Rightarrow> file_key btree_set \<Rightarrow> world" where
  "retention_world r p ts in_flight = \<lparr>wo_policies = p, wo_tombstones = ts, wo_retention_now = re_clock r, wo_in_flight = in_flight\<rparr>"

record pass_context =
  px_policies :: policies
  px_tombstones :: tombstones
  px_owners :: "(series_id, series_key) btree_map"
  px_blocks :: blocks

text \<open>\<open>refused\<close>: the series whose records redb refuses to read; any fails the step.  The values of the
  head's index are met in the order of their ids.\<close>

definition retention_scan ::
  "(u32 \<Rightarrow> bool) \<Rightarrow> retention \<Rightarrow> pass_context \<Rightarrow> store_db \<Rightarrow> handoffs \<Rightarrow> chunk_key \<Rightarrow> redb_error + stage \<times> store_db \<times> handoffs" where
  "retention_scan refused r px db h from =
     (let w = retention_world r (px_policies px) (px_tombstones px) (hf_in_flight h);
          visited = take BATCH (map fst (table_from (db_chunks db) from));
          failed = list_ex (\<lambda>(_, _, i, _). chunk_owner (refused i) (px_owners px) (db_series db) i = Inl UnreadableStore) visited;
          (scan, chunks) = delete_dead_chunks (db_chunks db) from BATCH (entry_fate refused (px_owners px) (db_series db) w)
      in if failed then Inl RedbRefused
         else let db = db\<lparr>db_chunks := chunks\<rparr>
           in case scan of
                ScanMore next \<Rightarrow> Inr (StageChunks next, db, h)
              | ScanDone \<Rightarrow>
                  (let h = forget_emptied db h;
                       w = retention_world r (px_policies px) (px_tombstones px) (hf_in_flight h)
                   in Inr (StageFiles (plan_retirements db (px_blocks px) (om_values (px_owners px)) w), db, h)))"

definition retention_step ::
  "(u32 \<Rightarrow> bool) \<Rightarrow> nat \<Rightarrow> pass_context \<Rightarrow> retention \<times> store_db \<times> handoffs \<Rightarrow> redb_error + pass_step \<times> retention \<times> store_db \<times> handoffs" where
  "retention_step refused instant px st = (case st of (r, db, h) \<Rightarrow>
     case re_stage r of
       None \<Rightarrow> Inr (StepWorking, r\<lparr>re_stage := None\<rparr>, db, h)
     | Some (StageChunks from) \<Rightarrow>
         rbind (retention_scan refused r px db h from) (\<lambda>(stage, db, h). Inr (StepWorking, r\<lparr>re_stage := Some stage\<rparr>, db, h))
     | Some (StageFiles []) \<Rightarrow> Inr (StepFinished, r\<lparr>re_next := instant + re_interval r, re_stage := None\<rparr>, db, h)
     | Some (StageFiles (file # queue)) \<Rightarrow>
         (case retire db (file # queue) BATCH of (retired, db, queue) \<Rightarrow>
            Inr (StepRetired retired, r\<lparr>re_stage := Some (StageFiles queue)\<rparr>, db, h)))"

section \<open>What a batch deletes\<close>

lemma foldl_om_remove: "foldl om_remove m ks = filter (\<lambda>e. fst e \<notin> set ks) m"
  by (induction ks arbitrary: m) (auto simp: om_remove_def intro: filter_cong)

lemma table_from_append:
  assumes "\<forall>e\<in>set xs. fst e < lo" and "\<forall>e\<in>set ys. lo \<le> fst e"
  shows "table_from (xs @ ys) lo = ys"
proof -
  have "filter (\<lambda>(k, _). lo \<le> k) xs = []" and "filter (\<lambda>(k, _). lo \<le> k) ys = ys"
    using assms by (fastforce simp: filter_empty_conv filter_id_conv)+
  then show ?thesis by (simp add: table_from_def)
qed

lemma remove_batch:
  assumes "distinct (map fst (xs @ b @ zs))"
  shows "filter (\<lambda>e. fst e \<notin> set (filter P (map fst b))) (xs @ b @ zs) = xs @ filter (\<lambda>e. \<not> P (fst e)) b @ zs"
proof -
  have "fst e \<notin> fst ` set b" if "e \<in> set xs \<union> set zs" for e
    using assms that by (auto simp del: image_iff)
  then have "filter (\<lambda>e. fst e \<notin> set (filter P (map fst b))) xs = xs"
    and "filter (\<lambda>e. fst e \<notin> set (filter P (map fst b))) zs = zs"
    by (simp_all add: filter_id_conv)
  moreover have "filter (\<lambda>e. fst e \<notin> set (filter P (map fst b))) b = filter (\<lambda>e. \<not> P (fst e)) b"
    by (intro filter_cong) auto
  ultimately show ?thesis by simp
qed

text \<open>The entries of a valid table split at any key.\<close>

lemma table_split:
  assumes "om_valid m"
  shows "m = filter (\<lambda>e. fst e < lo) m @ table_from m lo"
  using assms
proof (induction m)
  case (Cons e m)
  then have "om_valid m" by (simp add: om_valid_def)
  show ?case
  proof (cases "fst e < lo")
    case False
    then have "lo \<le> fst e" by simp
    then have "\<forall>x\<in>set m. lo < fst x"
      using Cons.prems by (force simp: om_valid_def)
    then have "filter (\<lambda>e. fst e < lo) m = []" and "table_from m lo = m"
      by (force simp: filter_empty_conv table_from_def filter_id_conv)+
    with \<open>lo \<le> fst e\<close> show ?thesis by (auto simp: table_from_def split: prod.splits)
  qed (use Cons \<open>om_valid m\<close> in \<open>auto simp: table_from_def split: prod.splits\<close>)
qed (simp add: table_from_def)

lemma delete_dead_chunks_split:
  assumes valid: "om_valid m" and m: "m = xs @ ys" and later: "table_from m from = ys"
  shows "delete_dead_chunks m from limit fate =
    (case drop limit ys of [] \<Rightarrow> ScanDone | e # _ \<Rightarrow> ScanMore (fst e),
     xs @ filter (\<lambda>e. fate (fst e) \<noteq> ChunkDelete) (take limit ys) @ drop limit ys)"
proof -
  let ?b = "take limit ys"
  have distinct: "distinct (map fst (xs @ ?b @ drop limit ys))"
    using om_valid_distinct [OF valid] m by simp
  have batch: "take (min (length (take (limit + 1) (map fst ys))) limit) (take (limit + 1) (map fst ys)) = map fst ?b"
    by (simp add: take_map min_def)
  have rest: "drop (min (length (take (limit + 1) (map fst ys))) limit) (take (limit + 1) (map fst ys)) = map fst (take 1 (drop limit ys))"
    by (cases "limit < length ys") (simp_all add: take_map drop_map min_def drop_take)
  have "filter (\<lambda>e. fst e \<notin> set (filter (\<lambda>k. fate k = ChunkDelete) (map fst ?b))) m
      = xs @ filter (\<lambda>e. fate (fst e) \<noteq> ChunkDelete) ?b @ drop limit ys"
    using remove_batch [OF distinct, of "\<lambda>k. fate k = ChunkDelete"] by (simp only: m append_take_drop_id)
  moreover have "(case map fst (take 1 (drop limit ys)) of [] \<Rightarrow> ScanDone | next # _ \<Rightarrow> ScanMore next)
      = (case drop limit ys of [] \<Rightarrow> ScanDone | e # _ \<Rightarrow> ScanMore (fst e))"
    by (cases "drop limit ys") simp_all
  ultimately show ?thesis
    unfolding delete_dead_chunks_def Let_def later batch rest foldl_om_remove by (simp only:)
qed

text \<open>A scan in batches to the end of the table, as the commits run it, with no other writer between.\<close>

primrec scan_batches ::
  "nat \<Rightarrow> nat \<Rightarrow> (chunk_key \<Rightarrow> chunk_fate) \<Rightarrow> chunk_key \<Rightarrow> (chunk_key, bytes) btree_map \<Rightarrow> (chunk_key, bytes) btree_map option" where
  "scan_batches 0 limit fate from chunks = None"
| "scan_batches (Suc n) limit fate from chunks = (case delete_dead_chunks chunks from limit fate of
       (ScanDone, chunks) \<Rightarrow> Some chunks
     | (ScanMore next, chunks) \<Rightarrow> scan_batches n limit fate next chunks)"

lemma scan_batches_from:
  assumes "0 < limit" and "om_valid (xs @ ys)" and "table_from (xs @ ys) start = ys" and "length ys < n"
  shows "scan_batches n limit fate start (xs @ ys) = Some (xs @ filter (\<lambda>e. fate (fst e) \<noteq> ChunkDelete) ys)"
  using assms
proof (induction n arbitrary: xs ys start)
  case (Suc n)
  note batch = delete_dead_chunks_split [OF Suc.prems(2) refl Suc.prems(3), of limit fate]
  show ?case
  proof (cases "drop limit ys")
    case Nil
    then show ?thesis using batch by simp
  next
    case (Cons e zs)
    let ?b = "filter (\<lambda>e. fate (fst e) \<noteq> ChunkDelete) (take limit ys)"
    have ys: "ys = take limit ys @ e # zs" using append_take_drop_id [of limit ys] Cons by simp
    have sorted: "sorted_wrt (<) (map fst (xs @ take limit ys @ e # zs))"
      using Suc.prems(2) ys by (simp add: om_valid_def)
    then have valid: "om_valid ((xs @ ?b) @ e # zs)"
      unfolding om_valid_def sorted_wrt_map by (auto simp: sorted_wrt_append intro: sorted_wrt_filter)
    moreover have "table_from ((xs @ ?b) @ e # zs) (fst e) = e # zs"
      using sorted by (intro table_from_append) (auto simp: sorted_wrt_append)
    moreover have "length (e # zs) < n"
      using Suc.prems(1,4) arg_cong [OF Cons, of length] by simp
    ultimately have "scan_batches n limit fate (fst e) ((xs @ ?b) @ e # zs)
        = Some ((xs @ ?b) @ filter (\<lambda>e. fate (fst e) \<noteq> ChunkDelete) (e # zs))"
      using Suc.IH [OF Suc.prems(1)] by blast
    then show ?thesis
      using batch Cons by (subst (2) ys) simp
  qed
qed simp

section \<open>What a pass deletes\<close>

lemma chunk_fate_delete:
  "entry_fate refused owners series w (c, start, i, n) = ChunkDelete \<longleftrightarrow>
    (\<exists>t sp owner. chunk_span (c, start, i, n) = Some (t, sp) \<and> (t, sp) \<notin> set (wo_in_flight w)
      \<and> chunk_owner (refused i) owners series i = Inr owner
      \<and> chunk_liveness t sp owner (wo_policies w) (wo_tombstones w) (wo_retention_now w) \<noteq> Live)"
  by (auto simp: entry_fate_def chunk_fate_of_def bs_contains_def split: sum.splits option.splits liveness.splits)

lemma plan_files_retire:
  "fp_retire (plan_files files p ts now) = map (\<lambda>f. (ff_tier f, ff_span f)) (filter (\<lambda>f. file_fate_of f p ts now = Retire) files)"
  by (simp add: plan_files_def Let_def filter_map o_def)

subsection \<open>The inventory\<close>

lemma inventory_span_Some: "inventory_span c start = Some (t, sp) \<longleftrightarrow> c = tier_code t \<and> start = span_get sp \<and> span_on_grid t sp"
  by (auto simp: inventory_span_def bind_eq_Some_conv tier_from_code_code span_new_Some span_on_grid_def
      dest: tier_from_code_Some)

definition holders_in :: "file_key \<Rightarrow> (u64 \<times> u8 \<times> u64, u64) btree_map \<Rightarrow> (generation \<times> u64) list" where
  "holders_in sp es = map (\<lambda>((g, _, _), bs). (Generation g, bs)) (filter (\<lambda>((_, c, start), _). inventory_span c start = Some sp) es)"

lemma inventory_holders:
  "om_get (foldl inventory_holder holders es) sp
    = (if holders_in sp es = [] then om_get holders sp
       else Some ((case om_get holders sp of Some hs \<Rightarrow> hs | None \<Rightarrow> []) @ holders_in sp es))"
proof (induction es arbitrary: holders)
  case (Cons e es)
  obtain g c start bs where e: "e = ((g, c, start), bs)" by (cases e) auto
  show ?case
  proof (cases "inventory_span c start")
    case None
    then show ?thesis using Cons.IH by (simp add: e inventory_holder_def holders_in_def)
  next
    case (Some s)
    then show ?thesis
      using Cons.IH by (auto simp: e inventory_holder_def holders_in_def om_get_insert split: option.splits)
  qed
qed (simp add: holders_in_def)

lemma inventory_rows:
  assumes "om_get (foldl inventory_row rows es) sp = Some row"
  shows "om_get rows sp = Some row
    \<or> (\<exists>bs. ((tier_code (fst sp), span_get (snd sp)), bs) \<in> set es \<and> block_record_from_bytes bs = Inr row)"
  using assms
proof (induction es arbitrary: rows)
  case (Cons e es)
  obtain c start bs where e: "e = ((c, start), bs)" by (cases e) auto
  have "om_get (inventory_row rows e) sp = Some row \<Longrightarrow> om_get rows sp = Some row
      \<or> (c = tier_code (fst sp) \<and> start = span_get (snd sp) \<and> block_record_from_bytes bs = Inr row)"
    by (cases "inventory_span c start"; cases "block_record_from_bytes bs"; cases sp)
      (auto simp: e inventory_row_def om_get_insert inventory_span_Some split: if_splits)
  with Cons.IH [of "inventory_row rows e"] Cons.prems show ?case by (auto simp: e)
qed simp

lemma inventory_row_valid: "om_valid rows \<Longrightarrow> om_valid (foldl inventory_row rows es)"
  by (induction es arbitrary: rows) (auto simp: inventory_row_def om_insert_valid split: option.splits prod.splits)

subsection \<open>Who owns a generation\<close>

definition named_keys :: "store_db \<Rightarrow> series_key list \<Rightarrow> series_key set" where
  "named_keys db owners = set owners \<union> {sr_key row |row i bs. (i, bs) \<in> set (db_series db) \<and> series_record_from_bytes bs = Inr row}"

lemma named_keysI:
  "key \<in> set owners \<Longrightarrow> key \<in> named_keys db owners"
  "(i, bs) \<in> set (db_series db) \<Longrightarrow> series_record_from_bytes bs = Inr row \<Longrightarrow> sr_key row \<in> named_keys db owners"
  by (auto simp: named_keys_def)

lemma systems_head:
  "foldl (\<lambda>m key. m(sk_generation key \<mapsto> sk_system key)) m owners g
    = (let ks = filter (\<lambda>k. sk_generation k = g) owners in if ks = [] then m g else Some (sk_system (last ks)))"
  by (induction owners arbitrary: m rule: rev_induct) (auto simp: Let_def)

lemma systems_from_Inr:
  assumes "systems_from m es = Inr m'"
  shows "(m g \<noteq> None \<longrightarrow> m' g = m g)
    \<and> (m' g = Some s \<longrightarrow> m g = Some s \<or> (\<exists>i bs row. (i, bs) \<in> set es \<and> series_record_from_bytes bs = Inr row
        \<and> sk_generation (sr_key row) = g \<and> sk_system (sr_key row) = s))
    \<and> (\<forall>i bs row. (i, bs) \<in> set es \<and> series_record_from_bytes bs = Inr row \<and> sk_generation (sr_key row) = g \<longrightarrow> m' g \<noteq> None)"
  using assms
proof (induction es arbitrary: m)
  case (Cons e es)
  obtain row where row: "series_record_from_bytes (snd e) = Inr row"
    and rest: "systems_from (if m (sk_generation (sr_key row)) = None then m(sk_generation (sr_key row) \<mapsto> sk_system (sr_key row)) else m) es = Inr m'"
    using Cons.prems by (auto simp: result_simps Let_def)
  show ?case
    using Cons.IH [OF rest] row by (cases e) (auto split: if_splits; metis option.distinct(1))
qed simp

lemma systems_of_named:
  assumes systems: "systems_of db owners stock = Inr systems" and held: "held \<in> set (om_values (iv_holders stock))" and g: "(g, n) \<in> set held"
    and one: "\<forall>k\<in>named_keys db owners. \<forall>k'\<in>named_keys db owners. sk_generation k = sk_generation k' \<longrightarrow> sk_system k = sk_system k'"
    and key: "key \<in> named_keys db owners" "sk_generation key = g"
  shows "systems g = Some (sk_system key)"
proof -
  define m where "m = foldl (\<lambda>m key. m(sk_generation key \<mapsto> sk_system key)) (\<lambda>_. None) owners"
  have head: "m g = Some (sk_system key)" if some: "m g \<noteq> None"
  proof -
    let ?ks = "filter (\<lambda>k. sk_generation k = g) owners"
    have ks: "?ks \<noteq> []" and m: "m g = Some (sk_system (last ?ks))"
      using some by (auto simp: m_def systems_head Let_def split: if_splits)
    from ks have "last ?ks \<in> set ?ks" by (rule last_in_set)
    then have "last ?ks \<in> named_keys db owners" and "sk_generation (last ?ks) = sk_generation key"
      using key(2) named_keysI(1) by auto
    then have "sk_system (last ?ks) = sk_system key"
      using one key(1) by blast
    with m show ?thesis by simp
  qed
  show ?thesis
  proof (cases "list_ex (\<lambda>(g, _). m g = None) (concat (om_values (iv_holders stock)))")
    case False
    then have "m g \<noteq> None" using held g by (auto simp: list_ex_iff)
    moreover have "systems = m" using systems False by (simp add: systems_of_def Let_def m_def)
    ultimately show ?thesis using head by simp
  next
    case True
    then have src: "systems_from m (db_series db) = Inr systems" using systems by (simp add: systems_of_def Let_def m_def)
    show ?thesis
    proof (cases "m g")
      case None
      then have "key \<notin> set owners" using key(2) by (auto simp: m_def systems_head Let_def filter_empty_conv split: if_splits)
      then obtain i bs row where "(i, bs) \<in> set (db_series db)" "series_record_from_bytes bs = Inr row" "key = sr_key row"
        using key(1) by (auto simp: named_keys_def)
      then have "systems g \<noteq> None"
        using systems_from_Inr [OF src, of g] key(2) by blast
      then obtain s where "systems g = Some s" by auto
      moreover from this obtain i bs row where "(i, bs) \<in> set (db_series db)" "series_record_from_bytes bs = Inr row"
        "sk_generation (sr_key row) = g" "sk_system (sr_key row) = s"
        using systems_from_Inr [OF src, of g s] None by auto
      moreover from this have "sr_key row \<in> named_keys db owners" by (intro named_keysI(2))
      ultimately show ?thesis using one key by metis
    qed (use head systems_from_Inr [OF src, of g] in auto)
  qed
qed

lemma read_inventory_simps:
  "om_get (iv_holders (read_inventory db)) sp
    = (if holders_in sp (db_block_generations db) = [] then None else Some (holders_in sp (db_block_generations db)))"
  "iv_rows (read_inventory db) = filter (\<lambda>(sp, row). br_chunk_count row = 0 \<or> om_get (iv_holders (read_inventory db)) sp \<noteq> None)
    (foldl inventory_row [] (db_blocks db))"
  by (simp_all add: read_inventory_def Let_def inventory_holders)

lemma read_inventory_valid: "om_valid (iv_rows (read_inventory db))"
  using inventory_row_valid [of "[]" "db_blocks db"]
  by (simp add: read_inventory_simps(2) om_valid_def sorted_wrt_map sorted_wrt_filter)

lemma plan_retirementsE:
  assumes "r \<in> set (plan_retirements db b owners w)"
  obtains systems sp row where "systems_of db owners (read_inventory db) = Inr systems"
    and "om_get (iv_rows (read_inventory db)) sp = Some row"
    and "rt_name r = BlockName (fst sp) (snd sp) (br_rewrite row)" and "rt_generations r = map fst (holders_in sp (db_block_generations db))"
    and "file_fate_of (facts_of sp row (read_inventory db) systems b w) (wo_policies w) (wo_tombstones w) (wo_retention_now w) = Retire"
proof -
  let ?stock = "read_inventory db"
  obtain systems where systems: "systems_of db owners ?stock = Inr systems"
    using assms by (cases "systems_of db owners ?stock") (simp_all add: plan_retirements_def Let_def)
  then have "r \<in> set (List.map_filter (\<lambda>sp. retirement_of sp ?stock) (fp_retire (plan_files
        (map (\<lambda>(sp, row). facts_of sp row ?stock systems b w) (iv_rows ?stock)) (wo_policies w) (wo_tombstones w) (wo_retention_now w))))"
    using assms by (simp add: plan_retirements_def Let_def)
  then obtain sp row where row: "(sp, row) \<in> set (iv_rows ?stock)" and r: "retirement_of sp ?stock = Some r"
    and fate: "file_fate_of (facts_of sp row ?stock systems b w) (wo_policies w) (wo_tombstones w) (wo_retention_now w) = Retire"
    by (fastforce simp: map_filter_def plan_files_retire facts_of_def Let_def)
  have "om_get (iv_rows ?stock) sp = Some row"
    using row read_inventory_valid by (simp add: om_get_iff)
  with that [OF systems _ _ _ fate] r show thesis
    by (auto simp: retirement_of_def Let_def read_inventory_simps(1) split: if_splits)
qed

lemma read_inventory_row:
  assumes "om_valid (db_blocks db)" and "om_get (iv_rows (read_inventory db)) sp = Some row"
  shows "\<exists>bs. om_get (db_blocks db) (tier_code (fst sp), span_get (snd sp)) = Some bs \<and> block_record_from_bytes bs = Inr row"
    and "br_chunk_count row = 0 \<or> holders_in sp (db_block_generations db) \<noteq> []"
proof -
  have "(sp, row) \<in> set (iv_rows (read_inventory db))" using assms(2) by (rule om_get_in)
  then have row: "(sp, row) \<in> set (foldl inventory_row [] (db_blocks db))"
    and "br_chunk_count row = 0 \<or> om_get (iv_holders (read_inventory db)) sp \<noteq> None"
    by (simp_all add: read_inventory_simps(2))
  then show "br_chunk_count row = 0 \<or> holders_in sp (db_block_generations db) \<noteq> []"
    by (auto simp: read_inventory_simps(1))
  have "om_get (foldl inventory_row [] (db_blocks db)) sp = Some row"
    using row inventory_row_valid [of "[]" "db_blocks db"] by (simp add: om_get_iff)
  then show "\<exists>bs. om_get (db_blocks db) (tier_code (fst sp), span_get (snd sp)) = Some bs \<and> block_record_from_bytes bs = Inr row"
    using inventory_rows [of "[]" "db_blocks db" sp row] assms(1) by (auto simp: om_get_iff)
qed

section \<open>Properties\<close>

text \<open>C17. A pass over \<open>chunks\<close> ends, and deletes exactly the dead chunks: scanned in batches to its end, the
  table keeps, in order, every entry but those of a span not in flight whose owner could be read and is
  unmapped, tombstoned or past its system's period by the retention clock.\<close>

theorem retention_pass_exact:
  assumes "om_valid (db_chunks db)" and "length (db_chunks db) < n"
  shows "scan_batches n BATCH (entry_fate refused owners (db_series db) w) (0, 0, 0, 0) (db_chunks db)
    = Some (filter (\<lambda>((c, start, i, q), _). \<not> (\<exists>t sp owner. chunk_span (c, start, i, q) = Some (t, sp)
        \<and> (t, sp) \<notin> set (wo_in_flight w) \<and> chunk_owner (refused i) owners (db_series db) i = Inr owner
        \<and> chunk_liveness t sp owner (wo_policies w) (wo_tombstones w) (wo_retention_now w) \<noteq> Live)) (db_chunks db))"
proof -
  have least: "(0, 0, 0, 0) \<le> k" for k :: chunk_key
    by (cases k) (simp add: less_eq_prod_simp)
  have "table_from (db_chunks db) (0, 0, 0, 0) = db_chunks db"
    by (simp add: table_from_def least filter_id_conv split: prod.splits)
  then have "scan_batches n BATCH (entry_fate refused owners (db_series db) w) (0, 0, 0, 0) ([] @ db_chunks db)
      = Some ([] @ filter (\<lambda>e. entry_fate refused owners (db_series db) w (fst e) \<noteq> ChunkDelete) (db_chunks db))"
    using assms by (intro scan_batches_from) (simp_all add: BATCH_def)
  also have "filter (\<lambda>e. entry_fate refused owners (db_series db) w (fst e) \<noteq> ChunkDelete) (db_chunks db)
      = filter (\<lambda>((c, start, i, q), _). \<not> entry_fate refused owners (db_series db) w (c, start, i, q) = ChunkDelete) (db_chunks db)"
    by (intro filter_cong) auto
  finally show ?thesis
    unfolding chunk_fate_delete by simp
qed

theorem retention_pass_exact_witness:
  "let db = db_empty\<lparr>db_chunks := [((0, 3600, 7, 0), [1]), ((9, 0, 7, 0), [2])]\<rparr>;
       w = \<lparr>wo_policies = policies_new policy_default, wo_tombstones = Tombstones [], wo_retention_now = 0, wo_in_flight = []\<rparr>
   in scan_batches 3 BATCH (entry_fate (\<lambda>_. False) [] (db_series db) w) (0, 0, 0, 0) (db_chunks db) = Some [((9, 0, 7, 0), [2])]"
proof -
  let ?db = "db_empty\<lparr>db_chunks := [((0, 3600, 7, 0), [1]), ((9, 0, 7, 0), [2])]\<rparr>"
  show ?thesis
    using retention_pass_exact [of ?db 3 "\<lambda>_. False" "[]" "\<lparr>wo_policies = policies_new policy_default, wo_tombstones = Tombstones [], wo_retention_now = 0, wo_in_flight = []\<rparr>"]
    by (simp add: Let_def om_valid_def less_prod_simp chunk_owner_def recorded_key_def db_empty_def chunk_liveness_def chunk_span_def
        tier_from_code_def all_tiers_def tier_code_def span_new_def span_secs_def)
qed

text \<open>C18. A file is retired only on the death of all it holds: each planned retirement names a row's file,
  not in flight, whose row says it holds no chunk or whose holders are recorded; every holder recorded
  for the span is among the generations it removes; and where a generation belongs to one system, a
  holder some series names is dead by that system's policy.\<close>

theorem plan_retirements_sound:
  assumes "om_valid (db_blocks db)" and "r \<in> set (plan_retirements db b owners w)"
    and "\<forall>k\<in>named_keys db owners. \<forall>k'\<in>named_keys db owners. sk_generation k = sk_generation k' \<longrightarrow> sk_system k = sk_system k'"
  shows "let t = bn_tier (rt_name r); sp = bn_span (rt_name r) in
    (\<exists>bs row. om_get (db_blocks db) (tier_code t, span_get sp) = Some bs \<and> block_record_from_bytes bs = Inr row
      \<and> br_rewrite row = bn_rewrite (rt_name r) \<and> (br_chunk_count row = 0 \<or> rt_generations r \<noteq> []))
    \<and> (t, sp) \<notin> set (wo_in_flight w)
    \<and> (\<forall>g n. ((g, tier_code t, span_get sp), n) \<in> set (db_block_generations db) \<and> span_on_grid t sp \<longrightarrow>
        Generation g \<in> set (rt_generations r)
        \<and> (\<forall>key\<in>named_keys db owners. sk_generation key = Generation g \<longrightarrow>
            chunk_liveness t sp (Some (Owner (sk_system key) (Generation g))) (wo_policies w) (wo_tombstones w) (wo_retention_now w) \<noteq> Live))"
proof -
  obtain systems sp row where systems: "systems_of db owners (read_inventory db) = Inr systems"
    and get: "om_get (iv_rows (read_inventory db)) sp = Some row"
    and names: "rt_name r = BlockName (fst sp) (snd sp) (br_rewrite row)" "rt_generations r = map fst (holders_in sp (db_block_generations db))"
    and fate: "file_fate_of (facts_of sp row (read_inventory db) systems b w) (wo_policies w) (wo_tombstones w) (wo_retention_now w) = Retire"
    using assms(2) by (rule plan_retirementsE)
  let ?held = "holders_in sp (db_block_generations db)"
  have flight: "sp \<notin> set (wo_in_flight w)"
    using fate by (auto simp: file_fate_retire facts_of_def Let_def bs_contains_def split: if_splits)
  have dead: "(g, n) \<in> set ?held \<Longrightarrow> chunk_liveness (fst sp) (snd sp) (map_option (\<lambda>system. Owner system g) (systems g))
      (wo_policies w) (wo_tombstones w) (wo_retention_now w) \<noteq> Live" for g n
    using fate by (fastforce simp: file_fate_retire facts_of_def Let_def holder_liveness_def read_inventory_simps(1) split: if_splits)
  have "Generation g \<in> set (rt_generations r) \<and> (\<forall>key\<in>named_keys db owners. sk_generation key = Generation g \<longrightarrow>
      chunk_liveness (fst sp) (snd sp) (Some (Owner (sk_system key) (Generation g))) (wo_policies w) (wo_tombstones w) (wo_retention_now w) \<noteq> Live)"
    if entry: "((g, tier_code (fst sp), span_get (snd sp)), n) \<in> set (db_block_generations db)" and grid: "span_on_grid (fst sp) (snd sp)" for g n
  proof -
    have "inventory_span (tier_code (fst sp)) (span_get (snd sp)) = Some sp"
      using grid inventory_span_Some [of _ _ "fst sp" "snd sp"] by simp
    then have in_held: "(Generation g, n) \<in> set ?held" using entry by (force simp: holders_in_def)
    then have "om_get (iv_holders (read_inventory db)) sp = Some ?held"
      by (auto simp: read_inventory_simps(1))
    then have "?held \<in> set (om_values (iv_holders (read_inventory db)))"
      by (force simp: om_values_def dest: om_get_in)
    then have "systems (Generation g) = Some (sk_system key)" if "key \<in> named_keys db owners" "sk_generation key = Generation g" for key
      using systems_of_named [OF systems _ in_held assms(3) that] by blast
    with dead [OF in_held] in_held show ?thesis by (force simp: names)
  qed
  then show ?thesis
    using read_inventory_row [OF assms(1) get] flight by (auto simp: Let_def names)
qed

theorem plan_retirements_sound_witness:
  "let row = \<lparr>br_format = 1, br_rewrite = RewriteNo 0, br_length = 10, br_chunk_count = 1, br_tombstoned = 0\<rparr>;
       key = \<lparr>sk_system = SystemKey [104], sk_generation = Generation 5, sk_metric = MetricName [99]\<rparr>;
       db = db_empty\<lparr>db_blocks := [((0, 3600), block_record_to_bytes row)], db_block_generations := [((5, 0, 3600), 10)]\<rparr>;
       w = \<lparr>wo_policies = policies_new policy_default, wo_tombstones = Tombstones [Owner (SystemKey [104]) (Generation 5)],
            wo_retention_now = 0, wo_in_flight = []\<rparr>;
       r = \<lparr>rt_name = BlockName Raw (SpanStart 3600) (RewriteNo 0), rt_generations = [Generation 5]\<rparr>
   in r \<in> set (plan_retirements db blocks_new [key] w)
    \<and> chunk_liveness Raw (SpanStart 3600) (Some (Owner (SystemKey [104]) (Generation 5))) (wo_policies w) (wo_tombstones w) 0 \<noteq> Live"
proof -
  define row where "row = \<lparr>br_format = 1, br_rewrite = RewriteNo 0, br_length = 10, br_chunk_count = 1, br_tombstoned = 0\<rparr>"
  define key where "key = \<lparr>sk_system = SystemKey [104], sk_generation = Generation 5, sk_metric = MetricName [99]\<rparr>"
  define db where "db = db_empty\<lparr>db_blocks := [((0, 3600), block_record_to_bytes row)], db_block_generations := [((5, 0, 3600), 10)]\<rparr>"
  define w where "w = \<lparr>wo_policies = policies_new policy_default, wo_tombstones = Tombstones [Owner (SystemKey [104]) (Generation 5)],
            wo_retention_now = 0, wo_in_flight = []\<rparr>"
  define r where "r = \<lparr>rt_name = BlockName Raw (SpanStart 3600) (RewriteNo 0), rt_generations = [Generation 5]\<rparr>"
  have span: "inventory_span 0 3600 = Some (Raw, SpanStart 3600)"
    by (simp add: inventory_span_def tier_from_code_def all_tiers_def tier_code_def span_new_def span_secs_def)
  have decode: "block_record_from_bytes (block_record_to_bytes row) = Inr row"
    using block_record_codec by blast
  have stock: "read_inventory db = \<lparr>iv_rows = [((Raw, SpanStart 3600), row)], iv_holders = [((Raw, SpanStart 3600), [(Generation 5, 10)])]\<rparr>"
    by (simp add: read_inventory_def db_def db_empty_def inventory_row_def inventory_holder_def span decode om_get_def)
  have facts: "facts_of (Raw, SpanStart 3600) row (read_inventory db) [Generation 5 \<mapsto> SystemKey [104]] blocks_new w
      = \<lparr>ff_tier = Raw, ff_span = SpanStart 3600, ff_length = 10, ff_condition = Sound,
         ff_holders = [\<lparr>ho_owner = Some (Owner (SystemKey [104]) (Generation 5)), ho_bytes = 10\<rparr>]\<rparr>"
    by (simp add: facts_of_def stock om_get_def w_def bs_contains_def blocks_condition_def blocks_new_def row_def)
  have systems: "systems_of db [key] (read_inventory db) = Inr [Generation 5 \<mapsto> SystemKey [104]]"
    by (simp add: systems_of_def stock om_values_def key_def)
  have fate: "file_fate_of (facts_of (Raw, SpanStart 3600) row (read_inventory db) [Generation 5 \<mapsto> SystemKey [104]] blocks_new w)
      (wo_policies w) (wo_tombstones w) (wo_retention_now w) = Retire"
    unfolding facts by (simp add: file_fate_retire holder_liveness_def chunk_liveness_def w_def ts_contains_def bs_contains_def)
  have "retirement_of (Raw, SpanStart 3600) (read_inventory db) = Some r"
    by (simp add: retirement_of_def stock om_get_def row_def r_def)
  then have planned: "r \<in> set (plan_retirements db blocks_new [key] w)"
    using fate [unfolded facts] arg_cong [OF stock, of iv_rows]
    by (simp add: plan_retirements_def Let_def systems plan_files_retire map_filter_def facts)
  have keys: "named_keys db [key] = {key}" by (simp add: named_keys_def db_def db_empty_def)
  have valid: "om_valid (db_blocks db)" by (simp add: db_def om_valid_def)
  have entry: "((5, tier_code Raw, span_get (SpanStart 3600)), 10) \<in> set (db_block_generations db) \<and> span_on_grid Raw (SpanStart 3600)"
    by (simp add: db_def tier_code_def span_on_grid_def span_secs_def)
  have one: "\<forall>k\<in>named_keys db [key]. \<forall>k'\<in>named_keys db [key]. sk_generation k = sk_generation k' \<longrightarrow> sk_system k = sk_system k'"
    by (simp add: keys)
  have name: "bn_tier (rt_name r) = Raw" "bn_span (rt_name r) = SpanStart 3600" by (simp_all add: r_def)
  note sound = plan_retirements_sound [OF valid planned one, unfolded Let_def name keys, THEN conjunct2, THEN conjunct2, rule_format, OF entry]
  have "chunk_liveness Raw (SpanStart 3600) (Some (Owner (sk_system key) (Generation 5))) (wo_policies w) (wo_tombstones w) (wo_retention_now w) \<noteq> Live"
    using sound [THEN conjunct2, rule_format, of key] by (simp only: key_def) simp
  then show ?thesis
    using planned unfolding Let_def row_def [symmetric] key_def [symmetric] db_def [symmetric] w_def [symmetric] r_def [symmetric]
    by (simp add: key_def w_def)
qed

end
