(* ===== verification/Block_Writer.thy ===== *)
theory Block_Writer
  imports Store_Blocks Block_Roundtrip
begin

text \<open>
  Both sides of the span handoff: the block writer thread's reading of a closed span and writing of its
  file (\<open>system-hub/hub-store/src/store/handoff.rs\<close>), and the writer's commit of the outcome
  (\<open>commit_handoff\<close> of \<open>store/writer/files.rs\<close>), which inserts the row and deletes the span's chunks
  in one transaction.
\<close>

datatype job = JobHandOff block_name | JobUnlink block_name

datatype outcome =
    Written block_name block_record block_summary "(generation, u64) btree_map"
  | HandoffFailed block_name handoff_failure

section \<open>The block writer\<close>

text \<open>The loop of \<open>read_span\<close>: the owners met so far, the bytes of each generation, the chunks held.\<close>

primrec read_span_entries ::
  "(u32 \<Rightarrow> bool) \<Rightarrow> (u32, bytes) btree_map \<Rightarrow> (u32 \<rightharpoonup> generation option) \<Rightarrow> (generation, u64) btree_map \<Rightarrow> (series_id \<times> u16 \<times> bytes) list
    \<Rightarrow> (chunk_key, bytes) btree_map \<Rightarrow> unreadable + (series_id \<times> u16 \<times> bytes) list \<times> (generation, u64) btree_map" where
  "read_span_entries refused series owners generations held [] = Inr (held, generations)"
| "read_span_entries refused series owners generations held (e # es) = (case e of ((_, _, i, seq), bs) \<Rightarrow>
     rbind (case owners i of
              Some _ \<Rightarrow> Inr owners
            | None \<Rightarrow> rbind (recorded_key (refused i) series i) (\<lambda>key. Inr (owners(i \<mapsto> map_option sk_generation key)))) (\<lambda>owners.
       let generations = (case owners i of
             Some (Some g) \<Rightarrow> om_insert generations g
               ((case om_get generations g of Some n \<Rightarrow> n | None \<Rightarrow> 0) + of_nat (length bs))
           | _ \<Rightarrow> generations)
       in read_span_entries refused series owners generations (held @ [(SeriesId i, seq, bs)]) es))"

definition read_span_chunks ::
  "bool \<Rightarrow> (u32 \<Rightarrow> bool) \<Rightarrow> store_db \<Rightarrow> block_name \<Rightarrow> unreadable + (series_id \<times> u16 \<times> bytes) list \<times> (generation, u64) btree_map" where
  "read_span_chunks refused record_refused db name =
     (if refused then Inl UnreadableStore
      else case span_range (bn_tier name) (bn_span name) of (lo, hi) \<Rightarrow>
        read_span_entries record_refused (db_series db) (\<lambda>_. None) [] [] (table_range (db_chunks db) lo hi))"

definition span_summary :: "crc32c_fns \<Rightarrow> block_name \<Rightarrow> bytes \<Rightarrow> block_summary option" where
  "span_summary C name bs =
     (let len = length bs
      in if len < TRAILER_LEN then None
         else Option.bind (ok (read_trailer (drop (len - TRAILER_LEN) bs))) (\<lambda>offset.
           if len < HEADER_LEN \<or> len < unat offset then None
           else ok (block_summary_parse C (bn_tier name) (bn_span name) (take HEADER_LEN bs) (drop (unat offset) bs) (of_nat len))))"

text \<open>What the environment decides of one handoff: redb's refusals and the failures of the file system.\<close>

record handoff_env =
  he_read_refused :: bool
  he_record_refused :: "u32 \<Rightarrow> bool"
  he_write :: write_env

definition write_span ::
  "crc32c_fns \<Rightarrow> handoff_env \<Rightarrow> store_db \<Rightarrow> block_dir \<Rightarrow> block_name
    \<Rightarrow> (handoff_failure + block_record \<times> block_summary \<times> (generation, u64) btree_map) \<times> block_dir" where
  "write_span C env db d name = (case read_span_chunks (he_read_refused env) (he_record_refused env) db name of
       Inl _ \<Rightarrow> (Inl HandoffRead, d)
     | Inr (held, generations) \<Rightarrow>
         (let refs = map (\<lambda>(i, seq, bs). \<lparr>ch_id = i, ch_seq = seq, ch_bytes = bs\<rparr>) held
          in case encode_block C (bn_tier name) (bn_span name) refs of
               Inl _ \<Rightarrow> (Inl HandoffEncode, d)
             | Inr bs \<Rightarrow> (case span_summary C name bs of
                   None \<Rightarrow> (Inl HandoffEncode, d)
                 | Some summary \<Rightarrow> (case dir_write (he_write env) d name bs of
                       (Inl WriteExists, d) \<Rightarrow> (Inl HandoffExists, d)
                     | (Inl (WriteIo k), d) \<Rightarrow> (Inl (HandoffWrite k), d)
                     | (Inr _, d) \<Rightarrow> (Inr (\<lparr>br_format = BLOCK_FORMAT_V1, br_rewrite = bn_rewrite name, br_length = of_nat (length bs),
                           br_chunk_count = blk_chunk_count summary, br_tombstoned = 0\<rparr>, summary, generations), d)))))"

definition hand_off_span :: "crc32c_fns \<Rightarrow> handoff_env \<Rightarrow> store_db \<Rightarrow> block_dir \<Rightarrow> block_name \<Rightarrow> outcome \<times> block_dir" where
  "hand_off_span C env db d name = (case write_span C env db d name of
       (Inr (record, summary, generations), d) \<Rightarrow> (Written name record summary generations, d)
     | (Inl cause, d) \<Rightarrow> (HandoffFailed name cause, d))"

section \<open>The commit of an outcome\<close>

datatype handoff_commit_error = SecondRow | HandoffStore

definition commit_handoff ::
  "bool \<Rightarrow> store_db \<Rightarrow> block_name \<Rightarrow> block_record \<Rightarrow> (generation, u64) btree_map \<Rightarrow> handoff_commit_error + store_db" where
  "commit_handoff refused db name record generations =
     (let key = (tier_code (bn_tier name), span_get (bn_span name))
      in if refused then Inl HandoffStore
         else if om_get (db_blocks db) key \<noteq> None then Inl SecondRow
         else case span_range (bn_tier name) (bn_span name) of (lo, hi) \<Rightarrow>
           Inr (db\<lparr>db_blocks := om_insert (db_blocks db) key (block_record_to_bytes record),
             db_block_generations := foldl (\<lambda>m (g, n). om_insert m (generation_get g, fst key, snd key) n) (db_block_generations db) generations,
             db_chunks := filter (\<lambda>(k, _). \<not> (lo \<le> k \<and> k \<le> hi)) (db_chunks db)\<rparr>))"

section \<open>Lemmas\<close>

text \<open>What the block writer holds are the span's chunks, in key order.\<close>

lemma read_span_entries_held:
  "read_span_entries refused series owners generations held es = Inr (held', generations')
    \<Longrightarrow> held' = held @ map (\<lambda>((_, _, i, seq), bs). (SeriesId i, seq, bs)) es"
proof (induction es arbitrary: owners generations held)
  case (Cons e es)
  obtain c start i seq bs where e: "e = ((c, start, i, seq), bs)" by (cases e) auto
  from Cons.prems obtain owners' generations'' where
    "read_span_entries refused series owners' generations'' (held @ [(SeriesId i, seq, bs)]) es = Inr (held', generations')"
    by (auto simp: e result_simps Let_def)
  from Cons.IH [OF this] show ?case by (simp add: e)
qed simp

end
