(* ===== verification/Rotation.thy ===== *)
theory Rotation
  imports Store_Tables Float64
begin

text \<open>
  The rotating tail flush (\<open>system-hub/hub-store/src/store/rotation.rs\<close>): the series of one rotation in
  the order of their ids, a share of them due at each commit by the elapsed share of the period,
  computed in binary64.  Whatever the clock reads, each series is due once in a rotation, in order.
\<close>

record rotation =
  rot_started_seq :: u64
  rot_started :: nat
  rot_queue :: "series_id list"
  rot_done :: nat

definition rotation_start :: "u64 \<Rightarrow> series_id list \<Rightarrow> nat \<Rightarrow> rotation" where
  "rotation_start seq ids instant = \<lparr>rot_started_seq = seq, rot_started = instant, rot_queue = sort ids, rot_done = 0\<rparr>"

text \<open>More of binary64: sums, the lesser of two values, \<open>ceil\<close>, and the conversions of \<open>usize\<close>.\<close>

fun f64_add :: "f64 \<Rightarrow> f64 \<Rightarrow> f64" where
  "f64_add (Fin a) (Fin b) = fl (a + b)"
| "f64_add NaN b = NaN"
| "f64_add a NaN = NaN"
| "f64_add (Inf s) (Inf t) = (if s = t then Inf s else NaN)"
| "f64_add (Inf s) (Fin b) = Inf s"
| "f64_add (Fin a) (Inf s) = Inf s"

definition f64_min :: "f64 \<Rightarrow> f64 \<Rightarrow> f64" where
  "f64_min a b = (if a = NaN then b else if b = NaN then a else if f64_le a b then a else b)"

fun f64_ceil :: "f64 \<Rightarrow> f64" where
  "f64_ceil (Fin q) = Fin (of_int \<lceil>q\<rceil>)"
| "f64_ceil x = x"

definition usize_as_f64 :: "nat \<Rightarrow> f64" where
  "usize_as_f64 n = fl (of_nat n)"

fun f64_as_usize :: "f64 \<Rightarrow> nat" where
  "f64_as_usize NaN = 0"
| "f64_as_usize (Inf s) = (if s then 0 else 2 ^ 64 - 1)"
| "f64_as_usize (Fin q) = nat (min (2 ^ 64 - 1) \<lfloor>q\<rfloor>)"

text \<open>\<open>Duration::as_secs_f64\<close> of a number of nanoseconds.\<close>

definition secs_f64 :: "nat \<Rightarrow> f64" where
  "secs_f64 nanos = f64_add (usize_as_f64 (nanos div 10 ^ 9)) (f64_div (usize_as_f64 (nanos mod 10 ^ 9)) (Fin (10 ^ 9)))"

definition rotation_target :: "rotation \<Rightarrow> nat \<Rightarrow> nat \<Rightarrow> nat" where
  "rotation_target r period instant =
     (let elapsed = secs_f64 (instant - rot_started r);
          share = (if period = 0 then Fin 1 else f64_min (f64_div elapsed (secs_f64 period)) (Fin 1))
      in min (f64_as_usize (f64_ceil (f64_mul (usize_as_f64 (length (rot_queue r))) share))) (length (rot_queue r)))"

definition rotation_due :: "rotation \<Rightarrow> nat \<Rightarrow> nat \<Rightarrow> series_id list \<times> rotation" where
  "rotation_due r period instant =
     (let target = rotation_target r period instant;
          first = min (rot_done r) target
      in (take (target - first) (drop first (rot_queue r)), r\<lparr>rot_done := max (rot_done r) target\<rparr>))"

definition rotation_finished :: "rotation \<Rightarrow> bool" where
  "rotation_finished r \<longleftrightarrow> length (rot_queue r) \<le> rot_done r"

section \<open>Lemmas\<close>

lemma rotation_target_le: "rotation_target r period instant \<le> length (rot_queue r)"
  by (simp add: rotation_target_def Let_def)

text \<open>What was due so far and what is due now are a longer start of the queue.\<close>

lemma rotation_due_take:
  assumes "rotation_due r period instant = (due, r')"
  shows "take (rot_done r') (rot_queue r') = take (rot_done r) (rot_queue r) @ due"
    and "rot_queue r' = rot_queue r" and "rot_started_seq r' = rot_started_seq r" and "rot_done r \<le> rot_done r'"
proof -
  let ?t = "rotation_target r period instant"
  have r': "r' = r\<lparr>rot_done := max (rot_done r) ?t\<rparr>" and due: "due = take (?t - min (rot_done r) ?t) (drop (min (rot_done r) ?t) (rot_queue r))"
    using assms by (auto simp: rotation_due_def Let_def)
  show "take (rot_done r') (rot_queue r') = take (rot_done r) (rot_queue r) @ due"
  proof (cases "rot_done r \<le> ?t")
    case True
    then have "take ?t (rot_queue r) = take (rot_done r) (rot_queue r) @ take (?t - rot_done r) (drop (rot_done r) (rot_queue r))"
      by (metis le_add_diff_inverse take_add)
    with True show ?thesis by (simp add: r' due max_def min_def)
  qed (simp add: r' due max_def min_def)
qed (use assms in \<open>auto simp: rotation_due_def Let_def\<close>)

text \<open>A rotation of period zero is done at its first commit.\<close>

lemma rotation_zero_period:
  assumes "length (rot_queue r) < 2 ^ 53"
  shows "rotation_target r 0 instant = length (rot_queue r)"
proof -
  let ?n = "length (rot_queue r)"
  have fl_n: "fl (rat_of_nat ?n) = Fin (rat_of_nat ?n)"
    using fl_int [of "int ?n"] assms by (simp add: of_nat_less_iff [symmetric])
  show ?thesis
    using assms by (simp add: rotation_target_def Let_def usize_as_f64_def fl_n min_def)
qed

end
