(* ===== verification/Store_Writer.thy ===== *)
theory Store_Writer
  imports Store_Pass Block_Writer Rotation
begin

text \<open>
  The writer thread (\<open>system-hub/hub-store/src/store/writer.rs\<close>, \<open>store/writer/files.rs\<close>): it owns the
  redb write transaction and commits, once per interval, one transaction with the interval's points
  log entry, the chunks sealed in it, the tails due, the clocks and a step of the retention pass.
  An open transaction is the copy of the tables it works on.  The catalog transactions, the callers
  waiting for a commit and the commit hook are left out: they touch none of the store's own tables.
\<close>

datatype flush = FlushRotation | FlushAll

text \<open>Readings of \<open>Instant\<close> and intervals are nanoseconds.\<close>

record 'c writer =
  wr_core :: "'c core"
  wr_txn :: "store_db option"
  wr_commit_seq :: u64
  wr_log_bound :: u64
  wr_rotation :: rotation
  wr_committing :: "series_id btree_set"
  wr_tail_rotation :: nat
  wr_handoffs :: handoffs
  wr_connected :: bool
  wr_landed :: "(block_name \<times> block_summary) list"
  wr_retention :: retention
  wr_retired :: "block_name list"
  wr_finishing :: u64

record pass_stats =
  ps_clock :: u64
  ps_passes :: u64

text \<open>What the writer shares with the other threads: the committed tables, the block files and what is
  known of them, the life of the store, the policies, and the block writer's queue.\<close>

record shared =
  sh_db :: store_db
  sh_blocks :: blocks
  sh_life :: store_life
  sh_policies :: policies
  sh_tombstones :: tombstones
  sh_stats :: pass_stats
  sh_jobs :: "job list"

definition writer_new :: "'c core \<Rightarrow> nat \<Rightarrow> u64 \<Rightarrow> handoffs \<Rightarrow> retention \<Rightarrow> nat \<Rightarrow> 'c writer" where
  "writer_new core tail_rotation commit_seq handoffs retention instant = \<lparr>wr_core = core, wr_txn = None,
     wr_commit_seq = commit_seq, wr_log_bound = 0, wr_rotation = rotation_start commit_seq (map fst (co_index core)) instant,
     wr_committing = [], wr_tail_rotation = tail_rotation, wr_handoffs = handoffs, wr_connected = False, wr_landed = [],
     wr_retention = retention, wr_retired = [], wr_finishing = 0\<rparr>"

definition open_txn :: "bool \<Rightarrow> store_db option \<Rightarrow> store_db \<Rightarrow> (store_error + store_db) \<times> store_db option" where
  "open_txn refused slot db = (case slot of
       Some txn \<Rightarrow> (Inr txn, Some txn)
     | None \<Rightarrow> if refused then (Inl StoreFailed, None) else (Inr db, Some db))"

section \<open>Requests\<close>

definition fail_store :: "shared \<Rightarrow> shared" where
  "fail_store sh = sh\<lparr>sh_life := life_fail (sh_life sh)\<rparr>"

text \<open>An append: \<open>refused\<close> says whether redb refuses to begin, \<open>read_refused\<close> which keys' reads it refuses.\<close>

definition handle_append ::
  "bool \<Rightarrow> (series_key \<Rightarrow> bool) \<Rightarrow> u64 \<Rightarrow> system_key \<Rightarrow> generation \<Rightarrow> (metric_name \<times> value_kind \<times> i64) list \<Rightarrow> shared \<Rightarrow> 'c writer
    \<Rightarrow> (store_error + append_report) option \<times> shared \<times> 'c writer" where
  "handle_append refused read_refused system_now system g points sh w = (case open_txn refused (wr_txn w) (sh_db sh) of
       (Inl _, slot) \<Rightarrow> (None, fail_store sh, w\<lparr>wr_txn := slot\<rparr>)
     | (Inr txn, slot) \<Rightarrow>
         (case core_hub_now (wr_core w) system_now of (ts, core) \<Rightarrow>
          case append_points read_refused txn core system g points ts of (report, core) \<Rightarrow>
            (Some report, if is_ok report then sh else fail_store sh, w\<lparr>wr_txn := slot, wr_core := core\<rparr>)))"

definition hand_off :: "bool \<Rightarrow> bool \<Rightarrow> outcome \<Rightarrow> shared \<Rightarrow> 'c writer \<Rightarrow> shared \<times> 'c writer" where
  "hand_off refused write_refused result sh w = (case result of
       Written name record summary generations \<Rightarrow>
         (case open_txn refused (wr_txn w) (sh_db sh) of
            (Inl _, slot) \<Rightarrow> (fail_store sh, w\<lparr>wr_txn := slot\<rparr>)
          | (Inr txn, slot) \<Rightarrow> (case commit_handoff write_refused txn name record generations of
                Inr txn \<Rightarrow> (sh, w\<lparr>wr_txn := Some txn, wr_landed := wr_landed w @ [(name, summary)]\<rparr>)
              | Inl _ \<Rightarrow> (fail_store sh, w\<lparr>wr_txn := slot\<rparr>)))
     | HandoffFailed name cause \<Rightarrow>
         (sh\<lparr>sh_blocks := blocks_handoff_failed (sh_blocks sh) (bn_tier name) cause\<rparr>,
          w\<lparr>wr_handoffs := handoffs_failed (wr_handoffs w) (bn_tier name, bn_span name) cause\<rparr>))"

definition unlinked :: "bool \<Rightarrow> bool \<Rightarrow> block_name \<Rightarrow> shared \<Rightarrow> 'c writer \<Rightarrow> shared \<times> 'c writer" where
  "unlinked refused write_refused name sh w = (case open_txn refused (wr_txn w) (sh_db sh) of
       (Inl _, slot) \<Rightarrow> (fail_store sh, w\<lparr>wr_txn := slot\<rparr>)
     | (Inr txn, slot) \<Rightarrow>
         if write_refused then (fail_store sh, w\<lparr>wr_txn := slot\<rparr>)
         else (sh, w\<lparr>wr_txn := Some (txn\<lparr>db_pending_unlinks :=
           om_remove (db_pending_unlinks txn) (tier_code (bn_tier name), span_get (bn_span name), rewrite_get (bn_rewrite name))\<rparr>)\<rparr>))"

text \<open>The part of the loop that follows a due sweep.\<close>

definition writer_sweep :: "series_key list \<Rightarrow> u64 \<Rightarrow> shared \<Rightarrow> 'c writer \<Rightarrow> shared \<times> 'c writer" where
  "writer_sweep order system_now sh w = (case core_hub_now (wr_core w) system_now of (now, core) \<Rightarrow>
     let core = core_sweep core order now
     in case handoffs_choose (wr_handoffs w) now of
          (Inl _, h) \<Rightarrow> (fail_store sh, w\<lparr>wr_core := core, wr_handoffs := h\<rparr>)
        | (Inr _, h) \<Rightarrow> (sh, w\<lparr>wr_core := core, wr_handoffs := h\<rparr>))"

text \<open>A pass begins when it is due.\<close>

definition writer_retention :: "nat \<Rightarrow> duration \<Rightarrow> u64 \<Rightarrow> 'c writer \<Rightarrow> 'c writer" where
  "writer_retention instant reading system_now w =
     (if retention_due (wr_retention w) instant
      then case core_clocks (wr_core w) system_now of ((hub_now, system_now), core) \<Rightarrow>
        w\<lparr>wr_core := core, wr_retention := retention_begin (wr_retention w) reading hub_now system_now\<rparr>
      else w)"

section \<open>The commit\<close>

definition take_tail :: "head \<Rightarrow> series_key \<Rightarrow> bool \<Rightarrow> ((bytes \<times> series_record) \<times> head) option" where
  "take_tail head key touched = (case map_of head key of
       None \<Rightarrow> None
     | Some entry \<Rightarrow>
         if \<not> (he_dirty entry \<or> touched) then None
         else let entry = entry\<lparr>he_dirty := False\<rparr>;
                  record = \<lparr>sr_key = key, sr_kind = ss_kind (he_state entry), sr_last_spans = he_last_spans entry\<rparr>
              in Some ((ss_to_tail (he_state entry), record), AList.update key entry head))"

definition write_tail ::
  "(series_id, series_key) btree_map \<Rightarrow> series_id btree_set \<Rightarrow> series_id btree_set \<Rightarrow> head \<times> store_db \<Rightarrow> series_id \<Rightarrow> head \<times> store_db" where
  "write_tail index touched new_series st i = (case st of (head, db) \<Rightarrow>
     case om_get index i of
       None \<Rightarrow> (head, db)
     | Some key \<Rightarrow> (case take_tail head key (bs_contains touched i) of
           None \<Rightarrow> (head, db)
         | Some ((tail, record), head) \<Rightarrow>
             (head, db\<lparr>db_tails := om_insert (db_tails db) (tier_code Raw, series_id_get i) tail,
                db_series := om_insert (db_series db) (series_id_get i) (series_record_to_bytes record),
                db_series_key := (if bs_contains new_series i
                  then om_insert (db_series_key db) (series_key_to_bytes key) (series_id_get i) else db_series_key db)\<rparr>)))"

definition write_tails :: "nat \<Rightarrow> flush \<Rightarrow> store_db \<Rightarrow> 'c writer \<Rightarrow> store_db \<times> 'c writer" where
  "write_tails instant flush db w =
     (let core = wr_core w; touched = co_touched core;
          (due, rotation) = (case flush of
              FlushRotation \<Rightarrow> rotation_due (wr_rotation w) (wr_tail_rotation w) instant
            | FlushAll \<Rightarrow> (map fst (co_index core), wr_rotation w));
          ids = bs_extend touched due;
          (head, db) = foldl (write_tail (co_index core) touched (co_new_series core)) (co_head core, db) ids
      in (db, w\<lparr>wr_core := core\<lparr>co_head := head, co_touched := [], co_new_series := []\<rparr>, wr_rotation := rotation\<rparr>))"

definition write_chunk :: "(chunk_key, bytes) btree_map \<Rightarrow> series_id \<times> sealed \<Rightarrow> (chunk_key, bytes) btree_map" where
  "write_chunk chunks e = (case e of (i, chunk) \<Rightarrow>
     om_insert chunks (tier_code (se_tier chunk), span_get (se_span chunk), series_id_get i, se_seq chunk) (se_bytes chunk))"

text \<open>The log entry, the chunks, the tails, the log's bound, the clocks and counters.\<close>

definition write_points :: "store_db \<Rightarrow> 'c writer \<Rightarrow> store_db \<times> 'c writer" where
  "write_points db w =
     (let points = co_points (wr_core w)
      in (if points = [] then db
          else db\<lparr>db_points_log := om_insert (db_points_log db) (wr_commit_seq w) (encode_log_entry points)\<rparr>,
          w\<lparr>wr_core := (wr_core w)\<lparr>co_points := []\<rparr>\<rparr>))"

definition write_chunks_sealed :: "store_db \<Rightarrow> 'c writer \<Rightarrow> store_db \<times> 'c writer" where
  "write_chunks_sealed db w =
     (let chunks = co_sealed (wr_core w)
      in (db\<lparr>db_chunks := foldl write_chunk (db_chunks db) chunks\<rparr>,
          w\<lparr>wr_core := (wr_core w)\<lparr>co_sealed := []\<rparr>,
            wr_handoffs := foldl (\<lambda>h (_, chunk). handoffs_sealed h (se_tier chunk, se_span chunk)) (wr_handoffs w) chunks,
            wr_committing := foldl (\<lambda>s (i, _). bs_insert s i) (wr_committing w) chunks\<rparr>))"

definition trim_log :: "store_db \<Rightarrow> 'c writer \<Rightarrow> store_db" where
  "trim_log db w = (if 0 < wr_log_bound w
     then db\<lparr>db_points_log := filter (\<lambda>(seq, _). wr_log_bound w \<le> seq) (db_points_log db)\<rparr> else db)"

definition write_meta :: "store_db \<Rightarrow> 'c writer \<Rightarrow> store_db" where
  "write_meta db w =
     (let put = \<lambda>m k v. om_insert m k (to_be_bytes 8 (v :: u64))
      in db\<lparr>db_meta := put (put (put (put (db_meta db)
          META_CLOCK (last_issued (co_clock (wr_core w))))
          META_ID_COUNTER (ucast (co_next_id (wr_core w))))
          META_COMMIT_SEQ (wr_commit_seq w + 1))
          META_RETENTION_CLOCK (re_clock (wr_retention w))\<rparr>)"

definition writer_retention_step ::
  "(u32 \<Rightarrow> bool) \<Rightarrow> nat \<Rightarrow> shared \<Rightarrow> store_db \<Rightarrow> 'c writer \<Rightarrow> redb_error + store_db \<times> 'c writer" where
  "writer_retention_step refused instant sh db w =
     (let px = \<lparr>px_policies = sh_policies sh, px_tombstones = sh_tombstones sh, px_owners = co_index (wr_core w),
            px_blocks = sh_blocks sh\<rparr>
      in rbind (retention_step refused instant px (wr_retention w, db, wr_handoffs w)) (\<lambda>(step, retention, db, handoffs).
           let w = w\<lparr>wr_retention := retention, wr_handoffs := handoffs\<rparr>
           in Inr (db, case step of
                StepWorking \<Rightarrow> w
              | StepRetired names \<Rightarrow> w\<lparr>wr_retired := wr_retired w @ names\<rparr>
              | StepFinished \<Rightarrow> w\<lparr>wr_finishing := wr_finishing w + 1\<rparr>)))"

text \<open>What redb refuses of a commit, and the clock's reading while it is written.\<close>

record commit_env =
  ce_begin_refused :: bool
  ce_write_refused :: bool
  ce_commit_refused :: bool
  ce_record_refused :: "u32 \<Rightarrow> bool"
  ce_instant :: nat

definition write_interval :: "commit_env \<Rightarrow> flush \<Rightarrow> shared \<Rightarrow> store_db \<Rightarrow> 'c writer \<Rightarrow> redb_error + store_db \<times> 'c writer" where
  "write_interval env flush sh db w =
     (if ce_write_refused env then Inl RedbRefused
      else case write_points db w of (db, w) \<Rightarrow>
        case write_chunks_sealed db w of (db, w) \<Rightarrow>
        case write_tails (ce_instant env) flush db w of (db, w) \<Rightarrow>
          writer_retention_step (ce_record_refused env) (ce_instant env) sh (write_meta (trim_log db w) w) w)"

definition after_handoffs :: "shared \<Rightarrow> 'c writer \<Rightarrow> shared \<times> 'c writer" where
  "after_handoffs sh w =
     (let handoffs = foldl (\<lambda>h (name, _). handoffs_landed h (bn_tier name, bn_span name)) (wr_handoffs w) (wr_landed w);
          sh = sh\<lparr>sh_blocks := foldl (\<lambda>b (name, summary). blocks_install b name (Inr summary)) (sh_blocks sh) (wr_landed w)\<rparr>;
          w = w\<lparr>wr_landed := [], wr_handoffs := handoffs\<rparr>
      in if \<not> wr_connected w then (sh, w)
         else case handoffs_take_due handoffs of (due, handoffs) \<Rightarrow>
           (sh\<lparr>sh_jobs := sh_jobs sh @ map (\<lambda>sp. JobHandOff (handoff_name sp)) due\<rparr>, w\<lparr>wr_handoffs := handoffs\<rparr>))"

definition after_retention :: "shared \<Rightarrow> 'c writer \<Rightarrow> shared \<times> 'c writer" where
  "after_retention sh w =
     (sh\<lparr>sh_blocks := foldl (\<lambda>b name. blocks_evict b (bn_tier name, bn_span name)) (sh_blocks sh) (wr_retired w),
         sh_jobs := sh_jobs sh @ (if wr_connected w then map JobUnlink (wr_retired w) else []),
         sh_stats := \<lparr>ps_clock = re_clock (wr_retention w), ps_passes = ps_passes (sh_stats sh) + wr_finishing w\<rparr>\<rparr>,
      w\<lparr>wr_retired := [], wr_finishing := 0\<rparr>)"

definition clear_committed :: "(series_id, series_key) btree_map \<Rightarrow> head \<Rightarrow> series_id \<Rightarrow> head" where
  "clear_committed index head i = (case om_get index i of
       None \<Rightarrow> head
     | Some key \<Rightarrow> (case map_of head key of
           None \<Rightarrow> head
         | Some entry \<Rightarrow> AList.update key (entry\<lparr>he_pending := []\<rparr>) head))"

definition after_commit :: "nat \<Rightarrow> shared \<Rightarrow> 'c writer \<Rightarrow> shared \<times> 'c writer" where
  "after_commit instant sh w =
     (let w = w\<lparr>wr_commit_seq := wr_commit_seq w + 1\<rparr>;
          head = foldl (clear_committed (co_index (wr_core w))) (co_head (wr_core w)) (wr_committing w);
          w = w\<lparr>wr_core := (wr_core w)\<lparr>co_head := head\<rparr>, wr_committing := []\<rparr>
      in case after_handoffs sh w of (sh, w) \<Rightarrow>
         case after_retention sh w of (sh, w) \<Rightarrow>
           (let w = (if rotation_finished (wr_rotation w)
                  then w\<lparr>wr_log_bound := rot_started_seq (wr_rotation w),
                         wr_rotation := rotation_start (wr_commit_seq w) (map fst (co_index (wr_core w))) instant\<rparr>
                  else w)
            in (sh, w\<lparr>wr_core := (wr_core w)\<lparr>co_changes := [], co_catalog_dirty := False\<rparr>\<rparr>)))"

text \<open>The transaction leaves its slot before it is written; a refusal anywhere drops it.\<close>

definition try_commit :: "commit_env \<Rightarrow> flush \<Rightarrow> shared \<Rightarrow> 'c writer \<Rightarrow> (store_error + unit) \<times> shared \<times> 'c writer" where
  "try_commit env flush sh w = (case open_txn (ce_begin_refused env) (wr_txn w) (sh_db sh) of
       (Inl e, slot) \<Rightarrow> (Inl e, sh, w\<lparr>wr_txn := slot\<rparr>)
     | (Inr txn, _) \<Rightarrow>
         (let w = w\<lparr>wr_txn := None\<rparr>
          in case write_interval env flush sh txn w of
               Inl _ \<Rightarrow> (Inl StoreFailed, sh, w)
             | Inr (txn, w) \<Rightarrow>
                 if ce_commit_refused env then (Inl StoreFailed, sh, w) else (Inr (), sh\<lparr>sh_db := txn\<rparr>, w)))"

definition writer_commit :: "commit_env \<Rightarrow> flush \<Rightarrow> shared \<Rightarrow> 'c writer \<Rightarrow> (store_error + unit) \<times> shared \<times> 'c writer" where
  "writer_commit env flush sh w = (case try_commit env flush sh w of
       (Inr _, sh, w) \<Rightarrow> (case after_commit (ce_instant env) sh w of (sh, w) \<Rightarrow> (Inr (), sh, w))
     | (Inl e, sh, w) \<Rightarrow> (Inl e, fail_store sh, w))"

definition writer_finish :: "commit_env \<Rightarrow> shared \<Rightarrow> 'c writer \<Rightarrow> (store_error + unit) \<times> shared \<times> 'c writer" where
  "writer_finish env sh w = (case writer_commit env FlushAll sh w of (committed, sh, w) \<Rightarrow>
     (committed, if is_ok committed then sh\<lparr>sh_life := life_close (sh_life sh)\<rparr> else sh, w))"

end
