(* ===== verification/Store_Open.thy ===== *)
theory Store_Open
  imports Store_Writer
begin

text \<open>
  Opening the store (\<open>system-hub/hub-store/src/store/open.rs\<close>): the meta keys are read, or created in a new
  file; the head is rebuilt from the tails; the block files are reconciled with their rows; the points
  log is replayed in commit order, each point only into a series whose last point is earlier; and a
  sweep at hub time follows.
\<close>

record meta =
  me_clock :: u64
  me_retention_clock :: u64
  me_next_id :: u32
  me_commit_seq :: u64

definition meta_u64 :: "bytes option \<Rightarrow> open_error + u64 option" where
  "meta_u64 m = (case m of
       None \<Rightarrow> Inr None
     | Some bs \<Rightarrow> if length bs = 8 then Inr (Some (from_be_bytes bs)) else Inl OpenCorrupt)"

definition read_meta :: "store_db \<Rightarrow> u64 \<Rightarrow> open_error + meta \<times> store_db" where
  "read_meta db system_now =
     (let get = (\<lambda>k. meta_u64 (om_get (db_meta db) k))
      in rbind (get META_FORMAT) (\<lambda>format. rbind (get META_CLOCK) (\<lambda>clock. rbind (get META_ID_COUNTER) (\<lambda>id_counter.
         rbind (get META_COMMIT_SEQ) (\<lambda>commit_seq. rbind (get META_RETENTION_CLOCK) (\<lambda>retention.
         rbind (case (format, retention) of
              (Some f, Some r) \<Rightarrow> if f = STORE_FORMAT then Inr (r, db) else Inl (OpenFormat f)
            | (Some f, None) \<Rightarrow> Inl (if f = STORE_FORMAT then OpenCorrupt else OpenFormat f)
            | (None, _) \<Rightarrow>
                (let r = first_retention_clock system_now system_now
                 in Inr (r, db\<lparr>db_meta := om_insert (om_insert (db_meta db) META_FORMAT (to_be_bytes 8 STORE_FORMAT))
                      META_RETENTION_CLOCK (to_be_bytes 8 r)\<rparr>))) (\<lambda>(retention_clock, db).
         let counter = (case id_counter of None \<Rightarrow> 0 | Some c \<Rightarrow> c)
         in if unat counter < 2 ^ 32
            then Inr (\<lparr>me_clock = (case clock of None \<Rightarrow> 0 | Some c \<Rightarrow> c), me_retention_clock = retention_clock,
                 me_next_id = ucast counter, me_commit_seq = (case commit_seq of None \<Rightarrow> 0 | Some s \<Rightarrow> s)\<rparr>, db)
            else Inl OpenCorrupt)))))))"

text \<open>Every table exists from the first open: in the model they always do.\<close>

definition init_meta :: "bool \<Rightarrow> store_db \<Rightarrow> u64 \<Rightarrow> open_error + meta \<times> store_db" where
  "init_meta refused db system_now = (if refused then Inl OpenDatabase else read_meta db system_now)"

section \<open>The head\<close>

primrec load_records :: "(series_id \<rightharpoonup> series_record) \<Rightarrow> (u32, bytes) btree_map \<Rightarrow> open_error + (series_id \<rightharpoonup> series_record)" where
  "load_records records [] = Inr records"
| "load_records records (e # es) =
     rbind (map_err (\<lambda>_. OpenCorrupt) (series_record_from_bytes (snd e))) (\<lambda>record.
       load_records (records(SeriesId (fst e) \<mapsto> record)) es)"

definition install_series :: "'c core \<Rightarrow> series_id \<Rightarrow> series_record \<Rightarrow> series_state \<Rightarrow> 'c core" where
  "install_series core i record state = core_install core (sr_key record)
     \<lparr>he_id = i, he_state = state, he_last_spans = sr_last_spans record, he_dirty = False, he_pending = []\<rparr>"

primrec load_tails :: "(series_id \<rightharpoonup> series_record) \<Rightarrow> 'c core \<Rightarrow> (u8 \<times> u32, bytes) btree_map \<Rightarrow> open_error + 'c core" where
  "load_tails records core [] = Inr core"
| "load_tails records core (e # es) =
     (let i = SeriesId (snd (fst e))
      in rbind (ok_or OpenCorrupt (records i)) (\<lambda>record.
         rbind (map_err (\<lambda>_. OpenCorrupt) (ss_from_tail (snd e))) (\<lambda>state.
           load_tails records (install_series core i record state) es)))"

definition load_head :: "bool \<Rightarrow> store_db \<Rightarrow> 'c core \<Rightarrow> open_error + (series_id \<rightharpoonup> series_record) \<times> 'c core" where
  "load_head refused db core =
     (if refused then Inl OpenDatabase
      else rbind (load_records (\<lambda>_. None) (db_series db)) (\<lambda>records.
        rbind (load_tails records core (db_tails db)) (\<lambda>core. Inr (records, core))))"

section \<open>The points log\<close>

definition replay_point :: "(series_id \<rightharpoonup> series_record) \<Rightarrow> 'c core \<Rightarrow> logged_point \<Rightarrow> open_error + 'c core" where
  "replay_point records core p =
     rbind (ok_or OpenCorrupt (records (lp_id p))) (\<lambda>record.
     let core = (if om_get (co_index core) (lp_id p) = None
           then install_series core (lp_id p) record (ss_new (sr_kind record)) else core)
     in rbind (map_err (\<lambda>_. OpenCorrupt) (check_scaled (sr_kind record) (lp_value p))) (\<lambda>scaled.
        case map_of (co_head core) (sr_key record) of
          None \<Rightarrow> Inr core
        | Some entry \<Rightarrow> (case ss_append (he_state entry) (lp_ts p) scaled of
              Inl _ \<Rightarrow> Inr core
            | Inr (chunks, state) \<Rightarrow>
                (case keep_sealed core (entry\<lparr>he_state := state, he_dirty := True\<rparr>) chunks of (core, entry) \<Rightarrow>
                   Inr (core\<lparr>co_head := AList.update (sr_key record) entry (co_head core)\<rparr>)))))"

primrec replay_points :: "(series_id \<rightharpoonup> series_record) \<Rightarrow> 'c core \<Rightarrow> logged_point list \<Rightarrow> open_error + 'c core" where
  "replay_points records core [] = Inr core"
| "replay_points records core (p # ps) = rbind (replay_point records core p) (\<lambda>core. replay_points records core ps)"

primrec replay_entries :: "(series_id \<rightharpoonup> series_record) \<Rightarrow> 'c core \<Rightarrow> (u64, bytes) btree_map \<Rightarrow> open_error + 'c core" where
  "replay_entries records core [] = Inr core"
| "replay_entries records core (e # es) =
     rbind (map_err (\<lambda>_. OpenCorrupt) (decode_log_entry (snd e))) (\<lambda>points.
     rbind (replay_points records core points) (\<lambda>core. replay_entries records core es))"

definition replay :: "bool \<Rightarrow> store_db \<Rightarrow> 'c core \<Rightarrow> (series_id \<rightharpoonup> series_record) \<Rightarrow> open_error + 'c core" where
  "replay refused db core records = (if refused then Inl OpenDatabase else replay_entries records core (db_points_log db))"

section \<open>Opening\<close>

record open_options =
  op_tail_rotation :: nat
  op_retention_interval :: nat
  op_retention :: retention_policy

text \<open>What the environment decides: redb's refusals, the readings of the clocks, the order in which the
  sweep meets the series.\<close>

record open_world =
  ow_env :: open_env
  ow_meta_refused :: bool
  ow_head_refused :: bool
  ow_log_refused :: bool
  ow_meta_now :: u64
  ow_sweep_now :: u64
  ow_pass_now :: u64
  ow_reading :: duration
  ow_instant :: nat
  ow_order :: "series_key list"

definition store_open ::
  "crc32c_fns \<Rightarrow> open_world \<Rightarrow> open_options \<Rightarrow> store_db \<Rightarrow> block_dir \<Rightarrow> open_error + shared \<times> block_dir \<times> 'c writer" where
  "store_open C ow options db d =
     (let d = remove_temporaries d
      in rbind (init_meta (ow_meta_refused ow) db (ow_meta_now ow)) (\<lambda>(meta, db).
         rbind (load_head (ow_head_refused ow) db (core_new [] (clock_resume (me_clock meta)) (me_next_id meta))) (\<lambda>(records, core).
         case reconcile_at_open C (ow_env ow) db (co_head core) d blocks_new (me_clock meta) of
           (Inl e, _) \<Rightarrow> Inl e
         | (Inr waiting, db, d, b) \<Rightarrow>
             rbind (replay (ow_log_refused ow) db core records) (\<lambda>core.
               case core_hub_now core (ow_sweep_now ow) of (now, core) \<Rightarrow>
               case core_clocks (core_sweep core (ow_order ow) now) (ow_pass_now ow) of ((hub_now, system_now), core) \<Rightarrow>
                 let retention = retention_begin (retention_new (me_retention_clock meta) (op_retention_interval options) (ow_instant ow))
                       (ow_reading ow) hub_now system_now
                 in Inr (\<lparr>sh_db = db, sh_blocks = b, sh_life = Running, sh_policies = policies_new (op_retention options),
                        sh_tombstones = Tombstones [], sh_stats = \<lparr>ps_clock = me_retention_clock meta, ps_passes = 0\<rparr>, sh_jobs = []\<rparr>, d,
                      writer_new core (op_tail_rotation options) (me_commit_seq meta) (handoffs_new waiting) retention (ow_instant ow))))))"

end
