(* ===== verification/Series_Replay.thy ===== *)
theory Series_Replay
  imports Series_Tail
begin

text \<open>
  The life of one series across commits and crashes.  Its tail, as last written, fixes a state it was
  in; the points log holds the points it accepted since; in memory it went on from there, sealing
  chunks the tail does not know.  Replaying the logged points on the tail's state gives a series with
  the same points, whatever sweeps the memory saw in between.
\<close>

section \<open>Histories\<close>

text \<open>The appends of given points.\<close>

definition appends :: "raw_point list \<Rightarrow> series_op list" where
  "appends ps = map (\<lambda>p. OpAppend (rp_ts p) (Scaled (rp_value p))) ps"

definition newer :: "u64 option \<Rightarrow> raw_point \<Rightarrow> bool" where
  "newer l p \<longleftrightarrow> (case l of None \<Rightarrow> True | Some x \<Rightarrow> x < rp_ts p)"

text \<open>Operations at or before a hub time, in hub time order, with values of the kind's domain.\<close>

definition before :: "u64 \<Rightarrow> series_op list \<Rightarrow> bool" where
  "before now ops \<longleftrightarrow> list_all (\<lambda>op. case op of OpAppend ts _ \<Rightarrow> ts \<le> now | OpSweep n \<Rightarrow> n \<le> now | _ \<Rightarrow> True) ops"

definition lived :: "value_kind \<Rightarrow> u64 \<Rightarrow> series_op list \<Rightarrow> bool" where
  "lived k now ops \<longleftrightarrow> well_timed 0 ops \<and> list_all (op_in_domain k) ops \<and> before now ops"

lemma appends_simps [simp]:
  "appends [] = []"
  "appends (p # ps) = OpAppend (rp_ts p) (Scaled (rp_value p)) # appends ps"
  "appends (ps @ qs) = appends ps @ appends qs"
  by (simp_all add: appends_def)

lemma before_simps [simp]: "before now []" "before now (xs @ ys) \<longleftrightarrow> before now xs \<and> before now ys"
  by (simp_all add: before_def)

lemma before_mono: "before now ops \<Longrightarrow> now \<le> later \<Longrightarrow> before later ops"
  unfolding before_def list_all_iff by (fastforce split: series_op.splits)

lemma lived_Nil [simp]: "lived k now []"
  by (simp add: lived_def)

lemma series_run_append:
  "series_run s (xs @ ys) = (case series_run s xs of (hs, s') \<Rightarrow> case series_run s' ys of (ks, s'') \<Rightarrow> (hs @ ks, s''))"
  by (induction xs arbitrary: s) (simp_all split: prod.splits)

text \<open>The last accepted time after a history.\<close>

definition last_after :: "u64 option \<Rightarrow> raw_point list \<Rightarrow> u64 option" where
  "last_after l ps = (if ps = [] then l else Some (rp_ts (last ps)))"

lemma last_after_append [simp]: "last_after l (ps @ qs) = last_after (last_after l ps) qs"
  by (simp add: last_after_def)

lemma last_after_Nil [simp]: "last_after l [] = l"
  by (simp add: last_after_def)

lemma accepted_points_append:
  "accepted_points l (xs @ ys) = accepted_points l xs @ accepted_points (last_after l (accepted_points l xs)) ys"
  by (induction l xs rule: accepted_points.induct) (auto simp: last_after_def)

lemma run_last:
  assumes "series_run (ss_new k) ops = (hs, s)"
  shows "ss_last_ts s = last_after None (accepted_points None ops)"
  using series_run_new_raw(1) [OF assms] by (simp add: raw_ok_def last_after_def)

lemma accepted_newer: "p \<in> set (accepted_points l ops) \<Longrightarrow> newer l p"
proof (induction l ops rule: accepted_points.induct)
  case (2 l ts v ops)
  then show ?case
    by (fastforce simp: newer_def split: if_splits option.splits)
qed auto

text \<open>The end of the sweeps of a history.\<close>

definition swept_until :: "u64 \<Rightarrow> series_op list \<Rightarrow> u64" where
  "swept_until now ops = foldl op_now now ops"

lemma well_timed_append: "well_timed now (xs @ ys) \<longleftrightarrow> well_timed now xs \<and> well_timed (swept_until now xs) ys"
proof (induction xs arbitrary: now)
  case (Cons op xs)
  then show ?case
    using well_timed_Cons [of now op "xs @ ys"] well_timed_Cons [of now op xs] by (auto simp: swept_until_def)
qed (simp add: swept_until_def)

lemma swept_until_le: "before now ops \<Longrightarrow> start \<le> now \<Longrightarrow> swept_until start ops \<le> now"
  by (induction ops arbitrary: start) (auto simp: swept_until_def before_def op_now_def split: series_op.splits)

lemma lived_append_point:
  assumes "lived k now ops" and "now \<le> ts" and "unat ts < 2 ^ 63" and "is_ok (check_scaled k v)"
  shows "lived k ts (ops @ [OpAppend ts (Scaled v)])"
proof -
  have "swept_until 0 ops \<le> ts"
    using assms(1,2) swept_until_le [of now ops 0] by (auto simp: lived_def)
  then show ?thesis
    using assms before_mono [of now ops ts]
    by (simp add: lived_def well_timed_append op_in_domain_def) (simp add: before_def)
qed

lemma lived_sweep:
  assumes "lived k now ops" and "now \<le> later"
  shows "lived k later (ops @ [OpSweep later, OpSealClosed later])"
  using assms before_mono [of now ops later]
  by (simp add: lived_def well_timed_append op_in_domain_def) (simp add: before_def)

lemma lived_mono: "lived k now ops \<Longrightarrow> now \<le> later \<Longrightarrow> lived k later ops"
  by (auto simp: lived_def before_mono)

text \<open>Dropping the sweeps and the refused appends of the later part.\<close>

lemma well_timed_appends:
  "well_timed now ops \<Longrightarrow> start \<le> now \<Longrightarrow> well_timed start (appends (accepted_points l ops))"
proof (induction ops arbitrary: l now)
  case (Cons op ops)
  show ?case
  proof (cases op)
    case (OpAppend ts v)
    with Cons show ?thesis
      by (cases "newer l \<lparr>rp_ts = ts, rp_value = scaled_get v\<rparr>") (auto simp: newer_def split: option.splits)
  next
    case (OpSweep n)
    with Cons show ?thesis using Cons.IH [of "max now n"] by (auto simp: le_max_iff_disj)
  qed (use Cons in auto)
qed simp

lemma domain_appends: "list_all (op_in_domain k) ops \<Longrightarrow> list_all (op_in_domain k) (appends (accepted_points l ops))"
  using accepted_points_ok [of k ops l]
  by (auto simp: appends_def list_all_iff op_in_domain_def is_ok_check_scaled)

lemma before_appends: "before now ops \<Longrightarrow> before now (appends (accepted_points l ops))"
  by (induction l ops rule: accepted_points.induct) (auto simp: before_def)

lemma lived_appends:
  assumes "lived k now (ops0 @ ops)"
  shows "lived k now (ops0 @ appends (accepted_points l ops))"
  using assms well_timed_appends [of "swept_until 0 ops0" ops "swept_until 0 ops0" l] domain_appends [of k ops l]
    before_appends [of now ops l]
  by (simp add: lived_def well_timed_append)

lemma lived_tail:
  assumes run: "series_run (ss_new k) ops = (hs, s)" and "lived k now ops"
  shows "ss_from_tail (ss_to_tail s) = Inr s"
proof -
  obtain now' where ok: "series_ok now' hs s (accepted_points None ops)"
    using run assms(2) by (auto simp: lived_def elim: series_run_new_ok)
  have "ss_kind s = k" using run by (rule series_run_new_raw)
  then show ?thesis
    using ss_from_tail_ok [OF ok] accepted_points_ok [of k ops None] assms(2) by (simp add: lived_def)
qed

text \<open>Appends of ascending points are all accepted.\<close>

lemma accepted_appends:
  "accepted_points l (appends (accepted_points l ops)) = accepted_points l ops"
  by (induction l ops rule: accepted_points.induct) auto

section \<open>One series between its tail, the log and memory\<close>

text \<open>The state a tail stands for, and the logged points it does not hold.\<close>

definition tail_state :: "value_kind \<Rightarrow> bytes option \<Rightarrow> series_state" where
  "tail_state k tail = (case tail of
       None \<Rightarrow> ss_new k
     | Some bs \<Rightarrow> (case ss_from_tail bs of Inr s \<Rightarrow> s | Inl _ \<Rightarrow> ss_new k))"

definition since :: "value_kind \<Rightarrow> bytes option \<Rightarrow> raw_point list \<Rightarrow> raw_point list" where
  "since k tail points = filter (newer (ss_last_ts (tail_state k tail))) points"

text \<open>The chunks written to the tables so far are those sealed on the way to the tail's state.\<close>

definition tail_after :: "value_kind \<Rightarrow> sealed list \<Rightarrow> bytes option \<Rightarrow> series_op list \<Rightarrow> bool" where
  "tail_after k written tail ops \<longleftrightarrow> series_run (ss_new k) ops = (written, tail_state k tail)
     \<and> (case tail of None \<Rightarrow> ops = [] | Some bs \<Rightarrow> bs = ss_to_tail (tail_state k tail))"

text \<open>A series in memory: \<open>pending\<close> chunks sealed and state \<open>s\<close> since the tail, of which the log holds the
  committed points and \<open>unlogged\<close> are the rest; \<open>committed\<close> are all its committed points.\<close>

definition series_live ::
  "value_kind \<Rightarrow> sealed list \<Rightarrow> bytes option \<Rightarrow> raw_point list \<Rightarrow> sealed list \<Rightarrow> series_state \<Rightarrow> bool \<Rightarrow> raw_point list \<Rightarrow> u64
    \<Rightarrow> raw_point list \<Rightarrow> bool" where
  "series_live k written tail points pending s dirty unlogged now committed \<longleftrightarrow>
     (\<exists>ops0 ops. tail_after k written tail ops0 \<and> series_run (tail_state k tail) ops = (pending, s)
       \<and> lived k now (ops0 @ ops)
       \<and> accepted_points (ss_last_ts (tail_state k tail)) ops = since k tail points @ unlogged
       \<and> committed = accepted_points None ops0 @ since k tail points
       \<and> (dirty \<or> since k tail points @ unlogged = []))"

text \<open>A series as the tables keep it.\<close>

definition series_kept :: "value_kind \<Rightarrow> sealed list \<Rightarrow> bytes option \<Rightarrow> raw_point list \<Rightarrow> u64 \<Rightarrow> raw_point list \<Rightarrow> bool" where
  "series_kept k written tail points now committed \<longleftrightarrow>
     (\<exists>ops0. tail \<noteq> None \<and> tail_after k written tail ops0 \<and> lived k now (ops0 @ appends (since k tail points))
       \<and> accepted_points (ss_last_ts (tail_state k tail)) (appends (since k tail points)) = since k tail points
       \<and> committed = accepted_points None ops0 @ since k tail points)"

lemma tail_after_last:
  assumes "tail_after k written tail ops"
  shows "ss_last_ts (tail_state k tail) = last_after None (accepted_points None ops)"
    and "ss_kind (tail_state k tail) = k"
  using assms run_last [of k ops written] series_run_new_raw(3) [of k ops written] by (auto simp: tail_after_def)

lemma tail_after_run:
  assumes "tail_after k written tail ops0" and "series_run (tail_state k tail) ops = (pending, s)"
  shows "series_run (ss_new k) (ops0 @ ops) = (written @ pending, s)"
    and "accepted_points None (ops0 @ ops) = accepted_points None ops0 @ accepted_points (ss_last_ts (tail_state k tail)) ops"
  using assms tail_after_last(1) [OF assms(1)]
  by (simp_all add: tail_after_def series_run_append accepted_points_append)

lemma series_live_state:
  assumes "series_live k written tail points pending s dirty unlogged now committed"
  shows "ss_kind s = k" and "ss_last_ts s = last_after None (committed @ unlogged)"
proof -
  obtain ops0 ops where after: "tail_after k written tail ops0" and run: "series_run (tail_state k tail) ops = (pending, s)"
    and "accepted_points (ss_last_ts (tail_state k tail)) ops = since k tail points @ unlogged"
    and "committed = accepted_points None ops0 @ since k tail points"
    using assms by (auto simp: series_live_def)
  then have pts: "accepted_points None (ops0 @ ops) = committed @ unlogged"
    using tail_after_run(2) [OF after run] by simp
  show "ss_kind s = k" and "ss_last_ts s = last_after None (committed @ unlogged)"
    using series_run_new_raw(3) [OF tail_after_run(1) [OF after run]] run_last [OF tail_after_run(1) [OF after run]] pts by simp_all
qed

lemma series_live_new: "series_live k [] None [] [] (ss_new k) True [] now []"
  by (auto simp: series_live_def tail_after_def tail_state_def since_def intro!: exI [of _ "[]"])

lemma series_live_later:
  "series_live k written tail points pending s dirty unlogged now committed \<Longrightarrow> now \<le> later
    \<Longrightarrow> series_live k written tail points pending s dirty unlogged later committed"
  unfolding series_live_def using lived_mono by blast

lemma ss_append_newer: "is_ok (ss_append s ts v) \<longleftrightarrow> newer (ss_last_ts s) \<lparr>rp_ts = ts, rp_value = scaled_get v\<rparr>"
  by (auto simp: ss_append_def newer_def Let_def split: option.splits prod.splits)

lemma series_live_append:
  assumes live: "series_live k written tail points pending s dirty unlogged now committed"
    and step: "ss_append s ts (Scaled v) = Inr (chunks, s')"
    and now: "now \<le> ts" "unat ts < 2 ^ 63" and ok: "is_ok (check_scaled k v)"
  shows "series_live k written tail points (pending @ chunks) s' True (unlogged @ [\<lparr>rp_ts = ts, rp_value = v\<rparr>]) ts committed"
proof -
  obtain ops0 ops where after: "tail_after k written tail ops0" and run: "series_run (tail_state k tail) ops = (pending, s)"
    and lived: "lived k now (ops0 @ ops)"
    and acc: "accepted_points (ss_last_ts (tail_state k tail)) ops = since k tail points @ unlogged"
    and com: "committed = accepted_points None ops0 @ since k tail points"
    using live by (auto simp: series_live_def)
  let ?op = "OpAppend ts (Scaled v)"
  have "series_run (tail_state k tail) (ops @ [?op]) = (pending @ chunks, s')"
    using run step by (simp add: series_run_append series_step_def)
  moreover have "lived k ts (ops0 @ ops @ [?op])"
    using lived_append_point [OF lived now ok] by simp
  moreover have "last_after (ss_last_ts (tail_state k tail)) (accepted_points (ss_last_ts (tail_state k tail)) ops) = ss_last_ts s"
    using series_live_state(2) [OF live] tail_after_last(1) [OF after] acc com by simp
  then have "accepted_points (ss_last_ts (tail_state k tail)) (ops @ [?op]) = since k tail points @ unlogged @ [\<lparr>rp_ts = ts, rp_value = v\<rparr>]"
    using ss_append_newer [of s ts "Scaled v"] step acc by (simp add: accepted_points_append newer_def split: option.splits)
  ultimately show ?thesis
    unfolding series_live_def using after com by (intro exI [of _ ops0] exI [of _ "ops @ [?op]"]) simp
qed

lemma series_live_sweep:
  assumes live: "series_live k written tail points pending s dirty unlogged now committed" and now: "now \<le> later"
    and sweep: "ss_sweep s later = (chunks, s1)" and seal: "ss_seal_closed s1 later = (rest, s2)"
  shows "series_live k written tail points (pending @ chunks @ rest) s2 dirty unlogged later committed"
proof -
  obtain ops0 ops where after: "tail_after k written tail ops0" and run: "series_run (tail_state k tail) ops = (pending, s)"
    and lived: "lived k now (ops0 @ ops)"
    and rest: "accepted_points (ss_last_ts (tail_state k tail)) ops = since k tail points @ unlogged"
      "committed = accepted_points None ops0 @ since k tail points" "dirty \<or> since k tail points @ unlogged = []"
    using live by (auto simp: series_live_def)
  let ?ops = "ops @ [OpSweep later, OpSealClosed later]"
  have "series_run (tail_state k tail) ?ops = (pending @ chunks @ rest, s2)"
    using run sweep seal by (simp add: series_run_append series_step_def)
  moreover have "lived k later (ops0 @ ?ops)" using lived_sweep [OF lived now] by simp
  moreover have "accepted_points l ?ops = accepted_points l ops" for l by (simp add: accepted_points_append)
  ultimately show ?thesis
    unfolding series_live_def using after rest by (intro exI [of _ ops0] exI [of _ ?ops]) simp
qed

text \<open>Everything logged or accepted is at or before the series' last point.\<close>

lemma series_live_old:
  assumes live: "series_live k written tail points pending s dirty unlogged now committed" and p: "p \<in> set points \<union> set unlogged"
  shows "\<not> newer (ss_last_ts s) p"
proof -
  obtain ops0 ops where after: "tail_after k written tail ops0" and run: "series_run (tail_state k tail) ops = (pending, s)"
    and acc: "accepted_points (ss_last_ts (tail_state k tail)) ops = since k tail points @ unlogged"
    using live by (auto simp: series_live_def)
  have sorted: "sorted_wrt (<) (map rp_ts (accepted_points None (ops0 @ ops)))"
    and last: "ss_last_ts s = last_after None (accepted_points None (ops0 @ ops))"
    using series_run_new_raw(1) [OF tail_after_run(1) [OF after run]] by (simp_all add: raw_ok_def last_after_def)
  have all: "accepted_points None (ops0 @ ops) = accepted_points None ops0 @ since k tail points @ unlogged"
    using tail_after_run(2) [OF after run] acc by simp
  have old: "\<not> newer (ss_last_ts s) q" if "q \<in> set (accepted_points None (ops0 @ ops))" for q
  proof -
    have "rp_ts q \<le> rp_ts (last (accepted_points None (ops0 @ ops)))"
      using that strict_sorted_imp_sorted [OF sorted] by (intro sorted_map_last)
    then show ?thesis using that last by (auto simp: newer_def last_after_def)
  qed
  show ?thesis
  proof (cases "p \<in> set (since k tail points @ unlogged)")
    case True
    then show ?thesis using old all by auto
  next
    case False
    then have stale: "\<not> newer (ss_last_ts (tail_state k tail)) p"
      using p by (auto simp: since_def)
    then obtain q where q: "accepted_points None ops0 \<noteq> []" "q = last (accepted_points None ops0)" "rp_ts p \<le> rp_ts q"
      using tail_after_last(1) [OF after] by (auto simp: newer_def last_after_def split: if_splits)
    then have "\<not> newer (ss_last_ts s) q" using old all by auto
    then show ?thesis using q(3) by (auto simp: newer_def split: option.splits)
  qed
qed

section \<open>Commits and crashes\<close>

text \<open>A commit that writes the tail: whatever is left in the log is in the tail.\<close>

lemma series_live_flush:
  assumes live: "series_live k written tail points pending s dirty unlogged now committed"
    and points': "set points' \<subseteq> set points \<union> set unlogged"
  shows "series_live k (written @ pending) (Some (ss_to_tail s)) points' [] s False [] now (committed @ unlogged)"
proof -
  obtain ops0 ops where after: "tail_after k written tail ops0" and run: "series_run (tail_state k tail) ops = (pending, s)"
    and lived: "lived k now (ops0 @ ops)"
    and acc: "accepted_points (ss_last_ts (tail_state k tail)) ops = since k tail points @ unlogged"
    and com: "committed = accepted_points None ops0 @ since k tail points"
    using live by (auto simp: series_live_def)
  note all = tail_after_run [OF after run]
  have state: "tail_state k (Some (ss_to_tail s)) = s"
    using lived_tail [OF all(1) lived] by (simp add: tail_state_def)
  have none: "since k (Some (ss_to_tail s)) points' = []"
    using series_live_old [OF live] points' by (auto simp: since_def state filter_empty_conv)
  show ?thesis
    unfolding series_live_def using all acc com lived
    by (intro exI [of _ "ops0 @ ops"] exI [of _ "[]"]) (simp add: tail_after_def state none)
qed

text \<open>A commit that does not: the log grows by the points, and loses none the tail does not hold.\<close>

lemma series_live_logged:
  assumes live: "series_live k written tail points pending s dirty unlogged now committed"
    and points': "since k tail points' = since k tail points @ unlogged"
  shows "series_live k written tail points' pending s dirty [] now (committed @ unlogged)"
  using assms by (auto simp: series_live_def)

lemma series_live_unlogged_newer:
  assumes "series_live k written tail points pending s dirty unlogged now committed"
  shows "since k tail unlogged = unlogged"
proof -
  obtain ops where "accepted_points (ss_last_ts (tail_state k tail)) ops = since k tail points @ unlogged"
    using assms by (auto simp: series_live_def)
  then have "\<forall>p\<in>set unlogged. newer (ss_last_ts (tail_state k tail)) p"
    using accepted_newer by (metis Un_iff set_append)
  then show ?thesis by (simp add: since_def filter_id_conv)
qed

lemma series_live_kept:
  assumes "series_live k written tail points pending s dirty [] now committed" and "tail \<noteq> None"
  shows "series_kept k written tail points now committed"
proof -
  obtain ops0 ops where after: "tail_after k written tail ops0"
    and lived: "lived k now (ops0 @ ops)"
    and acc: "accepted_points (ss_last_ts (tail_state k tail)) ops = since k tail points"
    and com: "committed = accepted_points None ops0 @ since k tail points"
    using assms by (auto simp: series_live_def)
  have "lived k now (ops0 @ appends (since k tail points))"
    using lived_appends [OF lived, of "ss_last_ts (tail_state k tail)"] acc by simp
  moreover have "accepted_points (ss_last_ts (tail_state k tail)) (appends (since k tail points)) = since k tail points"
    using accepted_appends [of "ss_last_ts (tail_state k tail)" ops] acc by simp
  ultimately show ?thesis
    unfolding series_kept_def using assms(2) after com by blast
qed

lemma series_kept_later: "series_kept k written tail points now committed \<Longrightarrow> now \<le> later \<Longrightarrow> series_kept k written tail points later committed"
  unfolding series_kept_def using lived_mono by blast

text \<open>A crash: the tail reads back, and replaying what it does not hold brings the series back to life.\<close>

lemma series_kept_tail:
  assumes "series_kept k written (Some bs) points now committed"
  shows "ss_from_tail bs = Inr (tail_state k (Some bs))"
proof -
  obtain ops0 where after: "tail_after k written (Some bs) ops0" and lived: "lived k now (ops0 @ appends (since k (Some bs) points))"
    using assms by (auto simp: series_kept_def)
  have "lived k now ops0" using lived by (auto simp: lived_def well_timed_append)
  then have "ss_from_tail (ss_to_tail (tail_state k (Some bs))) = Inr (tail_state k (Some bs))"
    using after by (intro lived_tail) (simp_all add: tail_after_def)
  then show ?thesis using after by (simp add: tail_after_def)
qed

lemma series_kept_live:
  assumes "series_kept k written tail points now committed"
    and "series_run (tail_state k tail) (appends (since k tail points)) = (pending, s)"
  shows "series_live k written tail points pending s (since k tail points \<noteq> []) [] now committed"
  unfolding series_live_def using assms by (auto simp: series_kept_def)

text \<open>The points of a series are all there: in the chunks written, the pending chunks, and the open one.\<close>

lemma series_live_points:
  assumes "series_live k written tail points pending s dirty unlogged now committed"
  shows "sealed_items (raw_items (kind_encoding k)) (sealed_of Raw (written @ pending)) @ ss_unsealed_points s = committed @ unlogged"
proof -
  obtain ops0 ops where after: "tail_after k written tail ops0" and run: "series_run (tail_state k tail) ops = (pending, s)"
    and "accepted_points (ss_last_ts (tail_state k tail)) ops = since k tail points @ unlogged"
    and "committed = accepted_points None ops0 @ since k tail points"
    using assms by (auto simp: series_live_def)
  then have pts: "accepted_points None (ops0 @ ops) = committed @ unlogged"
    using tail_after_run(2) [OF after run] by simp
  obtain cur where hist: "raw_history (kind_encoding k) (sealed_of Raw (written @ pending)) (ss_raw s) cur (committed @ unlogged)"
    using series_run_new_raw(1) [OF tail_after_run(1) [OF after run]] pts by (auto simp: raw_ok_def)
  then have "raw_holds (kind_encoding k) (op_chunk (ss_raw s)) cur"
    by (simp add: raw_tier.history_def)
  then have "raw_points (op_chunk (ss_raw s)) = cur"
    by (intro raw_points_state raw_holds_state)
  with hist show ?thesis by (simp add: ss_unsealed_points_def raw_tier.history_def)
qed

end
