(* ===== verification/Store_Spec.thy ===== *)
theory Store_Spec
  imports Store_Open Series_Replay
begin

text \<open>
  What the store promises of points: a map from series to their kind and points.  \<open>spec_append\<close> says
  which points of a request are accepted and why the others are refused; the invariants \<open>core_ok\<close> (of
  the writer's memory) and \<open>tables_ok\<close> (of the committed tables) tie the map to what the program keeps.
  This theory shows that ingestion and the sweep keep memory tied to the map and answer as it says.
\<close>

section \<open>The abstract store\<close>

type_synonym abstract = "series_key \<rightharpoonup> value_kind \<times> raw_point list"

definition abs_points :: "abstract \<Rightarrow> series_key \<Rightarrow> raw_point list" where
  "abs_points a key = (case a key of None \<Rightarrow> [] | Some (_, pts) \<Rightarrow> pts)"

definition spec_point :: "abstract \<Rightarrow> series_key \<Rightarrow> value_kind \<Rightarrow> i64 \<Rightarrow> u64 \<Rightarrow> (rejected + unit) \<times> abstract" where
  "spec_point a key kind v ts =
     (let p = \<lparr>rp_ts = ts, rp_value = v\<rparr>
      in if \<not> value_ok kind v then (Inl RejectedOutOfDomain, a)
         else case a key of
           None \<Rightarrow> if card (dom a) < 2 ^ 32 - 1 then (Inr (), a(key \<mapsto> (kind, [p]))) else (Inl SeriesCapReached, a)
         | Some (k, pts) \<Rightarrow>
             if k \<noteq> kind then (Inl KindMismatch, a)
             else if newer (last_after None pts) p then (Inr (), a(key \<mapsto> (k, pts @ [p])))
             else (Inl RejectedNotAfterLast, a))"

primrec spec_points ::
  "system_key \<Rightarrow> generation \<Rightarrow> u64 \<Rightarrow> abstract \<Rightarrow> append_report \<Rightarrow> (metric_name \<times> value_kind \<times> i64) list \<Rightarrow> append_report \<times> abstract" where
  "spec_points system g ts a report [] = (report, a)"
| "spec_points system g ts a report (p # ps) = (case p of (metric, kind, v) \<Rightarrow>
     case spec_point a \<lparr>sk_system = system, sk_generation = g, sk_metric = metric\<rparr> kind v ts of
       (Inr _, a) \<Rightarrow> spec_points system g ts a (report\<lparr>ap_accepted := sat_add (ap_accepted report) 1\<rparr>) ps
     | (Inl refusal, a) \<Rightarrow> spec_points system g ts a (report\<lparr>ap_rejected := ap_rejected report @ [(metric, refusal)]\<rparr>) ps)"

definition spec_append ::
  "system_key \<Rightarrow> generation \<Rightarrow> u64 \<Rightarrow> abstract \<Rightarrow> (metric_name \<times> value_kind \<times> i64) list \<Rightarrow> append_report \<times> abstract" where
  "spec_append system g ts a ps = spec_points system g ts a \<lparr>ap_at = ts, ap_accepted = 0, ap_rejected = []\<rparr> ps"

section \<open>Reading the log\<close>

definition logged_point_of :: "logged_point \<Rightarrow> raw_point" where
  "logged_point_of p = \<lparr>rp_ts = lp_ts p, rp_value = lp_value p\<rparr>"

definition points_of :: "series_id \<Rightarrow> logged_point list \<Rightarrow> raw_point list" where
  "points_of i ps = map logged_point_of (filter (\<lambda>p. lp_id p = i) ps)"

definition entry_points :: "bytes \<Rightarrow> logged_point list" where
  "entry_points bs = (case decode_log_entry bs of Inr ps \<Rightarrow> ps | Inl _ \<Rightarrow> [])"

definition log_points :: "(u64, bytes) btree_map \<Rightarrow> logged_point list" where
  "log_points es = concat (map (\<lambda>(_, bs). entry_points bs) es)"

lemma points_of_simps [simp]:
  "points_of i [] = []"
  "points_of i (ps @ qs) = points_of i ps @ points_of i qs"
  "points_of i (p # ps) = (if lp_id p = i then logged_point_of p # points_of i ps else points_of i ps)"
  by (simp_all add: points_of_def)

lemma log_points_simps [simp]:
  "log_points [] = []"
  "log_points (es @ fs) = log_points es @ log_points fs"
  "log_points (e # es) = entry_points (snd e) @ log_points es"
  by (simp_all add: log_points_def split_beta)

definition tail_last :: "bytes option \<Rightarrow> u64 option" where
  "tail_last tail = (case tail of None \<Rightarrow> None | Some bs \<Rightarrow> (case ss_from_tail bs of Inr s \<Rightarrow> ss_last_ts s | Inl _ \<Rightarrow> None))"

lemma tail_last_state: "ss_last_ts (tail_state k tail) = tail_last tail"
  by (auto simp: tail_state_def tail_last_def ss_new_def split: option.splits sum.splits)

section \<open>Memory\<close>

definition tail_key :: "series_id \<Rightarrow> u8 \<times> u32" where
  "tail_key i = (tier_code Raw, series_id_get i)"

definition spans_ok :: "span_start option list \<Rightarrow> bool" where
  "spans_ok ms \<longleftrightarrow> list_all2 (\<lambda>t m. case m of None \<Rightarrow> True | Some s \<Rightarrow> span_on_grid t s) all_tiers ms"

definition sealed_for :: "series_id \<Rightarrow> (series_id \<times> sealed) list \<Rightarrow> sealed list" where
  "sealed_for i hs = map snd (filter (\<lambda>(j, _). j = i) hs)"

text \<open>The record of a series, where it reads.\<close>

definition row_at :: "store_db \<Rightarrow> u32 \<Rightarrow> series_record option" where
  "row_at db i = (case om_get (db_series db) i of None \<Rightarrow> None | Some bs \<Rightarrow> ok (series_record_from_bytes bs))"

abbreviation tail_of :: "store_db \<Rightarrow> series_id \<Rightarrow> bytes option" where
  "tail_of db i \<equiv> om_get (db_tails db) (tail_key i)"

abbreviation logged :: "store_db \<Rightarrow> series_id \<Rightarrow> raw_point list" where
  "logged db i \<equiv> points_of i (log_points (db_points_log db))"

text \<open>One entry of the head.\<close>

definition entry_ok ::
  "store_db \<Rightarrow> 'c core \<Rightarrow> abstract \<Rightarrow> abstract \<Rightarrow> (series_key \<Rightarrow> sealed list) \<Rightarrow> series_key \<Rightarrow> head_entry \<Rightarrow> bool" where
  "entry_ok db core acc com written key e \<longleftrightarrow>
     (\<exists>k. acc key = Some (k, abs_points com key @ points_of (he_id e) (co_points core))
       \<and> (case com key of None \<Rightarrow> True | Some (k', _) \<Rightarrow> k' = k)
       \<and> series_live k (written key) (tail_of db (he_id e)) (logged db (he_id e))
           (he_pending e) (he_state e) (he_dirty e) (points_of (he_id e) (co_points core)) (last_issued (co_clock core)) (abs_points com key))
     \<and> om_get (co_index core) (he_id e) = Some key
     \<and> series_key_ok key \<and> spans_ok (he_last_spans e)
     \<and> sealed_for (he_id e) (co_sealed core) = he_pending e
     \<and> (he_pending e \<noteq> [] \<longrightarrow> he_id e \<in> set (co_touched core))
     \<and> (row_at db (series_id_get (he_id e)) = None \<longrightarrow> he_id e \<in> set (co_touched core))"

definition core_ok :: "store_db \<Rightarrow> 'c core \<Rightarrow> abstract \<Rightarrow> abstract \<Rightarrow> (series_key \<Rightarrow> sealed list) \<Rightarrow> bool" where
  "core_ok db core acc com written \<longleftrightarrow>
     om_valid (co_index core)
     \<and> (\<forall>key e. map_of (co_head core) key = Some e \<longrightarrow> entry_ok db core acc com written key e)
     \<and> (\<forall>i key. om_get (co_index core) i = Some key \<longrightarrow> (\<exists>e. map_of (co_head core) key = Some e \<and> he_id e = i))
     \<and> dom acc = dom (map_of (co_head core))
     \<and> (\<forall>i row. row_at db i = Some row \<longrightarrow> om_get (co_index core) (SeriesId i) = Some (sr_key row))
     \<and> (\<forall>i. om_get (co_index core) i \<noteq> None \<longrightarrow> series_id_get i < co_next_id core)
     \<and> unat (co_next_id core) = card (dom acc)
     \<and> (\<forall>p\<in>set (co_points core). \<exists>key k pts. om_get (co_index core) (lp_id p) = Some key \<and> acc key = Some (k, pts) \<and> value_ok k (lp_value p))
     \<and> (\<forall>i. om_get (co_index core) i = None \<longrightarrow> sealed_for i (co_sealed core) = [])
     \<and> unat (last_issued (co_clock core)) < 2 ^ 63"

text \<open>The committed tables.\<close>

definition meta_get :: "store_db \<Rightarrow> string \<Rightarrow> u64" where
  "meta_get db k = (case om_get (db_meta db) k of Some bs \<Rightarrow> from_be_bytes bs | None \<Rightarrow> 0)"

definition meta_ok :: "store_db \<Rightarrow> bool" where
  "meta_ok db \<longleftrightarrow> (db_meta db = [] \<or> om_get (db_meta db) META_FORMAT = Some (to_be_bytes 8 STORE_FORMAT) \<and> om_get (db_meta db) META_RETENTION_CLOCK \<noteq> None)
     \<and> (\<forall>k bs. om_get (db_meta db) k = Some bs \<longrightarrow> length bs = 8) \<and> unat (meta_get db META_ID_COUNTER) < 2 ^ 32
     \<and> unat (meta_get db META_CLOCK) < 2 ^ 63"

definition row_ok :: "store_db \<Rightarrow> abstract \<Rightarrow> (series_key \<Rightarrow> sealed list) \<Rightarrow> u32 \<Rightarrow> series_record \<Rightarrow> bool" where
  "row_ok db com written i row \<longleftrightarrow> series_record_ok row \<and> unat i < unat (meta_get db META_ID_COUNTER)
     \<and> (\<exists>pts. com (sr_key row) = Some (sr_kind row, pts)
       \<and> series_kept (sr_kind row) (written (sr_key row)) (tail_of db (SeriesId i)) (logged db (SeriesId i)) (meta_get db META_CLOCK) pts)"

definition log_ok :: "store_db \<Rightarrow> u64 \<Rightarrow> bool" where
  "log_ok db seq \<longleftrightarrow> om_valid (db_points_log db)
     \<and> (\<forall>(q, bs)\<in>set (db_points_log db). is_ok (decode_log_entry bs) \<and> q < seq)
     \<and> (\<forall>p\<in>set (log_points (db_points_log db)). \<exists>row. row_at db (series_id_get (lp_id p)) = Some row \<and> value_ok (sr_kind row) (lp_value p))"

definition tables_ok :: "store_db \<Rightarrow> abstract \<Rightarrow> (series_key \<Rightarrow> sealed list) \<Rightarrow> bool" where
  "tables_ok db com written \<longleftrightarrow>
     om_valid (db_series db) \<and> om_valid (db_tails db) \<and> meta_ok db \<and> log_ok db (meta_get db META_COMMIT_SEQ)
     \<and> (\<forall>i. om_get (db_series db) i \<noteq> None \<longrightarrow> (\<exists>row. row_at db i = Some row \<and> row_ok db com written i row))
     \<and> (\<forall>i j row row'. row_at db i = Some row \<longrightarrow> row_at db j = Some row' \<longrightarrow> sr_key row = sr_key row' \<longrightarrow> i = j)
     \<and> (\<forall>key\<in>dom com. \<exists>i row. row_at db i = Some row \<and> sr_key row = key)
     \<and> (\<forall>c i. om_get (db_tails db) (c, i) \<noteq> None \<longrightarrow> c = tier_code Raw \<and> row_at db i \<noteq> None)
     \<and> (\<forall>k i. om_get (db_series_key db) k = Some i \<longrightarrow> (\<exists>key\<in>dom com. series_key_ok key \<and> k = series_key_to_bytes key))
     \<and> unat (meta_get db META_ID_COUNTER) = card (dom com)
     \<and> (\<forall>key. key \<notin> dom com \<longrightarrow> written key = [])"

text \<open>The tables memory is tied to: those a transaction in progress has not changed.\<close>

definition same_tables :: "store_db \<Rightarrow> store_db \<Rightarrow> bool" where
  "same_tables db db' \<longleftrightarrow> db_meta db' = db_meta db \<and> db_series db' = db_series db \<and> db_series_key db' = db_series_key db
     \<and> db_tails db' = db_tails db \<and> db_points_log db' = db_points_log db"

section \<open>Chunks kept\<close>

lemma series_ok_grid:
  assumes ok: "series_ok now hs s pts" and h: "h \<in> set hs"
  shows "span_on_grid (se_tier h) (se_span h)"
proof (cases "se_tier h")
  case Raw
  obtain cur where "raw_history (kind_encoding (ss_kind s)) (sealed_of Raw hs) (ss_raw s) cur pts"
    using ok by (auto simp: series_ok_def raw_ok_def)
  moreover have "h \<in> set (sealed_of Raw hs)" using h Raw by (simp add: sealed_of_def)
  ultimately obtain x where "point_span x = se_span h"
    unfolding raw_tier.history_def well_sealed_def by (metis last_in_set)
  then show ?thesis using Raw by (metis point_span_def span_on_grid_span_of)
next
  case Minute
  obtain cur bs where "rollup_history RollupMinute (sealed_of Minute hs) (rs_open (ss_minute s)) cur bs"
    using ok by (auto simp: series_ok_def rollup_invariant_def rollup_ok_def ss_rollup_def)
  moreover have "h \<in> set (sealed_of Minute hs)" using h Minute by (simp add: sealed_of_def)
  ultimately obtain x where "bucket_span RollupMinute x = se_span h"
    unfolding rollup_open.history_def well_sealed_def by (metis last_in_set)
  then show ?thesis using Minute by (metis bucket_span_def rollup_tier_of_simps(1) span_on_grid_span_of)
next
  case Hour
  obtain cur bs where "rollup_history RollupHour (sealed_of Hour hs) (rs_open (ss_hour s)) cur bs"
    using ok by (auto simp: series_ok_def rollup_invariant_def rollup_ok_def ss_rollup_def)
  moreover have "h \<in> set (sealed_of Hour hs)" using h Hour by (simp add: sealed_of_def)
  ultimately obtain x where "bucket_span RollupHour x = se_span h"
    unfolding rollup_open.history_def well_sealed_def by (metis last_in_set)
  then show ?thesis using Hour by (metis bucket_span_def rollup_tier_of_simps(2) span_on_grid_span_of)
qed

lemma series_live_grid:
  assumes "series_live k written tail points pending s dirty unlogged now committed" and "h \<in> set pending"
  shows "span_on_grid (se_tier h) (se_span h)"
proof -
  obtain ops0 ops where after: "tail_after k written tail ops0" and run: "series_run (tail_state k tail) ops = (pending, s)"
    and lived: "lived k now (ops0 @ ops)"
    using assms(1) by (auto simp: series_live_def)
  obtain n where "series_ok n (written @ pending) s (accepted_points None (ops0 @ ops))"
    using series_run_new_ok [OF tail_after_run(1) [OF after run]] lived by (auto simp: lived_def)
  then show ?thesis using series_ok_grid [of n "written @ pending" s _ h] assms(2) by simp
qed

lemma spans_ok_update:
  assumes "spans_ok ms" and "span_on_grid t sp"
  shows "spans_ok (ms[unat (tier_code t) := option_max (ms ! unat (tier_code t)) (Some sp)])"
proof -
  obtain a b c where ms: "ms = [a, b, c]"
    using assms(1) by (auto simp: spans_ok_def all_tiers_def list_all2_Cons1)
  show ?thesis
    using assms by (cases t; cases a; cases b; cases c)
      (auto simp: ms spans_ok_def all_tiers_def tier_code_def option_max_def max_def)
qed

lemma keep_sealed_core:
  assumes "keep_sealed core e chunks = (core', e')"
  shows "\<exists>T spans. core' = core\<lparr>co_sealed := co_sealed core @ map (Pair (he_id e)) chunks, co_touched := T\<rparr>
     \<and> set T = set (co_touched core) \<union> (if chunks = [] then {} else {he_id e})
     \<and> e' = e\<lparr>he_last_spans := spans, he_pending := he_pending e @ chunks\<rparr>
     \<and> (spans_ok (he_last_spans e) \<and> (\<forall>h\<in>set chunks. span_on_grid (se_tier h) (se_span h)) \<longrightarrow> spans_ok spans)"
  using assms
proof (induction chunks arbitrary: core e)
  case (Cons h chunks)
  obtain core1 e1 where one: "keep_one (core, e) h = (core1, e1)" by (cases "keep_one (core, e) h")
  let ?i = "unat (tier_code (se_tier h))"
  let ?spans = "(he_last_spans e)[?i := option_max (he_last_spans e ! ?i) (Some (se_span h))]"
  have e1: "core1 = core\<lparr>co_sealed := co_sealed core @ [(he_id e, h)], co_touched := bs_insert (co_touched core) (he_id e)\<rparr>"
    "e1 = e\<lparr>he_last_spans := ?spans, he_pending := he_pending e @ [h]\<rparr>"
    using one by (simp_all add: keep_one_def Let_def)
  have "keep_sealed core1 e1 chunks = (core', e')" using Cons.prems one by (simp add: keep_sealed_def)
  from Cons.IH [OF this] obtain T spans where T: "core' = core1\<lparr>co_sealed := co_sealed core1 @ map (Pair (he_id e1)) chunks, co_touched := T\<rparr>"
    "set T = set (co_touched core1) \<union> (if chunks = [] then {} else {he_id e1})"
    "e' = e1\<lparr>he_last_spans := spans, he_pending := he_pending e1 @ chunks\<rparr>"
    "spans_ok (he_last_spans e1) \<and> (\<forall>h\<in>set chunks. span_on_grid (se_tier h) (se_span h)) \<longrightarrow> spans_ok spans" by blast
  show ?case
    using T spans_ok_update [of "he_last_spans e" "se_tier h" "se_span h"]
    by (intro exI [of _ T] exI [of _ spans]) (auto simp: e1)
next
  case Nil
  then show ?case
    by (intro exI [of _ "co_touched core"] exI [of _ "he_last_spans e"]) (simp add: keep_sealed_def)
qed

lemma keep_sealed_entry:
  assumes "keep_sealed core (e\<lparr>he_state := s, he_dirty := d\<rparr>) chunks = (core', e')"
  obtains T spans where "core' = core\<lparr>co_sealed := co_sealed core @ map (Pair (he_id e)) chunks, co_touched := T\<rparr>"
    "set T = set (co_touched core) \<union> (if chunks = [] then {} else {he_id e})"
    "e' = e\<lparr>he_state := s, he_dirty := d, he_last_spans := spans, he_pending := he_pending e @ chunks\<rparr>"
    "spans_ok (he_last_spans e) \<and> (\<forall>h\<in>set chunks. span_on_grid (se_tier h) (se_span h)) \<longrightarrow> spans_ok spans"
proof -
  let ?e = "e\<lparr>he_state := s, he_dirty := d\<rparr>"
  have id: "he_id ?e = he_id e" "he_pending ?e = he_pending e" "he_last_spans ?e = he_last_spans e" by simp_all
  from keep_sealed_core [OF assms] show thesis
    unfolding id using that by blast
qed

section \<open>One series moves on\<close>

lemma sealed_for_simps [simp]:
  "sealed_for i [] = []"
  "sealed_for i (hs @ ks) = sealed_for i hs @ sealed_for i ks"
  "sealed_for i (map (Pair j) chunks) = (if i = j then chunks else [])"
  by (auto simp: sealed_for_def filter_map o_def)

lemma core_okD:
  assumes "core_ok db core acc com written"
  shows "map_of (co_head core) key = Some e \<Longrightarrow> entry_ok db core acc com written key e"
    and "om_get (co_index core) i = Some key \<Longrightarrow> \<exists>e. map_of (co_head core) key = Some e \<and> he_id e = i"
    and "acc key = Some x \<Longrightarrow> \<exists>e. map_of (co_head core) key = Some e"
    and "acc key = None \<longleftrightarrow> map_of (co_head core) key = None"
    and "row_at db n = Some row \<Longrightarrow> om_get (co_index core) (SeriesId n) = Some (sr_key row)"
    and "om_get (co_index core) i = Some key \<Longrightarrow> series_id_get i < co_next_id core"
    and "om_valid (co_index core)" and "unat (last_issued (co_clock core)) < 2 ^ 63"
    and "unat (co_next_id core) = card (dom acc)"
proof -
  have "dom acc = dom (map_of (co_head core))" using assms by (simp add: core_ok_def)
  then show "acc key = Some x \<Longrightarrow> \<exists>e. map_of (co_head core) key = Some e" and "acc key = None \<longleftrightarrow> map_of (co_head core) key = None"
    by (metis domD domI, metis domIff)
qed (use assms in \<open>simp_all add: core_ok_def\<close>)

lemma entry_okD:
  assumes "entry_ok db core acc com written key e" and "acc key = Some (k, pts)"
  shows "pts = abs_points com key @ points_of (he_id e) (co_points core)"
    and "series_live k (written key) (om_get (db_tails db) (tail_key (he_id e))) (points_of (he_id e) (log_points (db_points_log db)))
           (he_pending e) (he_state e) (he_dirty e) (points_of (he_id e) (co_points core)) (last_issued (co_clock core)) (abs_points com key)"
    and "om_get (co_index core) (he_id e) = Some key" and "ss_kind (he_state e) = k" and "ss_last_ts (he_state e) = last_after None pts"
proof -
  show pts: "pts = abs_points com key @ points_of (he_id e) (co_points core)"
    and live: "series_live k (written key) (om_get (db_tails db) (tail_key (he_id e))) (points_of (he_id e) (log_points (db_points_log db)))
           (he_pending e) (he_state e) (he_dirty e) (points_of (he_id e) (co_points core)) (last_issued (co_clock core)) (abs_points com key)"
    and "om_get (co_index core) (he_id e) = Some key"
    using assms by (auto simp: entry_ok_def)
  show "ss_kind (he_state e) = k" and "ss_last_ts (he_state e) = last_after None pts"
    using series_live_state [OF live] pts by simp_all
qed

lemma entry_ok_other:
  assumes other: "entry_ok db core acc com written key e" and i: "he_id e \<noteq> i"
    and core': "co_points core' = co_points core @ extra" "co_sealed core' = co_sealed core @ map (Pair i) chunks"
      "co_clock core' = co_clock core" "co_index core' = co_index core" "co_new_series core' = co_new_series core"
      "set (co_touched core) \<subseteq> set (co_touched core')"
    and extra: "\<forall>p\<in>set extra. lp_id p = i" and acc: "acc' key = acc key"
  shows "entry_ok db core' acc' com written key e"
proof -
  have "points_of (he_id e) extra = []"
    using extra i by (auto simp: points_of_def filter_empty_conv)
  then show ?thesis
    using assms unfolding entry_ok_def by (auto split: option.splits)
qed

lemma core_ok_update:
  assumes ok: "core_ok db core acc com written" and e: "map_of (co_head core) key = Some e" and k: "acc key = Some (k, pts)"
    and core': "core' = core\<lparr>co_head := AList.update key e' (co_head core), co_points := co_points core @ extra,
      co_sealed := co_sealed core @ map (Pair (he_id e)) chunks, co_touched := T\<rparr>"
    and T: "set T = set (co_touched core) \<union> (if chunks = [] then {} else {he_id e})"
    and e': "he_id e' = he_id e" "he_pending e' = he_pending e @ chunks" "spans_ok (he_last_spans e')"
    and extra: "\<forall>p\<in>set extra. lp_id p = he_id e \<and> value_ok k (lp_value p)"
    and live: "series_live k (written key) (om_get (db_tails db) (tail_key (he_id e))) (points_of (he_id e) (log_points (db_points_log db)))
           (he_pending e') (he_state e') (he_dirty e') (points_of (he_id e) (co_points core @ extra)) (last_issued (co_clock core)) (abs_points com key)"
  shows "core_ok db core' (acc(key \<mapsto> (k, pts @ map logged_point_of extra))) com written"
proof -
  let ?acc = "acc(key \<mapsto> (k, pts @ map logged_point_of extra))"
  have old: "entry_ok db core acc com written key e" using ok e by (rule core_okD)
  note entry = entry_okD [OF old k]
  have extra_pts: "points_of (he_id e) extra = map logged_point_of extra"
    using extra by (simp add: points_of_def filter_id_conv)
  have new: "entry_ok db core' ?acc com written key e'"
    using old k entry(1) live e' T extra_pts by (auto simp: entry_ok_def core')
  have others: "entry_ok db core' ?acc com written key2 e2" if "key2 \<noteq> key" "map_of (co_head core) key2 = Some e2" for key2 e2
  proof (rule entry_ok_other)
    show ok2: "entry_ok db core acc com written key2 e2" using ok that(2) by (rule core_okD)
    then show "he_id e2 \<noteq> he_id e" using entry(3) that(1) by (auto simp: entry_ok_def)
  qed (use that extra T in \<open>auto simp: core'\<close>)
  have "\<forall>key2 e2. map_of (co_head core') key2 = Some e2 \<longrightarrow> entry_ok db core' ?acc com written key2 e2"
    using new others by (auto simp: core' update_conv')
  moreover have "\<forall>i key2. om_get (co_index core') i = Some key2 \<longrightarrow> (\<exists>e2. map_of (co_head core') key2 = Some e2 \<and> he_id e2 = i)"
    using core_okD(2) [OF ok] e e'(1) by (fastforce simp: core' update_conv')
  moreover have "dom ?acc = dom (map_of (co_head core'))" "dom ?acc = dom acc"
    using ok k e by (auto simp: core' core_ok_def update_conv')
  moreover have "\<forall>p\<in>set (co_points core'). \<exists>key2 k2 pts2. om_get (co_index core') (lp_id p) = Some key2 \<and> ?acc key2 = Some (k2, pts2) \<and> value_ok k2 (lp_value p)"
  proof
    fix p assume "p \<in> set (co_points core')"
    then consider "p \<in> set (co_points core)" | "p \<in> set extra" by (auto simp: core')
    then show "\<exists>key2 k2 pts2. om_get (co_index core') (lp_id p) = Some key2 \<and> ?acc key2 = Some (k2, pts2) \<and> value_ok k2 (lp_value p)"
    proof cases
      case 1
      then obtain key2 k2 pts2 where "om_get (co_index core) (lp_id p) = Some key2" "acc key2 = Some (k2, pts2)" "value_ok k2 (lp_value p)"
        using ok by (auto simp: core_ok_def)
      then show ?thesis using k by (cases "key2 = key") (auto simp: core')
    qed (use extra entry(3) in \<open>auto simp: core'\<close>)
  qed
  moreover have "\<forall>i. om_get (co_index core') i = None \<longrightarrow> sealed_for i (co_sealed core') = []"
    using ok entry(3) by (auto simp: core' core_ok_def)
  moreover have "unat (co_next_id core') = card (dom ?acc)"
    using core_okD(9) [OF ok] \<open>dom ?acc = dom acc\<close> by (simp add: core')
  ultimately show ?thesis
    using ok by (simp add: core_ok_def core')
qed

section \<open>Appends\<close>

lemma check_scaled_value: "value_ok k v \<Longrightarrow> check_scaled k v = Inr (Scaled v)"
  by (simp add: check_scaled_def value_ok_def)

lemma newer_append:
  "ss_append s ts (Scaled v) = Inl err \<Longrightarrow> \<not> newer (ss_last_ts s) \<lparr>rp_ts = ts, rp_value = v\<rparr>"
  "ss_append s ts (Scaled v) = Inr x \<Longrightarrow> newer (ss_last_ts s) \<lparr>rp_ts = ts, rp_value = v\<rparr>"
  using ss_append_newer [of s ts "Scaled v"] by simp_all

text \<open>An append to a series of the head is what the abstract store does.\<close>

lemma append_active_spec:
  assumes ok: "core_ok db core acc com written" and k: "acc key = Some (k, pts)" and v: "value_ok kind v"
    and ts: "last_issued (co_clock core) = ts"
  shows "\<exists>core'. append_active core key kind v (Scaled v) ts = (Inr (fst (spec_point acc key kind v ts)), core')
    \<and> core_ok db core' (snd (spec_point acc key kind v ts)) com written \<and> co_clock core' = co_clock core"
proof -
  obtain e where e: "map_of (co_head core) key = Some e" using core_okD(3) [OF ok k] by blast
  note entry = entry_okD [OF core_okD(1) [OF ok e] k]
  consider "k \<noteq> kind" | err where "k = kind" "ss_append (he_state e) ts (Scaled v) = Inl err"
    | chunks s where "k = kind" "ss_append (he_state e) ts (Scaled v) = Inr (chunks, s)"
    by (metis old.prod.exhaust sum.exhaust)
  then show ?thesis
  proof cases
    case 1
    then show ?thesis using ok k v e entry(4) by (simp add: append_active_def spec_point_def)
  next
    case 2
    then show ?thesis
      using ok k v e entry(4,5) newer_append(1) [OF 2(2)] by (simp add: append_active_def spec_point_def)
  next
    case 3
    let ?p = "\<lparr>lp_id = he_id e, lp_ts = ts, lp_value = v\<rparr>"
    obtain core1 e1 where keep: "keep_sealed core (e\<lparr>he_state := s, he_dirty := True\<rparr>) chunks = (core1, e1)"
      by (cases "keep_sealed core (e\<lparr>he_state := s, he_dirty := True\<rparr>) chunks")
    obtain T spans
      where core1: "core1 = core\<lparr>co_sealed := co_sealed core @ map (Pair (he_id e)) chunks, co_touched := T\<rparr>"
      and T: "set T = set (co_touched core) \<union> (if chunks = [] then {} else {he_id e})"
      and e1: "e1 = e\<lparr>he_state := s, he_dirty := True, he_last_spans := spans, he_pending := he_pending e @ chunks\<rparr>"
      and spans: "spans_ok (he_last_spans e) \<and> (\<forall>h\<in>set chunks. span_on_grid (se_tier h) (se_span h)) \<longrightarrow> spans_ok spans"
      by (rule keep_sealed_entry [OF keep])
    let ?core = "core1\<lparr>co_head := AList.update key e1 (co_head core1), co_points := co_points core1 @ [?p]\<rparr>"
    have live: "series_live k (written key) (tail_of db (he_id e)) (logged db (he_id e)) (he_pending e @ chunks) s True
        (points_of (he_id e) (co_points core) @ [\<lparr>rp_ts = ts, rp_value = v\<rparr>]) ts (abs_points com key)"
      using series_live_append [OF entry(2) 3(2)] core_okD(8) [OF ok] v 3(1) ts by (simp add: is_ok_check_scaled)
    have "spans_ok spans"
      using spans core_okD(1) [OF ok e] series_live_grid [OF live] by (simp add: entry_ok_def)
    then have "core_ok db ?core (acc(key \<mapsto> (k, pts @ map logged_point_of [?p]))) com written"
      using live v 3(1) T ts
      by (intro core_ok_update [OF ok e k, where T = T and chunks = chunks and e' = e1]) (simp_all add: core1 e1 logged_point_of_def)
    then show ?thesis
      using 3 k v e entry(4,5) keep newer_append(2) [OF 3(2)]
      by (simp add: core1 e1 append_active_def spec_point_def logged_point_of_def)
  qed
qed

lemma tables_okD:
  assumes "tables_ok db com written"
  shows "com key \<noteq> None \<Longrightarrow> \<exists>i row. row_at db i = Some row \<and> sr_key row = key"
    and "om_get (db_series db) n \<noteq> None \<Longrightarrow> \<exists>row. row_at db n = Some row \<and> row_ok db com written n row"
    and "row_at db n = Some row \<Longrightarrow> row_ok db com written n row"
    and "row_at db n = Some row \<Longrightarrow> row_at db m = Some row' \<Longrightarrow> sr_key row = sr_key row' \<Longrightarrow> n = m"
    and "om_get (db_tails db) (c, n) \<noteq> None \<Longrightarrow> c = tier_code Raw \<and> row_at db n \<noteq> None"
    and "om_get (db_series_key db) bs = Some n \<Longrightarrow> \<exists>key. com key \<noteq> None \<and> series_key_ok key \<and> bs = series_key_to_bytes key"
    and "com key = None \<Longrightarrow> written key = []"
    and "meta_ok db" and "log_ok db (meta_get db META_COMMIT_SEQ)" and "om_valid (db_series db)" and "om_valid (db_tails db)"
    and "unat (meta_get db META_ID_COUNTER) = card (dom com)"
proof -
  show rows: "om_get (db_series db) n \<noteq> None \<Longrightarrow> \<exists>row. row_at db n = Some row \<and> row_ok db com written n row" for n
    using assms by (simp add: tables_ok_def)
  have "row_at db n = Some row \<Longrightarrow> om_get (db_series db) n \<noteq> None" by (auto simp: row_at_def split: option.splits)
  then show "row_at db n = Some row \<Longrightarrow> row_ok db com written n row" using rows [of n] by auto
  show "row_at db n = Some row \<Longrightarrow> row_at db m = Some row' \<Longrightarrow> sr_key row = sr_key row' \<Longrightarrow> n = m"
    using assms unfolding tables_ok_def by blast
  show "om_get (db_tails db) (c, n) \<noteq> None \<Longrightarrow> c = tier_code Raw \<and> row_at db n \<noteq> None"
    using assms unfolding tables_ok_def by blast
  show "com key \<noteq> None \<Longrightarrow> \<exists>i row. row_at db i = Some row \<and> sr_key row = key"
    using assms unfolding tables_ok_def by (metis domIff)
  show "com key = None \<Longrightarrow> written key = []" using assms unfolding tables_ok_def by (metis domIff)
  show "om_get (db_series_key db) bs = Some n \<Longrightarrow> \<exists>key. com key \<noteq> None \<and> series_key_ok key \<and> bs = series_key_to_bytes key"
    using assms unfolding tables_ok_def by (metis domIff)
qed (use assms in \<open>simp_all add: tables_ok_def\<close>)

lemma log_okD:
  assumes "log_ok db seq"
  shows "p \<in> set (log_points (db_points_log db)) \<Longrightarrow> \<exists>row. row_at db (series_id_get (lp_id p)) = Some row \<and> value_ok (sr_kind row) (lp_value p)"
    and "(q, bs) \<in> set (db_points_log db) \<Longrightarrow> is_ok (decode_log_entry bs) \<and> q < seq" and "om_valid (db_points_log db)"
  using assms by (auto simp: log_ok_def)

text \<open>A series the head does not hold is new: the tables name none the head does not know.\<close>

lemma fresh_key:
  assumes tables: "tables_ok db com written" and ok: "core_ok db core acc com written" and new: "acc key = None" and key: "series_key_ok key"
  shows "com key = None" and "interned False db key = Inr None" and "written key = []"
proof -
  show com: "com key = None"
  proof (rule ccontr)
    assume "com key \<noteq> None"
    then obtain i row where "row_at db i = Some row" "sr_key row = key"
      using tables_okD(1) [OF tables] by blast
    then show False using core_okD(5) [OF ok] core_okD(2) [OF ok] core_okD(4) [OF ok] new by (metis option.distinct(1))
  qed
  have "om_get (db_series_key db) (series_key_to_bytes key) = None"
  proof (rule ccontr)
    assume "om_get (db_series_key db) (series_key_to_bytes key) \<noteq> None"
    then obtain key' where "com key' \<noteq> None" "series_key_ok key'" "series_key_to_bytes key = series_key_to_bytes key'"
      using tables_okD(6) [OF tables] by blast
    then have "key' = key" using key by (metis series_key_from_bytes_Inr sum.inject(2))
    with \<open>com key' \<noteq> None\<close> com show False by simp
  qed
  then show "interned False db key = Inr None" by (simp add: interned_def)
  show "written key = []" using tables_okD(7) [OF tables com] .
qed

lemma fresh_id:
  assumes tables: "tables_ok db com written" and ok: "core_ok db core acc com written" and new: "\<not> series_id_get i < co_next_id core"
  shows "tail_of db i = None" and "logged db i = []" and "row_at db (series_id_get i) = None" and "om_get (co_index core) i = None"
    and "points_of i (co_points core) = []" and "sealed_for i (co_sealed core) = []"
proof -
  show index: "om_get (co_index core) i = None" using core_okD(6) [OF ok] new by (metis not_Some_eq)
  then show "sealed_for i (co_sealed core) = []" using ok by (simp add: core_ok_def)
  from index show row: "row_at db (series_id_get i) = None" using core_okD(5) [OF ok] by (metis not_Some_eq series_id.collapse)
  then show "tail_of db i = None"
    using tables_okD(5) [OF tables, of "tier_code Raw" "series_id_get i"] by (cases "om_get (db_tails db) (tail_key i)") (auto simp: tail_key_def)
  have "p \<in> set (log_points (db_points_log db)) \<Longrightarrow> lp_id p \<noteq> i" for p
    using log_okD(1) [OF tables_okD(9) [OF tables]] row by fastforce
  then show "logged db i = []" by (auto simp: points_of_def filter_empty_conv)
  have "p \<in> set (co_points core) \<Longrightarrow> lp_id p \<noteq> i" for p
    using ok index by (fastforce simp: core_ok_def)
  then show "points_of i (co_points core) = []" by (auto simp: points_of_def filter_empty_conv)
qed

lemma entry_ok_cong:
  assumes "entry_ok db core acc com written key e"
    and "co_points core' = co_points core" "co_sealed core' = co_sealed core" "co_clock core' = co_clock core"
      "om_get (co_index core') (he_id e) = om_get (co_index core) (he_id e)" "set (co_touched core) \<subseteq> set (co_touched core')"
    and "acc' key = acc key"
  shows "entry_ok db core' acc' com written key e"
  using assms unfolding entry_ok_def by auto

lemma activate_spec:
  assumes tables: "tables_ok db com written" and ok: "core_ok db core acc com written" and new: "acc key = None" and key: "series_key_ok key"
    and card: "card (dom acc) < 2 ^ 32 - 1"
  shows "\<exists>core'. activate False db core key kind = (Inr (Inr ()), core')
    \<and> core_ok db core' (acc(key \<mapsto> (kind, []))) com written \<and> co_clock core' = co_clock core"
proof -
  let ?i = "SeriesId (co_next_id core)" and ?acc = "acc(key \<mapsto> (kind, []))"
  let ?e = "\<lparr>he_id = ?i, he_state = ss_new kind, he_last_spans = [None, None, None], he_dirty = True, he_pending = []\<rparr>"
  define core1 where "core1 = core\<lparr>co_next_id := co_next_id core + 1, co_new_series := bs_insert (co_new_series core) ?i,
      co_touched := bs_insert (co_touched core) ?i\<rparr>"
  define core' where "core' = core_install core1 key ?e"
  have core': "co_points core' = co_points core" "co_sealed core' = co_sealed core" "co_clock core' = co_clock core"
    "co_index core' = om_insert (co_index core) ?i key" "co_head core' = AList.update key ?e (co_head core)"
    "co_touched core' = bs_insert (co_touched core) ?i" "co_next_id core' = co_next_id core + 1"
    by (simp_all add: core'_def core1_def core_install_def)
  have next_id: "checked_add (co_next_id core) 1 = Some (co_next_id core + 1)" "unat (co_next_id core + 1) = Suc (card (dom acc))"
    using core_okD(9) [OF ok] card by (simp_all add: checked_add_eq_Some unat_word_ariths)
  note fresh = fresh_key [OF tables ok new key] and id = fresh_id [OF tables ok, of ?i, simplified]
  have head: "map_of (co_head core) key = None" using core_okD(4) [OF ok] new by blast
  have entry: "entry_ok db core' ?acc com written key ?e"
    using series_live_new [of kind "last_issued (co_clock core)"] fresh id key
    by (simp add: entry_ok_def core' om_get_insert abs_points_def spans_ok_def all_tiers_def)
  have others: "entry_ok db core' ?acc com written key2 e2" if "map_of (co_head core) key2 = Some e2" for key2 e2
    using core_okD(1) [OF ok that]
  proof (rule entry_ok_cong)
    have "om_get (co_index core) (he_id e2) = Some key2" using core_okD(1) [OF ok that] by (simp add: entry_ok_def)
    then show "om_get (co_index core') (he_id e2) = om_get (co_index core) (he_id e2)"
      using id(4) by (auto simp: core' om_get_insert)
  qed (use that head in \<open>auto simp: core'\<close>)
  have "core_ok db core' ?acc com written"
    unfolding core_ok_def
  proof (intro conjI allI impI ballI)
    show "om_valid (co_index core')" using core_okD(7) [OF ok] by (simp add: core' om_insert_valid)
  next
    fix key2 e2 assume "map_of (co_head core') key2 = Some e2"
    then show "entry_ok db core' ?acc com written key2 e2"
      using entry others by (auto simp: core' update_conv' split: if_splits)
  next
    fix j key2 assume "om_get (co_index core') j = Some key2"
    then show "\<exists>e. map_of (co_head core') key2 = Some e \<and> he_id e = j"
      using core_okD(2) [OF ok, of j key2] head by (auto simp: core' om_get_insert update_conv' split: if_splits)
  next
    show "dom ?acc = dom (map_of (co_head core'))" using ok by (simp add: core' update_conv' core_ok_def)
  next
    fix n row assume "row_at db n = Some row"
    then show "om_get (co_index core') (SeriesId n) = Some (sr_key row)"
      using core_okD(5) [OF ok] id(3) by (auto simp: core' om_get_insert)
  next
    fix j assume "om_get (co_index core') j \<noteq> None"
    then have "j = ?i \<or> series_id_get j < co_next_id core" using core_okD(6) [OF ok] by (auto simp: core' om_get_insert split: if_splits)
    then show "series_id_get j < co_next_id core'"
      using next_id core_okD(9) [OF ok] by (auto simp: core' word_less_nat_alt)
  next
    show "unat (co_next_id core') = card (dom ?acc)"
      using next_id new head ok by (simp add: core' core_ok_def card_insert_if domIff finite_dom_map_of)
  next
    fix p assume "p \<in> set (co_points core')"
    then obtain key2 k pts where "om_get (co_index core) (lp_id p) = Some key2" "acc key2 = Some (k, pts)" "value_ok k (lp_value p)"
      using ok by (auto simp: core_ok_def core')
    then show "\<exists>key k pts. om_get (co_index core') (lp_id p) = Some key \<and> ?acc key = Some (k, pts) \<and> value_ok k (lp_value p)"
      using id(4) new by (intro exI [of _ key2]) (auto simp: core' om_get_insert)
  next
    fix j assume "om_get (co_index core') j = None"
    then show "sealed_for j (co_sealed core') = []" using ok by (auto simp: core' om_get_insert core_ok_def split: if_splits)
  next
    show "unat (last_issued (co_clock core')) < 2 ^ 63" using core_okD(8) [OF ok] by (simp add: core')
  qed
  moreover have "activate False db core key kind = (Inr (Inr ()), core')"
    by (simp add: activate_def fresh(2) next_id(1) core'_def core1_def Let_def)
  ultimately show ?thesis using core'(3) by blast
qed

lemma spec_point_new: "acc key = None \<Longrightarrow> value_ok kind v \<Longrightarrow> card (dom acc) < 2 ^ 32 - 1
    \<Longrightarrow> spec_point (acc(key \<mapsto> (kind, []))) key kind v ts = spec_point acc key kind v ts"
  by (simp add: spec_point_def newer_def)

text \<open>One point: the answer and the new state are those of the abstract store, unless redb refuses a read.\<close>

lemma append_point_spec:
  assumes tables: "tables_ok db com written" and ok: "core_ok db core acc com written" and key: "series_key_ok key"
    and ts: "last_issued (co_clock core) = ts" and result: "append_point refused db core key kind v ts = (result, core')"
  shows "result = Inl StoreFailed \<and> refused
    \<or> result = Inr (fst (spec_point acc key kind v ts)) \<and> core_ok db core' (snd (spec_point acc key kind v ts)) com written
        \<and> co_clock core' = co_clock core"
proof -
  consider "\<not> value_ok kind v" | k pts where "value_ok kind v" "acc key = Some (k, pts)"
    | "value_ok kind v" "acc key = None" "\<not> refused" "card (dom acc) < 2 ^ 32 - 1"
    | "value_ok kind v" "acc key = None" "\<not> refused" "\<not> card (dom acc) < 2 ^ 32 - 1"
    | "value_ok kind v" "acc key = None" "refused"
    by (metis option.exhaust old.prod.exhaust)
  then show ?thesis
  proof cases
    case 1
    then show ?thesis using result ok
      by (cases "check_scaled kind v") (auto simp: append_point_def spec_point_def is_ok_check_scaled [symmetric])
  next
    case 2
    obtain e where "map_of (co_head core) key = Some e" using core_okD(3) [OF ok 2(2)] by blast
    with 2 show ?thesis
      using append_active_spec [OF ok 2(2,1) ts] result check_scaled_value [OF 2(1)] by (auto simp: append_point_def)
  next
    case 3
    obtain core1 where one: "activate False db core key kind = (Inr (Inr ()), core1)"
      "core_ok db core1 (acc(key \<mapsto> (kind, []))) com written" "co_clock core1 = co_clock core"
      using activate_spec [OF tables ok 3(2) key 3(4)] by blast
    obtain core2 where "append_active core1 key kind v (Scaled v) ts = (Inr (fst (spec_point (acc(key \<mapsto> (kind, []))) key kind v ts)), core2)"
      "core_ok db core2 (snd (spec_point (acc(key \<mapsto> (kind, []))) key kind v ts)) com written" "co_clock core2 = co_clock core1"
      using append_active_spec [OF one(2) _ 3(1), of key kind "[]" ts] one(3) ts by auto
    then show ?thesis
      using one(1,3) 3 result core_okD(4) [OF ok, of key] check_scaled_value [OF 3(1)] spec_point_new [OF 3(2,1,4)]
      by (auto simp: append_point_def)
  next
    case 4
    have "checked_add (co_next_id core) 1 = None"
      using core_okD(9) [OF ok] 4(4) by (simp add: checked_add_def)
    then have "activate False db core key kind = (Inr (Inl SeriesCapReached), core)"
      using fresh_key [OF tables ok 4(2) key] by (simp add: activate_def)
    then show ?thesis
      using 4 ok result core_okD(4) [OF ok, of key] check_scaled_value [OF 4(1)]
      by (auto simp: append_point_def spec_point_def)
  next
    case 5
    then show ?thesis
      using result core_okD(4) [OF ok, of key] check_scaled_value [OF 5(1)]
      by (auto simp: append_point_def activate_def interned_def)
  qed
qed

lemma append_each_spec:
  assumes "tables_ok db com written" and "core_ok db core acc com written"
    and "system_key_ok system" and "\<forall>(metric, _)\<in>set ps. metric_name_ok metric"
    and "last_issued (co_clock core) = ts" and "append_each refused db system g ts core report ps = (result, core')"
  shows "result = Inl StoreFailed \<and> (\<exists>key. refused key)
    \<or> result = Inr (fst (spec_points system g ts acc report ps)) \<and> core_ok db core' (snd (spec_points system g ts acc report ps)) com written
        \<and> co_clock core' = co_clock core"
  using assms(2,4-6)
proof (induction ps arbitrary: core acc report)
  case (Cons p ps)
  obtain metric kind v where p: "p = (metric, kind, v)" by (cases p)
  let ?key = "\<lparr>sk_system = system, sk_generation = g, sk_metric = metric\<rparr>"
  have key: "series_key_ok ?key" using Cons.prems(2) assms(3) by (simp add: p series_key_ok_def)
  obtain r core1 where one: "append_point (refused ?key) db core ?key kind v ts = (r, core1)"
    by (cases "append_point (refused ?key) db core ?key kind v ts")
  obtain x acc1 where spec: "spec_point acc ?key kind v ts = (x, acc1)" by (cases "spec_point acc ?key kind v ts")
  from append_point_spec [OF assms(1) Cons.prems(1) key Cons.prems(3) one]
  consider "r = Inl StoreFailed" "refused ?key" | "r = Inr x" "core_ok db core1 acc1 com written" "co_clock core1 = co_clock core"
    by (auto simp: spec)
  then show ?case
  proof cases
    case 1
    then show ?thesis using Cons.prems(4) one by (auto simp: p)
  next
    case 2
    let ?report = "case x of Inr _ \<Rightarrow> report\<lparr>ap_accepted := sat_add (ap_accepted report) 1\<rparr>
      | Inl refusal \<Rightarrow> report\<lparr>ap_rejected := ap_rejected report @ [(metric, refusal)]\<rparr>"
    have "append_each refused db system g ts core1 ?report ps = (result, core')"
      using Cons.prems(4) one 2(1) by (cases x) (auto simp: p)
    moreover have "spec_points system g ts acc report (p # ps) = spec_points system g ts acc1 ?report ps"
      by (cases x) (auto simp: p spec)
    ultimately show ?thesis
      using Cons.IH [OF 2(2)] Cons.prems(2,3) 2(3) by auto
  qed
qed simp

section \<open>The clock and the sweep\<close>

lemma core_ok_clock:
  assumes ok: "core_ok db core acc com written" and "last_issued (co_clock core) \<le> now" and "unat now < 2 ^ 63"
  shows "core_ok db (core\<lparr>co_clock := (co_clock core)\<lparr>last_issued := now\<rparr>\<rparr>) acc com written"
proof -
  let ?core = "core\<lparr>co_clock := (co_clock core)\<lparr>last_issued := now\<rparr>\<rparr>"
  have "entry_ok db ?core acc com written key e" if "map_of (co_head core) key = Some e" for key e
    using core_okD(1) [OF ok that] assms(2) unfolding entry_ok_def by (auto intro: series_live_later)
  then show ?thesis using ok assms(3) by (simp add: core_ok_def)
qed

lemma core_hub_now_spec:
  assumes "core_ok db core acc com written" and "core_hub_now core system_now = (now, core')" and "unat system_now < 2 ^ 63"
  shows "core_ok db core' acc com written" and "last_issued (co_clock core') = now"
    and "core' = core\<lparr>co_clock := (co_clock core)\<lparr>last_issued := now\<rparr>\<rparr>" and "last_issued (co_clock core) \<le> now"
proof -
  have now: "now = max (last_issued (co_clock core)) system_now" and core': "core' = core\<lparr>co_clock := (co_clock core)\<lparr>last_issued := now\<rparr>\<rparr>"
    using assms(2) by (auto simp: core_hub_now_def clock_now_def Let_def)
  have "unat now < 2 ^ 63" using core_okD(8) [OF assms(1)] assms(3) by (simp add: now max_def)
  then show "core_ok db core' acc com written" unfolding core' using core_ok_clock [OF assms(1)] by (simp add: now)
qed (use assms(2) in \<open>auto simp: core_hub_now_def clock_now_def Let_def\<close>)

lemma sweep_entry_spec:
  assumes ok: "core_ok db core acc com written" and now: "last_issued (co_clock core) = now"
  shows "core_ok db (sweep_entry now core key) acc com written"
    and "co_clock (sweep_entry now core key) = co_clock core" and "co_index (sweep_entry now core key) = co_index core"
proof -
  let ?core = "sweep_entry now core key"
  have "core_ok db ?core acc com written \<and> co_clock ?core = co_clock core \<and> co_index ?core = co_index core"
  proof (cases "map_of (co_head core) key")
    case None
    then show ?thesis using ok by (simp add: sweep_entry_def)
  next
    case (Some e)
    then obtain k pts where k: "acc key = Some (k, pts)" using core_okD(4) [OF ok, of key] by (metis not_Some_eq old.prod.exhaust)
    note entry = entry_okD [OF core_okD(1) [OF ok Some] k]
    obtain chunks s1 where sweep: "ss_sweep (he_state e) now = (chunks, s1)" by (cases "ss_sweep (he_state e) now")
    obtain rest s2 where seal: "ss_seal_closed s1 now = (rest, s2)" by (cases "ss_seal_closed s1 now")
    have dirty: "e\<lparr>he_state := s2\<rparr> = e\<lparr>he_state := s2, he_dirty := he_dirty e\<rparr>" by simp
    obtain core1 e1 where keep: "keep_sealed core (e\<lparr>he_state := s2, he_dirty := he_dirty e\<rparr>) (chunks @ rest) = (core1, e1)"
      by (cases "keep_sealed core (e\<lparr>he_state := s2, he_dirty := he_dirty e\<rparr>) (chunks @ rest)")
    obtain T spans where core1: "core1 = core\<lparr>co_sealed := co_sealed core @ map (Pair (he_id e)) (chunks @ rest), co_touched := T\<rparr>"
      and T: "set T = set (co_touched core) \<union> (if chunks @ rest = [] then {} else {he_id e})"
      and e1: "e1 = e\<lparr>he_state := s2, he_dirty := he_dirty e, he_last_spans := spans, he_pending := he_pending e @ chunks @ rest\<rparr>"
      and spans: "spans_ok (he_last_spans e) \<and> (\<forall>h\<in>set (chunks @ rest). span_on_grid (se_tier h) (se_span h)) \<longrightarrow> spans_ok spans"
      by (rule keep_sealed_entry [OF keep])
    have live: "series_live k (written key) (tail_of db (he_id e)) (logged db (he_id e)) (he_pending e @ chunks @ rest) s2 (he_dirty e)
        (points_of (he_id e) (co_points core)) now (abs_points com key)"
      using series_live_sweep [OF entry(2) _ sweep seal] now by simp
    have "spans_ok spans"
      using spans core_okD(1) [OF ok Some] series_live_grid [OF live] by (simp add: entry_ok_def)
    then have "core_ok db (core1\<lparr>co_head := AList.update key e1 (co_head core1)\<rparr>) (acc(key \<mapsto> (k, pts @ map logged_point_of []))) com written"
      using live T now
      by (intro core_ok_update [OF ok Some k, where T = T and chunks = "chunks @ rest" and e' = e1 and extra = "[]"]) (simp_all add: core1 e1)
    moreover have "?core = core1\<lparr>co_head := AList.update key e1 (co_head core1)\<rparr>"
      using Some keep by (simp add: sweep_entry_def sweep seal)
    ultimately show ?thesis using k by (simp add: core1 fun_upd_idem)
  qed
  then show "core_ok db ?core acc com written" and "co_clock ?core = co_clock core" and "co_index ?core = co_index core" by blast+
qed

lemma core_sweep_spec:
  assumes "core_ok db core acc com written" and "last_issued (co_clock core) = now"
  shows "core_ok db (core_sweep core order now) acc com written"
    and "co_clock (core_sweep core order now) = co_clock core" and "co_index (core_sweep core order now) = co_index core"
proof -
  have "core_ok db (core_sweep core order now) acc com written \<and> co_clock (core_sweep core order now) = co_clock core
      \<and> co_index (core_sweep core order now) = co_index core"
    using assms
  proof (induction order arbitrary: core)
    case (Cons key order)
    then show ?case using Cons.IH [of "sweep_entry now core key"] sweep_entry_spec [OF Cons.prems, of key] by (simp add: core_sweep_def)
  qed (simp add: core_sweep_def)
  then show "core_ok db (core_sweep core order now) acc com written"
    and "co_clock (core_sweep core order now) = co_clock core" and "co_index (core_sweep core order now) = co_index core" by blast+
qed

end
