(* ===== verification/Store_Commit.thy ===== *)
theory Store_Commit
  imports Store_Spec
begin

text \<open>
  A group commit and the invariants.  A commit writes the tails of the series that sealed, that are new
  or that the rotation makes due, logs the interval's points, and drops the log below its bound; the
  rotation's invariant says that whatever is dropped is in some tail.  This theory shows that a commit
  makes all that memory accepted the committed state, in tables and memory alike.
\<close>

section \<open>Tables left alone\<close>

lemma same_tables_refl [simp]: "same_tables db db"
  by (simp add: same_tables_def)

lemma same_tables_trans: "same_tables a b \<Longrightarrow> same_tables b c \<Longrightarrow> same_tables a c"
  by (simp add: same_tables_def)

lemma retire_loop_same: "same_tables db (fst (snd (retire_loop limit retired spent db queue)))"
proof (induction queue arbitrary: retired spent db)
  case (Cons r queue)
  have "same_tables db (retire_file db r)" by (simp add: retire_file_def Let_def same_tables_def)
  then show ?case using Cons.IH same_tables_trans by fastforce
qed simp

lemma retention_step_same:
  assumes "retention_step refused instant px (r, db, h) = Inr (step, r', db', h')"
  shows "same_tables db db'"
proof (cases "re_stage r")
  case None
  then show ?thesis using assms by (simp add: retention_step_def)
next
  case (Some stage)
  show ?thesis
  proof (cases stage)
    case (StageChunks lo)
    then show ?thesis using assms Some
      by (auto simp: retention_step_def retention_scan_def Let_def rbind_eq_Inr same_tables_def split: if_splits prod.splits scan_end.splits)
  next
    case (StageFiles queue)
    then show ?thesis using assms Some retire_loop_same [of db BATCH "[]" 0 queue]
      by (cases queue) (auto simp: retention_step_def retire_def split: prod.splits)
  qed
qed

lemma same_pieces:
  assumes "same_tables db db'"
  shows "db_meta db' = db_meta db" "db_series db' = db_series db" "db_series_key db' = db_series_key db" "db_tails db' = db_tails db"
    "db_points_log db' = db_points_log db" "row_at db' = row_at db" "meta_get db' = meta_get db" "meta_ok db' = meta_ok db"
    "log_ok db' = log_ok db" "row_ok db' = row_ok db"
  using assms by (simp_all add: same_tables_def row_at_def meta_get_def meta_ok_def log_ok_def row_ok_def fun_eq_iff)

lemma same_tables_ok: "same_tables db db' \<Longrightarrow> tables_ok db' com written \<longleftrightarrow> tables_ok db com written"
  by (simp add: same_pieces tables_ok_def)

lemma same_core_ok: "same_tables db db' \<Longrightarrow> core_ok db' core acc com written \<longleftrightarrow> core_ok db core acc com written"
  by (simp add: same_pieces core_ok_def entry_ok_def)

section \<open>The tails written\<close>

text \<open>Whether a commit that goes through \<open>ids\<close> writes the tail of an entry.\<close>

definition tail_due :: "series_id list \<Rightarrow> series_id list \<Rightarrow> head_entry \<Rightarrow> bool" where
  "tail_due touched ids e \<longleftrightarrow> he_id e \<in> set ids \<and> (he_dirty e \<or> he_id e \<in> set touched)"

definition entry_record :: "series_key \<Rightarrow> head_entry \<Rightarrow> series_record" where
  "entry_record key e = \<lparr>sr_key = key, sr_kind = ss_kind (he_state e), sr_last_spans = he_last_spans e\<rparr>"

text \<open>The series whose tail is written, with its key and entry.\<close>

definition flushed_at ::
  "(series_id, series_key) btree_map \<Rightarrow> series_id list \<Rightarrow> series_id list \<Rightarrow> head \<Rightarrow> series_id \<Rightarrow> (series_key \<times> head_entry) option" where
  "flushed_at index touched ids head i = (case om_get index i of
       None \<Rightarrow> None
     | Some key \<Rightarrow> (case map_of head key of
           None \<Rightarrow> None
         | Some e \<Rightarrow> if tail_due touched ids e then Some (key, e) else None))"

text \<open>Head and tables after the tails of \<open>ids\<close> are written, from \<open>head\<close> and \<open>db\<close>.\<close>

definition tails_written ::
  "(series_id, series_key) btree_map \<Rightarrow> series_id list \<Rightarrow> series_id list \<Rightarrow> head \<Rightarrow> store_db \<Rightarrow> head \<Rightarrow> store_db \<Rightarrow> bool" where
  "tails_written index touched ids head db head' db' \<longleftrightarrow>
     (\<forall>key. map_of head' key = map_option (\<lambda>e. if tail_due touched ids e then e\<lparr>he_dirty := False\<rparr> else e) (map_of head key))
     \<and> (\<forall>i. tail_of db' i = (case flushed_at index touched ids head i of Some (_, e) \<Rightarrow> Some (ss_to_tail (he_state e)) | None \<Rightarrow> tail_of db i))
     \<and> (\<forall>i. om_get (db_series db') (series_id_get i) = (case flushed_at index touched ids head i of
           Some (key, e) \<Rightarrow> Some (series_record_to_bytes (entry_record key e)) | None \<Rightarrow> om_get (db_series db) (series_id_get i)))
     \<and> (\<forall>c n. c \<noteq> tier_code Raw \<longrightarrow> om_get (db_tails db') (c, n) = om_get (db_tails db) (c, n))
     \<and> (\<forall>bs n. om_get (db_series_key db') bs = Some n \<longrightarrow> om_get (db_series_key db) bs = Some n
          \<or> (\<exists>key e. map_of head key = Some e \<and> bs = series_key_to_bytes key))
     \<and> (om_valid (db_tails db) \<longrightarrow> om_valid (db_tails db')) \<and> (om_valid (db_series db) \<longrightarrow> om_valid (db_series db'))
     \<and> db_meta db' = db_meta db \<and> db_points_log db' = db_points_log db"

lemma tails_writtenD:
  assumes "tails_written index touched ids head db head' db'"
  shows "flushed_at index touched ids head i = None \<Longrightarrow> tail_of db' i = tail_of db i"
    and "flushed_at index touched ids head i = None \<Longrightarrow> om_get (db_series db') (series_id_get i) = om_get (db_series db) (series_id_get i)"
    and "c \<noteq> tier_code Raw \<Longrightarrow> om_get (db_tails db') (c, n) = om_get (db_tails db) (c, n)"
    and "om_get (db_series_key db') bs = Some n \<Longrightarrow> om_get (db_series_key db) bs = Some n
      \<or> (\<exists>key e. map_of head key = Some e \<and> bs = series_key_to_bytes key)"
    and "om_valid (db_tails db) \<Longrightarrow> om_valid (db_tails db')" and "om_valid (db_series db) \<Longrightarrow> om_valid (db_series db')"
  using assms by (simp_all add: tails_written_def)

lemma tails_written_from:
  assumes "tails_written index touched ids head db head' db'"
    and "db_tails db = db_tails dbx" "db_series db = db_series dbx" "db_series_key db = db_series_key dbx"
  shows "tails_written index touched ids head dbx head' (db'\<lparr>db_meta := db_meta dbx, db_points_log := db_points_log dbx\<rparr>)"
  using assms(1) unfolding tails_written_def assms(2-) by simp

lemma tail_key_inject [simp]: "tail_key i = tail_key j \<longleftrightarrow> i = j"
  by (cases i; cases j) (simp add: tail_key_def)

lemma series_id_get_inject [simp]: "series_id_get i = series_id_get j \<longleftrightarrow> i = j"
  by (cases i; cases j) simp

lemma tail_due_Nil [simp]: "\<not> tail_due touched [] e"
  by (simp add: tail_due_def)

lemma tails_written_Nil: "tails_written index touched [] head db head db"
  by (simp add: tails_written_def flushed_at_def option.map_ident split: option.splits)

lemma write_tail_step:
  assumes tie: "\<And>key e. map_of head key = Some e \<Longrightarrow> om_get index (he_id e) = Some key"
    and known: "\<And>j key. om_get index j = Some key \<Longrightarrow> \<exists>e. map_of head key = Some e \<and> he_id e = j"
    and prior: "tails_written index touched ids head db head1 db1" and one: "write_tail index touched new_series (head1, db1) i = (head2, db2)"
  shows "tails_written index touched (ids @ [i]) head db head2 db2"
proof -
  have skip: "tails_written index touched (ids @ [i]) head db head1 db1"
    if same: "\<And>key e. map_of head key = Some e \<Longrightarrow> tail_due touched (ids @ [i]) e = tail_due touched ids e"
  proof -
    have "flushed_at index touched (ids @ [i]) head = flushed_at index touched ids head"
      by (rule ext) (auto simp: flushed_at_def same split: option.splits)
    moreover have "map_option (\<lambda>e. if tail_due touched (ids @ [i]) e then e\<lparr>he_dirty := False\<rparr> else e) (map_of head key)
        = map_option (\<lambda>e. if tail_due touched ids e then e\<lparr>he_dirty := False\<rparr> else e) (map_of head key)" for key
      by (cases "map_of head key") (simp_all add: same)
    ultimately show ?thesis using prior by (simp add: tails_written_def)
  qed
  show ?thesis
  proof (cases "om_get index i")
    case None
    have "head2 = head1" "db2 = db1" using one None by (simp_all add: write_tail_def)
    moreover have "tail_due touched (ids @ [i]) e = tail_due touched ids e" if "map_of head key = Some e" for key e
      using tie [OF that] None by (auto simp: tail_due_def)
    ultimately show ?thesis using skip by simp
  next
    case (Some key)
    obtain e where e: "map_of head key = Some e" "he_id e = i" using known [OF Some] by blast
    have other: "he_id e' \<noteq> i" if "map_of head key' = Some e'" "key' \<noteq> key" for key' e'
      using tie [OF that(1)] that(2) Some by auto
    let ?e1 = "if tail_due touched ids e then e\<lparr>he_dirty := False\<rparr> else e"
    have e1: "map_of head1 key = Some ?e1" using prior e by (simp add: tails_written_def)
    show ?thesis
    proof (cases "he_dirty ?e1 \<or> i \<in> set touched")
      case False
      then have "head2 = head1" "db2 = db1" using one Some e1 by (simp_all add: write_tail_def take_tail_def bs_contains_def)
      moreover have "tail_due touched (ids @ [i]) e' = tail_due touched ids e'" if "map_of head key' = Some e'" for key' e'
        using other [OF that] False e that by (cases "key' = key") (auto simp: tail_due_def split: if_splits)
      ultimately show ?thesis using skip by simp
    next
      case True
      have due: "tail_due touched (ids @ [i]) e" using True e(2) by (auto simp: tail_due_def split: if_splits)
      have rest: "tail_due touched (ids @ [i]) e' = tail_due touched ids e'" if "map_of head key' = Some e'" "key' \<noteq> key" for key' e'
        using other [OF that] by (auto simp: tail_due_def)
      have at: "flushed_at index touched (ids @ [i]) head = (flushed_at index touched ids head)(i \<mapsto> (key, e))"
      proof (rule ext)
        fix j
        show "flushed_at index touched (ids @ [i]) head j = ((flushed_at index touched ids head)(i \<mapsto> (key, e))) j"
        proof (cases "j = i")
          case False
          then have "om_get index j \<noteq> Some key" using known [of j key] e by auto
          with False show ?thesis using rest by (auto simp: flushed_at_def split: option.splits)
        qed (use Some e due in \<open>simp add: flushed_at_def\<close>)
      qed
      have step: "head2 = AList.update key (e\<lparr>he_dirty := False\<rparr>) head1"
        "db2 = db1\<lparr>db_tails := om_insert (db_tails db1) (tail_key i) (ss_to_tail (he_state e)),
           db_series := om_insert (db_series db1) (series_id_get i) (series_record_to_bytes (entry_record key e)),
           db_series_key := (if bs_contains new_series i then om_insert (db_series_key db1) (series_key_to_bytes key) (series_id_get i) else db_series_key db1)\<rparr>"
        using one Some e1 True by (auto simp: write_tail_def take_tail_def bs_contains_def Let_def entry_record_def tail_key_def split: if_splits)
      have "map_of head2 key' = map_option (\<lambda>e. if tail_due touched (ids @ [i]) e then e\<lparr>he_dirty := False\<rparr> else e) (map_of head key')" for key'
      proof (cases "key' = key")
        case False
        then have "map_of head2 key' = map_of head1 key'" by (simp add: step update_conv')
        with False show ?thesis using prior rest by (cases "map_of head key'") (auto simp: tails_written_def)
      qed (use e due in \<open>simp add: step update_conv'\<close>)
      moreover have "tail_of db2 j = (case flushed_at index touched (ids @ [i]) head j of Some (_, e) \<Rightarrow> Some (ss_to_tail (he_state e)) | None \<Rightarrow> tail_of db j)" for j
        using prior by (simp add: step at om_get_insert tails_written_def)
      moreover have "om_get (db_series db2) (series_id_get j) = (case flushed_at index touched (ids @ [i]) head j of
           Some (key, e) \<Rightarrow> Some (series_record_to_bytes (entry_record key e)) | None \<Rightarrow> om_get (db_series db) (series_id_get j))" for j
        using prior by (simp add: step at om_get_insert tails_written_def)
      moreover have "c \<noteq> tier_code Raw \<Longrightarrow> om_get (db_tails db2) (c, n) = om_get (db_tails db) (c, n)" for c n
        using prior by (simp add: step om_get_insert tails_written_def tail_key_def)
      moreover have "om_get (db_series_key db2) bs = Some n \<Longrightarrow> om_get (db_series_key db) bs = Some n
          \<or> (\<exists>key e. map_of head key = Some e \<and> bs = series_key_to_bytes key)" for bs n
        using prior e(1) by (auto simp: step om_get_insert tails_written_def split: if_splits)
      ultimately show ?thesis
        using prior unfolding tails_written_def by (simp add: step om_insert_valid)
    qed
  qed
qed

lemma write_tails_written:
  assumes tie: "\<And>key e. map_of head key = Some e \<Longrightarrow> om_get index (he_id e) = Some key"
    and known: "\<And>j key. om_get index j = Some key \<Longrightarrow> \<exists>e. map_of head key = Some e \<and> he_id e = j"
    and fold: "foldl (write_tail index touched new_series) (head, db) ids = (head', db')"
  shows "tails_written index touched ids head db head' db'"
  using fold
proof (induction ids arbitrary: head' db' rule: rev_induct)
  case Nil
  then show ?case using tails_written_Nil by simp
next
  case (snoc i ids)
  obtain head1 db1 where one: "foldl (write_tail index touched new_series) (head, db) ids = (head1, db1)"
    by (cases "foldl (write_tail index touched new_series) (head, db) ids")
  show ?case
    using write_tail_step [OF tie known snoc.IH [OF one]] snoc.prems one by simp
qed

section \<open>The log\<close>

text \<open>What the entries before \<open>q\<close> hold of a series is in its tail.\<close>

definition stale :: "store_db \<Rightarrow> series_id \<Rightarrow> u64 \<Rightarrow> bool" where
  "stale db i q \<longleftrightarrow> (\<forall>(s, bs)\<in>set (db_points_log db). s < q \<longrightarrow>
     (\<forall>p\<in>set (entry_points bs). lp_id p = i \<longrightarrow> \<not> newer (tail_last (tail_of db i)) (logged_point_of p)))"

definition log_written :: "(u64, bytes) btree_map \<Rightarrow> logged_point list \<Rightarrow> u64 \<Rightarrow> u64 \<Rightarrow> (u64, bytes) btree_map" where
  "log_written es points seq bound = filter (\<lambda>(q, _). bound \<le> q) (if points = [] then es else om_insert es seq (encode_log_entry points))"

lemma om_insert_last: "\<forall>(q, _)\<in>set m. q < k \<Longrightarrow> om_insert m k v = m @ [(k, v)]"
  by (induction m) auto

lemma log_written_eq:
  assumes "\<forall>(q, _)\<in>set es. q < seq" and "bound \<le> seq"
  shows "log_written es points seq bound = filter (\<lambda>(q, _). bound \<le> q) es @ (if points = [] then [] else [(seq, encode_log_entry points)])"
  using assms om_insert_last [of es seq "encode_log_entry points"] by (auto simp: log_written_def)

lemma log_written_points:
  assumes "\<forall>(q, _)\<in>set es. q < seq" and "bound \<le> seq" and "length points < 2 ^ 64"
  shows "log_points (log_written es points seq bound) = log_points (filter (\<lambda>(q, _). bound \<le> q) es) @ points"
  using log_written_eq [OF assms(1,2), of points] decode_encode_log_entry [OF assms(3)] by (simp add: entry_points_def)

lemma since_trim:
  assumes "\<forall>(s, bs)\<in>set es. s < q \<longrightarrow> (\<forall>p\<in>set (entry_points bs). lp_id p = i \<longrightarrow> \<not> newer (ss_last_ts (tail_state k tail)) (logged_point_of p))"
  shows "since k tail (points_of i (log_points (filter (\<lambda>(s, _). q \<le> s) es))) = since k tail (points_of i (log_points es))"
  using assms
proof (induction es)
  case (Cons e es)
  have "since k tail (points_of i (entry_points (snd e))) = []" if "\<not> q \<le> fst e"
    using Cons.prems that by (cases e) (auto simp: since_def filter_empty_conv points_of_def)
  then show ?case using Cons by (cases e) (auto simp: since_def)
qed simp

section \<open>One series at a commit\<close>

lemma commit_live:
  assumes live: "series_live k written tail points pending s dirty unlogged now committed"
    and flush: "due \<Longrightarrow> tail' = Some (ss_to_tail s)" "\<not> due \<Longrightarrow> tail' = tail \<and> pending = []"
    and points': "points' = kept @ unlogged" "set kept \<subseteq> set points" "since k tail kept = since k tail points"
  shows "series_live k (written @ pending) tail' points' [] s (dirty \<and> \<not> due) [] now (committed @ unlogged)"
proof (cases due)
  case True
  then show ?thesis using series_live_flush [OF live, of points'] flush points' by auto
next
  case False
  have "since k tail points' = since k tail points @ unlogged"
    using points' series_live_unlogged_newer [OF live] by (simp add: since_def)
  then show ?thesis using series_live_logged [OF live, of points'] flush False by simp
qed

text \<open>Afterwards the log holds nothing of a series flushed, or clean, that its tail does not.\<close>

lemma tail_last_flush:
  assumes live: "series_live k written tail points pending s dirty unlogged now committed"
  shows "tail_last (Some (ss_to_tail s)) = ss_last_ts s"
proof -
  obtain ops0 ops where after: "tail_after k written tail ops0" and run: "series_run (tail_state k tail) ops = (pending, s)"
    and lived: "lived k now (ops0 @ ops)"
    using live by (auto simp: series_live_def)
  then show ?thesis using lived_tail [OF tail_after_run(1) [OF after run] lived] by (simp add: tail_last_def)
qed

lemma series_live_clean:
  assumes "series_live k written tail points pending s False unlogged now committed" and "p \<in> set points"
  shows "\<not> newer (tail_last tail) p"
  using assms tail_last_state [of k tail] by (auto simp: series_live_def since_def filter_empty_conv)

section \<open>The commit\<close>

definition committed_by :: "store_db \<Rightarrow> 'c core \<Rightarrow> u64 \<Rightarrow> u64 \<Rightarrow> series_id list \<Rightarrow> store_db \<Rightarrow> 'c core \<Rightarrow> bool" where
  "committed_by db core seq bound ids db' core' \<longleftrightarrow>
     (\<exists>head1 db1. tails_written (co_index core) (co_touched core) ids (co_head core) db head1 db1
       \<and> db_tails db' = db_tails db1 \<and> db_series db' = db_series db1 \<and> db_series_key db' = db_series_key db1
       \<and> (\<forall>key. map_of (co_head core') key = map_option (\<lambda>e. e\<lparr>he_pending := []\<rparr>) (map_of head1 key)))
     \<and> set (co_touched core) \<subseteq> set ids
     \<and> db_points_log db' = log_written (db_points_log db) (co_points core) seq bound
     \<and> (\<exists>r :: u64. om_get (db_meta db') = (om_get (db_meta db))(META_CLOCK \<mapsto> to_be_bytes 8 (last_issued (co_clock core)),
          META_ID_COUNTER \<mapsto> to_be_bytes 8 (ucast (co_next_id core) :: u64), META_COMMIT_SEQ \<mapsto> to_be_bytes 8 (seq + 1),
          META_RETENTION_CLOCK \<mapsto> to_be_bytes 8 r))
     \<and> co_clock core' = co_clock core \<and> co_next_id core' = co_next_id core \<and> co_index core' = co_index core
     \<and> co_points core' = [] \<and> co_sealed core' = [] \<and> co_touched core' = []"

definition pending_of :: "head \<Rightarrow> series_key \<Rightarrow> sealed list" where
  "pending_of head key = (case map_of head key of None \<Rightarrow> [] | Some e \<Rightarrow> he_pending e)"

lemma core_ok_index: "core_ok db core acc com written \<Longrightarrow> map_of (co_head core) key = Some e \<Longrightarrow> om_get (co_index core) (he_id e) = Some key"
  by (simp add: core_ok_def entry_ok_def)

lemma com_in_acc:
  assumes "tables_ok db com written" and ok: "core_ok db core acc com written" and "com key \<noteq> None"
  shows "acc key \<noteq> None"
proof -
  obtain i row where "row_at db i = Some row" "sr_key row = key" using tables_okD(1) [OF assms(1,3)] by blast
  then show ?thesis using core_okD(5) [OF ok] core_okD(2) [OF ok] core_okD(4) [OF ok] by (metis option.distinct(1))
qed

lemma committed_entry:
  assumes commit: "committed_by db core seq bound ids db' core'" and ok: "core_ok db core acc com written"
    and e: "map_of (co_head core) key = Some e"
  shows "map_of (co_head core') key = Some (e\<lparr>he_dirty := he_dirty e \<and> \<not> tail_due (co_touched core) ids e, he_pending := []\<rparr>)"
    and "tail_of db' (he_id e) = (if tail_due (co_touched core) ids e then Some (ss_to_tail (he_state e)) else tail_of db (he_id e))"
    and "row_at db' (series_id_get (he_id e)) = (if tail_due (co_touched core) ids e then Some (entry_record key e) else row_at db (series_id_get (he_id e)))"
    and "\<not> tail_due (co_touched core) ids e \<Longrightarrow> he_id e \<notin> set (co_touched core) \<and> he_pending e = []"
proof -
  obtain head1 db1 where tails: "tails_written (co_index core) (co_touched core) ids (co_head core) db head1 db1"
    and db': "db_tails db' = db_tails db1" "db_series db' = db_series db1" "db_series_key db' = db_series_key db1"
    and head: "\<And>key. map_of (co_head core') key = map_option (\<lambda>e. e\<lparr>he_pending := []\<rparr>) (map_of head1 key)"
    using commit by (auto simp: committed_by_def)
  note entry = core_okD(1) [OF ok e]
  have at: "flushed_at (co_index core) (co_touched core) ids (co_head core) (he_id e)
      = (if tail_due (co_touched core) ids e then Some (key, e) else None)"
    using entry e by (simp add: flushed_at_def entry_ok_def)
  show "map_of (co_head core') key = Some (e\<lparr>he_dirty := he_dirty e \<and> \<not> tail_due (co_touched core) ids e, he_pending := []\<rparr>)"
    using tails e by (simp add: head tails_written_def)
  show "tail_of db' (he_id e) = (if tail_due (co_touched core) ids e then Some (ss_to_tail (he_state e)) else tail_of db (he_id e))"
    using tails at by (simp add: db' tails_written_def)
  have "series_record_ok (entry_record key e)"
    using entry by (simp add: entry_ok_def series_record_ok_def entry_record_def spans_ok_def)
  then have "series_record_from_bytes (series_record_to_bytes (entry_record key e)) = Inr (entry_record key e)"
    by (simp add: series_record_from_bytes_Inr)
  then show "row_at db' (series_id_get (he_id e)) = (if tail_due (co_touched core) ids e then Some (entry_record key e) else row_at db (series_id_get (he_id e)))"
    using tails at by (simp add: row_at_def db' tails_written_def)
  show "\<not> tail_due (co_touched core) ids e \<Longrightarrow> he_id e \<notin> set (co_touched core) \<and> he_pending e = []"
    using entry commit by (auto simp: tail_due_def entry_ok_def committed_by_def)
qed

lemma committed_live:
  assumes commit: "committed_by db core seq bound ids db' core'" and ok: "core_ok db core acc com written" and entries: "log_ok db seq"
    and bound: "bound \<le> seq" "\<And>i. stale db i bound" and points: "length (co_points core) < 2 ^ 64"
    and e: "map_of (co_head core) key = Some e" and k: "acc key = Some (k, pts)"
  shows "series_live k (written key @ he_pending e) (tail_of db' (he_id e)) (logged db' (he_id e)) [] (he_state e)
      (he_dirty e \<and> \<not> tail_due (co_touched core) ids e) [] (last_issued (co_clock core)) pts"
    and "set (logged db' (he_id e)) \<subseteq> set (logged db (he_id e)) \<union> set (points_of (he_id e) (co_points core))"
proof -
  let ?i = "he_id e"
  note entry = entry_okD [OF core_okD(1) [OF ok e] k] and after = committed_entry [OF commit ok e]
  let ?kept = "points_of ?i (log_points (filter (\<lambda>(q, _). bound \<le> q) (db_points_log db)))"
  have old: "\<forall>(q, _)\<in>set (db_points_log db). q < seq" using log_okD(2) [OF entries] by auto
  have logged': "logged db' ?i = ?kept @ points_of ?i (co_points core)"
    using commit log_written_points [OF old bound(1) points] by (simp add: committed_by_def)
  have sub: "set ?kept \<subseteq> set (logged db ?i)"
    by (auto simp: points_of_def log_points_def)
  have "since k (tail_of db ?i) ?kept = since k (tail_of db ?i) (logged db ?i)"
    using bound(2) [of ?i] by (intro since_trim) (simp add: stale_def tail_last_state)
  then show "series_live k (written key @ he_pending e) (tail_of db' ?i) (logged db' ?i) [] (he_state e)
      (he_dirty e \<and> \<not> tail_due (co_touched core) ids e) [] (last_issued (co_clock core)) pts"
    unfolding entry(1) using after(2,4) sub logged'
    by (intro commit_live [OF entry(2), where due = "tail_due (co_touched core) ids e" and kept = ?kept]) auto
  show "set (logged db' ?i) \<subseteq> set (logged db ?i) \<union> set (points_of ?i (co_points core))"
    using logged' sub by auto
qed

text \<open>A record of the tables is that of an entry.\<close>

lemma committed_row:
  assumes commit: "committed_by db core seq bound ids db' core'" and ok: "core_ok db core acc com written" and tables: "tables_ok db com written"
    and n: "om_get (db_series db') n \<noteq> None"
  shows "\<exists>key e k pts row. map_of (co_head core) key = Some e \<and> he_id e = SeriesId n \<and> acc key = Some (k, pts)
    \<and> row_at db' n = Some row \<and> sr_key row = key \<and> sr_kind row = k \<and> series_record_ok row \<and> tail_of db' (SeriesId n) \<noteq> None"
proof -
  obtain head1 db1 where tails: "tails_written (co_index core) (co_touched core) ids (co_head core) db head1 db1"
    and db': "db_series db' = db_series db1"
    using commit by (auto simp: committed_by_def)
  have "om_get (co_index core) (SeriesId n) \<noteq> None"
  proof (cases "flushed_at (co_index core) (co_touched core) ids (co_head core) (SeriesId n)")
    case None
    have "om_get (db_series db') (series_id_get (SeriesId n)) = om_get (db_series db) (series_id_get (SeriesId n))"
      unfolding db' by (rule tails_writtenD(2) [OF tails None])
    then have "om_get (db_series db) n \<noteq> None" using n by simp
    then obtain row where "row_at db n = Some row" using tables_okD(2) [OF tables] by blast
    then show ?thesis using core_okD(5) [OF ok] by simp
  qed (auto simp: flushed_at_def split: option.splits)
  then obtain key where key: "om_get (co_index core) (SeriesId n) = Some key" by blast
  then obtain e where e: "map_of (co_head core) key = Some e" "he_id e = SeriesId n" using core_okD(2) [OF ok] by blast
  obtain k pts where k: "acc key = Some (k, pts)" using core_okD(4) [OF ok, of key] e by (metis not_Some_eq old.prod.exhaust)
  note entry = core_okD(1) [OF ok e(1)] and after = committed_entry [OF commit ok e(1)]
  show ?thesis
  proof (cases "tail_due (co_touched core) ids e")
    case True
    then show ?thesis
      using after(2,3) e k entry entry_okD(4) [OF entry k]
      by (intro exI [of _ key] exI [of _ e] exI [of _ k] exI [of _ pts] exI [of _ "entry_record key e"])
        (simp add: entry_record_def entry_ok_def series_record_ok_def spans_ok_def)
  next
    case False
    have "row_at db n \<noteq> None" using after(4) [OF False] entry e(2) by (auto simp: entry_ok_def)
    then obtain row where row: "row_at db n = Some row" by blast
    have "sr_key row = key" using core_okD(5) [OF ok row] key by simp
    moreover obtain cpts where "com (sr_key row) = Some (sr_kind row, cpts)" and "series_record_ok row" and "tail_of db (SeriesId n) \<noteq> None"
      using tables_okD(3) [OF tables row] by (auto simp: row_ok_def series_kept_def)
    moreover have "sr_kind row = k" using entry k \<open>com (sr_key row) = _\<close> \<open>sr_key row = key\<close> by (auto simp: entry_ok_def)
    ultimately show ?thesis using after(2,3) False e k row by auto
  qed
qed

lemma committed_entry_row:
  assumes commit: "committed_by db core seq bound ids db' core'" and ok: "core_ok db core acc com written" and tables: "tables_ok db com written"
    and e: "map_of (co_head core) key = Some e" and k: "acc key = Some (k, pts)"
  shows "\<exists>row. row_at db' (series_id_get (he_id e)) = Some row \<and> sr_key row = key \<and> sr_kind row = k"
proof -
  note after = committed_entry [OF commit ok e] and entry = core_okD(1) [OF ok e]
  have "row_at db' (series_id_get (he_id e)) \<noteq> None"
    using after(3,4) entry by (cases "tail_due (co_touched core) ids e") (auto simp: entry_ok_def)
  then have "om_get (db_series db') (series_id_get (he_id e)) \<noteq> None" by (auto simp: row_at_def split: option.splits)
  from committed_row [OF commit ok tables this] obtain key' e' k' pts' row
    where "map_of (co_head core) key' = Some e'" "he_id e' = he_id e" "acc key' = Some (k', pts')"
      "row_at db' (series_id_get (he_id e)) = Some row" "sr_key row = key'" "sr_kind row = k'"
    by auto
  moreover have "key' = key"
    using core_okD(1) [OF ok \<open>map_of (co_head core) key' = Some e'\<close>] entry \<open>he_id e' = he_id e\<close> by (simp add: entry_ok_def)
  ultimately show ?thesis using k by auto
qed

lemma committed_core:
  assumes commit: "committed_by db core seq bound ids db' core'" and ok: "core_ok db core acc com written" and tables: "tables_ok db com written"
    and entries: "log_ok db seq" and bound: "bound \<le> seq" "\<And>i. stale db i bound" and points: "length (co_points core) < 2 ^ 64"
  shows "core_ok db' core' acc acc (\<lambda>key. written key @ pending_of (co_head core) key)"
proof -
  let ?written = "\<lambda>key. written key @ pending_of (co_head core) key"
  have core': "co_clock core' = co_clock core" "co_next_id core' = co_next_id core" "co_index core' = co_index core"
      "co_points core' = []" "co_sealed core' = []" "co_touched core' = []"
    using commit by (simp_all add: committed_by_def)
  have gone: "map_of (co_head core') key = None" if "map_of (co_head core) key = None" for key
    using commit that by (auto simp: committed_by_def tails_written_def)
  have entry: "entry_ok db' core' acc acc ?written key e'" if e': "map_of (co_head core') key = Some e'" for key e'
  proof -
    obtain e where e: "map_of (co_head core) key = Some e" using gone e' by fastforce
    obtain k pts where k: "acc key = Some (k, pts)" using core_okD(4) [OF ok, of key] e by (metis not_Some_eq old.prod.exhaust)
    have "e' = e\<lparr>he_dirty := he_dirty e \<and> \<not> tail_due (co_touched core) ids e, he_pending := []\<rparr>"
      using committed_entry(1) [OF commit ok e] e' by simp
    then show ?thesis
      using committed_live(1) [OF commit ok entries bound points e k] core_okD(1) [OF ok e] committed_entry_row [OF commit ok tables e k] k e
      by (auto simp: entry_ok_def core' abs_points_def pending_of_def)
  qed
  show ?thesis
    unfolding core_ok_def core'
  proof (intro conjI allI impI ballI)
    show "om_valid (co_index core)" and "unat (last_issued (co_clock core)) < 2 ^ 63" and "unat (co_next_id core) = card (dom acc)"
      using core_okD(7,8,9) [OF ok] .
    show "entry_ok db' core' acc acc ?written key e" if "map_of (co_head core') key = Some e" for key e using that by (rule entry)
    show "\<exists>e. map_of (co_head core') key = Some e \<and> he_id e = i" if "om_get (co_index core) i = Some key" for i key
      using core_okD(2) [OF ok that] committed_entry(1) [OF commit ok] by fastforce
    have "map_of (co_head core') key = None \<longleftrightarrow> map_of (co_head core) key = None" for key
      using gone [of key] committed_entry(1) [OF commit ok, of key] by (cases "map_of (co_head core) key") auto
    then show "dom acc = dom (map_of (co_head core'))" using core_okD(4) [OF ok] by (auto simp: dom_def)
    show "om_get (co_index core) (SeriesId n) = Some (sr_key row)" if row: "row_at db' n = Some row" for n row
    proof -
      have "om_get (db_series db') n \<noteq> None" using row by (auto simp: row_at_def split: option.splits)
      from committed_row [OF commit ok tables this] obtain key e where "map_of (co_head core) key = Some e" "he_id e = SeriesId n" "sr_key row = key"
        using row by auto
      then show ?thesis using core_ok_index [OF ok] by metis
    qed
    show "series_id_get i < co_next_id core" if "om_get (co_index core) i \<noteq> None" for i using core_okD(6) [OF ok] that by blast
  qed simp_all
qed

lemma committed_meta:
  assumes "committed_by db core seq bound ids db' core'"
  shows "meta_get db' META_CLOCK = last_issued (co_clock core)" and "meta_get db' META_ID_COUNTER = ucast (co_next_id core)"
    and "meta_get db' META_COMMIT_SEQ = seq + 1"
    and "meta_ok db \<Longrightarrow> db_meta db \<noteq> [] \<Longrightarrow> unat (last_issued (co_clock core)) < 2 ^ 63 \<Longrightarrow> meta_ok db'" and "db_meta db' \<noteq> []"
proof -
  obtain r :: u64 where meta: "om_get (db_meta db') = (om_get (db_meta db))(META_CLOCK \<mapsto> to_be_bytes 8 (last_issued (co_clock core)),
          META_ID_COUNTER \<mapsto> to_be_bytes 8 (ucast (co_next_id core) :: u64), META_COMMIT_SEQ \<mapsto> to_be_bytes 8 (seq + 1),
          META_RETENTION_CLOCK \<mapsto> to_be_bytes 8 r)"
    using assms by (auto simp: committed_by_def)
  note names = META_FORMAT_def META_CLOCK_def META_ID_COUNTER_def META_COMMIT_SEQ_def META_RETENTION_CLOCK_def
  show clock: "meta_get db' META_CLOCK = last_issued (co_clock core)" and counter: "meta_get db' META_ID_COUNTER = ucast (co_next_id core)"
    and "meta_get db' META_COMMIT_SEQ = seq + 1"
    by (simp_all add: meta_get_def meta names from_to_be_bytes_full)
  have "om_get (db_meta db') META_CLOCK \<noteq> None" by (simp add: meta names)
  then show "db_meta db' \<noteq> []" by auto
  assume old: "meta_ok db" "db_meta db \<noteq> []" and "unat (last_issued (co_clock core)) < 2 ^ 63"
  moreover have "length bs = 8" if "om_get (db_meta db') k = Some bs" for k bs
    using that old(1) by (auto simp: meta meta_ok_def split: if_splits)
  moreover have "om_get (db_meta db') META_FORMAT = Some (to_be_bytes 8 STORE_FORMAT)" "om_get (db_meta db') META_RETENTION_CLOCK \<noteq> None"
    using old by (simp_all add: meta meta_ok_def names)
  moreover have "unat (ucast (co_next_id core) :: u64) < 2 ^ 32"
    using unsigned_less [of "co_next_id core"] by (simp add: unat_ucast_u32)
  ultimately show "meta_ok db'" by (simp add: meta_ok_def clock counter)
qed

lemma committed_log:
  assumes commit: "committed_by db core seq bound ids db' core'" and ok: "core_ok db core acc com written" and tables: "tables_ok db com written"
    and entries: "log_ok db seq" and bound: "bound \<le> seq" and points: "length (co_points core) < 2 ^ 64" and seq: "seq < seq + 1"
  shows "log_ok db' (seq + 1)"
proof -
  have old: "\<forall>(q, _)\<in>set (db_points_log db). q < seq" using log_okD(2) [OF entries] by auto
  have new: "db_points_log db' = filter (\<lambda>(q, _). bound \<le> q) (db_points_log db) @ (if co_points core = [] then [] else [(seq, encode_log_entry (co_points core))])"
    using commit log_written_eq [OF old bound] by (simp add: committed_by_def)
  have "om_valid (db_points_log db')"
    using log_okD(3) [OF entries] old by (auto simp: new om_valid_def sorted_wrt_append sorted_wrt_map sorted_wrt_filter)
  moreover have "is_ok (decode_log_entry bs) \<and> q < seq + 1" if "(q, bs) \<in> set (db_points_log db')" for q bs
    using that log_okD(2) [OF entries, of q bs] seq decode_encode_log_entry [OF points] by (auto simp: new split: if_splits)
  moreover have "\<exists>row. row_at db' (series_id_get (lp_id p)) = Some row \<and> value_ok (sr_kind row) (lp_value p)" if p: "p \<in> set (log_points (db_points_log db'))" for p
  proof -
    have "log_points (db_points_log db') = log_points (filter (\<lambda>(q, _). bound \<le> q) (db_points_log db)) @ co_points core"
      using commit log_written_points [OF old bound points] by (simp add: committed_by_def)
    then consider "p \<in> set (co_points core)" | "p \<in> set (log_points (db_points_log db))"
      using p by (auto simp: log_points_def)
    then have "\<exists>key k pts. om_get (co_index core) (lp_id p) = Some key \<and> acc key = Some (k, pts) \<and> value_ok k (lp_value p)"
    proof cases
      case 1
      then show ?thesis using ok by (simp add: core_ok_def)
    next
      case 2
      obtain row where row: "row_at db (series_id_get (lp_id p)) = Some row" "value_ok (sr_kind row) (lp_value p)"
        using log_okD(1) [OF entries 2] by blast
      have index: "om_get (co_index core) (lp_id p) = Some (sr_key row)" using core_okD(5) [OF ok row(1)] by simp
      then obtain e where e: "map_of (co_head core) (sr_key row) = Some e" using core_okD(2) [OF ok] by blast
      obtain cpts where "com (sr_key row) = Some (sr_kind row, cpts)" using tables_okD(3) [OF tables row(1)] by (auto simp: row_ok_def)
      then have "\<exists>pts. acc (sr_key row) = Some (sr_kind row, pts)" using core_okD(1) [OF ok e] by (auto simp: entry_ok_def)
      then show ?thesis using index row(2) by blast
    qed
    then obtain key k pts where key: "om_get (co_index core) (lp_id p) = Some key" "acc key = Some (k, pts)" "value_ok k (lp_value p)" by blast
    then obtain e where "map_of (co_head core) key = Some e" "he_id e = lp_id p" using core_okD(2) [OF ok] by blast
    then show ?thesis using committed_entry_row [OF commit ok tables _ key(2)] key(3) by fastforce
  qed
  ultimately show ?thesis by (auto simp: log_ok_def)
qed

lemma committed_tables:
  assumes commit: "committed_by db core seq bound ids db' core'" and ok: "core_ok db core acc com written" and tables: "tables_ok db com written"
    and entries: "log_ok db seq" and bound: "bound \<le> seq" "\<And>i. stale db i bound" and points: "length (co_points core) < 2 ^ 64"
    and seq: "seq < seq + 1" and meta: "db_meta db \<noteq> []"
  shows "tables_ok db' acc (\<lambda>key. written key @ pending_of (co_head core) key)"
proof -
  let ?written = "\<lambda>key. written key @ pending_of (co_head core) key"
  note new_meta = committed_meta [OF commit]
  obtain head1 db1 where tails: "tails_written (co_index core) (co_touched core) ids (co_head core) db head1 db1"
    and db': "db_tails db' = db_tails db1" "db_series db' = db_series db1" "db_series_key db' = db_series_key db1"
    using commit by (auto simp: committed_by_def)
  have core': "core_ok db' core' acc acc ?written" by (rule committed_core [OF assms(1-7)])
  have rows: "\<exists>row. row_at db' n = Some row \<and> row_ok db' acc ?written n row" if n: "om_get (db_series db') n \<noteq> None" for n
  proof -
    from committed_row [OF commit ok tables n] obtain key e k pts row where e: "map_of (co_head core) key = Some e" "he_id e = SeriesId n"
      and k: "acc key = Some (k, pts)" and row: "row_at db' n = Some row" "sr_key row = key" "sr_kind row = k" "series_record_ok row"
      and tail: "tail_of db' (SeriesId n) \<noteq> None" by blast
    have "series_kept k (?written key) (tail_of db' (SeriesId n)) (logged db' (SeriesId n)) (last_issued (co_clock core)) pts"
      using series_live_kept [OF committed_live(1) [OF commit ok entries bound points e(1) k]] tail e by (simp add: pending_of_def)
    moreover have "unat n < unat (meta_get db' META_ID_COUNTER)"
      using core_okD(6) [OF ok core_ok_index [OF ok e(1)]] e(2) by (simp add: new_meta unat_ucast_u32 word_less_nat_alt)
    ultimately show ?thesis using row k by (simp add: row_ok_def new_meta)
  qed
  have index: "row_at db' n = Some row \<Longrightarrow> om_get (co_index core) (SeriesId n) = Some (sr_key row)" for n row
    using core_okD(5) [OF core'] commit by (simp add: committed_by_def)
  have entry_row: "\<exists>row. row_at db' (series_id_get i) = Some row \<and> sr_key row = key" if "om_get (co_index core) i = Some key" for i key
    using core_okD(2) [OF ok that] core_okD(4) [OF ok, of key] committed_entry_row [OF commit ok tables, of key] by (metis not_Some_eq old.prod.exhaust)
  show ?thesis
    unfolding tables_ok_def
  proof (intro conjI allI impI ballI)
    show "om_valid (db_series db')" "om_valid (db_tails db')"
      using tails_writtenD(5,6) [OF tails] tables_okD(10,11) [OF tables] by (simp_all add: db')
    show "meta_ok db'" using new_meta(4) tables_okD(8) [OF tables] meta core_okD(8) [OF ok] by blast
    show "log_ok db' (meta_get db' META_COMMIT_SEQ)"
      unfolding new_meta by (rule committed_log [OF commit ok tables entries bound(1) points seq])
    show "\<exists>row. row_at db' n = Some row \<and> row_ok db' acc ?written n row" if "om_get (db_series db') n \<noteq> None" for n using that by (rule rows)
    show "n = m" if "row_at db' n = Some row" "row_at db' m = Some row'" "sr_key row = sr_key row'" for n m row row'
      using index [OF that(1)] index [OF that(2)] that(3) core_okD(2) [OF ok] by (metis option.inject series_id.inject)
    show "\<exists>i row. row_at db' i = Some row \<and> sr_key row = key" if "key \<in> dom acc" for key
      using that core_okD(3) [OF ok] core_ok_index [OF ok] entry_row by (metis domD)
    show raw: "c = tier_code Raw" if "om_get (db_tails db') (c, n) \<noteq> None" for c n
      using that tails_writtenD(3) [OF tails, of c n] tables_okD(5) [OF tables, of c n] by (metis db'(1))
    show "row_at db' n \<noteq> None" if tail: "om_get (db_tails db') (c, n) \<noteq> None" for c n
    proof (cases "flushed_at (co_index core) (co_touched core) ids (co_head core) (SeriesId n)")
      case None
      then have "tail_of db (SeriesId n) \<noteq> None" using tails_writtenD(1) [OF tails None] tail raw [OF tail] by (simp add: db' tail_key_def)
      then have "row_at db n \<noteq> None" using tables_okD(5) [OF tables] by (simp add: tail_key_def)
      then show ?thesis using core_okD(5) [OF ok] entry_row by (metis not_Some_eq series_id.sel)
    next
      case (Some a)
      then show ?thesis using entry_row [of "SeriesId n"] by (auto simp: flushed_at_def split: option.splits)
    qed
    show "\<exists>key\<in>dom acc. series_key_ok key \<and> bs = series_key_to_bytes key" if "om_get (db_series_key db') bs = Some n" for bs n
    proof -
      from tails_writtenD(4) [OF tails that [unfolded db']]
      consider "om_get (db_series_key db) bs = Some n" | key e where "map_of (co_head core) key = Some e" "bs = series_key_to_bytes key" by blast
      then show ?thesis
      proof cases
        case 1
        then show ?thesis using tables_okD(6) [OF tables 1] com_in_acc [OF tables ok] by (metis domIff)
      next
        case 2
        then show ?thesis using core_okD(1,4) [OF ok, of key] by (auto simp: entry_ok_def domIff intro!: bexI [of _ key])
      qed
    qed
    show "unat (meta_get db' META_ID_COUNTER) = card (dom acc)" using core_okD(9) [OF ok] by (simp add: new_meta unat_ucast_u32)
    show "?written key = []" if "key \<notin> dom acc" for key
      using that com_in_acc [OF tables ok, of key] tables_okD(7) [OF tables, of key] core_okD(4) [OF ok, of key]
      by (cases "com key") (auto simp: pending_of_def domIff)
  qed
qed

section \<open>The rotation\<close>

text \<open>What the rotation has been through is stale up to its start; what the log held at its start is of
  series in its queue; and the log's bound drops only what is stale.\<close>

definition rotation_ok :: "store_db \<Rightarrow> (series_id, series_key) btree_map \<Rightarrow> rotation \<Rightarrow> u64 \<Rightarrow> u64 \<Rightarrow> bool" where
  "rotation_ok db index r bound seq \<longleftrightarrow>
     (\<forall>i\<in>set (take (rot_done r) (rot_queue r)). stale db i (rot_started_seq r))
     \<and> (\<forall>(q, bs)\<in>set (db_points_log db). q < rot_started_seq r \<longrightarrow> (\<forall>p\<in>set (entry_points bs). lp_id p \<in> set (rot_queue r)))
     \<and> (\<forall>i. stale db i bound) \<and> bound \<le> seq \<and> rot_started_seq r \<le> seq
     \<and> (\<forall>i\<in>set (rot_queue r). om_get index i \<noteq> None)"

lemma committed_log_entry:
  assumes commit: "committed_by db core seq bound ids db' core'" and entries: "log_ok db seq" and bound: "bound \<le> seq"
    and "(q, bs) \<in> set (db_points_log db')" and "q < seq"
  shows "(q, bs) \<in> set (db_points_log db)"
proof -
  have "\<forall>(q, _)\<in>set (db_points_log db). q < seq" using log_okD(2) [OF entries] by auto
  then show ?thesis
    using commit log_written_eq [of "db_points_log db" seq bound "co_points core"] bound assms(4,5) by (auto simp: committed_by_def split: if_splits)
qed

lemma logged_in: "(q, bs) \<in> set (db_points_log db) \<Longrightarrow> p \<in> set (entry_points bs) \<Longrightarrow> logged_point_of p \<in> set (logged db (lp_id p))"
  by (force simp: points_of_def log_points_def)

text \<open>A series whose tail is written, or was clean, has nothing newer in the log.\<close>

lemma committed_stale:
  assumes commit: "committed_by db core seq bound ids db' core'" and ok: "core_ok db core acc com written" and entries: "log_ok db seq"
    and bound: "bound \<le> seq" "\<And>i. stale db i bound" and points: "length (co_points core) < 2 ^ 64"
    and e: "map_of (co_head core) key = Some e" and due: "tail_due (co_touched core) ids e \<or> \<not> he_dirty e"
  shows "stale db' (he_id e) q"
proof -
  obtain k pts where k: "acc key = Some (k, pts)" using core_okD(4) [OF ok, of key] e by (metis not_Some_eq old.prod.exhaust)
  note live = committed_live(1) [OF commit ok entries bound points e k]
  have "\<not> newer (tail_last (tail_of db' (he_id e))) p" if "p \<in> set (logged db' (he_id e))" for p
    using series_live_clean [of k "written key @ he_pending e" "tail_of db' (he_id e)" "logged db' (he_id e)"] live that due by auto
  then have "\<not> newer (tail_last (tail_of db' (he_id e))) (logged_point_of p)"
    if "(n, bs) \<in> set (db_points_log db')" "p \<in> set (entry_points bs)" "lp_id p = he_id e" for n bs p
    using logged_in [OF that(1,2)] that(3) by simp
  then show ?thesis by (auto simp: stale_def)
qed

lemma committed_stale_old:
  assumes commit: "committed_by db core seq bound ids db' core'" and ok: "core_ok db core acc com written" and entries: "log_ok db seq"
    and bound: "bound \<le> seq" "\<And>i. stale db i bound" and points: "length (co_points core) < 2 ^ 64"
    and old: "stale db i q" and q: "q \<le> seq"
  shows "stale db' i q"
proof (cases "flushed_at (co_index core) (co_touched core) ids (co_head core) i")
  case None
  obtain head1 db1 where tails: "tails_written (co_index core) (co_touched core) ids (co_head core) db head1 db1" and "db_tails db' = db_tails db1"
    using commit by (auto simp: committed_by_def)
  then have "tail_of db' i = tail_of db i" using tails_writtenD(1) [OF tails None] by simp
  then show ?thesis using old q committed_log_entry [OF commit entries bound(1)] by (fastforce simp: stale_def)
next
  case (Some a)
  then obtain key e where index: "om_get (co_index core) i = Some key" and e: "map_of (co_head core) key = Some e" and "tail_due (co_touched core) ids e"
    by (auto simp: flushed_at_def split: option.splits if_splits)
  moreover have "he_id e = i" using core_okD(2) [OF ok index] e by auto
  ultimately show ?thesis using committed_stale [OF commit ok entries bound points e] by simp
qed

lemma rotation_committed:
  assumes commit: "committed_by db core seq bound ids db' core'" and ok: "core_ok db core acc com written" and entries: "log_ok db seq"
    and rot: "rotation_ok db (co_index core) r bound seq" and points: "length (co_points core) < 2 ^ 64" and seq: "seq < seq + 1"
    and r': "r' = r \<or> rotation_due r period instant = (due, r') \<and> set due \<subseteq> set ids"
  shows "rotation_ok db' (co_index core) r' bound (seq + 1)"
proof -
  have bound: "bound \<le> seq" "\<And>i. stale db i bound" and started: "rot_started_seq r \<le> seq" using rot by (simp_all add: rotation_ok_def)
  note keep = committed_stale_old [OF commit ok entries bound points]
  have same: "rot_queue r' = rot_queue r" "rot_started_seq r' = rot_started_seq r"
    using r' rotation_due_take(2,3) by auto
  have "stale db' i (rot_started_seq r)" if i: "i \<in> set (take (rot_done r') (rot_queue r'))" for i
  proof (cases "i \<in> set (take (rot_done r) (rot_queue r))")
    case True
    then show ?thesis using rot started by (intro keep) (auto simp: rotation_ok_def)
  next
    case False
    have "i \<in> set ids"
      using r' False i rotation_due_take(1) [of r period instant due r'] by auto
    moreover have "om_get (co_index core) i \<noteq> None" using rot i same by (auto simp: rotation_ok_def dest: in_set_takeD)
    then obtain key where "om_get (co_index core) i = Some key" by blast
    then obtain e where e: "map_of (co_head core) key = Some e" "he_id e = i" using core_okD(2) [OF ok] by blast
    ultimately have "tail_due (co_touched core) ids e \<or> \<not> he_dirty e" by (auto simp: tail_due_def)
    then show ?thesis using committed_stale [OF commit ok entries bound points e(1)] e(2) by blast
  qed
  moreover have "lp_id p \<in> set (rot_queue r)" if "(q, bs) \<in> set (db_points_log db')" "q < rot_started_seq r" "p \<in> set (entry_points bs)" for q bs p
    using rot committed_log_entry [OF commit entries bound(1) that(1)] that started by (fastforce simp: rotation_ok_def)
  moreover have "stale db' i bound" for i using keep [OF bound(2) bound(1)] .
  moreover have "bound \<le> seq + 1" "rot_started_seq r \<le> seq + 1" using bound(1) started seq by (meson order.strict_implies_order order_trans)+
  ultimately show ?thesis using rot unfolding rotation_ok_def same by (auto simp: rotation_ok_def)
qed

lemma rotation_ok_start:
  assumes ok: "core_ok db core acc com written" and entries: "log_ok db seq" and "\<And>i. stale db i bound" and "bound \<le> seq"
  shows "rotation_ok db (co_index core) (rotation_start seq (map fst (co_index core)) instant) bound seq"
proof -
  have "om_get (co_index core) (lp_id p) \<noteq> None" if "(q, bs) \<in> set (db_points_log db)" "p \<in> set (entry_points bs)" for q bs p
  proof -
    have "p \<in> set (log_points (db_points_log db))" using that by (force simp: log_points_def)
    then obtain row where "row_at db (series_id_get (lp_id p)) = Some row" using log_okD(1) [OF entries] by blast
    then show ?thesis using core_okD(5) [OF ok, of "series_id_get (lp_id p)" row] by simp
  qed
  then have "lp_id p \<in> fst ` set (co_index core)" if "(q, bs) \<in> set (db_points_log db)" "p \<in> set (entry_points bs)" for q bs p
    using that by (auto simp: om_get_None)
  then show ?thesis
    using assms(3,4) by (fastforce simp: rotation_ok_def rotation_start_def om_get_None)
qed

lemma rotation_ok_finished:
  assumes rot: "rotation_ok db index r bound seq" and "rotation_finished r"
  shows "stale db i (rot_started_seq r)"
proof (cases "i \<in> set (rot_queue r)")
  case True
  then show ?thesis using assms by (simp add: rotation_ok_def rotation_finished_def)
next
  case False
  then show ?thesis using rot by (fastforce simp: rotation_ok_def stale_def)
qed

section \<open>The writer's commit\<close>

lemma clear_committed_all:
  assumes "\<And>key e. map_of head key = Some e \<Longrightarrow> om_get index (he_id e) = Some key"
    and "\<And>j key. om_get index j = Some key \<Longrightarrow> \<exists>e. map_of head key = Some e \<and> he_id e = j"
  shows "map_of (foldl (clear_committed index) head ids) key
    = map_option (\<lambda>e. if he_id e \<in> set ids then e\<lparr>he_pending := []\<rparr> else e) (map_of head key)"
proof (induction ids arbitrary: key rule: rev_induct)
  case Nil
  then show ?case by (simp add: option.map_ident)
next
  case (snoc i ids)
  let ?head = "foldl (clear_committed index) head ids"
  show ?case
  proof (cases "om_get index i")
    case None
    then have "he_id e \<noteq> i" if "map_of head key = Some e" for e using assms(1) [OF that] by auto
    then show ?thesis using snoc [of key] None by (cases "map_of head key") (auto simp: clear_committed_def)
  next
    case (Some key1)
    then obtain e1 where e1: "map_of head key1 = Some e1" "he_id e1 = i" using assms(2) by blast
    have "he_id e \<noteq> i" if "map_of head key = Some e" "key \<noteq> key1" for e using assms(1) [OF that(1)] that(2) Some by auto
    then show ?thesis
      using snoc [of key] snoc [of key1] Some e1
      by (cases "map_of head key"; cases "key = key1") (auto simp: clear_committed_def update_conv')
  qed
qed

lemma committing_set: "set (foldl (\<lambda>s (i, _). bs_insert s i) s chunks) = set s \<union> fst ` set chunks"
  by (induction chunks arbitrary: s) auto

lemma after_handoffs_core:
  assumes "after_handoffs sh w = (sh', w')"
  shows "sh_db sh' = sh_db sh" "sh_life sh' = sh_life sh" "\<exists>h. w' = w\<lparr>wr_landed := [], wr_handoffs := h\<rparr>"
  using assms by (auto simp: after_handoffs_def Let_def split: if_splits prod.splits)

lemma after_commit_core:
  assumes "after_commit instant sh w = (sh', w')"
  shows "sh_db sh' = sh_db sh" "sh_life sh' = sh_life sh" "wr_txn w' = wr_txn w" "wr_commit_seq w' = wr_commit_seq w + 1"
    and "\<exists>changes dirty. wr_core w' = (wr_core w)\<lparr>co_head := foldl (clear_committed (co_index (wr_core w))) (co_head (wr_core w)) (wr_committing w),
      co_changes := changes, co_catalog_dirty := dirty\<rparr>"
    and "if rotation_finished (wr_rotation w) then wr_log_bound w' = rot_started_seq (wr_rotation w)
        \<and> wr_rotation w' = rotation_start (wr_commit_seq w + 1) (map fst (co_index (wr_core w))) instant
      else wr_log_bound w' = wr_log_bound w \<and> wr_rotation w' = wr_rotation w"
proof -
  let ?w = "w\<lparr>wr_commit_seq := wr_commit_seq w + 1,
      wr_core := (wr_core w)\<lparr>co_head := foldl (clear_committed (co_index (wr_core w))) (co_head (wr_core w)) (wr_committing w)\<rparr>, wr_committing := []\<rparr>"
  obtain sh1 w1 where one: "after_handoffs sh ?w = (sh1, w1)" by (cases "after_handoffs sh ?w")
  obtain h where w1: "w1 = ?w\<lparr>wr_landed := [], wr_handoffs := h\<rparr>" using after_handoffs_core(3) [OF one] by blast
  have sh1: "sh_db sh1 = sh_db sh" "sh_life sh1 = sh_life sh" using after_handoffs_core [OF one] by simp_all
  have result: "sh' = fst (after_retention sh1 w1)" "w' = (let w = snd (after_retention sh1 w1);
       w = (if rotation_finished (wr_rotation w)
                  then w\<lparr>wr_log_bound := rot_started_seq (wr_rotation w),
                         wr_rotation := rotation_start (wr_commit_seq w) (map fst (co_index (wr_core w))) instant\<rparr>
                  else w)
      in w\<lparr>wr_core := (wr_core w)\<lparr>co_changes := [], co_catalog_dirty := False\<rparr>\<rparr>)"
    using assms one by (auto simp: after_commit_def Let_def split: prod.splits)
  show "sh_db sh' = sh_db sh" "sh_life sh' = sh_life sh" by (simp_all add: result after_retention_def sh1)
  show "wr_txn w' = wr_txn w" "wr_commit_seq w' = wr_commit_seq w + 1"
    by (simp_all add: result after_retention_def Let_def w1)
  show "\<exists>changes dirty. wr_core w' = (wr_core w)\<lparr>co_head := foldl (clear_committed (co_index (wr_core w))) (co_head (wr_core w)) (wr_committing w),
      co_changes := changes, co_catalog_dirty := dirty\<rparr>"
    by (intro exI [of _ "[]"] exI [of _ False]) (simp add: result after_retention_def Let_def w1)
  show "if rotation_finished (wr_rotation w) then wr_log_bound w' = rot_started_seq (wr_rotation w)
        \<and> wr_rotation w' = rotation_start (wr_commit_seq w + 1) (map fst (co_index (wr_core w))) instant
      else wr_log_bound w' = wr_log_bound w \<and> wr_rotation w' = wr_rotation w"
    by (simp add: result after_retention_def Let_def w1)
qed

lemma write_points_core:
  assumes "write_points db w = (db', w')"
  shows "w' = w\<lparr>wr_core := (wr_core w)\<lparr>co_points := []\<rparr>\<rparr>"
    and "db' = db\<lparr>db_points_log := (if co_points (wr_core w) = [] then db_points_log db
      else om_insert (db_points_log db) (wr_commit_seq w) (encode_log_entry (co_points (wr_core w))))\<rparr>"
  using assms by (auto simp: write_points_def Let_def)

lemma write_chunks_core:
  assumes "write_chunks_sealed db w = (db', w')"
  obtains chunks h s where "db' = db\<lparr>db_chunks := chunks\<rparr>"
    "w' = w\<lparr>wr_core := (wr_core w)\<lparr>co_sealed := []\<rparr>, wr_handoffs := h, wr_committing := s\<rparr>"
    "fst ` set (co_sealed (wr_core w)) \<subseteq> set s"
proof
  show "db' = db\<lparr>db_chunks := db_chunks db'\<rparr>" "w' = w\<lparr>wr_core := (wr_core w)\<lparr>co_sealed := []\<rparr>, wr_handoffs := wr_handoffs w', wr_committing := wr_committing w'\<rparr>"
    using assms by (auto simp: write_chunks_sealed_def Let_def)
  have "wr_committing w' = foldl (\<lambda>s (i, _). bs_insert s i) (wr_committing w) (co_sealed (wr_core w))"
    using assms by (auto simp: write_chunks_sealed_def Let_def)
  then show "fst ` set (co_sealed (wr_core w)) \<subseteq> set (wr_committing w')" by (simp add: committing_set)
qed

lemma write_tails_core:
  assumes "write_tails instant flush db w = (db', w')"
  obtains due rot head where
    "(case flush of FlushRotation \<Rightarrow> rotation_due (wr_rotation w) (wr_tail_rotation w) instant
       | FlushAll \<Rightarrow> (map fst (co_index (wr_core w)), wr_rotation w)) = (due, rot)"
    "foldl (write_tail (co_index (wr_core w)) (co_touched (wr_core w)) (co_new_series (wr_core w))) (co_head (wr_core w), db)
       (bs_extend (co_touched (wr_core w)) due) = (head, db')"
    "w' = w\<lparr>wr_core := (wr_core w)\<lparr>co_head := head, co_touched := [], co_new_series := []\<rparr>, wr_rotation := rot\<rparr>"
  using assms unfolding write_tails_def Let_def by (auto split: prod.splits)

lemma retention_step_core:
  assumes "writer_retention_step refused instant sh db w = Inr (db', w')"
  obtains r h names n where "same_tables db db'" "w' = w\<lparr>wr_retention := r, wr_handoffs := h, wr_retired := names, wr_finishing := n\<rparr>"
proof -
  let ?px = "\<lparr>px_policies = sh_policies sh, px_tombstones = sh_tombstones sh, px_owners = co_index (wr_core w), px_blocks = sh_blocks sh\<rparr>"
  obtain step r h where step: "retention_step refused instant ?px (wr_retention w, db, wr_handoffs w) = Inr (step, r, db', h)"
    and w': "w' = (let w = w\<lparr>wr_retention := r, wr_handoffs := h\<rparr> in case step of StepWorking \<Rightarrow> w
        | StepRetired names \<Rightarrow> w\<lparr>wr_retired := wr_retired w @ names\<rparr>
        | StepFinished \<Rightarrow> w\<lparr>wr_finishing := wr_finishing w + 1\<rparr>)"
    using assms by (auto simp: writer_retention_step_def Let_def rbind_eq_Inr)
  have "w' = w\<lparr>wr_retention := r, wr_handoffs := h, wr_retired := wr_retired w', wr_finishing := wr_finishing w'\<rparr>"
    by (cases step) (simp_all add: w' Let_def)
  then show thesis using that retention_step_same [OF step] by blast
qed

lemma trim_log_eq: "db_points_log (trim_log db w) = filter (\<lambda>(q, _). wr_log_bound w \<le> q) (db_points_log db)"
  by (auto simp: trim_log_def word_gt_0 filter_id_conv)

lemma writer_commit_committed:
  assumes commit: "writer_commit env flush sh w = (Inr u, sh', w')"
    and txn: "\<forall>txn. wr_txn w = Some txn \<longrightarrow> same_tables (sh_db sh) txn" and ok: "core_ok (sh_db sh) (wr_core w) acc com written"
  obtains ids due rot where
    "committed_by (sh_db sh) (wr_core w) (wr_commit_seq w) (wr_log_bound w) ids (sh_db sh') (wr_core w')"
    "rot = wr_rotation w \<or> rotation_due (wr_rotation w) (wr_tail_rotation w) (ce_instant env) = (due, rot) \<and> set due \<subseteq> set ids"
    "if rotation_finished rot then wr_log_bound w' = rot_started_seq rot
        \<and> wr_rotation w' = rotation_start (wr_commit_seq w + 1) (map fst (co_index (wr_core w))) (ce_instant env)
      else wr_log_bound w' = wr_log_bound w \<and> wr_rotation w' = rot"
    "wr_commit_seq w' = wr_commit_seq w + 1" "wr_txn w' = None" "sh_life sh' = sh_life sh"
proof -
  let ?core = "wr_core w" and ?w = "w\<lparr>wr_txn := None\<rparr>"
  obtain sh1 w5 where tried: "try_commit env flush sh w = (Inr (), sh1, w5)" and after: "after_commit (ce_instant env) sh1 w5 = (sh', w')"
    using commit by (auto simp: writer_commit_def split: prod.splits sum.splits)
  obtain db slot db5 where db: "open_txn (ce_begin_refused env) (wr_txn w) (sh_db sh) = (Inr db, slot)"
    and interval: "write_interval env flush sh db ?w = Inr (db5, w5)" and sh1: "sh1 = sh\<lparr>sh_db := db5\<rparr>"
    using tried by (auto simp: try_commit_def Let_def split: prod.splits sum.splits if_splits)
  have same: "same_tables (sh_db sh) db" using db txn by (auto simp: open_txn_def split: option.splits if_splits)
  obtain db1 w1 db2 w2 db3 w3 where p: "write_points db ?w = (db1, w1)" and c: "write_chunks_sealed db1 w1 = (db2, w2)"
    and t: "write_tails (ce_instant env) flush db2 w2 = (db3, w3)"
    and r: "writer_retention_step (ce_record_refused env) (ce_instant env) sh (write_meta (trim_log db3 w3) w3) w3 = Inr (db5, w5)"
    using interval by (auto simp: write_interval_def split: if_splits prod.splits)
  note w1 = write_points_core [OF p]
  obtain chunks h s where db2: "db2 = db1\<lparr>db_chunks := chunks\<rparr>"
    and w2: "w2 = w1\<lparr>wr_core := (wr_core w1)\<lparr>co_sealed := []\<rparr>, wr_handoffs := h, wr_committing := s\<rparr>"
    and s: "fst ` set (co_sealed (wr_core w1)) \<subseteq> set s" by (rule write_chunks_core [OF c])
  obtain due rot head where due: "(case flush of FlushRotation \<Rightarrow> rotation_due (wr_rotation w2) (wr_tail_rotation w2) (ce_instant env)
       | FlushAll \<Rightarrow> (map fst (co_index (wr_core w2)), wr_rotation w2)) = (due, rot)"
    and fold: "foldl (write_tail (co_index (wr_core w2)) (co_touched (wr_core w2)) (co_new_series (wr_core w2))) (co_head (wr_core w2), db2)
       (bs_extend (co_touched (wr_core w2)) due) = (head, db3)"
    and w3: "w3 = w2\<lparr>wr_core := (wr_core w2)\<lparr>co_head := head, co_touched := [], co_new_series := []\<rparr>, wr_rotation := rot\<rparr>"
    by (rule write_tails_core [OF t])
  obtain rr hh names n where db5: "same_tables (write_meta (trim_log db3 w3) w3) db5"
    and w5: "w5 = w3\<lparr>wr_retention := rr, wr_handoffs := hh, wr_retired := names, wr_finishing := n\<rparr>" by (rule retention_step_core [OF r])
  let ?ids = "bs_extend (co_touched ?core) due"
  have tie: "map_of (co_head ?core) key = Some e \<Longrightarrow> om_get (co_index ?core) (he_id e) = Some key" for key e by (rule core_ok_index [OF ok])
  have known: "om_get (co_index ?core) j = Some key \<Longrightarrow> \<exists>e. map_of (co_head ?core) key = Some e \<and> he_id e = j" for j key by (rule core_okD(2) [OF ok])
  have written: "tails_written (co_index ?core) (co_touched ?core) ?ids (co_head ?core) db2 head db3"
    using fold by (intro write_tails_written [OF tie known]) (simp_all add: w2 w1)
  have meta: "db_meta db3 = db_meta (sh_db sh)" and points: "db_points_log db3 = db_points_log db2"
    using written same by (simp_all add: tails_written_def db2 w1 same_pieces)
  have tables: "tails_written (co_index ?core) (co_touched ?core) ?ids (co_head ?core) (sh_db sh) head
      (db3\<lparr>db_meta := db_meta (sh_db sh), db_points_log := db_points_log (sh_db sh)\<rparr>)"
    by (rule tails_written_from [OF written]) (simp_all add: db2 w1(2) same_pieces [OF same])
  note after = after_commit_core [OF after]
  have core5: "wr_core w5 = ?core\<lparr>co_points := [], co_sealed := [], co_head := head, co_touched := [], co_new_series := []\<rparr>"
    "wr_committing w5 = s" "wr_rotation w5 = rot" "wr_commit_seq w5 = wr_commit_seq w" "wr_log_bound w5 = wr_log_bound w" "wr_txn w5 = None"
    by (simp_all add: w5 w3 w2 w1(1))
  have seq3: "wr_log_bound w3 = wr_log_bound w" "wr_commit_seq w3 = wr_commit_seq w" "co_clock (wr_core w3) = co_clock ?core" "co_next_id (wr_core w3) = co_next_id ?core"
    by (simp_all add: w3 w2 w1(1))
  have head5: "map_of (co_head (wr_core w')) key = map_option (\<lambda>e. e\<lparr>he_pending := []\<rparr>) (map_of head key)" for key
  proof -
    have head: "map_of head key = map_option (\<lambda>e. if tail_due (co_touched ?core) ?ids e then e\<lparr>he_dirty := False\<rparr> else e) (map_of (co_head ?core) key)" for key
      using written by (simp add: tails_written_def)
    have "map_of (co_head (wr_core w')) key = map_of (foldl (clear_committed (co_index ?core)) head s) key"
      using after(5) by (auto simp: core5)
    also have "\<dots> = map_option (\<lambda>e. if he_id e \<in> set s then e\<lparr>he_pending := []\<rparr> else e) (map_of head key)"
    proof (rule clear_committed_all)
      show "om_get (co_index ?core) (he_id e) = Some key" if "map_of head key = Some e" for key e
        using that tie by (auto simp: head split: if_splits)
      show "\<exists>e. map_of head key = Some e \<and> he_id e = j" if at: "om_get (co_index ?core) j = Some key" for j key
      proof -
        obtain e where "map_of (co_head ?core) key = Some e" "he_id e = j" using known [OF at] by blast
        then show ?thesis by (cases "tail_due (co_touched ?core) ?ids e") (simp_all add: head)
      qed
    qed
    also have "\<dots> = map_option (\<lambda>e. e\<lparr>he_pending := []\<rparr>) (map_of head key)"
    proof (cases "map_of (co_head ?core) key")
      case (Some e)
      have "he_pending e = []" if "he_id e \<notin> set s"
      proof -
        have "he_id e \<notin> fst ` set (co_sealed ?core)" using that s by (auto simp: w1(1))
        then have "sealed_for (he_id e) (co_sealed ?core) = []" by (force simp: sealed_for_def filter_empty_conv)
        then show ?thesis using core_okD(1) [OF ok Some] by (simp add: entry_ok_def)
      qed
      then show ?thesis using Some by (auto simp: head)
    qed (simp add: head)
    finally show ?thesis .
  qed
  have db': "db_tails (sh_db sh') = db_tails db3" "db_series (sh_db sh') = db_series db3" "db_series_key (sh_db sh') = db_series_key db3"
    "db_points_log (sh_db sh') = filter (\<lambda>(q, _). wr_log_bound w \<le> q) (db_points_log db3)"
    "db_meta (sh_db sh') = db_meta (write_meta db3 w3)"
    using db5 trim_log_eq [of db3 w3] by (simp_all add: after(1) sh1 same_pieces write_meta_def Let_def seq3 trim_log_def)
  have "\<exists>r :: u64. om_get (db_meta (sh_db sh')) = (om_get (db_meta (sh_db sh)))(META_CLOCK \<mapsto> to_be_bytes 8 (last_issued (co_clock ?core)),
          META_ID_COUNTER \<mapsto> to_be_bytes 8 (ucast (co_next_id ?core) :: u64), META_COMMIT_SEQ \<mapsto> to_be_bytes 8 (wr_commit_seq w + 1),
          META_RETENTION_CLOCK \<mapsto> to_be_bytes 8 r)"
    by (intro exI [of _ "re_clock (wr_retention w3)"]) (rule ext, simp add: db' write_meta_def Let_def seq3 meta om_get_insert)
  moreover have "db_points_log (sh_db sh') = log_written (db_points_log (sh_db sh)) (co_points ?core) (wr_commit_seq w) (wr_log_bound w)"
    by (simp add: db' points db2 w1(2) log_written_def same_pieces [OF same])
  moreover have "co_clock (wr_core w') = co_clock ?core \<and> co_next_id (wr_core w') = co_next_id ?core \<and> co_index (wr_core w') = co_index ?core
     \<and> co_points (wr_core w') = [] \<and> co_sealed (wr_core w') = [] \<and> co_touched (wr_core w') = []"
    using after(5) by (auto simp: core5)
  moreover have "\<exists>head1 db1. tails_written (co_index ?core) (co_touched ?core) ?ids (co_head ?core) (sh_db sh) head1 db1
       \<and> db_tails (sh_db sh') = db_tails db1 \<and> db_series (sh_db sh') = db_series db1 \<and> db_series_key (sh_db sh') = db_series_key db1
       \<and> (\<forall>key. map_of (co_head (wr_core w')) key = map_option (\<lambda>e. e\<lparr>he_pending := []\<rparr>) (map_of head1 key))"
    by (intro exI [of _ head] exI [of _ "db3\<lparr>db_meta := db_meta (sh_db sh), db_points_log := db_points_log (sh_db sh)\<rparr>"])
      (simp add: tables head5 db')
  ultimately have "committed_by (sh_db sh) ?core (wr_commit_seq w) (wr_log_bound w) ?ids (sh_db sh') (wr_core w')"
    unfolding committed_by_def by simp
  then show thesis
  proof (rule that)
    show "rot = wr_rotation w \<or> rotation_due (wr_rotation w) (wr_tail_rotation w) (ce_instant env) = (due, rot) \<and> set due \<subseteq> set ?ids"
      using due by (cases flush) (auto simp: w2 w1(1))
  qed (use after core5 sh1 in simp_all)
qed

end
