(* ===== verification/Store_Recovery.thy ===== *)
theory Store_Recovery
  imports Store_Commit
begin

text \<open>
  Crashes.  The store may stop at any moment and open again on the tables of the last commit: the head
  is rebuilt from the tails, the log replayed.  This theory shows that an open of such tables succeeds
  as far as the store's own rows go, that memory comes back as the committed state, and, over any run of
  requests, sweeps, passes, commits, crashes and opens, that no accepted point is lost once committed.
\<close>

section \<open>The head rebuilt\<close>

lemma load_records_all:
  assumes "\<forall>(n, bs)\<in>set es. \<exists>row. series_record_from_bytes bs = Inr row" and "distinct (map fst es)"
  shows "\<exists>records'. load_records records es = Inr records'
    \<and> (\<forall>i. records' i = (case map_of es (series_id_get i) of None \<Rightarrow> records i | Some bs \<Rightarrow> ok (series_record_from_bytes bs)))"
  using assms
proof (induction es arbitrary: records)
  case (Cons e es)
  obtain n bs where e: "e = (n, bs)" by (cases e)
  obtain row where row: "series_record_from_bytes bs = Inr row" using Cons.prems(1) by (auto simp: e)
  have rest: "\<forall>(n, bs)\<in>set es. \<exists>row. series_record_from_bytes bs = Inr row" "distinct (map fst es)" using Cons.prems by auto
  obtain records' where r: "load_records (records(SeriesId n \<mapsto> row)) es = Inr records'"
    "\<And>i. records' i = (case map_of es (series_id_get i) of None \<Rightarrow> (records(SeriesId n \<mapsto> row)) i | Some bs \<Rightarrow> ok (series_record_from_bytes bs))"
    using Cons.IH [OF rest, of "records(SeriesId n \<mapsto> row)"] by blast
  have "map_of es n = None" using Cons.prems(2) by (simp add: e map_of_eq_None_iff)
  then have "records' i = (case map_of (e # es) (series_id_get i) of None \<Rightarrow> records i | Some bs \<Rightarrow> ok (series_record_from_bytes bs))" for i
    using row by (cases i) (auto simp: r e split: option.splits)
  then show ?case using r(1) row by (auto simp: e)
qed simp

text \<open>The records read are the rows.\<close>

lemma load_records_rows:
  assumes tables: "tables_ok db com written"
  shows "\<exists>records. load_records (\<lambda>_. None) (db_series db) = Inr records \<and> (\<forall>n. records (SeriesId n) = row_at db n)"
proof -
  have "\<exists>row. series_record_from_bytes bs = Inr row" if "(n, bs) \<in> set (db_series db)" for n bs
  proof -
    have "om_get (db_series db) n = Some bs" using that tables_okD(10) [OF tables] by (simp add: om_get_iff)
    then obtain row where "row_at db n = Some row" using tables_okD(2) [OF tables, of n] by auto
    then show ?thesis using \<open>om_get (db_series db) n = Some bs\<close> by (auto simp: row_at_def ok_eq_Some)
  qed
  then show ?thesis
    using load_records_all [of "db_series db" "\<lambda>_. None"] om_valid_distinct [OF tables_okD(10) [OF tables]]
    by (fastforce simp: row_at_def om_get_def)
qed

text \<open>Where the rebuilding of the head stands: \<open>loaded\<close> are the series whose tail is installed, \<open>ps\<close> the
  points of the log replayed.\<close>

definition entry_rebuilt :: "store_db \<Rightarrow> 'c core \<Rightarrow> logged_point list \<Rightarrow> u32 \<Rightarrow> series_record \<Rightarrow> head_entry \<Rightarrow> bool" where
  "entry_rebuilt db core ps n row e \<longleftrightarrow>
     (let late = since (sr_kind row) (tail_of db (SeriesId n)) (points_of (SeriesId n) ps)
      in he_id e = SeriesId n \<and> spans_ok (he_last_spans e)
         \<and> series_run (tail_state (sr_kind row) (tail_of db (SeriesId n))) (appends late) = (he_pending e, he_state e)
         \<and> (he_dirty e \<longleftrightarrow> late \<noteq> [])
         \<and> sealed_for (SeriesId n) (co_sealed core) = he_pending e \<and> (he_pending e \<noteq> [] \<longrightarrow> SeriesId n \<in> set (co_touched core)))"

definition rebuilt :: "store_db \<Rightarrow> u32 set \<Rightarrow> logged_point list \<Rightarrow> 'c core \<Rightarrow> bool" where
  "rebuilt db loaded ps core \<longleftrightarrow>
     om_valid (co_index core) \<and> co_points core = [] \<and> co_clock core = clock_resume (meta_get db META_CLOCK)
     \<and> co_next_id core = ucast (meta_get db META_ID_COUNTER)
     \<and> (\<forall>i key. om_get (co_index core) i = Some key \<longleftrightarrow> series_id_get i \<in> loaded \<and> (\<exists>row. row_at db (series_id_get i) = Some row \<and> sr_key row = key))
     \<and> (\<forall>key. map_of (co_head core) key \<noteq> None \<longrightarrow> (\<exists>n\<in>loaded. \<exists>row. row_at db n = Some row \<and> sr_key row = key))
     \<and> (\<forall>n\<in>loaded. \<forall>row. row_at db n = Some row \<longrightarrow> (\<exists>e. map_of (co_head core) (sr_key row) = Some e \<and> entry_rebuilt db core ps n row e))
     \<and> (\<forall>i. series_id_get i \<notin> loaded \<longrightarrow> sealed_for i (co_sealed core) = [])"

lemma rebuiltD:
  assumes "rebuilt db loaded ps core"
  shows "n \<in> loaded \<Longrightarrow> row_at db n = Some row \<Longrightarrow> \<exists>e. map_of (co_head core) (sr_key row) = Some e \<and> entry_rebuilt db core ps n row e"
    and "om_get (co_index core) i = Some key \<longleftrightarrow> series_id_get i \<in> loaded \<and> (\<exists>row. row_at db (series_id_get i) = Some row \<and> sr_key row = key)"
    and "map_of (co_head core) key = Some e \<Longrightarrow> \<exists>n\<in>loaded. \<exists>row. row_at db n = Some row \<and> sr_key row = key"
    and "series_id_get i \<notin> loaded \<Longrightarrow> sealed_for i (co_sealed core) = []"
    and "om_valid (co_index core)" "co_points core = []" "co_clock core = clock_resume (meta_get db META_CLOCK)"
      "co_next_id core = ucast (meta_get db META_ID_COUNTER)"
  using assms by (auto simp: rebuilt_def)

lemma rebuilt_new: "rebuilt db {} [] (core_new [] (clock_resume (meta_get db META_CLOCK)) (ucast (meta_get db META_ID_COUNTER)))"
  by (simp add: rebuilt_def core_new_def)

lemma rebuilt_load:
  assumes tables: "tables_ok db com written" and before: "rebuilt db loaded [] core" and n: "n \<notin> loaded" and row: "row_at db n = Some row"
    and tail: "tail_of db (SeriesId n) = Some bs" and none: "co_sealed core = []"
  shows "ss_from_tail bs = Inr (tail_state (sr_kind row) (Some bs))"
    and "rebuilt db (insert n loaded) [] (install_series core (SeriesId n) row (tail_state (sr_kind row) (Some bs)))"
proof -
  obtain pts where "series_record_ok row" and kept: "series_kept (sr_kind row) (written (sr_key row)) (Some bs) (logged db (SeriesId n)) (meta_get db META_CLOCK) pts"
    using tables_okD(3) [OF tables row] tail by (auto simp: row_ok_def)
  show "ss_from_tail bs = Inr (tail_state (sr_kind row) (Some bs))" using kept by (rule series_kept_tail)
  let ?s = "tail_state (sr_kind row) (Some bs)"
  let ?e = "\<lparr>he_id = SeriesId n, he_state = ?s, he_last_spans = sr_last_spans row, he_dirty = False, he_pending = []\<rparr>"
  define core' where "core' = install_series core (SeriesId n) row ?s"
  have core': "co_index core' = om_insert (co_index core) (SeriesId n) (sr_key row)" "co_head core' = AList.update (sr_key row) ?e (co_head core)"
    "co_points core' = co_points core" "co_clock core' = co_clock core" "co_next_id core' = co_next_id core" "co_sealed core' = co_sealed core"
    "co_touched core' = co_touched core"
    by (simp_all add: core'_def install_series_def core_install_def)
  have new: "entry_rebuilt db core' [] n row ?e"
    using \<open>series_record_ok row\<close> none tail by (simp add: entry_rebuilt_def core' since_def series_record_ok_def spans_ok_def)
  have old: "\<exists>e. map_of (co_head core') (sr_key row2) = Some e \<and> entry_rebuilt db core' [] m row2 e" if m: "m \<in> loaded" "row_at db m = Some row2" for m row2
  proof -
    have "sr_key row2 \<noteq> sr_key row" using tables_okD(4) [OF tables row m(2)] m(1) n by auto
    then show ?thesis using before m by (auto simp: rebuilt_def core' update_conv' entry_rebuilt_def)
  qed
  have "rebuilt db (insert n loaded) [] core'"
    unfolding rebuilt_def
  proof (intro conjI allI impI ballI)
    show "om_valid (co_index core')" and "co_points core' = []" and "co_clock core' = clock_resume (meta_get db META_CLOCK)"
      and "co_next_id core' = ucast (meta_get db META_ID_COUNTER)"
      using before by (simp_all add: rebuilt_def core' om_insert_valid)
    show "om_get (co_index core') i = Some key \<longleftrightarrow> series_id_get i \<in> insert n loaded \<and> (\<exists>row. row_at db (series_id_get i) = Some row \<and> sr_key row = key)" for i key
      using before row by (cases i) (auto simp: rebuilt_def core' om_get_insert)
    show "\<exists>m\<in>insert n loaded. \<exists>row. row_at db m = Some row \<and> sr_key row = key" if "map_of (co_head core') key \<noteq> None" for key
      using before row that by (cases "key = sr_key row") (auto simp: rebuilt_def core' update_conv')
    show "\<exists>e. map_of (co_head core') (sr_key row2) = Some e \<and> entry_rebuilt db core' [] m row2 e"
      if "m \<in> insert n loaded" "row_at db m = Some row2" for m row2
      using that old [of m row2] new row by (cases "m = n") (auto simp: core' update_conv')
    show "sealed_for i (co_sealed core') = []" for i using none by (simp add: core')
  qed
  then show "rebuilt db (insert n loaded) [] (install_series core (SeriesId n) row ?s)" by (simp add: core'_def)
qed

lemma load_tails_rebuilt:
  assumes tables: "tables_ok db com written" and records: "\<And>n. records (SeriesId n) = row_at db n"
    and "rebuilt db loaded [] core" and "co_sealed core = []" and "co_touched core = []"
    and "\<forall>((c, n), bs)\<in>set es. om_get (db_tails db) (c, n) = Some bs \<and> n \<notin> loaded" and "distinct (map fst es)"
  shows "\<exists>core'. load_tails records core es = Inr core' \<and> rebuilt db (loaded \<union> (\<lambda>e. snd (fst e)) ` set es) [] core'"
  using assms(3-)
proof (induction es arbitrary: core loaded)
  case (Cons e es)
  obtain c n bs where e: "e = ((c, n), bs)" by (metis prod.exhaust_sel)
  have tail: "om_get (db_tails db) (c, n) = Some bs" and n: "n \<notin> loaded" using Cons.prems(4) by (auto simp: e)
  have c: "c = tier_code Raw" and "row_at db n \<noteq> None" using tables_okD(5) [OF tables, of c n] tail by auto
  then obtain row where row: "row_at db n = Some row" by blast
  have at: "tail_of db (SeriesId n) = Some bs" using tail c by (simp add: tail_key_def)
  note one = rebuilt_load [OF tables Cons.prems(1) n row at Cons.prems(2)]
  let ?core = "install_series core (SeriesId n) row (tail_state (sr_kind row) (Some bs))"
  have other: "m \<noteq> n" if "((c', m), bs') \<in> set es" for c' m bs'
  proof -
    have "om_get (db_tails db) (c', m) \<noteq> None" using Cons.prems(4) that by auto
    then have "c' = c" using tables_okD(5) [OF tables, of c' m] c by auto
    moreover have "(c, n) \<notin> fst ` set es" using Cons.prems(5) by (simp add: e)
    ultimately show ?thesis using that by (metis fst_conv image_eqI)
  qed
  have "\<exists>core'. load_tails records ?core es = Inr core' \<and> rebuilt db (insert n loaded \<union> (\<lambda>e. snd (fst e)) ` set es) [] core'"
    using one(2) Cons.prems other by (intro Cons.IH) (auto simp: install_series_def core_install_def)
  then show ?case using one(1) row by (simp add: e records)
qed auto

section \<open>The log replayed\<close>

lemma accepted_length: "length (accepted_points l ops) \<le> length ops"
  by (induction l ops rule: accepted_points.induct) (auto split: if_splits)

lemma length_appends [simp]: "length (appends ps) = length ps"
  by (simp add: appends_def)

lemma accepted_prefix:
  assumes "accepted_points l (appends (xs @ ys)) = xs @ ys"
  shows "accepted_points l (appends xs) = xs"
proof -
  define A B where "A = accepted_points l (appends xs)" and "B = accepted_points (last_after l A) (appends ys)"
  have AB: "A @ B = xs @ ys" using assms by (simp add: accepted_points_append A_def B_def)
  moreover have "length A \<le> length xs" "length B \<le> length ys"
    using accepted_length [of l "appends xs"] accepted_length [of "last_after l A" "appends ys"] by (simp_all add: A_def B_def)
  moreover have "length A + length B = length xs + length ys" using AB by (metis length_append)
  ultimately have "length A = length xs" by linarith
  then show ?thesis using AB by (simp add: A_def)
qed

lemma series_kept_prefix:
  assumes "series_kept k written tail (xs @ ys) now committed"
  shows "\<exists>committed'. series_kept k written tail xs now committed'"
proof -
  obtain ops0 where "tail \<noteq> None" "tail_after k written tail ops0" "lived k now (ops0 @ appends (since k tail xs @ since k tail ys))"
    "accepted_points (ss_last_ts (tail_state k tail)) (appends (since k tail xs @ since k tail ys)) = since k tail xs @ since k tail ys"
    using assms by (auto simp: series_kept_def since_def)
  moreover from this(3) have "lived k now (ops0 @ appends (since k tail xs))"
    by (simp add: lived_def well_timed_append)
  ultimately show ?thesis using accepted_prefix unfolding series_kept_def by blast
qed

text \<open>The replay meets the points a tail does not hold, and takes exactly those.\<close>

lemma replay_newer:
  assumes kept: "series_kept k written tail (xs @ [p]) now committed"
    and run: "series_run (tail_state k tail) (appends (since k tail xs)) = (pending, s)"
  shows "newer (ss_last_ts s) p \<longleftrightarrow> newer (tail_last tail) p"
proof -
  let ?l = "ss_last_ts (tail_state k tail)"
  obtain ops0 where after: "tail_after k written tail ops0"
    and all: "accepted_points ?l (appends (since k tail (xs @ [p]))) = since k tail (xs @ [p])"
    using kept by (auto simp: series_kept_def)
  have xs: "accepted_points ?l (appends (since k tail xs)) = since k tail xs"
    using all accepted_prefix by (auto simp: since_def split: if_splits)
  have last: "ss_last_ts s = last_after ?l (since k tail xs)"
    using run_last [OF tail_after_run(1) [OF after run]] tail_after_run(2) [OF after run] tail_after_last(1) [OF after] xs by simp
  show ?thesis
  proof (cases "newer (tail_last tail) p")
    case True
    then have "since k tail (xs @ [p]) = since k tail xs @ [p]" by (simp add: since_def tail_last_state)
    with all xs have "accepted_points (ss_last_ts s) (appends [p]) = [p]" by (simp add: accepted_points_append last)
    then have "newer (ss_last_ts s) p" using accepted_newer by (metis list.set_intros(1))
    with True show ?thesis by simp
  next
    case False
    have "\<not> newer (ss_last_ts s) p"
    proof (cases "since k tail xs = []")
      case True
      then show ?thesis using False last by (simp add: tail_last_state)
    next
      case late: False
      then have "last (since k tail xs) \<in> set (since k tail xs)" by simp
      then have "newer ?l (last (since k tail xs))" by (simp add: since_def)
      then show ?thesis using False late last by (auto simp: newer_def last_after_def tail_last_state split: option.splits)
    qed
    with False show ?thesis by simp
  qed
qed

lemma entry_rebuilt_skip:
  assumes "lp_id p \<noteq> SeriesId m \<or> \<not> newer (tail_last (tail_of db (SeriesId m))) (logged_point_of p)"
  shows "entry_rebuilt db core (ps @ [p]) m row e \<longleftrightarrow> entry_rebuilt db core ps m row e"
  using assms by (auto simp: entry_rebuilt_def since_def tail_last_state Let_def)

lemma rebuilt_replay:
  assumes tables: "tables_ok db com written" and before: "rebuilt db loaded ps core" and loaded: "\<And>n. row_at db n \<noteq> None \<Longrightarrow> n \<in> loaded"
    and row: "row_at db (series_id_get (lp_id p)) = Some row" and v: "value_ok (sr_kind row) (lp_value p)"
    and part: "log_points (db_points_log db) = ps @ p # rest" and records: "\<And>n. records (SeriesId n) = row_at db n"
  shows "\<exists>core'. replay_point records core p = Inr core' \<and> rebuilt db loaded (ps @ [p]) core'"
proof -
  define n k tail xs where "n = series_id_get (lp_id p)" and "k = sr_kind row" and "tail = tail_of db (SeriesId n)" and "xs = points_of (SeriesId n) ps"
  have i: "lp_id p = SeriesId n" by (simp add: n_def)
  have row: "row_at db n = Some row" and "n \<in> loaded" using row loaded by (auto simp: n_def)
  let ?p = "logged_point_of p"
  obtain e where e: "map_of (co_head core) (sr_key row) = Some e" "entry_rebuilt db core ps n row e"
    using rebuiltD(1) [OF before \<open>n \<in> loaded\<close> row] by blast
  have run: "series_run (tail_state k tail) (appends (since k tail xs)) = (he_pending e, he_state e)"
    using e(2) by (simp add: entry_rebuilt_def Let_def k_def tail_def xs_def)
  obtain pts where "series_kept k (written (sr_key row)) tail ((xs @ [?p]) @ points_of (SeriesId n) rest) (meta_get db META_CLOCK) pts"
    using tables_okD(3) [OF tables row] part by (auto simp: row_ok_def k_def tail_def xs_def i)
  then obtain pts' where kept: "series_kept k (written (sr_key row)) tail (xs @ [?p]) (meta_get db META_CLOCK) pts'"
    using series_kept_prefix by blast
  have index: "om_get (co_index core) (lp_id p) \<noteq> None" using rebuiltD(2) [OF before, of "lp_id p"] row \<open>n \<in> loaded\<close> by (auto simp: i)
  note newer = replay_newer [OF kept run]
  show ?thesis
  proof (cases "newer (tail_last tail) ?p")
    case False
    then obtain err where "ss_append (he_state e) (lp_ts p) (Scaled (lp_value p)) = Inl err"
      using newer newer_append(2) [of "he_state e" "lp_ts p" "lp_value p"] by (metis logged_point_of_def sum.exhaust)
    then have "replay_point records core p = Inr core"
      using index row e(1) check_scaled_value [OF v] by (auto simp: replay_point_def i records Let_def)
    moreover have "entry_rebuilt db core (ps @ [p]) m row2 e2 \<longleftrightarrow> entry_rebuilt db core ps m row2 e2" for m row2 e2
      using False by (intro entry_rebuilt_skip) (auto simp: i tail_def)
    then have "rebuilt db loaded (ps @ [p]) core" using before by (simp add: rebuilt_def)
    ultimately show ?thesis by blast
  next
    case True
    then obtain chunks s where step: "ss_append (he_state e) (lp_ts p) (Scaled (lp_value p)) = Inr (chunks, s)"
      using newer newer_append(1) [of "he_state e" "lp_ts p" "lp_value p"] by (metis logged_point_of_def sum.exhaust prod.exhaust)
    obtain core1 e1 where keep: "keep_sealed core (e\<lparr>he_state := s, he_dirty := True\<rparr>) chunks = (core1, e1)"
      by (cases "keep_sealed core (e\<lparr>he_state := s, he_dirty := True\<rparr>) chunks")
    obtain T spans where core1: "core1 = core\<lparr>co_sealed := co_sealed core @ map (Pair (he_id e)) chunks, co_touched := T\<rparr>"
      and T: "set T = set (co_touched core) \<union> (if chunks = [] then {} else {he_id e})"
      and e1: "e1 = e\<lparr>he_state := s, he_dirty := True, he_last_spans := spans, he_pending := he_pending e @ chunks\<rparr>"
      and spans: "spans_ok (he_last_spans e) \<and> (\<forall>h\<in>set chunks. span_on_grid (se_tier h) (se_span h)) \<longrightarrow> spans_ok spans"
      by (rule keep_sealed_entry [OF keep])
    let ?core = "core1\<lparr>co_head := AList.update (sr_key row) e1 (co_head core1)\<rparr>"
    have late: "since k tail (xs @ [?p]) = since k tail xs @ [?p]" using True by (simp add: since_def tail_last_state)
    have run': "series_run (tail_state k tail) (appends (since k tail (xs @ [?p]))) = (he_pending e @ chunks, s)"
      unfolding late using run step by (simp add: series_run_append series_step_def logged_point_of_def)
    have "spans_ok spans"
      using spans e(2) series_live_grid [OF series_kept_live [OF kept run']] by (simp add: entry_rebuilt_def Let_def)
    have new: "entry_rebuilt db ?core (ps @ [p]) n row e1"
      using run' late e(2) T \<open>spans_ok spans\<close> by (simp add: entry_rebuilt_def core1 e1 Let_def k_def tail_def xs_def i)
    have "replay_point records core p = Inr ?core"
      using index row e(1) check_scaled_value [OF v] step keep by (auto simp: replay_point_def i records Let_def)
    moreover have "rebuilt db loaded (ps @ [p]) ?core"
      unfolding rebuilt_def
    proof (intro conjI allI impI ballI)
      show "om_valid (co_index ?core)" and "co_points ?core = []" and "co_clock ?core = clock_resume (meta_get db META_CLOCK)"
        and "co_next_id ?core = ucast (meta_get db META_ID_COUNTER)"
        and "om_get (co_index ?core) i = Some key \<longleftrightarrow> series_id_get i \<in> loaded \<and> (\<exists>row. row_at db (series_id_get i) = Some row \<and> sr_key row = key)" for i key
        using rebuiltD [OF before] by (simp_all add: core1)
      show "\<exists>m\<in>loaded. \<exists>row. row_at db m = Some row \<and> sr_key row = key" if "map_of (co_head ?core) key \<noteq> None" for key
        using that rebuiltD(3) [OF before, of key] row \<open>n \<in> loaded\<close> by (cases "key = sr_key row") (auto simp: core1 update_conv')
      show "\<exists>e. map_of (co_head ?core) (sr_key row2) = Some e \<and> entry_rebuilt db ?core (ps @ [p]) m row2 e"
        if m: "m \<in> loaded" "row_at db m = Some row2" for m row2
      proof (cases "m = n")
        case True
        then show ?thesis using new m row by (simp add: core1 update_conv')
      next
        case False
        then have "sr_key row2 \<noteq> sr_key row" using tables_okD(4) [OF tables row m(2)] by auto
        obtain e2 where e2: "map_of (co_head core) (sr_key row2) = Some e2" "entry_rebuilt db core ps m row2 e2"
          using rebuiltD(1) [OF before m] by blast
        have "entry_rebuilt db core (ps @ [p]) m row2 e2" using e2(2) False entry_rebuilt_skip [of p m db core ps row2 e2] by (simp add: i)
        then have "entry_rebuilt db ?core (ps @ [p]) m row2 e2" using e(2) False T by (auto simp: entry_rebuilt_def core1 Let_def)
        then show ?thesis using e2(1) \<open>sr_key row2 \<noteq> sr_key row\<close> by (simp add: core1 update_conv')
      qed
      show "sealed_for j (co_sealed ?core) = []" if "series_id_get j \<notin> loaded" for j
        using that rebuiltD(4) [OF before that] e(2) \<open>n \<in> loaded\<close> by (auto simp: core1 entry_rebuilt_def Let_def)
    qed
    ultimately show ?thesis by blast
  qed
qed

lemma replay_points_rebuilt:
  assumes tables: "tables_ok db com written" and "\<And>n. row_at db n \<noteq> None \<Longrightarrow> n \<in> loaded" and "\<And>n. records (SeriesId n) = row_at db n"
    and "rebuilt db loaded ps core" and "log_points (db_points_log db) = ps @ qs @ rest"
  shows "\<exists>core'. replay_points records core qs = Inr core' \<and> rebuilt db loaded (ps @ qs) core'"
  using assms(4,5)
proof (induction qs arbitrary: ps core)
  case (Cons q qs)
  have "q \<in> set (log_points (db_points_log db))" using Cons.prems(2) by simp
  then obtain row where row: "row_at db (series_id_get (lp_id q)) = Some row" "value_ok (sr_kind row) (lp_value q)"
    using log_okD(1) [OF tables_okD(9) [OF tables]] by blast
  obtain core1 where one: "replay_point records core q = Inr core1" "rebuilt db loaded (ps @ [q]) core1"
    using rebuilt_replay [OF tables Cons.prems(1) assms(2) row, where rest = "qs @ rest" and records = records] Cons.prems(2) assms(3) by auto
  show ?case using Cons.IH [OF one(2)] Cons.prems(2) one(1) by auto
qed simp

lemma replay_rebuilt:
  assumes tables: "tables_ok db com written" and loaded: "\<And>n. row_at db n \<noteq> None \<Longrightarrow> n \<in> loaded" and records: "\<And>n. records (SeriesId n) = row_at db n"
    and "rebuilt db loaded ps core" and "log_points (db_points_log db) = ps @ log_points es" and "set es \<subseteq> set (db_points_log db)"
  shows "\<exists>core'. replay_entries records core es = Inr core' \<and> rebuilt db loaded (ps @ log_points es) core'"
  using assms(4-)
proof (induction es arbitrary: ps core)
  case (Cons e es)
  have "is_ok (decode_log_entry (snd e))" using Cons.prems(3) log_okD(2) [OF tables_okD(9) [OF tables], of "fst e" "snd e"] by auto
  then have decode: "decode_log_entry (snd e) = Inr (entry_points (snd e))" by (auto simp: is_ok_iff entry_points_def)
  obtain core1 where one: "replay_points records core (entry_points (snd e)) = Inr core1" "rebuilt db loaded (ps @ entry_points (snd e)) core1"
    using replay_points_rebuilt [OF tables loaded records Cons.prems(1)] Cons.prems(2) by auto
  show ?case using Cons.IH [OF one(2)] Cons.prems(2,3) one(1) decode by auto
qed simp

section \<open>Memory after an open\<close>

lemma rebuilt_core_ok:
  assumes tables: "tables_ok db com written" and rebuilt: "rebuilt db loaded (log_points (db_points_log db)) core"
    and loaded: "\<And>n. n \<in> loaded \<longleftrightarrow> row_at db n \<noteq> None"
  shows "core_ok db core com com written"
proof -
  have clock: "last_issued (co_clock core) = meta_get db META_CLOCK" using rebuiltD(7) [OF rebuilt] by (simp add: clock_resume_def)
  have meta: "unat (meta_get db META_ID_COUNTER) < 2 ^ 32" "unat (meta_get db META_CLOCK) < 2 ^ 63"
    using tables_okD(8) [OF tables] by (simp_all add: meta_ok_def)
  have counter: "unat (co_next_id core) = unat (meta_get db META_ID_COUNTER)"
    using rebuiltD(8) [OF rebuilt] meta(1) by (simp add: unsigned_ucast_eq take_bit_nat_eq_self)
  have head: "\<exists>n row. row_at db n = Some row \<and> sr_key row = key \<and> entry_rebuilt db core (log_points (db_points_log db)) n row e"
    if e: "map_of (co_head core) key = Some e" for key e
  proof -
    obtain n row where "n \<in> loaded" "row_at db n = Some row" "sr_key row = key" using rebuiltD(3) [OF rebuilt e] by blast
    then show ?thesis using rebuiltD(1) [OF rebuilt, of n row] e by auto
  qed
  have entry: "entry_ok db core com com written key e" if e: "map_of (co_head core) key = Some e" for key e
  proof -
    obtain n row where row: "row_at db n = Some row" "sr_key row = key" and r: "entry_rebuilt db core (log_points (db_points_log db)) n row e"
      using head [OF e] by blast
    obtain pts where ok: "series_record_ok row" and com: "com key = Some (sr_kind row, pts)"
      and kept: "series_kept (sr_kind row) (written key) (tail_of db (SeriesId n)) (logged db (SeriesId n)) (meta_get db META_CLOCK) pts"
      using tables_okD(3) [OF tables row(1)] row(2) by (auto simp: row_ok_def)
    have "series_live (sr_kind row) (written key) (tail_of db (SeriesId n)) (logged db (SeriesId n)) (he_pending e) (he_state e) (he_dirty e) []
        (meta_get db META_CLOCK) pts"
      using series_kept_live [OF kept] r by (simp add: entry_rebuilt_def Let_def)
    moreover have "om_get (co_index core) (SeriesId n) = Some key" using rebuiltD(2) [OF rebuilt, of "SeriesId n"] row loaded by auto
    ultimately show ?thesis
      using r com ok row clock rebuiltD(6) [OF rebuilt] by (simp add: entry_ok_def entry_rebuilt_def Let_def abs_points_def series_record_ok_def)
  qed
  show ?thesis
    unfolding core_ok_def
  proof (intro conjI allI impI ballI)
    show "om_valid (co_index core)" by (rule rebuiltD(5) [OF rebuilt])
    show "entry_ok db core com com written key e" if "map_of (co_head core) key = Some e" for key e using that by (rule entry)
    show "\<exists>e. map_of (co_head core) key = Some e \<and> he_id e = i" if i: "om_get (co_index core) i = Some key" for i key
    proof -
      obtain row where "series_id_get i \<in> loaded" "row_at db (series_id_get i) = Some row" "sr_key row = key" using i rebuiltD(2) [OF rebuilt] by auto
      then show ?thesis using rebuiltD(1) [OF rebuilt, of "series_id_get i" row] by (auto simp: entry_rebuilt_def Let_def)
    qed
    have "com key \<noteq> None \<longleftrightarrow> map_of (co_head core) key \<noteq> None" for key
    proof
      assume "com key \<noteq> None"
      then obtain n row where "row_at db n = Some row" "sr_key row = key" using tables_okD(1) [OF tables] by blast
      then show "map_of (co_head core) key \<noteq> None" using rebuiltD(1) [OF rebuilt, of n row] loaded by auto
    next
      assume "map_of (co_head core) key \<noteq> None"
      then obtain e where "map_of (co_head core) key = Some e" by blast
      then show "com key \<noteq> None" using entry [of key e] by (auto simp: entry_ok_def)
    qed
    then show "dom com = dom (map_of (co_head core))" by (auto simp: dom_def)
    show "om_get (co_index core) (SeriesId n) = Some (sr_key row)" if "row_at db n = Some row" for n row
      using that rebuiltD(2) [OF rebuilt, of "SeriesId n"] loaded by auto
    show "series_id_get i < co_next_id core" if known: "om_get (co_index core) i \<noteq> None" for i
    proof -
      obtain key where "om_get (co_index core) i = Some key" using known by blast
      then obtain row where "row_at db (series_id_get i) = Some row" using rebuiltD(2) [OF rebuilt, of i key] by blast
      then show ?thesis using tables_okD(3) [OF tables] counter by (auto simp: row_ok_def word_less_nat_alt)
    qed
    show "unat (co_next_id core) = card (dom com)" using counter tables_okD(12) [OF tables] by simp
    show "sealed_for i (co_sealed core) = []" if "om_get (co_index core) i = None" for i
    proof -
      have "series_id_get i \<notin> loaded" using that rebuiltD(2) [OF rebuilt, of i] loaded by fastforce
      then show ?thesis by (rule rebuiltD(4) [OF rebuilt])
    qed
    show "unat (last_issued (co_clock core)) < 2 ^ 63" using meta(2) clock by simp
  qed (simp add: rebuiltD(6) [OF rebuilt])
qed

text \<open>The store's own rows never stop an open: every record and tail reads, the log replays.\<close>

lemma recover:
  assumes tables: "tables_ok db com written"
  shows "\<exists>records core core'. load_head False db (core_new [] (clock_resume (meta_get db META_CLOCK)) (ucast (meta_get db META_ID_COUNTER)))
        = Inr (records, core)
      \<and> replay False db core records = Inr core' \<and> core_ok db core' com com written"
proof -
  let ?new = "core_new [] (clock_resume (meta_get db META_CLOCK)) (ucast (meta_get db META_ID_COUNTER)) :: 'a core"
  let ?loaded = "(\<lambda>e. snd (fst e)) ` set (db_tails db)"
  obtain records where records: "load_records (\<lambda>_. None) (db_series db) = Inr records" "\<And>n. records (SeriesId n) = row_at db n"
    using load_records_rows [OF tables] by blast
  have tails: "om_get (db_tails db) key = Some bs \<longleftrightarrow> (key, bs) \<in> set (db_tails db)" for key bs
    using tables_okD(11) [OF tables] by (rule om_get_iff)
  obtain core where core: "load_tails records ?new (db_tails db) = Inr core" "rebuilt db ?loaded [] core"
    using load_tails_rebuilt [OF tables records(2) rebuilt_new, of "db_tails db"] om_valid_distinct [OF tables_okD(11) [OF tables]] tails
    by (auto simp: core_new_def)
  have loaded: "n \<in> ?loaded \<longleftrightarrow> row_at db n \<noteq> None" for n
  proof
    assume "n \<in> ?loaded"
    then obtain c bs where "((c, n), bs) \<in> set (db_tails db)" by auto
    then show "row_at db n \<noteq> None" using tables_okD(5) [OF tables, of c n] tails by auto
  next
    assume "row_at db n \<noteq> None"
    then obtain bs where "tail_of db (SeriesId n) = Some bs" using tables_okD(3) [OF tables, of n] by (auto simp: row_ok_def series_kept_def)
    then show "n \<in> ?loaded" using tails by (force simp: tail_key_def)
  qed
  obtain core' where core': "replay_entries records core (db_points_log db) = Inr core'" "rebuilt db ?loaded (log_points (db_points_log db)) core'"
    using replay_rebuilt [OF tables _ records(2) core(2), of "db_points_log db"] loaded by auto
  show ?thesis
    using records(1) core(1) core'(1) rebuilt_core_ok [OF tables core'(2) loaded] by (auto simp: load_head_def replay_def)
qed

section \<open>The open\<close>

lemma meta_names: "distinct [META_FORMAT, META_ID_COUNTER, META_CLOCK, META_COMMIT_SEQ, META_RETENTION_CLOCK]"
  by (simp add: META_FORMAT_def META_ID_COUNTER_def META_CLOCK_def META_COMMIT_SEQ_def META_RETENTION_CLOCK_def)

lemma tables_ok_meta:
  assumes tables: "tables_ok db com written" and db': "db' = db\<lparr>db_meta := m\<rparr>" and meta: "meta_ok db'"
    and same: "meta_get db' META_ID_COUNTER = meta_get db META_ID_COUNTER" "meta_get db' META_CLOCK = meta_get db META_CLOCK"
      "meta_get db' META_COMMIT_SEQ = meta_get db META_COMMIT_SEQ"
  shows "tables_ok db' com written"
proof -
  have "row_at db' = row_at db" by (simp add: fun_eq_iff row_at_def db')
  moreover from this have "log_ok db' = log_ok db" by (simp add: fun_eq_iff log_ok_def db')
  moreover have "row_ok db' = row_ok db" using same by (simp add: fun_eq_iff row_ok_def) (simp add: db')
  ultimately show ?thesis using tables meta same unfolding tables_ok_def by (simp add: db')
qed

lemma meta_u64_ok:
  assumes "meta_ok db"
  shows "meta_u64 (om_get (db_meta db) k) = Inr (map_option from_be_bytes (om_get (db_meta db) k))"
  using assms by (auto simp: meta_u64_def meta_ok_def split: option.splits)

lemma read_meta_ok:
  assumes tables: "tables_ok db com written"
  shows "\<exists>meta db'. read_meta db now = Inr (meta, db') \<and> tables_ok db' com written \<and> db_meta db' \<noteq> [] \<and> (\<exists>m. db' = db\<lparr>db_meta := m\<rparr>)
    \<and> me_clock meta = meta_get db' META_CLOCK \<and> me_next_id meta = ucast (meta_get db' META_ID_COUNTER) \<and> me_commit_seq meta = meta_get db' META_COMMIT_SEQ"
proof -
  note meta = tables_okD(8) [OF tables] and read = meta_u64_ok [OF tables_okD(8) [OF tables]]
  have def: "case_option 0 ((\<lambda>c. c) \<circ> from_be_bytes) (om_get (db_meta db) k) = meta_get db k" for k
    by (simp add: meta_get_def split: option.splits)
  have counter: "unat (meta_get db META_ID_COUNTER) < 4294967296" using meta by (simp add: meta_ok_def)
  show ?thesis
  proof (cases "db_meta db = []")
    case False
    then have "om_get (db_meta db) META_FORMAT = Some (to_be_bytes 8 STORE_FORMAT)" "om_get (db_meta db) META_RETENTION_CLOCK \<noteq> None"
      using meta by (simp_all add: meta_ok_def)
    then show ?thesis
      using tables False counter by (auto simp: read_meta_def read def Let_def intro!: exI [of _ "db_meta db"])
  next
    case True
    let ?r = "first_retention_clock now now"
    define m where "m = om_insert (om_insert [] META_FORMAT (to_be_bytes 8 STORE_FORMAT)) META_RETENTION_CLOCK (to_be_bytes 8 ?r)"
    define db' where "db' = db\<lparr>db_meta := m\<rparr>"
    have get: "om_get m = [META_FORMAT \<mapsto> to_be_bytes 8 STORE_FORMAT, META_RETENTION_CLOCK \<mapsto> to_be_bytes 8 ?r]"
      by (rule ext) (simp only: m_def om_get_insert om_get_Nil fun_upd_apply)
    have zero: "meta_get db k = 0" for k by (simp add: meta_get_def True)
    have zero': "meta_get db' META_ID_COUNTER = 0" "meta_get db' META_CLOCK = 0" "meta_get db' META_COMMIT_SEQ = 0"
      using meta_names by (auto simp: meta_get_def db'_def get)
    have "meta_ok db'" using meta_names zero' by (auto simp: meta_ok_def) (auto simp: db'_def get split: if_splits)
    then have "tables_ok db' com written" using tables_ok_meta [OF tables db'_def] by (simp add: zero zero')
    moreover have "om_get m META_FORMAT \<noteq> None" by (simp add: get)
    then have "db_meta db' \<noteq> []" by (auto simp: db'_def)
    moreover have "\<exists>meta. read_meta db now = Inr (meta, db') \<and> me_clock meta = 0 \<and> me_next_id meta = 0 \<and> me_commit_seq meta = 0"
      using True by (auto simp: read_meta_def meta_u64_def Let_def db'_def m_def)
    moreover have "\<exists>m. db' = db\<lparr>db_meta := m\<rparr>" using db'_def by blast
    ultimately show ?thesis using zero' by fastforce
  qed
qed

lemma reconcile_at_open_same:
  assumes "reconcile_at_open C env db head d b hub_now = (r, db', d', b')"
  shows "same_tables db db'"
  using assms by (auto simp: reconcile_at_open_def clear_pending_def same_tables_def split: if_splits sum.splits prod.splits)

text \<open>What holds of the store between the requests; of a stopped store only the tables matter.\<close>

definition store_ok :: "shared \<Rightarrow> 'c writer \<Rightarrow> abstract \<Rightarrow> abstract \<Rightarrow> (series_key \<Rightarrow> sealed list) \<Rightarrow> bool" where
  "store_ok sh w acc com written \<longleftrightarrow> tables_ok (sh_db sh) com written \<and> db_meta (sh_db sh) \<noteq> []
     \<and> (sh_life sh = Running \<longrightarrow> core_ok (sh_db sh) (wr_core w) acc com written
         \<and> rotation_ok (sh_db sh) (co_index (wr_core w)) (wr_rotation w) (wr_log_bound w) (wr_commit_seq w)
         \<and> meta_get (sh_db sh) META_COMMIT_SEQ = wr_commit_seq w
         \<and> (\<forall>txn. wr_txn w = Some txn \<longrightarrow> same_tables (sh_db sh) txn))"

lemma core_clocks_hub_now: "core_clocks core system_now = (case core_hub_now core system_now of (now, core') \<Rightarrow> ((now, system_now), core'))"
  by (simp add: core_clocks_def core_hub_now_def split: prod.splits)

text \<open>The store opens whenever redb answers and the block files reconcile.\<close>

definition open_refused :: "open_world \<Rightarrow> bool" where
  "open_refused ow \<longleftrightarrow> ow_meta_refused ow \<or> ow_head_refused ow \<or> ow_log_refused ow"

definition readings_ok :: "open_world \<Rightarrow> bool" where
  "readings_ok ow \<longleftrightarrow> unat (ow_sweep_now ow) < 2 ^ 63 \<and> unat (ow_pass_now ow) < 2 ^ 63"

lemma store_open_ok:
  fixes w :: "'c writer"
  assumes tables: "tables_ok db com written" and clocks: "readings_ok ow"
  shows "store_open C ow options db d = Inr (sh, d', w) \<Longrightarrow> store_ok sh w com com written \<and> sh_life sh = Running"
    and "store_open C ow options db d = (Inl err :: open_error + shared \<times> block_dir \<times> 'c writer) \<Longrightarrow> open_refused ow
      \<or> (\<exists>m head now. fst (reconcile_at_open C (ow_env ow) (db\<lparr>db_meta := m\<rparr>) head (remove_temporaries d) blocks_new now) = Inl err)"
proof -
  obtain meta db1 m where meta: "read_meta db (ow_meta_now ow) = Inr (meta, db1)" "db1 = db\<lparr>db_meta := m\<rparr>"
    and tables1: "tables_ok db1 com written" "db_meta db1 \<noteq> []"
    and me: "me_clock meta = meta_get db1 META_CLOCK" "me_next_id meta = ucast (meta_get db1 META_ID_COUNTER)" "me_commit_seq meta = meta_get db1 META_COMMIT_SEQ"
    using read_meta_ok [OF tables] by blast
  obtain records and core core1 :: "'c core" where core: "load_head False db1 (core_new [] (clock_resume (me_clock meta)) (me_next_id meta)) = Inr (records, core)"
    and core1: "replay False db1 core records = Inr core1" "core_ok db1 core1 com com written"
    using recover [OF tables1(1)] unfolding me by blast
  obtain r db2 d2 b where rec: "reconcile_at_open C (ow_env ow) db1 (co_head core) (remove_temporaries d) blocks_new (me_clock meta) = (r, db2, d2, b)"
    by (metis prod.exhaust)
  have same: "same_tables db1 db2" using rec by (rule reconcile_at_open_same)
  have replay2: "replay False db2 core records = Inr core1" using core1(1) same by (simp add: replay_def same_pieces)
  obtain now core2 where two: "core_hub_now core1 (ow_sweep_now ow) = (now, core2)" by (cases "core_hub_now core1 (ow_sweep_now ow)")
  note ok2 = core_hub_now_spec [OF core1(2) two]
  let ?core3 = "core_sweep core2 (ow_order ow) now"
  obtain now4 core4 where four: "core_hub_now ?core3 (ow_pass_now ow) = (now4, core4)" by (cases "core_hub_now ?core3 (ow_pass_now ow)")
  have ok4: "core_ok db2 core4 com com written"
    using core_hub_now_spec(1) [OF core_sweep_spec(1) [OF ok2(1,2)] four] clocks same_core_ok [OF same, of core4] by (simp add: readings_ok_def)
  show "store_ok sh w com com written \<and> sh_life sh = Running" if opened: "store_open C ow options db d = Inr (sh, d', w)"
  proof -
    have meta_read: "\<not> ow_meta_refused ow"
      using opened by (rule contrapos_pn) (simp add: store_open_def Let_def init_meta_def)
    have head_read: "\<not> ow_head_refused ow"
      using opened by (rule contrapos_pn) (simp add: store_open_def Let_def init_meta_def meta_read meta(1) load_head_def)
    have "\<not> ow_log_refused ow"
      using opened by (rule contrapos_pn)
        (cases r; simp add: store_open_def Let_def init_meta_def meta_read meta(1) head_read core rec replay_def)
    note flags = meta_read head_read this
    have "sh_db sh = db2 \<and> sh_life sh = Running \<and> wr_core w = core4 \<and> wr_txn w = None \<and> wr_commit_seq w = me_commit_seq meta \<and> wr_log_bound w = 0
        \<and> wr_rotation w = rotation_start (me_commit_seq meta) (map fst (co_index core4)) (ow_instant ow)"
      using opened by (cases r) (auto simp: store_open_def Let_def init_meta_def flags meta(1) core rec replay2 two core_clocks_hub_now four writer_new_def)
    moreover have "tables_ok db2 com written" "db_meta db2 \<noteq> []" "meta_get db2 META_COMMIT_SEQ = me_commit_seq meta"
      using tables1 same me by (simp_all add: same_tables_ok same_pieces)
    moreover from this have "rotation_ok db2 (co_index core4) (rotation_start (me_commit_seq meta) (map fst (co_index core4)) (ow_instant ow)) 0 (me_commit_seq meta)"
      using tables_okD(9) [of db2 com written] by (intro rotation_ok_start [OF ok4]) (auto simp: stale_def)
    ultimately show ?thesis using ok4 by (simp add: store_ok_def)
  qed
  show "open_refused ow \<or> (\<exists>m head now. fst (reconcile_at_open C (ow_env ow) (db\<lparr>db_meta := m\<rparr>) head (remove_temporaries d) blocks_new now) = Inl err)"
    if opened: "store_open C ow options db d = (Inl err :: open_error + shared \<times> block_dir \<times> 'c writer)"
  proof (cases "open_refused ow")
    case False
    then have "r = Inl err"
      using opened by (cases r) (auto simp: store_open_def Let_def init_meta_def open_refused_def meta(1) core rec replay2 two core_clocks_hub_now four)
    then have "fst (reconcile_at_open C (ow_env ow) (db\<lparr>db_meta := m\<rparr>) (co_head core) (remove_temporaries d) blocks_new (me_clock meta)) = Inl err"
      using rec meta(2) by simp
    then show ?thesis by blast
  qed simp
qed

end
