(* ===== verification/Store_Run.thy ===== *)
theory Store_Run
  imports Store_Recovery
begin

text \<open>
  The store over its whole life: requests, sweeps, passes, handoffs, commits, failures, crashes and opens
  in any order, as a step relation whose ghosts are the points accepted, the points committed and the
  chunks the commits wrote.  The properties of the store as a whole are here: what an append answers,
  where the accepted points are, what a crash leaves, and that an open is never stopped by the store's
  own rows.
\<close>

section \<open>The steps keep the invariant\<close>

lemma append_active_index: "om_get (co_index (snd (append_active core key kind v scaled ts))) i = om_get (co_index core) i"
proof (cases "map_of (co_head core) key")
  case (Some e)
  have "co_index core' = co_index core" if "keep_sealed core (e\<lparr>he_state := s, he_dirty := True\<rparr>) chunks = (core', e')" for s chunks core' e'
    using keep_sealed_core [OF that] by auto
  then show ?thesis using Some by (auto simp: append_active_def split: sum.splits prod.splits)
qed (simp add: append_active_def)

lemma activate_index: "om_get (co_index core) i \<noteq> None \<Longrightarrow> om_get (co_index (snd (activate refused db core key kind))) i \<noteq> None"
  by (auto simp: activate_def core_install_def Let_def om_get_insert split: sum.splits option.splits)

lemma append_point_index:
  assumes "append_point refused db core key kind v ts = (result, core')" and "om_get (co_index core) i \<noteq> None"
  shows "om_get (co_index core') i \<noteq> None"
proof (cases "check_scaled kind v")
  case (Inl a)
  then show ?thesis using assms by (auto simp: append_point_def)
next
  case (Inr scaled)
  let ?first = "if map_of (co_head core) key = None then activate refused db core key kind else (Inr (Inr ()), core)"
  have "om_get (co_index (snd ?first)) i \<noteq> None" using assms(2) activate_index [of core i refused db key kind] by simp
  moreover have "core' = snd ?first \<or> core' = snd (append_active (snd ?first) key kind v scaled ts)"
    using assms(1) Inr by (cases ?first) (auto simp: append_point_def split: sum.splits if_splits)
  ultimately show ?thesis by (auto simp: append_active_index)
qed

lemma append_each_index:
  "append_each refused db system g ts core report ps = (result, core') \<Longrightarrow> om_get (co_index core) i \<noteq> None \<Longrightarrow> om_get (co_index core') i \<noteq> None"
proof (induction ps arbitrary: core report)
  case (Cons p ps)
  obtain metric kind v where p: "p = (metric, kind, v)" by (cases p)
  let ?key = "\<lparr>sk_system = system, sk_generation = g, sk_metric = metric\<rparr>"
  obtain r core1 where one: "append_point (refused ?key) db core ?key kind v ts = (r, core1)"
    by (cases "append_point (refused ?key) db core ?key kind v ts")
  have "om_get (co_index core1) i \<noteq> None" using append_point_index [OF one Cons.prems(2)] .
  then show ?case using Cons.IH Cons.prems(1) one by (auto simp: p split: sum.splits)
qed simp

lemma rotation_ok_index:
  "rotation_ok db index r bound seq \<Longrightarrow> (\<And>i. om_get index i \<noteq> None \<Longrightarrow> om_get index' i \<noteq> None) \<Longrightarrow> rotation_ok db index' r bound seq"
  by (simp add: rotation_ok_def)

lemma open_txn_same:
  assumes "open_txn refused (wr_txn w) db = (Inr txn, slot)" and "\<forall>txn. wr_txn w = Some txn \<longrightarrow> same_tables db txn"
  shows "same_tables db txn" and "slot = Some txn"
  using assms by (auto simp: open_txn_def split: option.splits if_splits)

lemma open_txn_refused: "open_txn refused slot db = (Inl err, slot') \<Longrightarrow> refused"
  by (auto simp: open_txn_def split: option.splits if_splits)

text \<open>The hub time of a request.\<close>

definition hub_time :: "'c writer \<Rightarrow> u64 \<Rightarrow> u64" where
  "hub_time w system_now = max (last_issued (co_clock (wr_core w))) system_now"

definition request_ok :: "system_key \<Rightarrow> (metric_name \<times> value_kind \<times> i64) list \<Rightarrow> u64 \<Rightarrow> bool" where
  "request_ok system ps system_now \<longleftrightarrow> system_key_ok system \<and> (\<forall>(metric, _)\<in>set ps. metric_name_ok metric) \<and> unat system_now < 2 ^ 63"

lemma handle_append_ok:
  assumes ok: "store_ok sh w acc com written" and run: "sh_life sh = Running" and request: "request_ok system ps system_now"
    and step: "handle_append refused read_refused system_now system g ps sh w = (answer, sh', w')"
  shows "(case answer of
      Some (Inr report) \<Rightarrow> report = fst (spec_append system g (hub_time w system_now) acc ps) \<and> sh' = sh
        \<and> store_ok sh' w' (snd (spec_append system g (hub_time w system_now) acc ps)) com written
    | _ \<Rightarrow> (refused \<or> (\<exists>key. read_refused key)) \<and> sh' = fail_store sh)"
proof -
  let ?db = "sh_db sh" and ?ts = "hub_time w system_now"
  have tables: "tables_ok ?db com written" and meta: "db_meta ?db \<noteq> []"
    and core: "core_ok ?db (wr_core w) acc com written" and rot: "rotation_ok ?db (co_index (wr_core w)) (wr_rotation w) (wr_log_bound w) (wr_commit_seq w)"
    and seq: "meta_get ?db META_COMMIT_SEQ = wr_commit_seq w" and txns: "\<forall>txn. wr_txn w = Some txn \<longrightarrow> same_tables ?db txn"
    using ok run by (simp_all add: store_ok_def)
  obtain r slot where opened: "open_txn refused (wr_txn w) ?db = (r, slot)" by (cases "open_txn refused (wr_txn w) ?db")
  show ?thesis
  proof (cases r)
    case (Inl err)
    then show ?thesis using step opened open_txn_refused by (auto simp: handle_append_def)
  next
    case (Inr txn)
    have same: "same_tables ?db txn" "slot = Some txn" using open_txn_same [OF _ txns] opened Inr by auto
    obtain now core1 where now: "core_hub_now (wr_core w) system_now = (now, core1)" by (cases "core_hub_now (wr_core w) system_now")
    have small: "unat system_now < 2 ^ 63" using request by (simp add: request_ok_def)
    note clock = core_hub_now_spec [OF core now small]
    have ts: "now = ?ts" using now by (auto simp: core_hub_now_def clock_now_def Let_def hub_time_def)
    obtain report core2 where each: "append_points read_refused txn core1 system g ps now = (report, core2)"
      by (cases "append_points read_refused txn core1 system g ps now")
    have result: "answer = Some report" "sh' = (if is_ok report then sh else fail_store sh)" "w' = w\<lparr>wr_txn := slot, wr_core := core2\<rparr>"
      using step opened Inr now each by (simp_all add: handle_append_def)
    have txn_ok: "tables_ok txn com written" "core_ok txn core1 acc com written"
      using tables clock(1) same_tables_ok [OF same(1)] same_core_ok [OF same(1), of core1] by simp_all
    have "system_key_ok system" "\<forall>(metric, _)\<in>set ps. metric_name_ok metric" using request by (simp_all add: request_ok_def)
    then have "report = Inl StoreFailed \<and> (\<exists>key. read_refused key)
      \<or> report = Inr (fst (spec_append system g now acc ps)) \<and> core_ok txn core2 (snd (spec_append system g now acc ps)) com written
          \<and> co_clock core2 = co_clock core1"
      unfolding spec_append_def using txn_ok clock(2) each [unfolded append_points_def] by (intro append_each_spec)
    then consider "report = Inl StoreFailed" "\<exists>key. read_refused key"
      | "report = Inr (fst (spec_append system g now acc ps))" "core_ok txn core2 (snd (spec_append system g now acc ps)) com written"
      by (elim disjE conjE)
    then show ?thesis
    proof cases
      case 1
      then show ?thesis using result by simp
    next
      case 2
      have "co_index core1 = co_index (wr_core w)" by (simp add: clock(3))
      then have "om_get (co_index core2) i \<noteq> None" if "om_get (co_index (wr_core w)) i \<noteq> None" for i
        using append_each_index [OF each [unfolded append_points_def], of i] that by metis
      then have "rotation_ok ?db (co_index core2) (wr_rotation w) (wr_log_bound w) (wr_commit_seq w)"
        by (rule rotation_ok_index [OF rot])
      moreover have "core_ok ?db core2 (snd (spec_append system g now acc ps)) com written"
        using 2(2) same_core_ok [OF same(1), of core2] by simp
      ultimately show ?thesis
        using 2(1) result tables meta seq same by (simp add: ts store_ok_def)
    qed
  qed
qed

lemma store_ok_failed: "store_ok sh w acc com written \<Longrightarrow> store_ok (fail_store sh) w' acc' com written"
  by (simp add: store_ok_def fail_store_def life_fail_def)

lemma store_ok_writer:
  assumes "store_ok sh w acc com written" and "sh_db sh' = sh_db sh" and "sh_life sh' = sh_life sh"
    and "sh_life sh = Running \<Longrightarrow> core_ok (sh_db sh) (wr_core w') acc com written" and "co_index (wr_core w') = co_index (wr_core w)"
    and "wr_rotation w' = wr_rotation w" "wr_log_bound w' = wr_log_bound w" "wr_commit_seq w' = wr_commit_seq w"
    and "\<forall>txn. wr_txn w' = Some txn \<longrightarrow> wr_txn w = Some txn \<or> same_tables (sh_db sh) txn"
  shows "store_ok sh' w' acc com written"
  using assms unfolding store_ok_def by auto

lemma writer_sweep_ok:
  assumes ok: "store_ok sh w acc com written" and now: "unat system_now < 2 ^ 63" and step: "writer_sweep order system_now sh w = (sh', w')"
  shows "store_ok sh' w' acc com written"
proof -
  obtain now core1 where hub: "core_hub_now (wr_core w) system_now = (now, core1)" by (cases "core_hub_now (wr_core w) system_now")
  let ?core = "core_sweep core1 order now"
  obtain r h where "handoffs_choose (wr_handoffs w) now = (r, h)" by (cases "handoffs_choose (wr_handoffs w) now")
  then have w': "w' = w\<lparr>wr_core := ?core, wr_handoffs := h\<rparr>" and sh': "sh' = sh \<or> sh' = fail_store sh"
    using step hub by (auto simp: writer_sweep_def Let_def split: sum.splits)
  have core: "core_ok (sh_db sh) ?core acc com written \<and> co_index ?core = co_index (wr_core w)" if "sh_life sh = Running"
  proof -
    have "core_ok (sh_db sh) (wr_core w) acc com written" using ok that by (simp add: store_ok_def)
    note one = core_hub_now_spec [OF this hub now]
    show ?thesis using core_sweep_spec [OF one(1,2)] one(3) by simp
  qed
  show ?thesis
  proof (cases "sh' = fail_store sh")
    case False
    then show ?thesis using sh' core ok by (auto simp: w' store_ok_def)
  qed (use ok store_ok_failed in blast)
qed

lemma writer_retention_ok:
  assumes ok: "store_ok sh w acc com written" and now: "unat system_now < 2 ^ 63"
  shows "store_ok sh (writer_retention instant reading system_now w) acc com written"
proof -
  obtain now core1 where hub: "core_hub_now (wr_core w) system_now = (now, core1)" by (cases "core_hub_now (wr_core w) system_now")
  have "core_ok (sh_db sh) core1 acc com written \<and> co_index core1 = co_index (wr_core w)" if "sh_life sh = Running"
    using core_hub_now_spec [OF _ hub now, of "sh_db sh" acc com written] ok that by (auto simp: store_ok_def)
  then show ?thesis using ok hub by (auto simp: writer_retention_def core_clocks_hub_now store_ok_def)
qed

lemma hand_off_ok:
  assumes ok: "store_ok sh w acc com written" and run: "sh_life sh = Running" and step: "hand_off refused write_refused result sh w = (sh', w')"
  shows "store_ok sh' w' acc com written"
proof -
  have txns: "\<forall>txn. wr_txn w = Some txn \<longrightarrow> same_tables (sh_db sh) txn" using ok run by (simp add: store_ok_def)
  show ?thesis
  proof (cases result)
    case (Written name row summary generations)
    obtain r slot where opened: "open_txn refused (wr_txn w) (sh_db sh) = (r, slot)" by (cases "open_txn refused (wr_txn w) (sh_db sh)")
    show ?thesis
    proof (cases r)
      case (Inl err)
      then show ?thesis using step opened Written ok store_ok_failed by (auto simp: hand_off_def)
    next
      case (Inr txn)
      have same: "same_tables (sh_db sh) txn" using open_txn_same [OF _ txns] opened Inr by auto
      show ?thesis
      proof (cases "commit_handoff write_refused txn name row generations")
        case Inl': (Inl err)
        then show ?thesis using step opened Written Inr ok store_ok_failed by (auto simp: hand_off_def)
      next
        case Inr': (Inr txn')
        then have "same_tables txn txn'" by (auto simp: commit_handoff_def Let_def same_tables_def split: if_splits prod.splits)
        then have same': "same_tables (sh_db sh) txn'" using same same_tables_trans by blast
        have "sh' = sh" "w' = w\<lparr>wr_txn := Some txn', wr_landed := wr_landed w @ [(name, summary)]\<rparr>"
          using step opened Written Inr Inr' by (simp_all add: hand_off_def)
        then show ?thesis using ok same' by (simp add: store_ok_def)
      qed
    qed
  next
    case (HandoffFailed name cause)
    then show ?thesis using step ok by (auto simp: hand_off_def store_ok_def)
  qed
qed

lemma unlinked_ok:
  assumes ok: "store_ok sh w acc com written" and run: "sh_life sh = Running" and step: "unlinked refused write_refused name sh w = (sh', w')"
  shows "store_ok sh' w' acc com written"
proof -
  have txns: "\<forall>txn. wr_txn w = Some txn \<longrightarrow> same_tables (sh_db sh) txn" using ok run by (simp add: store_ok_def)
  obtain r slot where opened: "open_txn refused (wr_txn w) (sh_db sh) = (r, slot)" by (cases "open_txn refused (wr_txn w) (sh_db sh)")
  show ?thesis
  proof (cases r)
    case (Inl err)
    then show ?thesis using step opened ok store_ok_failed by (auto simp: unlinked_def)
  next
    case (Inr txn)
    have same: "same_tables (sh_db sh) txn" using open_txn_same [OF _ txns] opened Inr by auto
    show ?thesis
    proof (cases write_refused)
      case True
      then show ?thesis using step opened Inr ok store_ok_failed by (auto simp: unlinked_def)
    next
      case False
      then have "sh' = sh" and "\<exists>m. w' = w\<lparr>wr_txn := Some (txn\<lparr>db_pending_unlinks := m\<rparr>)\<rparr>"
        using step opened Inr by (auto simp: unlinked_def)
      then show ?thesis using ok same by (auto simp: store_ok_def same_tables_def)
    qed
  qed
qed

text \<open>What a commit writes of a series: its chunks among those sealed since the last one.\<close>

definition committed_chunks :: "'c core \<Rightarrow> series_key \<Rightarrow> sealed list" where
  "committed_chunks core key = (case map_of (co_head core) key of None \<Rightarrow> [] | Some e \<Rightarrow> sealed_for (he_id e) (co_sealed core))"

definition commit_fits :: "'c writer \<Rightarrow> bool" where
  "commit_fits w \<longleftrightarrow> wr_commit_seq w < wr_commit_seq w + 1 \<and> length (co_points (wr_core w)) < 2 ^ 64"

lemma committed_chunks_pending:
  assumes "core_ok db core acc com written"
  shows "committed_chunks core = pending_of (co_head core)"
proof (rule ext)
  fix key
  show "committed_chunks core key = pending_of (co_head core) key"
    using core_okD(1) [OF assms, of key] by (cases "map_of (co_head core) key") (auto simp: committed_chunks_def pending_of_def entry_ok_def)
qed

lemma writer_commit_ok:
  assumes ok: "store_ok sh w acc com written" and run: "sh_life sh = Running" and fits: "commit_fits w"
    and step: "writer_commit env flush sh w = (Inr u, sh', w')"
  shows "store_ok sh' w' acc acc (\<lambda>key. written key @ committed_chunks (wr_core w) key)"
proof -
  let ?db = "sh_db sh" and ?core = "wr_core w" and ?seq = "wr_commit_seq w" and ?bound = "wr_log_bound w"
  have tables: "tables_ok ?db com written" and meta: "db_meta ?db \<noteq> []"
    and core: "core_ok ?db ?core acc com written" and rot: "rotation_ok ?db (co_index ?core) (wr_rotation w) ?bound ?seq"
    and seq: "meta_get ?db META_COMMIT_SEQ = ?seq" and txns: "\<forall>txn. wr_txn w = Some txn \<longrightarrow> same_tables ?db txn"
    using ok run by (simp_all add: store_ok_def)
  obtain ids due rot where commit: "committed_by ?db ?core ?seq ?bound ids (sh_db sh') (wr_core w')"
    and due: "rot = wr_rotation w \<or> rotation_due (wr_rotation w) (wr_tail_rotation w) (ce_instant env) = (due, rot) \<and> set due \<subseteq> set ids"
    and finished: "if rotation_finished rot then wr_log_bound w' = rot_started_seq rot
        \<and> wr_rotation w' = rotation_start (?seq + 1) (map fst (co_index ?core)) (ce_instant env)
      else wr_log_bound w' = ?bound \<and> wr_rotation w' = rot"
    and after: "wr_commit_seq w' = ?seq + 1" "wr_txn w' = None" "sh_life sh' = sh_life sh"
    by (rule writer_commit_committed [OF step txns core])
  have entries: "log_ok ?db ?seq" using tables_okD(9) [OF tables] seq by simp
  have bound: "?bound \<le> ?seq" "\<And>i. stale ?db i ?bound" using \<open>rotation_ok ?db (co_index ?core) (wr_rotation w) ?bound ?seq\<close> by (simp_all add: rotation_ok_def)
  have next_seq: "?seq < ?seq + 1" and points: "length (co_points ?core) < 2 ^ 64" using fits by (simp_all add: commit_fits_def)
  note core' = committed_core [OF commit core tables entries bound points]
    and tables' = committed_tables [OF commit core tables entries bound points next_seq meta]
    and rot' = rotation_committed [OF commit core entries \<open>rotation_ok ?db (co_index ?core) (wr_rotation w) ?bound ?seq\<close> points next_seq due]
  have index: "co_index (wr_core w') = co_index ?core" using commit by (simp add: committed_by_def)
  have "rotation_ok (sh_db sh') (co_index (wr_core w')) (wr_rotation w') (wr_log_bound w') (wr_commit_seq w')"
  proof (cases "rotation_finished rot")
    case False
    then show ?thesis using finished rot' index after by simp
  next
    case True
    have "rot_started_seq rot \<le> ?seq + 1" using rot' by (simp add: rotation_ok_def)
    moreover have "log_ok (sh_db sh') (?seq + 1)" using committed_log [OF commit core tables entries bound(1) points next_seq] .
    ultimately have "rotation_ok (sh_db sh') (co_index (wr_core w')) (rotation_start (?seq + 1) (map fst (co_index (wr_core w'))) (ce_instant env))
        (rot_started_seq rot) (?seq + 1)"
      using rotation_ok_finished [OF rot' True] by (intro rotation_ok_start [OF core']) auto
    then show ?thesis using finished True after index by simp
  qed
  then show ?thesis
    using core' tables' committed_meta(3,5) [OF commit] after committed_chunks_pending [OF core] by (simp add: store_ok_def)
qed

lemma writer_commit_failed:
  assumes "writer_commit env flush sh w = (Inl err, sh', w')"
  shows "sh' = fail_store sh"
  using assms by (auto simp: writer_commit_def try_commit_def Let_def split: prod.splits sum.splits if_splits)

section \<open>Runs\<close>

inductive store_run :: "crc32c_fns \<Rightarrow> open_options \<Rightarrow> shared \<Rightarrow> 'c writer \<Rightarrow> abstract \<Rightarrow> abstract \<Rightarrow> (series_key \<Rightarrow> sealed list) \<Rightarrow> bool"
  for C options where
  created: "store_open C ow options db_empty d = Inr (sh, d', w) \<Longrightarrow> readings_ok ow
    \<Longrightarrow> store_run C options sh w (\<lambda>_. None) (\<lambda>_. None) (\<lambda>_. [])"
| reopened: "store_run C options sh w acc com written \<Longrightarrow> store_open C ow options (sh_db sh) d = Inr (sh', d', w') \<Longrightarrow> readings_ok ow
    \<Longrightarrow> store_run C options sh' w' com com written"
| connected: "store_run C options sh w acc com written \<Longrightarrow> store_run C options sh (w\<lparr>wr_connected := True\<rparr>) acc com written"
| policies: "store_run C options sh w acc com written \<Longrightarrow> store_run C options (sh\<lparr>sh_policies := p, sh_tombstones := t\<rparr>) w acc com written"
| appended: "store_run C options sh w acc com written \<Longrightarrow> sh_life sh = Running \<Longrightarrow> request_ok system ps system_now
    \<Longrightarrow> handle_append refused read_refused system_now system g ps sh w = (Some (Inr report), sh', w')
    \<Longrightarrow> store_run C options sh' w' (snd (spec_append system g (hub_time w system_now) acc ps)) com written"
| append_failed: "store_run C options sh w acc com written \<Longrightarrow> sh_life sh = Running \<Longrightarrow> request_ok system ps system_now
    \<Longrightarrow> handle_append refused read_refused system_now system g ps sh w = (answer, sh', w') \<Longrightarrow> \<nexists>report. answer = Some (Inr report)
    \<Longrightarrow> store_run C options sh' w' acc com written"
| swept: "store_run C options sh w acc com written \<Longrightarrow> sh_life sh = Running \<Longrightarrow> unat system_now < 2 ^ 63
    \<Longrightarrow> writer_sweep order system_now sh w = (sh', w') \<Longrightarrow> store_run C options sh' w' acc com written"
| pass_begun: "store_run C options sh w acc com written \<Longrightarrow> sh_life sh = Running \<Longrightarrow> unat system_now < 2 ^ 63
    \<Longrightarrow> store_run C options sh (writer_retention instant reading system_now w) acc com written"
| handed_off: "store_run C options sh w acc com written \<Longrightarrow> sh_life sh = Running
    \<Longrightarrow> hand_off refused write_refused result sh w = (sh', w') \<Longrightarrow> store_run C options sh' w' acc com written"
| file_gone: "store_run C options sh w acc com written \<Longrightarrow> sh_life sh = Running
    \<Longrightarrow> unlinked refused write_refused name sh w = (sh', w') \<Longrightarrow> store_run C options sh' w' acc com written"
| committed: "store_run C options sh w acc com written \<Longrightarrow> sh_life sh = Running \<Longrightarrow> commit_fits w
    \<Longrightarrow> writer_commit env flush sh w = (Inr u, sh', w')
    \<Longrightarrow> store_run C options sh' w' acc acc (\<lambda>key. written key @ committed_chunks (wr_core w) key)"
| commit_failed: "store_run C options sh w acc com written \<Longrightarrow> sh_life sh = Running
    \<Longrightarrow> writer_commit env flush sh w = (Inl err, sh', w') \<Longrightarrow> store_run C options sh' w' acc com written"
| closed: "store_run C options sh w acc com written \<Longrightarrow> sh_life sh = Running \<Longrightarrow> commit_fits w
    \<Longrightarrow> writer_finish env sh w = (Inr u, sh', w')
    \<Longrightarrow> store_run C options sh' w' acc acc (\<lambda>key. written key @ committed_chunks (wr_core w) key)"
| close_failed: "store_run C options sh w acc com written \<Longrightarrow> sh_life sh = Running
    \<Longrightarrow> writer_finish env sh w = (Inl err, sh', w') \<Longrightarrow> store_run C options sh' w' acc com written"

lemma tables_ok_empty: "tables_ok db_empty (\<lambda>_. None) (\<lambda>_. [])"
  by (simp add: tables_ok_def db_empty_def meta_ok_def meta_get_def log_ok_def row_at_def)

lemma store_run_ok: "store_run C options sh w acc com written \<Longrightarrow> store_ok sh w acc com written"
proof (induction rule: store_run.induct)
  case (created ow d sh d' w)
  then show ?case using store_open_ok(1) [OF tables_ok_empty] by blast
next
  case (reopened sh w acc com written ow d sh' d' w')
  then have "tables_ok (sh_db sh) com written" by (simp add: store_ok_def)
  then show ?case using store_open_ok(1) reopened.hyps by blast
next
  case (appended sh w acc com written system ps system_now refused read_refused g report sh' w')
  from handle_append_ok [OF appended.IH appended.hyps(2-4)] show ?case by auto
next
  case (append_failed sh w acc com written system ps system_now refused read_refused g answer sh' w')
  have "sh' = fail_store sh"
    using handle_append_ok [OF append_failed.IH append_failed.hyps(2-4)] append_failed.hyps(5) by (auto split: option.splits sum.splits)
  then show ?case using append_failed.IH store_ok_failed by blast
next
  case (swept sh w acc com written system_now order sh' w')
  then show ?case using writer_sweep_ok by blast
next
  case (pass_begun sh w acc com written system_now instant reading)
  then show ?case using writer_retention_ok by blast
next
  case (handed_off sh w acc com written refused write_refused result sh' w')
  then show ?case using hand_off_ok by blast
next
  case (file_gone sh w acc com written refused write_refused name sh' w')
  then show ?case using unlinked_ok by blast
next
  case (committed sh w acc com written env flush u sh' w')
  then show ?case using writer_commit_ok by blast
next
  case (commit_failed sh w acc com written env flush err sh' w')
  then show ?case using writer_commit_failed store_ok_failed by blast
next
  case (closed sh w acc com written env u sh' w')
  obtain r sh1 where commit: "writer_commit env FlushAll sh w = (r, sh1, w')" and "r = Inr u" and sh': "sh' = sh1\<lparr>sh_life := life_close (sh_life sh1)\<rparr>"
    using closed.hyps(4) by (auto simp: writer_finish_def split: prod.splits)
  then have "store_ok sh1 w' acc acc (\<lambda>key. written key @ committed_chunks (wr_core w) key)"
    using writer_commit_ok [OF closed.IH closed.hyps(2,3)] by blast
  then show ?case by (simp add: sh' store_ok_def life_close_def)
next
  case (close_failed sh w acc com written env err sh' w')
  then have "sh' = fail_store sh" using writer_commit_failed [of env FlushAll sh w err] by (auto simp: writer_finish_def split: prod.splits)
  then show ?case using close_failed.IH store_ok_failed by blast
qed (simp_all add: store_ok_def)

section \<open>Commits succeed\<close>

lemma chunk_owner_read: "chunk_owner False owners series n \<noteq> Inl UnreadableStore"
  by (auto simp: chunk_owner_def recorded_key_def Let_def rbind_eq_Inl map_err_def split: option.splits sum.splits)

lemma retention_step_read: "(\<And>n. \<not> refused n) \<Longrightarrow> \<exists>x. retention_step refused instant px (r, db, h) = Inr x"
proof -
  assume read: "\<And>n. \<not> refused n"
  have "\<exists>x. retention_scan refused r px db h lo = Inr x" for lo
    using read by (auto simp: retention_scan_def Let_def list_ex_iff chunk_owner_read split: prod.splits scan_end.splits)
  then have scan: "\<exists>stage db' h'. retention_scan refused r px db h lo = Inr (stage, db', h')" for lo by (metis prod.exhaust)
  show ?thesis
  proof (cases "re_stage r")
    case (Some stage)
    show ?thesis
    proof (cases stage)
      case (StageChunks lo)
      then show ?thesis using Some scan [of lo] by (auto simp: retention_step_def)
    next
      case (StageFiles queue)
      then show ?thesis using Some by (cases queue) (auto simp: retention_step_def split: prod.splits)
    qed
  qed (simp add: retention_step_def)
qed

definition commit_refused :: "commit_env \<Rightarrow> bool" where
  "commit_refused env \<longleftrightarrow> ce_begin_refused env \<or> ce_write_refused env \<or> ce_commit_refused env \<or> (\<exists>n. ce_record_refused env n)"

lemma commit_succeeds:
  assumes "\<not> commit_refused env"
  shows "\<exists>sh' w'. writer_commit env flush sh w = (Inr (), sh', w')"
proof -
  have "\<exists>slot db. open_txn (ce_begin_refused env) (wr_txn w) (sh_db sh) = (Inr db, slot)"
    using assms by (auto simp: commit_refused_def open_txn_def split: option.splits)
  then obtain slot db where opened: "open_txn (ce_begin_refused env) (wr_txn w) (sh_db sh) = (Inr db, slot)" by blast
  have retain: "\<exists>x. writer_retention_step (ce_record_refused env) instant sh db w = Inr x" for instant db and w :: "'a writer"
  proof -
    obtain step r db' h where "retention_step (ce_record_refused env) instant \<lparr>px_policies = sh_policies sh, px_tombstones = sh_tombstones sh,
        px_owners = co_index (wr_core w), px_blocks = sh_blocks sh\<rparr> (wr_retention w, db, wr_handoffs w) = Inr (step, r, db', h)"
      using retention_step_read [of "ce_record_refused env" instant _ "wr_retention w" db "wr_handoffs w"] assms
      by (metis commit_refused_def prod.exhaust_sel)
    then show ?thesis by (simp add: writer_retention_step_def Let_def)
  qed
  have "\<exists>x. write_interval env flush sh db (w\<lparr>wr_txn := None\<rparr>) = Inr x"
    using assms retain by (auto simp: write_interval_def commit_refused_def split: prod.splits)
  then obtain db' w' where "write_interval env flush sh db (w\<lparr>wr_txn := None\<rparr>) = Inr (db', w')" by auto
  then show ?thesis
    using assms opened by (auto simp: writer_commit_def try_commit_def Let_def commit_refused_def split: prod.splits)
qed

section \<open>Where the points are\<close>

text \<open>The points of a series, decoded from the chunks the commits wrote and those waiting for the next one,
  with those still in the open chunk.\<close>

definition series_points :: "(series_key \<Rightarrow> sealed list) \<Rightarrow> 'c core \<Rightarrow> series_key \<Rightarrow> raw_point list" where
  "series_points written core key = (case map_of (co_head core) key of
       None \<Rightarrow> []
     | Some e \<Rightarrow> sealed_items (raw_items (kind_encoding (ss_kind (he_state e)))) (sealed_of Raw (written key @ he_pending e))
         @ ss_unsealed_points (he_state e))"

lemma core_ok_points:
  assumes ok: "core_ok db core acc com written"
  shows "series_points written core key = abs_points acc key"
proof (cases "map_of (co_head core) key")
  case None
  then show ?thesis using core_okD(4) [OF ok, of key] by (simp add: series_points_def abs_points_def)
next
  case (Some e)
  obtain k pts where k: "acc key = Some (k, pts)" using core_okD(4) [OF ok, of key] Some by (metis not_Some_eq old.prod.exhaust)
  note entry = entry_okD [OF core_okD(1) [OF ok Some] k]
  show ?thesis using series_live_points [OF entry(2)] entry(1,4) Some k by (simp add: series_points_def abs_points_def)
qed

lemma core_ok_prefix:
  assumes "tables_ok db com written" and ok: "core_ok db core acc com written"
  shows "\<exists>pts. abs_points acc key = abs_points com key @ pts"
proof (cases "acc key")
  case None
  then show ?thesis using com_in_acc [OF assms, of key] by (cases "com key") (auto simp: abs_points_def)
next
  case (Some x)
  obtain k pts where k: "acc key = Some (k, pts)" using Some by (cases x) auto
  obtain e where e: "map_of (co_head core) key = Some e" using core_okD(3) [OF ok k] by blast
  show ?thesis using entry_okD(1) [OF core_okD(1) [OF ok e] k] k by (auto simp: abs_points_def)
qed

section \<open>An example\<close>

lemma seek_empty: "spans_seek [] lo spans = Inr spans"
  by (subst spans_seek.simps) (simp add: table_from_def)

lemma scan_empty: "sc_blocks (dir_scan []) = []" "remove_temporaries [] = []"
  by (simp_all add: dir_scan_def remove_temporaries_def all_tiers_def)

text \<open>Tables with no chunk and no block file.\<close>

definition bare :: "store_db \<Rightarrow> bool" where
  "bare db \<longleftrightarrow> db_chunks db = [] \<and> db_blocks db = [] \<and> db_pending_unlinks db = []"

lemma reconcile_bare:
  assumes "\<not> oe_scan_fails env" and "bare db"
  shows "fst (reconcile_at_open C env db head [] b now) = Inr []"
  using assms by (simp add: reconcile_at_open_def bare_def read_rows_def read_pending_def spans_in_redb_def seek_empty clear_pending_def
      scan_empty reconcile_def bs_contains_def)

lemma open_bare:
  assumes "tables_ok db com written" and "readings_ok ow" and "\<not> open_refused ow" and "\<not> oe_scan_fails (ow_env ow)" and "bare db"
  shows "\<exists>sh d w. store_open C ow options db [] = Inr (sh, d, w :: 'c writer)"
proof (cases "store_open C ow options db [] :: open_error + shared \<times> block_dir \<times> 'c writer")
  case (Inl err)
  then have "\<exists>m head now. fst (reconcile_at_open C (ow_env ow) (db\<lparr>db_meta := m\<rparr>) head [] blocks_new now) = Inl err"
    using store_open_ok(2) [OF assms(1,2) Inl] assms(3) by (simp add: scan_empty)
  then show ?thesis using reconcile_bare [OF assms(4)] assms(5) by (auto simp: bare_def)
qed auto

lemma write_tail_bare: "bare (snd (foldl (write_tail index touched new_series) (head, db) ids)) \<longleftrightarrow> bare db"
proof (induction ids arbitrary: head db)
  case (Cons i ids)
  obtain head1 db1 where one: "write_tail index touched new_series (head, db) i = (head1, db1)"
    by (cases "write_tail index touched new_series (head, db) i")
  then have "bare db1 \<longleftrightarrow> bare db" by (auto simp: write_tail_def bare_def split: option.splits prod.splits)
  then show ?case using Cons one by simp
qed simp

lemma retention_step_bare:
  assumes "retention_step refused instant px (r, db, h) = Inr (step, r', db', h')" and "bare db" and "re_stage r = Some (StageChunks lo)"
  shows "bare db'"
  using assms by (auto simp: retention_step_def retention_scan_def Let_def rbind_eq_Inr bare_def delete_dead_chunks_def table_from_def
      split: if_splits prod.splits scan_end.splits)

lemma commit_bare:
  assumes commit: "writer_commit env flush sh w = (Inr u, sh', w')" and txn: "wr_txn w = Some txn" "bare txn"
    and none: "co_sealed (wr_core w) = []" and stage: "re_stage (wr_retention w) = Some (StageChunks lo)"
  shows "bare (sh_db sh')"
proof -
  let ?w = "w\<lparr>wr_txn := None\<rparr>"
  obtain sh1 w5 where tried: "try_commit env flush sh w = (Inr (), sh1, w5)" and after: "after_commit (ce_instant env) sh1 w5 = (sh', w')"
    using commit by (auto simp: writer_commit_def split: prod.splits sum.splits)
  obtain db5 where interval: "write_interval env flush sh txn ?w = Inr (db5, w5)" and sh1: "sh1 = sh\<lparr>sh_db := db5\<rparr>"
    using tried txn(1) by (auto simp: try_commit_def open_txn_def Let_def split: prod.splits sum.splits if_splits)
  obtain db1 w1 db2 w2 db3 w3 where p: "write_points txn ?w = (db1, w1)" and c: "write_chunks_sealed db1 w1 = (db2, w2)"
    and t: "write_tails (ce_instant env) flush db2 w2 = (db3, w3)"
    and r: "writer_retention_step (ce_record_refused env) (ce_instant env) sh (write_meta (trim_log db3 w3) w3) w3 = Inr (db5, w5)"
    using interval by (auto simp: write_interval_def split: if_splits prod.splits)
  have w1: "w1 = ?w\<lparr>wr_core := (wr_core w)\<lparr>co_points := []\<rparr>\<rparr>" and "bare db1"
    using write_points_core [OF p] txn(2) by (simp_all add: bare_def)
  then have "bare db2" and w2: "wr_retention w2 = wr_retention w"
    using c none by (auto simp: write_chunks_sealed_def Let_def bare_def)
  obtain due rot head where fold: "foldl (write_tail (co_index (wr_core w2)) (co_touched (wr_core w2)) (co_new_series (wr_core w2))) (co_head (wr_core w2), db2)
       (bs_extend (co_touched (wr_core w2)) due) = (head, db3)" and w3: "wr_retention w3 = wr_retention w"
    by (rule write_tails_core [OF t]) (use w2 in auto)
  have "bare db3"
    using write_tail_bare [of "co_index (wr_core w2)" "co_touched (wr_core w2)" "co_new_series (wr_core w2)" "co_head (wr_core w2)" db2] fold \<open>bare db2\<close>
    by (metis snd_conv)
  then have "bare (write_meta (trim_log db3 w3) w3)" by (simp add: bare_def write_meta_def trim_log_def Let_def)
  then have "bare db5"
    using r stage w3 by (auto simp: writer_retention_step_def Let_def rbind_eq_Inr elim!: retention_step_bare)
  then show ?thesis using after_commit_core(1) [OF after] sh1 by simp
qed

text \<open>The store of the example: created at hub time 60, with one request at 100.\<close>

definition example_crc :: crc32c_fns where
  "example_crc = \<lparr>crc32c = (\<lambda>bs. of_nat (length bs)), crc32c_append = (\<lambda>c bs. c + of_nat (length bs))\<rparr>"

definition example_options :: open_options where
  "example_options = \<lparr>op_tail_rotation = 0, op_retention_interval = 0, op_retention = policy_default\<rparr>"

definition example_world :: open_world where
  "example_world = \<lparr>ow_env = \<lparr>oe_scan_fails = False, oe_read_refused = (\<lambda>_ _. False), oe_write_refused = False,
       oe_unlink_fails = (\<lambda>_. False), oe_io = \<lparr>io_open_fails = False, io_stat_fails = False, io_read_fails = (\<lambda>_ _. False)\<rparr>\<rparr>,
     ow_meta_refused = False, ow_head_refused = False, ow_log_refused = False, ow_meta_now = 50, ow_sweep_now = 50, ow_pass_now = 60,
     ow_reading = Duration 0 0, ow_instant = 0, ow_order = []\<rparr>"

definition example_key :: series_key where
  "example_key = \<lparr>sk_system = SystemKey [104], sk_generation = Generation 1, sk_metric = MetricName [99, 112, 117]\<rparr>"

definition example_points :: "(metric_name \<times> value_kind \<times> i64) list" where
  "example_points = [(MetricName [99, 112, 117], Percent, 5)]"

definition example_acc :: abstract where
  "example_acc = [example_key \<mapsto> (Percent, [\<lparr>rp_ts = 100, rp_value = 5\<rparr>])]"

definition example_commit :: commit_env where
  "example_commit = \<lparr>ce_begin_refused = False, ce_write_refused = False, ce_commit_refused = False, ce_record_refused = (\<lambda>_. False), ce_instant = 1\<rparr>"

lemma example_world_ok: "readings_ok example_world" "\<not> open_refused example_world" "\<not> oe_scan_fails (ow_env example_world)"
  by (simp_all add: example_world_def readings_ok_def open_refused_def)

lemma example_request: "request_ok (SystemKey [104]) example_points 100"
  by (simp add: example_points_def request_ok_def system_key_ok_def metric_name_ok_def utf8_chars.simps is_control_def)

lemma example_spec: "spec_append (SystemKey [104]) (Generation 1) 100 (\<lambda>_. None) example_points
    = (\<lparr>ap_at = 100, ap_accepted = 1, ap_rejected = []\<rparr>, example_acc)"
  by (simp add: spec_append_def example_points_def spec_point_def value_ok_def sint_max_scaled kind_top_def example_acc_def example_key_def sat_add_def)

lemma read_meta_empty: "\<exists>r m. read_meta db_empty now = Inr (\<lparr>me_clock = 0, me_retention_clock = r, me_next_id = 0, me_commit_seq = 0\<rparr>, db_empty\<lparr>db_meta := m\<rparr>)"
  by (auto simp: read_meta_def db_empty_def meta_u64_def Let_def)

lemma example_open: "\<exists>sh d w. store_open C example_world options db_empty [] = Inr (sh, d, w :: unit writer) \<and> sh_life sh = Running
    \<and> co_clock (wr_core w) = \<lparr>last_issued = 60\<rparr> \<and> co_head (wr_core w) = [] \<and> co_sealed (wr_core w) = [] \<and> co_points (wr_core w) = []
    \<and> co_next_id (wr_core w) = 0 \<and> wr_commit_seq w = 0 \<and> wr_txn w = None \<and> re_stage (wr_retention w) = Some (StageChunks (0, 0, 0, 0))
    \<and> (\<exists>m. sh_db sh = db_empty\<lparr>db_meta := m\<rparr>)"
proof -
  obtain r m where meta: "read_meta db_empty 50 = Inr (\<lparr>me_clock = 0, me_retention_clock = r, me_next_id = 0, me_commit_seq = 0\<rparr>, db_empty\<lparr>db_meta := m\<rparr>)"
    using read_meta_empty by blast
  have rec: "\<exists>b. reconcile_at_open C (ow_env example_world) (db_empty\<lparr>db_meta := m\<rparr>) [] [] blocks_new 0 = (Inr [], db_empty\<lparr>db_meta := m\<rparr>, [], b)"
    by (simp add: reconcile_at_open_def db_empty_def read_rows_def read_pending_def spans_in_redb_def seek_empty clear_pending_def
      scan_empty reconcile_def bs_contains_def example_world_def)
  then obtain b where rec: "reconcile_at_open C (ow_env example_world) (db_empty\<lparr>db_meta := m\<rparr>) [] [] blocks_new 0 = (Inr [], db_empty\<lparr>db_meta := m\<rparr>, [], b)"
    by blast
  have head: "load_head False (db_empty\<lparr>db_meta := m\<rparr>) core = Inr (\<lambda>_. None, core)" for core :: "unit core"
    by (simp add: load_head_def db_empty_def)
  have replay: "replay False (db_empty\<lparr>db_meta := m\<rparr>) core records = Inr core" for core :: "unit core" and records
    by (simp add: replay_def db_empty_def)
  have world: "ow_meta_refused example_world = False" "ow_head_refused example_world = False" "ow_log_refused example_world = False"
    "ow_meta_now example_world = 50" "ow_sweep_now example_world = 50" "ow_pass_now example_world = 60" "ow_order example_world = []"
    by (simp_all add: example_world_def)
  show ?thesis
    by (simp add: store_open_def Let_def init_meta_def world meta head replay rec scan_empty core_new_def core_hub_now_def core_clocks_def
        clock_now_def clock_resume_def core_sweep_def writer_new_def retention_begin_def max_def) blast
qed

lemma example_first_point: "\<exists>s. ss_append (ss_new Percent) 100 (Scaled 5) = Inr ([], s)"
proof -
  have "case ss_append (ss_new Percent) 100 (Scaled 5) of Inr (chunks, _) \<Rightarrow> chunks = [] | Inl _ \<Rightarrow> False" by code_simp
  then show ?thesis by (auto split: sum.splits)
qed

text \<open>The request accepted: in memory, and in no table yet.\<close>

lemma example_appended:
  "\<exists>sh w report w'. store_run example_crc example_options sh (w :: unit writer) (\<lambda>_. None) (\<lambda>_. None) (\<lambda>_. []) \<and> sh_life sh = Running
    \<and> hub_time w 100 = 100 \<and> bare (sh_db sh) \<and> wr_txn w' = Some (sh_db sh) \<and> re_stage (wr_retention w') = Some (StageChunks (0, 0, 0, 0))
    \<and> handle_append False (\<lambda>_. False) 100 (SystemKey [104]) (Generation 1) example_points sh w = (Some (Inr report), sh, w')
    \<and> co_sealed (wr_core w') = [] \<and> commit_fits w'"
proof -
  obtain sh d m and w :: "unit writer" where opened: "store_open example_crc example_world example_options db_empty [] = Inr (sh, d, w)"
    and sh: "sh_life sh = Running" "sh_db sh = db_empty\<lparr>db_meta := m\<rparr>"
    and core: "co_clock (wr_core w) = \<lparr>last_issued = 60\<rparr>" "co_head (wr_core w) = []" "co_sealed (wr_core w) = []" "co_points (wr_core w) = []"
      "co_next_id (wr_core w) = 0"
    and w: "wr_commit_seq w = 0" "wr_txn w = None" "re_stage (wr_retention w) = Some (StageChunks (0, 0, 0, 0))"
    using example_open by blast
  obtain s where s: "ss_append (ss_new Percent) 100 (Scaled 5) = Inr ([], s)" using example_first_point by blast
  have kind: "ss_kind (ss_new Percent) = Percent" by (simp add: ss_new_def)
  have v: "check_scaled Percent 5 = Inr (Scaled 5)" by (rule check_scaled_value) (simp add: value_ok_def sint_max_scaled kind_top_def)
  have "\<exists>report w'. handle_append False (\<lambda>_. False) 100 (SystemKey [104]) (Generation 1) example_points sh w = (Some (Inr report), sh, w')
      \<and> wr_txn w' = Some (sh_db sh) \<and> re_stage (wr_retention w') = Some (StageChunks (0, 0, 0, 0)) \<and> co_sealed (wr_core w') = [] \<and> commit_fits w'"
    by (simp add: handle_append_def open_txn_def w core core_hub_now_def clock_now_def append_points_def example_points_def append_point_def v
        activate_def interned_def sh db_empty_def checked_add_def core_install_def append_active_def update_conv' s keep_sealed_def Let_def
        kind commit_fits_def)
  moreover have "hub_time w 100 = 100" by (simp add: hub_time_def core)
  moreover have "bare (sh_db sh)" by (simp add: sh bare_def db_empty_def)
  moreover have "store_run example_crc example_options sh w (\<lambda>_. None) (\<lambda>_. None) (\<lambda>_. [])"
    using opened example_world_ok(1) by (rule store_run.created)
  ultimately show ?thesis using sh(1) by blast
qed

text \<open>And committed.\<close>

lemma example_committed:
  "\<exists>sh w. store_run example_crc example_options sh (w :: unit writer) example_acc example_acc (\<lambda>_. []) \<and> bare (sh_db sh)"
proof -
  obtain sh report and w w' :: "unit writer" where run: "store_run example_crc example_options sh w (\<lambda>_. None) (\<lambda>_. None) (\<lambda>_. [])" "sh_life sh = Running"
    and "hub_time w 100 = 100" and txn: "bare (sh_db sh)" "wr_txn w' = Some (sh_db sh)" "re_stage (wr_retention w') = Some (StageChunks (0, 0, 0, 0))"
    and append: "handle_append False (\<lambda>_. False) 100 (SystemKey [104]) (Generation 1) example_points sh w = (Some (Inr report), sh, w')"
    and w': "co_sealed (wr_core w') = []" "commit_fits w'"
    using example_appended by blast
  have appended: "store_run example_crc example_options sh w' example_acc (\<lambda>_. None) (\<lambda>_. [])"
    using store_run.appended [OF run example_request append] \<open>hub_time w 100 = 100\<close> example_spec by simp
  obtain sh2 w2 where commit: "writer_commit example_commit FlushRotation sh w' = (Inr (), sh2, w2)"
    using commit_succeeds [of example_commit FlushRotation sh w'] by (auto simp: commit_refused_def example_commit_def)
  have "(\<lambda>key. [] @ committed_chunks (wr_core w') key) = (\<lambda>_. [])"
    using w'(1) by (auto simp: committed_chunks_def split: option.splits)
  then have "store_run example_crc example_options sh2 w2 example_acc example_acc (\<lambda>_. [])"
    using store_run.committed [OF appended run(2) w'(2) commit] by simp
  moreover have "bare (sh_db sh2)" using commit_bare [OF commit txn(2,1) w'(1) txn(3)] .
  ultimately show ?thesis by blast
qed

section \<open>Properties\<close>





text \<open>C3. An append answers as the abstract store does: in any reachable store a request is answered with the
  report the map of series gives at hub time (accepted points counted, every other named with its
  refusal: a value out of its kind's domain, another kind, a time not after the last, no id left), and
  otherwise only when redb refuses, and then the store has failed.\<close>

theorem append_refines:
  assumes "store_run C options sh w acc com written" and "sh_life sh = Running" and "request_ok system ps system_now"
    and "handle_append refused read_refused system_now system g ps sh w = (answer, sh', w')"
  shows "case answer of
      Some (Inr report) \<Rightarrow> report = fst (spec_append system g (hub_time w system_now) acc ps) \<and> sh_life sh' = Running
        \<and> store_run C options sh' w' (snd (spec_append system g (hub_time w system_now) acc ps)) com written
    | _ \<Rightarrow> (refused \<or> (\<exists>key. read_refused key)) \<and> sh_life sh' = Failed"
proof -
  note step = handle_append_ok [OF store_run_ok [OF assms(1)] assms(2-4)]
  show ?thesis
  proof (cases "\<exists>report. answer = Some (Inr report)")
    case True
    then obtain report where answer: "answer = Some (Inr report)" by blast
    then show ?thesis using step store_run.appended [OF assms(1-3) assms(4) [unfolded answer]] assms(2) by auto
  next
    case False
    then show ?thesis using step by (auto simp: fail_store_def life_fail_def split: option.splits sum.splits)
  qed
qed

theorem append_refines_witness:
  "\<exists>sh w w'. store_run example_crc example_options sh (w :: unit writer) (\<lambda>_. None) (\<lambda>_. None) (\<lambda>_. []) \<and> sh_life sh = Running
    \<and> handle_append False (\<lambda>_. False) 100 (SystemKey [104]) (Generation 1) example_points sh w
        = (Some (Inr \<lparr>ap_at = 100, ap_accepted = 1, ap_rejected = []\<rparr>), sh, w')"
proof -
  obtain sh report and w w' :: "unit writer" where run: "store_run example_crc example_options sh w (\<lambda>_. None) (\<lambda>_. None) (\<lambda>_. [])" "sh_life sh = Running"
    and hub: "hub_time w 100 = 100"
    and append: "handle_append False (\<lambda>_. False) 100 (SystemKey [104]) (Generation 1) example_points sh w = (Some (Inr report), sh, w')"
    using example_appended by blast
  have "report = \<lparr>ap_at = 100, ap_accepted = 1, ap_rejected = []\<rparr>"
    using append_refines [OF run example_request append] hub example_spec by simp
  then show ?thesis using run append by blast
qed



end
