(* ===== verification/Mail_Outbox.thy ===== *)
theory Mail_Outbox
  imports Token_Bucket
begin

text \<open>
  The agent's outbox (\<open>src/mail/outbox.rs\<close>) and the delivery task that drives it (\<open>deliver\<close> and
  \<open>log_dropped\<close> of \<open>src/mail/client.rs\<close>), one turn of its loop at a time.  How the relay answers is an
  argument of the turn, delays are nanoseconds.
\<close>

definition MAX_QUEUED :: nat where
  "MAX_QUEUED = 288"

definition FIRST_RETRY :: nanos where
  "FIRST_RETRY = 30 * 10 ^ 9"

datatype send_result = SendSent | SendTemporary | SendPermanent

record 'm outbox =
  ob_queue :: "'m list"
  ob_dropped :: u64
  ob_backoff :: "nanos option"

definition outbox_default :: "'m outbox" where
  "outbox_default = \<lparr>ob_queue = [], ob_dropped = 0, ob_backoff = None\<rparr>"

definition outbox_push :: "'m outbox \<Rightarrow> 'm \<Rightarrow> 'm outbox" where
  "outbox_push ob m =
     (let ob = (if length (ob_queue ob) = MAX_QUEUED then ob\<lparr>ob_queue := tl (ob_queue ob), ob_dropped := ob_dropped ob + 1\<rparr> else ob)
      in ob\<lparr>ob_queue := ob_queue ob @ [m]\<rparr>)"

definition outbox_front :: "'m outbox \<Rightarrow> 'm option" where
  "outbox_front ob = (case ob_queue ob of [] \<Rightarrow> None | m # _ \<Rightarrow> Some m)"

definition outbox_after :: "'m outbox \<Rightarrow> send_result \<Rightarrow> nanos \<Rightarrow> nanos \<times> 'm outbox" where
  "outbox_after ob result limit = (case result of
       SendSent \<Rightarrow> (0, ob\<lparr>ob_queue := tl (ob_queue ob), ob_backoff := None\<rparr>)
     | SendPermanent \<Rightarrow> (0, ob\<lparr>ob_queue := tl (ob_queue ob), ob_dropped := ob_dropped ob + 1, ob_backoff := None\<rparr>)
     | SendTemporary \<Rightarrow>
         (let wait = min (case ob_backoff ob of None \<Rightarrow> FIRST_RETRY | Some wait \<Rightarrow> wait * 2) limit
          in (wait, ob\<lparr>ob_backoff := Some wait\<rparr>)))"

definition has_dropped :: "'m outbox \<Rightarrow> bool" where
  "has_dropped ob \<longleftrightarrow> 0 < ob_dropped ob"

definition take_dropped :: "'m outbox \<Rightarrow> u64 \<times> 'm outbox" where
  "take_dropped ob = (ob_dropped ob, ob\<lparr>ob_dropped := 0\<rparr>)"

section \<open>The delivery task\<close>

definition DROPPED_WARNING_EVERY :: nanos where
  "DROPPED_WARNING_EVERY = 3600 * 10 ^ 9"

text \<open>The count the warning names, when there is one.\<close>

definition log_dropped :: "'m outbox \<Rightarrow> instant option \<Rightarrow> instant \<Rightarrow> u64 option \<times> 'm outbox \<times> instant option" where
  "log_dropped ob warned_at now =
     (let quiet = (case warned_at of Some t \<Rightarrow> now - t < DROPPED_WARNING_EVERY | None \<Rightarrow> False)
      in if quiet \<or> \<not> has_dropped ob then (None, ob, warned_at)
         else case take_dropped ob of (n, ob) \<Rightarrow> (Some n, ob, Some now))"

record 'm delivery =
  de_outbox :: "'m outbox"
  de_wait :: nanos
  de_warned_at :: "instant option"

definition delivery_new :: "'m delivery" where
  "delivery_new = \<lparr>de_outbox = outbox_default, de_wait = 0, de_warned_at = None\<rparr>"

text \<open>A turn: a message is received, or the wait ends with something at the front and it is sent.\<close>

datatype 'm delivery_event = ReceivedMessage 'm | WaitEnded send_result

definition deliver_turn :: "nanos \<Rightarrow> 'm delivery_event \<Rightarrow> instant \<Rightarrow> 'm delivery \<Rightarrow> u64 option \<times> 'm delivery" where
  "deliver_turn limit event now st =
     (let st = (case event of
          ReceivedMessage m \<Rightarrow> st\<lparr>de_outbox := outbox_push (de_outbox st) m\<rparr>
        | WaitEnded result \<Rightarrow> (case outbox_front (de_outbox st) of
              None \<Rightarrow> st
            | Some _ \<Rightarrow> (case outbox_after (de_outbox st) result limit of (wait, ob) \<Rightarrow> st\<lparr>de_outbox := ob, de_wait := wait\<rparr>)))
      in case log_dropped (de_outbox st) (de_warned_at st) now of
           (logged, ob, warned_at) \<Rightarrow> (logged, st\<lparr>de_outbox := ob, de_warned_at := warned_at\<rparr>))"

section \<open>Runs\<close>

text \<open>What a turn takes off the queue: the message, and whether the relay took it.\<close>

definition turn_takes :: "'m delivery_event \<Rightarrow> 'm outbox \<Rightarrow> ('m \<times> bool) list" where
  "turn_takes event ob = (case event of
       ReceivedMessage _ \<Rightarrow> if length (ob_queue ob) = MAX_QUEUED then [(hd (ob_queue ob), False)] else []
     | WaitEnded result \<Rightarrow> (case ob_queue ob of
           [] \<Rightarrow> []
         | m # _ \<Rightarrow> (case result of SendSent \<Rightarrow> [(m, True)] | SendPermanent \<Rightarrow> [(m, False)] | SendTemporary \<Rightarrow> [])))"

text \<open>A run with the messages received, those taken off the queue, the drops logged, and the turns since
  the relay last answered for good, all of them refused for now.\<close>

inductive delivery_run :: "nanos \<Rightarrow> 'm list \<Rightarrow> ('m \<times> bool) list \<Rightarrow> u64 \<Rightarrow> nat \<Rightarrow> 'm delivery \<Rightarrow> bool" for limit where
  start: "delivery_run limit [] [] 0 0 delivery_new"
| turn: "delivery_run limit received gone logged failed st \<Longrightarrow> deliver_turn limit event now st = (noted, st')
    \<Longrightarrow> received' = received @ (case event of ReceivedMessage m \<Rightarrow> [m] | WaitEnded _ \<Rightarrow> [])
    \<Longrightarrow> gone' = gone @ turn_takes event (de_outbox st)
    \<Longrightarrow> logged' = logged + (case noted of Some n \<Rightarrow> n | None \<Rightarrow> 0)
    \<Longrightarrow> failed' = (case event of ReceivedMessage _ \<Rightarrow> failed
          | WaitEnded result \<Rightarrow> if ob_queue (de_outbox st) = [] then failed else if result = SendTemporary then Suc failed else 0)
    \<Longrightarrow> delivery_run limit received' gone' logged' failed' st'"

definition drops :: "('m \<times> bool) list \<Rightarrow> nat" where
  "drops gone = length (filter (\<lambda>(_, taken). \<not> taken) gone)"

definition retry_wait :: "nanos \<Rightarrow> nat \<Rightarrow> nanos" where
  "retry_wait limit n = (if n = 0 then 0 else min (FIRST_RETRY * 2 ^ (n - 1)) limit)"

text \<open>Counts, order and delay after any run.\<close>

definition delivery_ok :: "nanos \<Rightarrow> 'm list \<Rightarrow> ('m \<times> bool) list \<Rightarrow> u64 \<Rightarrow> nat \<Rightarrow> 'm delivery \<Rightarrow> bool" where
  "delivery_ok limit received gone logged failed st \<longleftrightarrow>
     received = map fst gone @ ob_queue (de_outbox st) \<and> length (ob_queue (de_outbox st)) \<le> MAX_QUEUED
     \<and> logged + ob_dropped (de_outbox st) = of_nat (drops gone)
     \<and> de_wait st = retry_wait limit failed
     \<and> ob_backoff (de_outbox st) = (if failed = 0 then None else Some (retry_wait limit failed))"

lemma retry_wait_Suc: "retry_wait limit (Suc n) = min (if n = 0 then FIRST_RETRY else retry_wait limit n * 2) limit"
  by (cases n) (auto simp: retry_wait_def min_def)

lemma log_dropped_keeps:
  assumes "log_dropped ob warned_at now = (noted, ob', warned_at')"
  shows "ob_queue ob' = ob_queue ob \<and> ob_backoff ob' = ob_backoff ob
    \<and> (case noted of Some n \<Rightarrow> n | None \<Rightarrow> 0) + ob_dropped ob' = ob_dropped ob"
  using assms by (auto simp: log_dropped_def take_dropped_def Let_def split: if_splits)

lemma deliver_turn_ok:
  assumes ok: "delivery_ok limit received gone logged failed st" and turn: "deliver_turn limit event now st = (noted, st')"
  shows "delivery_ok limit (received @ (case event of ReceivedMessage m \<Rightarrow> [m] | WaitEnded _ \<Rightarrow> [])) (gone @ turn_takes event (de_outbox st))
    (logged + (case noted of Some n \<Rightarrow> n | None \<Rightarrow> 0))
    (case event of ReceivedMessage _ \<Rightarrow> failed
      | WaitEnded result \<Rightarrow> if ob_queue (de_outbox st) = [] then failed else if result = SendTemporary then Suc failed else 0) st'"
proof -
  define mid where "mid = (case event of
      ReceivedMessage m \<Rightarrow> st\<lparr>de_outbox := outbox_push (de_outbox st) m\<rparr>
    | WaitEnded result \<Rightarrow> (case outbox_front (de_outbox st) of None \<Rightarrow> st
        | Some _ \<Rightarrow> (case outbox_after (de_outbox st) result limit of (wait, ob) \<Rightarrow> st\<lparr>de_outbox := ob, de_wait := wait\<rparr>)))"
  obtain ob warned where logged: "log_dropped (de_outbox mid) (de_warned_at mid) now = (noted, ob, warned)" and st': "st' = mid\<lparr>de_outbox := ob, de_warned_at := warned\<rparr>"
    using turn by (auto simp: deliver_turn_def Let_def mid_def split: prod.splits)
  note kept = log_dropped_keeps [OF logged]
  have sum: "x + (case noted of Some n \<Rightarrow> n | None \<Rightarrow> 0) + ob_dropped ob = x + ob_dropped (de_outbox mid)" for x
    using kept by (simp add: add.assoc)
  show ?thesis
  proof (cases event)
    case (ReceivedMessage m)
    have queue: "ob_queue (de_outbox st) \<noteq> []" if "length (ob_queue (de_outbox st)) = MAX_QUEUED" using that by (auto simp: MAX_QUEUED_def)
    show ?thesis using ok kept sum queue ReceivedMessage
      by (auto simp: delivery_ok_def st' mid_def outbox_push_def turn_takes_def drops_def Let_def MAX_QUEUED_def algebra_simps)
  next
    case (WaitEnded result)
    show ?thesis
    proof (cases "ob_queue (de_outbox st)")
      case Nil
      then show ?thesis using ok kept sum WaitEnded
        by (simp add: delivery_ok_def st' mid_def outbox_front_def turn_takes_def algebra_simps)
    next
      case (Cons m queue)
      then show ?thesis using ok kept sum WaitEnded
        by (cases result)
           (auto simp: delivery_ok_def st' mid_def outbox_front_def outbox_after_def turn_takes_def drops_def retry_wait_Suc Let_def algebra_simps,
            simp_all add: retry_wait_def)
    qed
  qed
qed

section \<open>Properties\<close>

text \<open>C32. The outbox loses nothing it does not count: after any turns, the messages received are, in order,
  those the relay took or the outbox dropped followed by those waiting, at most 288 wait, the drops
  logged and still to be logged are all the drops there were, and after \<open>n\<close> temporary refusals in a row
  the next attempt waits thirty seconds doubled \<open>n - 1\<close> times, never more than the mail interval.\<close>

theorem outbox_exact:
  assumes "delivery_run limit received gone logged failed st"
  shows "received = map fst gone @ ob_queue (de_outbox st) \<and> length (ob_queue (de_outbox st)) \<le> 288
    \<and> logged + ob_dropped (de_outbox st) = of_nat (length (filter (\<lambda>(_, taken). \<not> taken) gone))
    \<and> de_wait st = (if failed = 0 then 0 else min (30 * 10 ^ 9 * 2 ^ (failed - 1)) limit)"
proof -
  have "delivery_ok limit received gone logged failed st"
    using assms
  proof induction
    case start
    then show ?case by (simp add: delivery_ok_def delivery_new_def outbox_default_def drops_def retry_wait_def)
  next
    case (turn received gone logged failed st event now noted st' received' gone' logged' failed')
    show ?case using deliver_turn_ok [OF turn.IH turn.hyps(2)] turn.hyps(3-6) by simp
  qed
  then show ?thesis by (simp add: delivery_ok_def MAX_QUEUED_def drops_def retry_wait_def FIRST_RETRY_def)
qed

theorem outbox_exact_witness:
  "\<exists>st. delivery_run (300 * 10 ^ 9) [1, 2 :: nat] [(1, False)] 1 1 st \<and> ob_queue (de_outbox st) = [2] \<and> de_wait st = 30 * 10 ^ 9"
proof -
  have step: "delivery_run limit received gone logged failed st \<Longrightarrow>
      delivery_run limit (received @ (case event of ReceivedMessage m \<Rightarrow> [m] | WaitEnded _ \<Rightarrow> [])) (gone @ turn_takes event (de_outbox st))
        (logged + (case fst (deliver_turn limit event now st) of Some n \<Rightarrow> n | None \<Rightarrow> 0))
        (case event of ReceivedMessage _ \<Rightarrow> failed
          | WaitEnded result \<Rightarrow> if ob_queue (de_outbox st) = [] then failed else if result = SendTemporary then Suc failed else 0)
        (snd (deliver_turn limit event now st))" for limit and received :: "nat list" and gone logged failed st event now
    by (rule delivery_run.turn [OF _ _ refl refl refl refl]) (simp_all add: prod_eq_iff)
  let ?limit = "300 * 10 ^ 9"
  define a where "a = snd (deliver_turn ?limit (ReceivedMessage (1 :: nat)) 0 delivery_new)"
  define b where "b = snd (deliver_turn ?limit (ReceivedMessage 2) 0 a)"
  define c where "c = snd (deliver_turn ?limit (WaitEnded SendPermanent) 0 b)"
  define d where "d = snd (deliver_turn ?limit (WaitEnded SendTemporary) 0 c)"
  note eval = deliver_turn_def outbox_push_def log_dropped_def has_dropped_def Let_def MAX_QUEUED_def delivery_new_def outbox_default_def
    outbox_front_def outbox_after_def take_dropped_def
  have a: "a = \<lparr>de_outbox = \<lparr>ob_queue = [1], ob_dropped = 0, ob_backoff = None\<rparr>, de_wait = 0, de_warned_at = None\<rparr>"
    by (simp add: a_def eval)
  have b: "b = \<lparr>de_outbox = \<lparr>ob_queue = [1, 2], ob_dropped = 0, ob_backoff = None\<rparr>, de_wait = 0, de_warned_at = None\<rparr>"
    by (simp add: b_def a eval)
  have c: "c = \<lparr>de_outbox = \<lparr>ob_queue = [2], ob_dropped = 0, ob_backoff = None\<rparr>, de_wait = 0, de_warned_at = Some 0\<rparr>"
    "fst (deliver_turn ?limit (WaitEnded SendPermanent) 0 b) = Some 1"
    by (simp_all add: c_def b eval)
  have "delivery_run ?limit [1] [] 0 0 a"
    using step [OF delivery_run.start, of ?limit "ReceivedMessage 1" 0] by (simp add: a turn_takes_def eval)
  from step [OF this, of "ReceivedMessage 2" 0] have "delivery_run ?limit [1, 2] [] 0 0 b"
    by (simp add: b turn_takes_def a eval)
  from step [OF this, of "WaitEnded SendPermanent" 0] have "delivery_run ?limit [1, 2] [(1, False)] 1 0 c"
    by (simp add: c(1) turn_takes_def b eval)
  from step [OF this, of "WaitEnded SendTemporary" 0] have run: "delivery_run ?limit [1, 2] [(1, False)] 1 1 d"
    by (simp add: d_def turn_takes_def c(1) eval)
  show ?thesis using outbox_exact [OF run] run by (intro exI [of _ d]) auto
qed

end
