(* ===== verification/Mail_Seal.thy ===== *)
theory Mail_Seal
  imports Registry Text_Fields List_Pieces
begin

text \<open>
  The sealed mail report, both ends: the agent's side (\<open>src/mail/seal.rs\<close>, the id of
  \<open>src/push/identity.rs\<close>) seals a report under its system's key and armours it, the hub's side
  (\<open>system-hub/src/mail_intake/seal.rs\<close>, \<open>mail_intake/command.rs\<close>) derives that key from its master key,
  strips the armour and opens the report.  Base64, HKDF and the cipher are packages: they are
  parameters, with what their documentation promises as \<open>mail_fns_ok\<close>.  Report bytes and ids are byte
  lists, message text is a list of characters.
\<close>

record mail_fns =
  base64_encode :: "bytes \<Rightarrow> string"
  base64_decode :: "string \<Rightarrow> bytes option"
  hkdf_expand :: "bytes \<Rightarrow> bytes \<Rightarrow> bytes \<Rightarrow> bytes"
  aead_encrypt :: "bytes \<Rightarrow> bytes \<Rightarrow> bytes \<Rightarrow> bytes \<Rightarrow> bytes option"
  aead_decrypt :: "bytes \<Rightarrow> bytes \<Rightarrow> bytes \<Rightarrow> bytes \<Rightarrow> bytes option"

text \<open>\<open>u8::is_ascii_whitespace\<close>, \<open>str::trim_ascii\<close> and the pieces of \<open>str::split_ascii_whitespace\<close>, collected.\<close>

definition is_ascii_whitespace :: "char \<Rightarrow> bool" where
  "is_ascii_whitespace c \<longleftrightarrow> (of_char c :: nat) \<in> {9, 10, 12, 13, 32}"

definition trim_ascii :: "string \<Rightarrow> string" where
  "trim_ascii s = rev (dropWhile is_ascii_whitespace (rev (dropWhile is_ascii_whitespace s)))"

definition without_ascii_whitespace :: "string \<Rightarrow> string" where
  "without_ascii_whitespace s = filter (\<lambda>c. \<not> is_ascii_whitespace c) s"

section \<open>The format\<close>

definition SEAL_MAGIC :: bytes where
  "SEAL_MAGIC = str ''SAMR''"

definition VERSION :: u8 where
  "VERSION = 1"

definition ARMOUR_BEGIN :: string where
  "ARMOUR_BEGIN = ''-----BEGIN SYSTEM-AGENT REPORT-----''"

definition ARMOUR_END :: string where
  "ARMOUR_END = ''-----END SYSTEM-AGENT REPORT-----''"

definition ARMOUR_COLUMNS :: nat where
  "ARMOUR_COLUMNS = 76"

definition NONCE_BYTES :: nat where
  "NONCE_BYTES = 24"

definition KEY_SALT :: bytes where
  "KEY_SALT = str ''system-agent mail key v1''"

definition MAX_SEALED_BYTES :: nat where
  "MAX_SEALED_BYTES = 512 * 1024"

section \<open>Keys\<close>

datatype mail_master_key = MailMasterKey bytes
datatype mail_key = MailKey (key_bytes: bytes)

datatype key_error = KeyNotBase64 | KeyWrongLength

text \<open>\<open>MailMasterKey::from_base64\<close> on the hub and \<open>MailKey::from_base64\<close> on the agent read the same form.\<close>

definition key_from_base64 :: "mail_fns \<Rightarrow> string \<Rightarrow> key_error + bytes" where
  "key_from_base64 F v = (case base64_decode F (trim_ascii v) of
       None \<Rightarrow> Inl KeyNotBase64
     | Some bs \<Rightarrow> if length bs = 32 then Inr bs else Inl KeyWrongLength)"

definition master_from_base64 :: "mail_fns \<Rightarrow> string \<Rightarrow> key_error + mail_master_key" where
  "master_from_base64 F v = rbind (key_from_base64 F v) (\<lambda>bs. Inr (MailMasterKey bs))"

definition mail_key_from_base64 :: "mail_fns \<Rightarrow> string \<Rightarrow> key_error + mail_key" where
  "mail_key_from_base64 F v = rbind (key_from_base64 F v) (\<lambda>bs. Inr (MailKey bs))"

definition derive_key :: "mail_fns \<Rightarrow> mail_master_key \<Rightarrow> system_id \<Rightarrow> mail_key" where
  "derive_key F master i = (case master of MailMasterKey bs \<Rightarrow> MailKey (hkdf_expand F KEY_SALT bs (id_str i)))"

definition key_to_base64 :: "mail_fns \<Rightarrow> mail_key \<Rightarrow> string" where
  "key_to_base64 F key = base64_encode F (key_bytes key)"

section \<open>The hub's command line\<close>

datatype command = Serve | MailKeyFor system_id

datatype command_error = Usage | CommandInvalidSystemId system_id_error | KeyMissing | CommandKey key_error

definition exit_code :: "command_error \<Rightarrow> u8" where
  "exit_code e = (case e of Usage \<Rightarrow> 64 | CommandInvalidSystemId _ \<Rightarrow> 64 | KeyMissing \<Rightarrow> 78 | CommandKey _ \<Rightarrow> 78)"

text \<open>An argument is its bytes; \<open>OsString::to_str\<close> gives UTF-8 only.\<close>

definition parse_args :: "bytes list \<Rightarrow> command_error + command" where
  "parse_args args = (case args of
       [] \<Rightarrow> Inr Serve
     | [cmd, i] \<Rightarrow>
         if cmd = str ''mail-key''
         then rbind (ok_or Usage (from_utf8 i)) (\<lambda>i.
           rbind (map_err CommandInvalidSystemId (system_id_try_from i)) (\<lambda>i. Inr (MailKeyFor i)))
         else Inl Usage
     | _ \<Rightarrow> Inl Usage)"

definition mail_key_command :: "mail_fns \<Rightarrow> system_id \<Rightarrow> string option \<Rightarrow> command_error + string" where
  "mail_key_command F i key = (case key of
       None \<Rightarrow> Inl KeyMissing
     | Some key \<Rightarrow>
         if key = [] then Inl KeyMissing
         else rbind (map_err CommandKey (master_from_base64 F key)) (\<lambda>master. Inr (key_to_base64 F (derive_key F master i))))"

section \<open>The agent seals\<close>

datatype agent_id = AgentId (agent_id_str: bytes)

datatype agent_id_rule = AgentIdEmpty | AgentIdTooLong | AgentIdDotSegment

definition MAX_AGENT_ID_BYTES :: nat where
  "MAX_AGENT_ID_BYTES = 255"

definition trim_ascii_bytes :: "bytes \<Rightarrow> bytes" where
  "trim_ascii_bytes s = (let white = \<lambda>b. b \<in> {9, 10, 12, 13, 32 :: u8} in rev (dropWhile white (rev (dropWhile white s))))"

definition agent_id_try_from :: "bytes \<Rightarrow> agent_id_rule + agent_id" where
  "agent_id_try_from v = (let i = trim_ascii_bytes v
     in if i = [] then Inl AgentIdEmpty
        else if i = str ''.'' \<or> i = str ''..'' then Inl AgentIdDotSegment
        else if MAX_AGENT_ID_BYTES < length i then Inl AgentIdTooLong
        else Inr (AgentId i))"

datatype seal_error = SealIdTooLong | SealEncrypt

definition seal_header :: "agent_id \<Rightarrow> seal_error + bytes" where
  "seal_header i = (let n = length (agent_id_str i)
     in if n < 256 then Inr (SEAL_MAGIC @ [VERSION, of_nat n] @ agent_id_str i) else Inl SealIdTooLong)"

definition seal_report :: "mail_fns \<Rightarrow> agent_id \<Rightarrow> bytes \<Rightarrow> mail_key \<Rightarrow> bytes \<Rightarrow> seal_error + bytes" where
  "seal_report F i report key nonce = rbind (seal_header i) (\<lambda>header.
     rbind (ok_or SealEncrypt (aead_encrypt F (key_bytes key) nonce header report)) (\<lambda>ciphertext.
       Inr (header @ nonce @ ciphertext)))"

fun join_lines :: "string list \<Rightarrow> string" where
  "join_lines [] = []"
| "join_lines [l] = l"
| "join_lines (l # ls) = l @ CHR 0x0A # join_lines ls"

definition armour :: "mail_fns \<Rightarrow> bytes \<Rightarrow> string" where
  "armour F sealed = join_lines (ARMOUR_BEGIN # chunks_of ARMOUR_COLUMNS (base64_encode F sealed) @ [ARMOUR_END])"

section \<open>The hub opens\<close>

datatype open_refusal = BadArmor | SealedTooLarge | BadHeader | UnknownVersion u8 | OpenInvalidSystemId system_id_error | NotAuthentic

definition dearmour :: "mail_fns \<Rightarrow> string \<Rightarrow> open_refusal + bytes" where
  "dearmour F text =
     rbind (ok_or BadArmor (split_once ARMOUR_BEGIN text)) (\<lambda>(_, after_begin).
     rbind (ok_or BadArmor (split_once ARMOUR_END after_begin)) (\<lambda>(body, _).
     rbind (ok_or BadArmor (base64_decode F (without_ascii_whitespace body))) (\<lambda>sealed.
       if MAX_SEALED_BYTES < length sealed then Inl SealedTooLarge else Inr sealed)))"

record sealed_parts =
  sp_header :: bytes
  sp_id :: system_id
  sp_nonce :: bytes
  sp_ciphertext :: bytes

definition parse_sealed :: "bytes \<Rightarrow> open_refusal + sealed_parts" where
  "parse_sealed sealed =
     (if take (length SEAL_MAGIC) sealed \<noteq> SEAL_MAGIC then Inl BadHeader
      else case drop (length SEAL_MAGIC) sealed of
        [] \<Rightarrow> Inl BadHeader
      | version # after \<Rightarrow>
          if version \<noteq> VERSION then Inl (UnknownVersion version)
          else (case after of
              [] \<Rightarrow> Inl BadHeader
            | n # after \<Rightarrow>
                (let id_len = unat n
                 in if length after < id_len then Inl BadHeader
                    else let i = take id_len after; after = drop id_len after
                      in if length after < NONCE_BYTES then Inl BadHeader
                         else rbind (ok_or BadHeader (from_utf8 i)) (\<lambda>i.
                           rbind (map_err OpenInvalidSystemId (system_id_try_from i)) (\<lambda>i.
                             Inr \<lparr>sp_header = take (length SEAL_MAGIC + 2 + id_len) sealed, sp_id = i,
                               sp_nonce = take NONCE_BYTES after, sp_ciphertext = drop NONCE_BYTES after\<rparr>)))))"

definition open_sealed :: "mail_fns \<Rightarrow> bytes \<Rightarrow> mail_master_key \<Rightarrow> open_refusal + system_id \<times> bytes" where
  "open_sealed F sealed master = rbind (parse_sealed sealed) (\<lambda>p.
     rbind (ok_or NotAuthentic (aead_decrypt F (key_bytes (derive_key F master (sp_id p))) (sp_nonce p) (sp_header p) (sp_ciphertext p)))
       (\<lambda>report. Inr (sp_id p, report)))"

section \<open>What the packages promise\<close>

text \<open>The standard alphabet with its padding; HKDF fills the 32 bytes asked for; the cipher opens what it
  sealed under the same key, nonce and associated data.\<close>

definition is_base64 :: "char \<Rightarrow> bool" where
  "is_base64 c \<longleftrightarrow> (let n = of_char c :: nat in 48 \<le> n \<and> n \<le> 57 \<or> 65 \<le> n \<and> n \<le> 90 \<or> 97 \<le> n \<and> n \<le> 122 \<or> n \<in> {43, 47, 61})"

definition mail_fns_ok :: "mail_fns \<Rightarrow> bool" where
  "mail_fns_ok F \<longleftrightarrow> (\<forall>bs. base64_decode F (base64_encode F bs) = Some bs \<and> list_all is_base64 (base64_encode F bs))
     \<and> (\<forall>salt ikm info. length (hkdf_expand F salt ikm info) = 32)
     \<and> (\<forall>key nonce aad msg ct. aead_encrypt F key nonce aad msg = Some ct \<longrightarrow> aead_decrypt F key nonce aad ct = Some msg)"

section \<open>The armour\<close>

lemma is_base64_plain: "is_base64 c \<Longrightarrow> \<not> is_ascii_whitespace c \<and> c \<noteq> CHR ''-''"
  by (auto simp: is_base64_def is_ascii_whitespace_def Let_def)

lemma split_once_first:
  assumes "c \<notin> set pre"
  shows "split_once (c # pat) (pre @ (c # pat) @ post) = Some (pre, post)"
  using assms
proof (induction pre)
  case Nil
  then show ?case by (simp add: split_once.simps [of "c # pat"])
next
  case (Cons x pre)
  then show ?case by (auto simp: split_once.simps [of "c # pat" "x # _"])
qed

lemma join_lines_snoc: "ls \<noteq> [] \<Longrightarrow> join_lines (ls @ [l]) = join_lines ls @ CHR 0x0A # l"
  by (induction ls rule: join_lines.induct) auto

lemma join_lines_Cons: "ls \<noteq> [] \<Longrightarrow> join_lines (l # ls) = l @ CHR 0x0A # join_lines ls"
  by (cases ls) simp_all

lemma join_lines_plain: "without_ascii_whitespace (join_lines ls) = without_ascii_whitespace (concat ls)"
  by (induction ls rule: join_lines.induct) (auto simp: without_ascii_whitespace_def is_ascii_whitespace_def)

lemma set_join_lines: "set (join_lines ls) \<subseteq> insert (CHR 0x0A) (set (concat ls))"
  by (induction ls rule: join_lines.induct) auto

lemma armour_shape: "\<exists>body. armour F sealed = ARMOUR_BEGIN @ body @ ARMOUR_END
    \<and> without_ascii_whitespace body = without_ascii_whitespace (base64_encode F sealed)
    \<and> set body \<subseteq> insert (CHR 0x0A) (set (base64_encode F sealed))"
proof -
  let ?ls = "chunks_of ARMOUR_COLUMNS (base64_encode F sealed)"
  have whole: "concat ?ls = base64_encode F sealed" by (rule concat_chunks_of) (simp add: ARMOUR_COLUMNS_def)
  show ?thesis
  proof (cases "?ls = []")
    case True
    then show ?thesis using whole
      by (intro exI [of _ "[CHR 0x0A]"]) (simp add: armour_def without_ascii_whitespace_def is_ascii_whitespace_def)
  next
    case False
    have "armour F sealed = ARMOUR_BEGIN @ (CHR 0x0A # join_lines ?ls @ [CHR 0x0A]) @ ARMOUR_END"
      using join_lines_snoc [OF False, of ARMOUR_END] by (simp add: armour_def join_lines_Cons)
    moreover have "without_ascii_whitespace (CHR 0x0A # join_lines ?ls @ [CHR 0x0A]) = without_ascii_whitespace (base64_encode F sealed)"
      using join_lines_plain [of ?ls] whole by (simp add: without_ascii_whitespace_def is_ascii_whitespace_def)
    ultimately show ?thesis using set_join_lines [of ?ls] whole by (intro exI [of _ "CHR 0x0A # join_lines ?ls @ [CHR 0x0A]"]) auto
  qed
qed

lemma dearmour_armour:
  assumes F: "mail_fns_ok F" and small: "length sealed \<le> MAX_SEALED_BYTES" and pre: "CHR ''-'' \<notin> set pre"
  shows "dearmour F (pre @ armour F sealed @ post) = Inr sealed"
proof -
  obtain body where body: "armour F sealed = ARMOUR_BEGIN @ body @ ARMOUR_END"
    "without_ascii_whitespace body = without_ascii_whitespace (base64_encode F sealed)"
    "set body \<subseteq> insert (CHR 0x0A) (set (base64_encode F sealed))"
    using armour_shape by blast
  have plain: "list_all is_base64 (base64_encode F sealed)" and decoded: "base64_decode F (base64_encode F sealed) = Some sealed"
    using F by (simp_all add: mail_fns_ok_def)
  then have "without_ascii_whitespace (base64_encode F sealed) = base64_encode F sealed"
    by (auto simp: without_ascii_whitespace_def list_all_iff filter_id_conv dest: is_base64_plain)
  moreover have "CHR ''-'' \<notin> set body" using body(3) plain by (auto simp: list_all_iff dest: is_base64_plain)
  moreover obtain b e where "ARMOUR_BEGIN = CHR ''-'' # b" "ARMOUR_END = CHR ''-'' # e"
    by (simp add: ARMOUR_BEGIN_def ARMOUR_END_def)
  ultimately show ?thesis
    using split_once_first [OF pre, of b "body @ ARMOUR_END @ post"] split_once_first [of "CHR ''-''" body e post] body decoded small
    by (simp add: dearmour_def)
qed

section \<open>The sealed bytes\<close>

lemma agent_id_is_system_id: "agent_id_try_from v = Inr i \<Longrightarrow> system_id_try_from (agent_id_str i) = Inr (SystemId (agent_id_str i))"
  by (auto simp: agent_id_try_from_def system_id_try_from_def Let_def MAX_AGENT_ID_BYTES_def MAX_SYSTEM_ID_BYTES_def split: if_splits)

lemma parse_sealed_seal:
  assumes "system_id_try_from i = Inr (SystemId i)" and "from_utf8 i = Some i" and "length nonce = NONCE_BYTES"
    and "seal_header (AgentId i) = Inr header"
  shows "parse_sealed (header @ nonce @ ct) = Inr \<lparr>sp_header = header, sp_id = SystemId i, sp_nonce = nonce, sp_ciphertext = ct\<rparr>"
proof -
  have "length i < 256" and header: "header = SEAL_MAGIC @ [VERSION, of_nat (length i)] @ i"
    using assms(4) by (auto simp: seal_header_def Let_def split: if_splits)
  then have n: "unat (of_nat (length i) :: u8) = length i" by (simp add: unat_of_nat)
  show ?thesis using assms(1-3) n by (simp add: parse_sealed_def header Let_def)
qed

lemma open_seal:
  assumes F: "mail_fns_ok F" and i: "system_id_try_from i = Inr (SystemId i)" "from_utf8 i = Some i" and nonce: "length nonce = NONCE_BYTES"
    and sealed: "seal_report F (AgentId i) report (derive_key F master (SystemId i)) nonce = Inr sealed"
  shows "open_sealed F sealed master = Inr (SystemId i, report)"
proof -
  obtain header ct where header: "seal_header (AgentId i) = Inr header"
    and ct: "aead_encrypt F (key_bytes (derive_key F master (SystemId i))) nonce header report = Some ct"
    and eq: "sealed = header @ nonce @ ct"
    using sealed by (auto simp: seal_report_def rbind_eq_Inr ok_or_def split: option.splits)
  have "aead_decrypt F (key_bytes (derive_key F master (SystemId i))) nonce header ct = Some report"
    using F ct by (simp add: mail_fns_ok_def)
  then show ?thesis using parse_sealed_seal [OF i nonce header] by (simp add: eq open_sealed_def ok_or_def)
qed

lemma trim_ascii_plain: "list_all is_base64 s \<Longrightarrow> trim_ascii s = s"
proof -
  assume plain: "list_all is_base64 s"
  have id: "dropWhile is_ascii_whitespace xs = xs" if "set xs \<subseteq> set s" for xs
    using that plain by (cases xs) (auto simp: list_all_iff dest: is_base64_plain)
  show ?thesis by (simp add: trim_ascii_def id)
qed

lemma printed_key_reads:
  assumes F: "mail_fns_ok F" and printed: "mail_key_command F i var = Inr printed"
  obtains master where "\<exists>v. var = Some v \<and> master_from_base64 F v = Inr master" and "mail_key_from_base64 F printed = Inr (derive_key F master i)"
proof -
  obtain v master where master: "var = Some v" "master_from_base64 F v = Inr master" and eq: "printed = key_to_base64 F (derive_key F master i)"
    using printed by (auto simp: mail_key_command_def rbind_eq_Inr map_err_def split: option.splits if_splits sum.splits)
  have "length (key_bytes (derive_key F master i)) = 32"
    using F by (cases master) (simp add: derive_key_def mail_fns_ok_def)
  moreover have "trim_ascii printed = printed" and "base64_decode F printed = Some (key_bytes (derive_key F master i))"
    using F trim_ascii_plain by (auto simp: eq key_to_base64_def mail_fns_ok_def)
  ultimately have "mail_key_from_base64 F printed = Inr (derive_key F master i)"
    by (simp add: mail_key_from_base64_def key_from_base64_def)
  then show thesis using that master by blast
qed

section \<open>Properties\<close>

text \<open>C25. What an agent mails is what the hub opens: with the key the hub's command prints for the agent's
  id, read back by the agent, a sealed and armoured report within the size limit, with any text after
  the armour and any text without a dash before it, is found, opened and authenticated as the report
  of that id.\<close>

theorem sealed_report_opens:
  assumes "mail_fns_ok F" and "agent_id_try_from v = Inr i" and "from_utf8 (agent_id_str i) = Some (agent_id_str i)"
    and "mail_key_command F (SystemId (agent_id_str i)) var = Inr printed" and "mail_key_from_base64 F printed = Inr key"
    and "length nonce = NONCE_BYTES" and "seal_report F i report key nonce = Inr sealed" and "length sealed \<le> MAX_SEALED_BYTES"
    and "CHR ''-'' \<notin> set pre"
  shows "\<exists>master v. var = Some v \<and> master_from_base64 F v = Inr master
    \<and> dearmour F (pre @ armour F sealed @ post) = Inr sealed \<and> open_sealed F sealed master = Inr (SystemId (agent_id_str i), report)"
proof -
  obtain master where master: "\<exists>v. var = Some v \<and> master_from_base64 F v = Inr master" and "mail_key_from_base64 F printed = Inr (derive_key F master (SystemId (agent_id_str i)))"
    using printed_key_reads [OF assms(1,4)] by blast
  then have "seal_report F (AgentId (agent_id_str i)) report (derive_key F master (SystemId (agent_id_str i))) nonce = Inr sealed"
    using assms(5,7) by simp
  then have "open_sealed F sealed master = Inr (SystemId (agent_id_str i), report)"
    by (rule open_seal [OF assms(1) agent_id_is_system_id [OF assms(2)] assms(3,6)])
  then show ?thesis using master dearmour_armour [OF assms(1,8,9)] by blast
qed

text \<open>A letter per half byte, a cipher that puts what it authenticates before the message.\<close>

fun halves :: "string \<Rightarrow> bytes option" where
  "halves [] = Some []"
| "halves (a # b # s) = map_option (Cons (of_nat (16 * (of_char a - 65) + (of_char b - 65)))) (halves s)"
| "halves [_] = None"

definition example_fns :: mail_fns where
  "example_fns = \<lparr>base64_encode = (\<lambda>bs. concat (map (\<lambda>b. [char_of (65 + unat b div 16), char_of (65 + unat b mod 16)]) bs)),
     base64_decode = halves, hkdf_expand = (\<lambda>_ _ info. take 32 (info @ replicate 32 0)),
     aead_encrypt = (\<lambda>key nonce aad msg. Some (key @ nonce @ aad @ msg)),
     aead_decrypt = (\<lambda>key nonce aad ct. let n = length (key @ nonce @ aad) in if take n ct = key @ nonce @ aad then Some (drop n ct) else None)\<rparr>"

lemma half_char: "n < 16 \<Longrightarrow> of_char (char_of (65 + n)) = (65 + n :: nat)"
  by (simp add: of_char_of take_bit_nat_eq_self_iff)

lemma example_base64: "halves (base64_encode example_fns bs) = Some bs \<and> list_all is_base64 (base64_encode example_fns bs)"
proof (induction bs)
  case (Cons b bs)
  have "unat b < 2 ^ LENGTH(8)" by (rule unsigned_less)
  then have small: "unat b div 16 < 16" "unat b mod 16 < 16" by simp_all
  have "is_base64 (char_of (65 + n))" if "n < 16" for n :: nat
    using half_char [OF that] that by (simp add: is_base64_def)
  then show ?case using Cons half_char [OF small(1)] half_char [OF small(2)] small by (simp add: example_fns_def)
qed (simp add: example_fns_def)

lemma example_fns_ok: "mail_fns_ok example_fns"
  using example_base64 by (auto simp: mail_fns_ok_def) (auto simp: example_fns_def Let_def)

theorem sealed_report_opens_witness:
  "\<exists>printed key sealed. mail_key_command example_fns (SystemId [104]) (Some (base64_encode example_fns (replicate 32 7))) = Inr printed
    \<and> mail_key_from_base64 example_fns printed = Inr key \<and> seal_report example_fns (AgentId [104]) [1, 2] key (replicate 24 9) = Inr sealed
    \<and> dearmour example_fns (''Hello: '' @ armour example_fns sealed @ '' bye'') = Inr sealed
    \<and> open_sealed example_fns sealed (MailMasterKey (replicate 32 7)) = Inr (SystemId [104], [1, 2])"
proof -
  let ?F = example_fns
  define ikm var where "ikm = replicate 32 (7 :: u8)" and "var = base64_encode ?F ikm"
  have trim: "trim_ascii var = var" using example_base64 by (intro trim_ascii_plain) (simp add: var_def)
  have decoded: "base64_decode ?F var = Some ikm" using example_base64 [of ikm] by (simp add: var_def) (simp add: example_fns_def)
  then have master: "master_from_base64 ?F var = Inr (MailMasterKey ikm)"
    by (simp add: master_from_base64_def key_from_base64_def trim) (simp add: ikm_def)
  have "var \<noteq> []" using decoded by (auto simp: example_fns_def ikm_def)
  then obtain printed where printed: "mail_key_command ?F (SystemId [104]) (Some var) = Inr printed"
    using master by (simp add: mail_key_command_def map_err_def)
  then obtain key where key: "mail_key_from_base64 ?F printed = Inr key"
    using printed_key_reads [OF example_fns_ok printed] by metis
  have len: "length (key_bytes key) = 32"
    using key by (auto simp: mail_key_from_base64_def key_from_base64_def rbind_eq_Inr split: option.splits if_splits)
  obtain sealed where sealed: "seal_report ?F (AgentId [104]) [1, 2] key (replicate 24 9) = Inr sealed" and small: "length sealed \<le> MAX_SEALED_BYTES"
    using len by (simp add: seal_report_def seal_header_def ok_or_def example_fns_def MAX_SEALED_BYTES_def SEAL_MAGIC_def str_def)
  have i: "agent_id_try_from [104] = Inr (AgentId [104])"
    by (simp add: agent_id_try_from_def trim_ascii_bytes_def str_def MAX_AGENT_ID_BYTES_def)
  have utf8: "from_utf8 [104] = Some [104]" by (simp add: from_utf8_def utf8_chars.simps)
  have "\<exists>master v. Some var = Some v \<and> master_from_base64 ?F v = Inr master
      \<and> dearmour ?F (''Hello: '' @ armour ?F sealed @ '' bye'') = Inr sealed \<and> open_sealed ?F sealed master = Inr (SystemId [104], [1, 2])"
    using sealed_report_opens [OF example_fns_ok i, of "Some var" printed key "replicate 24 9" "[1, 2]" sealed "''Hello: ''" "'' bye''"]
      utf8 printed key sealed small by (simp add: NONCE_BYTES_def)
  then show ?thesis using master printed key sealed unfolding var_def ikm_def by auto
qed

end
