(* ===== verification/Agent_Rounds.thy ===== *)
theory Agent_Rounds
  imports Applications "HOL-Library.List_Lexorder" "HOL-Library.Char_ord"
begin

text \<open>
  Scrape rounds from the agent to the hub.  On the agent: the report of one scrape, with rates against
  the previous one (\<open>src/applications/report.rs\<close>), the rounds (\<open>src/applications/round.rs\<close>) and their wire
  shape (\<open>src/applications/wire.rs\<close>, \<open>src/push/application_frame.rs\<close>).  On the hub: the frame or poll
  response read back (\<open>system-hub/src/application_wire.rs\<close>).  The bytes between the two shapes are
  serde's.  UUID text is a parameter, the monotonic clock is nanoseconds, strings that are read by
  characters are lists of code points.
\<close>

section \<open>Arithmetic\<close>

text \<open>Subtraction, addition, the order and \<open>f64::max\<close> of binary64; \<open>Duration::as_secs_f64\<close>.\<close>

fun f64_add :: "f64 \<Rightarrow> f64 \<Rightarrow> f64" where
  "f64_add (Fin a) (Fin b) = fl (a + b)"
| "f64_add NaN b = NaN"
| "f64_add a NaN = NaN"
| "f64_add (Inf s) (Inf t) = (if s = t then Inf s else NaN)"
| "f64_add (Inf s) (Fin b) = Inf s"
| "f64_add (Fin a) (Inf t) = Inf t"

fun f64_sub :: "f64 \<Rightarrow> f64 \<Rightarrow> f64" where
  "f64_sub a (Fin b) = f64_add a (Fin (- b))"
| "f64_sub a (Inf t) = f64_add a (Inf (\<not> t))"
| "f64_sub a NaN = NaN"

definition f64_lt :: "f64 \<Rightarrow> f64 \<Rightarrow> bool" where
  "f64_lt a b \<longleftrightarrow> f64_le a b \<and> a \<noteq> b"

definition f64_max :: "f64 \<Rightarrow> f64 \<Rightarrow> f64" where
  "f64_max a b = (if a = NaN then b else if b = NaN then a else if f64_le a b then b else a)"

definition as_secs_f64 :: "nanos \<Rightarrow> f64" where
  "as_secs_f64 d = f64_add (fl (of_nat (d div 10 ^ 9))) (f64_div (fl (of_nat (d mod 10 ^ 9))) (fl (10 ^ 9)))"

definition finite_only :: "f64 option \<Rightarrow> f64 option" where
  "finite_only v = (case v of Some v \<Rightarrow> if is_finite v then Some v else None | None \<Rightarrow> None)"

section \<open>One scrape\<close>

datatype scrape_failure = ScrapeConnect | ScrapeTimeout | ScrapeUnauthorized | ScrapeHttpStatus u16 | ScrapeBadBody

datatype reported_health = ReportedUp | ReportedDown | ReportedOutOfService | ReportedUnknown

definition health_from_status :: "string \<Rightarrow> reported_health" where
  "health_from_status status = (if status = ''UP'' then ReportedUp else if status = ''DOWN'' then ReportedDown
     else if status = ''OUT_OF_SERVICE'' then ReportedOutOfService else ReportedUnknown)"

datatype agent_health = HealthReported reported_health | HealthUnreachable scrape_failure

datatype 'a meter_value = Published 'a | NotPublished | MeterUnavailable

definition meter_finite :: "f64 meter_value \<Rightarrow> f64 option" where
  "meter_finite m = (case m of Published v \<Rightarrow> if is_finite v then Some v else None | NotPublished \<Rightarrow> None | MeterUnavailable \<Rightarrow> None)"

record timer_totals =
  tt_count :: f64
  tt_total_seconds :: f64

record meters =
  mt_heap_used :: "f64 meter_value"
  mt_heap_max :: "f64 meter_value"
  mt_cpu_usage :: "f64 meter_value"
  mt_live_threads :: "f64 meter_value"
  mt_gc_pause_seconds :: "f64 meter_value"
  mt_http_requests :: "timer_totals meter_value"
  mt_http_server_errors :: "f64 meter_value"
  mt_db_connections_active :: "f64 meter_value"
  mt_uptime_seconds :: "f64 meter_value"

record reached_scrape =
  rs_health :: reported_health
  rs_version :: "nat list option"
  rs_meters :: meters
  rs_own_requests :: u32

datatype raw_scrape = RawUnreachable scrape_failure | RawReached reached_scrape

definition agent_version_parse :: "nat list \<Rightarrow> application_version option" where
  "agent_version_parse raw = (let cut = take 64 raw in if list_all is_whitespace cut then None else Some (ApplicationVersion cut))"

definition gauges_from_values :: "(application_gauge \<times> f64 option) list \<Rightarrow> gauges" where
  "gauges_from_values vs = foldl (\<lambda>m (g, v). om_insert m g v) []
     (List.map_filter (\<lambda>(g, v). map_option (Pair g) (finite_only v)) vs)"

datatype agent_report = ReportUnreachable scrape_failure | Reached reported_health "application_version option" gauges

definition report_health :: "agent_report \<Rightarrow> agent_health" where
  "report_health r = (case r of ReportUnreachable failure \<Rightarrow> HealthUnreachable failure | Reached h _ _ \<Rightarrow> HealthReported h)"

record counter_sample =
  cs_value :: f64
  cs_at :: instant

definition rate_per_second :: "counter_sample option \<Rightarrow> counter_sample \<Rightarrow> f64 option" where
  "rate_per_second prev cur = (case prev of
       None \<Rightarrow> None
     | Some prev \<Rightarrow>
         if f64_lt (cs_value cur) (cs_value prev) then None
         else if cs_at cur < cs_at prev then None
         else finite_only (Some (f64_div (f64_sub (cs_value cur) (cs_value prev)) (as_secs_f64 (cs_at cur - cs_at prev)))))"

record counters =
  ct_requests :: "f64 option"
  ct_request_seconds :: "f64 option"
  ct_server_errors :: "f64 option"
  ct_gc_pause_seconds :: "f64 option"
  ct_uptime_seconds :: "f64 option"

definition counters_of :: "meters \<Rightarrow> counters" where
  "counters_of m =
     (let (requests, request_seconds) = (case mt_http_requests m of
            Published timer \<Rightarrow> (finite_only (Some (tt_count timer)), finite_only (Some (tt_total_seconds timer)))
          | NotPublished \<Rightarrow> (None, None)
          | MeterUnavailable \<Rightarrow> (None, None));
          server_errors = (if mt_http_server_errors m = NotPublished \<and> requests \<noteq> None then Some (Fin 0)
            else meter_finite (mt_http_server_errors m))
      in \<lparr>ct_requests = requests, ct_request_seconds = request_seconds, ct_server_errors = server_errors,
          ct_gc_pause_seconds = meter_finite (mt_gc_pause_seconds m), ct_uptime_seconds = meter_finite (mt_uptime_seconds m)\<rparr>)"

definition went_down :: "f64 option \<times> f64 option \<Rightarrow> bool" where
  "went_down p = (case p of (Some prev, Some cur) \<Rightarrow> f64_lt cur prev | _ \<Rightarrow> False)"

definition reset_before :: "counters \<Rightarrow> counters \<Rightarrow> bool" where
  "reset_before c d \<longleftrightarrow> list_ex went_down
     [(ct_requests c, ct_requests d), (ct_request_seconds c, ct_request_seconds d), (ct_server_errors c, ct_server_errors d),
      (ct_gc_pause_seconds c, ct_gc_pause_seconds d), (ct_uptime_seconds c, ct_uptime_seconds d)]"

record baseline =
  bl_counters :: counters
  bl_at :: instant
  bl_own_requests :: u32

record rates =
  ra_requests_per_second :: "f64 option"
  ra_server_errors_per_second :: "f64 option"
  ra_mean_latency_ms :: "f64 option"
  ra_gc_pause_percent :: "f64 option"

definition rates_default :: rates where
  "rates_default = \<lparr>ra_requests_per_second = None, ra_server_errors_per_second = None, ra_mean_latency_ms = None, ra_gc_pause_percent = None\<rparr>"

definition counter_delta :: "f64 option \<Rightarrow> f64 option \<Rightarrow> f64 option" where
  "counter_delta prev cur = (case (prev, cur) of (Some prev, Some cur) \<Rightarrow> Some (f64_sub cur prev) | _ \<Rightarrow> None)"

definition mean_latency_ms :: "baseline \<Rightarrow> counters \<Rightarrow> f64 option" where
  "mean_latency_ms b c = Option.bind (counter_delta (ct_requests (bl_counters b)) (ct_requests c)) (\<lambda>count.
     Option.bind (counter_delta (ct_request_seconds (bl_counters b)) (ct_request_seconds c)) (\<lambda>seconds.
       if f64_lt (Fin 0) count then Some (f64_mul (f64_div seconds count) (fl 1000)) else None))"

definition rate_between :: "baseline \<Rightarrow> instant \<Rightarrow> f64 option \<Rightarrow> f64 option \<Rightarrow> f64 option" where
  "rate_between b now prev cur = (case cur of
       None \<Rightarrow> None
     | Some cur \<Rightarrow> rate_per_second (map_option (\<lambda>v. \<lparr>cs_value = v, cs_at = bl_at b\<rparr>) prev) \<lparr>cs_value = cur, cs_at = now\<rparr>)"

definition net_requests :: "baseline \<Rightarrow> counters \<Rightarrow> f64 option" where
  "net_requests b c = (case (ct_requests c, ct_requests (bl_counters b)) of
       (Some cur, Some prev) \<Rightarrow> Some (f64_max (f64_sub cur (Fin (of_nat (unat (bl_own_requests b))))) prev)
     | _ \<Rightarrow> None)"

definition rates_to :: "baseline \<Rightarrow> counters \<Rightarrow> instant \<Rightarrow> rates" where
  "rates_to b c now = \<lparr>ra_requests_per_second = rate_between b now (ct_requests (bl_counters b)) (net_requests b c),
     ra_server_errors_per_second = rate_between b now (ct_server_errors (bl_counters b)) (ct_server_errors c),
     ra_mean_latency_ms = mean_latency_ms b c,
     ra_gc_pause_percent = map_option (\<lambda>rate. f64_mul rate (fl 100))
       (rate_between b now (ct_gc_pause_seconds (bl_counters b)) (ct_gc_pause_seconds c))\<rparr>"

definition non_negative :: "f64 meter_value \<Rightarrow> f64 option" where
  "non_negative m = (case meter_finite m of Some v \<Rightarrow> if f64_le (Fin 0) v then Some v else None | None \<Rightarrow> None)"

definition derive_gauge :: "application_gauge \<Rightarrow> meters \<Rightarrow> rates \<Rightarrow> f64 option" where
  "derive_gauge g m r = (case g of
       HeapUsedBytes \<Rightarrow> meter_finite (mt_heap_used m)
     | HeapMaxBytes \<Rightarrow> non_negative (mt_heap_max m)
     | CpuPercent \<Rightarrow> map_option (\<lambda>usage. f64_mul usage (fl 100)) (non_negative (mt_cpu_usage m))
     | LiveThreads \<Rightarrow> meter_finite (mt_live_threads m)
     | GcPausePercent \<Rightarrow> ra_gc_pause_percent r
     | HttpRequestsPerSecond \<Rightarrow> ra_requests_per_second r
     | HttpServerErrorsPerSecond \<Rightarrow> ra_server_errors_per_second r
     | HttpMeanLatencyMs \<Rightarrow> ra_mean_latency_ms r
     | DbConnectionsActive \<Rightarrow> meter_finite (mt_db_connections_active m)
     | UptimeSeconds \<Rightarrow> meter_finite (mt_uptime_seconds m))"

datatype scrape_history = ScrapeHistory (hi_baseline: "baseline option")

definition history_default :: scrape_history where
  "history_default = ScrapeHistory None"

definition history_fold :: "scrape_history \<Rightarrow> reached_scrape \<Rightarrow> instant \<Rightarrow> scrape_history \<times> agent_report" where
  "history_fold h scrape now =
     (let counters = counters_of (rs_meters scrape);
          rates = (case hi_baseline h of
              Some b \<Rightarrow> if reset_before (bl_counters b) counters then rates_default else rates_to b counters now
            | None \<Rightarrow> rates_default);
          gauges = gauges_from_values (map (\<lambda>g. (g, derive_gauge g (rs_meters scrape) rates)) all_gauges)
      in (ScrapeHistory (Some \<lparr>bl_counters = counters, bl_at = now, bl_own_requests = rs_own_requests scrape\<rparr>),
          Reached (rs_health scrape) (Option.bind (rs_version scrape) agent_version_parse) gauges))"

definition history_advance :: "scrape_history \<Rightarrow> raw_scrape \<Rightarrow> instant \<Rightarrow> scrape_history \<times> agent_report" where
  "history_advance h raw now = (case raw of
       RawUnreachable failure \<Rightarrow> (history_default, ReportUnreachable failure)
     | RawReached scrape \<Rightarrow> history_fold h scrape now)"

section \<open>Rounds\<close>

datatype round_sequence = RoundSequence (rq_run: u128) (rq_minted: u64)

definition round_sequence_new :: "u128 \<Rightarrow> round_sequence" where
  "round_sequence_new run = RoundSequence run 0"

definition round_mint :: "round_sequence \<Rightarrow> round_id \<times> round_sequence" where
  "round_mint q = (let minted = rq_minted q + 1 in (RoundId (rq_run q) minted, RoundSequence (rq_run q) minted))"

datatype agent_app_name = AgentAppName (agent_app: string)

definition agent_app_name_parse :: "string \<Rightarrow> agent_app_name option" where
  "agent_app_name_parse v =
     (let allowed = (\<lambda>b. is_ascii_alphanumeric b \<or> b = CHR ''_'' \<or> b = CHR ''.'' \<or> b = CHR ''-'');
          valid = 1 \<le> length v \<and> length v \<le> 64 \<and> list_all allowed v \<and> v \<noteq> ''.'' \<and> v \<noteq> ''..''
      in if valid then Some (AgentAppName v) else None)"

definition agent_interval_parse :: "u64 option \<Rightarrow> u64 option" where
  "agent_interval_parse v = (case v of None \<Rightarrow> Some 15 | Some secs \<Rightarrow> if 10 \<le> secs \<and> secs \<le> 3600 then Some secs else None)"

record named_report =
  nr_name :: agent_app_name
  nr_report :: agent_report

record agent_round =
  ao_id :: round_id
  ao_interval :: u64
  ao_scraped_at :: u64
  ao_applications :: "named_report list"

datatype health_change = BecameUnreachable scrape_failure | Recovered

definition health_change_of :: "agent_health option \<Rightarrow> agent_health \<Rightarrow> health_change option" where
  "health_change_of previous current = (case (previous, current) of
       (Some (HealthUnreachable _), HealthUnreachable _) \<Rightarrow> None
     | (_, HealthUnreachable failure) \<Rightarrow> Some (BecameUnreachable failure)
     | (Some (HealthUnreachable _), HealthReported _) \<Rightarrow> Some Recovered
     | (_, HealthReported _) \<Rightarrow> None)"

record watched_application =
  wa_target :: agent_app_name
  wa_history :: scrape_history
  wa_last_health :: "agent_health option"

definition watched_new :: "agent_app_name \<Rightarrow> watched_application" where
  "watched_new target = \<lparr>wa_target = target, wa_history = history_default, wa_last_health = None\<rparr>"

definition watched_fold :: "watched_application \<Rightarrow> raw_scrape \<Rightarrow> instant \<Rightarrow> (named_report \<times> health_change option) \<times> watched_application" where
  "watched_fold a raw now = (case history_advance (wa_history a) raw now of (history, report) \<Rightarrow>
     let health = report_health report; change = health_change_of (wa_last_health a) health
     in ((\<lparr>nr_name = wa_target a, nr_report = report\<rparr>, change), a\<lparr>wa_history := history, wa_last_health := Some health\<rparr>))"

section \<open>The wire\<close>

text \<open>The map of gauges is ordered by wire name; the version is its characters.\<close>

record application_report_dto =
  rd_name :: string
  rd_health :: string
  rd_version :: "nat list option"
  rd_gauges :: "(string, f64) btree_map"

record application_frame =
  af_kind :: string
  af_run :: string
  af_seq :: u64
  af_interval_secs :: u64
  af_applications :: "application_report_dto list"

definition APPLICATION_FRAME_KIND :: string where
  "APPLICATION_FRAME_KIND = ''applications.v1''"

definition agent_health_wire_name :: "agent_health \<Rightarrow> string" where
  "agent_health_wire_name h = (case h of
       HealthReported ReportedUp \<Rightarrow> ''up'' | HealthReported ReportedDown \<Rightarrow> ''down''
     | HealthReported ReportedOutOfService \<Rightarrow> ''out_of_service'' | HealthReported ReportedUnknown \<Rightarrow> ''unknown''
     | HealthUnreachable _ \<Rightarrow> ''unreachable'')"

definition report_dto_of :: "named_report \<Rightarrow> application_report_dto" where
  "report_dto_of n = \<lparr>rd_name = agent_app (nr_name n), rd_health = agent_health_wire_name (report_health (nr_report n)),
     rd_version = (case nr_report n of Reached _ version _ \<Rightarrow> map_option version_chars version | ReportUnreachable _ \<Rightarrow> None),
     rd_gauges = (case nr_report n of
        Reached _ _ gauges \<Rightarrow> foldl (\<lambda>m (name, v). om_insert m name v) [] (map (\<lambda>(g, v). (gauge_wire_name g, v)) gauges)
      | ReportUnreachable _ \<Rightarrow> [])\<rparr>"

definition frame_of :: "(u128 \<Rightarrow> string) \<Rightarrow> agent_round \<Rightarrow> application_frame" where
  "frame_of uuid r = \<lparr>af_kind = APPLICATION_FRAME_KIND, af_run = uuid (rid_run (ao_id r)), af_seq = rid_seq (ao_id r),
     af_interval_secs = ao_interval r, af_applications = map report_dto_of (ao_applications r)\<rparr>"

definition application_report_try_from :: "application_report_dto \<Rightarrow> scrape_round_error + application_report" where
  "application_report_try_from dto = rbind (ok_or InvalidApplicationName (application_name_parse (rd_name dto))) (\<lambda>name.
     Inr \<lparr>rp_name = name, rp_health = health_from_wire (rd_health dto),
       rp_version = Option.bind (rd_version dto) application_version_parse, rp_gauges = gauges_from_wire (rd_gauges dto)\<rparr>)"

definition build_round :: "(string \<Rightarrow> u128 option) \<Rightarrow> string \<Rightarrow> u64 \<Rightarrow> u64 \<Rightarrow> application_report_dto list \<Rightarrow> scrape_round_error + scrape_round" where
  "build_round uuid_parse run sq secs apps = rbind (round_id_parse uuid_parse run sq) (\<lambda>i.
     rbind (scrape_interval_from_secs secs) (\<lambda>interval.
     rbind (map_result application_report_try_from apps) (\<lambda>apps. scrape_round_new i interval apps)))"

datatype frame_refusal = FrameUnknownKind | FrameRound scrape_round_error

definition round_of_frame :: "(string \<Rightarrow> u128 option) \<Rightarrow> application_frame \<Rightarrow> frame_refusal + scrape_round" where
  "round_of_frame uuid_parse frame = (if af_kind frame \<noteq> APPLICATION_FRAME_KIND then Inl FrameUnknownKind
     else map_err FrameRound (build_round uuid_parse (af_run frame) (af_seq frame) (af_interval_secs frame) (af_applications frame)))"

record applications_response =
  ax_round :: "(string \<times> u64) option"
  ax_interval_secs :: "u64 option"
  ax_applications :: "application_report_dto list"

datatype polled_round = NoRound | PolledRound scrape_round

definition polled_round_try_from :: "(string \<Rightarrow> u128 option) \<Rightarrow> applications_response \<Rightarrow> scrape_round_error + polled_round" where
  "polled_round_try_from uuid_parse response = (case ax_round response of
       None \<Rightarrow> Inr NoRound
     | Some (run, sq) \<Rightarrow> rbind (ok_or InvalidInterval (ax_interval_secs response)) (\<lambda>secs.
         rbind (build_round uuid_parse run sq secs (ax_applications response)) (\<lambda>r. Inr (PolledRound r))))"

section \<open>Gauges\<close>

definition gauges_ok :: "gauges \<Rightarrow> bool" where
  "gauges_ok gs \<longleftrightarrow> om_valid gs \<and> (\<forall>(_, v)\<in>set gs. is_finite v)"

lemma gauge_from_wire_name [simp]: "gauge_from_wire (gauge_wire_name g) = Some g"
  by (cases g) (simp_all add: gauge_from_wire_def all_gauges_def gauge_wire_name_def)

lemma wire_gauges:
  assumes "gauges_ok gs"
  shows "gauges_from_wire (foldl (\<lambda>m (name, v). om_insert m name v) [] (map (\<lambda>(g, v). (gauge_wire_name g, v)) gs)) = gs"
proof -
  let ?named = "map (\<lambda>(g, v). (gauge_wire_name g, v)) gs"
  let ?wire = "foldl (\<lambda>m (name, v). om_insert m name v) [] ?named"
  have valid: "om_valid gs" and fin: "\<forall>(_, v)\<in>set gs. is_finite v" using assms by (simp_all add: gauges_ok_def)
  have "distinct (map gauge_wire_name (map fst gs))"
    using om_valid_distinct [OF valid] by (simp add: distinct_map inj_on_def gauge_wire_name_inject del: map_map)
  moreover have "map fst ?named = map gauge_wire_name (map fst gs)" by (simp add: split_beta)
  ultimately have "distinct (map fst ?named)" by metis
  then have wire: "set ?wire = set ?named" by (rule om_collect_set)
  let ?read = "List.map_filter (\<lambda>(name, v). map_option (\<lambda>g. (g, v)) (gauge_from_wire name)) (filter (\<lambda>(_, v). is_finite v) ?wire)"
  let ?name = "\<lambda>(g, v :: f64). (gauge_wire_name g, v)"
  have plain: "filter (\<lambda>(_, v). is_finite v) ?wire = ?wire" using fin wire by (intro filter_True) force
  have "map ?name (List.map_filter (\<lambda>(name, v). map_option (\<lambda>g. (g, v)) (gauge_from_wire name)) ws) = ws" if "set ws \<subseteq> set ?named" for ws
    using that by (induction ws) (auto simp: map_filter_simps)
  then have renamed: "map ?name ?read = ?wire" using wire unfolding plain by blast
  have "?name ` set ?read = set (map ?name ?read)" by (rule set_map [symmetric])
  also have "\<dots> = ?name ` set gs" unfolding renamed wire by (rule set_map)
  finally have "?name ` set ?read = ?name ` set gs" .
  moreover have "inj ?name" by (auto simp: inj_def gauge_wire_name_inject)
  ultimately have same: "set ?read = set gs" by (simp add: inj_image_eq_iff)
  have "distinct (map fst (map ?name ?read))"
    using om_valid_distinct [OF om_valid_collect [OF om_valid_Nil, of ?named]] unfolding renamed .
  then have "distinct (map gauge_wire_name (map fst ?read))" by (simp add: split_beta comp_def)
  then have "distinct (map fst ?read)" by (simp only: distinct_map)
  then show ?thesis unfolding gauges_from_wire_def using om_collect_eq [OF valid _ same] by simp
qed

section \<open>Reports on the wire\<close>

definition agent_report_ok :: "agent_report \<Rightarrow> bool" where
  "agent_report_ok r = (case r of ReportUnreachable _ \<Rightarrow> True
     | Reached _ version gs \<Rightarrow> gauges_ok gs \<and> (\<forall>v. version = Some v \<longrightarrow> (\<exists>raw. agent_version_parse raw = Some v)))"

lemma agent_version_parse_again: "agent_version_parse raw = Some v \<Longrightarrow> application_version_parse (version_chars v) = Some v"
  by (auto simp: agent_version_parse_def application_version_parse_def Let_def split: if_splits)

lemma gauges_from_values_in:
  assumes "(g, v) \<in> set (gauges_from_values vs)"
  shows "(g, Some v) \<in> set vs \<and> is_finite v"
proof -
  have "(g, v) \<in> set m \<union> set xs" if "(g, v) \<in> set (foldl (\<lambda>m (g, v). om_insert m g v) m xs)" for m :: gauges and xs
    using that
  proof (induction xs arbitrary: m)
    case (Cons x xs)
    have "set (om_insert m (fst x) (snd x)) \<subseteq> insert x (set m)" by (induction m) auto
    then show ?case using Cons.IH [of "om_insert m (fst x) (snd x)"] Cons.prems by (auto simp: split_beta)
  qed simp
  from this [of "[]"] assms have "(g, v) \<in> set (List.map_filter (\<lambda>(g, v). map_option (Pair g) (finite_only v)) vs)"
    by (simp add: gauges_from_values_def)
  then show ?thesis by (auto simp: map_filter_def finite_only_def split: option.splits if_splits)
qed

lemma gauges_from_values_ok: "gauges_ok (gauges_from_values vs)"
proof -
  have "om_valid (gauges_from_values vs)" unfolding gauges_from_values_def by (rule om_valid_collect) simp
  then show ?thesis using gauges_from_values_in by (fastforce simp: gauges_ok_def)
qed

lemma history_advance_ok: "agent_report_ok (snd (history_advance h raw now))"
  using gauges_from_values_ok
  by (auto simp: history_advance_def history_fold_def agent_report_ok_def Let_def bind_eq_Some_conv split: raw_scrape.splits)

text \<open>What the hub holds of an agent's report.\<close>

definition hub_health :: "agent_health \<Rightarrow> application_health" where
  "hub_health h = (case h of HealthReported ReportedUp \<Rightarrow> Up | HealthReported ReportedDown \<Rightarrow> Down
     | HealthReported ReportedOutOfService \<Rightarrow> OutOfService | HealthReported ReportedUnknown \<Rightarrow> HealthUnknown
     | HealthUnreachable _ \<Rightarrow> Unreachable)"

definition hub_view :: "named_report \<Rightarrow> application_report" where
  "hub_view n = \<lparr>rp_name = ApplicationName (agent_app (nr_name n)), rp_health = hub_health (report_health (nr_report n)),
     rp_version = (case nr_report n of Reached _ version _ \<Rightarrow> version | ReportUnreachable _ \<Rightarrow> None),
     rp_gauges = (case nr_report n of Reached _ _ gauges \<Rightarrow> gauges | ReportUnreachable _ \<Rightarrow> [])\<rparr>"

lemma health_wire: "health_from_wire (agent_health_wire_name h) = hub_health h"
  by (cases h) (auto simp: agent_health_wire_name_def health_from_wire_def hub_health_def split: reported_health.splits)

lemma report_dto_view:
  assumes "agent_app_name_parse v = Some (nr_name n)" and "agent_report_ok (nr_report n)"
  shows "application_report_try_from (report_dto_of n) = Inr (hub_view n)"
proof -
  have name: "application_name_parse (agent_app (nr_name n)) = Some (ApplicationName (agent_app (nr_name n)))"
    using assms(1) by (cases "nr_name n") (auto simp: agent_app_name_parse_def application_name_parse_def Let_def split: if_splits)
  show ?thesis
  proof (cases "nr_report n")
    case (ReportUnreachable failure)
    then show ?thesis
      by (simp add: application_report_try_from_def report_dto_of_def name ok_or_def health_wire hub_view_def gauges_from_wire_def map_filter_simps)
  next
    case (Reached h version gs)
    then have gs: "gauges_ok gs" and version: "version = Some v \<Longrightarrow> \<exists>raw. agent_version_parse raw = Some v" for v
      using assms(2) by (simp_all add: agent_report_ok_def)
    have "Option.bind (map_option version_chars version) application_version_parse = version"
      using version agent_version_parse_again by (cases version) auto
    then show ?thesis using Reached wire_gauges [OF gs]
      by (simp add: application_report_try_from_def report_dto_of_def name ok_or_def health_wire hub_view_def)
  qed
qed

lemma all_inserted_distinct: "all_inserted xs names \<longleftrightarrow> distinct xs \<and> set xs \<inter> names = {}"
  by (induction xs arbitrary: names) auto

section \<open>Rates\<close>

lemma fl_not_neg: "0 \<le> q \<Longrightarrow> \<not> f64_neg (fl q)"
  using fl_magnitude_nonneg [of q] by (auto simp: fl_def Let_def)

lemma f64_div_not_neg: "\<not> f64_neg a \<Longrightarrow> \<not> f64_neg b \<Longrightarrow> \<not> f64_neg (f64_div a b)"
  using fl_not_neg by (cases a; cases b) auto

lemma f64_mul_not_neg: "\<not> f64_neg a \<Longrightarrow> \<not> f64_neg b \<Longrightarrow> \<not> f64_neg (f64_mul a b)"
  using fl_not_neg by (cases a; cases b) auto

lemma f64_add_not_neg: "\<not> f64_neg a \<Longrightarrow> \<not> f64_neg b \<Longrightarrow> \<not> f64_neg (f64_add a b)"
  using fl_not_neg by (cases a; cases b) auto

lemma f64_sub_not_neg: "\<not> f64_lt a (Fin b) \<Longrightarrow> \<not> f64_neg (f64_sub a (Fin b))"
  using fl_not_neg by (cases a) (auto simp: f64_lt_def)

lemma as_secs_not_neg: "\<not> f64_neg (as_secs_f64 d)"
  unfolding as_secs_f64_def by (intro f64_add_not_neg f64_div_not_neg fl_not_neg) simp_all

lemmas not_neg = f64_div_not_neg f64_mul_not_neg f64_sub_not_neg as_secs_not_neg fl_not_neg

declare f64_sub.simps [simp del]

definition counter_ok :: "f64 option \<Rightarrow> bool" where
  "counter_ok c \<longleftrightarrow> (\<forall>v. c = Some v \<longrightarrow> is_finite v)"

definition counters_ok :: "counters \<Rightarrow> bool" where
  "counters_ok c \<longleftrightarrow> counter_ok (ct_requests c) \<and> counter_ok (ct_request_seconds c) \<and> counter_ok (ct_server_errors c)
     \<and> counter_ok (ct_gc_pause_seconds c) \<and> counter_ok (ct_uptime_seconds c)"

lemma counter_okE: "counter_ok c \<Longrightarrow> c = Some v \<Longrightarrow> \<exists>q. v = Fin q"
  by (cases v) (auto simp: counter_ok_def)

lemma meter_finite_ok: "counter_ok (meter_finite m)"
  by (auto simp: counter_ok_def meter_finite_def split: meter_value.splits if_splits)

lemma counters_of_ok: "counters_ok (counters_of m)"
  using meter_finite_ok by (auto simp: counters_ok_def counters_of_def Let_def counter_ok_def finite_only_def split: meter_value.splits if_splits)

lemma rate_not_neg:
  assumes "counter_ok prev" and "rate_between b now prev cur = Some v"
  shows "\<not> f64_neg v"
proof -
  obtain p c where v: "prev = Some p" "cur = Some c" "\<not> f64_lt c p" "v = f64_div (f64_sub c p) (as_secs_f64 (now - bl_at b))"
    using assms(2) by (auto simp: rate_between_def rate_per_second_def finite_only_def split: option.splits if_splits)
  obtain q where "p = Fin q" using counter_okE [OF assms(1) v(1)] by blast
  then show ?thesis using v by (simp add: not_neg)
qed

lemma latency_not_neg:
  assumes "counters_ok (bl_counters b)" and "\<not> reset_before (bl_counters b) c" and "mean_latency_ms b c = Some v"
  shows "\<not> f64_neg v"
proof -
  obtain prev cur count where v: "ct_request_seconds (bl_counters b) = Some prev" "ct_request_seconds c = Some cur" "f64_lt (Fin 0) count"
      "v = f64_mul (f64_div (f64_sub cur prev) count) (fl 1000)"
    using assms(3) by (auto simp: mean_latency_ms_def counter_delta_def bind_eq_Some_conv split: option.splits if_splits)
  obtain q where "prev = Fin q" using assms(1) counter_okE v(1) by (auto simp: counters_ok_def)
  moreover have "\<not> f64_lt cur prev" using assms(2) v(1,2) by (simp add: reset_before_def went_down_def)
  moreover have "\<not> f64_neg count" using v(3) by (cases count) (auto simp: f64_lt_def)
  ultimately show ?thesis using v(4) by (simp add: not_neg)
qed

text \<open>The history a sequence of scrapes leaves.\<close>

definition history_of :: "(raw_scrape \<times> instant) list \<Rightarrow> scrape_history" where
  "history_of xs = foldl (\<lambda>h (raw, now). fst (history_advance h raw now)) history_default xs"

lemma history_of_baseline:
  assumes "hi_baseline (history_of xs) = Some b"
  shows "xs \<noteq> [] \<and> (\<exists>scrape. fst (last xs) = RawReached scrape \<and> bl_counters b = counters_of (rs_meters scrape))"
  using assms
  by (cases xs rule: rev_cases)
     (auto simp: history_of_def history_default_def history_advance_def history_fold_def Let_def split: raw_scrape.splits prod.splits)

definition rate_gauges :: "application_gauge set" where
  "rate_gauges = {GcPausePercent, HttpRequestsPerSecond, HttpServerErrorsPerSecond, HttpMeanLatencyMs}"

lemma derive_not_neg:
  assumes "derive_gauge g m r = Some v" and "r = rates_default \<or> (\<exists>b c now. r = rates_to b c now \<and> counters_ok (bl_counters b) \<and> \<not> reset_before (bl_counters b) c)"
    and "g \<notin> {HeapUsedBytes, LiveThreads, DbConnectionsActive, UptimeSeconds}"
  shows "\<not> f64_neg v"
proof (cases "g \<in> rate_gauges")
  case True
  then obtain b c now where r: "r = rates_to b c now" and ok: "counters_ok (bl_counters b)" "\<not> reset_before (bl_counters b) c"
    using assms(1,2) by (auto simp: rate_gauges_def derive_gauge_def rates_default_def)
  have "counter_ok (ct_requests (bl_counters b))" "counter_ok (ct_server_errors (bl_counters b))" "counter_ok (ct_gc_pause_seconds (bl_counters b))"
    using ok(1) by (simp_all add: counters_ok_def)
  then have "\<not> f64_neg z" if "rate_between b now x y = Some z" "x \<in> {ct_requests (bl_counters b), ct_server_errors (bl_counters b), ct_gc_pause_seconds (bl_counters b)}"
    for x y z using rate_not_neg that by blast
  then show ?thesis using True assms(1) latency_not_neg [OF ok]
    by (auto simp: rate_gauges_def r derive_gauge_def rates_to_def not_neg)
next
  case False
  have "\<not> f64_neg v" if "non_negative x = Some v" for x v
    using that by (cases v) (auto simp: non_negative_def split: option.splits if_splits)
  then show ?thesis using False assms(1,3)
    by (cases g) (auto simp: rate_gauges_def derive_gauge_def not_neg)
qed

section \<open>Properties\<close>

text \<open>C30. A round the agent scrapes is the round the hub stores: for at most sixteen applications with
  distinct valid names, whatever each scrape read, the frame of the round is accepted and gives the
  round's id, its interval and, in order, every application's name, health, version and gauges.\<close>

theorem round_wire_exact:
  assumes "\<And>u. uuid_parse (uuid u) = Some u" and "\<And>a. a \<in> set (map fst scrapes) \<Longrightarrow> \<exists>v. agent_app_name_parse v = Some (wa_target a)"
    and "distinct (map (wa_target \<circ> fst) scrapes)" and "length scrapes \<le> 16" and "agent_interval_parse iv = Some secs"
    and "r = \<lparr>ao_id = i, ao_interval = secs, ao_scraped_at = finished,
          ao_applications = map (\<lambda>(a, raw, now). fst (fst (watched_fold a raw now))) scrapes\<rparr>"
  shows "round_of_frame uuid_parse (frame_of uuid r)
    = Inr \<lparr>sr_id = i, sr_interval = ScrapeInterval secs, sr_applications = map hub_view (ao_applications r)\<rparr>"
proof -
  let ?fold = "\<lambda>(a, raw, now). fst (fst (watched_fold a raw now))"
  have fold: "nr_name (?fold x) = wa_target (fst x)" "agent_report_ok (nr_report (?fold x))" for x
    using history_advance_ok by (auto simp: watched_fold_def Let_def split_beta)
  have reports: "map_result application_report_try_from (map report_dto_of (map ?fold scrapes)) = Inr (map (hub_view \<circ> ?fold) scrapes)"
  proof -
    have "application_report_try_from (report_dto_of (?fold x)) = Inr (hub_view (?fold x))" if x: "x \<in> set scrapes" for x
    proof -
      obtain v where "agent_app_name_parse v = Some (wa_target (fst x))" using assms(2) [of "fst x"] x by auto
      then show ?thesis using report_dto_view [of v "?fold x"] fold [of x] by simp
    qed
    then show ?thesis
      using map_result_Inr [of scrapes application_report_try_from "report_dto_of \<circ> ?fold" "hub_view \<circ> ?fold"] by simp
  qed
  have "map rp_name (map (hub_view \<circ> ?fold) scrapes) = map (ApplicationName \<circ> agent_app) (map (wa_target \<circ> fst) scrapes)"
    using fold by (simp add: hub_view_def comp_def)
  moreover have "inj (ApplicationName \<circ> agent_app)" by (rule injI) (simp add: agent_app_name.expand)
  ultimately have "distinct (map rp_name (map (hub_view \<circ> ?fold) scrapes))"
    using assms(3) by (metis distinct_map inj_on_subset subset_UNIV)
  then have round: "scrape_round_new i (ScrapeInterval secs) (map (hub_view \<circ> ?fold) scrapes)
      = Inr \<lparr>sr_id = i, sr_interval = ScrapeInterval secs, sr_applications = map (hub_view \<circ> ?fold) scrapes\<rparr>"
    using assms(4) by (simp add: scrape_round_new_def MAX_APPLICATIONS_def all_inserted_distinct)
  have "scrape_interval_from_secs secs = Inr (ScrapeInterval secs)"
    using assms(5) by (auto simp: agent_interval_parse_def scrape_interval_from_secs_def split: option.splits if_splits)
  then show ?thesis
    using reports round assms(1) by (cases i) (simp add: assms(6) round_of_frame_def frame_of_def build_round_def round_id_parse_def ok_or_def map_err_def)
qed

theorem round_wire_exact_witness:
  "round_of_frame (\<lambda>s. Some (of_nat (digits_value s))) (frame_of (\<lambda>u. show_nat (unat u))
      \<lparr>ao_id = RoundId 7 1, ao_interval = 15, ao_scraped_at = 0,
        ao_applications = [fst (fst (watched_fold (watched_new (AgentAppName ''web'')) (RawUnreachable ScrapeTimeout) 0))]\<rparr>)
    = Inr \<lparr>sr_id = RoundId 7 1, sr_interval = ScrapeInterval 15, sr_applications =
        [\<lparr>rp_name = ApplicationName ''web'', rp_health = Unreachable, rp_version = None, rp_gauges = []\<rparr>]\<rparr>"
proof -
  have name: "agent_app_name_parse ''web'' = Some (AgentAppName ''web'')"
    by (simp add: agent_app_name_parse_def is_ascii_alphanumeric_def)
  show ?thesis
    using round_wire_exact [of "\<lambda>s. Some (of_nat (digits_value s))" "\<lambda>u. show_nat (unat u)"
        "[(watched_new (AgentAppName ''web''), RawUnreachable ScrapeTimeout, 0)]" None 15 _ "RoundId 7 1" 0] name
    by (auto simp: watched_new_def agent_interval_parse_def hub_view_def watched_fold_def history_advance_def Let_def report_health_def hub_health_def)
qed

text \<open>C31. The gauges of a report are sound: whatever the scrapes read, every value is a finite number, the
  rates, the latency, the processor share and the heap's limit are never negative, and a rate is there
  only against the scrape just before, when that one reached the application and no counter has gone
  down since.\<close>

theorem gauges_sound:
  assumes "history_advance (history_of xs) (RawReached scrape) now = (h, Reached health version gs)" and "(g, v) \<in> set gs"
  shows "\<exists>q. v = Fin q \<and> (g \<notin> {HeapUsedBytes, LiveThreads, DbConnectionsActive, UptimeSeconds} \<longrightarrow> 0 \<le> q)
    \<and> (g \<in> rate_gauges \<longrightarrow> xs \<noteq> [] \<and> (\<exists>before. fst (last xs) = RawReached before
         \<and> \<not> reset_before (counters_of (rs_meters before)) (counters_of (rs_meters scrape))))"
proof -
  define r where "r = (case hi_baseline (history_of xs) of
      Some b \<Rightarrow> if reset_before (bl_counters b) (counters_of (rs_meters scrape)) then rates_default else rates_to b (counters_of (rs_meters scrape)) now
    | None \<Rightarrow> rates_default)"
  have "gs = gauges_from_values (map (\<lambda>g. (g, derive_gauge g (rs_meters scrape) r)) all_gauges)"
    using assms(1) by (simp add: history_advance_def history_fold_def Let_def r_def)
  then have v: "derive_gauge g (rs_meters scrape) r = Some v" "is_finite v" using gauges_from_values_in assms(2) by fastforce+
  then obtain q where q: "v = Fin q" by (cases v) auto
  have r: "r = rates_default \<or> (\<exists>b. hi_baseline (history_of xs) = Some b \<and> r = rates_to b (counters_of (rs_meters scrape)) now
      \<and> \<not> reset_before (bl_counters b) (counters_of (rs_meters scrape)))"
    by (auto simp: r_def split: option.splits)
  then have "\<not> f64_neg v" if "g \<notin> {HeapUsedBytes, LiveThreads, DbConnectionsActive, UptimeSeconds}"
    using derive_not_neg [OF v(1) _ that] history_of_baseline counters_of_ok by metis
  moreover have "r \<noteq> rates_default" if "g \<in> rate_gauges"
    using that v(1) by (auto simp: rate_gauges_def derive_gauge_def rates_default_def)
  ultimately show ?thesis using q r history_of_baseline by fastforce
qed

text \<open>Ten requests in two seconds, four of them the agent's own.\<close>

definition example_meters :: "rat \<Rightarrow> meters" where
  "example_meters n = \<lparr>mt_heap_used = NotPublished, mt_heap_max = NotPublished, mt_cpu_usage = NotPublished, mt_live_threads = NotPublished,
     mt_gc_pause_seconds = NotPublished, mt_http_requests = Published \<lparr>tt_count = Fin n, tt_total_seconds = Fin 0\<rparr>,
     mt_http_server_errors = NotPublished, mt_db_connections_active = NotPublished, mt_uptime_seconds = NotPublished\<rparr>"

definition example_scrape :: "rat \<Rightarrow> reached_scrape" where
  "example_scrape n = \<lparr>rs_health = ReportedUp, rs_version = None, rs_meters = example_meters n, rs_own_requests = 4\<rparr>"

lemma example_secs: "as_secs_f64 (2 * 10 ^ 9) = Fin 2"
  using fl_int [of 2] fl_int [of "10 ^ 9"] by (simp add: as_secs_f64_def fl_def)

lemma example_rate:
  "rate_between \<lparr>bl_counters = counters_of (example_meters 20), bl_at = 0, bl_own_requests = 4\<rparr> (2 * 10 ^ 9) (Some (Fin 20))
     (net_requests \<lparr>bl_counters = counters_of (example_meters 20), bl_at = 0, bl_own_requests = 4\<rparr> (counters_of (example_meters 30))) = Some (Fin 3)"
  using fl_int [of 26] fl_int [of 6] fl_int [of 3] example_secs
  by (simp add: rate_between_def net_requests_def counters_of_def example_meters_def finite_only_def rate_per_second_def f64_max_def f64_lt_def f64_sub.simps)

theorem gauges_sound_witness:
  "\<exists>h health version gs. history_advance (history_of [(RawReached (example_scrape 20), 0)]) (RawReached (example_scrape 30)) (2 * 10 ^ 9) = (h, Reached health version gs)
    \<and> (HttpRequestsPerSecond, Fin 3) \<in> set gs
    \<and> \<not> reset_before (counters_of (example_meters 20)) (counters_of (example_meters 30))"
proof -
  let ?b = "\<lparr>bl_counters = counters_of (example_meters 20), bl_at = 0, bl_own_requests = 4\<rparr>"
  define r where "r = rates_to ?b (counters_of (example_meters 30)) (2 * 10 ^ 9)"
  define gs where "gs = gauges_from_values (map (\<lambda>g. (g, derive_gauge g (example_meters 30) r)) all_gauges)"
  have r: "ra_requests_per_second r = Some (Fin 3)" using example_rate by (simp add: r_def rates_to_def) (simp add: counters_of_def example_meters_def finite_only_def)
  have "\<not> reset_before (counters_of (example_meters 20)) (counters_of (example_meters 30))"
    by (simp add: reset_before_def went_down_def counters_of_def example_meters_def finite_only_def f64_lt_def meter_finite_def)
  then obtain h where step: "history_advance (history_of [(RawReached (example_scrape 20), 0)]) (RawReached (example_scrape 30)) (2 * 10 ^ 9) = (h, Reached ReportedUp None gs)"
    by (simp add: history_of_def history_advance_def history_fold_def Let_def example_scrape_def gs_def r_def)
  have "(HttpRequestsPerSecond, Fin 3) \<in> set (List.map_filter (\<lambda>(g, v). map_option (Pair g) (finite_only v)) (map (\<lambda>g. (g, derive_gauge g (example_meters 30) r)) all_gauges))"
    using r by (auto simp: all_gauges_def map_filter_simps derive_gauge_def finite_only_def split: option.splits)
  moreover have "distinct (map fst (List.map_filter (\<lambda>(g, v). map_option (Pair g) (finite_only v)) (map (\<lambda>g. (g, derive_gauge g (example_meters 30) r)) gauges)))" if "distinct gauges" for gauges
    using that by (induction gauges) (auto simp: map_filter_def split: option.splits)
  moreover have "distinct all_gauges" by (simp add: all_gauges_def)
  ultimately have rate: "(HttpRequestsPerSecond, Fin 3) \<in> set gs"
    unfolding gs_def gauges_from_values_def by (simp only: om_collect_set)
  show ?thesis using gauges_sound [OF step rate] step rate by (auto simp: rate_gauges_def example_scrape_def)
qed

end
