(* ===== verification/Mail_Batch.thy ===== *)
theory Mail_Batch
  imports Alerts Agent_Rounds Registry
begin

text \<open>
  What the agent mails: the report and its parts (\<open>src/mail/report.rs\<close>), the batch that gathers samples
  and alert incidents between two reports and the pace of incident reports (\<open>src/mail/batch.rs\<close>), and
  when the client closes a batch (\<open>Client\<close> and \<open>run\<close> of \<open>src/mail/client.rs\<close>).  A string is its UTF-8
  bytes, an interval its seconds, an instant its nanoseconds; what is read on a tick (the published
  snapshot when it is fresh, the active alerts, the clocks, the newest round) is the tick's argument.
\<close>

section \<open>The report\<close>

definition MAX_ALERT_MESSAGE_BYTES :: nat where
  "MAX_ALERT_MESSAGE_BYTES = 512"

datatype mail_interval = MailInterval (mi_secs: u64)

datatype interval_out_of_range = IntervalOutOfRange

definition mail_interval_try_from :: "u64 \<Rightarrow> interval_out_of_range + mail_interval" where
  "mail_interval_try_from secs = (if 60 \<le> secs \<and> secs \<le> 86400 then Inr (MailInterval secs) else Inl IntervalOutOfRange)"

definition interval_nanos :: "mail_interval \<Rightarrow> nanos" where
  "interval_nanos i = unat (mi_secs i) * 10 ^ 9"

record mail_report_id =
  ri_run :: agent_run
  ri_seq :: u64

datatype report_reason = ReasonScheduled | ReasonIncident

record mailed_info =
  mo_hostname :: bytes
  mo_os_name :: bytes
  mo_kernel :: bytes
  mo_cpu_model :: bytes
  mo_cpu_cores :: u64

record mailed_sample =
  ms_collected_at :: u64
  ms_info :: mailed_info
  ms_cpu_percent :: f32
  ms_memory_percent :: f32
  ms_memory_used_bytes :: u64
  ms_memory_total_bytes :: u64
  ms_memory_total_display :: bytes
  ms_swap_percent :: f32
  ms_load :: "f64 \<times> f64 \<times> f64"
  ms_uptime_seconds :: u64
  ms_uptime_display :: bytes
  ms_disks :: "(bytes \<times> f32) list"

record mailed_alert =
  ma_id :: bytes
  ma_metric :: alert_metric
  ma_severity :: alert_severity
  ma_current_value :: f32
  ma_message :: bytes
  ma_fired_at :: bytes

definition is_char_boundary :: "bytes \<Rightarrow> nat \<Rightarrow> bool" where
  "is_char_boundary s n \<longleftrightarrow> n = 0 \<or> n = length s \<or> n < length s \<and> \<not> utf8_cont (s ! n)"

definition cut_to :: "bytes \<Rightarrow> nat \<Rightarrow> bytes" where
  "cut_to s limit = take (case find (is_char_boundary s) (rev [0..<Suc (min limit (length s))]) of Some e \<Rightarrow> e | None \<Rightarrow> 0) s"

definition mailed_alert_of :: "active_alert \<Rightarrow> mailed_alert" where
  "mailed_alert_of a = \<lparr>ma_id = str (aa_id a), ma_metric = ar_metric (aa_rule a), ma_severity = ar_severity (aa_rule a),
     ma_current_value = aa_current_value a, ma_message = cut_to (str (aa_message a)) MAX_ALERT_MESSAGE_BYTES,
     ma_fired_at = str (aa_fired_at a)\<rparr>"

record mail_report =
  mr_id :: mail_report_id
  mr_created_at :: u64
  mr_interval :: mail_interval
  mr_reason :: report_reason
  mr_snapshots :: "mailed_sample list"
  mr_alerts :: "mailed_alert list"
  mr_round :: "agent_round option"

section \<open>The batch\<close>

definition MAX_SAMPLES :: nat where
  "MAX_SAMPLES = 60"

definition MAX_ALERTS :: nat where
  "MAX_ALERTS = 64"

definition INCIDENT_SPACING :: nanos where
  "INCIDENT_SPACING = 60 * 10 ^ 9"

datatype sample_interval = SampleInterval (sample_nanos: nanos)

datatype sample_interval_out_of_range = SampleIntervalOutOfRange

definition sample_interval_new :: "u64 \<Rightarrow> mail_interval \<Rightarrow> sample_interval_out_of_range + sample_interval" where
  "sample_interval_new secs mail =
     (if 10 \<le> secs \<and> secs \<le> mi_secs mail \<and> div_ceil (unat (mi_secs mail)) (unat secs) \<le> MAX_SAMPLES
      then Inr (SampleInterval (unat secs * 10 ^ 9)) else Inl SampleIntervalOutOfRange)"

datatype offer = Kept | Skipped

record mail_batch =
  mb_run :: agent_run
  mb_next_seq :: u64
  mb_sample_interval :: sample_interval
  mb_last_kept :: "instant option"
  mb_samples :: "mailed_sample list"
  mb_alerts :: "mailed_alert list"
  mb_active :: "bytes list"

definition mail_batch_new :: "agent_run \<Rightarrow> sample_interval \<Rightarrow> mail_batch" where
  "mail_batch_new run interval = \<lparr>mb_run = run, mb_next_seq = 1, mb_sample_interval = interval, mb_last_kept = None,
     mb_samples = [], mb_alerts = [], mb_active = []\<rparr>"

definition batch_offer :: "mail_batch \<Rightarrow> mailed_sample \<Rightarrow> instant \<Rightarrow> offer \<times> mail_batch" where
  "batch_offer b sample now =
     (let due = (case mb_last_kept b of None \<Rightarrow> True | Some t \<Rightarrow> sample_nanos (mb_sample_interval b) \<le> now - t)
      in if \<not> due then (Skipped, b)
         else let samples = (if length (mb_samples b) = MAX_SAMPLES then tl (mb_samples b) else mb_samples b)
              in (Kept, b\<lparr>mb_samples := samples @ [sample], mb_last_kept := Some now\<rparr>))"

definition note_alert :: "mailed_alert list \<Rightarrow> active_alert \<Rightarrow> mailed_alert list" where
  "note_alert noted a =
     (if list_ex (\<lambda>n. ma_id n = str (aa_id a)) noted then noted
      else (if length noted = MAX_ALERTS then tl noted else noted) @ [mailed_alert_of a])"

definition batch_note_alerts :: "mail_batch \<Rightarrow> active_alert list \<Rightarrow> bool \<times> mail_batch" where
  "batch_note_alerts b alerts =
     (list_ex (\<lambda>a. str (aa_id a) \<notin> set (mb_active b)) alerts,
      b\<lparr>mb_active := map (\<lambda>a. str (aa_id a)) alerts, mb_alerts := foldl note_alert (mb_alerts b) alerts\<rparr>)"

definition batch_close :: "mail_batch \<Rightarrow> mail_interval \<Rightarrow> report_reason \<Rightarrow> u64 \<Rightarrow> agent_round option \<Rightarrow> mail_report option \<times> mail_batch" where
  "batch_close b interval reason created_at rnd =
     (if mb_samples b = [] then (None, b)
      else (Some \<lparr>mr_id = \<lparr>ri_run = mb_run b, ri_seq = mb_next_seq b\<rparr>, mr_created_at = created_at, mr_interval = interval,
              mr_reason = reason, mr_snapshots = mb_samples b, mr_alerts = mb_alerts b, mr_round = rnd\<rparr>,
            b\<lparr>mb_next_seq := mb_next_seq b + 1, mb_samples := [], mb_alerts := []\<rparr>))"

datatype incident_pace = IncidentPace (pace_last: "instant option")

definition pace_allows :: "incident_pace \<Rightarrow> instant \<Rightarrow> bool \<times> incident_pace" where
  "pace_allows p now =
     (let allowed = (case pace_last p of None \<Rightarrow> True | Some t \<Rightarrow> INCIDENT_SPACING \<le> now - t)
      in (allowed, if allowed then IncidentPace (Some now) else p))"

section \<open>The client\<close>

record mail_client =
  mc_batch :: mail_batch
  mc_pace :: incident_pace
  mc_next_report :: instant

definition client_new :: "agent_run \<Rightarrow> sample_interval \<Rightarrow> mail_interval \<Rightarrow> instant \<Rightarrow> mail_client" where
  "client_new run sampling interval now = \<lparr>mc_batch = mail_batch_new run sampling, mc_pace = IncidentPace None,
     mc_next_report = now + interval_nanos interval\<rparr>"

definition client_due :: "mail_client \<Rightarrow> instant \<Rightarrow> mail_interval \<Rightarrow> bool \<Rightarrow> report_reason option \<times> mail_client" where
  "client_due c now interval new_incident =
     (if mc_next_report c \<le> now then (Some ReasonScheduled, c\<lparr>mc_next_report := now + interval_nanos interval\<rparr>)
      else if new_incident then (case pace_allows (mc_pace c) now of
             (allowed, pace) \<Rightarrow> (if allowed then Some ReasonIncident else None, c\<lparr>mc_pace := pace\<rparr>))
      else (None, c))"

text \<open>What a tick reads: the fresh snapshot and when it was read, the active alerts, the clocks, the round.\<close>

record mail_tick =
  mt_sample :: "(mailed_sample \<times> instant) option"
  mt_alerts :: "active_alert list"
  mt_now :: instant
  mt_created_at :: u64
  mt_round :: "agent_round option"

definition client_gather :: "mail_tick \<Rightarrow> mail_batch \<Rightarrow> bool \<times> mail_batch" where
  "client_gather t b =
     (let b = (case mt_sample t of Some (sample, read_at) \<Rightarrow> snd (batch_offer b sample read_at) | None \<Rightarrow> b)
      in batch_note_alerts b (mt_alerts t))"

definition client_tick :: "mail_interval \<Rightarrow> mail_tick \<Rightarrow> mail_client \<Rightarrow> mail_report option \<times> mail_client" where
  "client_tick interval t c = (case client_gather t (mc_batch c) of (new_incident, b) \<Rightarrow>
     case client_due (c\<lparr>mc_batch := b\<rparr>) (mt_now t) interval new_incident of
       (None, c) \<Rightarrow> (None, c)
     | (Some reason, c) \<Rightarrow> (case batch_close (mc_batch c) interval reason (mt_created_at t) (mt_round t) of
           (report, b) \<Rightarrow> (report, c\<lparr>mc_batch := b\<rparr>)))"

text \<open>The reports closed over a sequence of ticks, each with the tick that closed it.\<close>

fun client_run :: "mail_interval \<Rightarrow> mail_tick list \<Rightarrow> mail_client \<Rightarrow> (mail_tick \<times> mail_report) list \<times> mail_client" where
  "client_run interval [] c = ([], c)"
| "client_run interval (t # ts) c = (case client_tick interval t c of (report, c) \<Rightarrow>
     case client_run interval ts c of (reports, c) \<Rightarrow> (case report of None \<Rightarrow> reports | Some r \<Rightarrow> (t, r) # reports, c))"

section \<open>The parts of a report\<close>

lemma length_cut_to: "length (cut_to s limit) \<le> limit"
proof -
  have "e \<le> min limit (length s)" if found: "find (is_char_boundary s) (rev [0..<Suc (min limit (length s))]) = Some e" for e
  proof -
    obtain i where "i < length (rev [0..<Suc (min limit (length s))])" "e = rev [0..<Suc (min limit (length s))] ! i"
      using found unfolding find_Some_iff by blast
    then have "e \<in> set (rev [0..<Suc (min limit (length s))])" by (metis nth_mem)
    then show ?thesis by auto
  qed
  then show ?thesis
    by (cases "find (is_char_boundary s) (rev [0..<Suc (min limit (length s))])") (simp_all only: cut_to_def option.case length_take min_le_iff_disj min.bounded_iff list.size le0 simp_thms)
qed

definition alerts_ok :: "mailed_alert list \<Rightarrow> bool" where
  "alerts_ok as \<longleftrightarrow> length as \<le> MAX_ALERTS \<and> distinct (map ma_id as) \<and> (\<forall>m\<in>set as. \<exists>a. m = mailed_alert_of a)"

lemma note_alert_ok: "alerts_ok as \<Longrightarrow> alerts_ok (note_alert as a)"
proof -
  assume ok: "alerts_ok as"
  have "alerts_ok (tl as)" using ok by (cases as) (auto simp: alerts_ok_def)
  moreover have "length (tl as) < MAX_ALERTS" if "length as = MAX_ALERTS" using that by (cases as) (auto simp: MAX_ALERTS_def)
  ultimately show ?thesis using ok list.set_sel(2) [of as]
    by (cases as) (auto simp: note_alert_def alerts_ok_def list_ex_iff mailed_alert_of_def)
qed

lemma note_alerts_ok: "alerts_ok as \<Longrightarrow> alerts_ok (foldl note_alert as xs)"
  by (induction xs arbitrary: as) (simp_all add: note_alert_ok)

definition batch_ok :: "mail_batch \<Rightarrow> bool" where
  "batch_ok b \<longleftrightarrow> length (mb_samples b) \<le> MAX_SAMPLES \<and> alerts_ok (mb_alerts b)"

lemma batch_new_ok: "batch_ok (mail_batch_new run sampling)"
  by (simp add: batch_ok_def mail_batch_new_def alerts_ok_def)

lemma gather_ok:
  assumes "batch_ok b" and "client_gather t b = (new_incident, b')"
  shows "batch_ok b'" and "mb_next_seq b' = mb_next_seq b" and "mb_run b' = mb_run b"
  using assms note_alerts_ok
  by (auto simp: client_gather_def batch_note_alerts_def batch_offer_def batch_ok_def MAX_SAMPLES_def Let_def split: option.splits)

definition report_ok :: "mail_report \<Rightarrow> bool" where
  "report_ok r \<longleftrightarrow> mr_snapshots r \<noteq> [] \<and> length (mr_snapshots r) \<le> MAX_SAMPLES \<and> alerts_ok (mr_alerts r)"

text \<open>One tick: the report it closes, and the state it leaves.\<close>

lemma client_tick_ok:
  assumes "batch_ok (mc_batch c)" and "client_tick interval t c = (report, c')"
  shows "batch_ok (mc_batch c')" and "mb_run (mc_batch c') = mb_run (mc_batch c)"
    and "case report of None \<Rightarrow> mb_next_seq (mc_batch c') = mb_next_seq (mc_batch c)
      | Some r \<Rightarrow> report_ok r \<and> mr_id r = \<lparr>ri_run = mb_run (mc_batch c), ri_seq = mb_next_seq (mc_batch c)\<rparr> \<and> mr_interval r = interval
          \<and> mr_created_at r = mt_created_at t \<and> mr_round r = mt_round t \<and> mb_next_seq (mc_batch c') = mb_next_seq (mc_batch c) + 1"
proof -
  obtain new b where gather: "client_gather t (mc_batch c) = (new, b)" by (cases "client_gather t (mc_batch c)")
  note b = gather_ok [OF assms(1) gather]
  obtain reason d where due: "client_due (c\<lparr>mc_batch := b\<rparr>) (mt_now t) interval new = (reason, d)"
    by (cases "client_due (c\<lparr>mc_batch := b\<rparr>) (mt_now t) interval new")
  then have "mc_batch d = b" by (auto simp: client_due_def split: if_splits prod.splits)
  note step = assms(2) [unfolded client_tick_def gather prod.case due]
  show "batch_ok (mc_batch c')" "mb_run (mc_batch c') = mb_run (mc_batch c)"
    using step b \<open>mc_batch d = b\<close> by (auto simp: batch_close_def batch_ok_def alerts_ok_def split: option.splits if_splits)
  show "case report of None \<Rightarrow> mb_next_seq (mc_batch c') = mb_next_seq (mc_batch c)
      | Some r \<Rightarrow> report_ok r \<and> mr_id r = \<lparr>ri_run = mb_run (mc_batch c), ri_seq = mb_next_seq (mc_batch c)\<rparr> \<and> mr_interval r = interval
          \<and> mr_created_at r = mt_created_at t \<and> mr_round r = mt_round t \<and> mb_next_seq (mc_batch c') = mb_next_seq (mc_batch c) + 1"
    using step b \<open>mc_batch d = b\<close>
    by (auto simp: batch_close_def batch_ok_def report_ok_def split: option.splits if_splits)
qed

lemma client_tick_pace:
  assumes "client_tick interval t c = (report, c')"
  shows "mc_next_report c \<le> mc_next_report c' \<or> mt_now t + interval_nanos interval \<le> mc_next_report c'"
    and "pace_last (mc_pace c') = pace_last (mc_pace c) \<or> pace_last (mc_pace c') = Some (mt_now t)
       \<and> (\<forall>l. pace_last (mc_pace c) = Some l \<longrightarrow> l + INCIDENT_SPACING \<le> mt_now t)"
    and "report = Some r \<Longrightarrow> mr_reason r = ReasonScheduled \<Longrightarrow> mc_next_report c \<le> mt_now t \<and> mc_next_report c' = mt_now t + interval_nanos interval"
    and "report = Some r \<Longrightarrow> mr_reason r = ReasonIncident \<Longrightarrow> pace_last (mc_pace c') = Some (mt_now t)
       \<and> (\<forall>l. pace_last (mc_pace c) = Some l \<longrightarrow> l + INCIDENT_SPACING \<le> mt_now t)"
  using assms
  by (auto simp: client_tick_def client_due_def pace_allows_def batch_close_def Let_def INCIDENT_SPACING_def split: prod.splits option.splits if_splits)

text \<open>The times of the reports closed for a reason.\<close>

definition times_of :: "report_reason \<Rightarrow> (mail_tick \<times> mail_report) list \<Rightarrow> instant list" where
  "times_of reason reports = map (mt_now \<circ> fst) (filter (\<lambda>(_, r). mr_reason r = reason) reports)"

lemma times_of_Cons: "times_of reason ((t, r) # reports) = (if mr_reason r = reason then [mt_now t] else []) @ times_of reason reports"
  by (simp add: times_of_def)

lemma client_run_reports:
  assumes "batch_ok (mc_batch c)" and "client_run interval ts c = (reports, c')"
  shows "map (mr_id \<circ> snd) reports = map (\<lambda>k. \<lparr>ri_run = mb_run (mc_batch c), ri_seq = mb_next_seq (mc_batch c) + of_nat k\<rparr>) [0..<length reports]
    \<and> (\<forall>(t, r)\<in>set reports. t \<in> set ts \<and> report_ok r \<and> mr_interval r = interval \<and> mr_created_at r = mt_created_at t \<and> mr_round r = mt_round t)"
  using assms
proof (induction ts arbitrary: c reports)
  case (Cons t ts)
  obtain report d where tick: "client_tick interval t c = (report, d)" by (cases "client_tick interval t c")
  obtain later where run: "client_run interval ts d = (later, c')" and reports: "reports = (case report of None \<Rightarrow> later | Some r \<Rightarrow> (t, r) # later)"
    using Cons.prems(2) tick by (auto split: prod.splits)
  note step = client_tick_ok [OF Cons.prems(1) tick]
  note later = Cons.IH [OF step(1) run]
  have upt: "[0..<Suc n] = 0 # map Suc [0..<n]" for n by (simp add: map_Suc_upt upt_conv_Cons del: upt_Suc)
  show ?case
    using later step(2,3) by (cases report) (auto simp: reports upt comp_def add.assoc simp del: upt_Suc)
qed simp

lemma client_run_times:
  assumes "client_run interval ts c = (reports, c')"
  shows "(\<forall>x\<in>set (times_of ReasonScheduled reports). mc_next_report c \<le> x)
    \<and> sorted_wrt (\<lambda>x y. x + interval_nanos interval \<le> y) (times_of ReasonScheduled reports)
    \<and> (\<forall>x\<in>set (times_of ReasonIncident reports). \<forall>l. pace_last (mc_pace c) = Some l \<longrightarrow> l + INCIDENT_SPACING \<le> x)
    \<and> sorted_wrt (\<lambda>x y. x + INCIDENT_SPACING \<le> y) (times_of ReasonIncident reports)"
  using assms
proof (induction ts arbitrary: c reports)
  case (Cons t ts)
  obtain report d where tick: "client_tick interval t c = (report, d)" by (cases "client_tick interval t c")
  obtain later where run: "client_run interval ts d = (later, c')" and reports: "reports = (case report of None \<Rightarrow> later | Some r \<Rightarrow> (t, r) # later)"
    using Cons.prems tick by (auto split: prod.splits)
  note later = Cons.IH [OF run] and pace = client_tick_pace [OF tick]
  have next_report: "mc_next_report c \<le> mc_next_report d"
    using tick by (auto simp: client_tick_def client_due_def pace_allows_def batch_close_def Let_def split: prod.splits option.splits if_splits)
  show ?case
  proof (cases report)
    case None
    then show ?thesis using later next_report pace(2) by (auto simp: reports intro: order_trans)
  next
    case (Some r)
    show ?thesis
    proof (cases "mr_reason r")
      case ReasonScheduled
      then show ?thesis using later next_report pace(2) pace(3) [OF Some ReasonScheduled]
        by (auto simp: reports Some times_of_Cons intro: order_trans)
    next
      case ReasonIncident
      then show ?thesis using later next_report pace(4) [OF Some ReasonIncident]
        by (auto simp: reports Some times_of_Cons intro: order_trans)
    qed
  qed
qed (simp add: times_of_def)

section \<open>Properties\<close>

text \<open>C29. The agent's reports keep their bounds: over any ticks, the reports are numbered from one without a
  gap, each has from one to sixty samples and at most 64 alerts with distinct ids and messages of at most
  512 bytes, scheduled reports are at least an interval apart and incident reports at least a minute.\<close>

theorem mail_reports_sound:
  assumes "client_run interval ts (client_new run sampling interval start) = (reports, c)"
  shows "map (mr_id \<circ> snd) reports = map (\<lambda>k. \<lparr>ri_run = run, ri_seq = 1 + of_nat k\<rparr>) [0..<length reports]
    \<and> (\<forall>(_, r)\<in>set reports. length (mr_snapshots r) \<in> {1..60} \<and> length (mr_alerts r) \<le> 64 \<and> distinct (map ma_id (mr_alerts r))
         \<and> (\<forall>a\<in>set (mr_alerts r). length (ma_message a) \<le> 512))
    \<and> sorted_wrt (\<lambda>x y. x + interval_nanos interval \<le> y) (times_of ReasonScheduled reports)
    \<and> sorted_wrt (\<lambda>x y. x + 60 * 10 ^ 9 \<le> y) (times_of ReasonIncident reports)"
proof -
  have ok: "batch_ok (mc_batch (client_new run sampling interval start))" by (simp add: client_new_def batch_new_ok)
  have bounds: "length (mr_snapshots r) \<in> {1..60} \<and> length (mr_alerts r) \<le> 64 \<and> distinct (map ma_id (mr_alerts r))
      \<and> (\<forall>a\<in>set (mr_alerts r). length (ma_message a) \<le> 512)" if "report_ok r" for r
    using that length_cut_to [of _ 512]
    by (cases "mr_snapshots r") (auto simp: report_ok_def alerts_ok_def MAX_SAMPLES_def MAX_ALERTS_def MAX_ALERT_MESSAGE_BYTES_def mailed_alert_of_def)
  show ?thesis
    using client_run_reports [OF ok assms] client_run_times [OF assms] bounds
    by (auto simp: client_new_def mail_batch_new_def INCIDENT_SPACING_def)
qed

definition example_sample :: "u64 \<Rightarrow> mailed_sample" where
  "example_sample t = \<lparr>ms_collected_at = t, ms_info = \<lparr>mo_hostname = [104], mo_os_name = [], mo_kernel = [], mo_cpu_model = [], mo_cpu_cores = 1\<rparr>,
     ms_cpu_percent = Fin32 False 1, ms_memory_percent = Fin32 False 1, ms_memory_used_bytes = 0, ms_memory_total_bytes = 0,
     ms_memory_total_display = [], ms_swap_percent = Fin32 False 0, ms_load = (Fin 0, Fin 0, Fin 0), ms_uptime_seconds = 1,
     ms_uptime_display = [49], ms_disks = []\<rparr>"

definition example_tick :: mail_tick where
  "example_tick = \<lparr>mt_sample = Some (example_sample 1000, 61 * 10 ^ 9), mt_alerts = [], mt_now = 61 * 10 ^ 9, mt_created_at = 1001, mt_round = None\<rparr>"

theorem mail_reports_sound_witness:
  "\<exists>r c. client_run (MailInterval 60) [example_tick] (client_new (AgentRun 7) (SampleInterval (10 ^ 10)) (MailInterval 60) 0) = ([(example_tick, r)], c)
    \<and> mr_id r = \<lparr>ri_run = AgentRun 7, ri_seq = 1\<rparr> \<and> length (mr_snapshots r) \<in> {1..60}"
proof -
  obtain r c where run: "client_run (MailInterval 60) [example_tick] (client_new (AgentRun 7) (SampleInterval (10 ^ 10)) (MailInterval 60) 0) = ([(example_tick, r)], c)"
    by (simp add: example_tick_def client_new_def mail_batch_new_def client_tick_def client_gather_def batch_offer_def batch_note_alerts_def
        client_due_def interval_nanos_def batch_close_def Let_def MAX_SAMPLES_def)
  show ?thesis using mail_reports_sound [OF run] run by auto
qed

end
