(* ===== verification/Snapshot.thy ===== *)
theory Snapshot
  imports Registry Applications Iso_Time
begin

text \<open>
  Snapshots on the hub: the snapshot rule and the live metrics (\<open>system-hub/src/snapshot.rs\<close>), the intake
  (\<open>system-hub/src/snapshot_intake.rs\<close>), the \<open>metrics\<close> table's writes with their capped prune
  (\<open>store_snapshot\<close> and \<open>store_unexpired_points\<close> of \<open>system-hub/src/db/history.rs\<close>) and the status a snapshot
  writes (\<open>LastSeen\<close>, \<open>StatusUpdate\<close> of \<open>registry.rs\<close>).  The table is its rows in the order of their
  insertion; of rows with one timestamp the prune takes the earliest inserted.
\<close>

text \<open>The bytes of a string as the characters the \<open>metrics\<close> table has them in.\<close>

definition text_of :: "bytes \<Rightarrow> string" where
  "text_of bs = map (\<lambda>b. char_of (unat b)) bs"

section \<open>The snapshot rule\<close>

record reported_disk =
  rk_mount_point :: "bytes option"
  rk_usage_percent :: "f32 option"

record reported_snapshot =
  rp_cpu :: "f32 option"
  rp_memory :: "f32 option"
  rp_swap :: "f32 option"
  rp_load1 :: "f64 option"
  rp_load5 :: "f64 option"
  rp_disks :: "reported_disk list"

datatype scalar = ScalarCpu | ScalarMemory | ScalarSwap | ScalarLoad1 | ScalarLoad5

datatype mount_point = MountPoint (mount_str: bytes)

record snapshot =
  sn_scalars :: "(scalar \<times> f32) list"
  sn_disks :: "(mount_point \<times> f32) list"

definition scalar_metric_name :: "scalar \<Rightarrow> string" where
  "scalar_metric_name s = (case s of ScalarCpu \<Rightarrow> ''cpu'' | ScalarMemory \<Rightarrow> ''memory'' | ScalarSwap \<Rightarrow> ''swap''
     | ScalarLoad1 \<Rightarrow> ''load1'' | ScalarLoad5 \<Rightarrow> ''load5'')"

definition MAX_DISKS :: nat where
  "MAX_DISKS = 1024"

definition MAX_MOUNT_POINT_BYTES :: nat where
  "MAX_MOUNT_POINT_BYTES = 256"

datatype invalid_mount_point = InvalidMountPoint

definition mount_point_try_from :: "bytes \<Rightarrow> invalid_mount_point + mount_point" where
  "mount_point_try_from v =
     (if 1 \<le> length v \<and> length v \<le> MAX_MOUNT_POINT_BYTES \<and> (case utf8_chars v of Some cs \<Rightarrow> \<not> list_ex is_control cs | None \<Rightarrow> True)
      then Inr (MountPoint v) else Inl InvalidMountPoint)"

datatype snapshot_time = SnapshotTime (st_seconds: i64)

datatype snapshot_time_out_of_range = SnapshotTimeOutOfRange

definition snapshot_time_try_from :: "u64 \<Rightarrow> snapshot_time_out_of_range + snapshot_time" where
  "snapshot_time_try_from v = rbind (ok_or SnapshotTimeOutOfRange (signed_try_from v)) (\<lambda>s. Inr (SnapshotTime s))"

definition st_unix_secs :: "snapshot_time \<Rightarrow> u64" where
  "st_unix_secs t = word_of_int \<bar>sint (st_seconds t)\<bar>"

definition st_cutoff :: "snapshot_time \<Rightarrow> u64 \<Rightarrow> snapshot_time" where
  "st_cutoff t retention_secs = SnapshotTime (word_of_int (max 0 (max (- (2 ^ 63)) (sint (st_seconds t) - uint retention_secs))))"

record left_out =
  lo_not_reported :: nat
  lo_not_finite :: nat
  lo_invalid_mount_point :: nat
  lo_over_disk_limit :: nat

definition left_out_default :: left_out where
  "left_out_default = \<lparr>lo_not_reported = 0, lo_not_finite = 0, lo_invalid_mount_point = 0, lo_over_disk_limit = 0\<rparr>"

datatype snapshot_refusal = NotReported | NotFinite | RefusedMountPoint

definition left_out_count :: "left_out \<Rightarrow> snapshot_refusal \<Rightarrow> left_out" where
  "left_out_count lo reason = (case reason of
       NotReported \<Rightarrow> lo\<lparr>lo_not_reported := lo_not_reported lo + 1\<rparr>
     | NotFinite \<Rightarrow> lo\<lparr>lo_not_finite := lo_not_finite lo + 1\<rparr>
     | RefusedMountPoint \<Rightarrow> lo\<lparr>lo_invalid_mount_point := lo_invalid_mount_point lo + 1\<rparr>)"

fun f32_is_finite :: "f32 \<Rightarrow> bool" where
  "f32_is_finite (Fin32 _ _) = True"
| "f32_is_finite _ = False"

definition finite_value :: "f32 option \<Rightarrow> snapshot_refusal + f32" where
  "finite_value v = (case v of None \<Rightarrow> Inl NotReported | Some v \<Rightarrow> if f32_is_finite v then Inr v else Inl NotFinite)"

definition keep_scalar :: "(scalar \<times> f32) list \<times> left_out \<Rightarrow> scalar \<times> f32 option \<Rightarrow> (scalar \<times> f32) list \<times> left_out" where
  "keep_scalar st x = (case (st, x) of ((kept, lo), (scalar, v)) \<Rightarrow>
     (case finite_value v of Inr v \<Rightarrow> (kept @ [(scalar, v)], lo) | Inl reason \<Rightarrow> (kept, left_out_count lo reason)))"

definition keep_scalars :: "reported_snapshot \<Rightarrow> left_out \<Rightarrow> (scalar \<times> f32) list \<times> left_out" where
  "keep_scalars r lo = foldl keep_scalar ([], lo)
     [(ScalarCpu, rp_cpu r), (ScalarMemory, rp_memory r), (ScalarSwap, rp_swap r),
      (ScalarLoad1, map_option f64_as_f32 (rp_load1 r)), (ScalarLoad5, map_option f64_as_f32 (rp_load5 r))]"

definition disk_rule :: "reported_disk \<Rightarrow> snapshot_refusal + mount_point \<times> f32" where
  "disk_rule d = rbind (map_err (\<lambda>_. RefusedMountPoint) (rbind (ok_or InvalidMountPoint (rk_mount_point d)) mount_point_try_from)) (\<lambda>mount.
     rbind (finite_value (rk_usage_percent d)) (\<lambda>v. Inr (mount, v)))"

definition keep_disk :: "(mount_point \<times> f32) list \<times> left_out \<Rightarrow> reported_disk \<Rightarrow> (mount_point \<times> f32) list \<times> left_out" where
  "keep_disk st d = (case st of (kept, lo) \<Rightarrow> (case disk_rule d of
       Inl reason \<Rightarrow> (kept, left_out_count lo reason)
     | Inr passing \<Rightarrow> if length kept < MAX_DISKS then (kept @ [passing], lo)
         else (kept, lo\<lparr>lo_over_disk_limit := lo_over_disk_limit lo + 1\<rparr>)))"

definition keep_disks :: "reported_disk list \<Rightarrow> left_out \<Rightarrow> (mount_point \<times> f32) list \<times> left_out" where
  "keep_disks disks lo = foldl keep_disk ([], lo) disks"

definition snapshot_rule :: "reported_snapshot \<Rightarrow> snapshot \<times> left_out" where
  "snapshot_rule r = (case keep_scalars r left_out_default of (scalars, lo) \<Rightarrow>
     case keep_disks (rp_disks r) lo of (disks, lo) \<Rightarrow> (\<lparr>sn_scalars = scalars, sn_disks = disks\<rparr>, lo))"

definition metric_points :: "snapshot \<Rightarrow> (string \<times> f32) list" where
  "metric_points s = map (\<lambda>(scalar, v). (scalar_metric_name scalar, v)) (sn_scalars s)
     @ map (\<lambda>(mount, v). (''disk:'' @ text_of (mount_str mount), v)) (sn_disks s)"

definition snapshot_scalar :: "snapshot \<Rightarrow> scalar \<Rightarrow> f32 option" where
  "snapshot_scalar s scalar = map_option snd (find (\<lambda>(kept, _). kept = scalar) (sn_scalars s))"

section \<open>Live metrics\<close>

datatype left_out_log = LogNothing | LogWarn | LogDebug

definition left_out_log_of :: "instant option \<Rightarrow> left_out \<Rightarrow> instant \<Rightarrow> left_out_log \<times> instant option" where
  "left_out_log_of previous lo now = (if lo = left_out_default then (LogNothing, previous)
     else case hourly_warning_at previous now of Warn \<Rightarrow> (LogWarn, Some now) | QuietWarning \<Rightarrow> (LogDebug, previous))"

record live_metrics =
  lm_snapshot :: snapshot
  lm_time :: snapshot_time
  lm_left_out_warned_at :: "instant option"

definition live_following :: "live_metrics option \<Rightarrow> snapshot \<Rightarrow> snapshot_time \<Rightarrow> left_out \<Rightarrow> instant \<Rightarrow> live_metrics \<times> left_out_log" where
  "live_following previous s time lo now =
     (let warned_at = Option.bind previous lm_left_out_warned_at
      in case left_out_log_of warned_at lo now of (logged, warned_at) \<Rightarrow>
        (\<lparr>lm_snapshot = s, lm_time = time, lm_left_out_warned_at = warned_at\<rparr>, logged))"

type_synonym live_table = "bytes \<rightharpoonup> live_metrics"

definition keep_live_metrics :: "live_table \<Rightarrow> system_id \<Rightarrow> snapshot \<Rightarrow> snapshot_time \<Rightarrow> left_out \<Rightarrow> instant \<Rightarrow> left_out_log \<times> live_table" where
  "keep_live_metrics live i s time lo now = (case live_following (live (id_str i)) s time lo now of
     (entry, logged) \<Rightarrow> (logged, live(id_str i \<mapsto> entry)))"

definition evict_live_metrics :: "live_table \<Rightarrow> bytes \<Rightarrow> live_table" where
  "evict_live_metrics live i = live(i := None)"

section \<open>The tables\<close>

definition DEFAULT_RETENTION_SECS :: u64 where
  "DEFAULT_RETENTION_SECS = 86400"

definition snapshot_retention :: "i64 option \<Rightarrow> u64" where
  "snapshot_retention stored = (case Option.bind stored unsigned_try_from of Some secs \<Rightarrow> secs | None \<Rightarrow> DEFAULT_RETENTION_SECS)"

datatype value_ref = SqlNull | SqlInteger i64 | SqlReal f64 | SqlText bytes | SqlBlob bytes

definition sql_integer :: "value_ref \<Rightarrow> i64 option" where
  "sql_integer v = (case v of SqlInteger n \<Rightarrow> Some n | SqlNull \<Rightarrow> None | SqlReal _ \<Rightarrow> None | SqlText _ \<Rightarrow> None | SqlBlob _ \<Rightarrow> None)"

text \<open>The retention rows of a system's metrics.\<close>

type_synonym retention_table = "string \<times> string \<Rightarrow> value_ref option"

definition PRUNE_PER_POINT :: nat where
  "PRUNE_PER_POINT = 16"

definition row_time :: "metric_row \<Rightarrow> int" where
  "row_time row = (case row of (_, _, _, t) \<Rightarrow> sint t)"

definition of_series :: "string \<Rightarrow> string \<Rightarrow> metric_row \<Rightarrow> bool" where
  "of_series i metric row = (case row of (j, m, _, _) \<Rightarrow> j = i \<and> m = metric)"

text \<open>\<open>PRUNE_OLDEST\<close>: the row ids of a series' oldest rows before the cutoff, and the table without them.\<close>

definition oldest_expired :: "string \<Rightarrow> string \<Rightarrow> int \<Rightarrow> nat \<Rightarrow> metric_row list \<Rightarrow> nat list" where
  "oldest_expired i metric cutoff n rows =
     take n (map fst (sort_key (\<lambda>(_, row). row_time row) (filter (\<lambda>(_, row). of_series i metric row \<and> row_time row < cutoff) (enumerate 0 rows))))"

definition prune_oldest :: "string \<Rightarrow> string \<Rightarrow> int \<Rightarrow> nat \<Rightarrow> metric_row list \<Rightarrow> metric_row list" where
  "prune_oldest i metric cutoff n rows =
     (let gone = oldest_expired i metric cutoff n rows in map snd (filter (\<lambda>(k, _). k \<notin> set gone) (enumerate 0 rows)))"

definition series_retention :: "retention_table \<Rightarrow> string \<Rightarrow> string \<Rightarrow> u64" where
  "series_retention retention i metric = snapshot_retention (Option.bind (retention (i, metric)) sql_integer)"

definition store_point ::
  "retention_table \<Rightarrow> string \<Rightarrow> snapshot_time \<Rightarrow> snapshot_time option \<Rightarrow> nat \<times> metric_row list \<Rightarrow> string \<times> f32 \<Rightarrow> nat \<times> metric_row list" where
  "store_point retention i time now st point = (case (st, point) of ((expired, rows), (metric, v)) \<Rightarrow>
     let secs = series_retention retention i metric
     in if (case now of Some now \<Rightarrow> sint (st_seconds time) < sint (st_seconds (st_cutoff now secs)) | None \<Rightarrow> False) then (expired + 1, rows)
        else (expired, prune_oldest i metric (sint (st_seconds (st_cutoff time secs))) PRUNE_PER_POINT (rows @ [(i, metric, v, st_seconds time)])))"

definition store_unexpired_points ::
  "retention_table \<Rightarrow> system_id \<Rightarrow> snapshot \<Rightarrow> snapshot_time \<Rightarrow> snapshot_time option \<Rightarrow> metric_row list \<Rightarrow> nat \<times> metric_row list" where
  "store_unexpired_points retention i s time now rows = foldl (store_point retention (text_of (id_str i)) time now) (0, rows) (metric_points s)"

definition store_points :: "retention_table \<Rightarrow> system_id \<Rightarrow> snapshot \<Rightarrow> snapshot_time \<Rightarrow> metric_row list \<Rightarrow> metric_row list" where
  "store_points retention i s time rows = snd (store_unexpired_points retention i s time None rows)"

datatype last_seen = SeenUptime uptime_display | PolledAt bytes | ReportedAt snapshot_time | SeenUnchanged

record status_update =
  su_status :: system_status
  su_last_seen :: last_seen
  su_error :: "bytes option"

definition after_snapshot :: "last_seen \<Rightarrow> status_update" where
  "after_snapshot seen = \<lparr>su_status = Online, su_last_seen = seen, su_error = None\<rparr>"

definition written_last_seen :: "last_seen \<Rightarrow> bytes option" where
  "written_last_seen seen = (case seen of
       SeenUptime (UptimeDisplay u) \<Rightarrow> Some u
     | PolledAt t \<Rightarrow> Some t
     | ReportedAt t \<Rightarrow> Some (str (unix_to_iso8601 (st_unix_secs t)))
     | SeenUnchanged \<Rightarrow> None)"

definition write_status :: "status_update \<Rightarrow> bytes \<Rightarrow> systems_table \<Rightarrow> systems_table" where
  "write_status u i systems = systems(i := map_option (\<lambda>s. s\<lparr>si_status := su_status u,
     si_last_seen := (case written_last_seen (su_last_seen u) of Some t \<Rightarrow> t | None \<Rightarrow> si_last_seen s), si_last_error := su_error u\<rparr>) (systems i))"

section \<open>Storing a snapshot\<close>

datatype 'r snapshot_stored = SnapshotStored 'r | SnapshotSystemGone

text \<open>The tables and live metrics; \<open>Some e\<close> when SQLite fails the transaction, which leaves nothing.\<close>

record snapshot_app =
  sx_systems :: systems_table
  sx_metrics :: "metric_row list"
  sx_retention :: retention_table
  sx_live :: live_table

definition store_snapshot ::
  "'e option \<Rightarrow> snapshot_app \<Rightarrow> system_id \<Rightarrow> reported_snapshot \<Rightarrow> snapshot_time \<Rightarrow> last_seen \<Rightarrow> instant
    \<Rightarrow> ('e + left_out_log snapshot_stored) \<times> snapshot_app" where
  "store_snapshot fails app i reported time seen now = (case snapshot_rule reported of (s, lo) \<Rightarrow>
     case fails of
       Some e \<Rightarrow> (Inl e, app)
     | None \<Rightarrow>
         if sx_systems app (id_str i) = None then (Inr SnapshotSystemGone, app)
         else (case keep_live_metrics (sx_live app) i s time lo now of (logged, live) \<Rightarrow>
           (Inr (SnapshotStored logged), app\<lparr>sx_metrics := store_points (sx_retention app) i s time (sx_metrics app),
              sx_systems := write_status (after_snapshot seen) (id_str i) (sx_systems app), sx_live := live\<rparr>)))"

section \<open>What the rule keeps\<close>

definition left_out_total :: "left_out \<Rightarrow> nat" where
  "left_out_total lo = lo_not_reported lo + lo_not_finite lo + lo_invalid_mount_point lo + lo_over_disk_limit lo"

lemma left_out_count_total [simp]: "left_out_total (left_out_count lo reason) = Suc (left_out_total lo)"
  by (cases reason) (simp_all add: left_out_total_def left_out_count_def)

lemma keep_disks_from:
  assumes "foldl keep_disk (kept, lo) disks = (kept', lo')" and "length kept \<le> MAX_DISKS"
  shows "take MAX_DISKS (kept @ List.map_filter (\<lambda>d. ok (disk_rule d)) disks) = kept' \<and> length kept' + left_out_total lo' = length kept + left_out_total lo + length disks"
  using assms
proof (induction disks arbitrary: kept lo)
  case (Cons d disks)
  obtain kept1 lo1 where step: "keep_disk (kept, lo) d = (kept1, lo1)" by (cases "keep_disk (kept, lo) d")
  have one: "length kept1 \<le> MAX_DISKS" "length kept1 + left_out_total lo1 = Suc (length kept + left_out_total lo)"
    "take MAX_DISKS (kept1 @ xs) = take MAX_DISKS (kept @ List.map_filter (\<lambda>d. ok (disk_rule d)) [d] @ xs)" for xs
    using step Cons.prems(2)
    by (auto simp: keep_disk_def map_filter_simps ok_def left_out_total_def left_out_count_def split: sum.splits if_splits snapshot_refusal.splits)
  have split: "List.map_filter f (d # disks) = List.map_filter f [d] @ List.map_filter f disks" for f :: "reported_disk \<Rightarrow> (mount_point \<times> f32) option"
    by (simp add: map_filter_def)
  have "foldl keep_disk (kept1, lo1) disks = (kept', lo')" using Cons.prems(1) step by simp
  from Cons.IH [OF this one(1)] show ?case unfolding one(3) split one(2) by (simp only: append_assoc list.size add_Suc add_Suc_right add_0_right simp_thms)
qed (simp add: map_filter_simps)

lemma keep_scalars_from:
  assumes "foldl keep_scalar (kept, lo) xs = (kept', lo')"
  shows "length kept' + left_out_total lo' = length kept + left_out_total lo + length xs"
  using assms
proof (induction xs arbitrary: kept lo)
  case (Cons x xs)
  obtain kept1 lo1 where step: "keep_scalar (kept, lo) x = (kept1, lo1)" by (cases "keep_scalar (kept, lo) x")
  have "length kept1 + left_out_total lo1 = Suc (length kept + left_out_total lo)"
    using step by (auto simp: keep_scalar_def split: sum.splits prod.splits)
  then show ?case using Cons.IH [of kept1 lo1] Cons.prems step by simp
qed simp

lemma snapshot_rule_kept:
  assumes "snapshot_rule r = (s, lo)"
  shows "sn_disks s = take MAX_DISKS (List.map_filter (\<lambda>d. ok (disk_rule d)) (rp_disks r))"
    and "length (metric_points s) + left_out_total lo = 5 + length (rp_disks r)"
proof -
  obtain scalars mid where scalars: "keep_scalars r left_out_default = (scalars, mid)" by (cases "keep_scalars r left_out_default")
  obtain disks where disks: "keep_disks (rp_disks r) mid = (disks, lo)" and s: "s = \<lparr>sn_scalars = scalars, sn_disks = disks\<rparr>"
    using assms scalars by (auto simp: snapshot_rule_def split: prod.splits)
  have "length scalars + left_out_total mid = 5"
    using keep_scalars_from [OF scalars [unfolded keep_scalars_def]] by (simp add: left_out_total_def left_out_default_def)
  moreover have kept: "take MAX_DISKS (List.map_filter (\<lambda>d. ok (disk_rule d)) (rp_disks r)) = disks"
    and "length disks + left_out_total lo = left_out_total mid + length (rp_disks r)"
    using keep_disks_from [OF disks [unfolded keep_disks_def]] by simp_all
  ultimately show "length (metric_points s) + left_out_total lo = 5 + length (rp_disks r)"
    by (simp only: s metric_points_def length_append length_map snapshot.simps)
  show "sn_disks s = take MAX_DISKS (List.map_filter (\<lambda>d. ok (disk_rule d)) (rp_disks r))" by (simp add: s kept)
qed

section \<open>What the prune takes\<close>

text \<open>A row past the retention of its series at a time, of one of the metrics.\<close>

definition row_expired :: "retention_table \<Rightarrow> string \<Rightarrow> snapshot_time \<Rightarrow> string set \<Rightarrow> metric_row \<Rightarrow> bool" where
  "row_expired retention i time metrics row = (case row of (j, metric, _, _) \<Rightarrow>
     j = i \<and> metric \<in> metrics \<and> row_time row < sint (st_seconds (st_cutoff time (series_retention retention i metric))))"

lemma filter_map_snd:
  assumes "\<And>x. x \<in> set xs \<Longrightarrow> \<not> Q x \<Longrightarrow> \<not> P (snd x)"
  shows "filter P (map snd (filter Q xs)) = filter P (map snd xs)"
  using assms by (induction xs) auto

lemma oldest_expired_in:
  assumes "k \<in> set (oldest_expired i metric cutoff n rows)"
  shows "k < length rows \<and> of_series i metric (rows ! k) \<and> row_time (rows ! k) < cutoff"
proof -
  obtain row where "(k, row) \<in> set (filter (\<lambda>(_, row). of_series i metric row \<and> row_time row < cutoff) (enumerate 0 rows))"
    using set_take_subset [of n] assms by (fastforce simp: oldest_expired_def)
  then show ?thesis by (auto simp: in_set_enumerate_eq)
qed

lemma prune_keeps:
  assumes "\<And>row. of_series i metric row \<Longrightarrow> row_time row < cutoff \<Longrightarrow> \<not> P row"
  shows "filter P (prune_oldest i metric cutoff n rows) = filter P rows"
proof -
  have "filter P (map snd (filter (\<lambda>(k, _). k \<notin> set (oldest_expired i metric cutoff n rows)) (enumerate 0 rows))) = filter P (map snd (enumerate 0 rows))"
    using assms by (intro filter_map_snd) (auto simp: in_set_enumerate_eq dest!: oldest_expired_in)
  then show ?thesis by (simp add: prune_oldest_def Let_def)
qed

lemma prune_length: "length rows \<le> length (prune_oldest i metric cutoff n rows) + n"
proof -
  let ?gone = "oldest_expired i metric cutoff n rows"
  have "card {k. k < length rows \<and> k \<in> set ?gone} \<le> card (set ?gone)" by (rule card_mono) auto
  also have "\<dots> \<le> n" using card_length [of ?gone] by (simp add: oldest_expired_def)
  finally have few: "card {k. k < length rows \<and> k \<in> set ?gone} \<le> n" .
  have "length (filter (\<lambda>(k, _). k \<in> set ?gone) (enumerate 0 rows)) = card {k. k < length rows \<and> k \<in> set ?gone}"
    unfolding length_filter_conv_card by (rule arg_cong [where f = card]) (auto simp: nth_enumerate_eq)
  moreover have "length (filter (\<lambda>(k, _). k \<in> set ?gone) (enumerate 0 rows)) + length (filter (\<lambda>(k, _). k \<notin> set ?gone) (enumerate 0 rows)) = length rows"
    using sum_length_filter_compl [of "\<lambda>(k, _). k \<in> set ?gone" "enumerate 0 rows"] by (simp add: split_def)
  ultimately show ?thesis using few by (simp add: prune_oldest_def Let_def)
qed

lemma cutoff_le: "0 \<le> sint (st_seconds t) \<Longrightarrow> sint (st_seconds (st_cutoff t secs)) \<le> sint (st_seconds t)"
proof -
  assume t: "0 \<le> sint (st_seconds t)"
  let ?c = "max 0 (sint (st_seconds t) - uint secs)"
  have "0 \<le> ?c \<and> ?c \<le> sint (st_seconds t)" using t by simp
  moreover have "sint (st_seconds t) < 2 ^ 63" using sint_lt [of "st_seconds t"] by simp
  ultimately have "- (2 ^ 63) \<le> ?c" "?c < 2 ^ 63" by linarith+
  then have "sint (word_of_int ?c :: i64) = ?c" unfolding sint_sbintrunc' by (simp add: signed_take_bit_int_eq_self_iff)
  moreover have "max 0 (max (- (2 ^ 63)) (sint (st_seconds t) - uint secs)) = ?c" by simp
  ultimately show ?thesis using t by (simp add: st_cutoff_def)
qed

lemma store_points_fold:
  assumes "0 \<le> sint (st_seconds time)" and "set (map fst points) \<subseteq> metrics"
    and "foldl (store_point retention i time None) (n, rows) points = (n', rows')"
  shows "n' = n \<and> filter (\<lambda>row. \<not> row_expired retention i time metrics row) rows'
      = filter (\<lambda>row. \<not> row_expired retention i time metrics row) rows @ map (\<lambda>(metric, v). (i, metric, v, st_seconds time)) points
    \<and> length rows + length points \<le> length rows' + PRUNE_PER_POINT * length points"
  using assms(2,3)
proof (induction points arbitrary: n rows)
  case (Cons point points)
  obtain metric v where point: "point = (metric, v)" by (cases point)
  let ?row = "(i, metric, v, st_seconds time)" and ?cutoff = "sint (st_seconds (st_cutoff time (series_retention retention i metric)))"
  let ?rows = "prune_oldest i metric ?cutoff PRUNE_PER_POINT (rows @ [?row])"
  have fresh: "\<not> row_expired retention i time metrics ?row"
    using cutoff_le [OF assms(1)] by (simp add: row_expired_def row_time_def not_less)
  have kept: "filter (\<lambda>row. \<not> row_expired retention i time metrics row) ?rows
      = filter (\<lambda>row. \<not> row_expired retention i time metrics row) rows @ [?row]"
    using Cons.prems(1) fresh by (subst prune_keeps) (auto simp: point of_series_def row_expired_def)
  have "store_point retention i time None (n, rows) point = (n, ?rows)" by (simp add: store_point_def point Let_def)
  then have fold: "foldl (store_point retention i time None) (n, ?rows) points = (n', rows')"
    using Cons.prems(2) by simp
  show ?case
    using Cons.IH [OF _ fold] Cons.prems(1) kept prune_length [of "rows @ [?row]" i metric ?cutoff PRUNE_PER_POINT] by (simp add: point)
qed simp

section \<open>Properties\<close>


definition example_system :: system_info where
  "example_system = \<lparr>si_id = [104], si_name = [104], si_url = MAIL_URL, si_token = [], si_status = Offline, si_last_seen = [], si_last_error = None,
     si_os = None, si_hostname = None, si_kernel = None, si_cpu_model = None, si_cpu_cores = None, si_total_memory_display = None,
     si_total_memory_bytes = None, si_poll_interval_secs = 10, si_enabled = True\<rparr>"

definition example_reported :: reported_snapshot where
  "example_reported = \<lparr>rp_cpu = Some (Fin32 False 1), rp_memory = None, rp_swap = Some NaN32, rp_load1 = None, rp_load5 = None,
     rp_disks = [\<lparr>rk_mount_point = Some [47], rk_usage_percent = Some (Fin32 False 5)\<rparr>]\<rparr>"

definition example_app :: snapshot_app where
  "example_app = \<lparr>sx_systems = [[104] \<mapsto> example_system], sx_metrics = [(''h'', ''cpu'', Fin32 False 2, 7)], sx_retention = (\<lambda>_. None), sx_live = (\<lambda>_. None)\<rparr>"


end
