(* ===== verification/Mail_Report.thy ===== *)
theory Mail_Report
  imports Mail_Batch Snapshot
begin

text \<open>
  The mail report on the wire: its shape as the agent writes it (\<open>ReportDto\<close> and the others of
  \<open>src/mail/report.rs\<close>) and as the hub reads and checks it (\<open>system-hub/src/mail_intake/report.rs\<close>).  The
  bytes between the two are serde's MessagePack, a parameter; the hub's shapes lack the fields it
  ignores.  UUID text is a parameter too.
\<close>

section \<open>As the agent writes it\<close>

record snapshot_dto =
  sd_collected_at :: u64
  sd_info :: "mailed_info option"
  sd_cpu_percent :: f32
  sd_memory_percent :: f32
  sd_memory_used_bytes :: u64
  sd_memory_total_bytes :: u64
  sd_memory_total_display :: bytes
  sd_swap_percent :: f32
  sd_load_one :: f64
  sd_load_five :: f64
  sd_load_fifteen :: f64
  sd_uptime_seconds :: u64
  sd_uptime_display :: bytes
  sd_disks :: "(bytes \<times> f32) list"

record alert_dto =
  ad_id :: bytes
  ad_metric :: bytes
  ad_severity :: bytes
  ad_current_value :: f32
  ad_message :: bytes
  ad_fired_at :: bytes

record report_dto =
  dt_kind :: string
  dt_run :: string
  dt_seq :: u64
  dt_created_at :: u64
  dt_interval_secs :: u64
  dt_reason :: string
  dt_snapshots :: "snapshot_dto list"
  dt_alerts :: "alert_dto list"
  dt_round :: "application_frame option"

definition REPORT_KIND :: string where
  "REPORT_KIND = ''mail-report.v1''"

definition snapshot_dto_of :: "mailed_sample \<Rightarrow> bool \<Rightarrow> snapshot_dto" where
  "snapshot_dto_of s newest = (case ms_load s of (one, five, fifteen) \<Rightarrow>
     \<lparr>sd_collected_at = ms_collected_at s, sd_info = (if newest then Some (ms_info s) else None), sd_cpu_percent = ms_cpu_percent s,
      sd_memory_percent = ms_memory_percent s, sd_memory_used_bytes = ms_memory_used_bytes s, sd_memory_total_bytes = ms_memory_total_bytes s,
      sd_memory_total_display = ms_memory_total_display s, sd_swap_percent = ms_swap_percent s, sd_load_one = one, sd_load_five = five,
      sd_load_fifteen = fifteen, sd_uptime_seconds = ms_uptime_seconds s, sd_uptime_display = ms_uptime_display s, sd_disks = ms_disks s\<rparr>)"

definition metric_wire :: "alert_metric \<Rightarrow> string" where
  "metric_wire m = (case m of Cpu \<Rightarrow> ''cpu'' | Memory \<Rightarrow> ''memory'' | Swap \<Rightarrow> ''swap'' | Disk \<Rightarrow> ''disk'' | Load1 \<Rightarrow> ''load1''
     | Load5 \<Rightarrow> ''load5'' | Load15 \<Rightarrow> ''load15'')"

definition severity_wire :: "alert_severity \<Rightarrow> string" where
  "severity_wire s = (case s of Info \<Rightarrow> ''info'' | Warning \<Rightarrow> ''warning'' | Critical \<Rightarrow> ''critical'')"

definition alert_dto_of :: "mailed_alert \<Rightarrow> alert_dto" where
  "alert_dto_of a = \<lparr>ad_id = ma_id a, ad_metric = str (metric_wire (ma_metric a)), ad_severity = str (severity_wire (ma_severity a)),
     ad_current_value = ma_current_value a, ad_message = ma_message a, ad_fired_at = ma_fired_at a\<rparr>"

definition reason_wire :: "report_reason \<Rightarrow> string" where
  "reason_wire r = (case r of ReasonScheduled \<Rightarrow> ''scheduled'' | ReasonIncident \<Rightarrow> ''incident'')"

definition report_dto_of_mail :: "(u128 \<Rightarrow> string) \<Rightarrow> mail_report \<Rightarrow> report_dto" where
  "report_dto_of_mail uuid r =
     (let newest = length (mr_snapshots r) - 1
      in \<lparr>dt_kind = REPORT_KIND, dt_run = uuid (as_uuid (ri_run (mr_id r))), dt_seq = ri_seq (mr_id r), dt_created_at = mr_created_at r,
          dt_interval_secs = mi_secs (mr_interval r), dt_reason = reason_wire (mr_reason r),
          dt_snapshots = map (\<lambda>(k, s). snapshot_dto_of s (k = newest)) (enumerate 0 (mr_snapshots r)),
          dt_alerts = map alert_dto_of (mr_alerts r), dt_round = map_option (frame_of uuid) (mr_round r)\<rparr>)"

section \<open>As the hub reads it\<close>

definition MAX_MAILED_SNAPSHOTS :: nat where
  "MAX_MAILED_SNAPSHOTS = 60"

definition MAX_MAILED_ALERTS :: nat where
  "MAX_MAILED_ALERTS = 64"

definition SAMPLE_SLACK_BEFORE :: u64 where
  "SAMPLE_SLACK_BEFORE = 120"

definition SAMPLE_SLACK_AFTER :: u64 where
  "SAMPLE_SLACK_AFTER = 5"

definition MAX_MESSAGE_BYTES :: nat where
  "MAX_MESSAGE_BYTES = 512"

definition MAX_FIELD_BYTES :: nat where
  "MAX_FIELD_BYTES = 64"

record hub_snapshot_dto =
  hs_collected_at :: u64
  hs_info :: "mailed_info option"
  hs_cpu_percent :: f32
  hs_memory_percent :: f32
  hs_memory_total_bytes :: u64
  hs_memory_total_display :: bytes
  hs_swap_percent :: f32
  hs_load_one :: f64
  hs_load_five :: f64
  hs_uptime_display :: bytes
  hs_disks :: "(bytes \<times> f32) list"

record hub_report_dto =
  hd_kind :: string
  hd_run :: string
  hd_seq :: u64
  hd_created_at :: u64
  hd_interval_secs :: u64
  hd_reason :: string
  hd_snapshots :: "hub_snapshot_dto list"
  hd_alerts :: "alert_dto list"
  hd_round :: "application_frame option"

datatype hub_interval = HubInterval (hi_secs: u64)

record hub_report_id =
  hi_run :: u128
  hi_seq :: u64

datatype hub_reason = HubScheduled | HubIncident | HubOther

record mailed_snapshot =
  mn_time :: snapshot_time
  mn_reported :: reported_snapshot
  mn_uptime :: "uptime_display option"
  mn_memory :: "memory_capacity option"
  mn_info :: "mailed_info option"

record hub_report =
  hr_id :: hub_report_id
  hr_created_at :: snapshot_time
  hr_interval :: hub_interval
  hr_reason :: hub_reason
  hr_snapshots :: "mailed_snapshot list"
  hr_alerts :: "alert_dto list"
  hr_round_frame :: "application_frame option"

datatype report_refusal = NotAReport | UnknownKind | BadRun | HubIntervalOutOfRange | TimeOutOfRange | NoSnapshots | TooManySnapshots
  | SampleOutOfBounds | TooManyAlerts | FieldTooLong

definition hub_interval_try_from :: "u64 \<Rightarrow> report_refusal + hub_interval" where
  "hub_interval_try_from secs = (if 60 \<le> secs \<and> secs \<le> 86400 then Inr (HubInterval secs) else Inl HubIntervalOutOfRange)"

definition report_time :: "u64 \<Rightarrow> report_refusal + snapshot_time" where
  "report_time secs = map_err (\<lambda>_. TimeOutOfRange) (snapshot_time_try_from secs)"

definition reason_of :: "string \<Rightarrow> hub_reason" where
  "reason_of wire = (if wire = ''scheduled'' then HubScheduled else if wire = ''incident'' then HubIncident else HubOther)"

definition mailed_snapshot_try_from :: "hub_snapshot_dto \<Rightarrow> report_refusal + mailed_snapshot" where
  "mailed_snapshot_try_from d =
     (let reported = \<lparr>rp_cpu = Some (hs_cpu_percent d), rp_memory = Some (hs_memory_percent d), rp_swap = Some (hs_swap_percent d),
            rp_load1 = Some (hs_load_one d), rp_load5 = Some (hs_load_five d),
            rp_disks = map (\<lambda>(mount, usage). \<lparr>rk_mount_point = Some mount, rk_usage_percent = Some usage\<rparr>) (hs_disks d)\<rparr>
      in rbind (report_time (hs_collected_at d)) (\<lambda>time.
           Inr \<lparr>mn_time = time, mn_reported = reported, mn_uptime = ok (uptime_display_try_from (hs_uptime_display d)),
             mn_memory = capacity_reported (Some (hs_memory_total_display d)) (Some (hs_memory_total_bytes d)), mn_info = hs_info d\<rparr>))"

definition report_samples :: "hub_snapshot_dto list \<Rightarrow> u64 \<Rightarrow> hub_interval \<Rightarrow> report_refusal + mailed_snapshot list" where
  "report_samples dtos created_at interval =
     (if dtos = [] then Inl NoSnapshots
      else if MAX_MAILED_SNAPSHOTS < length dtos then Inl TooManySnapshots
      else let earliest = sat_sub created_at (hi_secs interval + SAMPLE_SLACK_BEFORE);
               latest = sat_add created_at SAMPLE_SLACK_AFTER;
               in_bounds = list_all (\<lambda>d. earliest \<le> hs_collected_at d \<and> hs_collected_at d \<le> latest) dtos;
               ordered = list_all (\<lambda>(a, b). hs_collected_at a \<le> hs_collected_at b) (zip dtos (tl dtos))
        in if \<not> (in_bounds \<and> ordered) then Inl SampleOutOfBounds else map_result mailed_snapshot_try_from dtos)"

definition mailed_alert_try_from :: "alert_dto \<Rightarrow> report_refusal + alert_dto" where
  "mailed_alert_try_from d =
     (if MAX_MESSAGE_BYTES < length (ad_message d)
        \<or> list_ex (\<lambda>field. MAX_FIELD_BYTES < length field) [ad_id d, ad_metric d, ad_severity d, ad_fired_at d]
      then Inl FieldTooLong else Inr d)"

definition hub_report_try_from :: "(string \<Rightarrow> u128 option) \<Rightarrow> hub_report_dto \<Rightarrow> report_refusal + hub_report" where
  "hub_report_try_from uuid_parse d =
     (if hd_kind d \<noteq> REPORT_KIND then Inl UnknownKind
      else rbind (ok_or BadRun (uuid_parse (hd_run d))) (\<lambda>run.
        rbind (hub_interval_try_from (hd_interval_secs d)) (\<lambda>interval.
        rbind (report_time (hd_created_at d)) (\<lambda>created_at.
        rbind (report_samples (hd_snapshots d) (hd_created_at d) interval) (\<lambda>snapshots.
          if MAX_MAILED_ALERTS < length (hd_alerts d) then Inl TooManyAlerts
          else rbind (map_result mailed_alert_try_from (hd_alerts d)) (\<lambda>alerts.
            Inr \<lparr>hr_id = \<lparr>hi_run = run, hi_seq = hd_seq d\<rparr>, hr_created_at = created_at, hr_interval = interval,
              hr_reason = reason_of (hd_reason d), hr_snapshots = snapshots, hr_alerts = alerts, hr_round_frame = hd_round d\<rparr>))))))"

text \<open>serde: the agent's encoder and the hub's decoder of the MessagePack map.\<close>

record report_wire =
  rw_encode :: "report_dto \<Rightarrow> bytes option"
  rw_decode :: "bytes \<Rightarrow> hub_report_dto option"

definition report_decode :: "report_wire \<Rightarrow> (string \<Rightarrow> u128 option) \<Rightarrow> bytes \<Rightarrow> report_refusal + hub_report" where
  "report_decode W uuid_parse bs = rbind (ok_or NotAReport (rw_decode W bs)) (hub_report_try_from uuid_parse)"

section \<open>What serde promises\<close>

text \<open>A map is read back by its keys, and those the reader does not name are ignored.\<close>

definition snapshot_read :: "snapshot_dto \<Rightarrow> hub_snapshot_dto" where
  "snapshot_read d = \<lparr>hs_collected_at = sd_collected_at d, hs_info = sd_info d, hs_cpu_percent = sd_cpu_percent d, hs_memory_percent = sd_memory_percent d,
     hs_memory_total_bytes = sd_memory_total_bytes d, hs_memory_total_display = sd_memory_total_display d, hs_swap_percent = sd_swap_percent d,
     hs_load_one = sd_load_one d, hs_load_five = sd_load_five d, hs_uptime_display = sd_uptime_display d, hs_disks = sd_disks d\<rparr>"

definition report_read :: "report_dto \<Rightarrow> hub_report_dto" where
  "report_read d = \<lparr>hd_kind = dt_kind d, hd_run = dt_run d, hd_seq = dt_seq d, hd_created_at = dt_created_at d, hd_interval_secs = dt_interval_secs d,
     hd_reason = dt_reason d, hd_snapshots = map snapshot_read (dt_snapshots d), hd_alerts = dt_alerts d, hd_round = dt_round d\<rparr>"

definition report_wire_ok :: "report_wire \<Rightarrow> bool" where
  "report_wire_ok W \<longleftrightarrow> (\<forall>d bs. rw_encode W d = Some bs \<longrightarrow> rw_decode W bs = Some (report_read d))"

section \<open>The agent's report at the hub\<close>

lemma report_time_small: "v < 2 ^ 63 \<Longrightarrow> report_time v = Inr (SnapshotTime v)"
  by (simp add: report_time_def snapshot_time_try_from_def signed_try_from_def map_err_def word_less_nat_alt)

lemma adjacent_ordered: "sorted (map f xs) \<Longrightarrow> list_all (\<lambda>(a, b). f a \<le> f b) (zip xs (tl xs))"
  by (induction xs rule: induct_list012) auto

lemma snapshot_dto_time [simp]: "hs_collected_at (snapshot_read (snapshot_dto_of s newest)) = ms_collected_at s"
  by (simp add: snapshot_read_def snapshot_dto_of_def split: prod.splits)

lemma mailed_snapshot_read:
  assumes "ms_collected_at s < 2 ^ 63"
  obtains m where "mailed_snapshot_try_from (snapshot_read (snapshot_dto_of s newest)) = Inr m" and "st_seconds (mn_time m) = ms_collected_at s"
  using report_time_small [OF assms] by (simp add: mailed_snapshot_try_from_def Let_def)

lemma map_result_related:
  assumes "\<And>x. x \<in> set xs \<Longrightarrow> \<exists>y. f x = Inr y \<and> g y = h x"
  shows "\<exists>ys. map_result f xs = Inr ys \<and> map g ys = map h xs"
  using assms by (induction xs) fastforce+

lemma alert_accepted:
  assumes "length (ma_id a) \<le> 64" and "length (ma_fired_at a) \<le> 64" and "length (ma_message a) \<le> 512"
  shows "mailed_alert_try_from (alert_dto_of a) = Inr (alert_dto_of a)"
proof -
  have "length (metric_wire m) \<le> 64" "length (severity_wire v) \<le> 64" for m v
    by (cases m; simp add: metric_wire_def) (cases v; simp add: severity_wire_def)
  then show ?thesis using assms by (simp add: mailed_alert_try_from_def alert_dto_of_def MAX_MESSAGE_BYTES_def MAX_FIELD_BYTES_def str_def not_less)
qed

lemma samples_accepted:
  assumes "samples \<noteq> []" and "length samples \<le> 60" and "sorted (map ms_collected_at samples)"
    and "\<forall>s\<in>set samples. sat_sub created_at (secs + 120) \<le> ms_collected_at s \<and> ms_collected_at s \<le> sat_add created_at 5 \<and> ms_collected_at s < 2 ^ 63"
  shows "\<exists>ms. report_samples (map snapshot_read (map (\<lambda>(k, s). snapshot_dto_of s (k = newest)) (enumerate 0 samples))) created_at (HubInterval secs) = Inr ms
    \<and> map (st_seconds \<circ> mn_time) ms = map ms_collected_at samples"
proof -
  let ?dtos = "map snapshot_read (map (\<lambda>(k, s). snapshot_dto_of s (k = newest)) (enumerate 0 samples))"
  have times: "map hs_collected_at ?dtos = map ms_collected_at samples"
  proof -
    have "map hs_collected_at ?dtos = map ms_collected_at (map snd (enumerate 0 samples))" by (auto simp del: map_snd_enumerate)
    then show ?thesis by simp
  qed
  have "sorted (map hs_collected_at ?dtos)" using assms(3) unfolding times .
  then have ordered: "list_all (\<lambda>(a, b). hs_collected_at a \<le> hs_collected_at b) (zip ?dtos (tl ?dtos))" by (rule adjacent_ordered)
  have "\<forall>x\<in>set (map hs_collected_at ?dtos). sat_sub created_at (secs + 120) \<le> x \<and> x \<le> sat_add created_at 5"
    using assms(4) unfolding times by auto
  then have bounds: "list_all (\<lambda>d. sat_sub created_at (secs + 120) \<le> hs_collected_at d \<and> hs_collected_at d \<le> sat_add created_at 5) ?dtos"
    unfolding list_all_iff by auto
  have "\<exists>y. mailed_snapshot_try_from d = Inr y \<and> (st_seconds \<circ> mn_time) y = hs_collected_at d" if d: "d \<in> set ?dtos" for d
  proof -
    obtain k s where "s \<in> set samples" "d = snapshot_read (snapshot_dto_of s (k = newest))"
      using d by (auto simp: in_set_enumerate_eq) (metis nth_mem)
    then show ?thesis using assms(4) mailed_snapshot_read [of s "k = newest"] by (metis comp_apply snapshot_dto_time)
  qed
  from map_result_related [of ?dtos mailed_snapshot_try_from "st_seconds \<circ> mn_time" hs_collected_at, OF this] obtain ms where "map_result mailed_snapshot_try_from ?dtos = Inr ms" "map (st_seconds \<circ> mn_time) ms = map ms_collected_at samples"
    unfolding times by blast
  moreover have "enumerate 0 samples \<noteq> []" using assms(1) by (metis length_0_conv length_enumerate)
  ultimately show ?thesis using assms(2) bounds ordered
    by (simp add: report_samples_def MAX_MAILED_SNAPSHOTS_def SAMPLE_SLACK_BEFORE_def SAMPLE_SLACK_AFTER_def Let_def del: map_map)
qed

text \<open>C24. The hub takes the reports the agent makes: a report the agent closes, whose samples are in order and
  within the interval and slack the hub allows around its creation, and whose alert ids and times are at
  most 64 bytes, is read by the hub with its id, times, interval, reason, alerts and round.\<close>

theorem mailed_report_accepted:
  assumes "report_wire_ok W" and "\<And>u. uuid_parse (uuid u) = Some u" and "mail_interval_try_from secs = Inr interval"
    and "client_run interval ts (client_new run sampling interval start) = (reports, c)" and "(t, r) \<in> set reports"
    and "rw_encode W (report_dto_of_mail uuid r) = Some bs" and "mt_created_at t < 2 ^ 63"
    and "\<forall>s\<in>set (mr_snapshots r). sat_sub (mt_created_at t) (secs + 120) \<le> ms_collected_at s
      \<and> ms_collected_at s \<le> sat_add (mt_created_at t) 5 \<and> ms_collected_at s < 2 ^ 63"
    and "sorted (map ms_collected_at (mr_snapshots r))" and "\<forall>a\<in>set (mr_alerts r). length (ma_id a) \<le> 64 \<and> length (ma_fired_at a) \<le> 64"
  shows "\<exists>R. report_decode W uuid_parse bs = Inr R \<and> hr_id R = \<lparr>hi_run = as_uuid run, hi_seq = ri_seq (mr_id r)\<rparr>
    \<and> hr_created_at R = SnapshotTime (mt_created_at t) \<and> hr_interval R = HubInterval secs
    \<and> hr_reason R = (case mr_reason r of ReasonScheduled \<Rightarrow> HubScheduled | ReasonIncident \<Rightarrow> HubIncident)
    \<and> map (st_seconds \<circ> mn_time) (hr_snapshots R) = map ms_collected_at (mr_snapshots r)
    \<and> hr_alerts R = map alert_dto_of (mr_alerts r) \<and> hr_round_frame R = map_option (frame_of uuid) (mt_round t)"
proof -
  have "batch_ok (mc_batch (client_new run sampling interval start))" by (simp add: client_new_def batch_new_ok)
  note closed = client_run_reports [OF this assms(4)]
  have r: "report_ok r" "mr_interval r = interval" "mr_created_at r = mt_created_at t" "mr_round r = mt_round t" using closed assms(5) by auto
  have "mr_id r \<in> set (map (mr_id \<circ> snd) reports)" using assms(5) by force
  then have run: "ri_run (mr_id r) = run" using closed by (auto simp: client_new_def mail_batch_new_def)
  have secs: "interval = MailInterval secs" "hub_interval_try_from secs = Inr (HubInterval secs)"
    using assms(3) by (auto simp: mail_interval_try_from_def hub_interval_try_from_def split: if_splits)
  obtain ms where samples: "report_samples (map snapshot_read (map (\<lambda>(k, s). snapshot_dto_of s (k = length (mr_snapshots r) - 1)) (enumerate 0 (mr_snapshots r))))
        (mt_created_at t) (HubInterval secs) = Inr ms" "map (st_seconds \<circ> mn_time) ms = map ms_collected_at (mr_snapshots r)"
    using samples_accepted [of "mr_snapshots r" "mt_created_at t" secs] assms(8,9) r(1) by (auto simp: report_ok_def MAX_SAMPLES_def)
  have "length (ma_message a) \<le> 512" if "a \<in> set (mr_alerts r)" for a
    using that r(1) length_cut_to by (auto simp: report_ok_def alerts_ok_def mailed_alert_of_def MAX_ALERT_MESSAGE_BYTES_def)
  then have alerts: "map_result mailed_alert_try_from (map alert_dto_of (mr_alerts r)) = Inr (map alert_dto_of (mr_alerts r))"
    using assms(10) alert_accepted by (intro map_result_Inr) auto
  have few: "length (mr_alerts r) \<le> 64" using r(1) by (simp add: report_ok_def alerts_ok_def MAX_ALERTS_def)
  have "rw_decode W bs = Some (report_read (report_dto_of_mail uuid r))" using assms(1,6) by (simp add: report_wire_ok_def)
  then show ?thesis
    using samples alerts few report_time_small [OF assms(7)] run secs r assms(2)
    by (cases "mr_reason r")
       (simp_all add: report_decode_def ok_or_def report_read_def report_dto_of_mail_def hub_report_try_from_def Let_def MAX_MAILED_ALERTS_def reason_of_def reason_wire_def
         del: map_map)
qed

definition example_report :: mail_report where
  "example_report = \<lparr>mr_id = \<lparr>ri_run = AgentRun 7, ri_seq = 1\<rparr>, mr_created_at = 1001, mr_interval = MailInterval 60, mr_reason = ReasonScheduled,
     mr_snapshots = [example_sample 1000], mr_alerts = [], mr_round = None\<rparr>"

theorem mailed_report_accepted_witness:
  "\<exists>R. report_decode \<lparr>rw_encode = (\<lambda>d. if d = report_dto_of_mail (\<lambda>u. show_nat (unat u)) example_report then Some [] else None),
        rw_decode = (\<lambda>_. Some (report_read (report_dto_of_mail (\<lambda>u. show_nat (unat u)) example_report)))\<rparr>
      (\<lambda>s. Some (of_nat (digits_value s))) [] = Inr R
    \<and> hr_id R = \<lparr>hi_run = 7, hi_seq = 1\<rparr> \<and> map (st_seconds \<circ> mn_time) (hr_snapshots R) = [1000]"
proof -
  let ?uuid = "\<lambda>u :: u128. show_nat (unat u)"
  let ?W = "\<lparr>rw_encode = (\<lambda>d. if d = report_dto_of_mail ?uuid example_report then Some [] else None),
        rw_decode = (\<lambda>_. Some (report_read (report_dto_of_mail ?uuid example_report)))\<rparr>"
  have wire: "report_wire_ok ?W" by (simp add: report_wire_ok_def)
  have uuid: "(\<lambda>s. Some (of_nat (digits_value s))) (?uuid u) = Some u" for u by simp
  have interval: "mail_interval_try_from 60 = Inr (MailInterval 60)" by (simp add: mail_interval_try_from_def)
  obtain c where run: "client_run (MailInterval 60) [example_tick] (client_new (AgentRun 7) (SampleInterval (10 ^ 10)) (MailInterval 60) 0)
      = ([(example_tick, example_report)], c)"
    by (simp add: example_tick_def example_report_def client_new_def mail_batch_new_def client_tick_def client_gather_def batch_offer_def batch_note_alerts_def
        client_due_def interval_nanos_def batch_close_def Let_def MAX_SAMPLES_def)
  have encoded: "rw_encode ?W (report_dto_of_mail ?uuid example_report) = Some []" by simp
  have fits: "sat_sub (1001 :: u64) (60 + 120) \<le> 1000" "(1000 :: u64) \<le> sat_add 1001 5" by (simp_all add: sat_sub_def sat_add_def)
  show ?thesis
    using mailed_report_accepted [OF wire uuid interval run list.set_intros(1) encoded] fits
    by (auto simp: example_report_def example_tick_def example_sample_def)
qed

end
