(* ===== verification/Mail_Intake.thy ===== *)
theory Mail_Intake
  imports Mail_Seal Mail_Report
begin

text \<open>
  The hub's mail intake: the receipt rules (\<open>system-hub/src/mail_intake/receipt.rs\<close>), the transaction of one
  report (\<open>db/mail.rs\<close>), the ingestion of one message (\<open>mail_intake/ingest.rs\<close>), the scan of the Maildir
  (\<open>mail_intake/scan.rs\<close>), the overdue sweep (\<open>mail_intake/overdue.rs\<close>) and what a system's deletion does to
  its rows (\<open>delete_system\<close> of \<open>db/mod.rs\<close>).  The mail parser is a parameter: the decoded text parts of a
  message, when it can read it.  SQLite's tables are lists and maps; a failed transaction leaves them as
  they were.
\<close>

section \<open>The receipt rules\<close>

definition RECEIPT_WINDOW_SECS :: u64 where
  "RECEIPT_WINDOW_SECS = 7 * 86400"

definition FUTURE_SLACK_SECS :: u64 where
  "FUTURE_SLACK_SECS = 5 * 60"

definition OVERDUE_MARGIN_SECS :: u64 where
  "OVERDUE_MARGIN_SECS = 15 * 60"

datatype stale_report = FromTheFuture | TooOld

definition fresh_report :: "snapshot_time \<Rightarrow> snapshot_time \<Rightarrow> stale_report + unit" where
  "fresh_report created_at now =
     (let age = sint (st_seconds now) - sint (st_seconds created_at)
      in if age < - uint FUTURE_SLACK_SECS then Inl FromTheFuture
         else if uint RECEIPT_WINDOW_SECS < age then Inl TooOld
         else Inr ())"

datatype recency = Newest | Backfill

definition recency_of :: "snapshot_time \<Rightarrow> snapshot_time option \<Rightarrow> recency" where
  "recency_of created_at previous_newest = (case previous_newest of
       Some newest \<Rightarrow> if sint (st_seconds created_at) < sint (st_seconds newest) then Backfill else Newest
     | None \<Rightarrow> Newest)"

datatype mail_presence_status = OnTime | Overdue

definition mail_status :: "(snapshot_time \<times> hub_interval) option \<Rightarrow> snapshot_time \<Rightarrow> mail_presence_status" where
  "mail_status newest now = (case newest of
       None \<Rightarrow> Overdue
     | Some (reported_at, interval) \<Rightarrow>
         let limit = uint (3 * hi_secs interval + OVERDUE_MARGIN_SECS);
             silent_for = sint (st_seconds now) - sint (st_seconds reported_at)
         in if limit < silent_for then Overdue else OnTime)"

section \<open>The tables\<close>

record mail_receipt =
  rc_run :: string
  rc_seq :: u64
  rc_created_at :: snapshot_time
  rc_interval_secs :: u64
  rc_received_at :: snapshot_time

text \<open>A row of \<open>mail_receipts\<close>: its system, the receipt and whether it is retired.\<close>

record receipt_row =
  rr_system :: bytes
  rr_receipt :: mail_receipt
  rr_retired :: bool

record alert_record =
  al_id :: bytes
  al_system_id :: bytes
  al_system_name :: bytes
  al_severity :: bytes
  al_message :: bytes
  al_current_value :: f32
  al_fired_at :: bytes
  al_stored_at :: bytes
  al_acknowledged :: bool

record mail_app =
  mx_systems :: systems_table
  mx_metrics :: "metric_row list"
  mx_retention :: retention_table
  mx_live :: live_table
  mx_rounds :: "string \<rightharpoonup> system_applications"
  mx_alerts :: "alert_record list"
  mx_receipts :: "receipt_row list"

text \<open>\<open>INSERT OR IGNORE\<close>: neither a second row of an id nor a value SQLite takes as null, which NaN is, is kept.\<close>

definition insert_alert_record :: "alert_record list \<Rightarrow> alert_record \<Rightarrow> alert_record list" where
  "insert_alert_record alerts a = (if al_id a \<in> al_id ` set alerts \<or> f32_is_nan (al_current_value a) then alerts else alerts @ [a])"

record mail_write =
  mw_system_id :: system_id
  mw_system :: system_info
  mw_receipt :: mail_receipt
  mw_snapshots :: "(snapshot \<times> snapshot_time) list"
  mw_status :: status_update
  mw_alerts :: "alert_record list"
  mw_now :: snapshot_time
  mw_prune_before :: snapshot_time

datatype 'r mail_stored = ReportStored recency nat "'r option" | ReportDuplicate | ReportMismatch

record mail_presence_row =
  mp_id :: bytes
  mp_status :: system_status
  mp_enabled :: bool
  mp_newest :: "(snapshot_time \<times> hub_interval) option"

definition current_receipts :: "receipt_row list \<Rightarrow> bytes \<Rightarrow> mail_receipt list" where
  "current_receipts receipts i = map rr_receipt (filter (\<lambda>r. rr_system r = i \<and> \<not> rr_retired r) receipts)"

text \<open>\<open>SELECT MAX(created_at)\<close> of a system's current receipts.\<close>

definition max_created_at :: "receipt_row list \<Rightarrow> bytes \<Rightarrow> int option" where
  "max_created_at receipts i = (case map (\<lambda>r. sint (st_seconds (rc_created_at r))) (current_receipts receipts i) of
     [] \<Rightarrow> None | ts \<Rightarrow> Some (Max (set ts)))"

text \<open>\<open>ORDER BY created_at DESC LIMIT 1\<close>; of those of one second, the row the index holds last.\<close>

definition newest_receipt :: "receipt_row list \<Rightarrow> bytes \<Rightarrow> mail_receipt option" where
  "newest_receipt receipts i = (case max_created_at receipts i of
     None \<Rightarrow> None
   | Some t \<Rightarrow> Some (last (filter (\<lambda>r. sint (st_seconds (rc_created_at r)) = t) (current_receipts receipts i))))"

definition presence_row :: "bytes option \<Rightarrow> bytes option \<Rightarrow> bool option \<Rightarrow> i64 option \<Rightarrow> i64 option \<Rightarrow> mail_presence_row option" where
  "presence_row i status enabled created_at secs =
     (let created_at = Option.bind (Option.bind created_at unsigned_try_from) (\<lambda>secs. ok (snapshot_time_try_from secs));
          interval = Option.bind (Option.bind secs unsigned_try_from) (\<lambda>secs. ok (hub_interval_try_from secs))
      in Option.bind i (\<lambda>i. Option.bind status (\<lambda>status. Option.bind enabled (\<lambda>enabled.
           Some \<lparr>mp_id = i, mp_status = parse_status status, mp_enabled = enabled,
             mp_newest = (case (created_at, interval) of (Some t, Some v) \<Rightarrow> Some (t, v) | _ \<Rightarrow> None)\<rparr>))))"

text \<open>The rows of the mail systems, in the order SQLite hands over the ids of the table.\<close>

definition mail_presence :: "bytes list \<Rightarrow> mail_app \<Rightarrow> mail_presence_row list" where
  "mail_presence ids app = List.map_filter (\<lambda>i. Option.bind (mx_systems app i) (\<lambda>s.
     if si_url s = MAIL_URL
     then (let r = newest_receipt (mx_receipts app) i
           in presence_row (Some i) (Some (status_show (si_status s))) (Some (si_enabled s))
                (map_option (\<lambda>r. st_seconds (rc_created_at r)) r) (map_option rc_interval_secs r))
     else None)) ids"

definition mark_mail_overdue :: "mail_app \<Rightarrow> bytes \<Rightarrow> snapshot_time option \<Rightarrow> bytes \<Rightarrow> bool \<times> mail_app" where
  "mark_mail_overdue app i newest last_error = (case mx_systems app i of
     None \<Rightarrow> (False, app)
   | Some s \<Rightarrow>
       if si_status s \<noteq> Offline \<and> max_created_at (mx_receipts app) i = map_option (\<lambda>t. sint (st_seconds t)) newest
       then (True, app\<lparr>mx_systems := (mx_systems app)(i \<mapsto> s\<lparr>si_status := Offline, si_last_error := Some last_error\<rparr>)\<rparr>)
       else (False, app))"

definition known_url :: "systems_table \<Rightarrow> system_info \<Rightarrow> bool option" where
  "known_url systems system = map_option (\<lambda>s. si_url s = si_url system) (systems (si_id system))"

definition insert_mail_system :: "systems_table \<Rightarrow> system_info \<Rightarrow> systems_table" where
  "insert_mail_system systems system = (case systems (si_id system) of None \<Rightarrow> systems(si_id system \<mapsto> system) | Some _ \<Rightarrow> systems)"

definition newest_current_receipt :: "receipt_row list \<Rightarrow> system_id \<Rightarrow> snapshot_time option" where
  "newest_current_receipt receipts i = Option.bind (max_created_at receipts (id_str i)) (\<lambda>secs.
     Option.bind (unsigned_try_from (word_of_int secs :: i64)) (\<lambda>secs. ok (snapshot_time_try_from secs)))"

text \<open>\<open>None\<close>: SQLite's integers are signed and the sequence does not fit.\<close>

definition insert_receipt :: "receipt_row list \<Rightarrow> system_id \<Rightarrow> mail_receipt \<Rightarrow> (bool \<times> receipt_row list) option" where
  "insert_receipt receipts i receipt =
     (if signed_try_from (rc_seq receipt) = None then None
      else if list_ex (\<lambda>r. rr_system r = id_str i \<and> rc_run (rr_receipt r) = rc_run receipt \<and> rc_seq (rr_receipt r) = rc_seq receipt) receipts
      then Some (False, receipts)
      else Some (True, receipts @ [\<lparr>rr_system = id_str i, rr_receipt = receipt, rr_retired = False\<rparr>]))"

definition store_sample ::
  "retention_table \<Rightarrow> system_id \<Rightarrow> snapshot_time \<Rightarrow> nat \<times> (snapshot \<times> snapshot_time) option \<times> metric_row list \<Rightarrow> snapshot \<times> snapshot_time
    \<Rightarrow> nat \<times> (snapshot \<times> snapshot_time) option \<times> metric_row list" where
  "store_sample retention i now st sample = (case (st, sample) of ((expired, _, metrics), (s, time)) \<Rightarrow>
     case store_unexpired_points retention i s time (Some now) metrics of (n, metrics) \<Rightarrow> (expired + n, Some (s, time), metrics))"

definition store_samples ::
  "retention_table \<Rightarrow> system_id \<Rightarrow> (snapshot \<times> snapshot_time) list \<Rightarrow> snapshot_time \<Rightarrow> metric_row list
    \<Rightarrow> nat \<times> (snapshot \<times> snapshot_time) option \<times> metric_row list" where
  "store_samples retention i samples now metrics = foldl (store_sample retention i now) (0, None, metrics) samples"

definition prune_receipts :: "receipt_row list \<Rightarrow> system_id \<Rightarrow> snapshot_time \<Rightarrow> receipt_row list" where
  "prune_receipts receipts i before =
     (let newest = max_created_at receipts (id_str i)
      in filter (\<lambda>r. \<not> (rr_system r = id_str i \<and> sint (st_seconds (rc_created_at (rr_receipt r))) < sint (st_seconds before)
           \<and> (rr_retired r \<or> (case newest of Some t \<Rightarrow> sint (st_seconds (rc_created_at (rr_receipt r))) < t | None \<Rightarrow> False)))) receipts)"

datatype 'e mail_db_error = SqlFailed 'e | IntegerTooLarge

definition store_mail_report ::
  "'e option \<Rightarrow> mail_app \<Rightarrow> mail_write \<Rightarrow> (snapshot_time option \<Rightarrow> recency) \<Rightarrow> (live_table \<Rightarrow> snapshot \<Rightarrow> snapshot_time \<Rightarrow> 'r \<times> live_table)
    \<Rightarrow> ('e mail_db_error + 'r mail_stored) \<times> mail_app" where
  "store_mail_report fails app w decide on_newest = (case fails of Some e \<Rightarrow> (Inl (SqlFailed e), app) | None \<Rightarrow>
     if known_url (mx_systems app) (mw_system w) = Some False then (Inr ReportMismatch, app)
     else let i = mw_system_id w;
         systems = (if known_url (mx_systems app) (mw_system w) = None then insert_mail_system (mx_systems app) (mw_system w) else mx_systems app);
         rec = decide (newest_current_receipt (mx_receipts app) i)
       in case insert_receipt (mx_receipts app) i (mw_receipt w) of
            None \<Rightarrow> (Inl IntegerTooLarge, app)
          | Some (False, _) \<Rightarrow> (Inr ReportDuplicate, app)
          | Some (True, receipts) \<Rightarrow>
              (case store_samples (mx_retention app) i (mw_snapshots w) (mw_now w) (mx_metrics app) of (expired, newest, metrics) \<Rightarrow>
               let app' = app\<lparr>mx_systems := (if rec = Newest then write_status (mw_status w) (id_str i) systems else systems),
                     mx_metrics := metrics, mx_alerts := foldl insert_alert_record (mx_alerts app) (mw_alerts w),
                     mx_receipts := prune_receipts receipts i (mw_prune_before w)\<rparr>
               in case (rec, newest) of
                    (Newest, Some (s, time)) \<Rightarrow> (case on_newest (mx_live app) s time of (replaced, live) \<Rightarrow>
                      (Inr (ReportStored rec expired (Some replaced)), app'\<lparr>mx_live := live\<rparr>))
                  | _ \<Rightarrow> (Inr (ReportStored rec expired None), app')))"

definition delete_system :: "'e option \<Rightarrow> mail_app \<Rightarrow> bytes \<Rightarrow> ('e + unit) \<times> mail_app" where
  "delete_system fails app i = (case fails of Some e \<Rightarrow> (Inl e, app) | None \<Rightarrow>
     (Inr (), app\<lparr>mx_metrics := filter (\<lambda>(j, _). j \<noteq> text_of i) (mx_metrics app),
        mx_alerts := filter (\<lambda>a. al_system_id a \<noteq> i) (mx_alerts app),
        mx_retention := (\<lambda>(j, metric). if j = text_of i then None else mx_retention app (j, metric)),
        mx_receipts := map (\<lambda>r. if rr_system r = i then r\<lparr>rr_retired := True\<rparr> else r) (mx_receipts app),
        mx_systems := (mx_systems app)(i := None)\<rparr>))"

section \<open>Ingesting a message\<close>

datatype ingested = IngestedStored recency nat | IngestedDuplicate

datatype message_refusal = NotAMessage | RefusedOpen open_refusal | RefusedReport report_refusal | RefusedStale stale_report
  | TransportMismatch | RefusedStore

text \<open>The armour of the first part that has it; \<open>refusal\<close> is what the parts before gave.\<close>

fun first_armour :: "mail_fns \<Rightarrow> open_refusal \<Rightarrow> string list \<Rightarrow> open_refusal + bytes" where
  "first_armour F refusal [] = Inl refusal"
| "first_armour F refusal (part # parts) = (case dearmour F part of
     Inr sealed \<Rightarrow> Inr sealed
   | Inl r \<Rightarrow> first_armour F (if r = SealedTooLarge then SealedTooLarge else refusal) parts)"

definition armoured_report :: "mail_fns \<Rightarrow> (bytes \<Rightarrow> string list option) \<Rightarrow> bytes \<Rightarrow> message_refusal + bytes" where
  "armoured_report F body_texts raw = rbind (ok_or NotAMessage (body_texts raw)) (\<lambda>parts.
     map_err RefusedOpen (first_armour F BadArmor parts))"

definition mail_row :: "system_id \<Rightarrow> system_info" where
  "mail_row i = \<lparr>si_id = id_str i, si_name = default_name i, si_url = MAIL_URL, si_token = [], si_status = UnknownStatus, si_last_seen = [],
     si_last_error = None, si_os = None, si_hostname = None, si_kernel = None, si_cpu_model = None, si_cpu_cores = None,
     si_total_memory_display = None, si_total_memory_bytes = None, si_poll_interval_secs = 10, si_enabled = True\<rparr>"

definition alert_records :: "system_id \<Rightarrow> hub_report \<Rightarrow> snapshot_time \<Rightarrow> alert_record list" where
  "alert_records i r now =
     (let stored_at = str (unix_to_iso8601 (st_unix_secs now))
      in map (\<lambda>a. \<lparr>al_id = id_str i @ str ''_'' @ ad_id a, al_system_id = id_str i, al_system_name = id_str i, al_severity = ad_severity a,
           al_message = ad_message a, al_current_value = ad_current_value a, al_fired_at = ad_fired_at a, al_stored_at = stored_at,
           al_acknowledged = False\<rparr>) (hr_alerts r))"

definition reported_info_of :: "mailed_snapshot \<Rightarrow> reported_info option" where
  "reported_info_of sample = map_option (\<lambda>info. \<lparr>ri_hostname = mo_hostname info, ri_os_name = mo_os_name info, ri_kernel = mo_kernel info,
     ri_cpu_model = mo_cpu_model info, ri_cpu_cores = mo_cpu_cores info, ri_memory = mn_memory sample\<rparr>) (mn_info sample)"

definition mail_write_of :: "(u128 \<Rightarrow> string) \<Rightarrow> system_id \<Rightarrow> system_info \<Rightarrow> mailed_snapshot list \<Rightarrow> snapshot_time \<Rightarrow> hub_report \<Rightarrow> mail_write \<times> left_out" where
  "mail_write_of uuid i row samples now r =
     (let ruled = map (\<lambda>sample. (snapshot_rule (mn_reported sample), mn_time sample)) samples
      in (\<lparr>mw_system_id = i, mw_system = row,
            mw_receipt = \<lparr>rc_run = uuid (hi_run (hr_id r)), rc_seq = hi_seq (hr_id r), rc_created_at = hr_created_at r,
              rc_interval_secs = hi_secs (hr_interval r), rc_received_at = now\<rparr>,
            mw_snapshots = map (\<lambda>((s, _), time). (s, time)) ruled,
            mw_status = after_snapshot (ReportedAt (hr_created_at r)), mw_alerts = alert_records i r now,
            mw_now = now, mw_prune_before = st_cutoff now RECEIPT_WINDOW_SECS\<rparr>,
          case ruled of [] \<Rightarrow> left_out_default | _ \<Rightarrow> snd (fst (last ruled))))"

text \<open>How SQLite answers the statements after the transaction.\<close>

record 'e mail_db =
  mb_store :: "'e option"
  mb_fill :: "'e fill_db"
  mb_round_exists :: "'e option"
  mb_round :: "'e option"

text \<open>What stands for code the intake calls: the packages, the mail parser, serde, the text of a UUID and the digest of a round.\<close>

record mail_env =
  me_fns :: mail_fns
  me_body_texts :: "bytes \<Rightarrow> string list option"
  me_wire :: report_wire
  me_uuid :: "u128 \<Rightarrow> string"
  me_uuid_parse :: "string \<Rightarrow> u128 option"
  me_digest :: "scrape_round \<Rightarrow> round_digest"

definition after_newest ::
  "mail_env \<Rightarrow> 'e mail_db \<Rightarrow> mail_app \<Rightarrow> system_id \<Rightarrow> reported_info option \<Rightarrow> scrape_round option \<Rightarrow> snapshot_time \<Rightarrow> instant \<Rightarrow> mail_app" where
  "after_newest E db app i info rnd now inst =
     (let app = (case info of Some info \<Rightarrow> app\<lparr>mx_systems := fill_registry (mb_fill db) (mx_systems app) i info\<rparr> | None \<Rightarrow> app)
      in case rnd of
           None \<Rightarrow> app
         | Some rnd \<Rightarrow>
             (case store_round (me_digest E)
                \<lparr>db_exists = (case mb_round_exists db of Some e \<Rightarrow> Inl e | None \<Rightarrow> Inr (mx_systems app (id_str i) \<noteq> None)), db_transaction = mb_round db\<rparr>
                \<lparr>ra_live = mx_rounds app, ra_metrics = mx_metrics app\<rparr> (text_of (id_str i)) rnd (source_pace_new inst)
                \<lparr>av_now = inst, av_received_at = st_unix_secs now\<rparr> of
              (_, _, rounds) \<Rightarrow> app\<lparr>mx_rounds := ra_live rounds, mx_metrics := ra_metrics rounds\<rparr>))"

definition mail_outcome ::
  "mail_env \<Rightarrow> 'e mail_db \<Rightarrow> mail_app \<Rightarrow> system_id \<Rightarrow> 'e mail_db_error + 'r mail_stored \<Rightarrow> reported_info option \<Rightarrow> scrape_round option \<Rightarrow> snapshot_time \<Rightarrow> instant
    \<Rightarrow> (message_refusal + ingested) \<times> mail_app" where
  "mail_outcome E db app i stored info rnd now inst = (case stored of
       Inr (ReportStored rec expired _) \<Rightarrow>
         (Inr (IngestedStored rec expired), if rec = Newest then after_newest E db app i info rnd now inst else app)
     | Inr ReportDuplicate \<Rightarrow> (Inr IngestedDuplicate, app)
     | Inr ReportMismatch \<Rightarrow> (Inl TransportMismatch, app)
     | Inl _ \<Rightarrow> (Inl RefusedStore, app))"

definition store_report ::
  "mail_env \<Rightarrow> 'e mail_db \<Rightarrow> mail_app \<Rightarrow> system_id \<Rightarrow> hub_report \<Rightarrow> snapshot_time \<Rightarrow> instant \<Rightarrow> (message_refusal + ingested) \<times> mail_app" where
  "store_report E db app i r now inst =
     (let info = (case hr_snapshots r of [] \<Rightarrow> None | samples \<Rightarrow> reported_info_of (last samples));
          rnd = Option.bind (hr_round_frame r) (\<lambda>frame. ok (round_of_frame (me_uuid_parse E) frame))
      in case mail_write_of (me_uuid E) i (mail_row i) (hr_snapshots r) now r of (w, newest_left_out) \<Rightarrow>
         (case store_mail_report (mb_store db) app w (recency_of (hr_created_at r))
                 (\<lambda>live s time. keep_live_metrics live i s time newest_left_out inst) of
            (stored, app) \<Rightarrow> mail_outcome E db app i stored info rnd now inst))"

definition opened_message :: "mail_env \<Rightarrow> mail_master_key \<Rightarrow> bytes \<Rightarrow> message_refusal + system_id \<times> hub_report" where
  "opened_message E master raw =
     rbind (armoured_report (me_fns E) (me_body_texts E) raw) (\<lambda>sealed.
     rbind (map_err RefusedOpen (open_sealed (me_fns E) sealed master)) (\<lambda>(i, plaintext).
     rbind (map_err RefusedReport (report_decode (me_wire E) (me_uuid_parse E) plaintext)) (\<lambda>r. Inr (i, r))))"

definition ingest_message ::
  "mail_env \<Rightarrow> 'e mail_db \<Rightarrow> mail_app \<Rightarrow> mail_master_key \<Rightarrow> bytes \<Rightarrow> u64 \<Rightarrow> instant \<Rightarrow> (message_refusal + ingested) \<times> mail_app" where
  "ingest_message E db app master raw now inst =
     (case rbind (opened_message E master raw) (\<lambda>(i, r).
           rbind (map_err (\<lambda>_. RefusedStore) (snapshot_time_try_from now)) (\<lambda>now.
           rbind (map_err RefusedStale (fresh_report (hr_created_at r) now)) (\<lambda>_. Inr (i, r, now)))) of
        Inl refusal \<Rightarrow> (Inl refusal, app)
      | Inr (i, r, now) \<Rightarrow> store_report E db app i r now inst)"

section \<open>The overdue sweep\<close>

definition OVERDUE :: bytes where
  "OVERDUE = str ''mail overdue''"

definition is_overdue :: "mail_presence_row \<Rightarrow> snapshot_time \<Rightarrow> bool" where
  "is_overdue row now =
     (let swept = (case mp_status row of Offline \<Rightarrow> False | Online \<Rightarrow> mp_enabled row | UnknownStatus \<Rightarrow> mp_enabled row)
      in swept \<and> mail_status (mp_newest row) now = Overdue)"

definition overdue_row :: "snapshot_time \<Rightarrow> nat \<times> mail_app \<Rightarrow> mail_presence_row \<Rightarrow> nat \<times> mail_app" where
  "overdue_row now st row = (case st of (marked, app) \<Rightarrow>
     if is_overdue row now
     then (case mark_mail_overdue app (mp_id row) (map_option fst (mp_newest row)) OVERDUE of
         (True, app) \<Rightarrow> (marked + 1, app\<lparr>mx_live := evict_live_metrics (mx_live app) (mp_id row)\<rparr>)
       | (False, app) \<Rightarrow> (marked, app))
     else (marked, app))"

definition overdue_pass :: "bytes list \<Rightarrow> mail_app \<Rightarrow> snapshot_time \<Rightarrow> nat \<times> mail_app" where
  "overdue_pass ids app now = foldl (overdue_row now) (0, app) (mail_presence ids app)"

section \<open>The Maildir\<close>

definition MAX_MESSAGES_PER_SCAN :: nat where
  "MAX_MESSAGES_PER_SCAN = 256"

definition MAX_MAIL_BYTES :: u64 where
  "MAX_MAIL_BYTES = 1024 * 1024"

datatype refused = RefusedTooLarge | RefusedMessage message_refusal

record scan_pass =
  sc_stored :: nat
  sc_duplicates :: nat
  sc_refused :: "(refused \<times> nat) list"
  sc_stuck :: nat

definition scan_pass_default :: scan_pass where
  "scan_pass_default = \<lparr>sc_stored = 0, sc_duplicates = 0, sc_refused = [], sc_stuck = 0\<rparr>"

text \<open>An entry of \<open>new/\<close> and how the file system answers about it: its kind, its length, its bytes, its removal.\<close>

record mail_file =
  mf_name :: bytes
  mf_is_file :: bool
  mf_len :: "u64 option"
  mf_raw :: "bytes option"
  mf_removes :: bool

definition oldest_messages :: "mail_file list \<Rightarrow> mail_file list" where
  "oldest_messages entries = take MAX_MESSAGES_PER_SCAN (sort_key mf_name (filter mf_is_file entries))"

datatype scan_outcome = OutcomeIngested ingested | OutcomeRefused refused

definition handle_message ::
  "mail_env \<Rightarrow> 'e mail_db \<Rightarrow> mail_app \<Rightarrow> mail_master_key \<Rightarrow> mail_file \<Rightarrow> u64 \<Rightarrow> instant \<Rightarrow> scan_outcome option \<times> mail_app" where
  "handle_message E db app key f now inst = (case mf_len f of
     None \<Rightarrow> (None, app)
   | Some len \<Rightarrow>
       if MAX_MAIL_BYTES < len then (Some (OutcomeRefused RefusedTooLarge), app)
       else (case mf_raw f of
           None \<Rightarrow> (None, app)
         | Some raw \<Rightarrow> (case ingest_message E db app key raw now inst of
               (Inr ing, app) \<Rightarrow> (Some (OutcomeIngested ing), app)
             | (Inl refusal, app) \<Rightarrow> (Some (OutcomeRefused (RefusedMessage refusal)), app))))"

fun count_refused :: "refused \<Rightarrow> (refused \<times> nat) list \<Rightarrow> (refused \<times> nat) list" where
  "count_refused reason [] = [(reason, 1)]"
| "count_refused reason ((r, n) # rest) = (if r = reason then (r, n + 1) # rest else (r, n) # count_refused reason rest)"

definition scan_note :: "scan_pass \<Rightarrow> scan_outcome \<Rightarrow> scan_pass" where
  "scan_note pass outcome = (case outcome of
       OutcomeIngested (IngestedStored _ _) \<Rightarrow> pass\<lparr>sc_stored := sc_stored pass + 1\<rparr>
     | OutcomeIngested IngestedDuplicate \<Rightarrow> pass\<lparr>sc_duplicates := sc_duplicates pass + 1\<rparr>
     | OutcomeRefused reason \<Rightarrow> pass\<lparr>sc_refused := count_refused reason (sc_refused pass)\<rparr>)"

definition scan_message ::
  "mail_env \<Rightarrow> mail_master_key \<Rightarrow> u64 \<Rightarrow> scan_pass \<times> mail_app \<times> bytes list \<Rightarrow> mail_file \<times> 'e mail_db \<times> instant \<Rightarrow> scan_pass \<times> mail_app \<times> bytes list" where
  "scan_message E key now st x = (case (st, x) of ((pass, app, gone), (f, db, inst)) \<Rightarrow>
     (case handle_message E db app key f now inst of
        (None, app) \<Rightarrow> (pass\<lparr>sc_stuck := sc_stuck pass + 1\<rparr>, app, gone)
      | (Some outcome, app) \<Rightarrow>
          (let pass = scan_note pass outcome
           in if mf_removes f then (pass, app, mf_name f # gone) else (pass\<lparr>sc_stuck := sc_stuck pass + 1\<rparr>, app, gone))))"

text \<open>A scan, with how SQLite answers each message and when; \<open>None\<close>: the directory cannot be listed.  It gives the entries left.\<close>

definition scan_once ::
  "mail_env \<Rightarrow> mail_master_key \<Rightarrow> mail_file list option \<Rightarrow> (mail_file \<Rightarrow> 'e mail_db \<times> instant) \<Rightarrow> u64 \<Rightarrow> mail_app
    \<Rightarrow> scan_pass \<times> mail_app \<times> mail_file list" where
  "scan_once E key listed answers now app = (case listed of
     None \<Rightarrow> (scan_pass_default, app, [])
   | Some entries \<Rightarrow>
       (case foldl (scan_message E key now) (scan_pass_default, app, []) (map (\<lambda>f. (f, answers f)) (oldest_messages entries)) of
          (pass, app, gone) \<Rightarrow> (pass, app, filter (\<lambda>f. mf_name f \<notin> set gone) entries)))"

datatype scan_log = ScanQuiet | ScanWarn | ScanDebug

definition log_scan :: "scan_pass \<Rightarrow> instant option \<Rightarrow> instant \<Rightarrow> scan_log \<times> instant option" where
  "log_scan pass warned_at now =
     (if sc_refused pass = [] \<and> sc_stuck pass = 0 then (ScanQuiet, warned_at)
      else case hourly_warning_at warned_at now of Warn \<Rightarrow> (ScanWarn, Some now) | QuietWarning \<Rightarrow> (ScanDebug, warned_at))"

section \<open>The configuration\<close>

datatype mail_intake_config = MailOff | MailOn bytes mail_master_key

datatype mail_intake_config_error = HalfConfigured | KeyNotUnicode | MailConfigKey key_error

datatype var_error = NotPresent | NotUnicode

definition mail_config_from_env :: "mail_fns \<Rightarrow> bytes option \<Rightarrow> var_error + string \<Rightarrow> mail_intake_config_error + mail_intake_config" where
  "mail_config_from_env F dir key =
     (let dir = Option.bind dir (\<lambda>d. if d = [] then None else Some d)
      in rbind (case key of Inr k \<Rightarrow> Inr (if k = [] then None else Some k) | Inl NotPresent \<Rightarrow> Inr None | Inl NotUnicode \<Rightarrow> Inl KeyNotUnicode) (\<lambda>key.
         case (dir, key) of
           (None, None) \<Rightarrow> Inr MailOff
         | (Some d, Some k) \<Rightarrow> rbind (map_err MailConfigKey (master_from_base64 F k)) (\<lambda>master. Inr (MailOn d master))
         | _ \<Rightarrow> Inl HalfConfigured))"

section \<open>Receipts\<close>

definition created :: "mail_receipt \<Rightarrow> int" where
  "created r = sint (st_seconds (rc_created_at r))"

definition receipts_valid :: "receipt_row list \<Rightarrow> bool" where
  "receipts_valid receipts \<longleftrightarrow> (\<forall>r\<in>set receipts. 0 \<le> created (rr_receipt r)
     \<and> hub_interval_try_from (rc_interval_secs (rr_receipt r)) = Inr (HubInterval (rc_interval_secs (rr_receipt r))))"

lemma max_created_at_None: "max_created_at receipts i = None \<longleftrightarrow> current_receipts receipts i = []"
  by (auto simp: max_created_at_def split: list.splits)

lemma max_created_at_Some:
  "max_created_at receipts i = Some m \<longleftrightarrow> (\<exists>r\<in>set (current_receipts receipts i). created r = m) \<and> (\<forall>r\<in>set (current_receipts receipts i). created r \<le> m)"
proof (cases "current_receipts receipts i")
  case (Cons r rs)
  have "max_created_at receipts i = Some (Max (set (map created (current_receipts receipts i))))"
    by (simp add: max_created_at_def Cons created_def [abs_def])
  then show ?thesis using Max_eq_iff [of "set (map created (current_receipts receipts i))" m] Cons by auto
qed (simp add: max_created_at_def)

lemma in_current_receipts: "r \<in> set (current_receipts receipts i) \<longleftrightarrow> (\<exists>row\<in>set receipts. rr_system row = i \<and> \<not> rr_retired row \<and> rr_receipt row = r)"
  by (auto simp: current_receipts_def)

lemma prune_receipts_set:
  "row \<in> set (prune_receipts receipts i before) \<longleftrightarrow> row \<in> set receipts \<and> \<not> (rr_system row = id_str i \<and> created (rr_receipt row) < sint (st_seconds before)
     \<and> (rr_retired row \<or> (\<exists>m. max_created_at receipts (id_str i) = Some m \<and> created (rr_receipt row) < m)))"
  by (auto simp: prune_receipts_def Let_def created_def split: option.splits)

lemma prune_keeps_newest: "max_created_at (prune_receipts receipts i before) j = max_created_at receipts j"
proof (cases "max_created_at receipts j")
  case None
  then have "current_receipts (prune_receipts receipts i before) j = []"
    by (auto simp: max_created_at_None prune_receipts_def current_receipts_def Let_def filter_empty_conv)
  then show ?thesis using None by (metis max_created_at_None)
next
  case (Some m)
  then obtain row where row: "row \<in> set receipts" "rr_system row = j" "\<not> rr_retired row" "created (rr_receipt row) = m"
    unfolding max_created_at_Some by (auto simp: in_current_receipts)
  then have "row \<in> set (prune_receipts receipts i before)" using Some by (auto simp: prune_receipts_set)
  then have "\<exists>r\<in>set (current_receipts (prune_receipts receipts i before) j). created r = m"
    using row in_current_receipts by blast
  moreover have "\<forall>r\<in>set (current_receipts (prune_receipts receipts i before) j). created r \<le> m"
  proof -
    have "set (current_receipts (prune_receipts receipts i before) j) \<subseteq> set (current_receipts receipts j)"
      by (auto simp: current_receipts_def prune_receipts_def Let_def)
    then show ?thesis using Some unfolding max_created_at_Some by blast
  qed
  ultimately have "max_created_at (prune_receipts receipts i before) j = Some m" unfolding max_created_at_Some by blast
  then show ?thesis using Some by simp
qed

lemma current_receipts_snoc:
  "current_receipts (receipts @ [row]) i = current_receipts receipts i @ (if rr_system row = i \<and> \<not> rr_retired row then [rr_receipt row] else [])"
  by (simp add: current_receipts_def)

lemma max_created_at_snoc:
  "max_created_at (receipts @ [\<lparr>rr_system = i, rr_receipt = r, rr_retired = False\<rparr>]) j =
     (if j = i then Some (case max_created_at receipts i of None \<Rightarrow> created r | Some m \<Rightarrow> max m (created r)) else max_created_at receipts j)"
proof (cases "j = i")
  case True
  have "max_created_at (receipts @ [\<lparr>rr_system = i, rr_receipt = r, rr_retired = False\<rparr>]) i
      = Some (case max_created_at receipts i of None \<Rightarrow> created r | Some m \<Rightarrow> max m (created r))"
  proof (cases "max_created_at receipts i")
    case None
    then have "current_receipts receipts i = []" using max_created_at_None by blast
    then show ?thesis unfolding None option.case max_created_at_Some by (simp add: current_receipts_snoc)
  next
    case (Some m)
    show ?thesis using Some [unfolded max_created_at_Some] unfolding Some option.case max_created_at_Some
      by (auto simp: current_receipts_snoc max_def)
  qed
  then show ?thesis using True by simp
qed (simp add: max_created_at_def current_receipts_snoc)

lemma retired_newest: "max_created_at (map (\<lambda>r. if rr_system r = i then r\<lparr>rr_retired := True\<rparr> else r) receipts) j
    = (if j = i then None else max_created_at receipts j)"
proof -
  have "current_receipts (map (\<lambda>r. if rr_system r = i then r\<lparr>rr_retired := True\<rparr> else r) receipts) j = (if j = i then [] else current_receipts receipts j)"
    by (induction receipts) (auto simp: current_receipts_def)
  then show ?thesis by (simp add: max_created_at_def)
qed

lemma uint_less_power: "uint w < 2 ^ n \<longleftrightarrow> unat w < 2 ^ n"
  unfolding uint_nat by (rule of_nat_less_numeral_power_cancel_iff)

lemma sint_small: "uint w < 2 ^ 63 \<Longrightarrow> sint w = uint w" for w :: i64
proof -
  assume w: "uint w < 2 ^ 63"
  moreover have "0 \<le> uint w" by simp
  ultimately have "signed_take_bit 63 (uint w) = uint w" unfolding signed_take_bit_int_eq_self_iff by linarith
  then show ?thesis by (simp add: sint_uint)
qed

lemma sint_nonneg: "0 \<le> sint w \<Longrightarrow> uint w = sint w" for w :: i64
proof -
  assume "0 \<le> sint w"
  moreover have "sint w < 2 ^ 64" using sint_lt [of w] by simp
  ultimately have "take_bit 64 (sint w) = sint w" by (rule take_bit_int_eq_self)
  moreover have "take_bit 64 (uint w) = uint w" using take_bit_int_eq_self [OF _ uint_lt2p [of w]] by simp
  then have "uint w = take_bit 64 (sint w)" by (simp add: sint_uint take_bit_signed_take_bit)
  ultimately show ?thesis by simp
qed

lemma snapshot_time_valid:
  assumes "snapshot_time_try_from v = Inr t"
  shows "0 \<le> sint (st_seconds t) \<and> sint (st_seconds t) = uint v"
proof -
  have "t = SnapshotTime v" "unat v < 2 ^ 63"
    using assms by (auto simp: snapshot_time_try_from_def signed_try_from_def ok_or_def split: if_splits)
  moreover from this(2) have "uint v < 2 ^ 63" by (simp only: uint_less_power)
  ultimately show ?thesis by (simp add: sint_small)
qed

lemma newest_current_receipt_of:
  assumes "receipts_valid receipts"
  shows "map_option (\<lambda>t. sint (st_seconds t)) (newest_current_receipt receipts i) = max_created_at receipts (id_str i)"
proof (cases "max_created_at receipts (id_str i)")
  case (Some m)
  then obtain r where "created r = m" "0 \<le> created r"
    using assms unfolding max_created_at_Some by (auto simp: receipts_valid_def in_current_receipts)
  moreover define w where "w = st_seconds (rc_created_at r)"
  ultimately have m: "m = sint w" "0 \<le> sint w" by (auto simp: created_def)
  have "unat w < 2 ^ 63" unfolding uint_less_power [symmetric] using sint_lt [of w] sint_nonneg [OF m(2)] by simp
  then show ?thesis using Some m
    by (simp add: newest_current_receipt_def unsigned_try_from_def snapshot_time_try_from_def signed_try_from_def)
qed (simp add: newest_current_receipt_def)

section \<open>One report\<close>

definition receipt_known :: "receipt_row list \<Rightarrow> bytes \<Rightarrow> string \<Rightarrow> u64 \<Rightarrow> bool" where
  "receipt_known receipts i run seq \<longleftrightarrow> (\<exists>r\<in>set receipts. rr_system r = i \<and> rc_run (rr_receipt r) = run \<and> rc_seq (rr_receipt r) = seq)"

definition registered :: "systems_table \<Rightarrow> system_info \<Rightarrow> systems_table" where
  "registered systems s = (if systems (si_id s) = None then systems(si_id s \<mapsto> s) else systems)"

lemma store_mail_report_cases:
  assumes "store_mail_report fails app w decide on_newest = (res, app')"
  obtains (kept) "app' = app" and "\<And>rec n x. res \<noteq> Inr (ReportStored rec n x)"
  | (stored) rec n x where "res = Inr (ReportStored rec n x)" and "rec = decide (newest_current_receipt (mx_receipts app) (mw_system_id w))"
      and "known_url (mx_systems app) (mw_system w) \<noteq> Some False"
      and "\<not> receipt_known (mx_receipts app) (id_str (mw_system_id w)) (rc_run (mw_receipt w)) (rc_seq (mw_receipt w))"
      and "mx_receipts app' = prune_receipts (mx_receipts app @ [\<lparr>rr_system = id_str (mw_system_id w), rr_receipt = mw_receipt w, rr_retired = False\<rparr>])
             (mw_system_id w) (mw_prune_before w)"
      and "mx_systems app' = (if rec = Newest then write_status (mw_status w) (id_str (mw_system_id w)) else id) (registered (mx_systems app) (mw_system w))"
proof (cases "fails = None \<and> known_url (mx_systems app) (mw_system w) \<noteq> Some False \<and> signed_try_from (rc_seq (mw_receipt w)) \<noteq> None
    \<and> \<not> receipt_known (mx_receipts app) (id_str (mw_system_id w)) (rc_run (mw_receipt w)) (rc_seq (mw_receipt w))")
  case False
  then show ?thesis using assms kept
    by (auto simp: store_mail_report_def Let_def insert_receipt_def list_ex_iff receipt_known_def split: option.splits if_splits)
next
  case True
  have inserted: "insert_receipt (mx_receipts app) (mw_system_id w) (mw_receipt w)
      = Some (True, mx_receipts app @ [\<lparr>rr_system = id_str (mw_system_id w), rr_receipt = mw_receipt w, rr_retired = False\<rparr>])"
    using True by (auto simp: insert_receipt_def list_ex_iff receipt_known_def)
  have systems: "(if known_url (mx_systems app) (mw_system w) = None then insert_mail_system (mx_systems app) (mw_system w) else mx_systems app)
      = registered (mx_systems app) (mw_system w)"
    by (simp add: known_url_def insert_mail_system_def registered_def split: option.splits)
  obtain expired newest metrics where samples:
    "store_samples (mx_retention app) (mw_system_id w) (mw_snapshots w) (mw_now w) (mx_metrics app) = (expired, newest, metrics)"
    by (cases "store_samples (mx_retention app) (mw_system_id w) (mw_snapshots w) (mw_now w) (mx_metrics app)") auto
  let ?rec = "decide (newest_current_receipt (mx_receipts app) (mw_system_id w))"
  have "\<exists>x. res = Inr (ReportStored ?rec expired x)
      \<and> mx_receipts app' = prune_receipts (mx_receipts app @ [\<lparr>rr_system = id_str (mw_system_id w), rr_receipt = mw_receipt w, rr_retired = False\<rparr>])
             (mw_system_id w) (mw_prune_before w)
      \<and> mx_systems app' = (if ?rec = Newest then write_status (mw_status w) (id_str (mw_system_id w)) else id) (registered (mx_systems app) (mw_system w))"
    using assms True by (auto simp: store_mail_report_def inserted samples systems Let_def split: recency.splits option.splits prod.splits)
  then show ?thesis using stored True by blast
qed

lemma fill_registry_keeps:
  assumes "t j = Some s"
  shows "\<exists>s'. fill_registry db t i info j = Some s' \<and> si_url s' = si_url s \<and> si_last_seen s' = si_last_seen s"
  using assms by (auto simp: fill_registry_def Let_def update_system_info_def update_memory_capacity_def update_system_config_def update_row_def set_if_def
      split: option.splits)

lemma after_newest_keeps [simp]: "mx_receipts (after_newest E db app i info rnd now inst) = mx_receipts app"
  by (auto simp: after_newest_def Let_def split: option.splits prod.splits)

lemma after_newest_systems:
  "mx_systems (after_newest E db app i info rnd now inst) = (case info of Some info \<Rightarrow> fill_registry (mb_fill db) (mx_systems app) i info | None \<Rightarrow> mx_systems app)"
  by (auto simp: after_newest_def Let_def split: option.splits prod.splits)

section \<open>A run of the intake\<close>

text \<open>What happens to the tables: messages arrive, systems are deleted, the overdue sweep runs.\<close>

datatype 'e mail_op = Deliver bytes u64 instant "'e mail_db" | DeleteSystem bytes "'e option" | SweepMail "bytes list" snapshot_time

type_synonym mail_key_log = "(system_id \<times> hub_report_id \<times> snapshot_time) list"

definition message_key :: "mail_env \<Rightarrow> mail_master_key \<Rightarrow> bytes \<Rightarrow> mail_key_log" where
  "message_key E master raw = (case opened_message E master raw of Inr (i, r) \<Rightarrow> [(i, hr_id r, hr_created_at r)] | Inl _ \<Rightarrow> [])"

text \<open>The log holds the reports answered as stored, by system, id and creation time.\<close>

fun mail_step :: "mail_env \<Rightarrow> mail_master_key \<Rightarrow> mail_key_log \<times> mail_app \<Rightarrow> 'e mail_op \<Rightarrow> mail_key_log \<times> mail_app" where
  "mail_step E master (logged, app) (Deliver raw now inst db) = (case ingest_message E db app master raw now inst of
     (Inr (IngestedStored _ _), app') \<Rightarrow> (logged @ message_key E master raw, app') | (_, app') \<Rightarrow> (logged, app'))"
| "mail_step E master (logged, app) (DeleteSystem i fails) = (logged, snd (delete_system fails app i))"
| "mail_step E master (logged, app) (SweepMail ids now) = (logged, snd (overdue_pass ids app now))"

definition mail_run :: "mail_env \<Rightarrow> mail_master_key \<Rightarrow> mail_app \<Rightarrow> 'e mail_op list \<Rightarrow> mail_key_log \<times> mail_app" where
  "mail_run E master app ops = foldl (mail_step E master) ([], app) ops"

definition delivery_times :: "'e mail_op list \<Rightarrow> u64 list" where
  "delivery_times ops = List.map_filter (\<lambda>op. case op of Deliver _ now _ _ \<Rightarrow> Some now | _ \<Rightarrow> None) ops"

lemma ingest_cases:
  assumes "ingest_message E db app master raw now inst = (res, app')"
  obtains (kept) "app' = app" and "\<And>rec n. res \<noteq> Inr (IngestedStored rec n)"
  | (stored) i r t rec n where "opened_message E master raw = Inr (i, r)" and "snapshot_time_try_from now = Inr t"
      and "fresh_report (hr_created_at r) t = Inr ()" and "res = Inr (IngestedStored rec n)"
      and "rec = recency_of (hr_created_at r) (newest_current_receipt (mx_receipts app) i)"
      and "known_url (mx_systems app) (mail_row i) \<noteq> Some False"
      and "\<not> receipt_known (mx_receipts app) (id_str i) (me_uuid E (hi_run (hr_id r))) (hi_seq (hr_id r))"
      and "mx_receipts app' = prune_receipts (mx_receipts app @ [\<lparr>rr_system = id_str i,
             rr_receipt = \<lparr>rc_run = me_uuid E (hi_run (hr_id r)), rc_seq = hi_seq (hr_id r), rc_created_at = hr_created_at r,
               rc_interval_secs = hi_secs (hr_interval r), rc_received_at = t\<rparr>, rr_retired = False\<rparr>]) i (st_cutoff t RECEIPT_WINDOW_SECS)"
      and "\<exists>info. mx_systems app' = (if rec = Newest
             then (case info of Some info \<Rightarrow> (\<lambda>s. fill_registry (mb_fill db) s i info) | None \<Rightarrow> id) (write_status (after_snapshot (ReportedAt (hr_created_at r))) (id_str i)
               (registered (mx_systems app) (mail_row i)))
             else registered (mx_systems app) (mail_row i))"
proof (cases "\<exists>i r t. opened_message E master raw = Inr (i, r) \<and> snapshot_time_try_from now = Inr t \<and> fresh_report (hr_created_at r) t = Inr ()")
  case False
  then have "app' = app" "res \<noteq> Inr (IngestedStored rec n)" for rec n
    using assms by (auto simp: ingest_message_def map_err_def rbind_def split: sum.splits)
  then show ?thesis by (rule kept)
next
  case True
  then obtain i r t where opened: "opened_message E master raw = Inr (i, r)" and t: "snapshot_time_try_from now = Inr t"
    and fresh: "fresh_report (hr_created_at r) t = Inr ()" by blast
  obtain w lo where w: "mail_write_of (me_uuid E) i (mail_row i) (hr_snapshots r) t r = (w, lo)"
    by (cases "mail_write_of (me_uuid E) i (mail_row i) (hr_snapshots r) t r")
  then have fields: "mw_system_id w = i" "mw_system w = mail_row i" "mw_prune_before w = st_cutoff t RECEIPT_WINDOW_SECS"
    "mw_status w = after_snapshot (ReportedAt (hr_created_at r))"
    "mw_receipt w = \<lparr>rc_run = me_uuid E (hi_run (hr_id r)), rc_seq = hi_seq (hr_id r), rc_created_at = hr_created_at r,
       rc_interval_secs = hi_secs (hr_interval r), rc_received_at = t\<rparr>" by (auto simp: mail_write_of_def Let_def)
  obtain st app1 where store: "store_mail_report (mb_store db) app w (recency_of (hr_created_at r))
      (\<lambda>live s time. keep_live_metrics live i s time lo inst) = (st, app1)" by (metis surj_pair)
  obtain info rnd where out: "mail_outcome E db app1 i st info rnd t inst = (res, app')"
    using assms by (auto simp: ingest_message_def opened t fresh map_err_def store_report_def w store Let_def)
  show ?thesis
    using store
  proof (cases rule: store_mail_report_cases)
    case kept
    then show ?thesis using out that(1) by (auto simp: mail_outcome_def split: sum.splits mail_stored.splits)
  next
    case (stored rec n x)
    have res: "res = Inr (IngestedStored rec n)" "app' = (if rec = Newest then after_newest E db app1 i info rnd t inst else app1)"
      using out stored(1) by (simp_all add: mail_outcome_def)
    show ?thesis
      by (rule that(2) [OF opened t fresh res(1)])
         (use stored fields res(2) in \<open>auto simp: after_newest_systems intro!: exI [of _ info] split: option.splits\<close>)
  qed
qed

lemma opened_report_valid:
  assumes "opened_message E master raw = Inr (i, r)"
  shows "0 \<le> sint (st_seconds (hr_created_at r)) \<and> hub_interval_try_from (hi_secs (hr_interval r)) = Inr (HubInterval (hi_secs (hr_interval r)))"
proof -
  obtain d where "hub_report_try_from (me_uuid_parse E) d = Inr r"
    using assms by (auto simp: opened_message_def report_decode_def ok_or_def map_err_def rbind_def split: sum.splits option.splits)
  then obtain v secs where "report_time v = Inr (hr_created_at r)" "hub_interval_try_from secs = Inr (hr_interval r)"
    by (auto simp: hub_report_try_from_def rbind_def split: sum.splits if_splits)
  then show ?thesis using snapshot_time_valid [of v]
    by (cases "hr_interval r") (auto simp: report_time_def map_err_def hub_interval_try_from_def split: sum.splits if_splits)
qed

text \<open>A logged report has its receipt, retired or not, or is past the window at the latest delivery.\<close>

definition receipt_of :: "mail_env \<Rightarrow> receipt_row list \<Rightarrow> system_id \<times> hub_report_id \<times> snapshot_time \<Rightarrow> bool" where
  "receipt_of E receipts k = (case k of (i, hid, c) \<Rightarrow> \<exists>row\<in>set receipts. rr_system row = id_str i
     \<and> rc_run (rr_receipt row) = me_uuid E (hi_run hid) \<and> rc_seq (rr_receipt row) = hi_seq hid \<and> rc_created_at (rr_receipt row) = c)"

definition mail_log_ok :: "mail_env \<Rightarrow> int \<Rightarrow> mail_key_log \<times> mail_app \<Rightarrow> bool" where
  "mail_log_ok E clock st = (case st of (logged, app) \<Rightarrow> distinct logged
     \<and> (\<forall>k\<in>set logged. receipt_of E (mx_receipts app) k \<or> sint (st_seconds (snd (snd k))) + uint RECEIPT_WINDOW_SECS < clock))"

lemma st_cutoff_seconds:
  assumes "0 \<le> sint (st_seconds t)"
  shows "sint (st_seconds (st_cutoff t secs)) = max 0 (sint (st_seconds t) - uint secs)"
proof -
  let ?c = "max 0 (sint (st_seconds t) - uint secs)"
  have "0 \<le> ?c \<and> ?c \<le> sint (st_seconds t)" using assms by simp
  moreover have "sint (st_seconds t) < 2 ^ 63" using sint_lt [of "st_seconds t"] by simp
  ultimately have "- (2 ^ 63) \<le> ?c" "?c < 2 ^ 63" by linarith+
  then have "sint (word_of_int ?c :: i64) = ?c" unfolding sint_sbintrunc' by (simp add: signed_take_bit_int_eq_self_iff)
  moreover have "max 0 (max (- (2 ^ 63)) (sint (st_seconds t) - uint secs)) = ?c" by simp
  ultimately show ?thesis by (simp add: st_cutoff_def)
qed

lemma receipt_of_snoc: "receipt_of E (receipts @ [row]) k \<longleftrightarrow> receipt_of E receipts k \<or> receipt_of E [row] k"
  by (auto simp: receipt_of_def split: prod.splits)

lemma pruned_receipt:
  assumes "receipt_of E receipts k" and "receipts_valid receipts" and "0 \<le> sint (st_seconds t)"
  shows "receipt_of E (prune_receipts receipts i (st_cutoff t RECEIPT_WINDOW_SECS)) k
    \<or> sint (st_seconds (snd (snd k))) + uint RECEIPT_WINDOW_SECS < sint (st_seconds t)"
proof -
  obtain j hid c where k: "k = (j, hid, c)" by (cases k)
  obtain row where row: "row \<in> set receipts" "rr_system row = id_str j" "rc_run (rr_receipt row) = me_uuid E (hi_run hid)"
    "rc_seq (rr_receipt row) = hi_seq hid" "rc_created_at (rr_receipt row) = c"
    using assms(1) by (auto simp: receipt_of_def k)
  show ?thesis
  proof (cases "row \<in> set (prune_receipts receipts i (st_cutoff t RECEIPT_WINDOW_SECS))")
    case True
    then show ?thesis using row by (auto simp: receipt_of_def k)
  next
    case False
    then have "created (rr_receipt row) < max 0 (sint (st_seconds t) - uint RECEIPT_WINDOW_SECS)"
      using row(1) st_cutoff_seconds [OF assms(3)] unfolding prune_receipts_set by auto
    moreover have "0 \<le> created (rr_receipt row)" using assms(2) row(1) by (simp add: receipts_valid_def)
    ultimately have "created (rr_receipt row) + uint RECEIPT_WINDOW_SECS < sint (st_seconds t)" by linarith
    then show ?thesis using row(5) by (simp add: k created_def)
  qed
qed

lemma deliver_log_ok:
  assumes "mail_log_ok E clock (logged, app)" and "receipts_valid (mx_receipts app)" and "clock \<le> uint now"
    and "mail_step E master (logged, app) (Deliver raw now inst db) = (logged', app')"
  shows "mail_log_ok E (uint now) (logged', app') \<and> receipts_valid (mx_receipts app')"
proof -
  obtain res where ing: "ingest_message E db app master raw now inst = (res, app')"
    using assms(4) by (auto split: prod.splits sum.splits ingested.splits)
  from ing show ?thesis
  proof (cases rule: ingest_cases)
    case kept
    then have "logged' = logged" using assms(4) ing by (auto split: prod.splits sum.splits ingested.splits)
    then show ?thesis using assms(1-3) kept by (fastforce simp: mail_log_ok_def)
  next
    case (stored i r t rec n)
    let ?k = "(i, hr_id r, hr_created_at r)"
    let ?row = "\<lparr>rr_system = id_str i, rr_receipt = \<lparr>rc_run = me_uuid E (hi_run (hr_id r)), rc_seq = hi_seq (hr_id r), rc_created_at = hr_created_at r,
               rc_interval_secs = hi_secs (hr_interval r), rc_received_at = t\<rparr>, rr_retired = False\<rparr>"
    have logged': "logged' = logged @ [?k]" using assms(4) ing stored(1,4) by (simp add: message_key_def)
    note now = snapshot_time_valid [OF stored(2)]
    have "uint RECEIPT_WINDOW_SECS \<ge> sint (st_seconds t) - sint (st_seconds (hr_created_at r))"
      using stored(3) by (auto simp: fresh_report_def Let_def split: if_splits)
    then have "?k \<notin> set logged" using assms(1,3) stored(7) now by (fastforce simp: mail_log_ok_def receipt_of_def receipt_known_def)
    moreover have valid: "receipts_valid (mx_receipts app @ [?row])"
      using assms(2) opened_report_valid [OF stored(1)] by (auto simp: receipts_valid_def created_def)
    moreover have "\<forall>k\<in>set logged'. receipt_of E (mx_receipts app') k \<or> sint (st_seconds (snd (snd k))) + uint RECEIPT_WINDOW_SECS < uint now"
    proof (intro ballI, goal_cases)
      case (1 k)
      show ?case
      proof (cases "receipt_of E (mx_receipts app @ [?row]) k")
      case True
      from pruned_receipt [OF this valid, of t i] show ?thesis using now stored(8) by simp
    next
      case False
      then have "k \<in> set logged" using 1 by (auto simp: logged' receipt_of_snoc receipt_of_def)
      then show ?thesis using assms(1,3) False by (fastforce simp: mail_log_ok_def receipt_of_snoc)
      qed
    qed
    moreover have "receipts_valid (mx_receipts app')" using valid stored(8) by (auto simp: receipts_valid_def prune_receipts_set)
    ultimately show ?thesis using assms(1) unfolding mail_log_ok_def logged' by simp
  qed
qed

lemma deliver_valid:
  assumes "receipts_valid (mx_receipts app)" and "ingest_message E db app master raw now inst = (res, app')"
  shows "receipts_valid (mx_receipts app')"
  using assms(2)
proof (cases rule: ingest_cases)
  case (stored i r t rec n)
  then show ?thesis using assms(1) opened_report_valid [OF stored(1)]
    by (auto simp: receipts_valid_def prune_receipts_set created_def)
qed (use assms(1) in simp)

section \<open>The sweep\<close>

lemma overdue_row_keeps:
  assumes "overdue_row now (n, app) row = (n', app')"
  shows "mx_receipts app' = mx_receipts app"
    and "\<And>i. mx_systems app' i = None \<longleftrightarrow> mx_systems app i = None"
    and "\<And>i s'. mx_systems app' i = Some s' \<Longrightarrow> \<exists>s. mx_systems app i = Some s \<and> si_url s' = si_url s \<and> si_last_seen s' = si_last_seen s"
  using assms by (auto simp: overdue_row_def mark_mail_overdue_def split: if_splits option.splits)

lemma overdue_fold_keeps:
  assumes "foldl (overdue_row now) (n, app) rows = (n', app')"
  shows "mx_receipts app' = mx_receipts app
    \<and> (\<forall>i s. mx_systems app i = Some s \<longrightarrow> (\<exists>s'. mx_systems app' i = Some s' \<and> si_url s' = si_url s \<and> si_last_seen s' = si_last_seen s))"
  using assms
proof (induction rows arbitrary: n app)
  case (Cons row rows)
  obtain m app1 where step: "overdue_row now (n, app) row = (m, app1)" by (cases "overdue_row now (n, app) row")
  have "\<exists>s'. mx_systems app1 i = Some s' \<and> si_url s' = si_url s \<and> si_last_seen s' = si_last_seen s" if "mx_systems app i = Some s" for i s
    using overdue_row_keeps(2,3) [OF step, of i] that by (cases "mx_systems app1 i") auto
  moreover have "foldl (overdue_row now) (m, app1) rows = (n', app')" using Cons.prems step by simp
  ultimately show ?case using Cons.IH overdue_row_keeps(1) [OF step] by (metis (no_types, lifting))
qed simp

lemma delete_system_receipts:
  "mx_receipts (snd (delete_system fails app i)) = (case fails of Some _ \<Rightarrow> mx_receipts app
     | None \<Rightarrow> map (\<lambda>r. if rr_system r = i then r\<lparr>rr_retired := True\<rparr> else r) (mx_receipts app))"
  by (simp add: delete_system_def split: option.splits)

lemma retired_receipt_of: "receipt_of E (map (\<lambda>r. if rr_system r = i then r\<lparr>rr_retired := True\<rparr> else r) receipts) k \<longleftrightarrow> receipt_of E receipts k"
  by (induction receipts) (auto simp: receipt_of_def split: prod.splits)

lemma mail_step_ok:
  assumes "mail_log_ok E clock (logged, app)" and "receipts_valid (mx_receipts app)" and "\<forall>now\<in>set (delivery_times [op]). clock \<le> uint now"
    and "mail_step E master (logged, app) op = (logged', app')"
  shows "mail_log_ok E (case delivery_times [op] of [] \<Rightarrow> clock | now # _ \<Rightarrow> uint now) (logged', app') \<and> receipts_valid (mx_receipts app')"
proof (cases op)
  case (Deliver raw now inst db)
  then show ?thesis using deliver_log_ok [OF assms(1,2)] assms(3,4) by (simp add: delivery_times_def map_filter_simps)
next
  case (DeleteSystem i fails)
  then have "logged' = logged" "app' = snd (delete_system fails app i)" using assms(4) by auto
  then show ?thesis using assms(1,2) DeleteSystem
    by (auto simp: delivery_times_def map_filter_simps mail_log_ok_def delete_system_receipts retired_receipt_of receipts_valid_def split: option.splits)
next
  case (SweepMail ids now)
  then have "logged' = logged" "mx_receipts app' = mx_receipts app"
    using assms(4) overdue_fold_keeps [of now 0 app "mail_presence ids app", OF surjective_pairing] by (auto simp: overdue_pass_def)
  then show ?thesis using assms(1,2) SweepMail by (simp add: delivery_times_def map_filter_simps mail_log_ok_def)
qed

lemma mail_run_ok:
  assumes "mail_log_ok E clock (logged, app)" and "receipts_valid (mx_receipts app)" and "sorted (delivery_times ops)"
    and "\<forall>now\<in>set (delivery_times ops). clock \<le> uint now" and "foldl (mail_step E master) (logged, app) ops = (logged', app')"
  shows "mail_log_ok E (if delivery_times ops = [] then clock else uint (last (delivery_times ops))) (logged', app') \<and> receipts_valid (mx_receipts app')"
  using assms
proof (induction ops arbitrary: clock logged app)
  case (Cons op ops)
  obtain logged1 app1 where step: "mail_step E master (logged, app) op = (logged1, app1)" by (cases "mail_step E master (logged, app) op")
  have times: "delivery_times (op # ops) = delivery_times [op] @ delivery_times ops" "length (delivery_times [op]) \<le> 1"
    by (auto simp: delivery_times_def List.map_filter_def split: mail_op.splits)
  let ?clock = "case delivery_times [op] of [] \<Rightarrow> clock | now # _ \<Rightarrow> uint now"
  have one: "mail_log_ok E ?clock (logged1, app1)" "receipts_valid (mx_receipts app1)"
    using mail_step_ok [OF Cons.prems(1,2) _ step] Cons.prems(4) times by auto
  have "sorted (delivery_times ops)" using Cons.prems(3) times(1) by (simp add: sorted_append)
  moreover have "\<forall>now\<in>set (delivery_times ops). ?clock \<le> uint now"
    using Cons.prems(3,4) times by (cases "delivery_times [op]") (auto simp: sorted_append word_le_def)
  ultimately have this: "sorted (delivery_times ops)" "\<forall>now\<in>set (delivery_times ops). ?clock \<le> uint now" .
  from Cons.IH [OF one this] show ?case using Cons.prems(5) step times by (cases "delivery_times [op]") auto
qed (simp add: delivery_times_def map_filter_simps)

text \<open>A stored report never comes in twice: the receipt refuses it, or it is too old.\<close>

lemma logged_not_stored:
  assumes "mail_log_ok E clock (logged, app)" and "clock \<le> uint now" and "opened_message E master raw = Inr (i, r)"
    and "(i, hr_id r, hr_created_at r) \<in> set logged" and "ingest_message E db app master raw now inst = (res, app')"
  shows "app' = app \<and> (\<forall>rec n. res \<noteq> Inr (IngestedStored rec n))"
  using assms(5)
proof (cases rule: ingest_cases)
  case (stored j r' t rec n)
  then have same: "j = i" "r' = r" using assms(3) by auto
  have "sint (st_seconds t) - sint (st_seconds (hr_created_at r)) \<le> uint RECEIPT_WINDOW_SECS"
    using stored(3) same by (auto simp: fresh_report_def Let_def split: if_splits)
  moreover have "receipt_of E (mx_receipts app) (i, hr_id r, hr_created_at r)
      \<or> sint (st_seconds (hr_created_at r)) + uint RECEIPT_WINDOW_SECS < clock"
    using assms(1,4) by (auto simp: mail_log_ok_def)
  ultimately show ?thesis using stored(7) same assms(2) snapshot_time_valid [OF stored(2)] by (auto simp: receipt_of_def receipt_known_def)
qed simp

section \<open>The last report seen\<close>

definition mail_seen_ok :: "mail_app \<Rightarrow> bool" where
  "mail_seen_ok app \<longleftrightarrow> (\<forall>i m. max_created_at (mx_receipts app) i = Some m \<longrightarrow>
     (\<exists>s. mx_systems app i = Some s \<and> si_url s = MAIL_URL \<and> si_last_seen s = str (unix_to_iso8601 (word_of_int m))))"

lemma deliver_seen_ok:
  assumes "mail_seen_ok app" and "receipts_valid (mx_receipts app)" and "ingest_message E db app master raw now inst = (res, app')"
  shows "mail_seen_ok app'"
  using assms(3)
proof (cases rule: ingest_cases)
  case kept
  then show ?thesis using assms(1) by simp
next
  case (stored i r t rec n)
  let ?c = "sint (st_seconds (hr_created_at r))" and ?prev = "max_created_at (mx_receipts app) (id_str i)"
  have c: "0 \<le> ?c" using opened_report_valid [OF stored(1)] by simp
  have newest: "max_created_at (mx_receipts app') j = (if j = id_str i then Some (case ?prev of None \<Rightarrow> ?c | Some m \<Rightarrow> max m ?c) else max_created_at (mx_receipts app) j)" for j
    by (simp add: stored(8) prune_keeps_newest max_created_at_snoc created_def cong: option.case_cong)
  have rec: "rec = Newest \<longleftrightarrow> (\<forall>m. ?prev = Some m \<longrightarrow> m \<le> ?c)"
    using stored(5) newest_current_receipt_of [OF assms(2), of i, symmetric]
    by (cases "newest_current_receipt (mx_receipts app) i") (auto simp: recency_of_def)
  have url: "si_url s = MAIL_URL" if s: "registered (mx_systems app) (mail_row i) (id_str i) = Some s" for s
    using s stored(6) by (auto simp: registered_def known_url_def mail_row_def split: if_splits)
  have here: "registered (mx_systems app) (mail_row i) (id_str i) \<noteq> None" by (simp add: registered_def mail_row_def)
  have there: "registered (mx_systems app) (mail_row i) j = mx_systems app j" if "j \<noteq> id_str i" for j
    using that by (simp add: registered_def mail_row_def)
  obtain info where systems: "mx_systems app' = (if rec = Newest
             then (case info of Some info \<Rightarrow> (\<lambda>s. fill_registry (mb_fill db) s i info) | None \<Rightarrow> id) (write_status (after_snapshot (ReportedAt (hr_created_at r))) (id_str i)
               (registered (mx_systems app) (mail_row i)))
             else registered (mx_systems app) (mail_row i))" using stored(9) by blast
  let ?base = "(if rec = Newest then write_status (after_snapshot (ReportedAt (hr_created_at r))) (id_str i) else id) (registered (mx_systems app) (mail_row i))"
  have filled: "\<exists>s'. mx_systems app' j = Some s' \<and> si_url s' = si_url s \<and> si_last_seen s' = si_last_seen s" if "?base j = Some s" for j s
    using that fill_registry_keeps [of ?base j s "mb_fill db" i] by (cases info; cases "rec = Newest") (simp_all add: systems)
  show ?thesis unfolding mail_seen_ok_def
  proof (intro allI impI)
    fix j m assume m: "max_created_at (mx_receipts app') j = Some m"
    have "\<exists>s. ?base j = Some s \<and> si_url s = MAIL_URL \<and> si_last_seen s = str (unix_to_iso8601 (word_of_int m))"
    proof (cases "j = id_str i")
      case False
      then have "?base j = mx_systems app j" using there by (simp add: write_status_def)
      then show ?thesis using assms(1) m False newest by (auto simp: mail_seen_ok_def)
    next
      case True
      show ?thesis
      proof (cases "rec = Newest")
        case newer: True
        then have "m = ?c" using rec m newest True by (auto split: option.splits)
        then have "word_of_int m = st_unix_secs (hr_created_at r)" using c by (simp add: st_unix_secs_def)
        then show ?thesis using newer True here url by (auto simp: write_status_def after_snapshot_def written_last_seen_def)
      next
        case False
        then obtain m0 where m0: "?prev = Some m0" "\<not> m0 \<le> ?c" using rec by auto
        then obtain s where s: "mx_systems app (id_str i) = Some s" "si_url s = MAIL_URL" "si_last_seen s = str (unix_to_iso8601 (word_of_int m0))"
          using assms(1) by (auto simp: mail_seen_ok_def)
        moreover have "m = m0" using m0 m newest True by auto
        ultimately show ?thesis using True False by (auto simp: registered_def mail_row_def)
      qed
    qed
    then show "\<exists>s. mx_systems app' j = Some s \<and> si_url s = MAIL_URL \<and> si_last_seen s = str (unix_to_iso8601 (word_of_int m))"
      using filled by metis
  qed
qed

lemma mail_run_seen_ok:
  assumes "mail_seen_ok app" and "receipts_valid (mx_receipts app)" and "foldl (mail_step E master) (logged, app) ops = (logged', app')"
  shows "mail_seen_ok app' \<and> receipts_valid (mx_receipts app')"
  using assms
proof (induction ops arbitrary: logged app)
  case (Cons op ops)
  obtain logged1 app1 where step: "mail_step E master (logged, app) op = (logged1, app1)" by (cases "mail_step E master (logged, app) op")
  have "mail_seen_ok app1 \<and> receipts_valid (mx_receipts app1)"
  proof (cases op)
    case (Deliver raw now inst db)
    then obtain res where "ingest_message E db app master raw now inst = (res, app1)"
      using step by (auto split: prod.splits sum.splits ingested.splits)
    then show ?thesis using deliver_seen_ok [OF Cons.prems(1,2)] deliver_valid [OF Cons.prems(2)] by blast
  next
    case (DeleteSystem i fails)
    then show ?thesis using step Cons.prems(1,2) by (auto simp: mail_seen_ok_def delete_system_def retired_newest receipts_valid_def split: option.splits)
  next
    case (SweepMail ids now)
    then show ?thesis using step Cons.prems(1,2) overdue_fold_keeps [of now 0 app "mail_presence ids app", OF surjective_pairing]
      by (fastforce simp: mail_seen_ok_def overdue_pass_def)
  qed
  then show ?case using Cons.IH [of app1 logged1] Cons.prems(3) step by simp
qed simp

section \<open>What the sweep marks\<close>

definition overdue_at :: "mail_app \<Rightarrow> snapshot_time \<Rightarrow> bytes \<Rightarrow> bool" where
  "overdue_at app now i \<longleftrightarrow> (\<exists>s. mx_systems app i = Some s \<and> si_url s = MAIL_URL \<and> si_status s \<noteq> Offline \<and> si_enabled s
     \<and> (\<forall>r. newest_receipt (mx_receipts app) i = Some r \<longrightarrow>
          3 * uint (rc_interval_secs r) + 15 * 60 < sint (st_seconds now) - sint (st_seconds (rc_created_at r))))"

definition marked_offline :: "(bytes \<Rightarrow> bool) \<Rightarrow> mail_app \<Rightarrow> mail_app" where
  "marked_offline P app = app\<lparr>mx_systems := (\<lambda>i. if P i then map_option (\<lambda>s. s\<lparr>si_status := Offline, si_last_error := Some OVERDUE\<rparr>) (mx_systems app i) else mx_systems app i),
     mx_live := (\<lambda>i. if P i then None else mx_live app i)\<rparr>"

lemma newest_receipt_Some:
  assumes "newest_receipt receipts i = Some r"
  shows "r \<in> set (current_receipts receipts i) \<and> max_created_at receipts i = Some (created r)"
proof -
  obtain m where m: "max_created_at receipts i = Some m" "r = last (filter (\<lambda>r. created r = m) (current_receipts receipts i))"
    using assms by (auto simp: newest_receipt_def created_def split: option.splits)
  then have "filter (\<lambda>r. created r = m) (current_receipts receipts i) \<noteq> []"
    unfolding max_created_at_Some filter_empty_conv by blast
  from last_in_set [OF this] show ?thesis using m by auto
qed

lemma newest_receipt_None: "newest_receipt receipts i = None \<longleftrightarrow> max_created_at receipts i = None"
  by (simp add: newest_receipt_def split: option.splits)

lemma interval_limit:
  assumes "hub_interval_try_from secs = Inr v"
  shows "uint (3 * secs + OVERDUE_MARGIN_SECS) = 3 * uint secs + 15 * 60"
proof -
  have "secs \<le> 86400" using assms by (simp add: hub_interval_try_from_def split: if_splits)
  then have "uint secs \<le> 86400" by (simp add: word_le_def)
  then show ?thesis by (simp add: OVERDUE_MARGIN_SECS_def uint_word_ariths)
qed

definition presence_of :: "mail_app \<Rightarrow> bytes \<Rightarrow> system_info \<Rightarrow> mail_presence_row" where
  "presence_of app i s = \<lparr>mp_id = i, mp_status = si_status s, mp_enabled = si_enabled s,
     mp_newest = map_option (\<lambda>r. (rc_created_at r, HubInterval (rc_interval_secs r))) (newest_receipt (mx_receipts app) i)\<rparr>"

lemma mail_presence_rows:
  assumes "receipts_valid (mx_receipts app)"
  shows "mail_presence ids app = map (\<lambda>i. presence_of app i (the (mx_systems app i)))
    (filter (\<lambda>i. \<exists>s. mx_systems app i = Some s \<and> si_url s = MAIL_URL) ids)"
proof (induction ids)
  case (Cons i ids)
  have valid: "Option.bind (unsigned_try_from (st_seconds (rc_created_at r))) (\<lambda>secs. ok (snapshot_time_try_from secs)) = Some (rc_created_at r)"
    "Option.bind (unsigned_try_from (rc_interval_secs r)) (\<lambda>secs. ok (hub_interval_try_from secs)) = Some (HubInterval (rc_interval_secs r))"
    if r: "newest_receipt (mx_receipts app) i = Some r" for r
  proof -
    have "0 \<le> created r" and v: "hub_interval_try_from (rc_interval_secs r) = Inr (HubInterval (rc_interval_secs r))"
      using newest_receipt_Some [OF r] assms by (auto simp: in_current_receipts receipts_valid_def)
    then have c: "0 \<le> sint (st_seconds (rc_created_at r))" by (simp add: created_def)
    then have "unat (st_seconds (rc_created_at r)) < 2 ^ 63"
      unfolding uint_less_power [symmetric] using sint_nonneg [OF c] sint_lt [of "st_seconds (rc_created_at r)"] by simp
    then show "Option.bind (unsigned_try_from (st_seconds (rc_created_at r))) (\<lambda>secs. ok (snapshot_time_try_from secs)) = Some (rc_created_at r)"
      using c by (cases "rc_created_at r") (simp add: unsigned_try_from_def snapshot_time_try_from_def signed_try_from_def ok_def)
    have "rc_interval_secs r \<le> 86400" using v by (simp add: hub_interval_try_from_def split: if_splits)
    then have "uint (rc_interval_secs r) \<le> 86400" by (simp add: word_le_def)
    then have "0 \<le> sint (rc_interval_secs r)" using sint_small [of "rc_interval_secs r"] by simp
    then show "Option.bind (unsigned_try_from (rc_interval_secs r)) (\<lambda>secs. ok (hub_interval_try_from secs)) = Some (HubInterval (rc_interval_secs r))"
      using v by (simp add: unsigned_try_from_def ok_def)
  qed
  have row: "presence_row (Some i) (Some (status_show (si_status s))) (Some (si_enabled s))
      (map_option (\<lambda>r. st_seconds (rc_created_at r)) (newest_receipt (mx_receipts app) i)) (map_option rc_interval_secs (newest_receipt (mx_receipts app) i))
      = Some (presence_of app i s)" for s
    using valid by (cases "newest_receipt (mx_receipts app) i") (simp_all add: presence_row_def presence_of_def status_roundtrip)
  show ?case using Cons.IH by (cases "mx_systems app i") (simp_all add: mail_presence_def map_filter_simps row Let_def)
qed (simp add: mail_presence_def map_filter_simps)

lemma overdue_presence:
  assumes "receipts_valid (mx_receipts app)" and "mx_systems app i = Some s" and "si_url s = MAIL_URL"
  shows "is_overdue (presence_of app i s) now \<longleftrightarrow> overdue_at app now i"
proof (cases "newest_receipt (mx_receipts app) i")
  case None
  then show ?thesis using assms(2,3) by (cases "si_status s") (simp_all add: is_overdue_def presence_of_def mail_status_def overdue_at_def)
next
  case (Some r)
  have "hub_interval_try_from (rc_interval_secs r) = Inr (HubInterval (rc_interval_secs r))"
    using newest_receipt_Some [OF Some] assms(1) by (auto simp: in_current_receipts receipts_valid_def)
  note limit = interval_limit [OF this]
  show ?thesis using assms(2,3) Some
    by (cases "si_status s") (simp_all add: is_overdue_def presence_of_def mail_status_def overdue_at_def Let_def limit)
qed

lemma overdue_row_marks:
  assumes "mx_receipts app' = mx_receipts app" and "mx_systems app' i = mx_systems app i" and "receipts_valid (mx_receipts app)"
    and "mx_systems app i = Some s" and "si_url s = MAIL_URL"
  shows "overdue_row now (n, app') (presence_of app i s) = (n + (if overdue_at app now i then 1 else 0), marked_offline (\<lambda>j. j = i \<and> overdue_at app now i) app')"
proof (cases "overdue_at app now i")
  case True
  then have "si_status s \<noteq> Offline" using assms(4) by (auto simp: overdue_at_def)
  moreover have "max_created_at (mx_receipts app) i = map_option (\<lambda>t. sint (st_seconds t)) (map_option fst (mp_newest (presence_of app i s)))"
    using newest_receipt_Some [of "mx_receipts app" i] newest_receipt_None [of "mx_receipts app" i]
    by (cases "newest_receipt (mx_receipts app) i") (auto simp: presence_of_def created_def)
  ultimately have "mark_mail_overdue app' i (map_option fst (mp_newest (presence_of app i s))) OVERDUE
      = (True, app'\<lparr>mx_systems := (mx_systems app')(i \<mapsto> s\<lparr>si_status := Offline, si_last_error := Some OVERDUE\<rparr>)\<rparr>)"
    using assms(1,2,4) by (simp add: mark_mail_overdue_def)
  moreover have "(mx_systems app')(i \<mapsto> s\<lparr>si_status := Offline, si_last_error := Some OVERDUE\<rparr>)
      = (\<lambda>j. if j = i then map_option (\<lambda>s. s\<lparr>si_status := Offline, si_last_error := Some OVERDUE\<rparr>) (mx_systems app' j) else mx_systems app' j)"
    using assms(2,4) by auto
  moreover have "(mx_live app')(i := None) = (\<lambda>j. if j = i then None else mx_live app' j)" by auto
  ultimately show ?thesis using True overdue_presence [OF assms(3-5), of now]
    by (simp add: overdue_row_def marked_offline_def evict_live_metrics_def presence_of_def)
next
  case False
  then show ?thesis using overdue_presence [OF assms(3-5), of now] by (simp add: overdue_row_def marked_offline_def)
qed

lemma marked_offline_twice: "marked_offline P (marked_offline Q app) = marked_offline (\<lambda>i. P i \<or> Q i) app"
  by (auto simp: marked_offline_def fun_eq_iff option.map_comp comp_def split: option.splits intro!: mail_app.equality)

lemma overdue_fold:
  assumes "receipts_valid (mx_receipts app)" and "mx_receipts app' = mx_receipts app" and "distinct ids"
    and "\<forall>i\<in>set ids. mx_systems app' i = mx_systems app i \<and> (\<exists>s. mx_systems app i = Some s \<and> si_url s = MAIL_URL)"
  shows "foldl (overdue_row now) (n, app') (map (\<lambda>i. presence_of app i (the (mx_systems app i))) ids)
    = (n + length (filter (overdue_at app now) ids), marked_offline (\<lambda>i. i \<in> set ids \<and> overdue_at app now i) app')"
  using assms(2-)
proof (induction ids arbitrary: n app')
  case (Cons i ids)
  obtain s where s: "mx_systems app i = Some s" "si_url s = MAIL_URL" "mx_systems app' i = mx_systems app i" using Cons.prems(3) by auto
  let ?app = "marked_offline (\<lambda>j. j = i \<and> overdue_at app now i) app'"
  have "mx_receipts ?app = mx_receipts app" "\<forall>j\<in>set ids. mx_systems ?app j = mx_systems app j \<and> (\<exists>s. mx_systems app j = Some s \<and> si_url s = MAIL_URL)"
    using Cons.prems by (auto simp: marked_offline_def)
  from Cons.IH [OF this(1) _ this(2)] show ?case
    using Cons.prems(2) overdue_row_marks [OF Cons.prems(1) s(3) assms(1) s(1,2), of now n] s(1)
    by (auto simp: marked_offline_twice intro!: arg_cong [where f = "\<lambda>P. marked_offline P app'"])
qed (simp add: marked_offline_def)

lemma fresh_report_stored:
  assumes "opened_message E master raw = Inr (i, r)" and "snapshot_time_try_from now = Inr t" and "fresh_report (hr_created_at r) t = Inr ()"
    and "mb_store db = None" and "\<forall>s. mx_systems app (id_str i) = Some s \<longrightarrow> si_url s = MAIL_URL" and "unat (hi_seq (hr_id r)) < 2 ^ 63"
    and "\<not> receipt_known (mx_receipts app) (id_str i) (me_uuid E (hi_run (hr_id r))) (hi_seq (hr_id r))"
  shows "\<exists>rec n app'. ingest_message E db app master raw now inst = (Inr (IngestedStored rec n), app')"
proof -
  obtain w lo where w: "mail_write_of (me_uuid E) i (mail_row i) (hr_snapshots r) t r = (w, lo)"
    by (cases "mail_write_of (me_uuid E) i (mail_row i) (hr_snapshots r) t r")
  then have fields: "mw_system_id w = i" "mw_system w = mail_row i" "rc_run (mw_receipt w) = me_uuid E (hi_run (hr_id r))" "rc_seq (mw_receipt w) = hi_seq (hr_id r)"
    by (auto simp: mail_write_of_def Let_def)
  have "insert_receipt (mx_receipts app) (mw_system_id w) (mw_receipt w) = Some (True, mx_receipts app @ [\<lparr>rr_system = id_str i, rr_receipt = mw_receipt w, rr_retired = False\<rparr>])"
    using assms(6,7) by (auto simp: insert_receipt_def fields signed_try_from_def list_ex_iff receipt_known_def)
  moreover have "known_url (mx_systems app) (mw_system w) \<noteq> Some False"
    using assms(5) by (auto simp: known_url_def fields mail_row_def)
  moreover obtain expired newest metrics where "store_samples (mx_retention app) (mw_system_id w) (mw_snapshots w) (mw_now w) (mx_metrics app) = (expired, newest, metrics)"
    by (metis surj_pair)
  ultimately have "\<exists>rec n x. fst (store_mail_report (mb_store db) app w (recency_of (hr_created_at r))
      (\<lambda>live s time. keep_live_metrics live i s time lo inst)) = Inr (ReportStored rec n x)"
    by (simp add: store_mail_report_def assms(4) Let_def split: recency.split option.split prod.split)
  then obtain rec n x app1 where "store_mail_report (mb_store db) app w (recency_of (hr_created_at r))
      (\<lambda>live s time. keep_live_metrics live i s time lo inst) = (Inr (ReportStored rec n x), app1)" by (metis prod.collapse)
  then show ?thesis by (simp add: ingest_message_def assms(1,2,3) map_err_def store_report_def w Let_def mail_outcome_def)
qed

section \<open>Properties\<close>

text \<open>C23. Mail is delivered at least once and stored at most once: over any run of deliveries, deletions and
  sweeps with a clock that does not step back, no report (its system, id and creation time) is stored
  twice; delivered again it changes nothing, also when its system was deleted in between or its receipt
  pruned; and a fresh report whose id has no receipt, of a new system or one that reports by mail, is
  stored when SQLite does not fail.\<close>

theorem mail_stored_once:
  assumes "mail_run E master app ops = (logged, app')" and "mx_receipts app = []" and "sorted (delivery_times (ops @ [Deliver raw now inst db]))"
    and "opened_message E master raw = Inr (i, r)" and "ingest_message E db app' master raw now inst = (res, app'')"
  shows "distinct logged
    \<and> ((i, hr_id r, hr_created_at r) \<in> set logged \<longrightarrow> app'' = app' \<and> (\<forall>rec n. res \<noteq> Inr (IngestedStored rec n)))
    \<and> (\<not> receipt_known (mx_receipts app') (id_str i) (me_uuid E (hi_run (hr_id r))) (hi_seq (hr_id r))
         \<and> (\<exists>t. snapshot_time_try_from now = Inr t \<and> fresh_report (hr_created_at r) t = Inr ())
         \<and> mb_store db = None \<and> (\<forall>s. mx_systems app' (id_str i) = Some s \<longrightarrow> si_url s = MAIL_URL) \<and> unat (hi_seq (hr_id r)) < 2 ^ 63
       \<longrightarrow> (\<exists>rec n. res = Inr (IngestedStored rec n)))"
proof -
  have times: "delivery_times (ops @ [Deliver raw now inst db]) = delivery_times ops @ [now]"
    by (simp add: delivery_times_def List.map_filter_def)
  have sorted: "sorted (delivery_times ops)" "\<forall>t\<in>set (delivery_times ops). t \<le> now" using assms(3) by (auto simp: times sorted_append)
  have "mail_log_ok E 0 ([], app)" "receipts_valid (mx_receipts app)" using assms(2) by (simp_all add: mail_log_ok_def receipts_valid_def)
  moreover have "\<forall>t\<in>set (delivery_times ops). 0 \<le> uint t" by simp
  ultimately have ok: "mail_log_ok E (if delivery_times ops = [] then 0 else uint (last (delivery_times ops))) (logged, app')"
    using mail_run_ok [OF _ _ sorted(1) _ assms(1) [unfolded mail_run_def], of 0] by blast
  have "(if delivery_times ops = [] then 0 else uint (last (delivery_times ops))) \<le> uint now"
    using sorted(2) last_in_set [of "delivery_times ops"] by (simp add: word_le_def)
  note again = logged_not_stored [OF ok this assms(4) _ assms(5)]
  have "\<exists>rec n. res = Inr (IngestedStored rec n)"
    if "snapshot_time_try_from now = Inr t" "fresh_report (hr_created_at r) t = Inr ()" "mb_store db = None"
      "\<forall>s. mx_systems app' (id_str i) = Some s \<longrightarrow> si_url s = MAIL_URL" "unat (hi_seq (hr_id r)) < 2 ^ 63"
      "\<not> receipt_known (mx_receipts app') (id_str i) (me_uuid E (hi_run (hr_id r))) (hi_seq (hr_id r))" for t
    using fresh_report_stored [OF assms(4) that, of inst] assms(5) by (metis prod.inject)
  moreover have "distinct logged" using ok by (simp add: mail_log_ok_def)
  ultimately show ?thesis using again by blast
qed

text \<open>A hub that has stored one report, with a parser, a cipher and a decoder that give that report whatever they read.\<close>

definition example_hub_dto :: hub_report_dto where
  "example_hub_dto = report_read (report_dto_of_mail (\<lambda>u. show_nat (unat u)) example_report)"

definition example_env :: mail_env where
  "example_env = \<lparr>me_fns = \<lparr>base64_encode = (\<lambda>_. []), base64_decode = (\<lambda>_. Some (SEAL_MAGIC @ [VERSION, 1, 104] @ replicate 24 0)),
       hkdf_expand = (\<lambda>_ _ _. []), aead_encrypt = (\<lambda>_ _ _ _. None), aead_decrypt = (\<lambda>_ _ _ _. Some [])\<rparr>,
     me_body_texts = (\<lambda>_. Some [ARMOUR_BEGIN @ ARMOUR_END]), me_wire = \<lparr>rw_encode = (\<lambda>_. None), rw_decode = (\<lambda>_. Some example_hub_dto)\<rparr>,
     me_uuid = (\<lambda>u. show_nat (unat u)), me_uuid_parse = (\<lambda>s. Some (of_nat (digits_value s))), me_digest = (\<lambda>_. RoundDigest 0)\<rparr>"

definition example_mail_db :: "unit mail_db" where
  "example_mail_db = \<lparr>mb_store = None, mb_fill = \<lparr>fd_get = None, fd_info = None, fd_memory = None, fd_name = None\<rparr>, mb_round_exists = None, mb_round = None\<rparr>"

definition example_mail_app :: mail_app where
  "example_mail_app = \<lparr>mx_systems = Map.empty, mx_metrics = [], mx_retention = (\<lambda>_. None), mx_live = Map.empty, mx_rounds = Map.empty, mx_alerts = [], mx_receipts = []\<rparr>"

lemma example_opened:
  "\<exists>r. opened_message example_env (MailMasterKey []) raw = Inr (SystemId [104], r) \<and> hr_id r = \<lparr>hi_run = 7, hi_seq = 1\<rparr> \<and> hr_created_at r = SnapshotTime 1001"
proof -
  have "dearmour (me_fns example_env) (ARMOUR_BEGIN @ ARMOUR_END) = Inr (SEAL_MAGIC @ [VERSION, 1, 104] @ replicate 24 0)"
  proof -
    obtain b e where "ARMOUR_BEGIN = CHR ''-'' # b" "ARMOUR_END = CHR ''-'' # e" by (simp add: ARMOUR_BEGIN_def ARMOUR_END_def)
    then show ?thesis using split_once_first [of "CHR ''-''" "[]" b ARMOUR_END] split_once_first [of "CHR ''-''" "[]" e "[]"]
      by (simp add: dearmour_def) (simp add: example_env_def MAX_SEALED_BYTES_def SEAL_MAGIC_def str_def)
  qed
  then have armour: "armoured_report (me_fns example_env) (me_body_texts example_env) raw = Inr (SEAL_MAGIC @ [VERSION, 1, 104] @ replicate 24 0)"
    by (simp add: armoured_report_def example_env_def map_err_def ok_or_def)
  have utf8: "from_utf8 [104] = Some [104]" by (simp add: from_utf8_def utf8_chars.simps)
  have sealed: "open_sealed (me_fns example_env) (SEAL_MAGIC @ [VERSION, 1, 104] @ replicate 24 0) (MailMasterKey []) = Inr (SystemId [104], [])"
    by (simp add: open_sealed_def parse_sealed_def utf8 system_id_try_from_def NONCE_BYTES_def MAX_SYSTEM_ID_BYTES_def str_def map_err_def ok_or_def)
       (simp add: example_env_def ok_or_def)
  have fits: "sat_sub (1001 :: u64) (60 + 120) \<le> 1000" "(1000 :: u64) \<le> sat_add 1001 5" by (simp_all add: sat_sub_def sat_add_def)
  have "\<exists>r. report_decode (me_wire example_env) (me_uuid_parse example_env) [] = Inr r \<and> hr_id r = \<lparr>hi_run = 7, hi_seq = 1\<rparr> \<and> hr_created_at r = SnapshotTime 1001"
    using fits by (simp add: report_decode_def example_env_def example_hub_dto_def example_report_def report_read_def report_dto_of_mail_def Let_def ok_or_def
        hub_report_try_from_def hub_interval_try_from_def report_time_small report_samples_def MAX_MAILED_SNAPSHOTS_def SAMPLE_SLACK_BEFORE_def SAMPLE_SLACK_AFTER_def
        mailed_snapshot_try_from_def example_sample_def MAX_MAILED_ALERTS_def reason_of_def reason_wire_def)
  then show ?thesis using armour sealed by (auto simp: opened_message_def map_err_def)
qed

lemma example_stored:
  "\<exists>r rec n app'. opened_message example_env (MailMasterKey []) [] = Inr (SystemId [104], r)
    \<and> ingest_message example_env example_mail_db example_mail_app (MailMasterKey []) [] 1001 0 = (Inr (IngestedStored rec n), app')"
proof -
  obtain r where r: "opened_message example_env (MailMasterKey []) [] = Inr (SystemId [104], r)" "hr_id r = \<lparr>hi_run = 7, hi_seq = 1\<rparr>" "hr_created_at r = SnapshotTime 1001"
    using example_opened by blast
  then show ?thesis
    using fresh_report_stored [OF r(1), of 1001 "SnapshotTime 1001" example_mail_db example_mail_app 0] r
    by (auto simp: snapshot_time_try_from_def signed_try_from_def fresh_report_def Let_def FUTURE_SLACK_SECS_def RECEIPT_WINDOW_SECS_def example_mail_db_def
        example_mail_app_def receipt_known_def)
qed

theorem mail_stored_once_witness:
  "\<exists>r logged app' res app''. opened_message example_env (MailMasterKey []) [] = Inr (SystemId [104], r)
    \<and> mail_run example_env (MailMasterKey []) example_mail_app [Deliver [] 1001 0 example_mail_db, DeleteSystem [104] None] = (logged, app')
    \<and> logged = [(SystemId [104], hr_id r, hr_created_at r)]
    \<and> ingest_message example_env example_mail_db app' (MailMasterKey []) [] 1002 0 = (res, app'') \<and> app'' = app'"
proof -
  obtain r rec n app1 where r: "opened_message example_env (MailMasterKey []) [] = Inr (SystemId [104], r)"
    and one: "ingest_message example_env example_mail_db example_mail_app (MailMasterKey []) [] 1001 0 = (Inr (IngestedStored rec n), app1)"
    using example_stored by blast
  obtain app' where run: "mail_run example_env (MailMasterKey []) example_mail_app [Deliver [] 1001 0 example_mail_db, DeleteSystem [104] None] = ([(SystemId [104], hr_id r, hr_created_at r)], app')"
    using one r by (simp add: mail_run_def message_key_def)
  obtain res app'' where again: "ingest_message example_env example_mail_db app' (MailMasterKey []) [] 1002 0 = (res, app'')" by (metis surj_pair)
  have times: "sorted (delivery_times ([Deliver [] 1001 0 example_mail_db, DeleteSystem [104] None] @ [Deliver [] 1002 0 example_mail_db]))"
    by (simp add: delivery_times_def map_filter_simps)
  show ?thesis using mail_stored_once [OF run _ times r again] run again r by (simp add: example_mail_app_def)
qed

text \<open>C26. The registry shows a mail system's newest report, in whatever order reports arrive: over any run of
  deliveries, deletions and sweeps, a system with accepted reports is registered as a mail system, and its
  last seen is the latest creation time among them, whatever a late report, a failed statement or an
  overdue marking did.\<close>

theorem mail_last_seen_newest:
  assumes "mail_run E master app ops = (logged, app')" and "mx_receipts app = []" and "r \<in> set (current_receipts (mx_receipts app') i)"
  shows "\<exists>m s. sint (st_seconds (rc_created_at r)) \<le> m \<and> m \<in> (\<lambda>r. sint (st_seconds (rc_created_at r))) ` set (current_receipts (mx_receipts app') i)
    \<and> mx_systems app' i = Some s \<and> si_url s = MAIL_URL \<and> si_last_seen s = str (unix_to_iso8601 (word_of_int m))"
proof -
  have "mail_seen_ok app" "receipts_valid (mx_receipts app)" using assms(2) by (simp_all add: mail_seen_ok_def receipts_valid_def max_created_at_def current_receipts_def)
  from mail_run_seen_ok [OF this assms(1) [unfolded mail_run_def]] have ok: "mail_seen_ok app'" by simp
  obtain m where m: "max_created_at (mx_receipts app') i = Some m"
    using assms(3) max_created_at_None [of "mx_receipts app'" i] by (cases "max_created_at (mx_receipts app') i") auto
  then have "created r \<le> m" "m \<in> created ` set (current_receipts (mx_receipts app') i)"
    using assms(3) unfolding max_created_at_Some by auto
  moreover obtain s where "mx_systems app' i = Some s" "si_url s = MAIL_URL" "si_last_seen s = str (unix_to_iso8601 (word_of_int m))"
    using ok m by (auto simp: mail_seen_ok_def)
  ultimately show ?thesis unfolding created_def [abs_def] by blast
qed

theorem mail_last_seen_newest_witness:
  "\<exists>logged app' r s. mail_run example_env (MailMasterKey []) example_mail_app [Deliver [] 1001 0 example_mail_db] = (logged, app')
    \<and> r \<in> set (current_receipts (mx_receipts app') [104]) \<and> mx_systems app' [104] = Some s \<and> si_url s = MAIL_URL"
proof -
  obtain r rec n app' where r: "opened_message example_env (MailMasterKey []) [] = Inr (SystemId [104], r)"
    and one: "ingest_message example_env example_mail_db example_mail_app (MailMasterKey []) [] 1001 0 = (Inr (IngestedStored rec n), app')"
    using example_stored by blast
  have "max_created_at (mx_receipts app') [104] \<noteq> None"
    using one by (cases rule: ingest_cases) (use r in \<open>auto simp: prune_keeps_newest max_created_at_snoc\<close>)
  then obtain receipt where receipt: "receipt \<in> set (current_receipts (mx_receipts app') [104])"
    using max_created_at_None [of "mx_receipts app'" "[104]"] by (cases "current_receipts (mx_receipts app') [104]") auto
  have run: "mail_run example_env (MailMasterKey []) example_mail_app [Deliver [] 1001 0 example_mail_db] = (message_key example_env (MailMasterKey []) [], app')"
    using one by (simp add: mail_run_def)
  show ?thesis using mail_last_seen_newest [OF run _ receipt] run receipt by (auto simp: example_mail_app_def)
qed


definition example_silent_app :: mail_app where
  "example_silent_app = example_mail_app\<lparr>mx_systems := [[104] \<mapsto> example_system\<lparr>si_status := Online\<rparr>]\<rparr>"


section \<open>What a scan accounts for\<close>

text \<open>A file the scan could read, or refuses for its length without reading it.\<close>

definition handled :: "mail_file \<Rightarrow> bool" where
  "handled f \<longleftrightarrow> (\<exists>len. mf_len f = Some len \<and> (MAX_MAIL_BYTES < len \<or> mf_raw f \<noteq> None))"

definition noted :: "scan_pass \<Rightarrow> nat" where
  "noted pass = sc_stored pass + sc_duplicates pass + sum_list (map snd (sc_refused pass))"

lemma count_refused_sum: "sum_list (map snd (count_refused reason counts)) = Suc (sum_list (map snd counts))"
  by (induction reason counts rule: count_refused.induct) simp_all

lemma scan_note_counts: "noted (scan_note pass outcome) = Suc (noted pass)" "sc_stuck (scan_note pass outcome) = sc_stuck pass"
  by (auto simp: noted_def scan_note_def count_refused_sum split: scan_outcome.splits ingested.splits)

lemma handle_message_handled: "fst (handle_message E db app key f now inst) \<noteq> None \<longleftrightarrow> handled f"
  by (auto simp: handle_message_def handled_def split: option.splits prod.splits sum.splits)

lemma scan_fold:
  assumes "foldl (scan_message E key now) (pass, app, gone) (map (\<lambda>f. (f, answers f)) fs) = (pass', app', gone')"
  shows "noted pass' = noted pass + length (filter handled fs)
    \<and> sc_stuck pass' = sc_stuck pass + length (filter (\<lambda>f. \<not> (handled f \<and> mf_removes f)) fs)
    \<and> set gone' = set gone \<union> mf_name ` {f \<in> set fs. handled f \<and> mf_removes f}"
  using assms
proof (induction fs arbitrary: pass app gone)
  case (Cons f fs)
  obtain db inst where answers: "answers f = (db, inst)" by (cases "answers f")
  obtain pass1 app1 gone1 where step: "scan_message E key now (pass, app, gone) (f, answers f) = (pass1, app1, gone1)"
    by (cases "scan_message E key now (pass, app, gone) (f, answers f)") auto
  have one: "noted pass1 = noted pass + (if handled f then 1 else 0)
      \<and> sc_stuck pass1 = sc_stuck pass + (if handled f \<and> mf_removes f then 0 else 1)
      \<and> set gone1 = set gone \<union> (if handled f \<and> mf_removes f then {mf_name f} else {})"
    using step handle_message_handled [of E db app key f now inst]
    by (auto simp: scan_message_def answers scan_note_counts noted_def Let_def split: prod.splits option.splits if_splits)
       (use scan_note_counts(1) in \<open>auto simp: noted_def\<close>)
  have "foldl (scan_message E key now) (pass1, app1, gone1) (map (\<lambda>f. (f, answers f)) fs) = (pass', app', gone')" using Cons.prems step by simp
  from Cons.IH [OF this] show ?case using one by auto
qed simp

text \<open>A scan accounts for every message it takes: of the Maildir's files it takes the first 256 by name, each
  of them it can read is counted as stored, duplicate or refused, the others and those it cannot delete
  are counted as stuck, and exactly the messages handled and deleted are gone from the directory.\<close>

theorem scan_accounts:
  assumes "scan_once E key (Some entries) answers now app = (pass, app', left)" and "distinct (map mf_name entries)"
  shows "noted pass = length (filter handled (oldest_messages entries))
    \<and> sc_stuck pass = length (filter (\<lambda>f. \<not> (handled f \<and> mf_removes f)) (oldest_messages entries))
    \<and> left = filter (\<lambda>f. \<not> (f \<in> set (oldest_messages entries) \<and> handled f \<and> mf_removes f)) entries
    \<and> length (oldest_messages entries) = min 256 (length (filter mf_is_file entries))
    \<and> (\<forall>f\<in>set (oldest_messages entries). \<forall>g\<in>set entries. mf_is_file g \<and> g \<notin> set (oldest_messages entries) \<longrightarrow> mf_name f \<le> mf_name g)"
proof -
  obtain gone where fold: "foldl (scan_message E key now) (scan_pass_default, app, []) (map (\<lambda>f. (f, answers f)) (oldest_messages entries)) = (pass, app', gone)"
    and left: "left = filter (\<lambda>f. mf_name f \<notin> set gone) entries"
    using assms(1) by (auto simp: scan_once_def split: prod.splits)
  note counts = scan_fold [OF fold]
  have sub: "set (oldest_messages entries) \<subseteq> set entries" using set_take_subset by (fastforce simp: oldest_messages_def)
  have "mf_name f \<notin> set gone \<longleftrightarrow> \<not> (f \<in> set (oldest_messages entries) \<and> handled f \<and> mf_removes f)" if "f \<in> set entries" for f
    using counts sub that inj_onD [OF distinct_map [THEN iffD1, OF assms(2), THEN conjunct2]] by auto
  then have "left = filter (\<lambda>f. \<not> (f \<in> set (oldest_messages entries) \<and> handled f \<and> mf_removes f)) entries"
    unfolding left by (intro filter_cong) auto
  moreover have "mf_name f \<le> mf_name g" if f: "f \<in> set (oldest_messages entries)" and g: "g \<in> set entries" "mf_is_file g" "g \<notin> set (oldest_messages entries)" for f g
  proof -
    let ?s = "sort_key mf_name (filter mf_is_file entries)"
    have "g \<in> set (take 256 ?s @ drop 256 ?s)" unfolding append_take_drop_id using g by simp
    then have "g \<in> set (drop 256 ?s)" using g(3) unfolding set_append oldest_messages_def MAX_MESSAGES_PER_SCAN_def by blast
    moreover have "sorted (map mf_name (take 256 ?s @ drop 256 ?s))" unfolding append_take_drop_id by simp
    ultimately show ?thesis using f unfolding map_append sorted_append by (auto simp: oldest_messages_def MAX_MESSAGES_PER_SCAN_def)
  qed
  moreover have "noted scan_pass_default = 0" "sc_stuck scan_pass_default = 0" by (simp_all add: noted_def scan_pass_default_def)
  ultimately show ?thesis using counts by (auto simp: oldest_messages_def MAX_MESSAGES_PER_SCAN_def)
qed

theorem scan_accounts_witness:
  "\<exists>pass app' left. scan_once example_env (MailMasterKey []) (Some [\<lparr>mf_name = [50], mf_is_file = True, mf_len = Some 2000000, mf_raw = None, mf_removes = True\<rparr>,
        \<lparr>mf_name = [49], mf_is_file = True, mf_len = None, mf_raw = None, mf_removes = True\<rparr>]) (\<lambda>_. (example_mail_db, 0)) 1001 example_mail_app = (pass, app', left)
    \<and> noted pass = 1 \<and> sc_stuck pass = 1 \<and> left = [\<lparr>mf_name = [49], mf_is_file = True, mf_len = None, mf_raw = None, mf_removes = True\<rparr>]"
proof -
  let ?files = "[\<lparr>mf_name = [50], mf_is_file = True, mf_len = Some 2000000, mf_raw = None, mf_removes = True\<rparr>,
        \<lparr>mf_name = [49], mf_is_file = True, mf_len = None, mf_raw = None, mf_removes = True\<rparr>]"
  obtain pass app' left where scan: "scan_once example_env (MailMasterKey []) (Some ?files) (\<lambda>_. (example_mail_db, 0)) 1001 example_mail_app = (pass, app', left)"
    by (metis surj_pair)
  show ?thesis using scan_accounts [OF scan] scan by (simp add: oldest_messages_def MAX_MESSAGES_PER_SCAN_def handled_def MAX_MAIL_BYTES_def)
qed

end
