(* ===== verification/Spec2Isabelle.thy ===== *)
theory Spec2Isabelle
  imports Series_History Series_Tail Series_Keys Log_Entry Hub_Clock Policy Liveness Retention_Files Capacity
    Block_Name Block_Record Reconcile Block_Roundtrip Alerts_Incidents Presence Handoff Store_Run
    Mail_Outbox Mail_Intake
begin

text \<open>
  A verification library for the monitoring agent and its hub.  An agent (\<open>src/src\<close>) measures its host,
  raises alerts and sends snapshots and application scrape rounds to a hub (\<open>system-hub/src\<close>), by push
  connection, by being polled, or by mail.  The hub keeps a registry of systems, what it last heard of
  them, and their history; the history's store (\<open>system-hub/hub-store/src\<close>) compresses each metric of
  each system into chunks of raw points and of minute and hour summaries, keeps the open ends of the
  series in the database, moves closed spans into block files, and retires them as they age or as space
  runs out.

  \<^bold>\<open>Conventions.\<close>  A Rust integer is a word of its width (\<open>u64 = 64 word\<close>), with wrapping arithmetic as
  in the release profile and checked and saturating operations written out; an \<open>i64\<close> is a word read
  through \<open>sint\<close>.  \<open>Result<A, E>\<close> is \<open>E + A\<close> and \<open>?\<close> is \<open>rbind\<close>.  A struct is a record (or a datatype with
  one constructor), an enum a datatype with the source's constructors, renamed where two enums share
  one.  Mutating methods return the new state.  Strings are their bytes, or their code points where the
  code works on characters.  Instants and durations of the monotonic clock are nanoseconds.  What is
  outside the sources is an argument: checksums (\<open>crc32c_fns\<close>), base64, key derivation and the cipher
  (\<open>mail_fns\<close>), the mail parser, serde (\<open>report_wire\<close>), UUID text, the keyed digest of a round,
  how redb, SQLite and the file system answer, which tasks are still running.

  \<^bold>\<open>Shared vocabulary.\<close>  \<open>Prelude\<close> (results, integer arithmetic, big-endian fields, bit sequences),
  \<open>Ordered_Map\<close> (\<open>BTreeMap\<close> and \<open>BTreeSet\<close>; interface \<open>map_interface\<close>), \<open>List_Pieces\<close> (\<open>slice::chunks\<close>),
  \<open>Text_Fields\<close> (decimal text, cutting strings), \<open>Float64\<close> and \<open>Float32\<close> (the IEEE arithmetic used).

  \<^bold>\<open>The store\<close> (\<open>system-hub/hub-store/src\<close>).
  \<^item> \<open>Tier\<close> (\<open>tier.rs\<close>), \<open>Bits\<close> (\<open>codec/bits.rs\<close>), \<open>Value_Kind\<close> (\<open>value.rs\<close>): tiers and their spans, the
    delta-of-delta and value codes at any bit position, and the scaling of natural values, whose round
    trip through binary64 is exact.
  \<^item> \<open>Raw_Chunk\<close> (\<open>codec/raw.rs\<close>) and \<open>Rollup_Chunk\<close> (\<open>codec/rollup.rs\<close>): chunks decode to what was
    pushed, whatever decodes is well formed, and no chunk exceeds its bounds.
  \<^item> \<open>Accumulator\<close> (\<open>rollup.rs\<close>), \<open>Series_State\<close> and \<open>Series_History\<close> (\<open>state.rs\<close>): over any sequence of
    appends, sweeps and seals no accepted point is lost, every bucket is summarised exactly, no stored
    chunk overwrites another, and closed spans are not held open.  \<open>Series_Tail\<close> (\<open>state/tail.rs\<close>): every
    reachable state is read back from its persisted tail.
  \<^item> \<open>Names\<close> (\<open>name.rs\<close>), \<open>Bytes_Reader\<close> (\<open>bytes.rs\<close>), \<open>Series_Keys\<close> (\<open>series.rs\<close>), \<open>Log_Entry\<close>
    (\<open>tables.rs\<close>): the row codecs of the database.
  \<^item> \<open>Hub_Clock\<close> (\<open>clock.rs\<close>): hub time never runs backwards; the retention clock is guarded.
  \<^item> \<open>Policy\<close> (\<open>retention/policy.rs\<close>), \<open>Liveness\<close> (\<open>retention/liveness.rs\<close>), \<open>Retention_Files\<close>
    (\<open>retention/files.rs\<close>), \<open>Capacity\<close> (\<open>capacity.rs\<close>): periods stay within their bounds and shorten only
    with delay; a chunk's liveness; which files a pass retires or rewrites; what the storage cap takes.
  \<^item> \<open>Block_Name\<close>, \<open>Block_Record\<close>, \<open>Block_Format\<close>, \<open>Block_File\<close>, \<open>Block_Roundtrip\<close>, \<open>Reconcile\<close> (\<open>block/\<close>):
    block files have canonical names, are written atomically, read back whole, and opening the
    directory never unlinks the only copy of anything.
  \<^item> \<open>Store_Tables\<close> (\<open>tables.rs\<close>, \<open>store/lifecycle.rs\<close>, \<open>store/records.rs\<close>): the redb tables as ordered maps, a
    transaction as a copy of them, the life of the store and its errors.
  \<^item> \<open>Store_Ingest\<close> (\<open>store/ingest.rs\<close>, \<open>store/head.rs\<close>): the head of open series, appends, the sweep.
  \<^item> \<open>Rotation\<close> (\<open>store/rotation.rs\<close>) and \<open>Store_Writer\<close> (\<open>store/writer.rs\<close>, \<open>store/writer/files.rs\<close>): one
    group commit as the writer thread runs it, tails, log, chunks, meta rows, retention step.
  \<^item> \<open>Handoff\<close>, \<open>Block_Writer\<close> (\<open>store/handoff.rs\<close>), \<open>Store_Blocks\<close> (\<open>store/blocks.rs\<close>): spans handed to the
    block writer one at a time; the files known; the reconciliation of an open.
  \<^item> \<open>Store_Pass\<close> (\<open>store/pass.rs\<close>, \<open>store/retire.rs\<close>): a pass deletes exactly the dead chunks and retires
    only files whose holders are dead.
  \<^item> \<open>Store_Open\<close> (\<open>store/open.rs\<close>): meta rows, tails and the replay of the log.  \<open>Series_Replay\<close>: what a
    series keeps in its tail and in the log, and that a replay gives its state back.
  \<^item> The store as a whole.  \<open>Store_Spec\<close>: an abstract store, a map from series to accepted points, and that
    ingestion refines it.  \<open>Store_Commit\<close>: the invariant between head, log, tails and chunks, and that a
    commit and the rotation of the tails keep it.  \<open>Store_Recovery\<close>: the invariant after an open.
    \<open>Store_Run\<close>: every order of requests, sweeps, passes, handoffs, commits, failures, crashes and opens
    as a step relation; no accepted point is lost, a crash keeps what was committed, an append answers
    as the abstract store does, and the rows the store wrote never stop an open.

  \<^bold>\<open>The hub\<close> (\<open>system-hub/src\<close>).
  \<^item> \<open>Token_Bucket\<close> (\<open>token_bucket.rs\<close>, \<open>hourly_warning.rs\<close>): the bucket refines one that gains credit
    continuously; the interface \<open>rate_limiter\<close>, interpreted on the bucket, bounds what passes.
  \<^item> \<open>Applications\<close> (\<open>applications.rs\<close>, \<open>round_intake.rs\<close>, \<open>store_round\<close> of \<open>db/history.rs\<close>): the points of a
    round have distinct names; a round is stored whole and not again while it is remembered.
  \<^item> \<open>Registry\<close> (\<open>models.rs\<close>, \<open>registry.rs\<close>, \<open>registry_fill.rs\<close>, parts of \<open>db/mod.rs\<close> and \<open>db/sources.rs\<close>):
    what a fill writes, and that it is idempotent.
  \<^item> \<open>Presence\<close> (\<open>presence.rs\<close>, \<open>push/sweep.rs\<close>, \<open>push/connection.rs\<close>): connections as a step relation,
    with the invariant that a number stands for one task; the sweep marks exactly the overdue systems;
    a connection's decode budget holds.
  \<^item> \<open>Snapshot\<close> (\<open>snapshot.rs\<close>, \<open>snapshot_intake.rs\<close>, parts of \<open>db/history.rs\<close> and \<open>registry.rs\<close>): the rule that
    keeps or counts every value reported, the points stored with the prune of their series, the live
    metrics and the status written.
  \<^item> \<open>Mail_Intake\<close> (\<open>mail_intake/receipt.rs\<close>, \<open>ingest.rs\<close>, \<open>scan.rs\<close>, \<open>overdue.rs\<close>, \<open>config.rs\<close>, \<open>db/mail.rs\<close> and
    \<open>delete_system\<close> of \<open>db/mod.rs\<close>): reports are stored once, the registry shows the newest, the sweep marks
    exactly the overdue systems, and a scan accounts for every message it takes.

  \<^bold>\<open>The agent\<close> (\<open>src/src\<close>).
  \<^item> \<open>Usage\<close> (\<open>environment/usage.rs\<close>): percents stay on their scale.
  \<^item> \<open>Iso_Time\<close> (\<open>unix_to_iso8601\<close> of \<open>alerts.rs\<close> and of the hub's \<open>clock.rs\<close>): the printed time against the
    Gregorian calendar in closed form, its text order, and the end of its loop.
  \<^item> \<open>Alerts\<close>, \<open>Alerts_Rule\<close>, \<open>Alerts_Incidents\<close> (\<open>alerts.rs\<close>): when a rule reports and notifies, that it
    never stalls, and that incident identifiers are never reused.
  \<^item> \<open>Agent_Rounds\<close> (\<open>applications/report.rs\<close>, \<open>round.rs\<close>, \<open>wire.rs\<close>, names and interval of \<open>config.rs\<close>,
    \<open>push/application_frame.rs\<close>, and the hub's \<open>application_wire.rs\<close>): the gauges derived from two scrapes are
    sound, and a round reaches the hub as it was published.
  \<^item> \<open>Mail_Batch\<close> (\<open>mail/report.rs\<close>, \<open>mail/batch.rs\<close> and the client of \<open>mail/client.rs\<close>): when a report is due and
    what it holds.  \<open>Mail_Report\<close> (\<open>mail/report.rs\<close> and the hub's \<open>mail_intake/report.rs\<close>): the hub accepts
    what the agent makes.  \<open>Mail_Seal\<close> (\<open>mail/seal.rs\<close>, \<open>AgentId\<close> of \<open>push/identity.rs\<close>, and the hub's
    \<open>mail_intake/seal.rs\<close> and \<open>command.rs\<close>): keys, sealing and armour, and that the hub opens what the agent
    sealed.  \<open>Mail_Outbox\<close> (\<open>mail/outbox.rs\<close>, \<open>deliver\<close> of \<open>mail/client.rs\<close>): the queue of messages.

  \<^bold>\<open>Bounds.\<close>  Recursions that are not structural have termination proofs; no definition uses fuel.  A few
  properties name a bound: fewer than \<open>2 ^ 64\<close> incidents or connections, a block file of at most \<open>10 ^ 9\<close>
  chunks (the reader's own limit on the summary lies just above), clock readings of the store below
  \<open>2 ^ 63\<close>, a commit sequence number that does not wrap, fewer than \<open>2 ^ 64\<close> points in one interval, years up to 9999 for the text order.

  \<^bold>\<open>Not modelled.\<close>  The catalogue transactions (\<open>store/catalog.rs\<close>), the queries (\<open>store/query.rs\<close>), and the
  threads, channels and locks of \<open>store.rs\<close>, of which the model has the requests one by one; the hub's
  HTTP routes, timers, poller and push socket handling, and the agent's collectors, configuration,
  routes and transports, beyond the rules above: most of it is input and output through third-party
  crates.  Within the modelled files, logging, \<open>Debug\<close> and most \<open>Display\<close>
  texts are left out.
\<close>

end
